(* ===== verification/Prelude.thy ===== *)
theory Prelude
  imports Main "HOL-Library.Word" "HOL-Library.Monad_Syntax"
begin

text \<open>
  Shared vocabulary of the development: the C integer types, raw bytes in memory and on
  disk with their little-endian 16- and 32-bit views, the first-match loop that the kernel
  writes as a \<open>for\<close> over a fixed table, and the generic lemmas on lists and
  byte arrays that the component theories use.
  A function that may panic, dereference a null pointer or block for ever returns an
  \<open>option\<close>; \<open>None\<close> is that outcome and \<open>do\<close> is its sequencing.
\<close>

unbundle bit_operations_syntax

type_synonym u8 = "8 word"
type_synonym u16 = "16 word"
type_synonym u32 = "32 word"

text \<open>A block, a page or a C object seen as raw bytes, indexed from 0.\<close>

type_synonym bytes = "nat \<Rightarrow> u8"

named_theorems byte_simps \<open>reading back what was written into raw bytes\<close>

abbreviation zero_bytes :: bytes where
  "zero_bytes \<equiv> (\<lambda>_. 0)"

section \<open>Little-endian integers in raw bytes\<close>

definition get16 :: "bytes \<Rightarrow> nat \<Rightarrow> u16" where
  "get16 b i = ucast (b i) OR push_bit 8 (ucast (b (i + 1)))"

definition put16 :: "bytes \<Rightarrow> nat \<Rightarrow> u16 \<Rightarrow> bytes" where
  "put16 b i v = b(i := ucast v, i + 1 := ucast (drop_bit 8 v))"

definition get32 :: "bytes \<Rightarrow> nat \<Rightarrow> u32" where
  "get32 b i = ucast (b i) OR push_bit 8 (ucast (b (i + 1)))
     OR push_bit 16 (ucast (b (i + 2))) OR push_bit 24 (ucast (b (i + 3)))"

definition put32 :: "bytes \<Rightarrow> nat \<Rightarrow> u32 \<Rightarrow> bytes" where
  "put32 b i v = b(i := ucast v, i + 1 := ucast (drop_bit 8 v),
     i + 2 := ucast (drop_bit 16 v), i + 3 := ucast (drop_bit 24 v))"

lemma get16_put16 [byte_simps, simp]: "get16 (put16 b i v) i = v"
  by (rule bit_word_eqI)
     (auto simp: get16_def put16_def bit_or_iff bit_push_bit_iff bit_ucast_iff bit_drop_bit_eq)

lemma get32_put32 [byte_simps, simp]: "get32 (put32 b i v) i = v"
proof (rule bit_word_eqI)
  fix n assume n: "n < LENGTH(32)"
  then consider "n < 8" | "8 \<le> n" "n < 16" | "16 \<le> n" "n < 24" | "24 \<le> n" "n < 32"
    by fastforce
  then show "bit (get32 (put32 b i v) i) n = bit v n"
    by cases
       (auto simp: get32_def put32_def bit_or_iff bit_push_bit_iff bit_ucast_iff bit_drop_bit_eq)
qed

lemma get16_put16_other [byte_simps]:
  "j + 2 \<le> i \<or> i + 2 \<le> j \<Longrightarrow> get16 (put16 b i v) j = get16 b j"
  by (auto simp: get16_def put16_def)

lemma get32_put32_other [byte_simps]:
  "j + 4 \<le> i \<or> i + 4 \<le> j \<Longrightarrow> get32 (put32 b i v) j = get32 b j"
  by (auto simp: get32_def put32_def)

lemma get32_zero [simp]: "get32 zero_bytes i = 0"
  by (simp add: get32_def)

lemma get16_zero [simp]: "get16 zero_bytes i = 0"
  by (simp add: get16_def)

lemma get32_cong: "(\<And>k. k < 4 \<Longrightarrow> a (i + k) = b (j + k)) \<Longrightarrow> get32 a i = get32 b j"
proof -
  assume eq: "\<And>k. k < 4 \<Longrightarrow> a (i + k) = b (j + k)"
  show ?thesis
    using eq [of 0] eq [of 1] eq [of 2] eq [of 3] by (simp add: get32_def)
qed

lemma put32_other: "k < i \<or> i + 4 \<le> k \<Longrightarrow> put32 b i v k = b k"
  by (auto simp: put32_def)

section \<open>Copying bytes\<close>

text \<open>\<open>blit dst i src j m\<close> is \<open>dst\<close> after \<^verbatim>\<open>memmove(dst + i, src + j, m)\<close> between different objects.\<close>

definition blit :: "bytes \<Rightarrow> nat \<Rightarrow> bytes \<Rightarrow> nat \<Rightarrow> nat \<Rightarrow> bytes" where
  "blit dst i src j m = (\<lambda>k. if i \<le> k \<and> k < i + m then src (j + (k - i)) else dst k)"

lemma blit_at: "blit dst i src j m k = (if i \<le> k \<and> k < i + m then src (j + (k - i)) else dst k)"
  by (simp add: blit_def)

lemma blit_0 [simp]: "blit dst i src j 0 = dst"
  by (rule ext) (auto simp: blit_def)

lemma blit_blit: "blit (blit dst i src j m) (i + m) src (j + m) r = blit dst i src j (m + r)"
  by (rule ext) (auto simp: blit_def)

section \<open>The C int\<close>

text \<open>
  \<open>wrap32 x\<close> is the value a 32-bit signed \<^verbatim>\<open>int\<close> holds after \<open>x\<close> has been stored in it. The kernel's
  counters are integers; every increment of one that nothing bounds is wrapped with it.
\<close>

definition wrap32 :: "int \<Rightarrow> int" where
  "wrap32 x = (x + 2147483648) mod 4294967296 - 2147483648"

lemma wrap32_id [simp]: "- 2147483648 \<le> x \<Longrightarrow> x \<le> 2147483647 \<Longrightarrow> wrap32 x = x"
  by (simp add: wrap32_def mod_pos_pos_trivial)

lemma wrap32_bounds: "- 2147483648 \<le> wrap32 x \<and> wrap32 x \<le> 2147483647"
  using pos_mod_bound [of "4294967296" "x + 2147483648"] pos_mod_sign [of "4294967296" "x + 2147483648"]
  by (simp add: wrap32_def)

section \<open>First match in a table\<close>

text \<open>
  The kernel searches its fixed tables with a loop that stops at the first slot that
  satisfies a test. The result is the index of that slot.
\<close>

fun find_idx :: "('a \<Rightarrow> bool) \<Rightarrow> 'a list \<Rightarrow> nat option" where
  "find_idx P [] = None"
| "find_idx P (x # xs) = (if P x then Some 0 else map_option Suc (find_idx P xs))"

lemma find_idx_None: "find_idx P xs = None \<longleftrightarrow> (\<forall>x \<in> set xs. \<not> P x)"
  by (induction xs) auto

lemma find_idx_Some:
  "find_idx P xs = Some i \<longleftrightarrow> i < length xs \<and> P (xs ! i) \<and> (\<forall>j < i. \<not> P (xs ! j))"
proof (induction xs arbitrary: i)
  case Nil
  then show ?case by simp
next
  case (Cons x xs)
  show ?case
  proof (cases i)
    case 0
    then show ?thesis by auto
  next
    case (Suc k)
    then show ?thesis using Cons.IH [of k] by (auto simp: All_less_Suc2)
  qed
qed

lemma find_idx_SomeD:
  "find_idx P xs = Some i \<Longrightarrow> i < length xs \<and> P (xs ! i)"
  by (simp add: find_idx_Some)

text \<open>The same for a search of a list of indices.\<close>

lemma find_SomeD: "find P xs = Some x \<Longrightarrow> x \<in> set xs \<and> P x"
  by (auto simp: find_Some_iff)

lemma find_NoneD: "find P xs = None \<Longrightarrow> x \<in> set xs \<Longrightarrow> \<not> P x"
  by (auto simp: find_None_iff)

section \<open>Lists updated by index\<close>

lemma nth_update_iff:
  "i < length xs \<Longrightarrow> xs[k := v] ! i = (if i = k then v else xs ! i)"
  by (simp add: nth_list_update)

lemma list_update_comm: "i \<noteq> j \<Longrightarrow> xs[i := a, j := b] = xs[j := b, i := a]"
  by (rule list_update_swap)

section \<open>Options\<close>

lemma bind_eq_Some: "(x \<bind> f) = Some y \<longleftrightarrow> (\<exists>a. x = Some a \<and> f a = Some y)"
  by (cases x) auto

section \<open>Loops\<close>

text \<open>A \<open>for\<close> loop over a list of values whose body may fail, and a fixed sequence of calls.\<close>

fun run :: "('c \<Rightarrow> 's \<Rightarrow> 's option) \<Rightarrow> 'c list \<Rightarrow> 's \<Rightarrow> 's option" where
  "run step [] s = Some s"
| "run step (c # cs) s = step c s \<bind> run step cs"

lemma run_map: "run f (map g xs) s = run (\<lambda>x. f (g x)) xs s"
  by (induction xs arbitrary: s) (auto split: Option.bind_splits)

lemma run_append: "run step (xs @ ys) s = run step xs s \<bind> run step ys"
proof (induction xs arbitrary: s)
  case (Cons c cs)
  then show ?case by (cases "step c s") simp_all
qed simp

end
