(* ===== verification/Proc.thy ===== *)
theory Proc
  imports Prelude
begin

text \<open>
  The process table of Assignment 2 (\<^verbatim>\<open>Assignment 2/g17hybrid/proc.c\<close>): process
  creation, exit and wait, sleep and wakeup, the hybrid shortest-job-first / round-robin
  scheduler with its burst times, and the timer path of \<^verbatim>\<open>trap.c\<close>.
  Every critical section under \<^verbatim>\<open>ptable.lock\<close> is one function on the kernel state;
  a call of \<^verbatim>\<open>sched()\<close> ends the running segment and hands the CPU back to
  \<^verbatim>\<open>scheduler()\<close>, which clears \<^verbatim>\<open>c->proc\<close>. Code of stock xv6 that is not part
  of Assignment 2 (memory, files, inodes) is a record of functions on a further state
  \<open>'w\<close>, about which nothing is assumed.
\<close>

section \<open>Data\<close>

datatype procstate = UNUSED | EMBRYO | SLEEPING | RUNNABLE | RUNNING | ZOMBIE

text \<open>
  Sleep channels are the addresses of the objects slept on; only their identity matters.
  \<open>NoChan\<close> is the null pointer.
\<close>

datatype chan = NoChan | ChProc nat | ChTicks | ChAddr nat

record trapframe =
  tf_edi :: u32
  tf_esi :: u32
  tf_ebp :: u32
  tf_oesp :: u32
  tf_ebx :: u32
  tf_edx :: u32
  tf_ecx :: u32
  tf_eax :: u32
  tf_gs :: u16
  tf_fs :: u16
  tf_es :: u16
  tf_ds :: u16
  tf_trapno :: u32
  tf_err :: u32
  tf_eip :: u32
  tf_cs :: u16
  tf_eflags :: u32
  tf_esp :: u32
  tf_ss :: u16

record kcontext =
  cx_edi :: u32
  cx_esi :: u32
  cx_ebx :: u32
  cx_ebp :: u32
  cx_eip :: u32

text \<open>
  Pointers into the process table are indices, other pointers are numbers with 0 for
  null. \<open>p_tfp\<close> and \<open>p_ctxp\<close> are the addresses in the kernel stack where the trap frame
  \<open>p_tf\<close> and the saved context \<open>p_ctx\<close> live.
\<close>

record proc =
  p_sz :: u32
  p_pgdir :: nat
  p_kstack :: nat
  p_state :: procstate
  p_pid :: int
  p_parent :: "nat option"
  p_tfp :: nat
  p_tf :: trapframe
  p_ctxp :: nat
  p_ctx :: kcontext
  p_chan :: chan
  p_killed :: bool
  p_ofile :: "nat list"
  p_cwd :: nat
  p_name :: string
  p_count_contextswitch :: int
  p_burst_time :: int
  p_cpucounter :: int

definition NPROC :: nat where "NPROC = 64"
definition NOFILE :: nat where "NOFILE = 16"
definition KSTACKSIZE :: nat where "KSTACKSIZE = 4096"
definition QUANTA :: int where "QUANTA = 2"
definition INT_MAX :: int where "INT_MAX = 2147483647"

text \<open>The functions of stock xv6 that this code calls, each a transformer of the rest of the kernel.\<close>

record 'w env =
  x_kalloc :: "'w \<Rightarrow> nat \<times> 'w"
  x_kfree :: "nat \<Rightarrow> 'w \<Rightarrow> 'w"
  x_setupkvm :: "'w \<Rightarrow> nat \<times> 'w"
  x_inituvm :: "nat \<Rightarrow> 'w \<Rightarrow> 'w"
  x_allocuvm :: "nat \<Rightarrow> u32 \<Rightarrow> u32 \<Rightarrow> 'w \<Rightarrow> u32 \<times> 'w"
  x_deallocuvm :: "nat \<Rightarrow> u32 \<Rightarrow> u32 \<Rightarrow> 'w \<Rightarrow> u32 \<times> 'w"
  x_copyuvm :: "nat \<Rightarrow> u32 \<Rightarrow> 'w \<Rightarrow> nat \<times> 'w"
  x_freevm :: "nat \<Rightarrow> 'w \<Rightarrow> 'w"
  x_filedup :: "nat \<Rightarrow> 'w \<Rightarrow> nat \<times> 'w"
  x_fileclose :: "nat \<Rightarrow> 'w \<Rightarrow> 'w"
  x_idup :: "nat \<Rightarrow> 'w \<Rightarrow> nat \<times> 'w"
  x_iput :: "nat \<Rightarrow> 'w \<Rightarrow> 'w"
  x_namei :: "string \<Rightarrow> 'w \<Rightarrow> nat \<times> 'w"
  x_forkret :: u32
  x_trapret :: u32

text \<open>\<open>cpu_proc s c\<close> is \<^verbatim>\<open>cpus[c].proc\<close>, the process running on CPU \<open>c\<close>.\<close>

record 'w kernel =
  ptable :: "proc list"
  initproc :: "nat option"
  nextpid :: int
  cpu_proc :: "nat \<Rightarrow> nat option"
  ticks :: u32
  world :: 'w

definition upd_proc :: "nat \<Rightarrow> (proc \<Rightarrow> proc) \<Rightarrow> 'w kernel \<Rightarrow> 'w kernel" where
  "upd_proc i f s = s\<lparr>ptable := (ptable s)[i := f (ptable s ! i)]\<rparr>"

definition upd_all :: "(proc \<Rightarrow> proc) \<Rightarrow> 'w kernel \<Rightarrow> 'w kernel" where
  "upd_all f s = s\<lparr>ptable := map f (ptable s)\<rparr>"

text \<open>\<^verbatim>\<open>safestrcpy(d, t, n)\<close> on a string without NUL.\<close>

definition safestr :: "string \<Rightarrow> nat \<Rightarrow> string" where
  "safestr t n = take (n - 1) t"

text \<open>A process slot and the kernel data as the C runtime leaves them: all zero.\<close>

definition zero_tf :: trapframe where
  "zero_tf = \<lparr>tf_edi = 0, tf_esi = 0, tf_ebp = 0, tf_oesp = 0, tf_ebx = 0, tf_edx = 0,
     tf_ecx = 0, tf_eax = 0, tf_gs = 0, tf_fs = 0, tf_es = 0, tf_ds = 0, tf_trapno = 0,
     tf_err = 0, tf_eip = 0, tf_cs = 0, tf_eflags = 0, tf_esp = 0, tf_ss = 0\<rparr>"

definition proc0 :: proc where
  "proc0 = \<lparr>p_sz = 0, p_pgdir = 0, p_kstack = 0, p_state = UNUSED, p_pid = 0, p_parent = None,
     p_tfp = 0, p_tf = zero_tf, p_ctxp = 0,
     p_ctx = \<lparr>cx_edi = 0, cx_esi = 0, cx_ebx = 0, cx_ebp = 0, cx_eip = 0\<rparr>, p_chan = NoChan,
     p_killed = False, p_ofile = replicate NOFILE 0, p_cwd = 0, p_name = [],
     p_count_contextswitch = 0, p_burst_time = 0, p_cpucounter = 0\<rparr>"

definition kernel0 :: "'w \<Rightarrow> 'w kernel" where
  "kernel0 w = \<lparr>ptable = replicate NPROC proc0, initproc = None, nextpid = 1,
     cpu_proc = (\<lambda>_. None), ticks = 0, world = w\<rparr>"

section \<open>Process creation\<close>

definition allocproc :: "'w env \<Rightarrow> 'w kernel \<Rightarrow> nat option \<times> 'w kernel" where
  "allocproc env s =
     (case find_idx (\<lambda>p. p_state p = UNUSED) (ptable s) of
        None \<Rightarrow> (None, s)
      | Some i \<Rightarrow>
          let s1 = (upd_proc i (\<lambda>p. p\<lparr>p_state := EMBRYO, p_pid := nextpid s,
                       p_count_contextswitch := 0, p_burst_time := 0\<rparr>) s)
                     \<lparr>nextpid := wrap32 (nextpid s + 1)\<rparr>;
              (k, w) = x_kalloc env (world s1);
              s2 = upd_proc i (\<lambda>p. p\<lparr>p_kstack := k\<rparr>) (s1\<lparr>world := w\<rparr>)
          in if k = 0 then (None, upd_proc i (\<lambda>p. p\<lparr>p_state := UNUSED\<rparr>) s2)
             else (Some i, upd_proc i (\<lambda>p. p\<lparr>p_tfp := k + KSTACKSIZE - 76,
                      p_ctxp := k + KSTACKSIZE - 76 - 4 - 20,
                      p_ctx := \<lparr>cx_edi = 0, cx_esi = 0, cx_ebx = 0, cx_ebp = 0,
                                cx_eip = x_forkret env\<rparr>\<rparr>) s2))"

text \<open>Segment selectors: \<^verbatim>\<open>(SEG_UCODE << 3) | DPL_USER\<close> and \<^verbatim>\<open>(SEG_UDATA << 3) | DPL_USER\<close>.\<close>

definition userinit :: "'w env \<Rightarrow> 'w kernel \<Rightarrow> 'w kernel option" where
  "userinit env s = do {
     let (r, s1) = allocproc env s;
     p \<leftarrow> r;
     let (pg, w) = x_setupkvm env (world s1);
     if pg = 0 then None
     else do {
       let w1 = x_inituvm env pg w;
       let (cwd, w2) = x_namei env ''/'' w1;
       Some (upd_proc p (\<lambda>q. q\<lparr>p_pgdir := pg, p_sz := 4096,
               p_tf := zero_tf\<lparr>tf_cs := 3 * 8 + 3, tf_ds := 4 * 8 + 3, tf_es := 4 * 8 + 3,
                         tf_ss := 4 * 8 + 3, tf_eflags := 0x200, tf_esp := 4096, tf_eip := 0\<rparr>,
               p_name := safestr ''initcode'' 16, p_cwd := cwd, p_state := RUNNABLE\<rparr>)
             (s1\<lparr>initproc := Some p, world := w2\<rparr>))
     }
   }"

text \<open>\<^verbatim>\<open>sz + n\<close> is unsigned 32-bit arithmetic, whatever the sign of \<open>n\<close>.\<close>

definition growproc :: "'w env \<Rightarrow> nat \<Rightarrow> int \<Rightarrow> 'w kernel \<Rightarrow> (int \<times> 'w kernel) option" where
  "growproc env c n s = do {
     me \<leftarrow> cpu_proc s c;
     let sz = p_sz (ptable s ! me);
     let pg = p_pgdir (ptable s ! me);
     let (r, w) = (if n > 0 then x_allocuvm env pg sz (sz + word_of_int n) (world s)
                   else if n < 0 then x_deallocuvm env pg sz (sz + word_of_int n) (world s)
                   else (sz, world s));
     if n \<noteq> 0 \<and> r = 0 then Some (- 1, s\<lparr>world := w\<rparr>)
     else Some (0, upd_proc me (\<lambda>p. p\<lparr>p_sz := r\<rparr>) (s\<lparr>world := w\<rparr>))
   }"

text \<open>The loop of \<open>fork\<close> over the descriptors: only non-null entries are duplicated.\<close>

fun dup_files :: "'w env \<Rightarrow> nat list \<Rightarrow> nat list \<Rightarrow> 'w \<Rightarrow> nat list \<times> 'w" where
  "dup_files env (f # fs) (g # gs) w =
     (let (h, w1) = (if f \<noteq> 0 then x_filedup env f w else (g, w));
          (hs, w2) = dup_files env fs gs w1
      in (h # hs, w2))"
| "dup_files env _ gs w = (gs, w)"

definition fork :: "'w env \<Rightarrow> nat \<Rightarrow> 'w kernel \<Rightarrow> (int \<times> 'w kernel) option" where
  "fork env c s = do {
     me \<leftarrow> cpu_proc s c;
     let (r, s1) = allocproc env s;
     case r of
       None \<Rightarrow> Some (- 1, s1)
     | Some np \<Rightarrow>
         let cur = ptable s1 ! me;
             (pg, w) = x_copyuvm env (p_pgdir cur) (p_sz cur) (world s1)
         in if pg = 0 then
              Some (- 1, upd_proc np (\<lambda>p. p\<lparr>p_pgdir := 0, p_kstack := 0, p_state := UNUSED\<rparr>)
                           (s1\<lparr>world := x_kfree env (p_kstack (ptable s1 ! np)) w\<rparr>))
            else
              let (fs, w1) = dup_files env (p_ofile cur) (p_ofile (ptable s1 ! np)) w;
                  (cwd, w2) = x_idup env (p_cwd cur) w1;
                  s2 = upd_proc np (\<lambda>p. p\<lparr>p_pgdir := pg, p_sz := p_sz cur, p_parent := Some me,
                          p_tf := (p_tf cur)\<lparr>tf_eax := 0\<rparr>, p_ofile := fs, p_cwd := cwd,
                          p_name := safestr (p_name cur) 16\<rparr>) (s1\<lparr>world := w2\<rparr>);
                  pid = p_pid (ptable s2 ! np)
              in Some (pid, upd_proc np (\<lambda>p. p\<lparr>p_state := RUNNABLE\<rparr>) s2)
   }"

section \<open>Sleep, wakeup, and giving up the CPU\<close>

text \<open>
  \<open>sched\<close>: panics if the process is still \<open>RUNNING\<close>; otherwise \<^verbatim>\<open>swtch\<close> returns into
  \<open>scheduler\<close>, whose next statement is \<^verbatim>\<open>c->proc = 0\<close>.
\<close>

definition sched :: "nat \<Rightarrow> 'w kernel \<Rightarrow> 'w kernel option" where
  "sched c s = do {
     p \<leftarrow> cpu_proc s c;
     if p_state (ptable s ! p) = RUNNING then None
     else Some (s\<lparr>cpu_proc := (cpu_proc s)(c := None)\<rparr>)
   }"

definition yield :: "nat \<Rightarrow> 'w kernel \<Rightarrow> 'w kernel option" where
  "yield c s = do {
     p \<leftarrow> cpu_proc s c;
     sched c (upd_proc p (\<lambda>q. q\<lparr>p_state := RUNNABLE\<rparr>) s)
   }"

text \<open>
  \<open>sleep\<close> up to its call of \<open>sched\<close>, and \<open>sleep_resume\<close>, what it does when the process
  runs again. The lock that is released on the way is not part of the state.
\<close>

definition sleep :: "nat \<Rightarrow> chan \<Rightarrow> 'w kernel \<Rightarrow> 'w kernel option" where
  "sleep c ch s = do {
     p \<leftarrow> cpu_proc s c;
     sched c (upd_proc p (\<lambda>q. q\<lparr>p_chan := ch, p_state := SLEEPING\<rparr>) s)
   }"

definition sleep_resume :: "nat \<Rightarrow> 'w kernel \<Rightarrow> 'w kernel option" where
  "sleep_resume c s = do {
     p \<leftarrow> cpu_proc s c;
     Some (upd_proc p (\<lambda>q. q\<lparr>p_chan := NoChan\<rparr>) s)
   }"

definition wake_proc :: "chan \<Rightarrow> proc \<Rightarrow> proc" where
  "wake_proc ch p = (if p_state p = SLEEPING \<and> p_chan p = ch then p\<lparr>p_state := RUNNABLE\<rparr> else p)"

definition wakeup1 :: "chan \<Rightarrow> 'w kernel \<Rightarrow> 'w kernel" where
  "wakeup1 ch s = upd_all (wake_proc ch) s"

definition wakeup :: "chan \<Rightarrow> 'w kernel \<Rightarrow> 'w kernel" where
  "wakeup ch s = wakeup1 ch s"

definition kill :: "int \<Rightarrow> 'w kernel \<Rightarrow> int \<times> 'w kernel" where
  "kill pid s =
     (case find_idx (\<lambda>p. p_pid p = pid) (ptable s) of
        Some i \<Rightarrow> (0, upd_proc i (\<lambda>p. p\<lparr>p_killed := True,
                       p_state := (if p_state p = SLEEPING then RUNNABLE else p_state p)\<rparr>) s)
      | None \<Rightarrow> (- 1, s))"

section \<open>Exit and wait\<close>

fun close_files :: "'w env \<Rightarrow> nat list \<Rightarrow> 'w \<Rightarrow> nat list \<times> 'w" where
  "close_files env [] w = ([], w)"
| "close_files env (f # fs) w =
     (let w1 = (if f \<noteq> 0 then x_fileclose env f w else w);
          (gs, w2) = close_files env fs w1
      in (0 # gs, w2))"

definition chan_of :: "nat option \<Rightarrow> chan" where
  "chan_of po = (case po of None \<Rightarrow> NoChan | Some i \<Rightarrow> ChProc i)"

text \<open>The loop of \<open>exit\<close> that passes abandoned children to init, one slot at a time.\<close>

fun reparent :: "nat \<Rightarrow> nat list \<Rightarrow> 'w kernel \<Rightarrow> 'w kernel" where
  "reparent me [] s = s"
| "reparent me (i # is) s =
     reparent me is
       (if p_parent (ptable s ! i) = Some me then
          let s1 = upd_proc i (\<lambda>p. p\<lparr>p_parent := initproc s\<rparr>) s
          in if p_state (ptable s1 ! i) = ZOMBIE then wakeup1 (chan_of (initproc s1)) s1 else s1
        else s)"

definition exit :: "'w env \<Rightarrow> nat \<Rightarrow> 'w kernel \<Rightarrow> 'w kernel option" where
  "exit env c s = do {
     me \<leftarrow> cpu_proc s c;
     if Some me = initproc s then None
     else do {
       let (fs, w) = close_files env (p_ofile (ptable s ! me)) (world s);
       let s1 = upd_proc me (\<lambda>p. p\<lparr>p_ofile := fs, p_cwd := 0\<rparr>)
                  (s\<lparr>world := x_iput env (p_cwd (ptable s ! me)) w\<rparr>);
       let s2 = wakeup1 (chan_of (p_parent (ptable s1 ! me))) s1;
       let s3 = reparent me [0..<length (ptable s2)] s2;
       sched c (upd_proc me (\<lambda>p. p\<lparr>p_state := ZOMBIE\<rparr>) s3)
     }
   }"

text \<open>
  One round of the loop of \<open>wait\<close>: \<open>Inl r\<close> is its return value, \<open>Inr ()\<close> that the
  process went to sleep on itself and repeats the scan when it is woken.
\<close>

definition wait :: "'w env \<Rightarrow> nat \<Rightarrow> 'w kernel \<Rightarrow> ((int + unit) \<times> 'w kernel) option" where
  "wait env c s = do {
     me \<leftarrow> cpu_proc s c;
     case find_idx (\<lambda>p. p_parent p = Some me \<and> p_state p = ZOMBIE) (ptable s) of
       Some i \<Rightarrow>
         let p = ptable s ! i
         in Some (Inl (p_pid p),
                  upd_proc i (\<lambda>q. q\<lparr>p_kstack := 0, p_pid := 0, p_parent := None,
                                p_name := [], p_killed := False, p_state := UNUSED\<rparr>)
                    (s\<lparr>world := x_freevm env (p_pgdir p) (x_kfree env (p_kstack p) (world s))\<rparr>))
     | None \<Rightarrow>
         if (\<forall>p \<in> set (ptable s). p_parent p \<noteq> Some me) \<or> p_killed (ptable s ! me)
         then Some (Inl (- 1), s)
         else do {
           s1 \<leftarrow> sleep c (ChProc me) s;
           Some (Inr (), s1)
         }
   }"

section \<open>The scheduler\<close>

text \<open>
  The selection loop of \<open>scheduler\<close>. \<open>low\<close> and \<open>mn\<close> are \<^verbatim>\<open>lowest_bt\<close> and
  \<^verbatim>\<open>currentMin\<close>. The second test reads \<^verbatim>\<open>lowest_bt->pid\<close> first: if no process has
  been chosen yet that is a null pointer, and the outcome is \<open>None\<close>.
\<close>

fun sjf_scan :: "proc list \<Rightarrow> nat list \<Rightarrow> nat option \<Rightarrow> int \<Rightarrow> nat option option" where
  "sjf_scan pt [] low mn = Some low"
| "sjf_scan pt (i # is) low mn =
     (let p1 = pt ! i
      in if p_state p1 \<noteq> RUNNABLE then sjf_scan pt is low mn
         else if p_burst_time p1 < mn then sjf_scan pt is (Some i) (p_burst_time p1)
         else case low of
             None \<Rightarrow> None
           | Some l \<Rightarrow>
               if p_pid p1 < p_pid (pt ! l) \<and> p_burst_time p1 = mn
               then sjf_scan pt is (Some i) mn
               else sjf_scan pt is low mn)"

definition sjf_pick :: "proc list \<Rightarrow> nat option option" where
  "sjf_pick pt = sjf_scan pt [0..<length pt] None INT_MAX"

text \<open>One round of the \<^verbatim>\<open>for(;;)\<close> loop, up to the \<^verbatim>\<open>swtch\<close> into the chosen process.\<close>

definition scheduler :: "nat \<Rightarrow> 'w kernel \<Rightarrow> 'w kernel option" where
  "scheduler c s = do {
     lowest_bt \<leftarrow> sjf_pick (ptable s);
     case lowest_bt of
       None \<Rightarrow> Some s
     | Some p \<Rightarrow>
         Some (upd_proc p (\<lambda>q. q\<lparr>p_count_contextswitch := wrap32 (p_count_contextswitch q + 1),
                 p_state := RUNNING, p_cpucounter := 0\<rparr>)
               (s\<lparr>cpu_proc := (cpu_proc s)(c := Some p)\<rparr>))
   }"

text \<open>The same round in \<^verbatim>\<open>g17/proc.c\<close>, which has no \<^verbatim>\<open>cpucounter\<close>.\<close>

definition scheduler_sjf :: "nat \<Rightarrow> 'w kernel \<Rightarrow> 'w kernel option" where
  "scheduler_sjf c s = do {
     lowest_bt \<leftarrow> sjf_pick (ptable s);
     case lowest_bt of
       None \<Rightarrow> Some s
     | Some p \<Rightarrow>
         Some (upd_proc p (\<lambda>q. q\<lparr>p_count_contextswitch := wrap32 (p_count_contextswitch q + 1),
                 p_state := RUNNING\<rparr>)
               (s\<lparr>cpu_proc := (cpu_proc s)(c := Some p)\<rparr>))
   }"

section \<open>Burst times and process information\<close>

definition set_burst_time :: "nat \<Rightarrow> int \<Rightarrow> 'w kernel \<Rightarrow> (int \<times> 'w kernel) option" where
  "set_burst_time c bt s = do {
     p \<leftarrow> cpu_proc s c;
     let s1 = upd_proc p (\<lambda>q. q\<lparr>p_burst_time := bt\<rparr>) s;
     s2 \<leftarrow> yield c s1;
     Some (0, s2)
   }"

definition get_burst_time :: "nat \<Rightarrow> 'w kernel \<Rightarrow> int option" where
  "get_burst_time c s = do {
     p \<leftarrow> cpu_proc s c;
     Some (p_burst_time (ptable s ! p))
   }"

definition dec_burstTime :: "nat \<Rightarrow> 'w kernel \<Rightarrow> 'w kernel option" where
  "dec_burstTime c s = do {
     p \<leftarrow> cpu_proc s c;
     Some (upd_proc p (\<lambda>q. q\<lparr>p_burst_time :=
        (if p_burst_time q < 0 then - 1 else p_burst_time q - QUANTA)\<rparr>) s)
   }"

definition inc_cpucounter :: "nat \<Rightarrow> 'w kernel \<Rightarrow> (int \<times> 'w kernel) option" where
  "inc_cpucounter c s = do {
     p \<leftarrow> cpu_proc s c;
     let res = wrap32 (p_cpucounter (ptable s ! p) + 1);
     Some (res, upd_proc p (\<lambda>q. q\<lparr>p_cpucounter := wrap32 (p_cpucounter q + 1)\<rparr>) s)
   }"

definition getNumProc :: "'w kernel \<Rightarrow> int" where
  "getNumProc s = int (length (filter (\<lambda>p. p_state p \<noteq> UNUSED) (ptable s)))"

fun max_pid_scan :: "proc list \<Rightarrow> int \<Rightarrow> int" where
  "max_pid_scan [] m = m"
| "max_pid_scan (p # ps) m = max_pid_scan ps (if p_pid p > m then p_pid p else m)"

definition getMaxPid :: "'w kernel \<Rightarrow> int" where
  "getMaxPid s = max_pid_scan (ptable s) (- 1)"

record processInfo =
  ppid :: int
  psize :: u32
  numberContextSwitches :: int

text \<open>
  \<open>getProcInfo\<close> returns its flag and what it stores through \<^verbatim>\<open>pif\<close> (\<open>None\<close> if nothing).
  \<^verbatim>\<open>p->parent->pid\<close> with a null parent is the outcome \<open>None\<close>.
\<close>

definition getProcInfo :: "int \<Rightarrow> 'w kernel \<Rightarrow> (int \<times> processInfo option) option" where
  "getProcInfo pid s =
     (case find_idx (\<lambda>p. p_pid p = pid) (ptable s) of
        None \<Rightarrow> Some (- 1, None)
      | Some i \<Rightarrow>
          let p = ptable s ! i
          in do {
            par \<leftarrow> p_parent p;
            Some (0, Some \<lparr>ppid = p_pid (ptable s ! par), psize = p_sz p,
                           numberContextSwitches = p_count_contextswitch p\<rparr>)
          })"

text \<open>The lines \<open>process_state\<close> prints: name, pid, state and burst time of every used slot.\<close>

definition process_state :: "'w kernel \<Rightarrow> (string \<times> int \<times> procstate \<times> int) list" where
  "process_state s =
     map (\<lambda>p. (p_name p, p_pid p, p_state p, p_burst_time p))
       (filter (\<lambda>p. p_state p \<in> {ZOMBIE, RUNNABLE, EMBRYO, RUNNING, SLEEPING}) (ptable s))"

section \<open>The trap handler\<close>

text \<open>
  \<open>TrapDone\<close>: the handler returned to the interrupted code. \<open>TrapExited\<close>: it called
  \<open>exit\<close>. \<open>TrapYielded\<close>: it gave up the CPU; \<open>trap_resume\<close> is what is left to do when
  the process runs again.
\<close>

datatype trap_end = TrapDone | TrapExited | TrapYielded

definition T_SYSCALL :: u32 where "T_SYSCALL = 64"
definition T_IRQ0 :: u32 where "T_IRQ0 = 32"
definition IRQ_TIMER :: u32 where "IRQ_TIMER = 0"
definition IRQ_KBD :: u32 where "IRQ_KBD = 1"
definition IRQ_COM1 :: u32 where "IRQ_COM1 = 4"
definition IRQ_IDE :: u32 where "IRQ_IDE = 14"
definition IRQ_SPURIOUS :: u32 where "IRQ_SPURIOUS = 31"
definition DPL_USER :: u16 where "DPL_USER = 3"

definition killed_now :: "nat \<Rightarrow> 'w kernel \<Rightarrow> bool" where
  "killed_now c s = (case cpu_proc s c of None \<Rightarrow> False | Some p \<Rightarrow> p_killed (ptable s ! p))"

text \<open>Device interrupts of the \<^verbatim>\<open>switch\<close>: \<open>dev\<close> stands for the handlers of the other drivers.\<close>

definition trap_switch ::
  "(u32 \<Rightarrow> 'w \<Rightarrow> 'w) \<Rightarrow> nat \<Rightarrow> trapframe \<Rightarrow> 'w kernel \<Rightarrow> 'w kernel option" where
  "trap_switch dev c tf s =
     (let t = tf_trapno tf
      in if t = T_IRQ0 + IRQ_TIMER then
           Some (if c = 0 then wakeup ChTicks (s\<lparr>ticks := ticks s + 1\<rparr>) else s)
         else if t = T_IRQ0 + IRQ_IDE \<or> t = T_IRQ0 + IRQ_KBD \<or> t = T_IRQ0 + IRQ_COM1 then
           Some (s\<lparr>world := dev t (world s)\<rparr>)
         else if t = T_IRQ0 + IRQ_IDE + 1 \<or> t = T_IRQ0 + 7 \<or> t = T_IRQ0 + IRQ_SPURIOUS then Some s
         else case cpu_proc s c of
             None \<Rightarrow> None
           | Some p \<Rightarrow> if tf_cs tf AND 3 = 0 then None
                       else Some (upd_proc p (\<lambda>q. q\<lparr>p_killed := True\<rparr>) s))"

text \<open>The last test of \<open>trap\<close>: has the process been killed since it yielded?\<close>

definition trap_resume ::
  "'w env \<Rightarrow> nat \<Rightarrow> trapframe \<Rightarrow> 'w kernel \<Rightarrow> (trap_end \<times> 'w kernel) option" where
  "trap_resume env c tf s =
     (if killed_now c s \<and> tf_cs tf AND 3 = DPL_USER then do {
        s1 \<leftarrow> exit env c s; Some (TrapExited, s1)
      } else Some (TrapDone, s))"

text \<open>The part of \<open>trap\<close> after the \<^verbatim>\<open>switch\<close>: forced exit, the quantum test, forced exit again.\<close>

definition trap_tail ::
  "'w env \<Rightarrow> nat \<Rightarrow> trapframe \<Rightarrow> 'w kernel \<Rightarrow> (trap_end \<times> 'w kernel) option" where
  "trap_tail env c tf s =
     (if killed_now c s \<and> tf_cs tf AND 3 = DPL_USER then do {
        s1 \<leftarrow> exit env c s; Some (TrapExited, s1)
      } else case cpu_proc s c of
        None \<Rightarrow> trap_resume env c tf s
      | Some p \<Rightarrow>
          if p_state (ptable s ! p) = RUNNING \<and> tf_trapno tf = T_IRQ0 + IRQ_TIMER then do {
            (n, s1) \<leftarrow> inc_cpucounter c s;
            if n = QUANTA then do {
              s2 \<leftarrow> dec_burstTime c s1;
              let s3 = upd_proc p (\<lambda>q. q\<lparr>p_cpucounter := 0\<rparr>) s2;
              s4 \<leftarrow> yield c s3;
              Some (TrapYielded, s4)
            } else trap_resume env c tf s1
          } else trap_resume env c tf s)"

text \<open>
  \<open>trap\<close> itself. The system call dispatcher is the parameter \<open>sysc\<close>; it may itself end
  by giving up the CPU.
\<close>

definition trap ::
  "'w env \<Rightarrow> (u32 \<Rightarrow> 'w \<Rightarrow> 'w) \<Rightarrow> (nat \<Rightarrow> 'w kernel \<Rightarrow> (trap_end \<times> 'w kernel) option) \<Rightarrow>
   nat \<Rightarrow> trapframe \<Rightarrow> 'w kernel \<Rightarrow> (trap_end \<times> 'w kernel) option" where
  "trap env dev sysc c tf s =
     (if tf_trapno tf = T_SYSCALL then do {
        p \<leftarrow> cpu_proc s c;
        if p_killed (ptable s ! p) then do { s1 \<leftarrow> exit env c s; Some (TrapExited, s1) }
        else do {
          (e, s1) \<leftarrow> sysc c (upd_proc p (\<lambda>q. q\<lparr>p_tf := tf\<rparr>) s);
          if e = TrapDone \<and> killed_now c s1
          then do { s2 \<leftarrow> exit env c s1; Some (TrapExited, s2) }
          else Some (e, s1)
        }
      } else do {
        s1 \<leftarrow> trap_switch dev c tf s;
        trap_tail env c tf s1
      })"
end
