(* ===== verification/ProcSched.thy ===== *)
theory ProcSched
  imports Proc
begin

text \<open>
  The scheduling policy of Assignment 2: the selection loop picks the least process in the
  order of burst time, then pid, or reads through a null pointer in one exactly
  characterised case; a dispatched process runs for exactly \<open>QUANTA\<close> timer ticks.
\<close>

lemma upd_proc_simps [simp]:
  "cpu_proc (upd_proc i f s) = cpu_proc s"
  "initproc (upd_proc i f s) = initproc s"
  "nextpid (upd_proc i f s) = nextpid s"
  "ticks (upd_proc i f s) = ticks s"
  "world (upd_proc i f s) = world s"
  "ptable (upd_proc i f s) = (ptable s)[i := f (ptable s ! i)]"
  by (simp_all add: upd_proc_def)

lemma upd_all_simps [simp]:
  "cpu_proc (upd_all f s) = cpu_proc s"
  "initproc (upd_all f s) = initproc s"
  "nextpid (upd_all f s) = nextpid s"
  "ticks (upd_all f s) = ticks s"
  "world (upd_all f s) = world s"
  "ptable (upd_all f s) = map f (ptable s)"
  by (simp_all add: upd_all_def)

lemma wake_proc_frame [simp]:
  "p_pid (wake_proc ch p) = p_pid p"
  "p_burst_time (wake_proc ch p) = p_burst_time p"
  "p_cpucounter (wake_proc ch p) = p_cpucounter p"
  "p_killed (wake_proc ch p) = p_killed p"
  "p_parent (wake_proc ch p) = p_parent p"
  "p_kstack (wake_proc ch p) = p_kstack p"
  "p_chan (wake_proc ch p) = p_chan p"
  by (simp_all add: wake_proc_def)

lemma wake_proc_awake [simp]: "p_state p \<noteq> SLEEPING \<Longrightarrow> wake_proc ch p = p"
  by (simp add: wake_proc_def)

lemma wake_proc_state:
  "p_state (wake_proc ch p) =
     (if p_state p = SLEEPING \<and> p_chan p = ch then RUNNABLE else p_state p)"
  by (simp add: wake_proc_def)

section \<open>The selection loop\<close>

text \<open>The scheduling order: shorter burst first, smaller pid among equals.\<close>

datatype sjf_key = Key int int

instantiation sjf_key :: linorder
begin

fun less_eq_sjf_key :: "sjf_key \<Rightarrow> sjf_key \<Rightarrow> bool" where
  "less_eq_sjf_key (Key b p) (Key b' p') \<longleftrightarrow> b < b' \<or> b = b' \<and> p \<le> p'"

definition less_sjf_key :: "sjf_key \<Rightarrow> sjf_key \<Rightarrow> bool" where
  "less_sjf_key x y \<longleftrightarrow> x \<le> y \<and> \<not> y \<le> x"

instance
proof
  fix x y z :: sjf_key
  show "x < y \<longleftrightarrow> x \<le> y \<and> \<not> y \<le> x" by (rule less_sjf_key_def)
  show "x \<le> x" by (cases x) simp
  show "x \<le> z" if "x \<le> y" "y \<le> z" using that by (cases x; cases y; cases z) auto
  show "x = y" if "x \<le> y" "y \<le> x" using that by (cases x; cases y) auto
  show "x \<le> y \<or> y \<le> x" by (cases x; cases y) auto
qed

end

definition sjf_key :: "proc \<Rightarrow> sjf_key" where
  "sjf_key p = Key (p_burst_time p) (p_pid p)"

definition sjf_before :: "proc \<Rightarrow> proc \<Rightarrow> bool" where
  "sjf_before p q \<longleftrightarrow> sjf_key p \<le> sjf_key q"

lemma sjf_before_iff:
  "sjf_before p q \<longleftrightarrow> p_burst_time p < p_burst_time q \<or> p_burst_time p = p_burst_time q \<and> p_pid p \<le> p_pid q"
  by (simp add: sjf_before_def sjf_key_def)

lemma sjf_before_refl [simp]: "sjf_before p p"
  by (simp add: sjf_before_def)

lemma sjf_before_trans: "sjf_before p q \<Longrightarrow> sjf_before q r \<Longrightarrow> sjf_before p r"
  unfolding sjf_before_def by (rule order_trans)

lemma sjf_scan_chosen:
  "\<exists>i. sjf_scan pt is (Some l) (p_burst_time (pt ! l)) = Some (Some i) \<and>
     (i = l \<or> i \<in> set is \<and> p_state (pt ! i) = RUNNABLE) \<and> sjf_before (pt ! i) (pt ! l) \<and>
     (\<forall>j \<in> set is. p_state (pt ! j) = RUNNABLE \<longrightarrow> sjf_before (pt ! i) (pt ! j))"
proof (induction "is" arbitrary: l)
  case Nil
  then show ?case by simp
next
  case (Cons k ks)
  consider (skip) "p_state (pt ! k) \<noteq> RUNNABLE"
    | (less) "p_state (pt ! k) = RUNNABLE" "p_burst_time (pt ! k) < p_burst_time (pt ! l)"
    | (tie) "p_state (pt ! k) = RUNNABLE" "p_burst_time (pt ! k) = p_burst_time (pt ! l)"
            "p_pid (pt ! k) < p_pid (pt ! l)"
    | (keep) "p_state (pt ! k) = RUNNABLE" "\<not> p_burst_time (pt ! k) < p_burst_time (pt ! l)"
            "\<not> (p_pid (pt ! k) < p_pid (pt ! l) \<and> p_burst_time (pt ! k) = p_burst_time (pt ! l))"
    by fastforce
  then show ?case
  proof cases
    case skip
    with Cons.IH [of l] show ?thesis by auto
  next
    case less
    then have "sjf_before (pt ! k) (pt ! l)" by (simp add: sjf_before_iff)
    with less Cons.IH [of k] show ?thesis
      by (auto simp: Let_def intro: sjf_before_trans)
  next
    case tie
    then have "sjf_before (pt ! k) (pt ! l)" by (simp add: sjf_before_iff)
    with tie Cons.IH [of k] show ?thesis
      by (auto simp: Let_def intro: sjf_before_trans)
  next
    case keep
    then have "sjf_before (pt ! l) (pt ! k)" by (auto simp: sjf_before_iff)
    with keep Cons.IH [of l] show ?thesis
      by (auto simp: Let_def intro: sjf_before_trans)
  qed
qed

lemma sjf_scan_none:
  "\<forall>j \<in> set is. p_state (pt ! j) \<noteq> RUNNABLE \<Longrightarrow> sjf_scan pt is low mn = Some low"
  by (induction "is") (auto simp: Let_def)

lemma sjf_scan_skip:
  "\<forall>j \<in> set is. p_state (pt ! j) \<noteq> RUNNABLE \<Longrightarrow>
     sjf_scan pt (is @ js) low mn = sjf_scan pt js low mn"
  by (induction "is") (auto simp: Let_def)

lemma sjf_pick_outcomes:
  "case find_idx (\<lambda>p. p_state p = RUNNABLE) pt of
     None \<Rightarrow> sjf_pick pt = Some None
   | Some f \<Rightarrow>
       if INT_MAX \<le> p_burst_time (pt ! f) then sjf_pick pt = None
       else \<exists>i < length pt. sjf_pick pt = Some (Some i) \<and> p_state (pt ! i) = RUNNABLE \<and>
              list_all (\<lambda>q. p_state q \<noteq> RUNNABLE \<or> sjf_before (pt ! i) q) pt"
proof (cases "find_idx (\<lambda>p. p_state p = RUNNABLE) pt")
  case None
  then have "\<forall>j \<in> set [0..<length pt]. p_state (pt ! j) \<noteq> RUNNABLE"
    by (auto simp: find_idx_None)
  with None show ?thesis by (simp add: sjf_pick_def sjf_scan_none)
next
  case (Some f)
  then have f: "f < length pt" "p_state (pt ! f) = RUNNABLE"
    and before: "\<forall>j < f. p_state (pt ! j) \<noteq> RUNNABLE"
    by (auto simp: find_idx_Some)
  have split: "[0..<length pt] = [0..<f] @ f # [Suc f..<length pt]"
    using f(1) by (metis append_Cons append_self_conv2 le0 less_imp_le_nat upt_add_eq_append
        upt_conv_Cons le_add_diff_inverse)
  have scan: "sjf_pick pt = sjf_scan pt (f # [Suc f..<length pt]) None INT_MAX"
    unfolding sjf_pick_def split by (rule sjf_scan_skip) (use before in auto)
  show ?thesis
  proof (cases "INT_MAX \<le> p_burst_time (pt ! f)")
    case True
    with scan f Some show ?thesis by simp
  next
    case False
    obtain i where i: "sjf_scan pt [Suc f..<length pt] (Some f) (p_burst_time (pt ! f)) = Some (Some i)"
      "i = f \<or> i \<in> set [Suc f..<length pt] \<and> p_state (pt ! i) = RUNNABLE"
      "sjf_before (pt ! i) (pt ! f)"
      "\<forall>j \<in> set [Suc f..<length pt]. p_state (pt ! j) = RUNNABLE \<longrightarrow> sjf_before (pt ! i) (pt ! j)"
      using sjf_scan_chosen by blast
    have "p_state (pt ! j) \<noteq> RUNNABLE \<or> sjf_before (pt ! i) (pt ! j)" if "j < length pt" for j
      using i(3,4) before that by (cases j f rule: linorder_cases) auto
    with i f False Some scan show ?thesis
      by (auto simp: Let_def list_all_length intro!: exI [of _ i])
  qed
qed

text \<open>
  C1. The complete behaviour of the scheduler's selection loop. With no runnable process it
  chooses none. Otherwise let \<open>f\<close> be the first runnable slot: if its burst time is
  \<open>INT_MAX\<close> (or more), the loop dereferences the null \<^verbatim>\<open>lowest_bt\<close>; in every other case it
  chooses a runnable process that comes first in the order of burst time and then pid.
\<close>

theorem sjf_pick_spec:
  "case find_idx (\<lambda>p. p_state p = RUNNABLE) pt of
     None \<Rightarrow> sjf_pick pt = Some None
   | Some f \<Rightarrow>
       if INT_MAX \<le> p_burst_time (pt ! f) then sjf_pick pt = None
       else \<exists>i < length pt. sjf_pick pt = Some (Some i) \<and> p_state (pt ! i) = RUNNABLE \<and>
              list_all (\<lambda>q. p_state q \<noteq> RUNNABLE \<or> sjf_before (pt ! i) q) pt"
  by (rule sjf_pick_outcomes)

lemma proc0_simps [simp]:
  "p_state proc0 = UNUSED" "p_pid proc0 = 0" "p_parent proc0 = None" "p_killed proc0 = False"
  "p_burst_time proc0 = 0" "p_cpucounter proc0 = 0" "p_chan proc0 = NoChan" "p_kstack proc0 = 0"
  "p_ofile proc0 = replicate NOFILE 0" "p_count_contextswitch proc0 = 0" "p_tf proc0 = zero_tf"
  by (simp_all add: proc0_def)

lemma sjf_pick_spec_witness:
  "\<exists>i < 3. sjf_pick [proc0\<lparr>p_state := RUNNABLE, p_burst_time := 7, p_pid := 1\<rparr>,
      proc0\<lparr>p_state := RUNNABLE, p_burst_time := 4, p_pid := 3\<rparr>,
      proc0\<lparr>p_state := RUNNABLE, p_burst_time := 4, p_pid := 2\<rparr>] = Some (Some i) \<and> i = 2"
  using sjf_pick_spec [of "[proc0\<lparr>p_state := RUNNABLE, p_burst_time := 7, p_pid := 1\<rparr>,
      proc0\<lparr>p_state := RUNNABLE, p_burst_time := 4, p_pid := 3\<rparr>,
      proc0\<lparr>p_state := RUNNABLE, p_burst_time := 4, p_pid := 2\<rparr>]"]
  by (auto simp: INT_MAX_def sjf_before_iff less_Suc_eq numeral_3_eq_3)

text \<open>The chosen process has the least key of all runnable ones.\<close>

lemma sjf_pick_Min:
  assumes "sjf_pick pt = Some (Some i)"
  shows "i < length pt \<and> p_state (pt ! i) = RUNNABLE \<and> sjf_key (pt ! i) = Min (sjf_key ` {q \<in> set pt. p_state q = RUNNABLE})"
proof -
  obtain f where f: "find_idx (\<lambda>p. p_state p = RUNNABLE) pt = Some f"
    using sjf_pick_outcomes [of pt] assms by (cases "find_idx (\<lambda>p. p_state p = RUNNABLE) pt") simp_all
  have i: "i < length pt" "p_state (pt ! i) = RUNNABLE" and least: "list_all (\<lambda>q. p_state q \<noteq> RUNNABLE \<or> sjf_before (pt ! i) q) pt"
    using sjf_pick_outcomes [of pt] assms f by (auto split: if_splits)
  have "Min (sjf_key ` {q \<in> set pt. p_state q = RUNNABLE}) = sjf_key (pt ! i)"
    by (rule Min_eqI) (use i least in \<open>auto simp: list_all_iff sjf_before_def\<close>)
  then show ?thesis using i by simp
qed

section \<open>The time quantum\<close>

lemma trap_timer_unfold:
  assumes "tf_trapno tf = T_IRQ0 + IRQ_TIMER"
  shows "trap env dev sysc c tf s =
           trap_tail env c tf (if c = 0 then wakeup ChTicks (s\<lparr>ticks := ticks s + 1\<rparr>) else s)"
  using assms
  by (simp add: trap_def trap_switch_def T_SYSCALL_def T_IRQ0_def IRQ_TIMER_def)

text \<open>Waking other sleepers does not touch a running process.\<close>

lemma wakeup_running:
  "p < length (ptable s) \<Longrightarrow> p_state (ptable s ! p) = RUNNING \<Longrightarrow>
     ptable (wakeup ch s) ! p = ptable s ! p"
  by (simp add: wakeup_def wakeup1_def)

lemma wakeup_frame [simp]:
  "cpu_proc (wakeup ch s) = cpu_proc s" "length (ptable (wakeup ch s)) = length (ptable s)"
  by (simp_all add: wakeup_def wakeup1_def)

text \<open>The state in which the tail of \<open>trap\<close> runs on a timer interrupt.\<close>

definition ticked :: "nat \<Rightarrow> 'w kernel \<Rightarrow> 'w kernel" where
  "ticked c s = (if c = 0 then wakeup ChTicks (s\<lparr>ticks := ticks s + 1\<rparr>) else s)"

lemma ticked_running:
  assumes "p < length (ptable s)" "p_state (ptable s ! p) = RUNNING"
  shows "ptable (ticked c s) ! p = ptable s ! p" "cpu_proc (ticked c s) = cpu_proc s"
    "length (ptable (ticked c s)) = length (ptable s)"
  using assms wakeup_running [of p "s\<lparr>ticks := ticks s + 1\<rparr>" ChTicks]
  by (auto simp: ticked_def)

definition quantum_left :: "nat \<Rightarrow> nat \<Rightarrow> int \<Rightarrow> 'w kernel \<Rightarrow> bool" where
  "quantum_left c p n s \<longleftrightarrow> cpu_proc s c = Some p \<and> p < length (ptable s) \<and>
     p_state (ptable s ! p) = RUNNING \<and> \<not> p_killed (ptable s ! p) \<and>
     p_cpucounter (ptable s ! p) = QUANTA - n"

lemma tick_in_quantum:
  assumes q: "quantum_left c p n s" and n: "1 < n" "n \<le> QUANTA"
    and tf: "tf_trapno tf = T_IRQ0 + IRQ_TIMER"
  shows "\<exists>s'. trap env dev sysc c tf s = Some (TrapDone, s') \<and> quantum_left c p (n - 1) s' \<and>
           p_burst_time (ptable s' ! p) = p_burst_time (ptable s ! p)"
proof -
  have p: "p < length (ptable s)" "p_state (ptable s ! p) = RUNNING"
    using q by (simp_all add: quantum_left_def)
  have w: "wrap32 (QUANTA - n + 1) = QUANTA - n + 1" using n by (simp add: QUANTA_def)
  show ?thesis
    using q n w tf ticked_running [OF p, of c]
    by (auto simp: trap_timer_unfold ticked_def [symmetric] trap_tail_def trap_resume_def
        killed_now_def quantum_left_def inc_cpucounter_def Let_def)
qed

lemma tick_ends_quantum:
  assumes q: "quantum_left c p 1 s"
    and tf: "tf_trapno tf = T_IRQ0 + IRQ_TIMER"
  shows "\<exists>s'. trap env dev sysc c tf s = Some (TrapYielded, s') \<and> cpu_proc s' c = None \<and>
           p_state (ptable s' ! p) = RUNNABLE \<and> p_cpucounter (ptable s' ! p) = 0 \<and>
           p_burst_time (ptable s' ! p) =
             (if p_burst_time (ptable s ! p) < 0 then - 1 else p_burst_time (ptable s ! p) - QUANTA)"
proof -
  have p: "p < length (ptable s)" "p_state (ptable s ! p) = RUNNING"
    using q by (simp_all add: quantum_left_def)
  have w: "wrap32 QUANTA = QUANTA" by (simp add: QUANTA_def)
  show ?thesis
    using q w tf ticked_running [OF p, of c]
    by (auto simp: trap_timer_unfold ticked_def [symmetric] trap_tail_def
        killed_now_def quantum_left_def inc_cpucounter_def dec_burstTime_def yield_def sched_def Let_def)
qed

lemma scheduler_starts_quantum:
  assumes "scheduler c s = Some s'" and "sjf_pick (ptable s) = Some (Some p)"
    and "p < length (ptable s)" and "\<not> p_killed (ptable s ! p)"
  shows "quantum_left c p QUANTA s' \<and>
    p_burst_time (ptable s' ! p) = p_burst_time (ptable s ! p)"
  using assms by (auto simp: scheduler_def quantum_left_def)

text \<open>
  C2. Round robin inside shortest-job-first: a process that the scheduler has just
  dispatched survives the first timer interrupt on its CPU and is preempted by the second,
  for any behaviour of the rest of the kernel. It goes back to \<open>RUNNABLE\<close>, the CPU is free, its tick
  counter is 0 again, and its burst time has dropped by the quantum, or is \<open>-1\<close> if it was already negative.
\<close>

theorem quantum_two_ticks:
  assumes "scheduler c s = Some s0" and "sjf_pick (ptable s) = Some (Some p)"
    and "\<not> p_killed (ptable s ! p)"
    and "tf_trapno tf = T_IRQ0 + IRQ_TIMER" and "tf_trapno tf' = T_IRQ0 + IRQ_TIMER"
  shows "\<exists>s1 s2. trap env dev sysc c tf s0 = Some (TrapDone, s1) \<and> cpu_proc s1 c = Some p \<and>
           trap env dev sysc c tf' s1 = Some (TrapYielded, s2) \<and> cpu_proc s2 c = None \<and>
           p_state (ptable s2 ! p) = RUNNABLE \<and> p_cpucounter (ptable s2 ! p) = 0 \<and>
           p_burst_time (ptable s2 ! p) =
             (if p_burst_time (ptable s ! p) < 0 then - 1 else p_burst_time (ptable s ! p) - 2)"
proof -
  have len: "p < length (ptable s)"
    using sjf_pick_outcomes [of "ptable s"] assms(2)
    by (auto split: option.splits if_splits)
  from scheduler_starts_quantum [OF assms(1,2) len assms(3)]
  have q0: "quantum_left c p 2 s0" "p_burst_time (ptable s0 ! p) = p_burst_time (ptable s ! p)"
    by (simp_all add: QUANTA_def)
  from tick_in_quantum [OF q0(1) _ _ assms(4), of env dev sysc] obtain s1 where
    s1: "trap env dev sysc c tf s0 = Some (TrapDone, s1)" "quantum_left c p 1 s1"
      "p_burst_time (ptable s1 ! p) = p_burst_time (ptable s0 ! p)"
    by (auto simp: QUANTA_def)
  from tick_ends_quantum [OF s1(2) assms(5), of env dev sysc] obtain s2 where
    "trap env dev sysc c tf' s1 = Some (TrapYielded, s2)" "cpu_proc s2 c = None"
      "p_state (ptable s2 ! p) = RUNNABLE" "p_cpucounter (ptable s2 ! p) = 0"
      "p_burst_time (ptable s2 ! p) =
         (if p_burst_time (ptable s1 ! p) < 0 then - 1 else p_burst_time (ptable s1 ! p) - QUANTA)"
    by auto
  with s1 q0 show ?thesis by (auto simp: QUANTA_def quantum_left_def)
qed
end
