(* ===== verification/ProcInv.thy ===== *)
theory ProcInv
  imports ProcSched
begin

text \<open>
  The process table as a state machine. Its steps are the kernel's operations on the table
  in any order and on any number of CPUs; the invariant ties \<^verbatim>\<open>cpu->proc\<close> to the
  \<open>RUNNING\<close> processes, keeps pids unique (in runs in which the counter of pids does not wrap
  around), and keeps the parent links a tree rooted at init. It is stated on three views of the table (states, pids, parents) so that
  each operation is a function update.
\<close>

section \<open>Views of the process table\<close>

definition st :: "'w kernel \<Rightarrow> nat \<Rightarrow> procstate" where
  "st s i = p_state (ptable s ! i)"

definition pid_of :: "'w kernel \<Rightarrow> nat \<Rightarrow> int" where
  "pid_of s i = p_pid (ptable s ! i)"

definition par :: "'w kernel \<Rightarrow> nat \<Rightarrow> nat option" where
  "par s i = p_parent (ptable s ! i)"

lemma view_upd_proc [simp]:
  assumes "i < length (ptable s)"
  shows "st (upd_proc i f s) = (st s)(i := p_state (f (ptable s ! i)))"
    and "pid_of (upd_proc i f s) = (pid_of s)(i := p_pid (f (ptable s ! i)))"
    and "par (upd_proc i f s) = (par s)(i := p_parent (f (ptable s ! i)))"
  using assms by (auto simp: st_def pid_of_def par_def fun_eq_iff nth_list_update)

lemma view_frame [simp]:
  "st (s\<lparr>world := w\<rparr>) = st s" "pid_of (s\<lparr>world := w\<rparr>) = pid_of s" "par (s\<lparr>world := w\<rparr>) = par s"
  "st (s\<lparr>cpu_proc := cp\<rparr>) = st s" "pid_of (s\<lparr>cpu_proc := cp\<rparr>) = pid_of s"
  "par (s\<lparr>cpu_proc := cp\<rparr>) = par s"
  "st (s\<lparr>nextpid := n\<rparr>) = st s" "pid_of (s\<lparr>nextpid := n\<rparr>) = pid_of s"
  "par (s\<lparr>nextpid := n\<rparr>) = par s"
  "st (s\<lparr>ticks := t\<rparr>) = st s" "pid_of (s\<lparr>ticks := t\<rparr>) = pid_of s" "par (s\<lparr>ticks := t\<rparr>) = par s"
  "st (s\<lparr>initproc := ip\<rparr>) = st s" "pid_of (s\<lparr>initproc := ip\<rparr>) = pid_of s"
  "par (s\<lparr>initproc := ip\<rparr>) = par s"
  by (auto simp: st_def pid_of_def par_def fun_eq_iff)

lemma view_same:
  "p_state (ptable s ! i) = st s i" "p_pid (ptable s ! i) = pid_of s i"
  "p_parent (ptable s ! i) = par s i"
  by (simp_all add: st_def pid_of_def par_def)

section \<open>The invariant\<close>

definition alive :: "procstate \<Rightarrow> bool" where
  "alive x \<longleftrightarrow> x = SLEEPING \<or> x = RUNNABLE \<or> x = RUNNING"

lemma alive_simps [simp]:
  "alive SLEEPING" "alive RUNNABLE" "alive RUNNING" "\<not> alive UNUSED" "\<not> alive EMBRYO" "\<not> alive ZOMBIE"
  by (simp_all add: alive_def)

definition run_inv :: "nat \<Rightarrow> (nat \<Rightarrow> procstate) \<Rightarrow> (nat \<Rightarrow> nat option) \<Rightarrow> bool" where
  "run_inv n stf cpu \<longleftrightarrow>
     (\<forall>c p. cpu c = Some p \<longrightarrow> p < n \<and> stf p = RUNNING) \<and>
     (\<forall>c c' p. cpu c = Some p \<longrightarrow> cpu c' = Some p \<longrightarrow> c = c') \<and>
     (\<forall>p < n. stf p = RUNNING \<longrightarrow> (\<exists>c. cpu c = Some p))"

definition pid_inv :: "nat \<Rightarrow> (nat \<Rightarrow> procstate) \<Rightarrow> (nat \<Rightarrow> int) \<Rightarrow> int \<Rightarrow> bool" where
  "pid_inv n stf pid np \<longleftrightarrow>
     0 < np \<and> (\<forall>i < n. pid i < np) \<and>
     (\<forall>i < n. \<forall>j < n. i \<noteq> j \<longrightarrow> stf i \<noteq> UNUSED \<longrightarrow> stf j \<noteq> UNUSED \<longrightarrow> pid i \<noteq> pid j)"

definition tree_inv ::
  "nat \<Rightarrow> (nat \<Rightarrow> procstate) \<Rightarrow> (nat \<Rightarrow> nat option) \<Rightarrow> nat option \<Rightarrow> bool" where
  "tree_inv n stf pa ipo \<longleftrightarrow>
     (\<exists>ip. ipo = Some ip \<and> ip < n \<and> alive (stf ip) \<and> pa ip = None \<and>
       (\<forall>i < n. if stf i = UNUSED \<or> stf i = EMBRYO then pa i = None
                else i \<noteq> ip \<longrightarrow> (\<exists>q < n. pa i = Some q \<and> alive (stf q))))"

text \<open>
  \<^verbatim>\<open>nextpid\<close> is an \<^verbatim>\<open>int\<close> that wraps around, so the pids are part of the invariant only while the flag
  \<open>F\<close> says that it has not.
\<close>

definition kinv :: "bool \<Rightarrow> 'w kernel \<Rightarrow> bool" where
  "kinv F s \<longleftrightarrow> length (ptable s) = NPROC \<and> run_inv NPROC (st s) (cpu_proc s) \<and>
     (F \<longrightarrow> pid_inv NPROC (st s) (pid_of s) (nextpid s)) \<and> tree_inv NPROC (st s) (par s) (initproc s)"

lemma kinvI:
  "length (ptable s) = NPROC \<Longrightarrow> run_inv NPROC (st s) (cpu_proc s) \<Longrightarrow>
   (F \<Longrightarrow> pid_inv NPROC (st s) (pid_of s) (nextpid s)) \<Longrightarrow>
   tree_inv NPROC (st s) (par s) (initproc s) \<Longrightarrow> kinv F s"
  by (simp add: kinv_def)

lemma kinv_cpuD:
  "kinv F s \<Longrightarrow> cpu_proc s c = Some p \<Longrightarrow> p < length (ptable s) \<and> p < NPROC \<and> st s p = RUNNING"
  by (auto simp: kinv_def run_inv_def)

subsection \<open>How the three parts follow the primitive updates\<close>

lemma run_inv_quiet:
  "run_inv n stf cpu \<Longrightarrow> stf i \<noteq> RUNNING \<Longrightarrow> x \<noteq> RUNNING \<Longrightarrow> run_inv n (stf(i := x)) cpu"
  by (auto simp: run_inv_def)

lemma run_invI:
  assumes "\<And>d q. cpu d = Some q \<Longrightarrow> q < n \<and> stf q = RUNNING"
    and "\<And>d d' q. cpu d = Some q \<Longrightarrow> cpu d' = Some q \<Longrightarrow> d = d'"
    and "\<And>q. q < n \<Longrightarrow> stf q = RUNNING \<Longrightarrow> \<exists>d. cpu d = Some q"
  shows "run_inv n stf cpu"
  using assms unfolding run_inv_def by blast

lemma run_invD:
  assumes "run_inv n stf cpu"
  shows "cpu d = Some q \<Longrightarrow> q < n \<and> stf q = RUNNING"
    and "cpu d = Some q \<Longrightarrow> cpu d' = Some q \<Longrightarrow> d = d'"
    and "q < n \<Longrightarrow> stf q = RUNNING \<Longrightarrow> \<exists>d. cpu d = Some q"
  using assms unfolding run_inv_def by blast+

lemma run_inv_release:
  assumes r: "run_inv n stf cpu" and c: "cpu c = Some p" and x: "x \<noteq> RUNNING"
  shows "run_inv n (stf(p := x)) (cpu(c := None))"
proof (rule run_invI)
  fix d q assume d: "(cpu(c := None)) d = Some q"
  then have "d \<noteq> c" "cpu d = Some q" by (auto split: if_splits)
  moreover from this have "q \<noteq> p" using run_invD(2) [OF r _ c] by blast
  ultimately show "q < n \<and> (stf(p := x)) q = RUNNING" using run_invD(1) [OF r] by simp
next
  fix d d' q assume "(cpu(c := None)) d = Some q" "(cpu(c := None)) d' = Some q"
  then show "d = d'" using run_invD(2) [OF r] by (auto split: if_splits)
next
  fix q assume q: "q < n" "(stf(p := x)) q = RUNNING"
  then have "q \<noteq> p" "stf q = RUNNING" using x by (auto split: if_splits)
  then obtain d where d: "cpu d = Some q" using run_invD(3) [OF r q(1)] by blast
  then have "d \<noteq> c" using c \<open>q \<noteq> p\<close> by auto
  with d show "\<exists>d. (cpu(c := None)) d = Some q" by auto
qed

lemma run_inv_dispatch:
  assumes r: "run_inv n stf cpu" and c: "cpu c = None" and p: "stf p \<noteq> RUNNING" "p < n"
  shows "run_inv n (stf(p := RUNNING)) (cpu(c := Some p))"
proof (rule run_invI)
  fix d q assume "(cpu(c := Some p)) d = Some q"
  then show "q < n \<and> (stf(p := RUNNING)) q = RUNNING"
    using run_invD(1) [OF r] p(2) by (auto split: if_splits)
next
  fix d d' q assume "(cpu(c := Some p)) d = Some q" "(cpu(c := Some p)) d' = Some q"
  then show "d = d'" using run_invD(1,2) [OF r] p(1) by (auto split: if_splits)
next
  fix q assume q: "q < n" "(stf(p := RUNNING)) q = RUNNING"
  show "\<exists>d. (cpu(c := Some p)) d = Some q"
  proof (cases "q = p")
    case False
    with q obtain d where d: "cpu d = Some q" using run_invD(3) [OF r q(1)] by auto
    then have "d \<noteq> c" using c by auto
    with d show ?thesis by auto
  qed auto
qed

lemma run_inv_cong:
  "run_inv n stf cpu \<Longrightarrow> (\<And>i. i < n \<Longrightarrow> stf' i = RUNNING \<longleftrightarrow> stf i = RUNNING) \<Longrightarrow>
     run_inv n stf' cpu"
  by (auto simp: run_inv_def)

lemma pid_inv_cong:
  "pid_inv n stf pid np \<Longrightarrow> (\<And>i. i < n \<Longrightarrow> stf' i \<noteq> UNUSED \<Longrightarrow> stf i \<noteq> UNUSED) \<Longrightarrow>
     (\<And>i. i < n \<Longrightarrow> pid' i = pid i) \<Longrightarrow> pid_inv n stf' pid' np"
  by (auto simp: pid_inv_def)

lemma pid_inv_fresh:
  assumes "pid_inv n stf pid np" and "np < INT_MAX"
  shows "pid_inv n (stf(i := x)) (pid(i := np)) (wrap32 (np + 1))"
proof -
  have "wrap32 (np + 1) = np + 1" using assms by (simp add: pid_inv_def INT_MAX_def)
  then show ?thesis using assms(1) by (fastforce simp: pid_inv_def)
qed

lemma pid_inv_free:
  "pid_inv n stf pid np \<Longrightarrow> k < np \<Longrightarrow> pid_inv n (stf(i := UNUSED)) (pid(i := k)) np"
  by (auto simp: pid_inv_def)

lemma tree_inv_cong:
  assumes "tree_inv n stf pa ip"
    and "\<And>i. i < n \<Longrightarrow> alive (stf' i) \<longleftrightarrow> alive (stf i)"
    and "\<And>i. i < n \<Longrightarrow> stf' i = UNUSED \<or> stf' i = EMBRYO \<longleftrightarrow> stf i = UNUSED \<or> stf i = EMBRYO"
    and "\<And>i. i < n \<Longrightarrow> pa' i = pa i"
  shows "tree_inv n stf' pa' ip"
proof -
  from assms(1) obtain p where p: "ip = Some p" "p < n" "alive (stf p)" "pa p = None"
    and all: "\<And>i. i < n \<Longrightarrow> if stf i = UNUSED \<or> stf i = EMBRYO then pa i = None
                else i \<noteq> p \<longrightarrow> (\<exists>q < n. pa i = Some q \<and> alive (stf q))"
    unfolding tree_inv_def by blast
  have "if stf' i = UNUSED \<or> stf' i = EMBRYO then pa' i = None
          else i \<noteq> p \<longrightarrow> (\<exists>q < n. pa' i = Some q \<and> alive (stf' q))" if "i < n" for i
    using all [OF that] assms(2-4) that by auto
  moreover have "alive (stf' p)" "pa' p = None" using p assms(2,4) by simp_all
  ultimately show ?thesis unfolding tree_inv_def using p(1,2) by blast
qed

text \<open>A slot that no live process names as its parent may change state and parent freely.\<close>

lemma tree_inv_slot:
  assumes t: "tree_inv n stf pa ipo" and i: "i < n" "Some i \<noteq> ipo" and notpar: "\<not> alive (stf i)"
    and new: "if x = UNUSED \<or> x = EMBRYO then po = None
              else \<exists>q < n. po = Some q \<and> q \<noteq> i \<and> alive (stf q)"
  shows "tree_inv n (stf(i := x)) (pa(i := po)) ipo"
proof -
  from t obtain ip where ip: "ipo = Some ip" "ip < n" "alive (stf ip)" "pa ip = None"
    and all: "\<And>j. j < n \<Longrightarrow> if stf j = UNUSED \<or> stf j = EMBRYO then pa j = None
                else j \<noteq> ip \<longrightarrow> (\<exists>q < n. pa j = Some q \<and> alive (stf q))"
    unfolding tree_inv_def by blast
  have ne: "i \<noteq> ip" using i ip by auto
  have "if (stf(i := x)) j = UNUSED \<or> (stf(i := x)) j = EMBRYO then (pa(i := po)) j = None
        else j \<noteq> ip \<longrightarrow> (\<exists>q < n. (pa(i := po)) j = Some q \<and> alive ((stf(i := x)) q))"
    if "j < n" for j
  proof (cases "j = i")
    case True
    then show ?thesis using new by auto
  next
    case False
    have "alive ((stf(i := x)) q)" if "alive (stf q)" for q
      using that notpar by (cases "q = i") auto
    with all [OF that] False show ?thesis by (metis fun_upd_other)
  qed
  moreover have "alive ((stf(i := x)) ip)" "(pa(i := po)) ip = None" using ip ne by auto
  ultimately show ?thesis unfolding tree_inv_def using ip(1,2) by blast
qed

subsection \<open>Operations that keep all three views\<close>

definition same_view :: "(proc \<Rightarrow> proc) \<Rightarrow> bool" where
  "same_view f \<longleftrightarrow> (\<forall>p. p_state (f p) = p_state p \<and> p_pid (f p) = p_pid p \<and> p_parent (f p) = p_parent p)"

lemma kinv_same_view:
  assumes "kinv F s" "same_view f"
  shows "kinv F (upd_proc i f s)"
proof (cases "i < length (ptable s)")
  case True
  with assms show ?thesis
    by (simp add: kinv_def same_view_def view_same)
next
  case False
  then show ?thesis using assms(1) by (simp add: upd_proc_def list_update_beyond)
qed

lemma kinv_frame [simp]:
  "kinv F (s\<lparr>world := w\<rparr>) = kinv F s" "kinv F (s\<lparr>ticks := t\<rparr>) = kinv F s"
  by (simp_all add: kinv_def)

lemma view_wakeup:
  assumes "i < length (ptable s)"
  shows "st (wakeup1 ch s) i = (if st s i = SLEEPING \<and> p_chan (ptable s ! i) = ch then RUNNABLE else st s i)"
    and "pid_of (wakeup1 ch s) i = pid_of s i" and "par (wakeup1 ch s) i = par s i"
  using assms by (auto simp: st_def pid_of_def par_def wakeup1_def wake_proc_state)

lemma wakeup1_frame [simp]:
  "length (ptable (wakeup1 ch s)) = length (ptable s)" "cpu_proc (wakeup1 ch s) = cpu_proc s"
  "nextpid (wakeup1 ch s) = nextpid s" "initproc (wakeup1 ch s) = initproc s"
  "world (wakeup1 ch s) = world s"
  by (simp_all add: wakeup1_def)

lemma kinv_wakeup1: "kinv F s \<Longrightarrow> kinv F (wakeup1 ch s)"
proof -
  assume k: "kinv F s"
  then have len: "length (ptable s) = NPROC" by (simp add: kinv_def)
  note v = view_wakeup [where s = s and ch = ch, unfolded len]
  show ?thesis
  proof (rule kinvI)
    show "run_inv NPROC (st (wakeup1 ch s)) (cpu_proc (wakeup1 ch s))"
      using k by (auto simp: kinv_def v intro!: run_inv_cong [of _ "st s"] split: if_splits)
    show "pid_inv NPROC (st (wakeup1 ch s)) (pid_of (wakeup1 ch s)) (nextpid (wakeup1 ch s))" if F
      using that k by (auto simp: kinv_def v intro!: pid_inv_cong [of _ "st s" "pid_of s"] split: if_splits)
    show "tree_inv NPROC (st (wakeup1 ch s)) (par (wakeup1 ch s)) (initproc (wakeup1 ch s))"
      using k by (auto simp: kinv_def v intro!: tree_inv_cong [of _ "st s" "par s"] split: if_splits)
  qed (simp add: len)
qed

lemma kinv_wakeup: "kinv F s \<Longrightarrow> kinv F (wakeup ch s)"
  by (simp add: wakeup_def kinv_wakeup1)

section \<open>Each operation keeps the invariant\<close>

lemma tree_inv_die:
  assumes "tree_inv n stf pa ipo" "Some i \<noteq> ipo" "i < n" "alive (stf i)"
    and "\<And>j. j < n \<Longrightarrow> pa j \<noteq> Some i"
  shows "tree_inv n (stf(i := ZOMBIE)) pa ipo"
proof -
  from assms(1) obtain ip where ip: "ipo = Some ip" "ip < n" "alive (stf ip)" "pa ip = None"
    and all: "\<And>j. j < n \<Longrightarrow> if stf j = UNUSED \<or> stf j = EMBRYO then pa j = None
                else j \<noteq> ip \<longrightarrow> (\<exists>q < n. pa j = Some q \<and> alive (stf q))"
    unfolding tree_inv_def by blast
  have "if (stf(i := ZOMBIE)) j = UNUSED \<or> (stf(i := ZOMBIE)) j = EMBRYO then pa j = None
        else j \<noteq> ip \<longrightarrow> (\<exists>q < n. pa j = Some q \<and> alive ((stf(i := ZOMBIE)) q))"
    if "j < n" for j
    using all [OF that] assms(5) [OF that] assms(4) by (cases "j = i") (fastforce split: if_splits)+
  moreover have "alive ((stf(i := ZOMBIE)) ip)" using ip assms(2) by auto
  ultimately show ?thesis unfolding tree_inv_def using ip by blast
qed

lemma tree_inv_reparent:
  assumes "tree_inv n stf pa ipo" "i < n" "pa i \<noteq> None"
  shows "tree_inv n stf (pa(i := ipo)) ipo"
proof -
  from assms(1) obtain ip where ip: "ipo = Some ip" "ip < n" "alive (stf ip)" "pa ip = None"
    and all: "\<And>j. j < n \<Longrightarrow> if stf j = UNUSED \<or> stf j = EMBRYO then pa j = None
                else j \<noteq> ip \<longrightarrow> (\<exists>q < n. pa j = Some q \<and> alive (stf q))"
    unfolding tree_inv_def by blast
  have "if stf j = UNUSED \<or> stf j = EMBRYO then (pa(i := ipo)) j = None
        else j \<noteq> ip \<longrightarrow> (\<exists>q < n. (pa(i := ipo)) j = Some q \<and> alive (stf q))"
    if "j < n" for j
    using all [OF that] ip assms(3) by (cases "j = i") (auto split: if_splits)
  moreover have "(pa(i := ipo)) ip = None" using ip assms(3) by auto
  ultimately show ?thesis unfolding tree_inv_def using ip by blast
qed

lemma tree_inv_alive:
  assumes "tree_inv n stf pa ipo" "alive (stf i)" "alive x"
  shows "tree_inv n (stf(i := x)) pa ipo"
  using assms by (intro tree_inv_cong [OF assms(1)]) (auto simp: alive_def)

subsection \<open>Giving up the CPU\<close>

lemma kinv_sched:
  assumes k: "kinv F s" and c: "cpu_proc s c = Some p"
    and f: "\<And>q. p_state (f q) = x \<and> p_pid (f q) = p_pid q \<and> p_parent (f q) = p_parent q"
    and x: "x = RUNNABLE \<or> x = SLEEPING"
    and s': "sched c (upd_proc p f s) = Some s'"
  shows "kinv F s'"
proof -
  have len: "length (ptable s) = NPROC" and p: "p < length (ptable s)" "st s p = RUNNING"
    using k kinv_cpuD [OF k c] by (auto simp: kinv_def)
  have s'_eq: "s' = (upd_proc p f s)\<lparr>cpu_proc := (cpu_proc s)(c := None)\<rparr>"
    using s' x f c by (auto simp: sched_def bind_eq_Some split: if_splits)
  have v: "st s' = (st s)(p := x)" "pid_of s' = pid_of s" "par s' = par s"
    using p(1) f by (simp_all add: s'_eq view_same)
  show ?thesis
  proof (rule kinvI)
    show "run_inv NPROC (st s') (cpu_proc s')"
      unfolding v using k c x by (auto simp: s'_eq kinv_def intro!: run_inv_release)
    show "pid_inv NPROC (st s') (pid_of s') (nextpid s')" if F
      unfolding v using that k p by (auto simp: s'_eq kinv_def intro!: pid_inv_cong [of _ "st s" "pid_of s"] split: if_splits)
    show "tree_inv NPROC (st s') (par s') (initproc s')"
      unfolding v using k p x by (auto simp: s'_eq kinv_def intro!: tree_inv_alive)
  qed (simp add: s'_eq len)
qed

lemma kinv_yield: "kinv F s \<Longrightarrow> yield c s = Some s' \<Longrightarrow> kinv F s'"
  by (auto simp: yield_def bind_eq_Some
      intro: kinv_sched [where f = "\<lambda>q. q\<lparr>p_state := RUNNABLE\<rparr>" and x = RUNNABLE])

lemma kinv_sleep: "kinv F s \<Longrightarrow> sleep c ch s = Some s' \<Longrightarrow> kinv F s'"
  by (auto simp: sleep_def bind_eq_Some
      intro: kinv_sched [where f = "\<lambda>q. q\<lparr>p_chan := ch, p_state := SLEEPING\<rparr>" and x = SLEEPING])

lemma kinv_sleep_resume: "kinv F s \<Longrightarrow> sleep_resume c s = Some s' \<Longrightarrow> kinv F s'"
  by (auto simp: sleep_resume_def bind_eq_Some same_view_def intro!: kinv_same_view)

subsection \<open>The scheduler, burst times, kill, memory\<close>

lemma sjf_pick_SomeD:
  "sjf_pick pt = Some (Some i) \<Longrightarrow> i < length pt \<and> p_state (pt ! i) = RUNNABLE"
  using sjf_pick_outcomes [of pt] by (auto split: option.splits if_splits)

lemma sjf_pick_fault:
  "find_idx (\<lambda>p. p_state p = RUNNABLE) pt = Some f \<Longrightarrow> INT_MAX \<le> p_burst_time (pt ! f) \<Longrightarrow>
     sjf_pick pt = None"
  using sjf_pick_outcomes [of pt] by simp

lemma kinv_scheduler:
  assumes k: "kinv F s" and c: "cpu_proc s c = None" and s': "scheduler c s = Some s'"
  shows "kinv F s'"
proof (cases "sjf_pick (ptable s) = Some None")
  case True
  with s' k show ?thesis by (simp add: scheduler_def)
next
  case False
  with s' obtain p where pick: "sjf_pick (ptable s) = Some (Some p)"
    by (auto simp: scheduler_def bind_eq_Some)
  let ?f = "\<lambda>q. q\<lparr>p_count_contextswitch := wrap32 (p_count_contextswitch q + 1), p_state := RUNNING, p_cpucounter := 0\<rparr>"
  have s'_eq: "s' = upd_proc p ?f (s\<lparr>cpu_proc := (cpu_proc s)(c := Some p)\<rparr>)"
    using s' pick by (simp add: scheduler_def)
  have len: "length (ptable s) = NPROC" using k by (simp add: kinv_def)
  have p: "p < length (ptable s)" "st s p = RUNNABLE"
    using sjf_pick_SomeD [OF pick] by (simp_all add: view_same)
  have v: "st s' = (st s)(p := RUNNING)" "pid_of s' = pid_of s" "par s' = par s"
    using p(1) by (simp_all add: s'_eq view_same)
  show ?thesis
  proof (rule kinvI)
    show "run_inv NPROC (st s') (cpu_proc s')"
      unfolding v using k c p len by (auto simp: s'_eq kinv_def intro!: run_inv_dispatch)
    show "pid_inv NPROC (st s') (pid_of s') (nextpid s')" if F
      unfolding v using that k p
      by (auto simp: s'_eq kinv_def intro!: pid_inv_cong [of _ "st s" "pid_of s"] split: if_splits)
    show "tree_inv NPROC (st s') (par s') (initproc s')"
      unfolding v using k p by (auto simp: s'_eq kinv_def intro!: tree_inv_alive)
  qed (simp add: s'_eq len)
qed

lemma kinv_inc_cpucounter: "kinv F s \<Longrightarrow> inc_cpucounter c s = Some (n, s') \<Longrightarrow> kinv F s'"
  by (auto simp: inc_cpucounter_def bind_eq_Some same_view_def intro!: kinv_same_view)

lemma kinv_dec_burstTime: "kinv F s \<Longrightarrow> dec_burstTime c s = Some s' \<Longrightarrow> kinv F s'"
  by (auto simp: dec_burstTime_def bind_eq_Some same_view_def intro!: kinv_same_view)

lemma kinv_set_burst_time: "kinv F s \<Longrightarrow> set_burst_time c bt s = Some (r, s') \<Longrightarrow> kinv F s'"
  by (auto simp: set_burst_time_def bind_eq_Some same_view_def intro: kinv_yield
      intro!: kinv_same_view elim!: kinv_yield [rotated])

lemma kinv_growproc: "kinv F s \<Longrightarrow> growproc env c n s = Some (r, s') \<Longrightarrow> kinv F s'"
  by (auto simp: growproc_def bind_eq_Some same_view_def Let_def case_prod_beta split: if_splits
      intro!: kinv_same_view)

lemma kinv_kill:
  assumes k: "kinv F s" and s': "kill pid s = (r, s')"
  shows "kinv F s'"
proof (cases "find_idx (\<lambda>p. p_pid p = pid) (ptable s)")
  case None
  with s' k show ?thesis by (simp add: kill_def)
next
  case (Some i)
  then have i: "i < length (ptable s)" by (simp add: find_idx_Some)
  have len: "length (ptable s) = NPROC" using k by (simp add: kinv_def)
  have s'_eq: "s' = upd_proc i (\<lambda>p. p\<lparr>p_killed := True,
      p_state := (if p_state p = SLEEPING then RUNNABLE else p_state p)\<rparr>) s"
    using s' Some by (simp add: kill_def)
  have v: "st s' = (st s)(i := if st s i = SLEEPING then RUNNABLE else st s i)"
    "pid_of s' = pid_of s" "par s' = par s"
    using i by (simp_all add: s'_eq view_same)
  show ?thesis
  proof (rule kinvI)
    show "run_inv NPROC (st s') (cpu_proc s')"
      unfolding v using k by (auto simp: s'_eq kinv_def intro!: run_inv_cong [of _ "st s"] split: if_splits)
    show "pid_inv NPROC (st s') (pid_of s') (nextpid s')" if F
      unfolding v using that k
      by (auto simp: s'_eq kinv_def intro!: pid_inv_cong [of _ "st s" "pid_of s"] split: if_splits)
    show "tree_inv NPROC (st s') (par s') (initproc s')"
      unfolding v using k
      by (auto simp: s'_eq kinv_def intro!: tree_inv_cong [of _ "st s" "par s"] split: if_splits)
  qed (simp add: s'_eq len)
qed

subsection \<open>Creation\<close>

text \<open>What \<open>allocproc\<close> did, for its caller \<open>fork\<close>.\<close>

lemma allocproc_spec:
  assumes k: "kinv F s" and lt: "F \<Longrightarrow> nextpid s < INT_MAX" and a: "allocproc env s = (r, s')"
  shows "kinv F s' \<and> cpu_proc s' = cpu_proc s \<and> initproc s' = initproc s \<and>
    (case r of None \<Rightarrow> True
     | Some i \<Rightarrow> i < NPROC \<and> st s i = UNUSED \<and> st s' i = EMBRYO \<and>
         pid_of s' i = nextpid s \<and> p_kstack (ptable s' ! i) \<noteq> 0 \<and>
         (\<forall>j. j \<noteq> i \<longrightarrow> ptable s' ! j = ptable s ! j))"
proof (cases "find_idx (\<lambda>p. p_state p = UNUSED) (ptable s)")
  case None
  with a k show ?thesis by (auto simp: allocproc_def)
next
  case (Some i)
  have len: "length (ptable s) = NPROC" using k by (simp add: kinv_def)
  from Some have i: "i < length (ptable s)" "st s i = UNUSED"
    by (simp_all add: find_idx_Some view_same)
  obtain kk w where kw: "x_kalloc env (world s) = (kk, w)" by (cases "x_kalloc env (world s)")
  have v: "st s' = (st s)(i := if kk = 0 then UNUSED else EMBRYO)"
    "pid_of s' = (pid_of s)(i := nextpid s)" "par s' = par s"
    and fr: "cpu_proc s' = cpu_proc s" "initproc s' = initproc s" "nextpid s' = wrap32 (nextpid s + 1)"
      "length (ptable s') = NPROC"
    and r: "r = (if kk = 0 then None else Some i)"
    and oth: "\<forall>j. j \<noteq> i \<longrightarrow> ptable s' ! j = ptable s ! j"
    and ks: "kk \<noteq> 0 \<Longrightarrow> p_kstack (ptable s' ! i) \<noteq> 0"
    using a i kw len by (auto simp: allocproc_def Some Let_def view_same split: if_splits)
  have "kinv F s'"
  proof (rule kinvI)
    show "run_inv NPROC (st s') (cpu_proc s')"
      unfolding v fr using k i by (auto simp: kinv_def intro!: run_inv_cong [of _ "st s"] split: if_splits)
    show "pid_inv NPROC (st s') (pid_of s') (nextpid s')" if F
      unfolding v fr using that k by (auto simp: kinv_def intro!: pid_inv_fresh dest: lt)
    show "tree_inv NPROC (st s') (par s') (initproc s')"
      unfolding v fr using k i
      by (auto simp: kinv_def intro!: tree_inv_cong [of _ "st s" "par s"] split: if_splits)
  qed (simp add: fr)
  with v fr r oth ks i len show ?thesis by (auto split: if_splits)
qed

text \<open>A slot that is not running and not a live parent takes new contents.\<close>

lemma kinv_slot:
  assumes k: "kinv F s" and i: "i < NPROC" "st s i \<noteq> RUNNING" "\<not> alive (st s i)" "x \<noteq> RUNNING"
    and v: "st s' = (st s)(i := x)" "pid_of s' = (pid_of s)(i := pd)" "par s' = (par s)(i := po)"
    and fr: "cpu_proc s' = cpu_proc s" "nextpid s' = nextpid s" "initproc s' = initproc s"
      "length (ptable s') = length (ptable s)"
    and pd: "x = UNUSED \<and> (F \<longrightarrow> pd < nextpid s) \<or> pd = pid_of s i \<and> st s i \<noteq> UNUSED"
    and po: "if x = UNUSED \<or> x = EMBRYO then po = None
             else \<exists>q < NPROC. po = Some q \<and> q \<noteq> i \<and> alive (st s q)"
  shows "kinv F s'"
proof (rule kinvI)
  have ip: "Some i \<noteq> initproc s" using k i(3) by (auto simp: kinv_def tree_inv_def)
  show "run_inv NPROC (st s') (cpu_proc s')"
    unfolding v fr using k i by (simp add: kinv_def run_inv_quiet)
  show "pid_inv NPROC (st s') (pid_of s') (nextpid s')" if F
    using pd
  proof
    assume "x = UNUSED \<and> (F \<longrightarrow> pd < nextpid s)"
    then show ?thesis unfolding v fr using k that by (simp add: kinv_def pid_inv_free)
  next
    assume "pd = pid_of s i \<and> st s i \<noteq> UNUSED"
    then show ?thesis unfolding v fr using k that
      by (auto simp: kinv_def intro!: pid_inv_cong [of _ "st s" "pid_of s"] split: if_splits)
  qed
  show "tree_inv NPROC (st s') (par s') (initproc s')"
    unfolding v fr using k i ip po by (simp add: kinv_def tree_inv_slot)
  show "length (ptable s') = NPROC" using k fr by (simp add: kinv_def)
qed

lemma kinv_slotI:
  assumes k: "kinv F s" and i: "i < NPROC" "st s i = EMBRYO"
    and f: "p_state (f (ptable s ! i)) = x" "p_pid (f (ptable s ! i)) = pid_of s i"
      "p_parent (f (ptable s ! i)) = po" and x: "x \<noteq> RUNNING"
    and po: "if x = UNUSED \<or> x = EMBRYO then po = None
             else \<exists>q < NPROC. po = Some q \<and> q \<noteq> i \<and> alive (st s q)"
  shows "kinv F (upd_proc i f s)"
proof -
  have len: "length (ptable s) = NPROC" using k by (simp add: kinv_def)
  show ?thesis
    by (rule kinv_slot [OF k i(1), where x = x and pd = "pid_of s i" and po = po])
       (use i f x po len in auto)
qed

lemma kinv_fork:
  assumes k: "kinv F s" and lt: "F \<Longrightarrow> nextpid s < INT_MAX" and f: "fork env c s = Some (r, s')"
  shows "kinv F s'"
proof -
  from f obtain me where me: "cpu_proc s c = Some me" by (auto simp: fork_def bind_eq_Some)
  obtain a s1 where a: "allocproc env s = (a, s1)" by (cases "allocproc env s")
  note sp = allocproc_spec [OF k lt a]
  show ?thesis
  proof (cases a)
    case None
    with f me a sp show ?thesis by (simp add: fork_def)
  next
    case (Some np)
    with sp have np: "np < NPROC" "st s np = UNUSED" "st s1 np = EMBRYO" and k1: "kinv F s1"
      and c1: "cpu_proc s1 = cpu_proc s"
      by simp_all
    have len: "length (ptable s1) = NPROC" using k1 by (simp add: kinv_def)
    have me1: "me < NPROC" "st s1 me = RUNNING"
      using kinv_cpuD [OF k1, of c me] me c1 by simp_all
    have par1: "par s1 np = None" using k1 np by (auto simp: kinv_def tree_inv_def split: if_splits)
    have upd2: "upd_proc np g (upd_proc np h t) = upd_proc np (\<lambda>q. g (h q)) t"
      if "np < length (ptable t)" for g h and t :: "'a kernel"
      using that by (simp add: upd_proc_def)
    have gone: "kinv F (upd_proc np (\<lambda>p. p\<lparr>p_pgdir := 0, p_kstack := 0, p_state := UNUSED\<rparr>) (s1\<lparr>world := w\<rparr>))" for w
      by (rule kinv_slotI [where x = UNUSED and po = None]) (use k1 np par1 in \<open>auto simp: view_same\<close>)
    have born: "kinv F (upd_proc np (\<lambda>p. p\<lparr>p_pgdir := pg, p_sz := sz, p_parent := Some me,
        p_tf := tf, p_ofile := fs, p_cwd := cwd, p_name := nm, p_state := RUNNABLE\<rparr>) (s1\<lparr>world := w\<rparr>))"
      for pg sz tf fs cwd nm w
      by (rule kinv_slotI [where x = RUNNABLE and po = "Some me"])
         (use k1 np me1 in \<open>auto simp: view_same\<close>)
    from f me a Some gone born show ?thesis
      by (auto simp: fork_def Let_def case_prod_beta upd2 len np split: if_splits)
  qed
qed

subsection \<open>Exit and wait\<close>

lemma kinv_wait:
  assumes k: "kinv F s" and s': "wait env c s = Some (r, s')"
  shows "kinv F s'"
proof -
  from s' obtain me where me: "cpu_proc s c = Some me" by (auto simp: wait_def bind_eq_Some)
  show ?thesis
  proof (cases "find_idx (\<lambda>p. p_parent p = Some me \<and> p_state p = ZOMBIE) (ptable s)")
    case None
    with s' me k show ?thesis
      by (auto simp: wait_def bind_eq_Some split: if_splits intro: kinv_sleep)
  next
    case (Some i)
    let ?f = "\<lambda>q. q\<lparr>p_kstack := 0, p_pid := 0, p_parent := None,
                  p_name := [], p_killed := False, p_state := UNUSED\<rparr>"
    have len: "length (ptable s) = NPROC" using k by (simp add: kinv_def)
    from Some have i: "i < length (ptable s)" "st s i = ZOMBIE"
      by (simp_all add: find_idx_Some view_same)
    obtain w where s'_eq: "s' = upd_proc i ?f (s\<lparr>world := w\<rparr>)"
      using s' me Some by (auto simp: wait_def Let_def)
    have "F \<longrightarrow> 0 < nextpid s" using k by (simp add: kinv_def pid_inv_def)
    with i len show ?thesis
      by (intro kinv_slot [OF k, where i = i and x = UNUSED and pd = 0 and po = None])
         (auto simp: s'_eq)
  qed
qed

text \<open>What the reparenting loop does to the views of the slots it visits.\<close>

lemma reparent_spec:
  assumes "kinv F s" "set is \<subseteq> {..<NPROC}" "Some me \<noteq> initproc s"
  shows "kinv F (reparent me is s) \<and> cpu_proc (reparent me is s) = cpu_proc s \<and>
    initproc (reparent me is s) = initproc s \<and>
    (\<forall>j < NPROC. par (reparent me is s) j =
        (if par s j = Some me \<and> j \<in> set is then initproc s else par s j)) \<and>
    (\<forall>j < NPROC. st s j \<noteq> SLEEPING \<longrightarrow> st (reparent me is s) j = st s j)"
  using assms
proof (induction "is" arbitrary: s)
  case Nil
  then show ?case by simp
next
  case (Cons i "is")
  have len: "length (ptable s) = NPROC" and i: "i < NPROC" using Cons.prems by (auto simp: kinv_def)
  show ?case
  proof (cases "par s i = Some me")
    case False
    with Cons.IH [of s] Cons.prems show ?thesis by (auto simp: view_same)
  next
    case True
    let ?s1 = "upd_proc i (\<lambda>p. p\<lparr>p_parent := initproc s\<rparr>) s"
    let ?s2 = "if st ?s1 i = ZOMBIE then wakeup1 (chan_of (initproc ?s1)) ?s1 else ?s1"
    have v1: "st ?s1 = st s" "pid_of ?s1 = pid_of s" "par ?s1 = (par s)(i := initproc s)"
      using i len by (simp_all add: view_same)
    have k1: "kinv F ?s1"
    proof (rule kinvI)
      show "tree_inv NPROC (st ?s1) (par ?s1) (initproc ?s1)"
        unfolding v1 using Cons.prems(1) i True by (simp add: kinv_def tree_inv_reparent)
    qed (use Cons.prems(1) in \<open>simp_all add: v1 kinv_def\<close>)
    define s2 where "s2 = ?s2"
    have k2: "kinv F s2" using k1 by (simp add: s2_def kinv_wakeup1)
    have v2: "\<forall>j < NPROC. par s2 j = (if j = i then initproc s else par s j)"
      "\<forall>j < NPROC. st s j \<noteq> SLEEPING \<longrightarrow> st s2 j = st s j"
      "cpu_proc s2 = cpu_proc s" "initproc s2 = initproc s"
      using len by (auto simp: s2_def v1 view_wakeup)
    have step: "reparent me (i # is) s = reparent me is s2"
      using True by (simp add: view_same Let_def s2_def)
    have ih: "kinv F (reparent me is s2) \<and> cpu_proc (reparent me is s2) = cpu_proc s2 \<and>
      initproc (reparent me is s2) = initproc s2 \<and>
      (\<forall>j < NPROC. par (reparent me is s2) j =
          (if par s2 j = Some me \<and> j \<in> set is then initproc s2 else par s2 j)) \<and>
      (\<forall>j < NPROC. st s2 j \<noteq> SLEEPING \<longrightarrow> st (reparent me is s2) j = st s2 j)"
      by (rule Cons.IH [OF k2]) (use Cons.prems v2 in auto)
    have ipme: "initproc s \<noteq> Some me" using Cons.prems(3) by auto
    show ?thesis
      unfolding step using ih v2 True ipme by auto
  qed
qed

text \<open>The state just before the dying process hands over the CPU.\<close>

lemma exit_spec:
  assumes k: "kinv F s" and e: "exit env c s = Some s'" and me: "cpu_proc s c = Some me"
  shows "kinv F s' \<and> cpu_proc s' = (cpu_proc s)(c := None) \<and> st s' me = ZOMBIE \<and>
    (\<forall>j < NPROC. par s' j = (if par s j = Some me then initproc s else par s j)) \<and>
    (\<forall>j < NPROC. st s j = SLEEPING \<and> p_chan (ptable s ! j) = chan_of (par s me) \<longrightarrow> st s' j = RUNNABLE)"
proof -
  have len: "length (ptable s) = NPROC" using k by (simp add: kinv_def)
  have p: "me < NPROC" "st s me = RUNNING" using kinv_cpuD [OF k me] by simp_all
  obtain fs w where fw: "close_files env (p_ofile (ptable s ! me)) (world s) = (fs, w)"
    by (cases "close_files env (p_ofile (ptable s ! me)) (world s)")
  define s1 where "s1 = upd_proc me (\<lambda>p. p\<lparr>p_ofile := fs, p_cwd := 0\<rparr>)
      (s\<lparr>world := x_iput env (p_cwd (ptable s ! me)) w\<rparr>)"
  define s2 where "s2 = wakeup1 (chan_of (par s1 me)) s1"
  define s3 where "s3 = reparent me [0..<length (ptable s2)] s2"
  have ip: "Some me \<noteq> initproc s" using e me by (auto simp: exit_def split: if_splits)
  have s'_eq: "s' = (upd_proc me (\<lambda>p. p\<lparr>p_state := ZOMBIE\<rparr>) s3)\<lparr>cpu_proc := (cpu_proc s3)(c := None)\<rparr>"
    using e me fw
    by (auto simp: exit_def Let_def sched_def bind_eq_Some s1_def s2_def s3_def view_same split: if_splits)
  have k1: "kinv F s1" unfolding s1_def by (rule kinv_same_view) (use k in \<open>simp_all add: same_view_def\<close>)
  have v1: "st s1 = st s" "par s1 = par s" "cpu_proc s1 = cpu_proc s" "initproc s1 = initproc s"
    "length (ptable s1) = NPROC"
    using p len by (simp_all add: s1_def view_same fun_upd_idem_iff)
  have k2: "kinv F s2" using k1 by (simp add: s2_def kinv_wakeup1)
  have v2: "\<forall>j < NPROC. par s2 j = par s j" "\<forall>j < NPROC. st s j \<noteq> SLEEPING \<longrightarrow> st s2 j = st s j"
    "cpu_proc s2 = cpu_proc s" "initproc s2 = initproc s" "length (ptable s2) = NPROC"
    using v1 by (auto simp: s2_def view_wakeup)
  have "kinv F s3 \<and> cpu_proc s3 = cpu_proc s2 \<and> initproc s3 = initproc s2 \<and>
    (\<forall>j < NPROC. par s3 j = (if par s2 j = Some me \<and> j \<in> set [0..<NPROC] then initproc s2 else par s2 j)) \<and>
    (\<forall>j < NPROC. st s2 j \<noteq> SLEEPING \<longrightarrow> st s3 j = st s2 j)"
    unfolding s3_def v2(5) by (rule reparent_spec) (use k2 ip v2 in auto)
  then have k3: "kinv F s3" and v3: "cpu_proc s3 = cpu_proc s" "initproc s3 = initproc s"
    "\<forall>j < NPROC. par s3 j = (if par s j = Some me then initproc s else par s j)" "st s3 me = RUNNING"
    and st23: "\<forall>j < NPROC. st s2 j \<noteq> SLEEPING \<longrightarrow> st s3 j = st s2 j"
    using v2 p by auto
  have ch1: "p_chan (ptable s1 ! j) = p_chan (ptable s ! j)" for j
    using p len by (cases "j = me") (simp_all add: s1_def)
  have woken: "\<forall>j < NPROC. st s j = SLEEPING \<and> p_chan (ptable s ! j) = chan_of (par s me) \<longrightarrow>
      st s3 j = RUNNABLE \<and> j \<noteq> me"
    using st23 p v1 by (auto simp: s2_def view_wakeup ch1)
  have notme: "\<And>j. j < NPROC \<Longrightarrow> par s3 j \<noteq> Some me"
    using v3(3) ip by (auto split: if_splits)
  have len3: "length (ptable s3) = NPROC" using k3 by (simp add: kinv_def)
  have v: "st s' = (st s3)(me := ZOMBIE)" "pid_of s' = pid_of s3" "par s' = par s3"
    "cpu_proc s' = (cpu_proc s3)(c := None)" "initproc s' = initproc s3" "nextpid s' = nextpid s3"
    using p len3 by (simp_all add: s'_eq view_same)
  have "kinv F s'"
  proof (rule kinvI)
    show "run_inv NPROC (st s') (cpu_proc s')"
      unfolding v using k3 me v3(1) by (simp add: kinv_def run_inv_release)
    show "pid_inv NPROC (st s') (pid_of s') (nextpid s')" if F
      unfolding v using that k3 v3(4)
      by (auto simp: kinv_def intro!: pid_inv_cong [of _ "st s3" "pid_of s3"] split: if_splits)
    show "tree_inv NPROC (st s') (par s') (initproc s')"
      unfolding v by (rule tree_inv_die) (use k3 p ip v3(2,4) notme in \<open>auto simp: kinv_def\<close>)
  qed (simp add: s'_eq len3)
  then show ?thesis using v v3 woken by simp
qed

lemma reparent_frame:
  "cpu_proc (reparent me is s) = cpu_proc s \<and> length (ptable (reparent me is s)) = length (ptable s)"
  by (induction "is" arbitrary: s) (simp_all add: Let_def)

text \<open>Exit never gets stuck: every process but init can end.\<close>

lemma exit_returns:
  assumes k: "kinv F s" and me: "cpu_proc s c = Some me" and ip: "initproc s \<noteq> Some me"
  shows "\<exists>s'. exit env c s = Some s'"
proof -
  have "me < length (ptable s)" using kinv_cpuD [OF k me] by simp
  with me ip show ?thesis
    by (simp add: exit_def Let_def case_prod_beta sched_def reparent_frame)
qed

lemma kinv_exit: "kinv F s \<Longrightarrow> exit env c s = Some s' \<Longrightarrow> kinv F s'"
  using exit_spec [of F s env c s'] by (cases "cpu_proc s c") (simp_all add: exit_def)

subsection \<open>Traps\<close>

lemma kinv_trap_resume: "kinv F s \<Longrightarrow> trap_resume env c tf s = Some (e, s') \<Longrightarrow> kinv F s'"
  by (auto simp: trap_resume_def bind_eq_Some split: if_splits intro: kinv_exit)

lemma kinv_trap_switch: "kinv F s \<Longrightarrow> trap_switch dev c tf s = Some s' \<Longrightarrow> kinv F s'"
  by (auto simp: trap_switch_def Let_def same_view_def split: if_splits option.splits
      intro!: kinv_same_view kinv_wakeup)

lemma kinv_trap_tail:
  assumes "kinv F s" "trap_tail env c tf s = Some (e, s')"
  shows "kinv F s'"
proof (cases "killed_now c s \<and> tf_cs tf AND 3 = DPL_USER")
  case True
  with assms show ?thesis by (auto simp: trap_tail_def bind_eq_Some intro: kinv_exit)
next
  case False
  show ?thesis
  proof (cases "\<exists>p. cpu_proc s c = Some p \<and> p_state (ptable s ! p) = RUNNING \<and> tf_trapno tf = T_IRQ0 + IRQ_TIMER")
    case no_tick: False
    with False assms(2) have "trap_resume env c tf s = Some (e, s')"
      by (auto simp: trap_tail_def split: if_splits option.splits)
    with assms(1) show ?thesis by (rule kinv_trap_resume)
  next
    case True
    then obtain p where p: "cpu_proc s c = Some p" "p_state (ptable s ! p) = RUNNING"
      "tf_trapno tf = T_IRQ0 + IRQ_TIMER" by blast
    obtain n s1 where inc: "inc_cpucounter c s = Some (n, s1)"
      using p by (simp add: inc_cpucounter_def Let_def)
    have k1: "kinv F s1" by (rule kinv_inc_cpucounter [OF assms(1) inc])
    show ?thesis
    proof (cases "n = QUANTA")
      case False
      with inc p assms(2) \<open>\<not> (killed_now c s \<and> _)\<close> have "trap_resume env c tf s1 = Some (e, s')"
        by (auto simp: trap_tail_def)
      with k1 show ?thesis by (rule kinv_trap_resume)
    next
      case True
      with inc p assms(2) \<open>\<not> (killed_now c s \<and> _)\<close> obtain s2 where
        dec: "dec_burstTime c s1 = Some s2" and
        y: "yield c (upd_proc p (\<lambda>q. q\<lparr>p_cpucounter := 0\<rparr>) s2) = Some s'"
        by (auto simp: trap_tail_def bind_eq_Some Let_def)
      have "kinv F (upd_proc p (\<lambda>q. q\<lparr>p_cpucounter := 0\<rparr>) s2)"
        by (rule kinv_same_view [OF kinv_dec_burstTime [OF k1 dec]]) (simp add: same_view_def)
      then show ?thesis by (rule kinv_yield [OF _ y])
    qed
  qed
qed

section \<open>Reachable states\<close>

text \<open>
  The steps of the whole machine, in any order on any CPUs: the scheduler on an idle CPU, a
  hardware trap, and every table operation a running process or an interrupt handler calls.
  \<open>mach_reachable\<close> starts from \<open>userinit\<close> on the zeroed kernel.
\<close>

inductive mach_step ::
  "'w env \<Rightarrow> (u32 \<Rightarrow> 'w \<Rightarrow> 'w) \<Rightarrow> 'w kernel \<Rightarrow> 'w kernel \<Rightarrow> bool"
  for env :: "'w env" and dev :: "u32 \<Rightarrow> 'w \<Rightarrow> 'w" where
  dispatch: "cpu_proc s c = None \<Longrightarrow> scheduler c s = Some s' \<Longrightarrow> mach_step env dev s s'"
| hwtrap: "tf_trapno tf \<noteq> T_SYSCALL \<Longrightarrow>
    trap env dev (\<lambda>_ _. None) c tf s = Some (e, s') \<Longrightarrow> mach_step env dev s s'"
| resumed: "trap_resume env c tf s = Some (e, s') \<Longrightarrow> mach_step env dev s s'"
| forked: "fork env c s = Some (r, s') \<Longrightarrow> mach_step env dev s s'"
| exited: "exit env c s = Some s' \<Longrightarrow> mach_step env dev s s'"
| waited: "wait env c s = Some (w, s') \<Longrightarrow> mach_step env dev s s'"
| killing: "kill pid s = (r, s') \<Longrightarrow> mach_step env dev s s'"
| sleeping: "sleep c ch s = Some s' \<Longrightarrow> mach_step env dev s s'"
| slept: "sleep_resume c s = Some s' \<Longrightarrow> mach_step env dev s s'"
| waking: "mach_step env dev s (wakeup ch s)"
| yielding: "yield c s = Some s' \<Longrightarrow> mach_step env dev s s'"
| growing: "growproc env c n s = Some (r, s') \<Longrightarrow> mach_step env dev s s'"
| set_burst: "set_burst_time c bt s = Some (r, s') \<Longrightarrow> mach_step env dev s s'"
| dec_burst: "dec_burstTime c s = Some s' \<Longrightarrow> mach_step env dev s s'"
| inc_counter: "inc_cpucounter c s = Some (r, s') \<Longrightarrow> mach_step env dev s s'"

inductive mach_reachable ::
  "'w env \<Rightarrow> (u32 \<Rightarrow> 'w \<Rightarrow> 'w) \<Rightarrow> 'w kernel \<Rightarrow> bool"
  for env :: "'w env" and dev :: "u32 \<Rightarrow> 'w \<Rightarrow> 'w" where
  boot: "userinit env (kernel0 w) = Some s \<Longrightarrow> mach_reachable env dev s"
| step: "mach_reachable env dev s \<Longrightarrow> mach_step env dev s s' \<Longrightarrow> mach_reachable env dev s'"

text \<open>
  \<open>mach_fresh\<close>: the states of the runs that have made every step with a \<^verbatim>\<open>nextpid\<close> below \<open>INT_MAX\<close>, so that
  it has never wrapped around. It takes more than two thousand million process creations to leave them.
\<close>

inductive mach_fresh ::
  "'w env \<Rightarrow> (u32 \<Rightarrow> 'w \<Rightarrow> 'w) \<Rightarrow> 'w kernel \<Rightarrow> bool"
  for env :: "'w env" and dev :: "u32 \<Rightarrow> 'w \<Rightarrow> 'w" where
  boot: "userinit env (kernel0 w) = Some s \<Longrightarrow> mach_fresh env dev s"
| step: "mach_fresh env dev s \<Longrightarrow> mach_step env dev s s' \<Longrightarrow> nextpid s < INT_MAX \<Longrightarrow> mach_fresh env dev s'"

lemma kinv_hwtrap:
  "kinv F s \<Longrightarrow> tf_trapno tf \<noteq> T_SYSCALL \<Longrightarrow> trap env dev sysc c tf s = Some (e, s') \<Longrightarrow> kinv F s'"
  by (auto simp: trap_def bind_eq_Some dest: kinv_trap_switch intro: kinv_trap_tail)

lemma mach_step_kinv: "mach_step env dev s s' \<Longrightarrow> kinv F s \<Longrightarrow> (F \<Longrightarrow> nextpid s < INT_MAX) \<Longrightarrow> kinv F s'"
  by (induction rule: mach_step.induct)
     (blast intro: kinv_scheduler kinv_hwtrap kinv_trap_resume kinv_fork kinv_exit kinv_wait
       kinv_kill kinv_sleep kinv_sleep_resume kinv_wakeup kinv_yield kinv_growproc
       kinv_set_burst_time kinv_dec_burstTime kinv_inc_cpucounter)+

lemma kinv_userinit:
  assumes "userinit env (kernel0 w) = Some s"
  shows "kinv F s"
proof -
  obtain kk w1 where kw: "x_kalloc env w = (kk, w1)" by (cases "x_kalloc env w")
  have k0: "ptable (kernel0 w) = proc0 # replicate 63 proc0" "nextpid (kernel0 w) = 1"
    "world (kernel0 w) = w" "cpu_proc (kernel0 w) = (\<lambda>_. None)"
    by (simp_all add: kernel0_def NPROC_def numeral_eq_Suc)
  have kk: "kk \<noteq> 0"
  proof
    assume "kk = 0"
    then have "fst (allocproc env (kernel0 w)) = None"
      using kw by (simp add: allocproc_def k0 Let_def)
    with assms show False by (simp add: userinit_def case_prod_beta)
  qed
  have "\<exists>q0. ptable s = q0 # replicate 63 proc0 \<and> p_state q0 = RUNNABLE \<and> p_pid q0 = 1 \<and>
      p_parent q0 = None \<and> cpu_proc s = (\<lambda>_. None) \<and> initproc s = Some 0 \<and> nextpid s = 2"
    using assms kw kk
    by (auto simp: userinit_def allocproc_def k0 Let_def case_prod_beta split: if_splits)
  then obtain q0 where q0: "ptable s = q0 # replicate 63 proc0" "p_state q0 = RUNNABLE" "p_pid q0 = 1"
      "p_parent q0 = None"
    and fr: "cpu_proc s = (\<lambda>_. None)" "initproc s = Some 0" "nextpid s = 2"
    by blast
  have v: "st s = (\<lambda>i. if i = 0 then RUNNABLE else st s i)"
    "\<forall>i < NPROC. i \<noteq> 0 \<longrightarrow> st s i = UNUSED \<and> pid_of s i = 0 \<and> par s i = None"
    "pid_of s 0 = 1" "par s 0 = None" "st s 0 = RUNNABLE"
    using q0 by (auto simp: st_def pid_of_def par_def nth_Cons NPROC_def split: nat.splits)
  show ?thesis
    unfolding kinv_def run_inv_def pid_inv_def tree_inv_def fr
    using v q0(1) by (auto simp: NPROC_def)
qed

lemma reachable_kinv: "mach_reachable env dev s \<Longrightarrow> kinv False s"
  by (induction rule: mach_reachable.induct) (auto intro: kinv_userinit mach_step_kinv)

lemma fresh_kinv: "mach_fresh env dev s \<Longrightarrow> kinv True s"
  by (induction rule: mach_fresh.induct) (auto intro: kinv_userinit mach_step_kinv)

lemma mach_fresh_reachable: "mach_fresh env dev s \<Longrightarrow> mach_reachable env dev s"
  by (induction rule: mach_fresh.induct) (auto intro: mach_reachable.intros)


end
