(* ===== verification/ProcProps.thy ===== *)
theory ProcProps
  imports ProcInv
begin

text \<open>
  What the process table guarantees to the rest of the kernel, derived from the invariant
  of \<open>ProcInv\<close>: exclusive CPUs, unique pids as long as their counter does not wrap, the process tree, the contract between
  \<open>exit\<close> and \<open>wait\<close>, and one fault that is always reachable.
  The witnesses run the model with \<open>demo_env\<close>, in which memory never runs out.
\<close>

definition demo_env :: "nat env" where
  "demo_env = \<lparr>x_kalloc = (\<lambda>w. (4096 * (w + 1), w + 1)), x_kfree = (\<lambda>_ w. w),
     x_setupkvm = (\<lambda>w. (4096 * (w + 1), w + 1)), x_inituvm = (\<lambda>_ w. w),
     x_allocuvm = (\<lambda>_ _ n w. (n, w)), x_deallocuvm = (\<lambda>_ _ n w. (n, w)),
     x_copyuvm = (\<lambda>_ _ w. (4096 * (w + 1), w + 1)), x_freevm = (\<lambda>_ w. w),
     x_filedup = (\<lambda>f w. (f, w)), x_fileclose = (\<lambda>_ w. w), x_idup = (\<lambda>i w. (i, w)),
     x_iput = (\<lambda>_ w. w), x_namei = (\<lambda>_ w. (7, w)), x_forkret = 0x80103000, x_trapret = 0x80105000\<rparr>"

lemma demo_env_simps:
  "x_kalloc demo_env = (\<lambda>w. (4096 * (w + 1), w + 1))" "x_copyuvm demo_env = (\<lambda>_ _ w. (4096 * (w + 1), w + 1))"
  "x_idup demo_env = (\<lambda>i w. (i, w))" "x_forkret demo_env = 0x80103000"
  by (simp_all add: demo_env_def)

definition demo_dev :: "u32 \<Rightarrow> nat \<Rightarrow> nat" where
  "demo_dev _ w = w"

definition demo_init :: proc where
  "demo_init = proc0\<lparr>p_sz := 4096, p_pgdir := 8192, p_kstack := 4096, p_state := RUNNABLE, p_pid := 1,
     p_tfp := 8116, p_tf := zero_tf\<lparr>tf_cs := 27, tf_ds := 35, tf_es := 35, tf_ss := 35,
       tf_eflags := 512, tf_esp := 4096, tf_eip := 0\<rparr>, p_ctxp := 8092,
     p_ctx := \<lparr>cx_edi = 0, cx_esi = 0, cx_ebx = 0, cx_ebp = 0, cx_eip = 0x80103000\<rparr>,
     p_cwd := 7, p_name := ''initcode''\<rparr>"

definition demo_boot :: "nat kernel" where
  "demo_boot = \<lparr>ptable = demo_init # replicate 63 proc0, initproc = Some 0, nextpid = 2,
     cpu_proc = (\<lambda>_. None), ticks = 0, world = 2\<rparr>"

definition demo_running :: "nat kernel" where
  "demo_running = demo_boot\<lparr>ptable := demo_init\<lparr>p_state := RUNNING, p_count_contextswitch := 1\<rparr>
       # replicate 63 proc0, cpu_proc := (\<lambda>_. None)(0 := Some 0)\<rparr>"

lemma demo_userinit: "userinit demo_env (kernel0 0) = Some demo_boot"
proof -
  have pt: "replicate NPROC proc0 = proc0 # replicate 63 proc0"
    by (simp add: NPROC_def numeral_eq_Suc)
  show ?thesis
    by (simp add: userinit_def allocproc_def pt upd_proc_def Let_def demo_env_def demo_boot_def
        demo_init_def kernel0_def KSTACKSIZE_def safestr_def)
qed

lemma demo_pick0: "sjf_pick (ptable demo_boot) = Some (Some 0)"
proof -
  have "find_idx (\<lambda>p. p_state p = RUNNABLE) (ptable demo_boot) = Some 0"
    by (simp add: demo_boot_def demo_init_def)
  then have "\<exists>i. sjf_pick (ptable demo_boot) = Some (Some i) \<and> p_state (ptable demo_boot ! i) = RUNNABLE
      \<and> i < length (ptable demo_boot)"
    using sjf_pick_outcomes [of "ptable demo_boot"]
    by (auto simp: demo_boot_def demo_init_def INT_MAX_def)
  then obtain i where i: "sjf_pick (ptable demo_boot) = Some (Some i)"
    "p_state (ptable demo_boot ! i) = RUNNABLE" "i < length (ptable demo_boot)" by blast
  then have "i = 0"
    by (cases i) (simp_all add: demo_boot_def)
  with i show ?thesis by simp
qed

lemma demo_dispatch: "scheduler 0 demo_boot = Some demo_running"
proof -
  have pt: "ptable demo_boot = demo_init # replicate 63 proc0" "cpu_proc demo_boot = (\<lambda>_. None)"
    by (simp_all add: demo_boot_def)
  have pick: "sjf_pick (demo_init # replicate 63 proc0) = Some (Some 0)"
    using demo_pick0 by (simp add: pt)
  have run: "demo_init\<lparr>p_count_contextswitch := wrap32 (p_count_contextswitch demo_init + 1), p_state := RUNNING,
      p_cpucounter := 0\<rparr> = demo_init\<lparr>p_state := RUNNING, p_count_contextswitch := 1\<rparr>"
    by (simp add: demo_init_def proc0_def)
  show ?thesis
    by (simp add: scheduler_def pt pick upd_proc_def demo_running_def run)
qed

lemma demo_fresh:
  "mach_fresh demo_env demo_dev demo_boot" "mach_fresh demo_env demo_dev demo_running"
proof -
  show b: "mach_fresh demo_env demo_dev demo_boot"
    by (rule mach_fresh.boot [OF demo_userinit])
  show "mach_fresh demo_env demo_dev demo_running"
    by (rule mach_fresh.step [OF b mach_step.dispatch [OF _ demo_dispatch]])
       (simp_all add: demo_boot_def INT_MAX_def)
qed

lemmas demo_reachable = demo_fresh [THEN mach_fresh_reachable]

section \<open>CPUs and pids\<close>

text \<open>
  C3. Mutual exclusion of CPUs. In every reachable state of the machine, whatever the
  interleaving of traps, system calls and scheduling rounds, a process that a CPU runs is a
  slot of the table in state \<open>RUNNING\<close>, no second CPU runs it, and every \<open>RUNNING\<close>
  process has its CPU. As long as \<^verbatim>\<open>nextpid\<close> has not wrapped around, that is in every state of \<open>mach_fresh\<close>,
  used slots have pairwise distinct pids, all below the next pid to be given out.
\<close>

theorem one_cpu_per_process:
  assumes "mach_reachable env dev s"
  shows "run_inv NPROC (\<lambda>p. p_state (ptable s ! p)) (cpu_proc s) \<and>
    (mach_fresh env dev s \<longrightarrow>
      pid_inv NPROC (\<lambda>p. p_state (ptable s ! p)) (\<lambda>p. p_pid (ptable s ! p)) (nextpid s))"
  using reachable_kinv [OF assms] fresh_kinv [of env dev s] by (auto simp: kinv_def view_same)

text \<open>
  A run with two processes: the boot process is dispatched and forks, the child is
  dispatched on a second CPU, the parent waits.
\<close>

definition demo_two :: "proc \<Rightarrow> proc \<Rightarrow> (nat \<Rightarrow> nat option) \<Rightarrow> nat kernel" where
  "demo_two p q cp = \<lparr>ptable = p # q # replicate 62 proc0, initproc = Some 0, nextpid = 3,
     cpu_proc = cp, ticks = 0, world = 4\<rparr>"

lemma demo_two_simps [simp]:
  "ptable (demo_two p q cp) = p # q # replicate 62 proc0" "initproc (demo_two p q cp) = Some 0"
  "cpu_proc (demo_two p q cp) = cp" "nextpid (demo_two p q cp) = 3" "world (demo_two p q cp) = 4"
  by (simp_all add: demo_two_def)

definition demo_p0 :: proc where
  "demo_p0 = demo_init\<lparr>p_state := RUNNING, p_count_contextswitch := 1\<rparr>"

definition demo_p1 :: proc where
  "demo_p1 = proc0\<lparr>p_sz := 4096, p_pgdir := 16384, p_kstack := 12288, p_state := RUNNABLE, p_pid := 2,
     p_parent := Some 0, p_tfp := 16308, p_tf := (p_tf demo_init)\<lparr>tf_eax := 0\<rparr>, p_ctxp := 16284,
     p_ctx := p_ctx demo_init, p_cwd := 7, p_name := ''initcode''\<rparr>"

definition demo_p1_run :: proc where
  "demo_p1_run = demo_p1\<lparr>p_state := RUNNING, p_count_contextswitch := 1, p_cpucounter := 0\<rparr>"

definition demo_forked :: "nat kernel" where
  "demo_forked = demo_two demo_p0 demo_p1 [0 \<mapsto> 0]"

definition demo_child :: "nat kernel" where
  "demo_child = demo_two demo_p0 demo_p1_run [0 \<mapsto> 0, 1 \<mapsto> 1]"

definition demo_waiting :: "nat kernel" where
  "demo_waiting = demo_two (demo_p0\<lparr>p_chan := ChProc 0, p_state := SLEEPING\<rparr>) demo_p1_run
     ([0 \<mapsto> 0, 1 \<mapsto> 1](0 := None))"

lemma demo_proc_simps [simp]:
  "p_state demo_p0 = RUNNING" "p_state demo_p1 = RUNNABLE" "p_state demo_p1_run = RUNNING"
  "p_parent demo_p0 = None" "p_parent demo_p1 = Some 0" "p_parent demo_p1_run = Some 0"
  "p_pid demo_p0 = 1" "p_pid demo_p1 = 2" "p_pid demo_p1_run = 2" "p_burst_time demo_p1 = 0"
  "p_killed demo_p0 = False" "p_killed demo_p1 = False" "p_killed demo_p1_run = False"
  "p_count_contextswitch demo_p1 = 0"
  by (simp_all add: demo_p0_def demo_p1_def demo_p1_run_def demo_init_def)

lemma demo_fork: "fork demo_env 0 demo_running = Some (2, demo_forked)"
proof -
  have pt: "ptable demo_running = demo_p0 # proc0 # replicate 62 proc0"
    by (simp add: demo_running_def demo_p0_def numeral_eq_Suc)
  have c: "cpu_proc demo_running = [0 \<mapsto> 0]" "world demo_running = 2" "nextpid demo_running = 2"
    "initproc demo_running = Some 0" "ticks demo_running = 0"
    by (simp_all add: demo_running_def demo_boot_def)
  have dup: "dup_files demo_env (replicate n 0) (replicate n 0) w = (replicate n 0, w)" for n w
    by (induction n) simp_all
  have np: "p_ofile demo_p0 = replicate NOFILE 0" "p_sz demo_p0 = 4096" "p_cwd demo_p0 = 7"
    "p_name demo_p0 = ''initcode''" "p_tf demo_p0 = p_tf demo_init"
    by (simp_all add: demo_p0_def demo_init_def)
  show ?thesis
    by (simp add: fork_def allocproc_def pt c upd_proc_def Let_def case_prod_beta np dup
        demo_env_simps KSTACKSIZE_def safestr_def demo_forked_def demo_two_def demo_p1_def demo_init_def)
qed

lemma demo_pick:
  assumes "p_state p \<noteq> RUNNABLE" "p_state q = RUNNABLE" "p_burst_time q < INT_MAX"
  shows "sjf_pick (p # q # replicate 62 proc0) = Some (Some 1)"
proof -
  let ?pt = "p # q # replicate 62 proc0"
  have "find_idx (\<lambda>p. p_state p = RUNNABLE) ?pt = Some 1" using assms by simp
  then obtain i where i: "i < length ?pt" "sjf_pick ?pt = Some (Some i)" "p_state (?pt ! i) = RUNNABLE"
    using sjf_pick_outcomes [of ?pt] assms by auto
  have "i = 1"
  proof (cases i)
    case 0
    then show ?thesis using i assms by simp
  next
    case (Suc k)
    then show ?thesis using i by (cases k) simp_all
  qed
  with i show ?thesis by simp
qed

lemma demo_schedule: "scheduler 1 demo_forked = Some demo_child"
  by (simp add: scheduler_def demo_forked_def demo_pick INT_MAX_def upd_proc_def demo_child_def
      demo_two_def demo_p1_run_def)

lemma demo_wait: "wait demo_env 0 demo_child = Some (Inr (), demo_waiting)"
  by (simp add: wait_def demo_child_def find_idx_None [THEN iffD2] sleep_def sched_def upd_proc_def
      demo_waiting_def demo_two_def)

lemma demo_fresh_steps:
  "mach_fresh demo_env demo_dev demo_forked" "mach_fresh demo_env demo_dev demo_child"
  "mach_fresh demo_env demo_dev demo_waiting"
proof -
  show f: "mach_fresh demo_env demo_dev demo_forked"
    by (rule mach_fresh.step [OF demo_fresh(2) mach_step.forked [OF demo_fork]])
       (simp add: demo_running_def demo_boot_def INT_MAX_def)
  show c: "mach_fresh demo_env demo_dev demo_child"
    by (rule mach_fresh.step [OF f mach_step.dispatch [OF _ demo_schedule]])
       (simp_all add: demo_forked_def INT_MAX_def)
  show "mach_fresh demo_env demo_dev demo_waiting"
    by (rule mach_fresh.step [OF c mach_step.waited [OF demo_wait]]) (simp add: demo_child_def INT_MAX_def)
qed

lemmas demo_steps = demo_fresh_steps [THEN mach_fresh_reachable]

text \<open>Two processes on two CPUs, with different pids.\<close>

lemma one_cpu_per_process_witness:
  "cpu_proc demo_child 0 \<noteq> cpu_proc demo_child 1 \<and> p_pid (ptable demo_child ! 0) \<noteq> p_pid (ptable demo_child ! 1)"
proof -
  have s: "cpu_proc demo_child 0 = Some 0" "p_state (ptable demo_child ! 0) \<noteq> UNUSED"
    "p_state (ptable demo_child ! 1) \<noteq> UNUSED" "0 < NPROC" "1 < NPROC"
    by (simp_all add: demo_child_def NPROC_def)
  have "pid_inv NPROC (\<lambda>p. p_state (ptable demo_child ! p)) (\<lambda>p. p_pid (ptable demo_child ! p)) (nextpid demo_child)"
    and "run_inv NPROC (\<lambda>p. p_state (ptable demo_child ! p)) (cpu_proc demo_child)"
    using one_cpu_per_process [OF demo_steps(2)] demo_fresh_steps(2) by simp_all
  then show ?thesis using s unfolding pid_inv_def run_inv_def by (metis zero_neq_one)
qed

section \<open>The process tree\<close>

text \<open>
  C4. The process tree. In every reachable state init exists and is alive, and every used
  slot other than init, zombies included, has a parent that is alive and can still wait for it: no process is
  ever orphaned.
\<close>

theorem process_tree:
  assumes "mach_reachable env dev s"
  shows "\<exists>ip < NPROC. initproc s = Some ip \<and> alive (p_state (ptable s ! ip)) \<and>
    (\<forall>i < NPROC. p_state (ptable s ! i) \<notin> {UNUSED, EMBRYO} \<longrightarrow> i \<noteq> ip \<longrightarrow>
       (\<exists>q < NPROC. p_parent (ptable s ! i) = Some q \<and> alive (p_state (ptable s ! q))))"
proof -
  from reachable_kinv [OF assms] have "tree_inv NPROC (st s) (par s) (initproc s)"
    by (simp add: kinv_def)
  then obtain ip where ip: "initproc s = Some ip" "ip < NPROC" "alive (st s ip)"
    and all: "\<And>i. i < NPROC \<Longrightarrow> if st s i = UNUSED \<or> st s i = EMBRYO then par s i = None
                else i \<noteq> ip \<longrightarrow> (\<exists>q < NPROC. par s i = Some q \<and> alive (st s q))"
    unfolding tree_inv_def by blast
  show ?thesis
    using ip all by (intro exI [of _ ip]) (auto simp: view_same)
qed

lemma process_tree_witness:
  "\<exists>q < NPROC. p_parent (ptable demo_forked ! 1) = Some q \<and> alive (p_state (ptable demo_forked ! q))"
  using process_tree [OF demo_steps(1)] by (auto simp: NPROC_def demo_forked_def)

text \<open>
  C5. Exit. A running process other than init can always exit: it becomes a zombie and frees
  its CPU, every one of its children becomes a child of init, no slot names it as parent any more, and
  a parent that sleeps in \<open>wait\<close> (on its own slot) is runnable afterwards: the wakeup is not lost.
\<close>

theorem exit_effects:
  assumes "mach_reachable env dev s" and "cpu_proc s c = Some me" and "initproc s \<noteq> Some me"
  shows "\<exists>s'. exit env c s = Some s' \<and> p_state (ptable s' ! me) = ZOMBIE \<and> cpu_proc s' c = None \<and>
    (\<forall>j < NPROC. p_parent (ptable s' ! j) \<noteq> Some me \<and>
       (p_parent (ptable s ! j) = Some me \<longrightarrow> p_parent (ptable s' ! j) = initproc s)) \<and>
    (\<forall>q. p_parent (ptable s ! me) = Some q \<and> p_state (ptable s ! q) = SLEEPING \<and> p_chan (ptable s ! q) = ChProc q \<longrightarrow>
       p_state (ptable s' ! q) = RUNNABLE)"
proof -
  have k: "kinv False s" by (rule reachable_kinv [OF assms(1)])
  obtain s' where e: "exit env c s = Some s'"
    using exit_returns [OF k assms(2,3)] by blast
  note sp = exit_spec [OF k e assms(2)]
  have run: "st s me = RUNNING" and me: "me < NPROC" using kinv_cpuD [OF k assms(2)] by simp_all
  have "p_state (ptable s' ! q) = RUNNABLE" if "p_parent (ptable s ! me) = Some q" "p_state (ptable s ! q) = SLEEPING"
    "p_chan (ptable s ! q) = ChProc q" for q
  proof -
    have "q < NPROC" using k assms(3) run me that(1) by (auto simp: kinv_def tree_inv_def view_same split: if_splits)
    then show ?thesis using sp that by (auto simp: view_same chan_of_def)
  qed
  with e sp assms(3) show ?thesis by (auto simp: view_same)
qed

lemma exit_effects_witness:
  "\<exists>s'. exit demo_env 1 demo_waiting = Some s' \<and> p_state (ptable s' ! 1) = ZOMBIE \<and> p_state (ptable s' ! 0) = RUNNABLE"
  using exit_effects [OF demo_steps(3), where c = 1 and me = 1] by (auto simp: demo_waiting_def)

section \<open>Wait\<close>

definition zombie_child :: "'w kernel \<Rightarrow> nat \<Rightarrow> nat \<Rightarrow> bool" where
  "zombie_child s me i \<longleftrightarrow> i < length (ptable s) \<and> p_parent (ptable s ! i) = Some me \<and>
     p_state (ptable s ! i) = ZOMBIE"

text \<open>
  C6. Every outcome of one round of \<open>wait\<close>. If some child is a zombie, the first of them in the table is
  reaped: its pid is returned, its kernel stack and page table are freed, its slot becomes \<open>UNUSED\<close> with
  stack, pid, parent, name and \<^verbatim>\<open>killed\<close> cleared, and no other slot changes. Without a
  zombie child, a process that has no children or has been killed gets \<open>-1\<close> and nothing
  changes; otherwise it sleeps on its own slot and frees its CPU.
\<close>

theorem wait_outcomes:
  assumes "mach_reachable env dev s" and "cpu_proc s c = Some me"
  shows "((\<exists>i. zombie_child s me i) \<longrightarrow>
      (\<exists>i s'. zombie_child s me i \<and> (\<forall>j < i. \<not> zombie_child s me j) \<and>
         wait env c s = Some (Inl (p_pid (ptable s ! i)), s') \<and>
         ptable s' ! i = (ptable s ! i)\<lparr>p_state := UNUSED, p_kstack := 0, p_pid := 0, p_parent := None,
           p_name := [], p_killed := False\<rparr> \<and>
         world s' = x_freevm env (p_pgdir (ptable s ! i)) (x_kfree env (p_kstack (ptable s ! i)) (world s)) \<and>
         (\<forall>j. j \<noteq> i \<longrightarrow> ptable s' ! j = ptable s ! j))) \<and>
    ((\<forall>i. \<not> zombie_child s me i) \<and>
       ((\<forall>p \<in> set (ptable s). p_parent p \<noteq> Some me) \<or> p_killed (ptable s ! me)) \<longrightarrow>
      wait env c s = Some (Inl (- 1), s)) \<and>
    ((\<forall>i. \<not> zombie_child s me i) \<and> (\<exists>p \<in> set (ptable s). p_parent p = Some me) \<and>
       \<not> p_killed (ptable s ! me) \<longrightarrow>
      (\<exists>s'. wait env c s = Some (Inr (), s') \<and> p_state (ptable s' ! me) = SLEEPING \<and>
         p_chan (ptable s' ! me) = ChProc me \<and> cpu_proc s' c = None))"
proof (intro conjI impI)
  let ?z = "\<lambda>p. p_parent p = Some me \<and> p_state p = ZOMBIE"
  have me: "me < length (ptable s)"
    using kinv_cpuD [OF reachable_kinv [OF assms(1)] assms(2)] by simp
  have none: "(\<forall>i. \<not> zombie_child s me i) \<longleftrightarrow> find_idx ?z (ptable s) = None"
    unfolding zombie_child_def find_idx_None by (metis in_set_conv_nth)
  { assume "\<exists>i. zombie_child s me i"
    then obtain i where i: "find_idx ?z (ptable s) = Some i" using none by (metis not_None_eq)
    then have z: "zombie_child s me i" "\<forall>j < i. \<not> zombie_child s me j"
      by (auto simp: zombie_child_def find_idx_Some)
    with i assms(2) show "\<exists>i s'. zombie_child s me i \<and> (\<forall>j < i. \<not> zombie_child s me j) \<and>
         wait env c s = Some (Inl (p_pid (ptable s ! i)), s') \<and>
         ptable s' ! i = (ptable s ! i)\<lparr>p_state := UNUSED, p_kstack := 0, p_pid := 0, p_parent := None,
           p_name := [], p_killed := False\<rparr> \<and>
         world s' = x_freevm env (p_pgdir (ptable s ! i)) (x_kfree env (p_kstack (ptable s ! i)) (world s)) \<and>
         (\<forall>j. j \<noteq> i \<longrightarrow> ptable s' ! j = ptable s ! j)"
      by (intro exI [of _ i]) (simp add: wait_def Let_def zombie_child_def) }
  { assume "(\<forall>i. \<not> zombie_child s me i) \<and>
       ((\<forall>p \<in> set (ptable s). p_parent p \<noteq> Some me) \<or> p_killed (ptable s ! me))"
    with assms(2) none show "wait env c s = Some (Inl (- 1), s)" by (simp add: wait_def) }
  { assume "(\<forall>i. \<not> zombie_child s me i) \<and> (\<exists>p \<in> set (ptable s). p_parent p = Some me) \<and>
       \<not> p_killed (ptable s ! me)"
    with assms(2) none me show "\<exists>s'. wait env c s = Some (Inr (), s') \<and>
         p_state (ptable s' ! me) = SLEEPING \<and> p_chan (ptable s' ! me) = ChProc me \<and> cpu_proc s' c = None"
      by (auto simp: wait_def sleep_def sched_def) }
qed

lemma wait_outcomes_witness:
  "\<exists>s'. wait demo_env 0 demo_child = Some (Inr (), s') \<and> p_state (ptable s' ! 0) = SLEEPING"
proof -
  have "\<not> zombie_child demo_child 0 i" for i
    by (cases i; cases "i - 1") (simp_all add: zombie_child_def demo_child_def)
  then show ?thesis
    using wait_outcomes [OF demo_steps(2), of 0 0] by (auto simp: demo_child_def)
qed

section \<open>Two faults\<close>

text \<open>
  \<open>getProcInfo\<close> on init. In every reachable state without a wrap of the pids, asking for the process information
  of init's own pid makes the kernel read \<^verbatim>\<open>p->parent->pid\<close> through a null pointer, since
  init has no parent.
\<close>

lemma getProcInfo_init_faults:
  assumes "mach_fresh env dev s" and "initproc s = Some ip"
  shows "getProcInfo (p_pid (ptable s ! ip)) s = None"
proof -
  have k: "kinv True s" by (rule fresh_kinv [OF assms(1)])
  then have len: "length (ptable s) = NPROC" and ip: "ip < NPROC" "st s ip \<noteq> UNUSED" "par s ip = None"
    using assms(2) by (auto simp: kinv_def tree_inv_def)
  have "\<exists>x \<in> set (ptable s). p_pid x = p_pid (ptable s ! ip)" using ip len by auto
  then obtain i where i: "find_idx (\<lambda>p. p_pid p = p_pid (ptable s ! ip)) (ptable s) = Some i"
    by (metis (mono_tags, lifting) find_idx_None not_None_eq)
  then have i': "i < NPROC" "pid_of s i = pid_of s ip"
    using len by (simp_all add: find_idx_Some view_same)
  have "par s i = None"
  proof (cases "i = ip")
    case False
    then have "st s i = UNUSED" using k i' ip by (auto simp: kinv_def pid_inv_def)
    with k i' show ?thesis by (auto simp: kinv_def tree_inv_def split: if_splits)
  qed (use ip in simp)
  with i show ?thesis by (simp add: getProcInfo_def view_same)
qed

lemma getProcInfo_init_faults_witness: "getProcInfo 1 demo_child = None"
  using getProcInfo_init_faults [OF demo_fresh_steps(2), of 0] by (simp add: demo_child_def)

lemma quantum_two_ticks_witness:
  "\<exists>s1 s2. trap demo_env demo_dev (\<lambda>_ _. None) 0 (zero_tf\<lparr>tf_trapno := 32\<rparr>) demo_running = Some (TrapDone, s1) \<and>
     trap demo_env demo_dev (\<lambda>_ _. None) 0 (zero_tf\<lparr>tf_trapno := 32\<rparr>) s1 = Some (TrapYielded, s2) \<and>
     p_burst_time (ptable s2 ! 0) = - 2 \<and> p_cpucounter (ptable s2 ! 0) = 0"
  using quantum_two_ticks [OF demo_dispatch demo_pick0, of "zero_tf\<lparr>tf_trapno := 32\<rparr>"
        "zero_tf\<lparr>tf_trapno := 32\<rparr>" demo_env demo_dev "\<lambda>_ _. None"]
  by (auto simp: demo_boot_def demo_init_def T_IRQ0_def IRQ_TIMER_def)

end
