(* ===== verification/SysA2.thy ===== *)
theory SysA2
  imports ProcProps
begin

text \<open>
  The system calls of Assignment 2 (\<^verbatim>\<open>g17hybrid/sysproc.c\<close>, \<^verbatim>\<open>g17hybrid/syscall.c\<close>): the arguments on the user stack, the calls on
  processes and the dispatcher. \<open>um\<close> is the memory of the calling process as it sees it, \<open>c\<close> the CPU. The
  calls on files are stock xv6 and a parameter, by number; so is the store of a \<^verbatim>\<open>struct processInfo\<close>, whose
  header file is missing in the repository. What local variables hold before they are assigned is the parameter \<open>left\<close>.
\<close>

section \<open>Arguments\<close>

definition fetchint :: "bytes \<Rightarrow> proc \<Rightarrow> u32 \<Rightarrow> u32 option" where
  "fetchint um q addr = (if addr \<ge> p_sz q \<or> addr + 4 > p_sz q then None else Some (get32 um (unat addr)))"

definition argint :: "bytes \<Rightarrow> proc \<Rightarrow> nat \<Rightarrow> u32 option" where
  "argint um q n = fetchint um q (tf_esp (p_tf q) + 4 + 4 * of_nat n)"

definition argptr :: "bytes \<Rightarrow> proc \<Rightarrow> nat \<Rightarrow> int \<Rightarrow> u32 option" where
  "argptr um q n sz =
     (case argint um q n of
        None \<Rightarrow> None
      | Some i \<Rightarrow> if sz < 0 \<or> i \<ge> p_sz q \<or> i + word_of_int sz > p_sz q then None else Some i)"

section \<open>The calls\<close>

text \<open>
  \<open>Ret\<close>: the call returns. \<open>Yielded\<close>: it has given up the CPU and returns its result when the process runs again. \<open>Asleep\<close>: the process
  sleeps in the call. \<open>Exited\<close>: it does not return.
\<close>

datatype sysres = Ret int | Yielded int | Asleep | Exited

type_synonym 'w syscall_fun = "nat \<Rightarrow> 'w kernel \<Rightarrow> (sysres \<times> 'w kernel) option"

record leftover =
  left_n :: int
  left_pid :: int
  left_pif :: u32

definition myproc :: "nat \<Rightarrow> 'w kernel \<Rightarrow> proc option" where
  "myproc c s = map_option (\<lambda>p. ptable s ! p) (cpu_proc s c)"

definition sys_fork :: "'w env \<Rightarrow> 'w syscall_fun" where
  "sys_fork env c s = do { (r, s1) \<leftarrow> fork env c s; Some (Ret r, s1) }"

definition sys_exit :: "'w env \<Rightarrow> 'w syscall_fun" where
  "sys_exit env c s = do { s1 \<leftarrow> exit env c s; Some (Exited, s1) }"

definition sys_wait :: "'w env \<Rightarrow> 'w syscall_fun" where
  "sys_wait env c s = do { (r, s1) \<leftarrow> wait env c s; Some (case r of Inl pid \<Rightarrow> Ret pid | Inr _ \<Rightarrow> Asleep, s1) }"

definition sys_kill :: "bytes \<Rightarrow> 'w syscall_fun" where
  "sys_kill um c s = do {
     q \<leftarrow> myproc c s;
     case argint um q 0 of
       None \<Rightarrow> Some (Ret (- 1), s)
     | Some pid \<Rightarrow> (case kill (sint pid) s of (r, s1) \<Rightarrow> Some (Ret r, s1))
   }"

definition sys_getpid :: "'w syscall_fun" where
  "sys_getpid c s = do { q \<leftarrow> myproc c s; Some (Ret (p_pid q), s) }"

definition sys_sbrk :: "'w env \<Rightarrow> bytes \<Rightarrow> 'w syscall_fun" where
  "sys_sbrk env um c s = do {
     q \<leftarrow> myproc c s;
     case argint um q 0 of
       None \<Rightarrow> Some (Ret (- 1), s)
     | Some n \<Rightarrow> do {
         (r, s1) \<leftarrow> growproc env c (sint n) s;
         Some (Ret (if r < 0 then - 1 else sint (p_sz q)), s1)
       }
   }"

text \<open>The loop of \<open>sys_sleep\<close>, entered again after each tick; \<^verbatim>\<open>n\<close> is compared as an unsigned number.\<close>

definition sleep_loop :: "u32 \<Rightarrow> u32 \<Rightarrow> 'w syscall_fun" where
  "sleep_loop ticks0 n c s =
     (if ticks s - ticks0 < n then do {
        q \<leftarrow> myproc c s;
        if p_killed q then Some (Ret (- 1), s)
        else do { s1 \<leftarrow> sleep c ChTicks s; Some (Asleep, s1) }
      } else Some (Ret 0, s))"

definition sys_sleep :: "bytes \<Rightarrow> 'w syscall_fun" where
  "sys_sleep um c s = do {
     q \<leftarrow> myproc c s;
     case argint um q 0 of None \<Rightarrow> Some (Ret (- 1), s) | Some n \<Rightarrow> sleep_loop (ticks s) n c s
   }"

definition sys_uptime :: "'w syscall_fun" where
  "sys_uptime c s = Some (Ret (sint (ticks s)), s)"

definition sys_getMaxPid :: "'w syscall_fun" where
  "sys_getMaxPid c s = Some (Ret (getMaxPid s), s)"

definition sys_getNumProc :: "'w syscall_fun" where
  "sys_getNumProc c s = Some (Ret (getNumProc s), s)"

text \<open>
  \<open>argptr\<close> stores the argument itself in the variable, provided that it passes for the address of 4 bytes; its result is ignored, and
  the variables keep what they held.
\<close>

definition sys_getProcInfo :: "(u32 \<Rightarrow> processInfo \<Rightarrow> 'w \<Rightarrow> 'w) \<Rightarrow> leftover \<Rightarrow> bytes \<Rightarrow> 'w syscall_fun" where
  "sys_getProcInfo put left um c s = do {
     q \<leftarrow> myproc c s;
     let pid = (case argptr um q 0 4 of Some w \<Rightarrow> sint w | None \<Rightarrow> left_pid left);
     let pif = (case argptr um q 1 4 of Some w \<Rightarrow> w | None \<Rightarrow> left_pif left);
     (r, info) \<leftarrow> getProcInfo pid s;
     Some (Ret r, case info of None \<Rightarrow> s | Some i \<Rightarrow> s\<lparr>world := put pif i (world s)\<rparr>)
   }"

definition sys_set_burst_time :: "leftover \<Rightarrow> bytes \<Rightarrow> 'w syscall_fun" where
  "sys_set_burst_time left um c s = do {
     q \<leftarrow> myproc c s;
     let n = (case argptr um q 0 4 of Some w \<Rightarrow> sint w | None \<Rightarrow> left_n left);
     (r, s1) \<leftarrow> set_burst_time c n s;
     Some (Yielded r, s1)
   }"

definition sys_get_burst_time :: "'w syscall_fun" where
  "sys_get_burst_time c s = do { r \<leftarrow> get_burst_time c s; Some (Ret r, s) }"

text \<open>\<open>process_state\<close> prints its lines and returns 0.\<close>

definition sys_process_state :: "'w syscall_fun" where
  "sys_process_state c s = Some (Ret 0, s)"

definition sys_inc_cpucounter :: "'w syscall_fun" where
  "sys_inc_cpucounter c s = do { (r, s1) \<leftarrow> inc_cpucounter c s; Some (Ret r, s1) }"

definition sys_dec_burstTime :: "'w syscall_fun" where
  "sys_dec_burstTime c s = do { s1 \<leftarrow> dec_burstTime c s; Some (Ret 29, s1) }"

section \<open>The dispatcher\<close>

text \<open>The table \<^verbatim>\<open>syscalls\<close>; entry 0 is null, and \<open>file n\<close> is the call on files with number \<open>n\<close>.\<close>

definition syscalls ::
  "'w env \<Rightarrow> (u32 \<Rightarrow> processInfo \<Rightarrow> 'w \<Rightarrow> 'w) \<Rightarrow> (nat \<Rightarrow> 'w syscall_fun) \<Rightarrow> leftover \<Rightarrow> bytes \<Rightarrow> 'w syscall_fun option list" where
  "syscalls env put file left um =
    [None, Some (sys_fork env), Some (sys_exit env), Some (sys_wait env), Some (file 4), Some (file 5), Some (sys_kill um), Some (file 7),
     Some (file 8), Some (file 9), Some (file 10), Some sys_getpid, Some (sys_sbrk env um), Some (sys_sleep um), Some sys_uptime,
     Some (file 15), Some (file 16), Some (file 17), Some (file 18), Some (file 19), Some (file 20), Some (file 21), Some sys_getNumProc,
     Some sys_getMaxPid, Some (sys_getProcInfo put left um), Some (sys_set_burst_time left um), Some sys_get_burst_time, Some sys_process_state,
     Some sys_inc_cpucounter, Some sys_dec_burstTime]"

definition set_eax :: "nat \<Rightarrow> int \<Rightarrow> 'w kernel \<Rightarrow> 'w kernel" where
  "set_eax p r = upd_proc p (\<lambda>q. q\<lparr>p_tf := (p_tf q)\<lparr>tf_eax := word_of_int r\<rparr>\<rparr>)"

text \<open>
  The result goes to the saved \<^verbatim>\<open>eax\<close>. For a call that has yielded it is stored at once, though the process does it when
  it runs again: nobody else looks at its trap frame.
\<close>

definition syscall ::
  "'w env \<Rightarrow> (u32 \<Rightarrow> processInfo \<Rightarrow> 'w \<Rightarrow> 'w) \<Rightarrow> (nat \<Rightarrow> 'w syscall_fun) \<Rightarrow> leftover \<Rightarrow> bytes \<Rightarrow> nat \<Rightarrow> 'w kernel \<Rightarrow> (trap_end \<times> 'w kernel) option" where
  "syscall env put file left um c s = do {
     p \<leftarrow> cpu_proc s c;
     let num = sint (tf_eax (p_tf (ptable s ! p)));
     let tbl = syscalls env put file left um;
     case (if num > 0 \<and> num < int (length tbl) then tbl ! nat num else None) of
       None \<Rightarrow> Some (TrapDone, set_eax p (- 1) s)
     | Some f \<Rightarrow> do {
         (r, s1) \<leftarrow> f c s;
         Some (case r of
           Ret n \<Rightarrow> (TrapDone, set_eax p n s1)
         | Yielded n \<Rightarrow> (TrapYielded, set_eax p n s1)
         | Asleep \<Rightarrow> (TrapYielded, s1)
         | Exited \<Rightarrow> (TrapExited, s1))
       }
   }"

section \<open>The burst time a process gives itself\<close>

text \<open>An int that \<open>argptr\<close> accepts is a valid address of the process.\<close>

lemma argptr_word:
  assumes "argint um q n = Some w"
  shows "argptr um q n 4 = (if w < p_sz q \<and> w + 4 \<le> p_sz q then Some w else None)"
  using assms by (auto simp: argptr_def not_le)

lemma set_burst_time_state:
  assumes "cpu_proc s c = Some me" and "me < length (ptable s)"
  shows "\<exists>s'. set_burst_time c n s = Some (0, s') \<and>
    ptable s' = (ptable s)[me := (ptable s ! me)\<lparr>p_burst_time := n, p_state := RUNNABLE\<rparr>]"
  using assms by (auto simp: set_burst_time_def yield_def sched_def)

lemma syscall_set_burst_time:
  assumes run: "cpu_proc s c = Some me" "me < length (ptable s)" and eax: "tf_eax (p_tf (ptable s ! me)) = 25"
    and arg: "argint um (ptable s ! me) 0 = Some w"
    and n: "n = (if w < p_sz (ptable s ! me) \<and> w + 4 \<le> p_sz (ptable s ! me) then sint w else left_n left)"
  shows "\<exists>s'. syscall env put file left um c s = Some (TrapYielded, s') \<and>
    ptable s' = (ptable s)[me := (ptable s ! me)\<lparr>p_burst_time := n, p_state := RUNNABLE,
      p_tf := (p_tf (ptable s ! me))\<lparr>tf_eax := 0\<rparr>\<rparr>]"
proof -
  obtain s1 where s1: "set_burst_time c n s = Some (0, s1)"
    "ptable s1 = (ptable s)[me := (ptable s ! me)\<lparr>p_burst_time := n, p_state := RUNNABLE\<rparr>]"
    using set_burst_time_state [OF run] by blast
  have "sys_set_burst_time left um c s = Some (Yielded 0, s1)"
    using run s1(1) argptr_word [OF arg] n
    by (cases "w < p_sz (ptable s ! me) \<and> w + 4 \<le> p_sz (ptable s ! me)") (simp_all add: sys_set_burst_time_def myproc_def)
  then have "syscall env put file left um c s = Some (TrapYielded, set_eax me 0 s1)"
    using run eax by (simp add: syscall_def syscalls_def)
  moreover have "ptable (set_eax me 0 s1) = (ptable s)[me := (ptable s ! me)\<lparr>p_burst_time := n, p_state := RUNNABLE,
      p_tf := (p_tf (ptable s ! me))\<lparr>tf_eax := 0\<rparr>\<rparr>]"
    using run(2) s1(2) by (simp add: set_eax_def upd_proc_def)
  ultimately show ?thesis by blast
qed

lemma trap_syscall:
  assumes "tf_trapno tf = T_SYSCALL" and "cpu_proc s c = Some p" and "\<not> p_killed (ptable s ! p)"
    and "sysc c (upd_proc p (\<lambda>q. q\<lparr>p_tf := tf\<rparr>) s) = Some (TrapYielded, s1)"
  shows "trap env dev sysc c tf s = Some (TrapYielded, s1)"
  using assms by (simp add: trap_def)

text \<open>
  C7. The burst time is not checked. In every reachable state, a process that asks by a system call for the burst time \<open>w\<close> gets it
  only if \<open>w\<close> happens to be an address of 4 bytes inside its own memory; otherwise, for every negative number for instance and, below
  \<open>KERNBASE\<close>, for \<open>INT_MAX\<close>, it gets whatever the kernel stack held, and the call returns 0, success, either way. If
  that is \<open>INT_MAX\<close> and no slot before it is runnable, the next scheduling round on any CPU dereferences a null pointer.
\<close>

theorem burst_time_unchecked:
  assumes "mach_reachable env dev s" and "cpu_proc s c = Some me" and "q = ptable s ! me" and "\<not> p_killed q"
    and "tf_trapno tf = T_SYSCALL" and "tf_eax tf = 25" and "argint um (q\<lparr>p_tf := tf\<rparr>) 0 = Some w"
  shows "\<exists>s'. trap env dev (syscall env put file left um) c tf s = Some (TrapYielded, s') \<and>
    tf_eax (p_tf (ptable s' ! me)) = 0 \<and>
    p_burst_time (ptable s' ! me) = (if w < p_sz q \<and> w + 4 \<le> p_sz q then sint w else left_n left) \<and>
    (p_sz q \<le> 0x80000000 \<and> (sint w < 0 \<or> sint w = INT_MAX) \<longrightarrow> p_burst_time (ptable s' ! me) = left_n left) \<and>
    (p_burst_time (ptable s' ! me) = INT_MAX \<and> (\<forall>j < me. p_state (ptable s ! j) \<noteq> RUNNABLE) \<longrightarrow> scheduler d s' = None)"
proof -
  let ?s = "upd_proc me (\<lambda>q. q\<lparr>p_tf := tf\<rparr>) s"
  define n where "n = (if w < p_sz q \<and> w + 4 \<le> p_sz q then sint w else left_n left)"
  have me: "me < length (ptable s)" using kinv_cpuD [OF reachable_kinv [OF assms(1)] assms(2)] by simp
  have q: "ptable ?s ! me = q\<lparr>p_tf := tf\<rparr>" using me assms(3) by (simp add: upd_proc_def)
  have run: "cpu_proc ?s c = Some me" "me < length (ptable ?s)" using assms(2) me by (simp_all add: upd_proc_def)
  have x: "tf_eax (p_tf (ptable ?s ! me)) = 25" "argint um (ptable ?s ! me) 0 = Some w"
    "n = (if w < p_sz (ptable ?s ! me) \<and> w + 4 \<le> p_sz (ptable ?s ! me) then sint w else left_n left)"
    unfolding q using assms(6,7) n_def by simp_all
  obtain s' where sc: "syscall env put file left um c ?s = Some (TrapYielded, s')"
    and pt: "ptable s' = (ptable ?s)[me := (ptable ?s ! me)\<lparr>p_burst_time := n, p_state := RUNNABLE,
      p_tf := (p_tf (ptable ?s ! me))\<lparr>tf_eax := 0\<rparr>\<rparr>]"
    using syscall_set_burst_time [OF run x] by blast
  have s': "trap env dev (syscall env put file left um) c tf s = Some (TrapYielded, s')"
    by (rule trap_syscall [where sysc = "syscall env put file left um", OF assms(5,2) _ sc]) (use assms(3,4) in simp)
  have len: "length (ptable s') = length (ptable s)" by (simp add: pt upd_proc_def)
  have b: "p_burst_time (ptable s' ! me) = n" "p_state (ptable s' ! me) = RUNNABLE" "tf_eax (p_tf (ptable s' ! me)) = 0" using run(2) by (simp_all add: pt)
  have out: "n = left_n left" if sz: "p_sz q \<le> 0x80000000" and w: "sint w < 0 \<or> sint w = INT_MAX"
  proof -
    have "\<not> (w < p_sz q \<and> w + 4 \<le> p_sz q)"
    proof
      assume a: "w < p_sz q \<and> w + 4 \<le> p_sz q"
      then have lt: "unat w < 2 ^ 31" using sz by (simp add: word_less_nat_alt word_le_nat_alt)
      have "uint w = int (unat w)" by simp
      also have "int (unat w) < int (2 ^ 31)" using lt by (simp only: of_nat_less_iff)
      finally have u: "uint w < 2 ^ 31" by simp
      have "- (2 ^ 31) \<le> uint w" using unsigned_greater_eq [of w] by (rule order_trans [rotated]) simp
      then have "sint w = uint w" using u by (simp add: sint_uint signed_take_bit_int_eq_self)
      then have "uint w = INT_MAX" using w by simp
      then have "w = 0x7FFFFFFF" unfolding INT_MAX_def by (metis word_of_int_uint of_int_numeral word_of_int_numeral)
      then show False using a sz by (simp add: word_less_nat_alt word_le_nat_alt)
    qed
    then show ?thesis unfolding n_def by (rule if_not_P)
  qed
  have "scheduler d s' = None" if "n = INT_MAX" "\<forall>j < me. p_state (ptable s ! j) \<noteq> RUNNABLE"
  proof -
    have "p_state (ptable s' ! j) \<noteq> RUNNABLE" if "j < me" for j
      using \<open>\<forall>j < me. p_state (ptable s ! j) \<noteq> RUNNABLE\<close> that by (simp add: pt upd_proc_def)
    then have "find_idx (\<lambda>p. p_state p = RUNNABLE) (ptable s') = Some me" using me b(2) len by (simp add: find_idx_Some)
    then have "sjf_pick (ptable s') = None" by (rule sjf_pick_fault) (simp add: b(1) that(1))
    then show ?thesis by (simp add: scheduler_def)
  qed
  then show ?thesis using s' b out n_def by auto
qed

text \<open>Init asks for \<open>INT_MAX\<close>, and the stack happens to hold \<open>INT_MAX\<close>.\<close>

lemma burst_time_unchecked_witness:
  "\<exists>s'. trap demo_env demo_dev (syscall demo_env (\<lambda>_ _ w. w) (\<lambda>_ _ _. None) \<lparr>left_n = INT_MAX, left_pid = 0, left_pif = 0\<rparr>
       (put32 zero_bytes 4 0x7FFFFFFF)) 0 (zero_tf\<lparr>tf_trapno := 64, tf_eax := 25\<rparr>) demo_running = Some (TrapYielded, s') \<and>
     tf_eax (p_tf (ptable s' ! 0)) = 0 \<and> p_burst_time (ptable s' ! 0) = INT_MAX \<and> scheduler 2 s' = None"
proof -
  let ?tf = "zero_tf\<lparr>tf_trapno := 64, tf_eax := 25\<rparr>" and ?um = "put32 zero_bytes 4 0x7FFFFFFF"
    and ?l = "\<lparr>left_n = INT_MAX, left_pid = 0, left_pif = 0\<rparr>"
  define q where "q = ptable demo_running ! 0"
  have c: "cpu_proc demo_running 0 = Some 0" by (simp add: demo_running_def demo_boot_def)
  have p: "p_sz q = 4096" "\<not> p_killed q" by (simp_all add: q_def demo_running_def demo_boot_def demo_init_def)
  have a: "argint ?um (q\<lparr>p_tf := ?tf\<rparr>) 0 = Some 0x7FFFFFFF"
    by (simp add: argint_def fetchint_def p zero_tf_def)
  have s: "tf_trapno ?tf = T_SYSCALL" "tf_eax ?tf = 25" by (simp_all add: T_SYSCALL_def)
  from burst_time_unchecked [OF demo_reachable(2) c q_def p(2) s a, of "\<lambda>_ _ w. w" "\<lambda>_ _ _. None" ?l 2]
  show ?thesis by (auto simp: p(1))
qed

end
