(* ===== verification/Sjf.thy ===== *)
theory Sjf
  imports ProcProps
begin

text \<open>
  The plain SJF kernel of Assignment 2 (\<^verbatim>\<open>g17\<close>): its trap handler, where the test that takes the CPU from a process at a clock
  tick is commented out. The rest of that kernel is the code of \<^verbatim>\<open>g17hybrid\<close> without the tick counter.
\<close>

definition trap_sjf ::
  "'w env \<Rightarrow> (u32 \<Rightarrow> 'w \<Rightarrow> 'w) \<Rightarrow> (nat \<Rightarrow> 'w kernel \<Rightarrow> (trap_end \<times> 'w kernel) option) \<Rightarrow>
   nat \<Rightarrow> trapframe \<Rightarrow> 'w kernel \<Rightarrow> (trap_end \<times> 'w kernel) option" where
  "trap_sjf env dev sysc c tf s =
     (if tf_trapno tf = T_SYSCALL then do {
        p \<leftarrow> cpu_proc s c;
        if p_killed (ptable s ! p) then do { s1 \<leftarrow> exit env c s; Some (TrapExited, s1) }
        else do {
          (e, s1) \<leftarrow> sysc c (upd_proc p (\<lambda>q. q\<lparr>p_tf := tf\<rparr>) s);
          if e = TrapDone \<and> killed_now c s1
          then do { s2 \<leftarrow> exit env c s1; Some (TrapExited, s2) }
          else Some (e, s1)
        }
      } else do {
        s1 \<leftarrow> trap_switch dev c tf s;
        if killed_now c s1 \<and> tf_cs tf AND 3 = DPL_USER then do { s2 \<leftarrow> exit env c s1; Some (TrapExited, s2) }
        else trap_resume env c tf s1
      })"

text \<open>A sequence of interrupts on one CPU, all of which return to the process.\<close>

definition device_trap :: "u32 \<Rightarrow> bool" where
  "device_trap t \<longleftrightarrow> t \<in> {T_IRQ0 + IRQ_TIMER, T_IRQ0 + IRQ_IDE, T_IRQ0 + IRQ_KBD, T_IRQ0 + IRQ_COM1, T_IRQ0 + IRQ_IDE + 1, T_IRQ0 + 7,
     T_IRQ0 + IRQ_SPURIOUS}"

fun interrupted :: "(trapframe \<Rightarrow> 'w kernel \<Rightarrow> (trap_end \<times> 'w kernel) option) \<Rightarrow> trapframe list \<Rightarrow> 'w kernel \<Rightarrow> 'w kernel option" where
  "interrupted h [] s = Some s"
| "interrupted h (tf # tfs) s =
     (case h tf s of Some (TrapDone, s1) \<Rightarrow> interrupted h tfs s1 | _ \<Rightarrow> None)"

lemmas irq_defs = T_SYSCALL_def T_IRQ0_def IRQ_TIMER_def IRQ_IDE_def IRQ_KBD_def IRQ_COM1_def IRQ_SPURIOUS_def

lemma trap_sjf_device:
  assumes "device_trap (tf_trapno tf)" and "cpu_proc s c = Some p" and "p < length (ptable s)"
    and "p_state (ptable s ! p) = RUNNING" and "\<not> p_killed (ptable s ! p)"
  shows "\<exists>s'. trap_sjf env dev sysc c tf s = Some (TrapDone, s') \<and> cpu_proc s' = cpu_proc s \<and>
    length (ptable s') = length (ptable s) \<and> ptable s' ! p = ptable s ! p"
proof -
  have n: "tf_trapno tf \<noteq> T_SYSCALL"
    using assms(1) by (auto simp: device_trap_def irq_defs)
  obtain s1 where s1: "trap_switch dev c tf s = Some s1" "cpu_proc s1 = cpu_proc s" "length (ptable s1) = length (ptable s)"
      "ptable s1 ! p = ptable s ! p"
    using assms by (auto simp: trap_switch_def device_trap_def Let_def wakeup_running irq_defs)
  then have "trap_sjf env dev sysc c tf s = Some (TrapDone, s1)"
    using n assms(2,5) by (simp add: trap_sjf_def trap_resume_def killed_now_def)
  then show ?thesis using s1 by blast
qed

text \<open>
  Once it has been chosen, a process that makes no system call keeps its CPU through any number of interrupts, its burst time
  unchanged, whatever shorter processes have become runnable: without preemption nobody else gets the CPU.
\<close>

lemma sjf_not_preempted:
  assumes "scheduler_sjf c s = Some s0" and "sjf_pick (ptable s) = Some (Some p)" and "p < length (ptable s)"
    and "\<not> p_killed (ptable s ! p)" and "\<And>tf. tf \<in> set tfs \<Longrightarrow> device_trap (tf_trapno tf)"
  shows "\<exists>s'. interrupted (trap_sjf env dev sysc c) tfs s0 = Some s' \<and> cpu_proc s' c = Some p \<and> ptable s' ! p = ptable s0 ! p \<and>
    p_state (ptable s' ! p) = RUNNING"
proof -
  have 0: "cpu_proc s0 c = Some p" "p < length (ptable s0)" "p_state (ptable s0 ! p) = RUNNING" "\<not> p_killed (ptable s0 ! p)"
    using assms(1-4) by (auto simp: scheduler_sjf_def upd_proc_def)
  have "\<exists>s'. interrupted (trap_sjf env dev sysc c) tfs t = Some s' \<and> cpu_proc s' c = Some p \<and> ptable s' ! p = ptable s0 ! p"
    if "cpu_proc t c = Some p" "p < length (ptable t)" "ptable t ! p = ptable s0 ! p" for t
    using assms(5) that
  proof (induction tfs arbitrary: t)
    case (Cons tf tfs)
    obtain t1 where t1: "trap_sjf env dev sysc c tf t = Some (TrapDone, t1)" "cpu_proc t1 = cpu_proc t"
        "length (ptable t1) = length (ptable t)" "ptable t1 ! p = ptable t ! p"
      using trap_sjf_device [of tf t c p env dev sysc] Cons.prems 0(3,4) by auto
    obtain s' where "interrupted (trap_sjf env dev sysc c) tfs t1 = Some s'" "cpu_proc s' c = Some p" "ptable s' ! p = ptable s0 ! p"
      using Cons.IH [of t1] Cons.prems t1 by auto
    then show ?case using t1(1) by auto
  qed simp
  from this [OF 0(1,2) refl] show ?thesis using 0(3) by auto
qed

text \<open>Under the hybrid scheduler the second clock tick of the same sequence takes the CPU away.\<close>

lemma hybrid_preempts:
  assumes "interrupted (trap env dev sysc c) (tf # tf' # tfs) s0 = Some s'"
    and "scheduler c s = Some s0" and "sjf_pick (ptable s) = Some (Some p)" and "p < length (ptable s)" and "\<not> p_killed (ptable s ! p)"
    and "tf_trapno tf = T_IRQ0 + IRQ_TIMER" and "tf_trapno tf' = T_IRQ0 + IRQ_TIMER"
  shows False
proof -
  have 0: "cpu_proc s0 c = Some p" "p < length (ptable s0)" "p_state (ptable s0 ! p) = RUNNING" "\<not> p_killed (ptable s0 ! p)" "p_cpucounter (ptable s0 ! p) = 0"
    using assms(2-5) by (auto simp: scheduler_def upd_proc_def)
  show False
    using assms(1,6,7) 0
    by (auto simp: trap_def trap_switch_def trap_tail_def trap_resume_def killed_now_def inc_cpucounter_def dec_burstTime_def yield_def sched_def
        wakeup_def wakeup1_def upd_all_def upd_proc_def QUANTA_def irq_defs Let_def
        split: option.splits prod.splits trap_end.splits if_splits)
qed

end
