(* ===== verification/Locks.thy ===== *)
theory Locks
  imports Prelude
begin

text \<open>
  The locks of the Assignment 3 kernel (\<^verbatim>\<open>Part_B/spinlock.c\<close>, \<^verbatim>\<open>Part_B/sleeplock.c\<close>).
  A spin lock is modelled down to its single memory accesses: the atomic \<^verbatim>\<open>xchg\<close>, the store
  of the owner, the two stores of \<open>release\<close>, and the nesting count of disabled interrupts.
  \<open>lk_step\<close> interleaves these accesses freely over all CPUs and any number of locks. The
  sleep lock is one critical section per operation.
\<close>

section \<open>Per-CPU interrupt state\<close>

record cpu =
  c_ncli :: int
  c_intena :: bool
  c_if :: bool

record spinlock =
  sl_locked :: u32
  sl_cpu :: "nat option"
  sl_pcs0 :: u32

record smp =
  s_cpus :: "nat \<Rightarrow> cpu"
  s_locks :: "nat \<Rightarrow> spinlock"

definition upd_cpu :: "nat \<Rightarrow> (cpu \<Rightarrow> cpu) \<Rightarrow> smp \<Rightarrow> smp" where
  "upd_cpu c f s = s\<lparr>s_cpus := (s_cpus s)(c := f (s_cpus s c))\<rparr>"

definition upd_lock :: "nat \<Rightarrow> (spinlock \<Rightarrow> spinlock) \<Rightarrow> smp \<Rightarrow> smp" where
  "upd_lock l f s = s\<lparr>s_locks := (s_locks s)(l := f (s_locks s l))\<rparr>"

lemma smp_simps [simp]:
  "s_cpus (upd_cpu c f s) d = (if d = c then f (s_cpus s c) else s_cpus s d)"
  "s_locks (upd_cpu c f s) = s_locks s"
  "s_locks (upd_lock l g s) k = (if k = l then g (s_locks s l) else s_locks s k)"
  "s_cpus (upd_lock l g s) = s_cpus s"
  by (simp_all add: upd_cpu_def upd_lock_def)

text \<open>
  \<open>c_if\<close> is the interrupt flag of the CPU's \<^verbatim>\<open>eflags\<close>; \<^verbatim>\<open>cli\<close> clears it, \<^verbatim>\<open>sti\<close> sets it.
\<close>

definition pushcli :: "nat \<Rightarrow> smp \<Rightarrow> smp" where
  "pushcli c s =
     (let eflags = c_if (s_cpus s c);
          s1 = upd_cpu c (\<lambda>p. p\<lparr>c_if := False\<rparr>) s;
          s2 = (if c_ncli (s_cpus s1 c) = 0 then upd_cpu c (\<lambda>p. p\<lparr>c_intena := eflags\<rparr>) s1 else s1)
      in upd_cpu c (\<lambda>p. p\<lparr>c_ncli := c_ncli p + 1\<rparr>) s2)"

definition popcli :: "nat \<Rightarrow> smp \<Rightarrow> smp option" where
  "popcli c s =
     (if c_if (s_cpus s c) then None
      else let s1 = upd_cpu c (\<lambda>p. p\<lparr>c_ncli := c_ncli p - 1\<rparr>) s
           in if c_ncli (s_cpus s1 c) < 0 then None
              else if c_ncli (s_cpus s1 c) = 0 \<and> c_intena (s_cpus s1 c)
                   then Some (upd_cpu c (\<lambda>p. p\<lparr>c_if := True\<rparr>) s1)
                   else Some s1)"

section \<open>Spin locks\<close>

definition initlock :: "nat \<Rightarrow> smp \<Rightarrow> smp" where
  "initlock l s = upd_lock l (\<lambda>k. k\<lparr>sl_locked := 0, sl_cpu := None\<rparr>) s"

definition holding :: "nat \<Rightarrow> nat \<Rightarrow> smp \<Rightarrow> bool" where
  "holding c l s \<longleftrightarrow> sl_locked (s_locks s l) \<noteq> 0 \<and> sl_cpu (s_locks s l) = Some c"

text \<open>
  \<open>acquire\<close> in three pieces: up to the loop, one \<^verbatim>\<open>xchg\<close> of the loop with the value it
  returns, and the store of the owner after it. \<open>release\<close> in three: the check and the
  debugging stores, the store to \<^verbatim>\<open>locked\<close>, and the \<open>popcli\<close>.
\<close>

definition acquire_enter :: "nat \<Rightarrow> nat \<Rightarrow> smp \<Rightarrow> smp option" where
  "acquire_enter c l s =
     (let s1 = pushcli c s in if holding c l s1 then None else Some s1)"

definition acquire_xchg :: "nat \<Rightarrow> smp \<Rightarrow> u32 \<times> smp" where
  "acquire_xchg l s = (sl_locked (s_locks s l), upd_lock l (\<lambda>k. k\<lparr>sl_locked := 1\<rparr>) s)"

definition acquire_owner :: "nat \<Rightarrow> nat \<Rightarrow> smp \<Rightarrow> smp" where
  "acquire_owner c l s = upd_lock l (\<lambda>k. k\<lparr>sl_cpu := Some c\<rparr>) s"

definition release_owner :: "nat \<Rightarrow> nat \<Rightarrow> smp \<Rightarrow> smp option" where
  "release_owner c l s =
     (if \<not> holding c l s then None
      else Some (upd_lock l (\<lambda>k. k\<lparr>sl_pcs0 := 0, sl_cpu := None\<rparr>) s))"

definition release_store :: "nat \<Rightarrow> smp \<Rightarrow> smp" where
  "release_store l s = upd_lock l (\<lambda>k. k\<lparr>sl_locked := 0\<rparr>) s"

text \<open>
  The two operations run without interference. A lock that is taken spins for ever
  (\<open>None\<close>), because in that case nobody else runs.
\<close>

definition acquire :: "nat \<Rightarrow> nat \<Rightarrow> smp \<Rightarrow> smp option" where
  "acquire c l s = do {
     s1 \<leftarrow> acquire_enter c l s;
     let (old, s2) = acquire_xchg l s1;
     if old \<noteq> 0 then None else Some (acquire_owner c l s2)
   }"

definition release :: "nat \<Rightarrow> nat \<Rightarrow> smp \<Rightarrow> smp option" where
  "release c l s = do {
     s1 \<leftarrow> release_owner c l s;
     popcli c (release_store l s1)
   }"

text \<open>
  \<open>getcallerpcs\<close> follows the chain of saved frame pointers, at most ten links, and stops at
  one that is not a kernel address. \<open>rd\<close> reads a 32-bit word of memory.
\<close>

definition KERNBASE :: u32 where "KERNBASE = 0x80000000"

fun caller_chain :: "(u32 \<Rightarrow> u32) \<Rightarrow> nat \<Rightarrow> u32 \<Rightarrow> u32 list" where
  "caller_chain rd 0 ebp = []"
| "caller_chain rd (Suc n) ebp =
     (if ebp = 0 \<or> ebp < KERNBASE \<or> ebp = 0xffffffff then []
      else rd (ebp + 4) # caller_chain rd n (rd ebp))"

definition getcallerpcs :: "(u32 \<Rightarrow> u32) \<Rightarrow> u32 \<Rightarrow> u32 list" where
  "getcallerpcs rd v =
     (let pcs = caller_chain rd 10 (v - 8) in pcs @ replicate (10 - length pcs) 0)"

section \<open>All interleavings\<close>

text \<open>
  Where a CPU stands: running, spinning on a lock, just past a successful \<^verbatim>\<open>xchg\<close>, or in the
  middle of a \<open>release\<close>. \<open>held\<close> lists the locks it has acquired and not yet begun to release.
\<close>

datatype phase = Run | Spin nat | Got nat | Rel1 nat | Rel2 nat

record lkstate =
  mem :: smp
  phase_of :: "nat \<Rightarrow> phase"
  held :: "nat \<Rightarrow> nat list"

inductive lk_step :: "lkstate \<Rightarrow> lkstate \<Rightarrow> bool" where
  flag: "phase_of x c = Run \<Longrightarrow> c_ncli (s_cpus (mem x) c) = 0 \<Longrightarrow>
     lk_step x (x\<lparr>mem := upd_cpu c (\<lambda>p. p\<lparr>c_if := b\<rparr>) (mem x)\<rparr>)"
| enter: "phase_of x c = Run \<Longrightarrow> acquire_enter c l (mem x) = Some m \<Longrightarrow>
     lk_step x (x\<lparr>mem := m, phase_of := (phase_of x)(c := Spin l)\<rparr>)"
| spin: "phase_of x c = Spin l \<Longrightarrow> acquire_xchg l (mem x) = (old, m) \<Longrightarrow> old \<noteq> 0 \<Longrightarrow>
     lk_step x (x\<lparr>mem := m\<rparr>)"
| take: "phase_of x c = Spin l \<Longrightarrow> acquire_xchg l (mem x) = (0, m) \<Longrightarrow>
     lk_step x (x\<lparr>mem := m, phase_of := (phase_of x)(c := Got l)\<rparr>)"
| owner: "phase_of x c = Got l \<Longrightarrow>
     lk_step x (x\<lparr>mem := acquire_owner c l (mem x), phase_of := (phase_of x)(c := Run),
                  held := (held x)(c := l # held x c)\<rparr>)"
| disown: "phase_of x c = Run \<Longrightarrow> release_owner c l (mem x) = Some m \<Longrightarrow>
     lk_step x (x\<lparr>mem := m, phase_of := (phase_of x)(c := Rel1 l),
                  held := (held x)(c := remove1 l (held x c))\<rparr>)"
| unlock: "phase_of x c = Rel1 l \<Longrightarrow>
     lk_step x (x\<lparr>mem := release_store l (mem x), phase_of := (phase_of x)(c := Rel2 l)\<rparr>)"
| pop: "phase_of x c = Rel2 l \<Longrightarrow> popcli c (mem x) = Some m \<Longrightarrow>
     lk_step x (x\<lparr>mem := m, phase_of := (phase_of x)(c := Run)\<rparr>)"

text \<open>At the start every lock is free and no CPU has disabled its interrupts by \<open>pushcli\<close>.\<close>

definition lk_start :: "(nat \<Rightarrow> bool) \<Rightarrow> lkstate" where
  "lk_start ifs = \<lparr>mem = \<lparr>s_cpus = (\<lambda>c. \<lparr>c_ncli = 0, c_intena = False, c_if = ifs c\<rparr>),
       s_locks = (\<lambda>_. \<lparr>sl_locked = 0, sl_cpu = None, sl_pcs0 = 0\<rparr>)\<rparr>,
     phase_of = (\<lambda>_. Run), held = (\<lambda>_. [])\<rparr>"

inductive lk_reachable :: "lkstate \<Rightarrow> bool" where
  start: "lk_reachable (lk_start ifs)"
| step: "lk_reachable x \<Longrightarrow> lk_step x y \<Longrightarrow> lk_reachable y"

text \<open>A CPU owns a lock from its successful \<^verbatim>\<open>xchg\<close> until its store of 0.\<close>

definition owns :: "lkstate \<Rightarrow> nat \<Rightarrow> nat \<Rightarrow> bool" where
  "owns x c l \<longleftrightarrow> l \<in> set (held x c) \<or> phase_of x c = Got l \<or> phase_of x c = Rel1 l"

definition pending :: "phase \<Rightarrow> int" where
  "pending p = (if p = Run then 0 else 1)"

text \<open>
  The invariant: a lock word is 1 exactly while some CPU owns the lock, the owner is unique,
  the recorded owner is the CPU that holds it, and \<open>ncli\<close> counts the locks a CPU holds or is
  acquiring or releasing, with interrupts off while it is positive.
\<close>

definition lock_inv :: "lkstate \<Rightarrow> bool" where
  "lock_inv x \<longleftrightarrow>
     (\<forall>l. sl_locked (s_locks (mem x) l) \<noteq> 0 \<longleftrightarrow> (\<exists>c. owns x c l)) \<and>
     (\<forall>l c d. owns x c l \<longrightarrow> owns x d l \<longrightarrow> c = d) \<and>
     (\<forall>l c. sl_cpu (s_locks (mem x) l) = Some c \<longleftrightarrow> l \<in> set (held x c))"

definition cli_inv :: "lkstate \<Rightarrow> bool" where
  "cli_inv x \<longleftrightarrow> (\<forall>c. distinct (held x c) \<and>
     (\<forall>l. phase_of x c = Got l \<or> phase_of x c = Rel1 l \<longrightarrow> l \<notin> set (held x c)) \<and>
     c_ncli (s_cpus (mem x) c) = int (length (held x c)) + pending (phase_of x c) \<and>
     (c_ncli (s_cpus (mem x) c) > 0 \<longrightarrow> \<not> c_if (s_cpus (mem x) c)))"

inductive_cases lk_stepE: "lk_step x y"

lemmas lk_op_defs = acquire_enter_def acquire_xchg_def acquire_owner_def release_owner_def
  release_store_def holding_def pushcli_def popcli_def Let_def

lemma lk_inv_start: "lock_inv (lk_start ifs)" "cli_inv (lk_start ifs)"
  by (simp_all add: lock_inv_def cli_inv_def lk_start_def owns_def pending_def)

lemma owns_simps [simp]:
  "owns (x\<lparr>mem := m\<rparr>) c l = owns x c l"
  by (simp add: owns_def)

lemma lock_inv_unique: "lock_inv x \<Longrightarrow> owns x c l \<Longrightarrow> owns x d l \<Longrightarrow> c = d"
  unfolding lock_inv_def by (elim conjE allE [where x = l] allE [where x = c] allE [where x = d]) simp

text \<open>How each kind of step changes ownership; all other steps leave it alone.\<close>

lemma lock_inv_cong:
  assumes "lock_inv x" and "\<And>d k. owns y d k = owns x d k"
    and "\<And>k. sl_locked (s_locks (mem y) k) \<noteq> 0 \<longleftrightarrow> sl_locked (s_locks (mem x) k) \<noteq> 0"
    and "\<And>k. sl_cpu (s_locks (mem y) k) = sl_cpu (s_locks (mem x) k)" and "held y = held x"
  shows "lock_inv y"
  using assms unfolding lock_inv_def by simp

lemma lock_inv_take:
  assumes "lock_inv x" and "phase_of x c = Spin l" and "sl_locked (s_locks (mem x) l) = 0"
  shows "lock_inv (x\<lparr>mem := upd_lock l (\<lambda>k. k\<lparr>sl_locked := 1\<rparr>) (mem x), phase_of := (phase_of x)(c := Got l)\<rparr>)"
    (is "lock_inv ?y")
proof -
  have o: "owns ?y d k \<longleftrightarrow> owns x d k \<or> d = c \<and> k = l" for d k
    using assms(2) by (auto simp: owns_def)
  have free: "\<not> owns x d l" for d using assms(1,3) unfolding lock_inv_def by blast
  show ?thesis using assms(1) free unfolding lock_inv_def o by auto
qed

lemma lock_inv_owner:
  assumes "lock_inv x" and "phase_of x c = Got l"
  shows "lock_inv (x\<lparr>mem := acquire_owner c l (mem x), phase_of := (phase_of x)(c := Run),
           held := (held x)(c := l # held x c)\<rparr>)" (is "lock_inv ?y")
proof -
  have o: "owns ?y d k \<longleftrightarrow> owns x d k" for d k
    using assms(2) by (auto simp: owns_def)
  have me: "owns x c l" using assms(2) by (simp add: owns_def)
  have "l \<in> set (held x d) \<Longrightarrow> d = c" for d
    using lock_inv_unique [OF assms(1) _ me] by (simp add: owns_def)
  then show ?thesis using assms(1) unfolding lock_inv_def o by (auto simp: acquire_owner_def)
qed

lemma lock_inv_disown:
  assumes "lock_inv x" and "cli_inv x" and "phase_of x c = Run" and "release_owner c l (mem x) = Some m"
  shows "lock_inv (x\<lparr>mem := m, phase_of := (phase_of x)(c := Rel1 l),
           held := (held x)(c := remove1 l (held x c))\<rparr>)" (is "lock_inv ?y")
proof -
  have m: "m = upd_lock l (\<lambda>k. k\<lparr>sl_pcs0 := 0, sl_cpu := None\<rparr>) (mem x)" and h: "holding c l (mem x)"
    using assms(4) by (simp_all add: release_owner_def split: if_splits)
  have d: "distinct (held x c)" using assms(2) by (simp add: cli_inv_def)
  have l: "l \<in> set (held x c)" using h assms(1) by (auto simp: holding_def lock_inv_def)
  have o: "owns ?y d k \<longleftrightarrow> owns x d k" for d k
    using assms(3) l d by (auto simp: owns_def)
  have "l \<in> set (held x e) \<Longrightarrow> e = c" for e
    using assms(1) l unfolding lock_inv_def by (metis option.inject)
  then show ?thesis using assms(1) d unfolding lock_inv_def o by (auto simp: m)
qed

lemma lock_inv_unlock:
  assumes "lock_inv x" and "cli_inv x" and "phase_of x c = Rel1 l"
  shows "lock_inv (x\<lparr>mem := release_store l (mem x), phase_of := (phase_of x)(c := Rel2 l)\<rparr>)"
    (is "lock_inv ?y")
proof -
  have me: "owns x c l" using assms(3) by (simp add: owns_def)
  have nl: "l \<notin> set (held x c)" using assms(2,3) by (simp add: cli_inv_def)
  have o: "owns ?y d k \<longleftrightarrow> owns x d k \<and> k \<noteq> l" for d k
  proof (cases "k = l")
    case True
    have other: "d \<noteq> c \<Longrightarrow> \<not> owns x d l" using lock_inv_unique [OF assms(1) _ me] by blast
    show ?thesis
    proof (cases "d = c")
      case True
      with \<open>k = l\<close> nl show ?thesis by (simp add: owns_def)
    next
      case False
      with \<open>k = l\<close> other show ?thesis by (simp add: owns_def)
    qed
  next
    case False
    then show ?thesis using assms(3) by (auto simp: owns_def)
  qed
  show ?thesis using assms(1) unfolding lock_inv_def o by (auto simp: release_store_def)
qed

lemma lock_inv_step:
  assumes "lk_step x y" and "lock_inv x" and "cli_inv x"
  shows "lock_inv y"
  using assms(1)
proof cases
  case (flag c b)
  then show ?thesis using assms(2) by (simp add: lock_inv_def)
next
  case (enter c l m)
  then show ?thesis
    by (intro lock_inv_cong [OF assms(2)]) (auto simp: owns_def lk_op_defs split: if_splits)
next
  case (spin c l old m)
  then show ?thesis
    by (intro lock_inv_cong [OF assms(2)]) (auto simp: acquire_xchg_def split: if_splits)
next
  case (take c l m)
  then show ?thesis using lock_inv_take [OF assms(2)] by (auto simp: acquire_xchg_def)
next
  case (owner c l)
  then show ?thesis using lock_inv_owner [OF assms(2)] by simp
next
  case (disown c l m)
  then show ?thesis using lock_inv_disown [OF assms(2,3)] by simp
next
  case (unlock c l)
  then show ?thesis using lock_inv_unlock [OF assms(2,3)] by simp
next
  case (pop c l m)
  then show ?thesis
    by (intro lock_inv_cong [OF assms(2)]) (auto simp: owns_def lk_op_defs split: if_splits)
qed

lemma pushcli_local:
  "c_ncli (s_cpus (pushcli c s) d) = c_ncli (s_cpus s d) + (if d = c then 1 else 0)"
  "c_if (s_cpus (pushcli c s) d) = (d \<noteq> c \<and> c_if (s_cpus s d))"
  "s_locks (pushcli c s) = s_locks s"
  by (simp_all add: pushcli_def Let_def)

lemma popcli_local:
  assumes "popcli c s = Some t"
  shows "c_ncli (s_cpus t d) = c_ncli (s_cpus s d) - (if d = c then 1 else 0)"
    and "c_if (s_cpus t d) \<Longrightarrow> d \<noteq> c \<and> c_if (s_cpus s d) \<or> d = c \<and> c_ncli (s_cpus t d) = 0"
  using assms by (auto simp: popcli_def Let_def split: if_splits)

lemma cli_inv_step:
  assumes "lk_step x y" and "lock_inv x" and "cli_inv x"
  shows "cli_inv y"
  using assms(1)
proof cases
  case (flag c b)
  then show ?thesis using assms(3) by (auto simp: cli_inv_def)
next
  case (enter c l m)
  then have "m = pushcli c (mem x)" by (simp add: acquire_enter_def Let_def split: if_splits)
  then show ?thesis using enter assms(3) by (auto simp: cli_inv_def pushcli_local pending_def)
next
  case (spin c l old m)
  then show ?thesis using assms(3) by (auto simp: cli_inv_def acquire_xchg_def)
next
  case (take c l m)
  then have "\<not> owns x c l" using assms(2) by (auto simp: lock_inv_def acquire_xchg_def)
  then show ?thesis using take assms(3) by (auto simp: cli_inv_def acquire_xchg_def pending_def owns_def)
next
  case (owner c l)
  then show ?thesis using assms(3) by (auto simp: cli_inv_def acquire_owner_def pending_def)
next
  case (disown c l m)
  then have "l \<in> set (held x c)" and m: "s_cpus m = s_cpus (mem x)"
    using assms(2) by (auto simp: release_owner_def holding_def lock_inv_def split: if_splits)
  then have pos: "0 < length (held x c)" and l: "l \<in> set (held x c)" by (auto simp: length_pos_if_in_set)
  then have "int (length (remove1 l (held x c))) = int (length (held x c)) - 1"
    by (simp add: length_remove1 of_nat_diff Suc_le_eq)
  then show ?thesis using disown assms(3) m pos by (auto simp: cli_inv_def pending_def)
next
  case (unlock c l)
  then show ?thesis using assms(3) by (auto simp: cli_inv_def release_store_def pending_def)
next
  case (pop c l m)
  have old: "cli_inv x" by (rule assms(3))
  have n: "c_ncli (s_cpus m d) = int (length (held x d)) + pending (phase_of y d)" for d
    using old pop popcli_local(1) [OF pop(3), of d] by (simp add: cli_inv_def pending_def)
  have "\<not> c_if (s_cpus m d)" if "c_ncli (s_cpus m d) > 0" for d
    using that old popcli_local [OF pop(3), of d] by (auto simp: cli_inv_def split: if_splits)
  with n old pop show ?thesis by (auto simp: cli_inv_def)
qed

lemma lk_reachable_inv: "lk_reachable x \<Longrightarrow> lock_inv x \<and> cli_inv x"
  by (induction rule: lk_reachable.induct) (auto simp: lk_inv_start lock_inv_step cli_inv_step)

section \<open>What spin locks guarantee\<close>

lemma holding_iff: "lock_inv x \<Longrightarrow> holding c l (mem x) \<longleftrightarrow> l \<in> set (held x c)"
  unfolding lock_inv_def holding_def by (metis owns_def)

text \<open>
  C8. Mutual exclusion. In every state that any interleaving of the CPUs' memory accesses can
  reach, a lock is owned by at most one CPU, from its \<^verbatim>\<open>xchg\<close> to its final store, and
  \<open>holding\<close> answers true exactly for the CPU whose \<open>acquire\<close> has returned and which has not
  released: neither a recursive \<open>acquire\<close> nor a \<open>release\<close> without the lock goes unnoticed.
\<close>

theorem spinlock_mutex:
  assumes "lk_reachable x"
  shows "(owns x c l \<and> owns x d l \<longrightarrow> c = d) \<and> (holding c l (mem x) \<longleftrightarrow> l \<in> set (held x c))"
proof -
  have i: "lock_inv x" using lk_reachable_inv [OF assms] by simp
  then show ?thesis using holding_iff [OF i] unfolding lock_inv_def by blast
qed

text \<open>CPU 0 takes lock 5 while CPU 1 spins on it.\<close>

definition demo_lk :: lkstate where
  "demo_lk = (let x = lk_start (\<lambda>_. True); m0 = pushcli 0 (mem x); m1 = pushcli 1 m0;
       m2 = upd_lock 5 (\<lambda>k. k\<lparr>sl_locked := 1\<rparr>) m1
     in x\<lparr>mem := acquire_owner 0 5 m2, phase_of := (phase_of x)(0 := Run, 1 := Spin 5),
          held := (held x)(0 := [5])\<rparr>)"

text \<open>
  The interrupt flag of a CPU before its first \<open>acquire\<close>. A CPU is idle when it runs and holds no lock.
  \<open>lk_since c b x\<close>: the run to \<open>x\<close> has made CPU \<open>c\<close> begin an \<open>acquire\<close> when it was idle and its interrupt
  flag was \<open>b\<close>, and the CPU has not been idle since.
\<close>

definition lk_idle :: "nat \<Rightarrow> lkstate \<Rightarrow> bool" where
  "lk_idle c x \<longleftrightarrow> phase_of x c = Run \<and> held x c = []"

inductive lk_since :: "nat \<Rightarrow> bool \<Rightarrow> lkstate \<Rightarrow> bool" where
  first: "lk_reachable x \<Longrightarrow> lk_idle c x \<Longrightarrow> c_if (s_cpus (mem x) c) = b \<Longrightarrow>
     acquire_enter c l (mem x) = Some m \<Longrightarrow>
     lk_since c b (x\<lparr>mem := m, phase_of := (phase_of x)(c := Spin l)\<rparr>)"
| later: "lk_since c b x \<Longrightarrow> lk_step x y \<Longrightarrow> \<not> lk_idle c y \<Longrightarrow> lk_since c b y"

lemma lk_idle_ncli: "cli_inv x \<Longrightarrow> lk_idle c x \<longleftrightarrow> c_ncli (s_cpus (mem x) c) = 0"
  by (auto simp: cli_inv_def lk_idle_def pending_def)

text \<open>Only an idle CPU saves its interrupt flag.\<close>

lemma intena_kept:
  assumes "lk_step x y" and "cli_inv x" and "\<not> lk_idle c x"
  shows "c_intena (s_cpus (mem y) c) = c_intena (s_cpus (mem x) c)"
proof -
  have n: "c_ncli (s_cpus (mem x) c) \<noteq> 0" using assms(2,3) by (simp add: lk_idle_ncli)
  from assms(1) show ?thesis
    by cases (use n in \<open>auto simp: lk_op_defs split: if_splits\<close>)
qed

lemma intena_saved:
  assumes "cli_inv x" and "lk_idle c x" and "acquire_enter c l (mem x) = Some m"
  shows "c_intena (s_cpus m c) = c_if (s_cpus (mem x) c)"
proof -
  have "c_ncli (s_cpus (mem x) c) = 0" using assms(1,2) by (simp add: lk_idle_ncli)
  then show ?thesis using assms(3) by (auto simp: acquire_enter_def pushcli_def Let_def split: if_splits)
qed

lemma lk_since_spec:
  "lk_since c b x \<Longrightarrow> lk_reachable x \<and> \<not> lk_idle c x \<and> c_intena (s_cpus (mem x) c) = b"
proof (induction rule: lk_since.induct)
  case (first x c b l m)
  have "lk_step x (x\<lparr>mem := m, phase_of := (phase_of x)(c := Spin l)\<rparr>)"
    by (rule lk_step.enter) (use first in \<open>simp_all add: lk_idle_def\<close>)
  then show ?case
    using first intena_saved lk_reachable_inv [OF first(1)] by (auto simp: lk_idle_def intro: lk_reachable.step)
next
  case (later c b x y)
  then show ?case using intena_kept [OF later(2)] lk_reachable_inv [of x] by (auto intro: lk_reachable.step)
qed

lemma lk_step_busy:
  assumes "lk_step x y" and "lk_reachable x" and "lk_idle c x" and "\<not> lk_idle c y"
  shows "\<exists>b. lk_since c b y"
  using assms(1)
proof cases
  case (enter d l m)
  then have "d = c" using assms(3,4) by (auto simp: lk_idle_def split: if_splits)
  then show ?thesis using enter lk_since.first [OF assms(2,3) refl, of l m] by blast
next
  case (owner d l)
  then have "d = c" using assms(3,4) by (auto simp: lk_idle_def split: if_splits)
  with owner assms(3) show ?thesis by (simp add: lk_idle_def)
next
  case (disown d l m)
  have "l \<in> set (held x d)"
    using disown lk_reachable_inv [OF assms(2)] by (auto simp: release_owner_def holding_def lock_inv_def split: if_splits)
  then have "d \<noteq> c" using assms(3) by (auto simp: lk_idle_def)
  with disown assms(3,4) show ?thesis by (simp add: lk_idle_def)
qed (use assms(3,4) in \<open>auto simp: lk_idle_def split: if_splits\<close>)

lemma lk_since_exists: "lk_reachable x \<Longrightarrow> \<not> lk_idle c x \<Longrightarrow> \<exists>b. lk_since c b x"
proof (induction rule: lk_reachable.induct)
  case (start ifs)
  then show ?case by (simp add: lk_idle_def lk_start_def)
next
  case (step x y)
  then show ?case using lk_step_busy lk_since.later by metis
qed

lemma demo_lk_since: "lk_since 0 True demo_lk"
proof -
  let ?x0 = "lk_start (\<lambda>_. True)"
  let ?m1 = "pushcli 0 (mem ?x0)"
  let ?x1 = "?x0\<lparr>mem := ?m1, phase_of := (phase_of ?x0)(0 := Spin 5)\<rparr>"
  let ?m2 = "pushcli 1 ?m1"
  let ?x2 = "?x1\<lparr>mem := ?m2, phase_of := (phase_of ?x1)(1 := Spin 5)\<rparr>"
  let ?m3 = "upd_lock 5 (\<lambda>k. k\<lparr>sl_locked := 1\<rparr>) ?m2"
  let ?x3 = "?x2\<lparr>mem := ?m3, phase_of := (phase_of ?x2)(0 := Got 5)\<rparr>"
  have "lk_since 0 True ?x1"
    by (rule lk_since.first [OF lk_reachable.start])
       (simp_all add: lk_idle_def lk_start_def acquire_enter_def holding_def pushcli_local)
  moreover have "lk_step ?x1 ?x2"
    by (rule lk_step.enter) (simp_all add: lk_start_def acquire_enter_def holding_def pushcli_local)
  moreover have "lk_step ?x2 ?x3"
    by (rule lk_step.take) (simp_all add: lk_start_def acquire_xchg_def pushcli_local)
  moreover have "lk_step ?x3 (?x3\<lparr>mem := acquire_owner 0 5 (mem ?x3), phase_of := (phase_of ?x3)(0 := Run),
      held := (held ?x3)(0 := 5 # held ?x3 0)\<rparr>)" (is "lk_step _ ?x4")
    by (rule lk_step.owner) simp
  moreover have "\<not> lk_idle 0 ?x2" "\<not> lk_idle 0 ?x3" "\<not> lk_idle 0 ?x4" by (simp_all add: lk_idle_def lk_start_def)
  ultimately have "lk_since 0 True ?x4" by (meson lk_since.later)
  moreover have "?x4 = demo_lk"
    by (simp add: demo_lk_def Let_def lk_start_def fun_upd_twist)
  ultimately show ?thesis by simp
qed

lemma demo_lk_reachable: "lk_reachable demo_lk"
  using lk_since_spec [OF demo_lk_since] by simp

lemma spinlock_mutex_witness: "\<not> owns demo_lk 1 5 \<and> holding 0 5 (mem demo_lk)"
proof -
  have "owns demo_lk 0 5" "5 \<in> set (held demo_lk 0)" by (simp_all add: owns_def demo_lk_def Let_def)
  then show ?thesis
    using spinlock_mutex [OF demo_lk_reachable, of 0 5 1] by auto
qed

text \<open>
  C9. Interrupts and release. In every reachable state a CPU that holds a lock has its
  interrupts off. It began its first \<open>acquire\<close>, the one before which it held no lock, with some interrupt
  flag \<open>b\<close>, however deeply its locks are nested since. A running CPU can release any lock it holds without a
  panic, in any order; that frees the lock word, and interrupts come back on exactly when that was its last
  lock and \<open>b\<close> was set.
\<close>

theorem release_restores_interrupts:
  assumes "lk_reachable x" and "phase_of x c = Run" and "l \<in> set (held x c)"
  shows "\<not> c_if (s_cpus (mem x) c) \<and> (\<exists>b. lk_since c b x) \<and>
    (\<exists>m. release c l (mem x) = Some m \<and> sl_locked (s_locks m l) = 0 \<and>
       (\<forall>b. lk_since c b x \<longrightarrow> (c_if (s_cpus m c) \<longleftrightarrow> held x c = [l] \<and> b)))"
proof -
  have i: "lock_inv x" "cli_inv x" using lk_reachable_inv [OF assms(1)] by simp_all
  have h: "holding c l (mem x)" using holding_iff [OF i(1)] assms(3) by simp
  have n: "c_ncli (s_cpus (mem x) c) = int (length (held x c))"
    using i(2) assms(2) by (simp add: cli_inv_def pending_def)
  have len: "0 < length (held x c)" using assms(3) by (cases "held x c") auto
  then have off: "\<not> c_if (s_cpus (mem x) c)" using i(2) n by (simp add: cli_inv_def)
  have one: "length (held x c) = 1 \<longleftrightarrow> held x c = [l]"
    using assms(3) by (cases "held x c") auto
  have since: "\<exists>b. lk_since c b x" using lk_since_exists [OF assms(1)] len by (auto simp: lk_idle_def)
  have "\<exists>m. release c l (mem x) = Some m \<and> sl_locked (s_locks m l) = 0 \<and>
       (c_if (s_cpus m c) \<longleftrightarrow> held x c = [l] \<and> c_intena (s_cpus (mem x) c))"
    using h off n len one
    by (auto simp: release_def release_owner_def release_store_def popcli_def Let_def)
  then show ?thesis using off since lk_since_spec by blast
qed

lemma release_restores_interrupts_witness:
  "\<exists>m. release 0 5 (mem demo_lk) = Some m \<and> c_if (s_cpus m 0) \<and> \<not> c_if (s_cpus (mem demo_lk) 0)"
proof -
  have "phase_of demo_lk 0 = Run" "held demo_lk 0 = [5]"
    by (simp_all add: demo_lk_def Let_def lk_start_def)
  then show ?thesis
    using release_restores_interrupts [OF demo_lk_reachable, of 0 5] demo_lk_since by auto
qed

section \<open>Sleep locks\<close>

text \<open>
  A sleep lock; its spin lock only makes each operation atomic. \<open>acquiresleep\<close> on a lock that
  is taken puts the caller to sleep: the outcome \<open>None\<close>. \<open>holdingsleep\<close> of this kernel does not
  look at the pid.
\<close>

record sleeplock =
  k_locked :: bool
  k_pid :: int

definition initsleeplock :: "sleeplock \<Rightarrow> sleeplock" where
  "initsleeplock lk = lk\<lparr>k_locked := False, k_pid := 0\<rparr>"

definition acquiresleep :: "int \<Rightarrow> sleeplock \<Rightarrow> sleeplock option" where
  "acquiresleep pid lk = (if k_locked lk then None else Some (lk\<lparr>k_locked := True, k_pid := pid\<rparr>))"

definition releasesleep :: "sleeplock \<Rightarrow> sleeplock" where
  "releasesleep lk = lk\<lparr>k_locked := False, k_pid := 0\<rparr>"

definition holdingsleep :: "sleeplock \<Rightarrow> bool" where
  "holdingsleep lk = k_locked lk"

end
