(* ===== verification/Bio.thy ===== *)
theory Bio
  imports Locks
begin

text \<open>
  The buffer cache (\<^verbatim>\<open>Part_B/bio.c\<close>, \<^verbatim>\<open>Part_B/buf.h\<close>) over the memory disk of
  \<^verbatim>\<open>Part_B/memide.c\<close>. The 30 buffers and the list head are the nodes of a circular doubly
  linked list kept in most-recently-used order; the model keeps the \<^verbatim>\<open>prev\<close> and \<^verbatim>\<open>next\<close>
  pointers as the code does (an index, \<open>HEAD\<close> for \<^verbatim>\<open>&bcache.head\<close>) and performs the same
  pointer assignments. \<open>ring\<close> relates the pointers to the list they stand for, and the
  operations are shown to act on that list as an LRU queue. The second half interleaves the
  critical sections of all processes.
\<close>

definition NBUF :: nat where "NBUF = 30"
definition HEAD :: nat where "HEAD = NBUF"
definition ROOTDEV :: u32 where "ROOTDEV = 1"

text \<open>
  \<open>b_valid\<close> and \<open>b_dirty\<close> are the bits \<^verbatim>\<open>B_VALID\<close> and \<^verbatim>\<open>B_DIRTY\<close> of \<^verbatim>\<open>flags\<close>. \<open>b_refcnt\<close>
  is a number below \<open>2 ^ 32\<close>: it counts processes, of which there are at most 64, so its increments do not
  wrap around; its decrement in \<open>brelse\<close> does when it is 0.
\<close>

record buf =
  b_valid :: bool
  b_dirty :: bool
  b_dev :: u32
  b_blockno :: u32
  b_lock :: sleeplock
  b_refcnt :: nat
  b_prev :: nat
  b_next :: nat
  b_data :: bytes

record bio =
  bufs :: "nat \<Rightarrow> buf"
  memdisk :: "nat \<Rightarrow> bytes"
  disksize :: nat

definition updf :: "nat \<Rightarrow> (buf \<Rightarrow> buf) \<Rightarrow> (nat \<Rightarrow> buf) \<Rightarrow> nat \<Rightarrow> buf" where
  "updf i g f = f(i := g (f i))"

definition upd_buf :: "nat \<Rightarrow> (buf \<Rightarrow> buf) \<Rightarrow> bio \<Rightarrow> bio" where
  "upd_buf i g s = s\<lparr>bufs := updf i g (bufs s)\<rparr>"

lemma upd_buf_simps [simp]:
  "bufs (upd_buf i g s) = updf i g (bufs s)"
  "memdisk (upd_buf i g s) = memdisk s" "disksize (upd_buf i g s) = disksize s"
  by (simp_all add: upd_buf_def)

lemma updf_apply [simp]: "updf i g f j = (if j = i then g (f i) else f j)"
  by (simp add: updf_def)

section \<open>The list operations\<close>

text \<open>The four assignments that put node \<open>b\<close> at the front of the list.\<close>

definition push_front :: "nat \<Rightarrow> (nat \<Rightarrow> buf) \<Rightarrow> nat \<Rightarrow> buf" where
  "push_front b f =
     (let f1 = updf b (\<lambda>x. x\<lparr>b_next := b_next (f HEAD)\<rparr>) f;
          f2 = updf b (\<lambda>x. x\<lparr>b_prev := HEAD\<rparr>) f1;
          f3 = updf (b_next (f2 HEAD)) (\<lambda>x. x\<lparr>b_prev := b\<rparr>) f2
      in updf HEAD (\<lambda>x. x\<lparr>b_next := b\<rparr>) f3)"

text \<open>The two assignments of \<open>brelse\<close> that take node \<open>b\<close> out of the list.\<close>

definition unlink_buf :: "nat \<Rightarrow> (nat \<Rightarrow> buf) \<Rightarrow> nat \<Rightarrow> buf" where
  "unlink_buf b f =
     (let f1 = updf (b_next (f b)) (\<lambda>x. x\<lparr>b_prev := b_prev (f b)\<rparr>) f
      in updf (b_prev (f1 b)) (\<lambda>x. x\<lparr>b_next := b_next (f1 b)\<rparr>) f1)"

fun binit_loop :: "nat list \<Rightarrow> (nat \<Rightarrow> buf) \<Rightarrow> nat \<Rightarrow> buf" where
  "binit_loop [] f = f"
| "binit_loop (b # bs) f =
     binit_loop bs (push_front b (updf b (\<lambda>x. x\<lparr>b_lock := initsleeplock (b_lock x)\<rparr>) f))"

definition binit :: "bio \<Rightarrow> bio" where
  "binit s = s\<lparr>bufs := binit_loop [0..<NBUF]
     (updf HEAD (\<lambda>x. x\<lparr>b_prev := HEAD, b_next := HEAD\<rparr>) (bufs s))\<rparr>"

text \<open>
  A loop over the list along the pointers \<open>nx\<close>, up to the head. \<open>None\<close> is a loop that does
  not come back to the head within the given number of rounds.
\<close>

fun scan :: "(buf \<Rightarrow> nat) \<Rightarrow> (buf \<Rightarrow> bool) \<Rightarrow> (nat \<Rightarrow> buf) \<Rightarrow> nat \<Rightarrow> nat \<Rightarrow> nat option option" where
  "scan nx P f 0 b = None"
| "scan nx P f (Suc n) b =
     (if b = HEAD then Some None
      else if P (f b) then Some (Some b)
      else scan nx P f n (nx (f b)))"

section \<open>Operations\<close>

text \<open>
  The critical section of \<open>bget\<close> under \<^verbatim>\<open>bcache.lock\<close>; the panic \<^verbatim>\<open>no buffers\<close> is
  \<open>None\<close>. \<open>bget\<close> adds the acquisition of the buffer's sleep lock.
\<close>

definition bget_section :: "u32 \<Rightarrow> u32 \<Rightarrow> bio \<Rightarrow> (nat \<times> bio) option" where
  "bget_section dev blockno s = do {
     r \<leftarrow> scan b_next (\<lambda>b. b_dev b = dev \<and> b_blockno b = blockno) (bufs s) (NBUF + 1) (b_next (bufs s HEAD));
     case r of
       Some i \<Rightarrow> Some (i, upd_buf i (\<lambda>b. b\<lparr>b_refcnt := b_refcnt b + 1\<rparr>) s)
     | None \<Rightarrow> do {
         r2 \<leftarrow> scan b_prev (\<lambda>b. b_refcnt b = 0 \<and> \<not> b_dirty b) (bufs s) (NBUF + 1) (b_prev (bufs s HEAD));
         i \<leftarrow> r2;
         Some (i, upd_buf i (\<lambda>b. b\<lparr>b_dev := dev, b_blockno := blockno, b_valid := False,
                    b_dirty := False, b_refcnt := 1\<rparr>) s)
       }
   }"

definition lock_buf :: "int \<Rightarrow> nat \<Rightarrow> bio \<Rightarrow> bio option" where
  "lock_buf pid i s = do {
     lk \<leftarrow> acquiresleep pid (b_lock (bufs s i));
     Some (upd_buf i (\<lambda>b. b\<lparr>b_lock := lk\<rparr>) s)
   }"

definition bget :: "int \<Rightarrow> u32 \<Rightarrow> u32 \<Rightarrow> bio \<Rightarrow> (nat \<times> bio) option" where
  "bget pid dev blockno s = do {
     (i, s1) \<leftarrow> bget_section dev blockno s;
     s2 \<leftarrow> lock_buf pid i s1;
     Some (i, s2)
   }"

text \<open>\<open>iderw\<close> of the memory disk; every panic is \<open>None\<close>.\<close>

definition ideinit :: "nat \<Rightarrow> (nat \<Rightarrow> bytes) \<Rightarrow> bio \<Rightarrow> bio" where
  "ideinit nblocks img s = s\<lparr>memdisk := img, disksize := nblocks\<rparr>"

definition iderw :: "nat \<Rightarrow> bio \<Rightarrow> bio option" where
  "iderw i s =
     (let b = bufs s i; n = unat (b_blockno b)
      in if \<not> holdingsleep (b_lock b) then None
         else if b_valid b \<and> \<not> b_dirty b then None
         else if b_dev b \<noteq> 1 then None
         else if n \<ge> disksize s then None
         else if b_dirty b then
           Some (upd_buf i (\<lambda>x. x\<lparr>b_dirty := False, b_valid := True\<rparr>)
                   (s\<lparr>memdisk := (memdisk s)(n := b_data b)\<rparr>))
         else Some (upd_buf i (\<lambda>x. x\<lparr>b_data := memdisk s n, b_valid := True\<rparr>) s))"

definition bread :: "int \<Rightarrow> u32 \<Rightarrow> u32 \<Rightarrow> bio \<Rightarrow> (nat \<times> bio) option" where
  "bread pid dev blockno s = do {
     (i, s1) \<leftarrow> bget pid dev blockno s;
     if \<not> b_valid (bufs s1 i) then do { s2 \<leftarrow> iderw i s1; Some (i, s2) } else Some (i, s1)
   }"

definition bwrite :: "nat \<Rightarrow> bio \<Rightarrow> bio option" where
  "bwrite i s =
     (if \<not> holdingsleep (b_lock (bufs s i)) then None
      else iderw i (upd_buf i (\<lambda>b. b\<lparr>b_dirty := True\<rparr>) s))"

text \<open>\<open>brelse\<close>: the release of the sleep lock, then the section under \<^verbatim>\<open>bcache.lock\<close>.\<close>

definition unlock_buf :: "nat \<Rightarrow> bio \<Rightarrow> bio option" where
  "unlock_buf i s =
     (if \<not> holdingsleep (b_lock (bufs s i)) then None
      else Some (upd_buf i (\<lambda>b. b\<lparr>b_lock := releasesleep (b_lock b)\<rparr>) s))"

definition dec_refcnt :: "nat \<Rightarrow> nat" where
  "dec_refcnt r = (if r = 0 then 2 ^ 32 - 1 else r - 1)"

definition brelse_section :: "nat \<Rightarrow> bio \<Rightarrow> bio" where
  "brelse_section i s =
     (let s1 = upd_buf i (\<lambda>b. b\<lparr>b_refcnt := dec_refcnt (b_refcnt b)\<rparr>) s
      in if b_refcnt (bufs s1 i) = 0
         then s1\<lparr>bufs := push_front i (unlink_buf i (bufs s1))\<rparr>
         else s1)"

definition brelse :: "nat \<Rightarrow> bio \<Rightarrow> bio option" where
  "brelse i s = do {
     s1 \<leftarrow> unlock_buf i s;
     Some (brelse_section i s1)
   }"

lemma dec_refcnt_simps [simp]:
  "dec_refcnt r = 0 \<longleftrightarrow> r = 1" "0 < r \<Longrightarrow> dec_refcnt r = r - 1"
  by (auto simp: dec_refcnt_def)

text \<open>What callers do with a locked buffer: change its data, or pin it as \<open>log_write\<close> does.\<close>

definition set_data :: "nat \<Rightarrow> bytes \<Rightarrow> bio \<Rightarrow> bio" where
  "set_data i d s = upd_buf i (\<lambda>b. b\<lparr>b_data := d\<rparr>) s"

definition set_dirty :: "nat \<Rightarrow> bio \<Rightarrow> bio" where
  "set_dirty i s = upd_buf i (\<lambda>b. b\<lparr>b_dirty := True\<rparr>) s"

section \<open>The pointers as a list\<close>

text \<open>\<open>linked f a xs b\<close>: following \<^verbatim>\<open>next\<close> from \<open>a\<close> visits \<open>xs\<close> and then \<open>b\<close>, and \<^verbatim>\<open>prev\<close> leads back.\<close>

fun linked :: "(nat \<Rightarrow> buf) \<Rightarrow> nat \<Rightarrow> nat list \<Rightarrow> nat \<Rightarrow> bool" where
  "linked f a [] b \<longleftrightarrow> b_next (f a) = b \<and> b_prev (f b) = a"
| "linked f a (x # xs) b \<longleftrightarrow> b_next (f a) = x \<and> b_prev (f x) = a \<and> linked f x xs b"

definition ring :: "(nat \<Rightarrow> buf) \<Rightarrow> nat list \<Rightarrow> bool" where
  "ring f xs \<longleftrightarrow> linked f HEAD xs HEAD \<and> distinct xs \<and> set xs = {0..<NBUF}"

lemma ring_facts: "ring f xs \<Longrightarrow> HEAD \<notin> set xs \<and> length xs = NBUF"
  by (auto simp: ring_def HEAD_def distinct_card [symmetric])

lemma linked_append: "linked f a (xs @ y # ys) b \<longleftrightarrow> linked f a xs y \<and> linked f y ys b"
  by (induction xs arbitrary: a) auto

lemma linked_snoc: "linked f a (xs @ [y]) b \<longleftrightarrow> linked f a xs y \<and> b_next (f y) = b \<and> b_prev (f b) = y"
  by (simp add: linked_append)

lemma linked_cong:
  "(\<And>x. x \<in> set (a # xs) \<Longrightarrow> b_next (f x) = b_next (g x)) \<Longrightarrow>
   (\<And>x. x \<in> set (xs @ [b]) \<Longrightarrow> b_prev (f x) = b_prev (g x)) \<Longrightarrow> linked f a xs b = linked g a xs b"
  by (induction xs arbitrary: a) auto

lemma push_front_links:
  assumes "b \<noteq> HEAD"
  shows "b_next (push_front b f x) = (if x = HEAD then b else if x = b then b_next (f HEAD) else b_next (f x))"
    and "b_prev (push_front b f x) =
      (if x = b_next (f HEAD) then b else if x = b then HEAD else b_prev (f x))"
  using assms by (simp_all add: push_front_def Let_def)

lemma unlink_links:
  assumes "b_next (f i) \<noteq> i"
  shows "b_next (unlink_buf i f x) = (if x = b_prev (f i) then b_next (f i) else b_next (f x))"
    and "b_prev (unlink_buf i f x) = (if x = b_next (f i) then b_prev (f i) else b_prev (f x))"
  using assms by (simp_all add: unlink_buf_def Let_def)

text \<open>The list operations touch nothing but the pointers.\<close>

lemma list_ops_frame [simp]:
  "b_valid (push_front b f x) = b_valid (f x)" "b_valid (unlink_buf b f x) = b_valid (f x)"
  "b_dirty (push_front b f x) = b_dirty (f x)" "b_dirty (unlink_buf b f x) = b_dirty (f x)"
  "b_dev (push_front b f x) = b_dev (f x)" "b_dev (unlink_buf b f x) = b_dev (f x)"
  "b_blockno (push_front b f x) = b_blockno (f x)" "b_blockno (unlink_buf b f x) = b_blockno (f x)"
  "b_lock (push_front b f x) = b_lock (f x)" "b_lock (unlink_buf b f x) = b_lock (f x)"
  "b_refcnt (push_front b f x) = b_refcnt (f x)" "b_refcnt (unlink_buf b f x) = b_refcnt (f x)"
  "b_data (push_front b f x) = b_data (f x)" "b_data (unlink_buf b f x) = b_data (f x)"
  by (simp_all add: push_front_def unlink_buf_def Let_def)

lemma linked_push_front:
  assumes "linked f HEAD xs HEAD" and "b \<noteq> HEAD" and "b \<notin> set xs" and "HEAD \<notin> set xs" and "distinct xs"
  shows "linked (push_front b f) HEAD (b # xs) HEAD"
proof (cases xs)
  case Nil
  then show ?thesis using assms by (simp add: push_front_links)
next
  case (Cons x ys)
  have "linked (push_front b f) x ys HEAD = linked f x ys HEAD"
    using assms Cons by (intro linked_cong) (auto simp: push_front_links)
  then show ?thesis using assms Cons by (simp add: push_front_links)
qed

lemma linked_unlink:
  assumes "linked f a (ys @ i # zs) b" and "distinct (ys @ i # zs)" and "a \<notin> set (ys @ i # zs)"
    and "b \<notin> set (ys @ i # zs)"
  shows "linked (unlink_buf i f) a (ys @ zs) b"
proof -
  let ?g = "unlink_buf i f" and ?p = "last (a # ys)" and ?n = "hd (zs @ [b])"
  have l: "linked f a ys i" and r: "linked f i zs b" using assms(1) by (simp_all add: linked_append)
  have p: "b_prev (f i) = ?p" using l by (cases ys rule: rev_cases) (simp_all add: linked_snoc)
  have n: "b_next (f i) = ?n" using r by (cases zs) simp_all
  have ni: "?n \<noteq> i" using assms(2,4) by (cases zs) auto
  note links = unlink_links [of f i, unfolded n p, OF ni]
  show ?thesis
  proof (cases ys rule: rev_cases)
    case Nil
    then show ?thesis
    proof (cases zs)
      case (Cons z zs')
      have "linked ?g z zs' b = linked f z zs' b"
        using assms Cons Nil by (intro linked_cong) (auto simp: links)
      with Cons Nil r show ?thesis by (simp add: links)
    qed (simp add: links)
  next
    case (snoc ys' q)
    have "linked ?g a ys' q = linked f a ys' q"
      using assms(2-4) snoc by (intro linked_cong; cases zs) (auto simp: links)
    then have g1: "linked ?g a ys' q" using l snoc by (simp add: linked_snoc)
    show ?thesis
    proof (cases zs)
      case Nil
      with snoc g1 show ?thesis by (simp add: links linked_snoc)
    next
      case (Cons z zs')
      have "linked ?g z zs' b = linked f z zs' b"
        using assms(2-4) Cons snoc by (intro linked_cong) (auto simp: links)
      with Cons snoc g1 r show ?thesis by (simp add: linked_append links)
    qed
  qed
qed

section \<open>The list the operations work on\<close>

lemma linked_links_cong:
  "(\<And>x. b_next (f x) = b_next (g x)) \<Longrightarrow> (\<And>x. b_prev (f x) = b_prev (g x)) \<Longrightarrow> linked f a xs b = linked g a xs b"
  by (rule linked_cong) auto

lemma ring_cong:
  "(\<And>x. b_next (f x) = b_next (g x)) \<Longrightarrow> (\<And>x. b_prev (f x) = b_prev (g x)) \<Longrightarrow> ring f xs = ring g xs"
  unfolding ring_def using linked_links_cong [of f g HEAD xs HEAD] by simp

lemma binit_loop_linked:
  assumes "linked f HEAD xs HEAD" and "distinct (bs @ xs)" and "HEAD \<notin> set (bs @ xs)"
  shows "linked (binit_loop bs f) HEAD (rev bs @ xs) HEAD"
  using assms
proof (induction bs arbitrary: f xs)
  case Nil
  then show ?case by simp
next
  case (Cons b bs)
  let ?f = "updf b (\<lambda>x. x\<lparr>b_lock := initsleeplock (b_lock x)\<rparr>) f"
  have "linked ?f HEAD xs HEAD"
    using Cons.prems(1) linked_links_cong [of ?f f HEAD xs HEAD] by simp
  then have "linked (push_front b ?f) HEAD (b # xs) HEAD"
    by (rule linked_push_front) (use Cons.prems(2,3) in auto)
  then have "linked (binit_loop bs (push_front b ?f)) HEAD (rev bs @ b # xs) HEAD"
    by (rule Cons.IH) (use Cons.prems(2,3) in auto)
  then show ?case by (simp del: updf_apply)
qed

lemma binit_ring: "ring (bufs (binit s)) (rev [0..<NBUF])"
proof -
  let ?f = "updf HEAD (\<lambda>x. x\<lparr>b_prev := HEAD, b_next := HEAD\<rparr>) (bufs s)"
  have "linked ?f HEAD [] HEAD" by simp
  then show ?thesis
    using binit_loop_linked [of ?f "[]" "[0..<NBUF]"] by (simp add: ring_def binit_def HEAD_def)
qed

text \<open>The pointer loops find what a search of the list from its front, or from its back, finds.\<close>

lemma scan_next:
  "linked f a xs HEAD \<Longrightarrow> HEAD \<notin> set xs \<Longrightarrow> length xs < n \<Longrightarrow>
   scan b_next P f n (b_next (f a)) = Some (find (\<lambda>i. P (f i)) xs)"
proof (induction xs arbitrary: a n)
  case Nil
  then show ?case by (cases n) simp_all
next
  case (Cons x xs)
  then show ?case by (cases n) auto
qed

lemma scan_prev:
  "linked f HEAD xs b \<Longrightarrow> HEAD \<notin> set xs \<Longrightarrow> length xs < n \<Longrightarrow>
   scan b_prev P f n (b_prev (f b)) = Some (find (\<lambda>i. P (f i)) (rev xs))"
proof (induction xs arbitrary: b n rule: rev_induct)
  case Nil
  then show ?case by (cases n) simp_all
next
  case (snoc x xs)
  then show ?case by (cases n) (auto simp: linked_snoc)
qed

definition is_block :: "u32 \<Rightarrow> u32 \<Rightarrow> buf \<Rightarrow> bool" where
  "is_block dev blockno b \<longleftrightarrow> b_dev b = dev \<and> b_blockno b = blockno"

definition unused :: "buf \<Rightarrow> bool" where
  "unused b \<longleftrightarrow> b_refcnt b = 0 \<and> \<not> b_dirty b"

lemma bget_section_list:
  assumes "ring (bufs s) xs"
  shows "bget_section dev blockno s =
    (case find (\<lambda>i. is_block dev blockno (bufs s i)) xs of
       Some i \<Rightarrow> Some (i, upd_buf i (\<lambda>b. b\<lparr>b_refcnt := b_refcnt b + 1\<rparr>) s)
     | None \<Rightarrow> (case find (\<lambda>i. unused (bufs s i)) (rev xs) of
         Some i \<Rightarrow> Some (i, upd_buf i (\<lambda>b. b\<lparr>b_dev := dev, b_blockno := blockno, b_valid := False,
                            b_dirty := False, b_refcnt := 1\<rparr>) s)
       | None \<Rightarrow> None))"
proof -
  have l: "linked (bufs s) HEAD xs HEAD" "HEAD \<notin> set xs" "length xs < NBUF + 1"
    using assms ring_facts [OF assms] by (simp_all add: ring_def)
  show ?thesis
    unfolding bget_section_def scan_next [OF l] scan_prev [OF l]
    by (auto simp: is_block_def unused_def split: option.split)
qed

lemma brelse_section_refcnt:
  "b_refcnt (bufs (brelse_section i s) j) = (if j = i then dec_refcnt (b_refcnt (bufs s i)) else b_refcnt (bufs s j))"
  by (simp add: brelse_section_def Let_def)

lemma brelse_section_ring:
  assumes "ring (bufs s) xs" and "i < NBUF"
  shows "ring (bufs (brelse_section i s)) (if b_refcnt (bufs s i) = 1 then i # remove1 i xs else xs)"
proof -
  let ?f = "updf i (\<lambda>b. b\<lparr>b_refcnt := dec_refcnt (b_refcnt b)\<rparr>) (bufs s)"
  have r: "ring ?f xs" using assms(1) ring_cong [of ?f "bufs s"] by simp
  show ?thesis
  proof (cases "b_refcnt (bufs s i) = 1")
    case False
    then show ?thesis using r by (simp add: brelse_section_def Let_def)
  next
    case True
    have i: "i \<in> set xs" "i \<noteq> HEAD" using assms by (simp_all add: ring_def HEAD_def)
    then obtain ys zs where xs: "xs = ys @ i # zs" by (meson split_list)
    have d: "distinct xs" "HEAD \<notin> set xs" "set xs = {0..<NBUF}" "linked ?f HEAD xs HEAD"
      using r ring_facts [OF r] by (simp_all add: ring_def)
    have "linked (unlink_buf i ?f) HEAD (ys @ zs) HEAD"
      using d(1,2,4) by (intro linked_unlink) (simp_all add: xs)
    then have "linked (push_front i (unlink_buf i ?f)) HEAD (i # ys @ zs) HEAD"
      using d(1,2) i by (intro linked_push_front) (simp_all add: xs)
    moreover have "remove1 i xs = ys @ zs" using d by (simp add: xs remove1_append)
    moreover have "set (i # ys @ zs) = {0..<NBUF}" "distinct (i # ys @ zs)" using d by (auto simp: xs)
    ultimately show ?thesis using True by (simp add: brelse_section_def Let_def ring_def)
  qed
qed

lemma bget_section_cases:
  assumes "ring (bufs s) xs" and "bget_section dev blockno s = Some (i, s')"
  shows "i < NBUF" and "is_block dev blockno (bufs s i) \<and> s' = upd_buf i (\<lambda>b. b\<lparr>b_refcnt := b_refcnt b + 1\<rparr>) s \<or>
    unused (bufs s i) \<and> (\<forall>j < NBUF. \<not> is_block dev blockno (bufs s j)) \<and>
      s' = upd_buf i (\<lambda>b. b\<lparr>b_dev := dev, b_blockno := blockno, b_valid := False, b_dirty := False,
             b_refcnt := 1\<rparr>) s"
proof -
  have set: "set xs = {0..<NBUF}" using assms(1) by (simp add: ring_def)
  note eq = assms(2) [unfolded bget_section_list [OF assms(1)]]
  show "i < NBUF"
    using eq set by (auto split: option.splits dest!: find_SomeD)
  show "is_block dev blockno (bufs s i) \<and> s' = upd_buf i (\<lambda>b. b\<lparr>b_refcnt := b_refcnt b + 1\<rparr>) s \<or>
    unused (bufs s i) \<and> (\<forall>j < NBUF. \<not> is_block dev blockno (bufs s j)) \<and>
      s' = upd_buf i (\<lambda>b. b\<lparr>b_dev := dev, b_blockno := blockno, b_valid := False, b_dirty := False,
             b_refcnt := 1\<rparr>) s"
    using eq set by (auto split: option.splits dest!: find_SomeD dest: find_NoneD)
qed

lemma upd_buf_ring:
  assumes "ring (bufs s) xs" and "\<And>b. b_next (g b) = b_next b" and "\<And>b. b_prev (g b) = b_prev b"
  shows "ring (bufs (upd_buf i g s)) xs"
  using assms ring_cong [of "bufs (upd_buf i g s)" "bufs s" xs] by simp

section \<open>All processes at once\<close>

text \<open>
  The critical sections of any number of processes in any order. For every buffer the state
  counts the processes that have found it in \<open>bget\<close> and wait for its sleep lock, that hold
  the lock, and that have released it in \<open>brelse\<close> but not yet given up their reference.
\<close>

record bworld =
  core :: bio
  waiting :: "nat \<Rightarrow> nat"
  holder :: "nat \<Rightarrow> nat"
  leaving :: "nat \<Rightarrow> nat"

inductive bio_step :: "bworld \<Rightarrow> bworld \<Rightarrow> bool" where
  lookup: "bget_section ROOTDEV blockno (core w) = Some (i, s) \<Longrightarrow>
     bio_step w (w\<lparr>core := s, waiting := (waiting w)(i := waiting w i + 1)\<rparr>)"
| lock: "0 < waiting w i \<Longrightarrow> lock_buf pid i (core w) = Some s \<Longrightarrow>
     bio_step w (w\<lparr>core := s, waiting := (waiting w)(i := waiting w i - 1),
                   holder := (holder w)(i := holder w i + 1)\<rparr>)"
| io: "0 < holder w i \<Longrightarrow> iderw i (core w) = Some s \<Longrightarrow> bio_step w (w\<lparr>core := s\<rparr>)"
| modify: "0 < holder w i \<Longrightarrow> bio_step w (w\<lparr>core := set_data i d (core w)\<rparr>)"
| pin: "0 < holder w i \<Longrightarrow> bio_step w (w\<lparr>core := set_dirty i (core w)\<rparr>)"
| unlock: "0 < holder w i \<Longrightarrow> unlock_buf i (core w) = Some s \<Longrightarrow>
     bio_step w (w\<lparr>core := s, holder := (holder w)(i := holder w i - 1),
                   leaving := (leaving w)(i := leaving w i + 1)\<rparr>)"
| put: "0 < leaving w i \<Longrightarrow>
     bio_step w (w\<lparr>core := brelse_section i (core w), leaving := (leaving w)(i := leaving w i - 1)\<rparr>)"

text \<open>The cache as the C runtime leaves it, all zero, over a given disk image.\<close>

definition zero_buf :: buf where
  "zero_buf = \<lparr>b_valid = False, b_dirty = False, b_dev = 0, b_blockno = 0,
     b_lock = \<lparr>k_locked = False, k_pid = 0\<rparr>, b_refcnt = 0, b_prev = 0, b_next = 0, b_data = zero_bytes\<rparr>"

definition bio0 :: "nat \<Rightarrow> (nat \<Rightarrow> bytes) \<Rightarrow> bio" where
  "bio0 n img = ideinit n img (binit \<lparr>bufs = (\<lambda>_. zero_buf), memdisk = (\<lambda>_. zero_bytes), disksize = 0\<rparr>)"

inductive bio_reachable :: "bworld \<Rightarrow> bool" where
  boot: "bio_reachable \<lparr>core = bio0 n img, waiting = (\<lambda>_. 0), holder = (\<lambda>_. 0), leaving = (\<lambda>_. 0)\<rparr>"
| step: "bio_reachable w \<Longrightarrow> bio_step w w' \<Longrightarrow> bio_reachable w'"

definition users :: "bworld \<Rightarrow> nat \<Rightarrow> nat" where
  "users w i = waiting w i + holder w i + leaving w i"

definition one_copy :: "(nat \<Rightarrow> buf) \<Rightarrow> bool" where
  "one_copy f \<longleftrightarrow> (\<forall>i < NBUF. \<forall>j < NBUF. b_dev (f i) = ROOTDEV \<longrightarrow> b_dev (f j) = ROOTDEV \<longrightarrow>
     b_blockno (f i) = b_blockno (f j) \<longrightarrow> i = j)"

definition count_inv :: "bworld \<Rightarrow> bool" where
  "count_inv w \<longleftrightarrow> (\<forall>i. if i < NBUF
     then b_refcnt (bufs (core w) i) = users w i \<and> holder w i = of_bool (k_locked (b_lock (bufs (core w) i)))
     else users w i = 0)"

definition world_inv :: "bworld \<Rightarrow> bool" where
  "world_inv w \<longleftrightarrow> (\<exists>xs. ring (bufs (core w)) xs) \<and> one_copy (bufs (core w)) \<and> count_inv w"

lemmas bio_op_defs = lock_buf_def unlock_buf_def set_data_def set_dirty_def iderw_def
  acquiresleep_def releasesleep_def holdingsleep_def

lemma iderw_frame:
  assumes "iderw i s = Some s'"
  shows "b_dev (bufs s' j) = b_dev (bufs s j)" "b_blockno (bufs s' j) = b_blockno (bufs s j)"
    "b_lock (bufs s' j) = b_lock (bufs s j)" "b_refcnt (bufs s' j) = b_refcnt (bufs s j)"
    "b_next (bufs s' j) = b_next (bufs s j)" "b_prev (bufs s' j) = b_prev (bufs s j)"
    "disksize s' = disksize s"
  using assms by (auto simp: iderw_def Let_def split: if_splits)

lemma brelse_section_frame [simp]:
  "b_dev (bufs (brelse_section i s) j) = b_dev (bufs s j)"
  "b_blockno (bufs (brelse_section i s) j) = b_blockno (bufs s j)"
  "b_valid (bufs (brelse_section i s) j) = b_valid (bufs s j)"
  "b_dirty (bufs (brelse_section i s) j) = b_dirty (bufs s j)"
  "b_lock (bufs (brelse_section i s) j) = b_lock (bufs s j)"
  "b_data (bufs (brelse_section i s) j) = b_data (bufs s j)"
  "b_refcnt (bufs (brelse_section i s) j) = (if i = j then dec_refcnt (b_refcnt (bufs s j)) else b_refcnt (bufs s j))"
  "memdisk (brelse_section i s) = memdisk s" "disksize (brelse_section i s) = disksize s"
  by (simp_all add: brelse_section_def Let_def)

lemma one_copy_cong:
  "(\<And>i. b_dev (f i) = b_dev (g i)) \<Longrightarrow> (\<And>i. b_blockno (f i) = b_blockno (g i)) \<Longrightarrow> one_copy f = one_copy g"
  by (simp add: one_copy_def)

lemma bget_section_one_copy:
  assumes "ring (bufs s) xs" and "one_copy (bufs s)" and "bget_section ROOTDEV bn s = Some (i, s')"
  shows "one_copy (bufs s') \<and> ring (bufs s') xs \<and> is_block ROOTDEV bn (bufs s' i)"
  using bget_section_cases(2) [OF assms(1,3)]
proof (elim disjE conjE)
  assume h: "is_block ROOTDEV bn (bufs s i)" and s': "s' = upd_buf i (\<lambda>b. b\<lparr>b_refcnt := b_refcnt b + 1\<rparr>) s"
  have "one_copy (bufs s')" using assms(2) one_copy_cong [of "bufs s'" "bufs s"] by (simp add: s')
  moreover have "ring (bufs s') xs" unfolding s' by (rule upd_buf_ring [OF assms(1)]) simp_all
  ultimately show ?thesis using h by (simp add: s' is_block_def)
next
  assume n: "\<forall>j < NBUF. \<not> is_block ROOTDEV bn (bufs s j)"
    and s': "s' = upd_buf i (\<lambda>b. b\<lparr>b_dev := ROOTDEV, b_blockno := bn, b_valid := False,
               b_dirty := False, b_refcnt := 1\<rparr>) s"
  have "ring (bufs s') xs" unfolding s' by (rule upd_buf_ring [OF assms(1)]) simp_all
  moreover have "one_copy (bufs s')"
    using assms(2) n by (auto simp: one_copy_def s' is_block_def)
  ultimately show ?thesis by (simp add: s' is_block_def)
qed

lemma count_inv_local:
  assumes "count_inv w" and "i < NBUF"
    and "\<And>j. j \<noteq> i \<Longrightarrow> b_refcnt (bufs (core w') j) = b_refcnt (bufs (core w) j) \<and>
           b_lock (bufs (core w') j) = b_lock (bufs (core w) j) \<and> waiting w' j = waiting w j \<and>
           holder w' j = holder w j \<and> leaving w' j = leaving w j"
    and "b_refcnt (bufs (core w') i) = waiting w' i + holder w' i + leaving w' i"
    and "holder w' i = of_bool (k_locked (b_lock (bufs (core w') i)))"
  shows "count_inv w'"
  unfolding count_inv_def
proof (rule allI)
  fix j
  show "if j < NBUF then b_refcnt (bufs (core w') j) = users w' j \<and>
           holder w' j = of_bool (k_locked (b_lock (bufs (core w') j))) else users w' j = 0"
  proof (cases "j = i")
    case False
    then show ?thesis using assms(1) assms(3) [of j] unfolding count_inv_def users_def by metis
  qed (use assms(2,4,5) in \<open>simp add: users_def\<close>)
qed

lemma count_invD:
  "count_inv w \<Longrightarrow> i < NBUF \<Longrightarrow> b_refcnt (bufs (core w) i) = waiting w i + holder w i + leaving w i \<and>
     holder w i = of_bool (k_locked (b_lock (bufs (core w) i)))"
  "count_inv w \<Longrightarrow> 0 < waiting w i \<or> 0 < holder w i \<or> 0 < leaving w i \<Longrightarrow> i < NBUF"
  unfolding count_inv_def users_def by (metis, metis add_is_0 not_gr0)

lemma world_inv_step:
  assumes "bio_step w w'" and "world_inv w"
  shows "world_inv w'"
proof -
  obtain xs where r: "ring (bufs (core w)) xs" using assms(2) by (auto simp: world_inv_def)
  have o: "one_copy (bufs (core w))" and c: "count_inv w" using assms(2) by (simp_all add: world_inv_def)
  from assms(1) show ?thesis
  proof cases
    case (lookup bn i s)
    note q = bget_section_one_copy [OF r o lookup(2)] and cs = bget_section_cases [OF r lookup(2)]
    have "count_inv w'"
      by (rule count_inv_local [OF c cs(1)])
        (use cs(2) count_invD(1) [OF c cs(1)] in \<open>auto simp: lookup(1) unused_def\<close>)
    with q show ?thesis by (auto simp: world_inv_def lookup(1))
  next
    case (lock i pid s)
    have i: "i < NBUF" using count_invD(2) [OF c] lock(2) by blast
    have s: "s = upd_buf i (\<lambda>b. b\<lparr>b_lock := (b_lock b)\<lparr>k_locked := True, k_pid := pid\<rparr>\<rparr>) (core w)"
      and nl: "\<not> k_locked (b_lock (bufs (core w) i))"
      using lock(3) by (auto simp: bio_op_defs upd_buf_def updf_def bind_eq_Some split: if_splits)
    have "ring (bufs s) xs" unfolding s by (rule upd_buf_ring [OF r]) simp_all
    moreover have "one_copy (bufs s)" using o one_copy_cong [of "bufs s" "bufs (core w)"] by (simp add: s)
    moreover have "count_inv w'"
      by (rule count_inv_local [OF c i])
        (use nl lock(2) count_invD(1) [OF c i] in \<open>simp_all add: lock(1) s\<close>)
    ultimately show ?thesis by (auto simp: world_inv_def lock(1))
  next
    case (io i s)
    note fr = iderw_frame [OF io(3)]
    have "ring (bufs s) xs" using r ring_cong [of "bufs s" "bufs (core w)"] fr by simp
    moreover have "one_copy (bufs s)" using o one_copy_cong [of "bufs s" "bufs (core w)"] fr by simp
    moreover have i: "i < NBUF" using count_invD(2) [OF c] io(2) by blast
    then have "count_inv w'"
      by (rule count_inv_local [OF c]) (use count_invD(1) [OF c i] in \<open>simp_all add: io(1) fr\<close>)
    ultimately show ?thesis by (auto simp: world_inv_def io(1))
  next
    case (modify i d)
    have "ring (bufs (set_data i d (core w))) xs" unfolding set_data_def by (rule upd_buf_ring [OF r]) simp_all
    moreover have "one_copy (bufs (set_data i d (core w)))"
      using o one_copy_cong [of "bufs (set_data i d (core w))" "bufs (core w)"] by (simp add: set_data_def)
    moreover have i: "i < NBUF" using count_invD(2) [OF c] modify(2) by blast
    then have "count_inv w'"
      by (rule count_inv_local [OF c]) (use count_invD(1) [OF c i] in \<open>simp_all add: modify(1) set_data_def\<close>)
    ultimately show ?thesis by (auto simp: world_inv_def modify(1))
  next
    case (pin i)
    have "ring (bufs (set_dirty i (core w))) xs" unfolding set_dirty_def by (rule upd_buf_ring [OF r]) simp_all
    moreover have "one_copy (bufs (set_dirty i (core w)))"
      using o one_copy_cong [of "bufs (set_dirty i (core w))" "bufs (core w)"] by (simp add: set_dirty_def)
    moreover have i: "i < NBUF" using count_invD(2) [OF c] pin(2) by blast
    then have "count_inv w'"
      by (rule count_inv_local [OF c]) (use count_invD(1) [OF c i] in \<open>simp_all add: pin(1) set_dirty_def\<close>)
    ultimately show ?thesis by (auto simp: world_inv_def pin(1))
  next
    case (unlock i s)
    have i: "i < NBUF" using count_invD(2) [OF c] unlock(2) by blast
    have s: "s = upd_buf i (\<lambda>b. b\<lparr>b_lock := releasesleep (b_lock b)\<rparr>) (core w)"
      and l: "k_locked (b_lock (bufs (core w) i))"
      using unlock(3) by (auto simp: unlock_buf_def holdingsleep_def split: if_splits)
    have "ring (bufs s) xs" unfolding s by (rule upd_buf_ring [OF r]) simp_all
    moreover have "one_copy (bufs s)" using o one_copy_cong [of "bufs s" "bufs (core w)"] by (simp add: s)
    moreover have "count_inv w'"
      by (rule count_inv_local [OF c i])
        (use l unlock(2) count_invD(1) [OF c i] in \<open>simp_all add: unlock(1) s releasesleep_def\<close>)
    ultimately show ?thesis by (auto simp: world_inv_def unlock(1))
  next
    case (put i)
    have i: "i < NBUF" using count_invD(2) [OF c] put(2) by blast
    have "\<exists>ys. ring (bufs (brelse_section i (core w))) ys" using brelse_section_ring [OF r i] by blast
    moreover have "one_copy (bufs (brelse_section i (core w)))"
      using o one_copy_cong [of "bufs (brelse_section i (core w))" "bufs (core w)"] by simp
    moreover have "count_inv w'"
      by (rule count_inv_local [OF c i]) (use put(2) count_invD(1) [OF c i] in \<open>simp_all add: put(1)\<close>)
    ultimately show ?thesis by (auto simp: world_inv_def put(1))
  qed
qed

lemma binit_loop_frame [simp]:
  "b_dev (binit_loop bs f x) = b_dev (f x)" "b_refcnt (binit_loop bs f x) = b_refcnt (f x)"
  "b_dirty (binit_loop bs f x) = b_dirty (f x)" "b_valid (binit_loop bs f x) = b_valid (f x)"
  "b_blockno (binit_loop bs f x) = b_blockno (f x)" "b_data (binit_loop bs f x) = b_data (f x)"
  by (induction bs arbitrary: f) simp_all

lemma binit_loop_unlocked: "\<not> k_locked (b_lock (f x)) \<Longrightarrow> \<not> k_locked (b_lock (binit_loop bs f x))"
  by (induction bs arbitrary: f) (simp_all add: initsleeplock_def)

lemma bio0_simps [simp]:
  "b_dev (bufs (bio0 n img) i) = 0" "b_refcnt (bufs (bio0 n img) i) = 0"
  "b_dirty (bufs (bio0 n img) i) = False" "k_locked (b_lock (bufs (bio0 n img) i)) = False"
  "memdisk (bio0 n img) = img" "disksize (bio0 n img) = n"
  using binit_loop_unlocked [of "updf HEAD (\<lambda>x. x\<lparr>b_prev := HEAD, b_next := HEAD\<rparr>) (\<lambda>_. zero_buf)" i "[0..<NBUF]"]
  by (simp_all add: bio0_def ideinit_def binit_def zero_buf_def)

lemma bio0_ring: "ring (bufs (bio0 n img)) (rev [0..<NBUF])"
  using binit_ring by (simp add: bio0_def ideinit_def)

lemma bio_reachable_inv: "bio_reachable w \<Longrightarrow> world_inv w"
proof (induction rule: bio_reachable.induct)
  case (boot n img)
  show ?case
    using bio0_ring [of n img] by (auto simp: world_inv_def one_copy_def count_inv_def users_def ROOTDEV_def)
qed (rule world_inv_step)

section \<open>What the buffer cache guarantees\<close>

text \<open>
  C10. The pointer structure of the cache is an LRU queue. If the \<^verbatim>\<open>next\<close> and \<^verbatim>\<open>prev\<close>
  pointers form the ring with node list \<open>xs\<close>, the two loops of \<open>bget\<close> return the first
  buffer of \<open>xs\<close> that caches the block, else recycle the last one that is unused and not dirty,
  else panic; they leave the list as it is; and \<open>brelse\<close> moves the buffer to the
  front of the list, whatever its neighbours are, when it gives up the last reference, and leaves the list alone
  otherwise (also for a count that is already 0, which wraps around). Every process has at most one reference to a buffer,
  so the increments of \<open>bget\<close> stay far below the limit of the count.
\<close>

theorem bcache_lru:
  assumes "ring (bufs s) xs"
  shows "bget_section dev blockno s =
      (case find (\<lambda>i. is_block dev blockno (bufs s i)) xs of
         Some i \<Rightarrow> Some (i, upd_buf i (\<lambda>b. b\<lparr>b_refcnt := b_refcnt b + 1\<rparr>) s)
       | None \<Rightarrow> (case find (\<lambda>i. unused (bufs s i)) (rev xs) of
           Some i \<Rightarrow> Some (i, upd_buf i (\<lambda>b. b\<lparr>b_dev := dev, b_blockno := blockno, b_valid := False,
                              b_dirty := False, b_refcnt := 1\<rparr>) s)
         | None \<Rightarrow> None)) \<and>
    (\<forall>i s'. bget_section dev blockno s = Some (i, s') \<longrightarrow> ring (bufs s') xs) \<and>
    (\<forall>i < NBUF. ring (bufs (brelse_section i s)) (if b_refcnt (bufs s i) = 1 then i # remove1 i xs else xs)) \<and>
    (\<forall>i j. b_refcnt (bufs (brelse_section i s) j) = (if j = i then dec_refcnt (b_refcnt (bufs s i)) else b_refcnt (bufs s j)))"
proof (intro conjI allI impI)
  fix i s'
  assume "bget_section dev blockno s = Some (i, s')"
  from bget_section_cases(2) [OF assms this] obtain g where "s' = upd_buf i g s"
    and "\<And>b. b_next (g b) = b_next b" and "\<And>b. b_prev (g b) = b_prev b" by fastforce
  then show "ring (bufs s') xs" using upd_buf_ring [OF assms] by blast
qed (rule bget_section_list [OF assms], rule brelse_section_ring [OF assms], simp_all add: brelse_section_refcnt)

lemma bio0_bget: "bget_section 1 7 (bio0 n img) = Some (0, upd_buf 0 (\<lambda>b. b\<lparr>b_dev := 1, b_blockno := 7,
    b_valid := False, b_dirty := False, b_refcnt := 1\<rparr>) (bio0 n img))"
proof -
  have "find (\<lambda>i. is_block 1 7 (bufs (bio0 n img) i)) (rev [0..<NBUF]) = None"
    by (simp add: find_None_iff is_block_def)
  moreover have "[0..<NBUF] = 0 # [1..<NBUF]" by (simp add: NBUF_def upt_conv_Cons)
  then have "find (\<lambda>i. unused (bufs (bio0 n img) i)) [0..<NBUF] = Some 0"
    by (simp add: unused_def)
  ultimately show ?thesis using bget_section_list [OF bio0_ring, of 1 7 n img] by simp
qed

lemma bcache_lru_witness:
  "\<exists>s'. bget_section 1 7 (bio0 1000 (\<lambda>_. zero_bytes)) = Some (0, s') \<and> ring (bufs s') (rev [0..<NBUF])"
  using bcache_lru [OF bio0_ring, of 1 7 1000 "\<lambda>_. zero_bytes"] bio0_bget by blast

lemma no_recycling:
  assumes "bio_reachable w" and "bio_step w w'" and "0 < users w i"
  shows "b_dev (bufs (core w') i) = b_dev (bufs (core w) i) \<and>
    b_blockno (bufs (core w') i) = b_blockno (bufs (core w) i)"
proof -
  have inv: "world_inv w" by (rule bio_reachable_inv [OF assms(1)])
  then obtain xs where r: "ring (bufs (core w)) xs" by (auto simp: world_inv_def)
  have c: "count_inv w" using inv by (simp add: world_inv_def)
  have i: "i < NBUF" using count_invD(2) [OF c, of i] assms(3) by (auto simp: users_def)
  then have n: "\<not> unused (bufs (core w) i)"
    using count_invD(1) [OF c i] assms(3) by (auto simp: unused_def users_def)
  from assms(2) show ?thesis
  proof cases
    case (lookup bn k s)
    then show ?thesis using bget_section_cases(2) [OF r lookup(2)] n by auto
  next
    case (io k s)
    then show ?thesis using iderw_frame [OF io(3)] by simp
  qed (auto simp: lock_buf_def unlock_buf_def set_data_def set_dirty_def bind_eq_Some split: if_splits)
qed

text \<open>
  C11. One copy of every block. In every state that any interleaving of the processes'
  critical sections can reach, no two buffers cache the same block of the disk, the reference
  count of a buffer is the number of processes that use it, at most one of
  them holds its contents, and no step of any process changes which block a buffer caches while
  some process waits for it, holds it or is about to return it.
\<close>

theorem cache_one_copy:
  assumes "bio_reachable w" and "i < NBUF" and "j < NBUF" and "i \<noteq> j"
    and "b_dev (bufs (core w) i) = ROOTDEV" and "b_dev (bufs (core w) j) = ROOTDEV"
  shows "b_blockno (bufs (core w) i) \<noteq> b_blockno (bufs (core w) j) \<and>
    b_refcnt (bufs (core w) i) = users w i \<and> holder w i \<le> 1 \<and>
    (\<forall>w'. bio_step w w' \<and> 0 < users w i \<longrightarrow> b_dev (bufs (core w') i) = b_dev (bufs (core w) i) \<and>
       b_blockno (bufs (core w') i) = b_blockno (bufs (core w) i))"
proof -
  have "\<forall>w'. bio_step w w' \<and> 0 < users w i \<longrightarrow> b_dev (bufs (core w') i) = b_dev (bufs (core w) i) \<and>
       b_blockno (bufs (core w') i) = b_blockno (bufs (core w) i)"
    using no_recycling [OF assms(1)] by blast
  then show ?thesis
    using bio_reachable_inv [OF assms(1)] assms(2-) count_invD(1) [of w i]
    by (auto simp: world_inv_def one_copy_def users_def)
qed

text \<open>Two processes use the cache: one holds block 7 in buffer 0, the other looks up block 8.\<close>

definition demo_w0 :: bworld where
  "demo_w0 = \<lparr>core = bio0 1000 (\<lambda>_. zero_bytes), waiting = (\<lambda>_. 0), holder = (\<lambda>_. 0), leaving = (\<lambda>_. 0)\<rparr>"

definition demo_w1 :: bworld where
  "demo_w1 = demo_w0\<lparr>core := upd_buf 0 (\<lambda>b. b\<lparr>b_dev := 1, b_blockno := 7, b_valid := False,
     b_dirty := False, b_refcnt := 1\<rparr>) (bio0 1000 (\<lambda>_. zero_bytes)), waiting := (\<lambda>_. 0)(0 := 1)\<rparr>"

lemma demo_w1_step: "bio_reachable demo_w0" "bio_step demo_w0 demo_w1" "bio_reachable demo_w1"
proof -
  show b: "bio_reachable demo_w0" unfolding demo_w0_def by (rule bio_reachable.boot)
  show st: "bio_step demo_w0 demo_w1"
    using bio_step.lookup [of 7 demo_w0] bio0_bget by (simp add: demo_w1_def demo_w0_def ROOTDEV_def)
  show "bio_reachable demo_w1" by (rule bio_reachable.step [OF b st])
qed

lemma demo_w2: "\<exists>w i. bio_step demo_w1 w \<and> bio_reachable w \<and> i < NBUF \<and> i \<noteq> 0 \<and>
    b_dev (bufs (core w) 0) = ROOTDEV \<and> b_dev (bufs (core w) i) = ROOTDEV \<and> b_blockno (bufs (core w) i) = 8"
proof -
  let ?s = "core demo_w1"
  have r: "ring (bufs ?s) (rev [0..<NBUF])"
    using upd_buf_ring [OF bio0_ring] by (simp add: demo_w1_def)
  have "find (\<lambda>i. is_block ROOTDEV 8 (bufs ?s i)) (rev [0..<NBUF]) = None"
    by (simp add: find_None_iff is_block_def demo_w1_def ROOTDEV_def)
  moreover have "[0..<NBUF] = 0 # 1 # [2..<NBUF]" by (simp add: NBUF_def upt_conv_Cons)
  then have "find (\<lambda>i. unused (bufs ?s i)) [0..<NBUF] = Some 1"
    by (simp add: unused_def demo_w1_def)
  ultimately obtain s where s: "bget_section ROOTDEV 8 ?s = Some (1, s)"
    and sd: "s = upd_buf 1 (\<lambda>b. b\<lparr>b_dev := ROOTDEV, b_blockno := 8, b_valid := False,
                    b_dirty := False, b_refcnt := 1\<rparr>) ?s"
    using bget_section_list [OF r, of ROOTDEV 8] by simp
  note st = bio_step.lookup [OF s]
  show ?thesis
    by (rule exI, rule exI [of _ 1], intro conjI, rule st, rule bio_reachable.step [OF demo_w1_step(3) st])
      (simp_all add: sd demo_w1_def ROOTDEV_def NBUF_def)
qed

lemma cache_one_copy_witness:
  "\<exists>(w :: bworld) i. i \<noteq> 0 \<and> b_blockno (bufs (core w) i) = 8 \<and> b_blockno (bufs (core w) i) \<noteq> b_blockno (bufs (core w) 0)"
proof -
  obtain w i where w: "bio_reachable w" and i: "i < NBUF" "i \<noteq> 0" and d: "b_dev (bufs (core w) 0) = ROOTDEV"
    "b_dev (bufs (core w) i) = ROOTDEV" and b: "b_blockno (bufs (core w) i) = 8"
    using demo_w2 by blast
  have "b_blockno (bufs (core w) i) \<noteq> b_blockno (bufs (core w) 0)"
    using cache_one_copy [OF w i(1) _ i(2) d(2,1)] by (simp add: NBUF_def)
  show ?thesis by (intro exI [of _ w] exI [of _ i] conjI) fact+
qed

end
