(* ===== verification/Bstore.thy ===== *)
theory Bstore
  imports Bio
begin

text \<open>
  What the buffer cache promises to the layers above it: a store of disk blocks with the
  current contents \<open>blk\<close> of every block, the contents \<open>disk\<close> that are durable, and the sets
  of blocks whose buffer the running process holds or that are pinned by the log. The six
  operations are the specification of \<open>bread\<close>, \<open>bget\<close>, a change of the data of a locked
  buffer, \<open>bwrite\<close>, \<open>log_write\<close>'s pinning and \<open>brelse\<close>; a violation of the locking
  discipline is \<open>None\<close>. \<open>refines\<close> and the lemmas below show that the pointer-level cache of
  \<open>Bio\<close> implements it for one process at a time.
\<close>

record bstore =
  disk :: "nat \<Rightarrow> bytes"
  blk :: "nat \<Rightarrow> bytes"
  held_blks :: "nat set"
  pinned :: "nat set"
  unread :: "nat set"
  modified :: "nat set"
  nblocks :: nat
  issued :: "(nat \<times> bytes) list"

text \<open>\<open>issued\<close> is the sequence of disk writes so far; it only serves to speak about crashes.\<close>

section \<open>The operations\<close>

definition blk_read :: "nat \<Rightarrow> ('a) bstore_scheme \<Rightarrow> (bytes \<times> ('a) bstore_scheme) option" where
  "blk_read n s = (if n \<in> held_blks s \<or> nblocks s \<le> n then None
     else Some (blk s n, s\<lparr>held_blks := insert n (held_blks s)\<rparr>))"

definition blk_get :: "nat \<Rightarrow> ('a) bstore_scheme \<Rightarrow> ('a) bstore_scheme option" where
  "blk_get n s = (if n \<in> held_blks s \<or> nblocks s \<le> n then None
     else Some (s\<lparr>held_blks := insert n (held_blks s), unread := insert n (unread s)\<rparr>))"

definition blk_set :: "nat \<Rightarrow> bytes \<Rightarrow> ('a) bstore_scheme \<Rightarrow> ('a) bstore_scheme option" where
  "blk_set n d s = (if n \<notin> held_blks s then None
     else Some (s\<lparr>blk := (blk s)(n := d), modified := insert n (modified s)\<rparr>))"

definition blk_pin :: "nat \<Rightarrow> ('a) bstore_scheme \<Rightarrow> ('a) bstore_scheme option" where
  "blk_pin n s = (if n \<notin> held_blks s \<or> n \<in> unread s then None
     else Some (s\<lparr>pinned := insert n (pinned s)\<rparr>))"

definition blk_write :: "nat \<Rightarrow> ('a) bstore_scheme \<Rightarrow> ('a) bstore_scheme option" where
  "blk_write n s = (if n \<notin> held_blks s \<or> (n \<in> unread s \<and> n \<notin> modified s) then None
     else Some (s\<lparr>disk := (disk s)(n := blk s n), pinned := pinned s - {n},
                  unread := unread s - {n}, modified := modified s - {n},
                  issued := issued s @ [(n, blk s n)]\<rparr>))"

text \<open>A block that is neither written nor pinned may not be released with changed contents.\<close>

definition blk_release :: "nat \<Rightarrow> ('a) bstore_scheme \<Rightarrow> ('a) bstore_scheme option" where
  "blk_release n s =
     (if n \<notin> held_blks s \<or> n \<in> unread s \<or> (n \<in> modified s \<and> n \<notin> pinned s) then None
      else Some (s\<lparr>held_blks := held_blks s - {n}\<rparr>))"

text \<open>The discipline: what is not modified is as on disk; modified blocks are held or pinned.\<close>

definition store_inv :: "('a) bstore_scheme \<Rightarrow> bool" where
  "store_inv s \<longleftrightarrow> modified s \<subseteq> held_blks s \<union> pinned s \<and> unread s \<subseteq> held_blks s \<and>
     (\<forall>n. n \<notin> modified s \<longrightarrow> blk s n = disk s n) \<and>
     (\<forall>n. n \<in> held_blks s \<union> pinned s \<longrightarrow> n < nblocks s)"

lemmas blk_ops = blk_read_def blk_get_def blk_set_def blk_pin_def blk_write_def blk_release_def

lemma store_inv_read: "store_inv s \<Longrightarrow> blk_read n s = Some (d, s') \<Longrightarrow> store_inv s'"
  by (simp add: blk_read_def store_inv_def split: if_splits) (clarsimp, blast)

lemma store_inv_get: "store_inv s \<Longrightarrow> blk_get n s = Some s' \<Longrightarrow> store_inv s'"
  by (simp add: blk_get_def store_inv_def split: if_splits) (clarsimp, blast)

lemma store_inv_set: "store_inv s \<Longrightarrow> blk_set n d s = Some s' \<Longrightarrow> store_inv s'"
  by (auto simp: blk_set_def store_inv_def split: if_splits)

lemma store_inv_pin: "store_inv s \<Longrightarrow> blk_pin n s = Some s' \<Longrightarrow> store_inv s'"
  by (simp add: blk_pin_def store_inv_def split: if_splits) (clarsimp, blast)

lemma store_inv_write: "store_inv s \<Longrightarrow> blk_write n s = Some s' \<Longrightarrow> store_inv s'"
  by (simp add: blk_write_def store_inv_def split: if_splits) (clarsimp, blast)

lemma store_inv_release: "store_inv s \<Longrightarrow> blk_release n s = Some s' \<Longrightarrow> store_inv s'"
  by (simp add: blk_release_def store_inv_def split: if_splits) (clarsimp, blast)

lemmas store_inv_ops = store_inv_read store_inv_get store_inv_set store_inv_pin store_inv_write
  store_inv_release

section \<open>The cache implements the store\<close>

definition caches :: "bio \<Rightarrow> nat \<Rightarrow> nat \<Rightarrow> bool" where
  "caches c i n \<longleftrightarrow> i < NBUF \<and> b_dev (bufs c i) = ROOTDEV \<and> unat (b_blockno (bufs c i)) = n"

definition slot_ok :: "bio \<Rightarrow> nat \<Rightarrow> bool" where
  "slot_ok c i \<longleftrightarrow> (let b = bufs c i in b_refcnt b = of_bool (k_locked (b_lock b)) \<and>
     (b_dev b = ROOTDEV \<and> unat (b_blockno b) < disksize c \<or>
      b_dev b = 0 \<and> \<not> b_dirty b \<and> \<not> k_locked (b_lock b)))"

definition bio_ok :: "bio \<Rightarrow> bool" where
  "bio_ok c \<longleftrightarrow> (\<exists>xs. ring (bufs c) xs) \<and> one_copy (bufs c) \<and> (\<forall>i < NBUF. slot_ok c i)"

text \<open>
  The relation between a cache and a store. A buffer that caches a block holds its current
  contents; a block without a buffer is as on disk.
\<close>

definition slot_rel :: "buf \<Rightarrow> nat \<Rightarrow> ('a) bstore_scheme \<Rightarrow> bool" where
  "slot_rel b n a \<longleftrightarrow> (b_valid b \<or> n \<in> modified a \<longrightarrow> b_data b = blk a n) \<and> (k_locked (b_lock b) \<longleftrightarrow> n \<in> held_blks a) \<and>
     (b_dirty b \<longleftrightarrow> n \<in> pinned a) \<and> (\<not> b_valid b \<longrightarrow> n \<in> unread a)"

definition refines :: "bio \<Rightarrow> ('a) bstore_scheme \<Rightarrow> bool" where
  "refines c a \<longleftrightarrow> bio_ok c \<and> store_inv a \<and> disk a = memdisk c \<and> nblocks a = disksize c \<and>
     (\<forall>i n. caches c i n \<longrightarrow> slot_rel (bufs c i) n a) \<and>
     (\<forall>n. (\<forall>i. \<not> caches c i n) \<longrightarrow> n \<notin> held_blks a \<and> n \<notin> pinned a)"

text \<open>A buffer is free for recycling, or the block is in the cache already.\<close>

definition room_for :: "bio \<Rightarrow> nat \<Rightarrow> bool" where
  "room_for c n \<longleftrightarrow> (\<exists>i. caches c i n) \<or> (\<exists>i < NBUF. unused (bufs c i))"

section \<open>Simulation\<close>

text \<open>Everything of a buffer but its list pointers.\<close>

definition content :: "buf \<Rightarrow> bool \<times> bool \<times> u32 \<times> u32 \<times> sleeplock \<times> nat \<times> bytes" where
  "content b = (b_valid b, b_dirty b, b_dev b, b_blockno b, b_lock b, b_refcnt b, b_data b)"

definition agree_off :: "nat \<Rightarrow> ('a) bstore_scheme \<Rightarrow> ('b) bstore_scheme \<Rightarrow> bool" where
  "agree_off n a a' \<longleftrightarrow> (\<forall>m. m \<noteq> n \<longrightarrow> (m \<in> held_blks a' \<longleftrightarrow> m \<in> held_blks a) \<and> (m \<in> pinned a' \<longleftrightarrow> m \<in> pinned a) \<and>
     (m \<in> unread a' \<longleftrightarrow> m \<in> unread a) \<and> (m \<in> modified a' \<longleftrightarrow> m \<in> modified a) \<and> blk a' m = blk a m)"

lemma slot_rel_cong:
  "content b = content b' \<Longrightarrow> agree_off n a a' \<Longrightarrow> m \<noteq> n \<Longrightarrow> slot_rel b m a \<longleftrightarrow> slot_rel b' m a'"
  by (simp add: slot_rel_def content_def agree_off_def)

lemma slot_ok_cong:
  "content (bufs c i) = content (bufs c' i) \<Longrightarrow> disksize c = disksize c' \<Longrightarrow> slot_ok c i \<longleftrightarrow> slot_ok c' i"
  by (simp add: slot_ok_def content_def Let_def)

lemma caches_cong: "content (bufs c i) = content (bufs c' i) \<Longrightarrow> caches c i n \<longleftrightarrow> caches c' i n"
  by (simp add: caches_def content_def)

lemma caches_unique: "one_copy (bufs c) \<Longrightarrow> caches c i n \<Longrightarrow> caches c j n \<Longrightarrow> i = j"
  unfolding one_copy_def caches_def by (metis word_unat_eq_iff)

lemma refines_slot: "refines c a \<Longrightarrow> caches c i n \<Longrightarrow> slot_rel (bufs c i) n a"
  unfolding refines_def by blast

lemma refines_update:
  assumes R: "refines c a" and at: "caches c i n" and ring: "ring (bufs c') xs"
    and off: "\<And>j. j \<noteq> i \<Longrightarrow> content (bufs c j) = content (bufs c' j)"
    and key: "b_dev (bufs c' i) = ROOTDEV" "b_blockno (bufs c' i) = b_blockno (bufs c i)"
    and cnt: "b_refcnt (bufs c' i) = of_bool (k_locked (b_lock (bufs c' i)))"
    and dsk: "disksize c' = disksize c" "disk a' = memdisk c'" "nblocks a' = nblocks a"
    and inv: "store_inv a'" and rel: "slot_rel (bufs c' i) n a'" and ag: "agree_off n a a'"
  shows "refines c' a'"
proof -
  have one: "one_copy (bufs c)" and ok: "\<And>j. j < NBUF \<Longrightarrow> slot_ok c j"
    using R by (simp_all add: refines_def bio_ok_def)
  have cc: "caches c' j m \<longleftrightarrow> caches c j m" for j m
    using off [of j] key at caches_cong [of c j c' m] by (cases "j = i") (auto simp: caches_def)
  have "one_copy (bufs c')"
    unfolding one_copy_def using cc caches_unique [OF one] by (metis caches_def)
  moreover have "slot_ok c' j" if "j < NBUF" for j
  proof (cases "j = i")
    case True
    then show ?thesis using ok [OF that] key cnt dsk(1) at by (simp add: slot_ok_def Let_def caches_def ROOTDEV_def)
  next
    case False
    then show ?thesis using ok [OF that] slot_ok_cong [OF off [OF False]] dsk(1) by simp
  qed
  moreover have "slot_rel (bufs c' j) m a'" if "caches c' j m" for j m
  proof (cases "j = i")
    case True
    then show ?thesis using rel that cc at by (simp add: caches_def)
  next
    case False
    then have "m \<noteq> n" using that cc at caches_unique [OF one] by blast
    then show ?thesis
      using refines_slot [OF R, of j m] that cc slot_rel_cong [OF off [OF False] ag, of m] by simp
  qed
  moreover have "m \<notin> held_blks a' \<and> m \<notin> pinned a'" if none: "\<forall>j. \<not> caches c' j m" for m
  proof -
    have "m \<noteq> n" using that cc at by blast
    then show ?thesis using R that cc ag unfolding refines_def agree_off_def by blast
  qed
  ultimately show ?thesis
    using R ring inv dsk unfolding refines_def bio_ok_def by auto
qed

lemma refines_recycle:
  assumes R: "refines c a" and i: "i < NBUF" "unused (bufs c i)" and none: "\<And>j. \<not> caches c j n"
    and ring: "ring (bufs c') xs"
    and off: "\<And>j. j \<noteq> i \<Longrightarrow> content (bufs c j) = content (bufs c' j)"
    and key: "b_dev (bufs c' i) = ROOTDEV" "unat (b_blockno (bufs c' i)) = n" and n: "n < disksize c"
    and cnt: "b_refcnt (bufs c' i) = of_bool (k_locked (b_lock (bufs c' i)))"
    and dsk: "disksize c' = disksize c" "disk a' = memdisk c'" "nblocks a' = nblocks a"
    and inv: "store_inv a'" and rel: "slot_rel (bufs c' i) n a'" and ag: "agree_off n a a'"
  shows "refines c' a'"
proof -
  have one: "one_copy (bufs c)" and ok: "\<And>j. j < NBUF \<Longrightarrow> slot_ok c j"
    using R by (simp_all add: refines_def bio_ok_def)
  have at: "caches c' j m \<longleftrightarrow> (if j = i then m = n else caches c j m)" for j m
    using off [of j] key i(1) caches_cong [of c j c' m] by (auto simp: caches_def)
  have "one_copy (bufs c')"
    unfolding one_copy_def using at caches_unique [OF one] none by (metis caches_def)
  moreover have "slot_ok c' j" if "j < NBUF" for j
  proof (cases "j = i")
    case True
    then show ?thesis using key cnt n dsk(1) by (simp add: slot_ok_def Let_def)
  next
    case False
    then show ?thesis using ok [OF that] slot_ok_cong [OF off [OF False]] dsk(1) by simp
  qed
  moreover have "slot_rel (bufs c' j) m a'" if "caches c' j m" for j m
  proof (cases "j = i")
    case True
    then show ?thesis using rel that at by simp
  next
    case False
    then have "m \<noteq> n" "caches c j m" using that at none by auto
    then show ?thesis
      using refines_slot [OF R, of j m] slot_rel_cong [OF off [OF False] ag, of m] by simp
  qed
  moreover have "m \<notin> held_blks a' \<and> m \<notin> pinned a'" if m: "\<forall>j. \<not> caches c' j m" for m
  proof -
    have mn: "m \<noteq> n" using m [THEN spec, of i] by (simp add: at)
    have "m \<notin> held_blks a \<and> m \<notin> pinned a"
    proof (cases "caches c i m")
      case True
      then have "slot_rel (bufs c i) m a" using R by (simp add: refines_def)
      moreover have "\<not> k_locked (b_lock (bufs c i))" "\<not> b_dirty (bufs c i)"
        using i ok [OF i(1)] by (auto simp: unused_def slot_ok_def Let_def)
      ultimately show ?thesis by (simp add: slot_rel_def)
    next
      case False
      then have "\<forall>j. \<not> caches c j m" using m at by metis
      then show ?thesis using R by (simp add: refines_def)
    qed
    then show ?thesis using mn ag by (simp add: agree_off_def)
  qed
  ultimately show ?thesis
    using R ring inv dsk unfolding refines_def bio_ok_def by auto
qed

lemma is_block_caches:
  "n < 2 ^ 32 \<Longrightarrow> i < NBUF \<Longrightarrow> is_block ROOTDEV (of_nat n) (bufs c i) \<longleftrightarrow> caches c i n"
  by (auto simp: is_block_def caches_def unat_of_nat take_bit_nat_eq_self)

text \<open>What \<open>bget\<close> leaves behind when the buffer is not held and there is room.\<close>

lemma bget_result:
  assumes R: "refines c a" and n: "n < 2 ^ 32" "n \<notin> held_blks a" and room: "room_for c n"
  obtains i c1 xs where "bget pid ROOTDEV (of_nat n) c = Some (i, c1)" and "ring (bufs c1) xs"
    and "memdisk c1 = memdisk c" and "disksize c1 = disksize c" and "\<And>j. j \<noteq> i \<Longrightarrow> bufs c1 j = bufs c j"
    and "i < NBUF" and "b_dev (bufs c1 i) = ROOTDEV" and "unat (b_blockno (bufs c1 i)) = n"
    and "b_refcnt (bufs c1 i) = 1" and "k_locked (b_lock (bufs c1 i))"
    and "caches c i n \<and> b_valid (bufs c1 i) = b_valid (bufs c i) \<and> b_dirty (bufs c1 i) = b_dirty (bufs c i) \<and>
           b_data (bufs c1 i) = b_data (bufs c i) \<and> b_blockno (bufs c1 i) = b_blockno (bufs c i) \<or>
         (\<forall>j. \<not> caches c j n) \<and> unused (bufs c i) \<and> \<not> b_valid (bufs c1 i) \<and> \<not> b_dirty (bufs c1 i)"
proof -
  obtain xs where r: "ring (bufs c) xs" using R by (auto simp: refines_def bio_ok_def)
  have set: "set xs = {0..<NBUF}" using r by (simp add: ring_def)
  have ok: "\<And>j. j < NBUF \<Longrightarrow> slot_ok c j" using R by (simp add: refines_def bio_ok_def)
  have fi: "find (\<lambda>i. is_block ROOTDEV (of_nat n) (bufs c i)) xs = None \<longleftrightarrow> (\<forall>j. \<not> caches c j n)"
    using is_block_caches [OF n(1)] set by (auto simp: find_None_iff caches_def)
  have nat: "unat (of_nat n :: u32) = n" using n(1) by (simp add: unat_of_nat take_bit_nat_eq_self)
  show ?thesis
  proof (cases "find (\<lambda>i. is_block ROOTDEV (of_nat n) (bufs c i)) xs")
    case (Some i)
    note fd = find_SomeD [OF Some]
    then have iN: "i < NBUF" using set by simp
    then have i: "caches c i n" using is_block_caches [OF n(1) iN] fd by simp
    have nl: "\<not> k_locked (b_lock (bufs c i))" using refines_slot [OF R i] n(2) by (simp add: slot_rel_def)
    let ?c1 = "upd_buf i (\<lambda>b. b\<lparr>b_lock := (b_lock b)\<lparr>k_locked := True, k_pid := pid\<rparr>\<rparr>)
                 (upd_buf i (\<lambda>b. b\<lparr>b_refcnt := b_refcnt b + 1\<rparr>) c)"
    have "bget pid ROOTDEV (of_nat n) c = Some (i, ?c1)"
      using Some nl by (simp add: bget_def bget_section_list [OF r] lock_buf_def acquiresleep_def upd_buf_def updf_def)
    moreover have "ring (bufs ?c1) xs" using upd_buf_ring [OF upd_buf_ring [OF r]] by simp
    ultimately show ?thesis
      using that i iN ok [OF iN] nl by (auto simp: caches_def slot_ok_def Let_def)
  next
    case None
    then have nc: "\<forall>j. \<not> caches c j n" using fi by simp
    then have "\<exists>i < NBUF. unused (bufs c i)" using room by (auto simp: room_for_def)
    then obtain i where i: "find (\<lambda>i. unused (bufs c i)) (rev xs) = Some i"
      using set find_NoneD [of "\<lambda>i. unused (bufs c i)" "rev xs"]
      by (cases "find (\<lambda>i. unused (bufs c i)) (rev xs)") auto
    have iN: "i < NBUF" "unused (bufs c i)" using set find_SomeD [OF i] by simp_all
    have nl: "\<not> k_locked (b_lock (bufs c i))" using ok [OF iN(1)] iN(2) by (auto simp: slot_ok_def unused_def Let_def)
    let ?g = "\<lambda>b. b\<lparr>b_dev := ROOTDEV, b_blockno := of_nat n, b_valid := False, b_dirty := False, b_refcnt := 1\<rparr>"
    let ?c1 = "upd_buf i (\<lambda>b. b\<lparr>b_lock := (b_lock b)\<lparr>k_locked := True, k_pid := pid\<rparr>\<rparr>) (upd_buf i ?g c)"
    have "bget pid ROOTDEV (of_nat n) c = Some (i, ?c1)"
      using None i nl by (simp add: bget_def bget_section_list [OF r] lock_buf_def acquiresleep_def upd_buf_def updf_def)
    moreover have "ring (bufs ?c1) xs" using upd_buf_ring [OF upd_buf_ring [OF r]] by simp
    ultimately show ?thesis
      using that iN nc nat by auto
  qed
qed

lemma store_inv_clean:
  "store_inv a \<Longrightarrow> n \<notin> held_blks a \<Longrightarrow> n \<notin> pinned a \<Longrightarrow> n \<notin> modified a \<and> n \<notin> unread a \<and> blk a n = disk a n"
  unfolding store_inv_def by blast

lemma unused_not_held:
  assumes "refines c a" and "i < NBUF" and "unused (bufs c i)" and "caches c i m"
  shows "m \<notin> held_blks a \<and> m \<notin> pinned a"
proof -
  have "slot_ok c i" using assms(1,2) by (simp add: refines_def bio_ok_def)
  then have "\<not> k_locked (b_lock (bufs c i))" "\<not> b_dirty (bufs c i)"
    using assms(3) by (auto simp: slot_ok_def unused_def Let_def)
  then show ?thesis using refines_slot [OF assms(1,4)] by (simp add: slot_rel_def)
qed

lemma sim_read:
  assumes R: "refines c a" and n: "n < 2 ^ 32" and room: "room_for c n" and op: "blk_read n a = Some (d, a')"
  shows "\<exists>i c'. bread pid ROOTDEV (of_nat n) c = Some (i, c') \<and> refines c' a' \<and> caches c' i n \<and> b_data (bufs c' i) = d \<and>
    (\<forall>j m. m \<in> held_blks a \<longrightarrow> caches c j m \<longrightarrow> caches c' j m)"
proof -
  have nh: "n \<notin> held_blks a" and lt: "n < nblocks a" and d: "d = blk a n"
    and a': "a' = a\<lparr>held_blks := insert n (held_blks a)\<rparr>"
    using op by (auto simp: blk_read_def split: if_splits)
  have inv: "store_inv a" "disk a = memdisk c" "nblocks a = disksize c"
    using R unfolding refines_def by simp_all
  have inv': "store_inv a'" by (rule store_inv_read [OF inv(1) op])
  have ag: "agree_off n a a'" by (simp add: agree_off_def a')
  obtain i c1 xs where g: "bget pid ROOTDEV (of_nat n) c = Some (i, c1)" and r: "ring (bufs c1) xs"
    and dk: "memdisk c1 = memdisk c" "disksize c1 = disksize c" and off: "\<And>j. j \<noteq> i \<Longrightarrow> bufs c1 j = bufs c j"
    and i: "i < NBUF" "b_dev (bufs c1 i) = ROOTDEV" "unat (b_blockno (bufs c1 i)) = n"
      "b_refcnt (bufs c1 i) = 1" "k_locked (b_lock (bufs c1 i))"
    and cs: "caches c i n \<and> b_valid (bufs c1 i) = b_valid (bufs c i) \<and> b_dirty (bufs c1 i) = b_dirty (bufs c i) \<and>
           b_data (bufs c1 i) = b_data (bufs c i) \<and> b_blockno (bufs c1 i) = b_blockno (bufs c i) \<or>
         (\<forall>j. \<not> caches c j n) \<and> unused (bufs c i) \<and> \<not> b_valid (bufs c1 i) \<and> \<not> b_dirty (bufs c1 i)"
    using bget_result [OF R n nh room] by metis
  from cs show ?thesis
  proof (elim disjE conjE)
    assume at: "caches c i n" and same: "b_valid (bufs c1 i) = b_valid (bufs c i)"
      "b_dirty (bufs c1 i) = b_dirty (bufs c i)" "b_data (bufs c1 i) = b_data (bufs c i)"
      "b_blockno (bufs c1 i) = b_blockno (bufs c i)"
    have rel: "slot_rel (bufs c i) n a" by (rule refines_slot [OF R at])
    have "n \<notin> unread a" using inv(1) nh by (auto simp: store_inv_def)
    then have v: "b_valid (bufs c1 i)" using rel same by (auto simp: slot_rel_def)
    have "refines c1 a'"
      by (rule refines_update [OF R at r])
         (use off i dk inv inv' rel same v ag in \<open>auto simp: a' slot_rel_def\<close>)
    moreover have "caches c1 j m" if "caches c j m" for j m
      using that off [of j] i at by (cases "j = i") (auto simp: caches_def)
    ultimately show ?thesis
      using g v i rel same by (simp add: bread_def d caches_def slot_rel_def)
  next
    assume none: "\<forall>j. \<not> caches c j n" and u: "unused (bufs c i)" and nv: "\<not> b_valid (bufs c1 i)" "\<not> b_dirty (bufs c1 i)"
    let ?c2 = "upd_buf i (\<lambda>x. x\<lparr>b_data := memdisk c1 n, b_valid := True\<rparr>) c1"
    have "n \<notin> held_blks a \<and> n \<notin> pinned a" using R none unfolding refines_def by blast
    then have cl: "n \<notin> modified a" "blk a n = disk a n" "n \<notin> pinned a" using store_inv_clean [OF inv(1)] by blast+
    have io: "iderw i c1 = Some ?c2"
      using i nv dk lt inv by (simp add: iderw_def Let_def holdingsleep_def ROOTDEV_def)
    have r2: "ring (bufs ?c2) xs" using upd_buf_ring [OF r] by simp
    have "refines ?c2 a'"
      by (rule refines_recycle [OF R i(1) u _ r2])
         (use none off i dk inv inv' lt cl nv ag in \<open>auto simp: a' slot_rel_def\<close>)
    moreover have "caches ?c2 j m" if "m \<in> held_blks a" "caches c j m" for j m
      using that off [of j] unused_not_held [OF R i(1) u] by (cases "j = i") (auto simp: caches_def)
    moreover have "caches ?c2 i n" "b_data (bufs ?c2 i) = d" using i dk inv cl by (simp_all add: caches_def d)
    ultimately show ?thesis
      using g io nv by (simp add: bread_def)
  qed
qed

lemma sim_get:
  assumes R: "refines c a" and n: "n < 2 ^ 32" and room: "room_for c n" and op: "blk_get n a = Some a'"
  shows "\<exists>i c'. bget pid ROOTDEV (of_nat n) c = Some (i, c') \<and> refines c' a' \<and> caches c' i n \<and>
    (\<forall>j m. m \<in> held_blks a \<longrightarrow> caches c j m \<longrightarrow> caches c' j m)"
proof -
  have nh: "n \<notin> held_blks a" and lt: "n < nblocks a"
    and a': "a' = a\<lparr>held_blks := insert n (held_blks a), unread := insert n (unread a)\<rparr>"
    using op by (auto simp: blk_get_def split: if_splits)
  have inv: "store_inv a" "disk a = memdisk c" "nblocks a = disksize c"
    using R unfolding refines_def by simp_all
  have inv': "store_inv a'" by (rule store_inv_get [OF inv(1) op])
  have ag: "agree_off n a a'" by (simp add: agree_off_def a')
  obtain i c1 xs where g: "bget pid ROOTDEV (of_nat n) c = Some (i, c1)" and r: "ring (bufs c1) xs"
    and dk: "memdisk c1 = memdisk c" "disksize c1 = disksize c" and off: "\<And>j. j \<noteq> i \<Longrightarrow> bufs c1 j = bufs c j"
    and i: "i < NBUF" "b_dev (bufs c1 i) = ROOTDEV" "unat (b_blockno (bufs c1 i)) = n"
      "b_refcnt (bufs c1 i) = 1" "k_locked (b_lock (bufs c1 i))"
    and cs: "caches c i n \<and> b_valid (bufs c1 i) = b_valid (bufs c i) \<and> b_dirty (bufs c1 i) = b_dirty (bufs c i) \<and>
           b_data (bufs c1 i) = b_data (bufs c i) \<and> b_blockno (bufs c1 i) = b_blockno (bufs c i) \<or>
         (\<forall>j. \<not> caches c j n) \<and> unused (bufs c i) \<and> \<not> b_valid (bufs c1 i) \<and> \<not> b_dirty (bufs c1 i)"
    using bget_result [OF R n nh room] by metis
  have at1: "caches c1 i n" using i by (simp add: caches_def)
  from cs show ?thesis
  proof (elim disjE conjE)
    assume at: "caches c i n" and same: "b_valid (bufs c1 i) = b_valid (bufs c i)"
      "b_dirty (bufs c1 i) = b_dirty (bufs c i)" "b_data (bufs c1 i) = b_data (bufs c i)"
      "b_blockno (bufs c1 i) = b_blockno (bufs c i)"
    have rel: "slot_rel (bufs c i) n a" by (rule refines_slot [OF R at])
    have "refines c1 a'"
      by (rule refines_update [OF R at r])
         (use off i dk inv inv' rel same ag in \<open>auto simp: a' slot_rel_def\<close>)
    moreover have "caches c1 j m" if "caches c j m" for j m
      using that off [of j] i at by (cases "j = i") (auto simp: caches_def)
    ultimately show ?thesis using g at1 by blast
  next
    assume none: "\<forall>j. \<not> caches c j n" and u: "unused (bufs c i)" and nv: "\<not> b_valid (bufs c1 i)" "\<not> b_dirty (bufs c1 i)"
    have "n \<notin> held_blks a \<and> n \<notin> pinned a" using R none unfolding refines_def by blast
    then have cl: "n \<notin> modified a" "blk a n = disk a n" "n \<notin> pinned a" using store_inv_clean [OF inv(1)] by blast+
    have "refines c1 a'"
      by (rule refines_recycle [OF R i(1) u _ r])
         (use none off i dk inv inv' lt cl nv ag in \<open>auto simp: a' slot_rel_def\<close>)
    moreover have "caches c1 j m" if "m \<in> held_blks a" "caches c j m" for j m
      using that off [of j] unused_not_held [OF R i(1) u] by (cases "j = i") (auto simp: caches_def)
    ultimately show ?thesis using g at1 by blast
  qed
qed

text \<open>The operations on a buffer that is already held.\<close>

lemma refines_held:
  assumes "refines c a" and "caches c i n" and "n \<in> held_blks a"
  shows "k_locked (b_lock (bufs c i))" "b_refcnt (bufs c i) = 1" "i < NBUF" "b_dev (bufs c i) = ROOTDEV"
    "unat (b_blockno (bufs c i)) = n" "n < disksize c"
proof -
  have i: "i < NBUF" "b_dev (bufs c i) = ROOTDEV" "unat (b_blockno (bufs c i)) = n"
    using assms(2) by (simp_all add: caches_def)
  have l: "k_locked (b_lock (bufs c i))" using refines_slot [OF assms(1,2)] assms(3) by (simp add: slot_rel_def)
  have "slot_ok c i" using assms(1) i(1) by (simp add: refines_def bio_ok_def)
  with l i show "k_locked (b_lock (bufs c i))" "b_refcnt (bufs c i) = 1" "i < NBUF" "b_dev (bufs c i) = ROOTDEV"
    "unat (b_blockno (bufs c i)) = n" "n < disksize c"
    by (auto simp: slot_ok_def Let_def ROOTDEV_def)
qed

lemma refines_ring: "refines c a \<Longrightarrow> \<exists>xs. ring (bufs c) xs"
  by (simp add: refines_def bio_ok_def)

lemma refines_disk: "refines c a \<Longrightarrow> disk a = memdisk c \<and> nblocks a = disksize c \<and> store_inv a"
  by (simp add: refines_def)

lemma sim_set:
  assumes R: "refines c a" and at: "caches c i n" and op: "blk_set n d a = Some a'"
  shows "refines (set_data i d c) a' \<and> (\<forall>j m. caches c j m \<longrightarrow> caches (set_data i d c) j m)"
proof -
  have h: "n \<in> held_blks a" and a': "a' = a\<lparr>blk := (blk a)(n := d), modified := insert n (modified a)\<rparr>"
    using op by (auto simp: blk_set_def split: if_splits)
  note H = refines_held [OF R at h] and D = refines_disk [OF R]
  obtain xs where r: "ring (bufs c) xs" using refines_ring [OF R] by blast
  have r': "ring (bufs (set_data i d c)) xs" unfolding set_data_def by (rule upd_buf_ring [OF r]) simp_all
  have inv': "store_inv a'" using D store_inv_set [OF _ op] by blast
  have ag: "agree_off n a a'" by (simp add: agree_off_def a')
  have "refines (set_data i d c) a'"
    by (rule refines_update [OF R at r'])
       (use H D inv' ag refines_slot [OF R at] in \<open>auto simp: a' slot_rel_def set_data_def content_def\<close>)
  then show ?thesis by (auto simp: caches_def set_data_def)
qed

lemma sim_pin:
  assumes R: "refines c a" and at: "caches c i n" and op: "blk_pin n a = Some a'"
  shows "refines (set_dirty i c) a' \<and> (\<forall>j m. caches c j m \<longrightarrow> caches (set_dirty i c) j m)"
proof -
  have h: "n \<in> held_blks a" and a': "a' = a\<lparr>pinned := insert n (pinned a)\<rparr>"
    using op by (auto simp: blk_pin_def split: if_splits)
  note H = refines_held [OF R at h] and D = refines_disk [OF R]
  obtain xs where r: "ring (bufs c) xs" using refines_ring [OF R] by blast
  have r': "ring (bufs (set_dirty i c)) xs" unfolding set_dirty_def by (rule upd_buf_ring [OF r]) simp_all
  have inv': "store_inv a'" using D store_inv_pin [OF _ op] by blast
  have ag: "agree_off n a a'" by (simp add: agree_off_def a')
  have "refines (set_dirty i c) a'"
    by (rule refines_update [OF R at r'])
       (use H D inv' ag refines_slot [OF R at] in \<open>auto simp: a' slot_rel_def set_dirty_def content_def\<close>)
  then show ?thesis by (auto simp: caches_def set_dirty_def)
qed

lemma sim_write:
  assumes R: "refines c a" and at: "caches c i n" and op: "blk_write n a = Some a'"
  shows "\<exists>c'. bwrite i c = Some c' \<and> refines c' a' \<and> (\<forall>j m. caches c j m \<longrightarrow> caches c' j m)"
proof -
  have h: "n \<in> held_blks a" and g: "n \<in> unread a \<Longrightarrow> n \<in> modified a"
    and a': "a' = a\<lparr>disk := (disk a)(n := blk a n), pinned := pinned a - {n},
               unread := unread a - {n}, modified := modified a - {n},
               issued := issued a @ [(n, blk a n)]\<rparr>"
    using op by (auto simp: blk_write_def split: if_splits)
  note H = refines_held [OF R at h] and D = refines_disk [OF R] and S = refines_slot [OF R at]
  obtain xs where r: "ring (bufs c) xs" using refines_ring [OF R] by blast
  have dat: "b_data (bufs c i) = blk a n" using S g by (auto simp: slot_rel_def)
  let ?c' = "upd_buf i (\<lambda>x. x\<lparr>b_dirty := False, b_valid := True\<rparr>)
     ((upd_buf i (\<lambda>b. b\<lparr>b_dirty := True\<rparr>) c)\<lparr>memdisk := (memdisk c)(n := b_data (bufs c i))\<rparr>)"
  have w: "bwrite i c = Some ?c'"
    using H by (simp add: bwrite_def iderw_def holdingsleep_def Let_def ROOTDEV_def)
  have "ring (bufs (upd_buf i (\<lambda>b. b\<lparr>b_dirty := True\<rparr>) c)) xs" by (rule upd_buf_ring [OF r]) simp_all
  then have r': "ring (bufs ?c') xs" by (intro upd_buf_ring) simp_all
  have inv': "store_inv a'" using D store_inv_write [OF _ op] by blast
  have ag: "agree_off n a a'" by (simp add: agree_off_def a')
  have "refines ?c' a'"
    by (rule refines_update [OF R at r'])
       (use H D inv' ag S dat in \<open>auto simp: a' slot_rel_def content_def\<close>)
  moreover have "\<forall>j m. caches c j m \<longrightarrow> caches ?c' j m" by (simp add: caches_def)
  ultimately show ?thesis using w by blast
qed

lemma sim_release:
  assumes R: "refines c a" and at: "caches c i n" and op: "blk_release n a = Some a'"
  shows "\<exists>c'. brelse i c = Some c' \<and> refines c' a' \<and> (\<forall>j m. caches c j m \<longrightarrow> caches c' j m)"
proof -
  have h: "n \<in> held_blks a" "n \<notin> unread a" and a': "a' = a\<lparr>held_blks := held_blks a - {n}\<rparr>"
    using op by (auto simp: blk_release_def split: if_splits)
  note H = refines_held [OF R at h(1)] and D = refines_disk [OF R] and S = refines_slot [OF R at]
  obtain xs where r: "ring (bufs c) xs" using refines_ring [OF R] by blast
  let ?c1 = "upd_buf i (\<lambda>b. b\<lparr>b_lock := releasesleep (b_lock b)\<rparr>) c"
  have w: "brelse i c = Some (brelse_section i ?c1)"
    using H by (simp add: brelse_def unlock_buf_def holdingsleep_def)
  have "ring (bufs ?c1) xs" by (rule upd_buf_ring [OF r]) simp_all
  from brelse_section_ring [OF this H(3)]
  obtain ys where r': "ring (bufs (brelse_section i ?c1)) ys" by blast
  have inv': "store_inv a'" using D store_inv_release [OF _ op] by blast
  have ag: "agree_off n a a'" by (simp add: agree_off_def a')
  have "refines (brelse_section i ?c1) a'"
    by (rule refines_update [OF R at r'])
       (use H D inv' ag S h in \<open>auto simp: a' slot_rel_def content_def releasesleep_def\<close>)
  moreover have "\<forall>j m. caches c j m \<longrightarrow> caches (brelse_section i ?c1) j m" by (simp add: caches_def)
  ultimately show ?thesis using w by blast
qed

section \<open>Runs of a client\<close>

text \<open>
  A client is a sequence of calls. It remembers the buffer pointer of every block it has
  fetched. The specification's run adds the proviso that fewer than 30 blocks are held or
  pinned when a further one is fetched.
\<close>

datatype call = CRead nat | CGet nat | CSet nat bytes | CPin nat | CWrite nat | CRelease nat

fun spec_call :: "call \<Rightarrow> bstore \<Rightarrow> bstore option" where
  "spec_call (CRead n) a = (if card (held_blks a \<union> pinned a) < NBUF then map_option snd (blk_read n a) else None)"
| "spec_call (CGet n) a = (if card (held_blks a \<union> pinned a) < NBUF then blk_get n a else None)"
| "spec_call (CSet n d) a = blk_set n d a"
| "spec_call (CPin n) a = blk_pin n a"
| "spec_call (CWrite n) a = blk_write n a"
| "spec_call (CRelease n) a = blk_release n a"

fun impl_call :: "int \<Rightarrow> call \<Rightarrow> (nat \<Rightarrow> nat) \<times> bio \<Rightarrow> ((nat \<Rightarrow> nat) \<times> bio) option" where
  "impl_call pid (CRead n) (p, c) = map_option (\<lambda>(i, c'). (p(n := i), c')) (bread pid ROOTDEV (of_nat n) c)"
| "impl_call pid (CGet n) (p, c) = map_option (\<lambda>(i, c'). (p(n := i), c')) (bget pid ROOTDEV (of_nat n) c)"
| "impl_call pid (CSet n d) (p, c) = Some (p, set_data (p n) d c)"
| "impl_call pid (CPin n) (p, c) = Some (p, set_dirty (p n) c)"
| "impl_call pid (CWrite n) (p, c) = map_option (Pair p) (bwrite (p n) c)"
| "impl_call pid (CRelease n) (p, c) = map_option (Pair p) (brelse (p n) c)"

definition pointers_ok :: "(nat \<Rightarrow> nat) \<Rightarrow> bio \<Rightarrow> bstore \<Rightarrow> bool" where
  "pointers_ok p c a \<longleftrightarrow> (\<forall>n \<in> held_blks a. caches c (p n) n)"

lemma room_from_card:
  assumes "refines c a" and "card (held_blks a \<union> pinned a) < NBUF"
  shows "room_for c n"
proof (rule ccontr)
  assume no: "\<not> room_for c n"
  have used: "b_dev (bufs c i) = ROOTDEV \<and> unat (b_blockno (bufs c i)) \<in> held_blks a \<union> pinned a" if i: "i < NBUF" for i
  proof -
    have "\<not> unused (bufs c i)" using no i by (auto simp: room_for_def)
    moreover have "slot_ok c i" using assms(1) i by (simp add: refines_def bio_ok_def)
    ultimately have b: "b_dev (bufs c i) = ROOTDEV" "k_locked (b_lock (bufs c i)) \<or> b_dirty (bufs c i)"
      by (auto simp: unused_def slot_ok_def Let_def)
    then have "caches c i (unat (b_blockno (bufs c i)))" using i by (simp add: caches_def)
    from refines_slot [OF assms(1) this] b show ?thesis by (auto simp: slot_rel_def)
  qed
  have one: "one_copy (bufs c)" using assms(1) by (simp add: refines_def bio_ok_def)
  let ?f = "\<lambda>i. unat (b_blockno (bufs c i))"
  have inj: "inj_on ?f {0..<NBUF}"
    using one used by (auto simp: inj_on_def one_copy_def word_unat_eq_iff)
  have fin: "finite (held_blks a \<union> pinned a)"
    by (rule finite_subset [of _ "{..<nblocks a}"]) (use refines_disk [OF assms(1)] in \<open>auto simp: store_inv_def\<close>)
  have "card (?f ` {0..<NBUF}) \<le> card (held_blks a \<union> pinned a)"
    by (rule card_mono [OF fin]) (use used in force)
  then show False using assms(2) card_image [OF inj] by simp
qed

lemma call_refines:
  assumes R: "refines c a" and p: "pointers_ok p c a" and s: "spec_call k a = Some a'" and n: "nblocks a \<le> 2 ^ 32"
  shows "\<exists>p' c'. impl_call pid k (p, c) = Some (p', c') \<and> refines c' a' \<and> pointers_ok p' c' a' \<and> nblocks a' = nblocks a"
proof (cases k)
  case (CRead m)
  then obtain d where op: "blk_read m a = Some (d, a')" and cd: "card (held_blks a \<union> pinned a) < NBUF"
    using s by (auto split: if_splits)
  have "m < 2 ^ 32" using op n by (auto simp: blk_read_def split: if_splits)
  from sim_read [OF R this room_from_card [OF R cd] op]
  obtain i c' where g: "bread pid ROOTDEV (of_nat m) c = Some (i, c')" "refines c' a'" "caches c' i m"
    "\<forall>j l. l \<in> held_blks a \<longrightarrow> caches c j l \<longrightarrow> caches c' j l" by blast
  then show ?thesis
    using CRead op p by (auto simp: pointers_ok_def blk_read_def split: if_splits)
next
  case (CGet m)
  then have op: "blk_get m a = Some a'" and cd: "card (held_blks a \<union> pinned a) < NBUF"
    using s by (auto split: if_splits)
  have "m < 2 ^ 32" using op n by (auto simp: blk_get_def split: if_splits)
  from sim_get [OF R this room_from_card [OF R cd] op]
  obtain i c' where g: "bget pid ROOTDEV (of_nat m) c = Some (i, c')" "refines c' a'" "caches c' i m"
    "\<forall>j l. l \<in> held_blks a \<longrightarrow> caches c j l \<longrightarrow> caches c' j l" by blast
  then show ?thesis
    using CGet op p by (auto simp: pointers_ok_def blk_get_def split: if_splits)
next
  case (CSet m d)
  then have op: "blk_set m d a = Some a'" using s by simp
  then have at: "caches c (p m) m" using p by (auto simp: pointers_ok_def blk_set_def split: if_splits)
  show ?thesis
    using CSet sim_set [OF R at op] op p by (auto simp: pointers_ok_def blk_set_def split: if_splits)
next
  case (CPin m)
  then have op: "blk_pin m a = Some a'" using s by simp
  then have at: "caches c (p m) m" using p by (auto simp: pointers_ok_def blk_pin_def split: if_splits)
  show ?thesis
    using CPin sim_pin [OF R at op] op p by (auto simp: pointers_ok_def blk_pin_def split: if_splits)
next
  case (CWrite m)
  then have op: "blk_write m a = Some a'" using s by simp
  then have at: "caches c (p m) m" using p by (auto simp: pointers_ok_def blk_write_def split: if_splits)
  show ?thesis
    using CWrite sim_write [OF R at op] op p by (auto simp: pointers_ok_def blk_write_def split: if_splits)
next
  case (CRelease m)
  then have op: "blk_release m a = Some a'" using s by simp
  then have at: "caches c (p m) m" using p by (auto simp: pointers_ok_def blk_release_def split: if_splits)
  show ?thesis
    using CRelease sim_release [OF R at op] op p by (auto simp: pointers_ok_def blk_release_def split: if_splits)
qed

lemma run_refines:
  assumes "refines c a" and "pointers_ok p c a" and "nblocks a \<le> 2 ^ 32" and "run spec_call ks a = Some a'"
  shows "\<exists>p' c'. run (impl_call pid) ks (p, c) = Some (p', c') \<and> refines c' a' \<and> pointers_ok p' c' a'"
  using assms
proof (induction ks arbitrary: p c a)
  case Nil
  then show ?case by auto
next
  case (Cons k ks)
  then obtain a1 where s: "spec_call k a = Some a1" "run spec_call ks a1 = Some a'"
    by (auto simp: bind_eq_Some)
  from call_refines [OF Cons.prems(1,2) s(1) Cons.prems(3), of pid]
  obtain p1 c1 where "impl_call pid k (p, c) = Some (p1, c1)" "refines c1 a1" "pointers_ok p1 c1 a1"
    "nblocks a1 = nblocks a" by blast
  then show ?case using Cons.IH [of c1 a1 p1] Cons.prems(3) s(2) by simp
qed

text \<open>The store a freshly booted cache implements.\<close>

definition store0 :: "nat \<Rightarrow> (nat \<Rightarrow> bytes) \<Rightarrow> bstore" where
  "store0 n img = \<lparr>disk = img, blk = img, held_blks = {}, pinned = {}, unread = {}, modified = {}, nblocks = n, issued = []\<rparr>"

lemma boot_refines: "refines (bio0 n img) (store0 n img)"
  using bio0_ring [of n img]
  by (auto simp: refines_def store0_def bio_ok_def one_copy_def slot_ok_def Let_def ROOTDEV_def store_inv_def caches_def)

text \<open>
  C12. The buffer cache implements the block store. Whatever sequence of \<open>bread\<close>, \<open>bget\<close>,
  changes, \<open>bwrite\<close>, pinning and \<open>brelse\<close> the store of a freshly booted machine allows, the
  pointer-level cache runs the same sequence without a panic and without sleeping for ever, and afterwards it
  still represents the store: the buffers that are held contain the store's current contents,
  and the disk is the store's disk.
\<close>

theorem cache_implements_store:
  assumes "n \<le> 2 ^ 32" and "run spec_call ks (store0 n img) = Some a"
  shows "\<exists>p c. run (impl_call pid) ks (p0, bio0 n img) = Some (p, c) \<and> memdisk c = disk a \<and>
    (\<forall>m \<in> held_blks a - unread a. b_data (bufs c (p m)) = blk a m)"
proof -
  have "pointers_ok p0 (bio0 n img) (store0 n img)" by (simp add: pointers_ok_def store0_def)
  from run_refines [OF boot_refines this _ assms(2), of pid] assms(1)
  obtain p c where g: "run (impl_call pid) ks (p0, bio0 n img) = Some (p, c)" and R: "refines c a"
    and p: "pointers_ok p c a" by (auto simp: store0_def)
  have "b_data (bufs c (p m)) = blk a m" if "m \<in> held_blks a - unread a" for m
    using refines_slot [OF R, of "p m" m] p that by (auto simp: pointers_ok_def slot_rel_def)
  then show ?thesis using g refines_disk [OF R] by auto
qed

lemma cache_implements_store_witness:
  "\<exists>p c. run (impl_call 1) [CRead 5, CSet 5 (\<lambda>_. 9), CWrite 5, CRelease 5, CRead 5]
     (\<lambda>_. 0, bio0 8 (\<lambda>_. zero_bytes)) = Some (p, c) \<and> b_data (bufs c (p 5)) 3 = 9 \<and> memdisk c 5 3 = 9"
proof -
  let ?ks = "[CRead 5, CSet 5 (\<lambda>_. 9), CWrite 5, CRelease 5, CRead 5]"
  have "run spec_call ?ks (store0 8 (\<lambda>_. zero_bytes)) = Some ((store0 8 (\<lambda>_. zero_bytes))
      \<lparr>disk := (\<lambda>_. zero_bytes)(5 := \<lambda>_. 9), blk := (\<lambda>_. zero_bytes)(5 := \<lambda>_. 9), held_blks := {5}, issued := [(5, \<lambda>_. 9)]\<rparr>)"
    by (simp add: store0_def blk_ops NBUF_def)
  from cache_implements_store [OF _ this, of 1 "\<lambda>_. 0"]
  obtain p c where g: "run (impl_call 1) ?ks (\<lambda>_. 0, bio0 8 (\<lambda>_. zero_bytes)) = Some (p, c)"
    "memdisk c = (\<lambda>_. zero_bytes)(5 := \<lambda>_. 9)" "b_data (bufs c (p 5)) = (\<lambda>_. 9)"
    by (auto simp: store0_def)
  show ?thesis by (rule exI [of _ p], rule exI [of _ c], intro conjI, rule g(1)) (simp_all add: g(2,3))
qed

end
