(* ===== verification/Log.thy ===== *)
theory Log
  imports Bstore
begin

text \<open>
  The write-ahead log (\<^verbatim>\<open>Part_B/log.c\<close>) on top of the block store. A transaction's blocks
  are changed in the cache and pinned; the commit copies them to the log area, writes the
  header, installs them at their home locations and erases the header. The state adds the
  fields of \<^verbatim>\<open>struct log\<close>; \<open>lh\<close> is the list of block numbers of the in-memory header.
\<close>

definition LOGSIZE :: nat where "LOGSIZE = 30"
definition MAXOPBLOCKS :: nat where "MAXOPBLOCKS = 10"
definition BSIZE :: nat where "BSIZE = 512"

record lstate = bstore +
  lg_start :: nat
  lg_size :: nat
  lg_outstanding :: int
  lg_committing :: bool
  lh :: "nat list"

record superblock =
  sb_size :: u32
  sb_nblocks :: u32
  sb_ninodes :: u32
  sb_nlog :: u32
  sb_logstart :: u32
  sb_inodestart :: u32
  sb_bmapstart :: u32

definition decode_sb :: "bytes \<Rightarrow> superblock" where
  "decode_sb b = \<lparr>sb_size = get32 b 0, sb_nblocks = get32 b 4, sb_ninodes = get32 b 8, sb_nlog = get32 b 12,
     sb_logstart = get32 b 16, sb_inodestart = get32 b 20, sb_bmapstart = get32 b 24\<rparr>"

definition readsb :: "('a) bstore_scheme \<Rightarrow> (superblock \<times> ('a) bstore_scheme) option" where
  "readsb s = do {
     (b, s1) \<leftarrow> blk_read 1 s;
     s2 \<leftarrow> blk_release 1 s1;
     Some (decode_sb b, s2)
   }"

section \<open>The header block\<close>

text \<open>
  \<open>read_head\<close> copies the count and that many block numbers. A count above \<open>LOGSIZE\<close> would
  overrun the array of \<^verbatim>\<open>struct logheader\<close> (\<open>None\<close>); a negative one copies nothing.
\<close>

definition head_count :: "bytes \<Rightarrow> int" where
  "head_count b = sint (get32 b 0)"

definition head_blocks :: "bytes \<Rightarrow> nat list" where
  "head_blocks b = map (\<lambda>i. unat (get32 b (4 + 4 * i))) [0..<nat (head_count b)]"

fun put_blocks :: "nat \<Rightarrow> nat list \<Rightarrow> bytes \<Rightarrow> bytes" where
  "put_blocks off [] b = b"
| "put_blocks off (n # ns) b = put_blocks (off + 4) ns (put32 b off (of_nat n))"

definition put_head :: "nat list \<Rightarrow> bytes \<Rightarrow> bytes" where
  "put_head l b = put_blocks 4 l (put32 b 0 (of_nat (length l)))"

definition read_head :: "('a) lstate_scheme \<Rightarrow> ('a) lstate_scheme option" where
  "read_head s = do {
     (b, s1) \<leftarrow> blk_read (lg_start s) s;
     if head_count b > int LOGSIZE then None
     else blk_release (lg_start s) (s1\<lparr>lh := head_blocks b\<rparr>)
   }"

definition write_head :: "('a) lstate_scheme \<Rightarrow> ('a) lstate_scheme option" where
  "write_head s = do {
     (b, s1) \<leftarrow> blk_read (lg_start s) s;
     s2 \<leftarrow> blk_set (lg_start s) (put_head (lh s) b) s1;
     s3 \<leftarrow> blk_write (lg_start s) s2;
     blk_release (lg_start s) s3
   }"

section \<open>Commit and recovery\<close>

text \<open>One round of the loops of \<open>install_trans\<close> and \<open>write_log\<close>.\<close>

definition install_one :: "nat \<Rightarrow> ('a) lstate_scheme \<Rightarrow> ('a) lstate_scheme option" where
  "install_one tail s = do {
     let lbuf = lg_start s + tail + 1;
     let dbuf = lh s ! tail;
     (d, s1) \<leftarrow> blk_read lbuf s;
     (_, s2) \<leftarrow> blk_read dbuf s1;
     s3 \<leftarrow> blk_set dbuf d s2;
     s4 \<leftarrow> blk_write dbuf s3;
     s5 \<leftarrow> blk_release lbuf s4;
     blk_release dbuf s5
   }"

definition install_trans :: "('a) lstate_scheme \<Rightarrow> ('a) lstate_scheme option" where
  "install_trans s = run install_one [0..<length (lh s)] s"

definition write_log_one :: "nat \<Rightarrow> ('a) lstate_scheme \<Rightarrow> ('a) lstate_scheme option" where
  "write_log_one tail s = do {
     let to = lg_start s + tail + 1;
     let from = lh s ! tail;
     (_, s1) \<leftarrow> blk_read to s;
     (d, s2) \<leftarrow> blk_read from s1;
     s3 \<leftarrow> blk_set to d s2;
     s4 \<leftarrow> blk_write to s3;
     s5 \<leftarrow> blk_release from s4;
     blk_release to s5
   }"

definition write_log :: "('a) lstate_scheme \<Rightarrow> ('a) lstate_scheme option" where
  "write_log s = run write_log_one [0..<length (lh s)] s"

definition commit :: "('a) lstate_scheme \<Rightarrow> ('a) lstate_scheme option" where
  "commit s =
     (if lh s \<noteq> [] then do {
        s1 \<leftarrow> write_log s;
        s2 \<leftarrow> write_head s1;
        s3 \<leftarrow> install_trans s2;
        write_head (s3\<lparr>lh := []\<rparr>)
      } else Some s)"

definition recover_from_log :: "('a) lstate_scheme \<Rightarrow> ('a) lstate_scheme option" where
  "recover_from_log s = do {
     s1 \<leftarrow> read_head s;
     s2 \<leftarrow> install_trans s1;
     write_head (s2\<lparr>lh := []\<rparr>)
   }"

definition initlog :: "('a) lstate_scheme \<Rightarrow> ('a) lstate_scheme option" where
  "initlog s = do {
     (sb, s1) \<leftarrow> readsb s;
     recover_from_log (s1\<lparr>lg_start := unat (sb_logstart sb), lg_size := unat (sb_nlog sb)\<rparr>)
   }"

section \<open>Operations of a file system call\<close>

text \<open>\<open>begin_op\<close> that has to sleep is \<open>None\<close>: the caller tries again after a wakeup.\<close>

definition begin_op :: "('a) lstate_scheme \<Rightarrow> ('a) lstate_scheme option" where
  "begin_op s =
     (if lg_committing s then None
      else if int (length (lh s)) + (lg_outstanding s + 1) * int MAXOPBLOCKS > int LOGSIZE then None
      else Some (s\<lparr>lg_outstanding := lg_outstanding s + 1\<rparr>))"

definition end_op :: "('a) lstate_scheme \<Rightarrow> ('a) lstate_scheme option" where
  "end_op s =
     (let s1 = s\<lparr>lg_outstanding := lg_outstanding s - 1\<rparr>
      in if lg_committing s1 then None
         else if lg_outstanding s1 = 0 then do {
           s2 \<leftarrow> commit (s1\<lparr>lg_committing := True\<rparr>);
           Some (s2\<lparr>lg_committing := False\<rparr>)
         } else Some s1)"

definition log_write :: "nat \<Rightarrow> ('a) lstate_scheme \<Rightarrow> ('a) lstate_scheme option" where
  "log_write n s =
     (if length (lh s) \<ge> LOGSIZE \<or> int (length (lh s)) \<ge> int (lg_size s) - 1 then None
      else if lg_outstanding s < 1 then None
      else blk_pin n (s\<lparr>lh := (if n \<in> set (lh s) then lh s else lh s @ [n])\<rparr>))"

section \<open>Sequences of disk writes\<close>

definition apply_writes :: "(nat \<times> bytes) list \<Rightarrow> (nat \<Rightarrow> bytes) \<Rightarrow> nat \<Rightarrow> bytes" where
  "apply_writes ws d = foldl (\<lambda>d (n, b). d(n := b)) d ws"

lemma apply_writes_simps [simp]:
  "apply_writes [] d = d" "apply_writes ((n, b) # ws) d = apply_writes ws (d(n := b))"
  "apply_writes (vs @ ws) d = apply_writes ws (apply_writes vs d)"
  by (simp_all add: apply_writes_def)

lemma apply_writes_notin: "n \<notin> fst ` set ws \<Longrightarrow> apply_writes ws d n = d n"
  by (induction ws arbitrary: d) auto

lemma apply_writes_in:
  "distinct (map fst ws) \<Longrightarrow> (n, b) \<in> set ws \<Longrightarrow> apply_writes ws d n = b"
proof (induction ws arbitrary: d)
  case (Cons w ws)
  obtain m c where w: "w = (m, c)" by (cases w)
  show ?case
  proof (cases "(n, b) \<in> set ws")
    case True
    then show ?thesis using Cons w by simp
  next
    case False
    then have "m = n" "c = b" "n \<notin> fst ` set ws" using Cons.prems w by auto
    then show ?thesis using w by (simp add: apply_writes_notin)
  qed
qed simp

text \<open>The state after the blocks \<open>ws\<close> have been written through the cache to the disk.\<close>

definition flush :: "(nat \<times> bytes) list \<Rightarrow> ('a) bstore_scheme \<Rightarrow> ('a) bstore_scheme" where
  "flush ws s = s\<lparr>disk := apply_writes ws (disk s), blk := apply_writes ws (blk s),
     issued := issued s @ ws, pinned := pinned s - fst ` set ws, modified := modified s - fst ` set ws\<rparr>"

lemma flush_simps [simp]:
  "disk (flush ws s) = apply_writes ws (disk s)" "blk (flush ws s) = apply_writes ws (blk s)"
  "issued (flush ws s) = issued s @ ws" "pinned (flush ws s) = pinned s - fst ` set ws"
  "modified (flush ws s) = modified s - fst ` set ws" "held_blks (flush ws s) = held_blks s"
  "unread (flush ws s) = unread s" "nblocks (flush ws s) = nblocks s"
  by (simp_all add: flush_def)

lemma flush_log_simps [simp]:
  fixes s :: "('a) lstate_scheme"
  shows "lg_start (flush ws s) = lg_start s" "lg_size (flush ws s) = lg_size s" "lh (flush ws s) = lh s"
    "lg_outstanding (flush ws s) = lg_outstanding s" "lg_committing (flush ws s) = lg_committing s"
  by (simp_all add: flush_def)

lemma flush_flush: "flush ws (flush vs s) = flush (vs @ ws) s"
  by (simp add: flush_def image_Un Diff_eq Int_assoc [symmetric])

lemma flush_Nil: "flush [] s = s"
  by (simp add: flush_def)

lemma held_idle: "held_blks s = {} \<Longrightarrow> s\<lparr>held_blks := {}\<rparr> = s"
  by (cases s) simp

lemma install_one_flush:
  assumes "held_blks s = {}" and "unread s = {}" and "lbuf = lg_start s + tail + 1" and "dbuf = lh s ! tail"
    and "lbuf < nblocks s" and "dbuf < nblocks s" and "lbuf \<noteq> dbuf" and "lbuf \<notin> modified s"
  shows "install_one tail s = Some (flush [(dbuf, blk s lbuf)] s)"
  using assms by (cases s) (auto simp: install_one_def blk_ops flush_def Let_def)

lemma write_log_one_flush:
  assumes "held_blks s = {}" and "unread s = {}" and "to = lg_start s + tail + 1" and "from = lh s ! tail"
    and "to < nblocks s" and "from < nblocks s" and "to \<noteq> from" and "from \<in> modified s \<longrightarrow> from \<in> pinned s" and "to \<notin> pinned s"
  shows "write_log_one tail s = Some (flush [(to, blk s from)] s)"
  using assms by (cases s) (simp add: write_log_one_def blk_ops flush_def Let_def)

lemma write_head_flush:
  assumes "held_blks s = {}" and "unread s = {}" and "lg_start s < nblocks s"
  shows "write_head s = Some (flush [(lg_start s, put_head (lh s) (blk s (lg_start s)))] s)"
  using assms by (cases s) (simp add: write_head_def blk_ops flush_def)

section \<open>What the loops write\<close>

text \<open>
  The log can hold the transaction: its data blocks exist, and no logged block lies in the
  log area.
\<close>

definition log_area :: "('a) lstate_scheme \<Rightarrow> nat set" where
  "log_area s = {lg_start s ..< lg_start s + lg_size s}"

definition log_fits :: "nat list \<Rightarrow> ('a) lstate_scheme \<Rightarrow> bool" where
  "log_fits l s \<longleftrightarrow> length l < lg_size s \<and> length l \<le> LOGSIZE \<and> lg_start s + lg_size s \<le> nblocks s \<and>
     (\<forall>n \<in> set l. n \<notin> log_area s \<and> n < nblocks s)"

definition log_writes :: "nat list \<Rightarrow> nat \<Rightarrow> (nat \<Rightarrow> bytes) \<Rightarrow> (nat \<times> bytes) list" where
  "log_writes l st d = map (\<lambda>i. (st + i + 1, d (l ! i))) [0..<length l]"

definition home_writes :: "nat list \<Rightarrow> nat \<Rightarrow> (nat \<Rightarrow> bytes) \<Rightarrow> (nat \<times> bytes) list" where
  "home_writes l st d = map (\<lambda>i. (l ! i, d (st + i + 1))) [0..<length l]"

lemma log_fits_at:
  assumes "log_fits l s" and "i < length l"
  shows "lg_start s + i + 1 < nblocks s" "l ! i < nblocks s" "l ! i \<notin> log_area s" "lg_start s + i + 1 \<in> log_area s"
    "lg_start s < nblocks s" "lg_start s \<in> log_area s"
  using assms nth_mem [OF assms(2)] by (auto simp: log_fits_def log_area_def)

lemma home_writes_fst: "fst ` set (home_writes l st d) = set l"
  by (auto simp: home_writes_def image_image in_set_conv_nth)

lemma log_writes_fst: "fst ` set (log_writes l st d) \<subseteq> {st + 1 ..< st + 1 + length l}"
  by (auto simp: log_writes_def)

lemma install_loop:
  assumes fits: "log_fits (lh s) s" and idle: "held_blks s = {}" "unread s = {}" "modified s \<inter> log_area s = {}"
    and k: "k \<le> length (lh s)"
  shows "run install_one [0..<k] s =
    Some (flush (map (\<lambda>i. (lh s ! i, blk s (lg_start s + i + 1))) [0..<k]) s)"
  using k
proof (induction k)
  case 0
  then show ?case by (simp add: flush_Nil)
next
  case (Suc k)
  let ?W = "map (\<lambda>i. (lh s ! i, blk s (lg_start s + i + 1))) [0..<k]"
  have k: "k < length (lh s)" using Suc.prems by simp
  note f = log_fits_at [OF fits k]
  have notin: "lg_start s + k + 1 \<notin> fst ` set ?W"
    using log_fits_at(3) [OF fits] Suc.prems f(4) by (auto simp: less_le_trans)
  have "install_one k (flush ?W s) =
      Some (flush [(lh s ! k, blk (flush ?W s) (lg_start s + k + 1))] (flush ?W s))"
    by (rule install_one_flush) (use f idle in \<open>auto simp: less_le_trans\<close>)
  then show ?case
    using Suc by (simp add: run_append flush_flush apply_writes_notin [OF notin, simplified])
qed

lemma write_log_loop:
  assumes fits: "log_fits (lh s) s" and idle: "held_blks s = {}" "unread s = {}"
    and pins: "modified s \<subseteq> pinned s" "pinned s \<inter> log_area s = {}" and k: "k \<le> length (lh s)"
  shows "run write_log_one [0..<k] s =
    Some (flush (map (\<lambda>i. (lg_start s + i + 1, blk s (lh s ! i))) [0..<k]) s)"
  using k
proof (induction k)
  case 0
  then show ?case by (simp add: flush_Nil)
next
  case (Suc k)
  let ?W = "map (\<lambda>i. (lg_start s + i + 1, blk s (lh s ! i))) [0..<k]"
  have k: "k < length (lh s)" using Suc.prems by simp
  note f = log_fits_at [OF fits k]
  have "fst ` set ?W \<subseteq> log_area s" using log_fits_at(4) [OF fits] k by auto
  then have notin: "lh s ! k \<notin> fst ` set ?W" using f(3) by blast
  have "write_log_one k (flush ?W s) =
      Some (flush [(lg_start s + k + 1, blk (flush ?W s) (lh s ! k))] (flush ?W s))"
    by (rule write_log_one_flush) (use f idle pins k notin in \<open>auto dest: nth_mem\<close>)
  then show ?case
    using Suc by (simp add: run_append flush_flush apply_writes_notin [OF notin, simplified])
qed

lemma install_trans_flush:
  assumes "log_fits (lh s) s" and "held_blks s = {}" "unread s = {}" "modified s \<inter> log_area s = {}"
  shows "install_trans s = Some (flush (home_writes (lh s) (lg_start s) (blk s)) s)"
  using install_loop [OF assms le_refl] by (simp add: install_trans_def home_writes_def)

lemma write_log_flush:
  assumes "log_fits (lh s) s" and "held_blks s = {}" "unread s = {}"
    and "modified s \<subseteq> pinned s" "pinned s \<inter> log_area s = {}"
  shows "write_log s = Some (flush (log_writes (lh s) (lg_start s) (blk s)) s)"
  using write_log_loop [OF assms le_refl] by (simp add: write_log_def log_writes_def)

text \<open>The state in which \<open>end_op\<close> commits: every changed block is pinned and logged, nothing is held.\<close>

definition log_ok :: "('a) lstate_scheme \<Rightarrow> bool" where
  "log_ok s \<longleftrightarrow> store_inv s \<and> held_blks s = {} \<and> distinct (lh s) \<and> log_fits (lh s) s \<and> pinned s \<subseteq> set (lh s) \<and>
     head_count (disk s (lg_start s)) = 0"

text \<open>All the disk writes of a commit, in order.\<close>

definition commit_writes :: "nat list \<Rightarrow> nat \<Rightarrow> (nat \<Rightarrow> bytes) \<Rightarrow> (nat \<times> bytes) list" where
  "commit_writes l st d = log_writes l st d @ [(st, put_head l (d st))] @ map (\<lambda>n. (n, d n)) l
     @ [(st, put_head [] (put_head l (d st)))]"

lemma log_okD:
  assumes "log_ok s"
  shows "held_blks s = {}" "unread s = {}" "log_fits (lh s) s" "pinned s \<subseteq> set (lh s)" "distinct (lh s)"
    "modified s \<subseteq> pinned s" "pinned s \<inter> log_area s = {}" "\<And>n. n \<notin> set (lh s) \<Longrightarrow> blk s n = disk s n"
    "store_inv s"
proof -
  have i: "store_inv s" and e: "held_blks s = {}" and l: "pinned s \<subseteq> set (lh s)" and f: "log_fits (lh s) s"
    using assms by (simp_all add: log_ok_def)
  show "held_blks s = {}" "log_fits (lh s) s" "pinned s \<subseteq> set (lh s)" "distinct (lh s)" "store_inv s"
    using assms by (simp_all add: log_ok_def)
  show "unread s = {}" using i e by (simp add: store_inv_def)
  show m: "modified s \<subseteq> pinned s" using i e by (simp add: store_inv_def)
  show "pinned s \<inter> log_area s = {}" using f l by (auto simp: log_fits_def)
  show "blk s n = disk s n" if "n \<notin> set (lh s)" for n
    using i m l that unfolding store_inv_def by blast
qed

lemma commit_exec:
  assumes ok: "log_ok s" and ne: "lh s \<noteq> []"
  shows "commit s = Some ((flush (commit_writes (lh s) (lg_start s) (blk s)) s)\<lparr>lh := []\<rparr>)"
proof -
  note D = log_okD [OF ok]
  let ?l = "lh s" and ?st = "lg_start s"
  let ?W1 = "log_writes ?l ?st (blk s)"
  let ?h = "put_head ?l (blk s ?st)"
  let ?s2 = "flush (?W1 @ [(?st, ?h)]) s"
  have len: "0 < length ?l" using ne by simp
  note f0 = log_fits_at [OF D(3) len]
  have st1: "?st \<notin> fst ` set ?W1" using log_writes_fst [of ?l ?st "blk s"] by auto
  have w1: "write_log s = Some (flush ?W1 s)"
    by (rule write_log_flush [OF D(3,1,2)]) (use D in auto)
  have w2: "write_head (flush ?W1 s) = Some ?s2"
    using D f0 by (subst write_head_flush) (simp_all add: apply_writes_notin [OF st1] flush_flush)
  have "log_fits (lh ?s2) ?s2" using D(3) by (simp add: log_fits_def log_area_def)
  moreover have "modified ?s2 \<inter> log_area ?s2 = {}" using D(4,6,7) by (auto simp: log_area_def)
  ultimately have w3: "install_trans ?s2 = Some (flush (home_writes ?l ?st (blk ?s2)) ?s2)"
    using D(1,2) by (subst install_trans_flush) simp_all
  have hw: "home_writes ?l ?st (blk ?s2) = map (\<lambda>n. (n, blk s n)) ?l"
  proof (rule nth_equalityI)
    fix i
    assume "i < length (home_writes ?l ?st (blk ?s2))"
    then have i: "i < length ?l" by (simp add: home_writes_def)
    have "apply_writes ?W1 (blk s) (?st + i + 1) = blk s (?l ! i)"
      by (rule apply_writes_in) (use i in \<open>auto simp: log_writes_def distinct_map inj_on_def comp_def\<close>)
    then show "home_writes ?l ?st (blk ?s2) ! i = map (\<lambda>n. (n, blk s n)) ?l ! i"
      using i by (simp add: home_writes_def)
  qed (simp add: home_writes_def)
  have stl: "?st \<notin> set ?l" using D(3) f0(6) by (auto simp: log_fits_def)
  let ?s3 = "flush (map (\<lambda>n. (n, blk s n)) ?l) ?s2"
  have w4: "write_head (?s3\<lparr>lh := []\<rparr>) = Some (flush [(?st, put_head [] ?h)] (?s3\<lparr>lh := []\<rparr>))"
    using D f0 stl
    by (subst write_head_flush) (simp_all add: apply_writes_notin image_image)
  have "flush [(?st, put_head [] ?h)] (?s3\<lparr>lh := []\<rparr>) = (flush [(?st, put_head [] ?h)] ?s3)\<lparr>lh := []\<rparr>"
    by (simp add: flush_def)
  then show ?thesis
    using ne w1 w2 w3 w4 by (simp add: commit_def hw [simplified] commit_writes_def flush_flush)
qed

section \<open>The header survives the disk\<close>

lemma put_blocks_below: "k + 4 \<le> off \<Longrightarrow> get32 (put_blocks off l b) k = get32 b k"
  by (induction l arbitrary: off b) (simp_all add: get32_put32_other)

lemma put_blocks_at: "i < length l \<Longrightarrow> get32 (put_blocks off l b) (off + 4 * i) = of_nat (l ! i)"
proof (induction l arbitrary: off b i)
  case (Cons n l)
  then show ?case
  proof (cases i)
    case 0
    then show ?thesis by (simp add: put_blocks_below)
  next
    case (Suc j)
    then show ?thesis using Cons.IH [of j "off + 4"] Cons.prems by (simp add: algebra_simps)
  qed
qed simp

lemma head_count_put:
  assumes "length l \<le> LOGSIZE"
  shows "head_count (put_head l b) = int (length l)"
proof -
  have "(2 :: int) ^ 31 = 2147483648" by simp
  then have "sint (of_nat (length l) :: u32) = int (length l)"
    using assms by (simp add: LOGSIZE_def signed_of_nat signed_take_bit_int_eq_self)
  then show ?thesis by (simp add: head_count_def put_head_def put_blocks_below)
qed

lemma head_blocks_put:
  assumes "length l \<le> LOGSIZE" and "\<forall>n \<in> set l. n < 2 ^ 32"
  shows "head_blocks (put_head l b) = l"
proof (rule nth_equalityI)
  show len: "length (head_blocks (put_head l b)) = length l"
    using head_count_put [OF assms(1)] by (simp add: head_blocks_def)
  fix i
  assume "i < length (head_blocks (put_head l b))"
  then have i: "i < length l" using len by simp
  then have "l ! i < 2 ^ 32" using assms(2) by simp
  then show "head_blocks (put_head l b) ! i = l ! i"
    using i head_count_put [OF assms(1)]
    by (simp add: head_blocks_def put_head_def put_blocks_at unat_of_nat take_bit_nat_eq_self)
qed

lemma head_count_empty: "head_count (put_head [] b) = 0"
  using head_count_put [of "[]" b] by (simp add: LOGSIZE_def)

lemma head_blocks_empty: "head_count b = 0 \<Longrightarrow> head_blocks b = []"
  by (simp add: head_blocks_def)

lemma put32_idem: "put32 (put32 b i v) i w = put32 b i w"
  by (rule ext) (simp add: put32_def)

lemma put_head_empty_idem: "put_head [] (put_head [] b) = put_head [] b"
  by (simp add: put_head_def put32_idem)

section \<open>Crash and recovery\<close>

text \<open>The machine rebooted with the disk \<open>d\<close>: everything in memory is gone.\<close>

definition crash :: "('a) lstate_scheme \<Rightarrow> (nat \<Rightarrow> bytes) \<Rightarrow> ('a) lstate_scheme" where
  "crash s d = s\<lparr>disk := d, blk := d, held_blks := {}, pinned := {}, unread := {}, modified := {}, issued := [],
     lg_start := 0, lg_size := 0, lg_outstanding := 0, lg_committing := False, lh := []\<rparr>"

text \<open>The superblock describes the log, and lies neither in the log nor in the given set of blocks.\<close>

definition sb_ok :: "(nat \<Rightarrow> bytes) \<Rightarrow> nat set \<Rightarrow> ('a) lstate_scheme \<Rightarrow> bool" where
  "sb_ok d ns s \<longleftrightarrow> 1 < nblocks s \<and> 1 \<notin> log_area s \<and> 1 \<notin> ns \<and> unat (sb_logstart (decode_sb (d 1))) = lg_start s \<and>
     unat (sb_nlog (decode_sb (d 1))) = lg_size s"

definition recover_writes :: "nat \<Rightarrow> (nat \<Rightarrow> bytes) \<Rightarrow> (nat \<times> bytes) list" where
  "recover_writes st d = home_writes (head_blocks (d st)) st d @ [(st, put_head [] (d st))]"

lemma recover_exec:
  assumes "sb_ok d {} s" and "log_fits (head_blocks (d (lg_start s))) s" and "head_count (d (lg_start s)) \<le> int LOGSIZE"
  shows "\<exists>r. initlog (crash s d) = Some r \<and> disk r = apply_writes (recover_writes (lg_start s) d) d \<and>
    issued r = recover_writes (lg_start s) d \<and> lh r = [] \<and> blk r = disk r"
proof -
  let ?st = "lg_start s" and ?L = "head_blocks (d (lg_start s))"
  define c where "c = (crash s d)\<lparr>lg_start := ?st, lg_size := lg_size s\<rparr>"
  define c1 where "c1 = c\<lparr>lh := ?L\<rparr>"
  have st: "?st < nblocks s" "?st \<in> log_area s" using assms(2) by (auto simp: log_fits_def log_area_def)
  have i: "initlog (crash s d) = recover_from_log c"
    using assms(1) by (cases s) (simp add: initlog_def readsb_def blk_ops crash_def sb_ok_def c_def)
  have h: "read_head c = Some c1"
    using st assms(3) by (simp add: read_head_def c_def c1_def crash_def blk_ops)
  have t: "install_trans c1 = Some (flush (home_writes ?L ?st d) c1)"
    using assms(2) by (subst install_trans_flush) (simp_all add: c_def c1_def crash_def log_fits_def log_area_def)
  have stn: "?st \<notin> fst ` set (home_writes ?L ?st d)"
    using st(2) assms(2) by (auto simp: home_writes_fst log_fits_def)
  have w: "write_head ((flush (home_writes ?L ?st d) c1)\<lparr>lh := []\<rparr>) =
      Some (flush [(?st, put_head [] (d ?st))] ((flush (home_writes ?L ?st d) c1)\<lparr>lh := []\<rparr>))"
    using st by (subst write_head_flush) (simp_all add: c_def c1_def crash_def apply_writes_notin [OF stn])
  have "initlog (crash s d) = Some (flush [(?st, put_head [] (d ?st))] ((flush (home_writes ?L ?st d) c1)\<lparr>lh := []\<rparr>))"
    by (simp add: i recover_from_log_def h t w)
  then show ?thesis
    by (simp add: recover_writes_def c_def c1_def crash_def flush_def)
qed

lemma apply_writes_cong: "n \<in> fst ` set ws \<Longrightarrow> apply_writes ws d n = apply_writes ws e n"
proof (induction ws arbitrary: d e)
  case (Cons w ws)
  obtain m b where w: "w = (m, b)" by (cases w)
  show ?case
  proof (cases "n \<in> fst ` set ws")
    case True
    then show ?thesis using Cons.IH by (simp add: w)
  next
    case False
    then show ?thesis using Cons.prems by (simp add: w apply_writes_notin)
  qed
qed simp

lemma apply_writes_again: "set vs \<subseteq> set ws \<Longrightarrow> apply_writes ws (apply_writes vs d) = apply_writes ws d"
proof (rule ext)
  fix n
  assume sub: "set vs \<subseteq> set ws"
  show "apply_writes ws (apply_writes vs d) n = apply_writes ws d n"
  proof (cases "n \<in> fst ` set ws")
    case True
    then show ?thesis by (rule apply_writes_cong)
  next
    case False
    moreover have "n \<notin> fst ` set vs" using False sub by auto
    ultimately show ?thesis by (simp add: apply_writes_notin)
  qed
qed

section \<open>What the log guarantees\<close>

text \<open>
  C13. Crash atomicity of a commit. Let a transaction be ready to commit (every changed block
  logged and pinned, the header on disk empty, the log large enough). The commit succeeds,
  and if the machine crashes after any number \<open>k\<close> of its disk writes and reboots, recovery
  succeeds and leaves either all of the old blocks or all of the new ones: the old ones up to
  the last log block, the new ones from the header write on.
\<close>

theorem commit_crash_atomic:
  assumes ok: "log_ok s" and sb: "sb_ok (disk s) (set (lh s)) s" and ne: "lh s \<noteq> []" and nb: "nblocks s \<le> 2 ^ 32"
  shows "\<exists>s' ws. commit s = Some s' \<and> issued s' = issued s @ ws \<and>
    (\<forall>n. n \<notin> log_area s \<longrightarrow> disk s' n = blk s n) \<and>
    (\<forall>k. \<exists>r. initlog (crash s (apply_writes (take k ws) (disk s))) = Some r \<and>
       (\<forall>n. n \<notin> log_area s \<longrightarrow> disk r n = (if k \<le> length (lh s) then disk s n else blk s n)))"
proof -
  note D = log_okD [OF ok]
  define l st W1 h H h0 where "l = lh s" and "st = lg_start s" and "W1 = log_writes l st (blk s)"
    and "h = put_head l (blk s st)" and "H = map (\<lambda>n. (n, blk s n)) l" and "h0 = put_head [] h"
  define ws where "ws = W1 @ [(st, h)] @ H @ [(st, h0)]"
  have fits: "log_fits l s" using D(3) by (simp add: l_def)
  have st: "st \<in> log_area s" "st < nblocks s" and stl: "st \<notin> set l"
    using fits by (auto simp: log_fits_def log_area_def st_def)
  have W1: "fst ` set W1 \<subseteq> log_area s - {st}" "length W1 = length l"
    using log_writes_fst [of l st "blk s"] fits by (auto simp: log_fits_def log_area_def st_def W1_def log_writes_def)
  have Hset: "fst ` set H = set l" by (auto simp: H_def image_image)
  have Hd: "apply_writes H e n = (if n \<in> set l then blk s n else e n)" for e n
  proof (cases "n \<in> set l")
    case True
    then show ?thesis
      using apply_writes_in [of H n "blk s n"] D(5) by (simp add: H_def comp_def l_def)
  qed (simp add: apply_writes_notin Hset)
  have "\<forall>n \<in> set l. n < 2 ^ 32" and len: "length l \<le> LOGSIZE"
    using fits nb unfolding log_fits_def by (meson less_le_trans, simp)
  then have head: "head_blocks h = l" "head_count h = int (length l)"
    unfolding h_def by (intro head_blocks_put head_count_put; simp)+
  have out: "n \<notin> log_area s \<Longrightarrow> apply_writes (take i W1) e n = e n" for n i e
    by (rule apply_writes_notin) (use W1(1) set_take_subset in fastforce)
  have sbd: "sb_ok e {} s" if "e 1 = disk s 1" for e
    using sb that by (simp add: sb_ok_def)
  have one: "1 \<notin> log_area s" "1 \<notin> set l" using sb by (simp_all add: sb_ok_def l_def)
  have rec: "\<exists>r. initlog (crash s e) = Some r \<and> (\<forall>n. n \<notin> log_area s \<longrightarrow> disk r n = g n)"
    if e1: "e 1 = disk s 1"
      and e: "head_blocks (e st) = [] \<and> head_count (e st) \<le> int LOGSIZE \<and> (\<forall>n. n \<notin> log_area s \<longrightarrow> e n = g n) \<or>
        e st = h \<and> (\<forall>i < length l. e (st + i + 1) = blk s (l ! i)) \<and>
          (\<forall>n. n \<notin> log_area s \<longrightarrow> g n = blk s n \<and> (n \<notin> set l \<longrightarrow> e n = blk s n))" for e g
    using e
  proof (elim disjE conjE)
    assume a: "head_blocks (e st) = []" "head_count (e st) \<le> int LOGSIZE" "\<forall>n. n \<notin> log_area s \<longrightarrow> e n = g n"
    have "log_fits [] s" using fits by (simp add: log_fits_def)
    then obtain r where "initlog (crash s e) = Some r" "disk r = apply_writes (recover_writes st e) e"
      using recover_exec [OF sbd [of e, OF e1]] a by (auto simp: st_def)
    then show ?thesis using a st(1) by (intro exI [of _ r]) (auto simp: recover_writes_def home_writes_def)
  next
    assume a: "e st = h" "\<forall>i < length l. e (st + i + 1) = blk s (l ! i)"
      "\<forall>n. n \<notin> log_area s \<longrightarrow> g n = blk s n \<and> (n \<notin> set l \<longrightarrow> e n = blk s n)"
    obtain r where r: "initlog (crash s e) = Some r" "disk r = apply_writes (recover_writes st e) e"
      using recover_exec [OF sbd [of e, OF e1]] a(1) head fits by (auto simp: st_def log_fits_def)
    have "home_writes l st e = H"
      by (rule nth_equalityI) (use a(2) in \<open>simp_all add: home_writes_def H_def\<close>)
    then have "disk r n = g n" if "n \<notin> log_area s" for n
      using that a st(1) head by (auto simp: r(2) recover_writes_def Hd)
    with r(1) show ?thesis by blast
  qed
  have dsk: "n \<notin> set l \<Longrightarrow> blk s n = disk s n" for n using D(8) by (simp add: l_def)
  have c: "commit s = Some ((flush ws s)\<lparr>lh := []\<rparr>)"
    using commit_exec [OF ok ne] by (simp add: commit_writes_def ws_def W1_def H_def h_def h0_def l_def st_def)
  have full1: "apply_writes W1 (disk s) n = disk s n" if "n \<notin> log_area s" for n
    using out [OF that, of "length W1"] by simp
  have logd: "apply_writes W1 (disk s) (st + i + 1) = blk s (l ! i)" if "i < length l" for i
    by (rule apply_writes_in) (use that in \<open>auto simp: W1_def log_writes_def distinct_map inj_on_def comp_def\<close>)
  have crash: "\<exists>r. initlog (crash s (apply_writes (take k ws) (disk s))) = Some r \<and>
       (\<forall>n. n \<notin> log_area s \<longrightarrow> disk r n = (if k \<le> length l then disk s n else blk s n))" for k
  proof -
    let ?m = "length l"
    consider (a) "k \<le> ?m" | (b) "?m < k" "k \<le> ?m + 1 + ?m" | (c) "?m + 1 + ?m < k" by linarith
    then show ?thesis
    proof cases
      case a
      then have t: "take k ws = take k W1" using W1(2) by (simp add: ws_def)
      have "st \<notin> fst ` set (take k W1)" using W1(1) set_take_subset [of k W1] by fastforce
      then have "apply_writes (take k W1) (disk s) st = disk s st" by (rule apply_writes_notin)
      then show ?thesis
        unfolding t using a ok out one
        by (intro rec) (simp_all add: log_ok_def head_blocks_empty st_def)
    next
      case b
      define j where "j = k - ?m - 1"
      have k: "k = Suc (?m + j)" "j \<le> ?m" using b by (simp_all add: j_def)
      have t: "take k ws = W1 @ [(st, h)] @ take j H"
        using k W1(2) by (simp add: ws_def H_def)
      have tj: "fst ` set (take j H) \<subseteq> set l" using Hset set_take_subset [of j H] by auto
      let ?e = "apply_writes (take k ws) (disk s)"
      have e: "?e n = (if n = st then h else apply_writes W1 (disk s) n)" if "n \<notin> set l" for n
      proof -
        have "n \<notin> fst ` set (take j H)" using tj that by blast
        then have "?e n = apply_writes (W1 @ [(st, h)]) (disk s) n"
          unfolding t append_assoc [symmetric] apply_writes_simps(3) [of "W1 @ [(st, h)]"]
          by (rule apply_writes_notin)
        then show ?thesis by simp
      qed
      have area: "st + i + 1 \<in> log_area s \<and> st + i + 1 \<notin> set l" if "i < ?m" for i
        using log_fits_at(4) [OF fits that] fits unfolding st_def by (auto simp: log_fits_def)
      have "\<forall>n. n \<notin> log_area s \<longrightarrow> n \<notin> set l \<longrightarrow> ?e n = blk s n"
        using e full1 dsk st(1) by auto
      then show ?thesis
        using b e [OF stl] e [OF one(2)] full1 [OF one(1)] e [OF area [THEN conjunct2]] logd one st(1)
        by (intro rec) auto
    next
      case c
      then have t: "take k ws = ws" using W1(2) by (simp add: ws_def H_def)
      show ?thesis
        unfolding t using c full1 one dsk st(1)
        by (intro rec) (auto simp: ws_def Hd h0_def head_blocks_empty head_count_empty LOGSIZE_def)
    qed
  qed
  show ?thesis
  proof (intro exI conjI)
    show "commit s = Some ((flush ws s)\<lparr>lh := []\<rparr>)" by (rule c)
    show "issued ((flush ws s)\<lparr>lh := []\<rparr>) = issued s @ ws" by simp
    show "\<forall>n. n \<notin> log_area s \<longrightarrow> disk ((flush ws s)\<lparr>lh := []\<rparr>) n = blk s n"
      using full1 dsk st(1) by (auto simp: ws_def Hd)
    show "\<forall>k. \<exists>r. initlog (crash s (apply_writes (take k ws) (disk s))) = Some r \<and>
       (\<forall>n. n \<notin> log_area s \<longrightarrow> disk r n = (if k \<le> length (lh s) then disk s n else blk s n))"
      using crash by (simp add: l_def)
  qed
qed

text \<open>A machine with 100 blocks, its log in blocks 2 to 32, and one changed block 50.\<close>

definition demo_sb :: bytes where
  "demo_sb = put32 (put32 zero_bytes 12 31) 16 2"

definition demo_log :: lstate where
  "demo_log = \<lparr>disk = (\<lambda>_. zero_bytes)(1 := demo_sb), blk = (\<lambda>_. zero_bytes)(1 := demo_sb, 50 := \<lambda>_. 7),
     held_blks = {}, pinned = {50}, unread = {}, modified = {50}, nblocks = 100, issued = [],
     lg_start = 2, lg_size = 31, lg_outstanding = 0, lg_committing = False, lh = [50]\<rparr>"

lemma demo_sb_decode: "sb_nlog (decode_sb demo_sb) = 31" "sb_logstart (decode_sb demo_sb) = 2"
  by (simp_all add: decode_sb_def demo_sb_def byte_simps)

lemma demo_log_ok: "log_ok demo_log" "sb_ok (disk demo_log) (set (lh demo_log)) demo_log"
  by (auto simp: log_ok_def demo_log_def store_inv_def log_fits_def log_area_def LOGSIZE_def head_count_def
      sb_ok_def demo_sb_decode)

lemma commit_crash_atomic_witness:
  "\<exists>s' r. commit demo_log = Some s' \<and> disk s' 50 = (\<lambda>_. 7) \<and>
     initlog (crash demo_log (disk demo_log)) = Some r \<and> disk r 50 = zero_bytes"
proof -
  obtain s' ws where c: "commit demo_log = Some s'" "\<forall>n. n \<notin> log_area demo_log \<longrightarrow> disk s' n = blk demo_log n"
    and k: "\<forall>k. \<exists>r. initlog (crash demo_log (apply_writes (take k ws) (disk demo_log))) = Some r \<and>
       (\<forall>n. n \<notin> log_area demo_log \<longrightarrow> disk r n = (if k \<le> length (lh demo_log) then disk demo_log n else blk demo_log n))"
    using commit_crash_atomic [OF demo_log_ok] by (auto simp: demo_log_def)
  obtain r where r: "initlog (crash demo_log (disk demo_log)) = Some r"
    "\<forall>n. n \<notin> log_area demo_log \<longrightarrow> disk r n = disk demo_log n"
    using k [THEN spec, of 0] by auto
  have "50 \<notin> log_area demo_log" by (simp add: log_area_def demo_log_def)
  with c r show ?thesis by (auto simp: demo_log_def)
qed

text \<open>
  C14. Recovery may itself be interrupted. Whatever committed or empty transaction the disk
  holds, if the machine crashes after any number of the writes of recovery and recovers
  again, the disk ends up exactly as after an undisturbed recovery.
\<close>

theorem recovery_idempotent:
  assumes sb: "sb_ok d (set (head_blocks (d (lg_start s)))) s" and fits: "log_fits (head_blocks (d (lg_start s))) s"
    and cnt: "head_count (d (lg_start s)) \<le> int LOGSIZE"
  shows "\<exists>r. initlog (crash s d) = Some r \<and>
    (\<forall>j. \<exists>r'. initlog (crash s (apply_writes (take j (issued r)) d)) = Some r' \<and> disk r' = disk r)"
proof -
  let ?st = "lg_start s"
  define L H where "L = head_blocks (d ?st)" and "H = home_writes L ?st d"
  have st: "?st \<in> log_area s" "?st \<notin> set L" using fits by (auto simp: log_fits_def log_area_def L_def)
  have Hs: "fst ` set H = set L" by (simp add: H_def home_writes_fst)
  have sbd: "sb_ok e {} s" if "e 1 = d 1" for e using sb that by (simp add: sb_ok_def)
  have one: "1 \<notin> set L" "1 \<noteq> ?st" using sb st(1) by (auto simp: sb_ok_def L_def)
  obtain r where r: "initlog (crash s d) = Some r" "disk r = apply_writes (H @ [(?st, put_head [] (d ?st))]) d"
    "issued r = H @ [(?st, put_head [] (d ?st))]"
    using recover_exec [OF sbd [of d, OF refl] fits cnt] by (auto simp: recover_writes_def H_def L_def)
  have "\<exists>r'. initlog (crash s (apply_writes (take j (issued r)) d)) = Some r' \<and> disk r' = disk r" for j
  proof (cases "j \<le> length H")
    case True
    then have t: "take j (issued r) = take j H" by (simp add: r(3))
    let ?e = "apply_writes (take j H) d"
    have tj: "fst ` set (take j H) \<subseteq> set L" using Hs set_take_subset [of j H] by auto
    have e: "?e n = d n" if "n \<notin> set L" for n
      by (rule apply_writes_notin) (use tj that in blast)
    have est: "?e ?st = d ?st" by (rule e [OF st(2)])
    have area: "?st + i + 1 \<notin> set L" if "i < length L" for i
      using log_fits_at(4) [OF fits] that fits by (auto simp: L_def log_fits_def)
    have "home_writes L ?st f = home_writes L ?st d" if "\<And>i. i < length L \<Longrightarrow> f (?st + i + 1) = d (?st + i + 1)" for f
      by (rule nth_equalityI) (use that in \<open>simp_all add: home_writes_def\<close>)
    from this [of ?e, OF e [OF area]] have hw: "home_writes L ?st ?e = H" by (simp add: H_def)
    obtain r' where r': "initlog (crash s ?e) = Some r'" "disk r' = apply_writes (recover_writes ?st ?e) ?e"
      using recover_exec [OF sbd [of ?e, OF e [OF one(1)]]] fits cnt est by auto
    have "disk r' = apply_writes [(?st, put_head [] (d ?st))] (apply_writes H ?e)"
      using hw est by (simp add: r'(2) recover_writes_def L_def)
    also have "apply_writes H ?e = apply_writes H d" by (rule apply_writes_again [OF set_take_subset])
    finally show ?thesis using r' t by (simp add: r(2) fun_upd_def)
  next
    case False
    then have t: "apply_writes (take j (issued r)) d = disk r" by (simp add: r(2,3))
    have rst: "disk r ?st = put_head [] (d ?st)" by (simp add: r(2))
    have "disk r 1 = d 1" using one by (simp add: r(2) apply_writes_notin Hs)
    then obtain r' where r': "initlog (crash s (disk r)) = Some r'" "disk r' = apply_writes (recover_writes ?st (disk r)) (disk r)"
      using recover_exec [OF sbd [of "disk r"]] fits rst
      by (auto simp: head_count_empty head_blocks_empty log_fits_def LOGSIZE_def)
    have "disk r' = disk r"
      using rst by (simp add: r'(2) recover_writes_def head_count_empty head_blocks_empty home_writes_def put_head_empty_idem fun_upd_idem)
    with r' t show ?thesis by simp
  qed
  with r(1) show ?thesis by blast
qed

text \<open>A disk with one committed block that has not been installed.\<close>

definition demo_committed :: "nat \<Rightarrow> bytes" where
  "demo_committed = (\<lambda>_. zero_bytes)(1 := demo_sb, 2 := put_head [50] zero_bytes, 3 := \<lambda>_. 7)"

lemma recovery_idempotent_witness:
  "\<exists>r r'. initlog (crash demo_log demo_committed) = Some r \<and>
     initlog (crash demo_log (apply_writes (take 1 (issued r)) demo_committed)) = Some r' \<and> disk r' = disk r"
proof -
  have "head_blocks (demo_committed 2) = [50]" "head_count (demo_committed 2) = 1" "lg_start demo_log = 2"
    using head_blocks_put [of "[50]"] head_count_put [of "[50]"]
    by (simp_all add: demo_committed_def LOGSIZE_def demo_log_def)
  then have "\<exists>r. initlog (crash demo_log demo_committed) = Some r \<and>
    (\<forall>j. \<exists>r'. initlog (crash demo_log (apply_writes (take j (issued r)) demo_committed)) = Some r' \<and> disk r' = disk r)"
    by (intro recovery_idempotent)
       (auto simp: sb_ok_def demo_log_def log_area_def log_fits_def LOGSIZE_def demo_committed_def demo_sb_decode)
  then show ?thesis by blast
qed

section \<open>Log space\<close>

text \<open>
  File system calls running side by side. Each call that \<open>begin_op\<close> has admitted carries the
  number of further blocks it may log, \<open>per\<close> at first; a write that the log absorbs costs nothing. Between
  log calls the store may change in any way that leaves the log's own fields alone.
\<close>

inductive op_step :: "nat \<Rightarrow> lstate \<times> nat list \<Rightarrow> lstate \<times> nat list \<Rightarrow> bool" for per where
  admit: "begin_op s = Some s' \<Longrightarrow> op_step per (s, bs) (s', per # bs)"
| logw: "i < length bs \<Longrightarrow> n \<notin> set (lh s) \<Longrightarrow> 0 < bs ! i \<Longrightarrow> log_write n s = Some s' \<Longrightarrow>
     op_step per (s, bs) (s', bs[i := bs ! i - 1])"
| absorb: "n \<in> set (lh s) \<Longrightarrow> log_write n s = Some s' \<Longrightarrow> op_step per (s, bs) (s', bs)"
| other: "lh s' = lh s \<Longrightarrow> lg_outstanding s' = lg_outstanding s \<Longrightarrow> lg_committing s' = lg_committing s \<Longrightarrow>
     lg_size s' = lg_size s \<Longrightarrow> op_step per (s, bs) (s', bs)"
| finish: "i < length bs \<Longrightarrow> end_op s = Some s' \<Longrightarrow>
     op_step per (s, bs) (s', take i bs @ drop (Suc i) bs)"

inductive op_reachable :: "nat \<Rightarrow> nat \<Rightarrow> lstate \<times> nat list \<Rightarrow> bool" for per sz where
  start: "lh s = [] \<Longrightarrow> lg_outstanding s = 0 \<Longrightarrow> \<not> lg_committing s \<Longrightarrow> lg_size s = sz \<Longrightarrow> op_reachable per sz (s, [])"
| step: "op_reachable per sz x \<Longrightarrow> op_step per x y \<Longrightarrow> op_reachable per sz y"

definition space_inv :: "nat \<Rightarrow> nat \<Rightarrow> lstate \<times> nat list \<Rightarrow> bool" where
  "space_inv per sz x \<longleftrightarrow> (case x of (s, bs) \<Rightarrow> lg_outstanding s = int (length bs) \<and> \<not> lg_committing s \<and>
     lg_size s = sz \<and> length (lh s) + sum_list bs \<le> LOGSIZE - MAXOPBLOCKS + per \<and> (\<forall>b \<in> set bs. b \<le> per))"

text \<open>The block operations leave the log's own fields alone.\<close>

definition log_fields :: "('a) lstate_scheme \<Rightarrow> nat \<times> nat \<times> int \<times> bool \<times> nat list" where
  "log_fields s = (lg_start s, lg_size s, lg_outstanding s, lg_committing s, lh s)"

lemma log_fields_ops:
  "blk_read n s = Some (d, s') \<Longrightarrow> log_fields s' = log_fields s" "blk_set n d s = Some s' \<Longrightarrow> log_fields s' = log_fields s"
  "blk_write n s = Some s' \<Longrightarrow> log_fields s' = log_fields s" "blk_release n s = Some s' \<Longrightarrow> log_fields s' = log_fields s"
  "blk_pin n s = Some s' \<Longrightarrow> log_fields s' = log_fields s" "blk_get n s = Some s' \<Longrightarrow> log_fields s' = log_fields s"
  by (auto simp: blk_ops log_fields_def split: if_splits)

lemma run_log_fields:
  "(\<And>c s s'. step c s = Some s' \<Longrightarrow> log_fields s' = log_fields s) \<Longrightarrow> run step cs s = Some s' \<Longrightarrow> log_fields s' = log_fields s"
  by (induction cs arbitrary: s) (auto simp: bind_eq_Some)

lemma install_one_fields: "install_one i s = Some s' \<Longrightarrow> log_fields s' = log_fields s"
proof -
  assume "install_one i s = Some s'"
  then obtain d e s1 s2 s3 s4 s5 where "blk_read (lg_start s + i + 1) s = Some (d, s1)" "blk_read (lh s ! i) s1 = Some (e, s2)"
    "blk_set (lh s ! i) d s2 = Some s3" "blk_write (lh s ! i) s3 = Some s4"
    "blk_release (lg_start s + i + 1) s4 = Some s5" "blk_release (lh s ! i) s5 = Some s'"
    by (auto simp: install_one_def bind_eq_Some Let_def)
  then show ?thesis by (metis log_fields_ops(1-4))
qed

lemma write_log_one_fields: "write_log_one i s = Some s' \<Longrightarrow> log_fields s' = log_fields s"
proof -
  assume "write_log_one i s = Some s'"
  then obtain d e s1 s2 s3 s4 s5 where "blk_read (lg_start s + i + 1) s = Some (d, s1)" "blk_read (lh s ! i) s1 = Some (e, s2)"
    "blk_set (lg_start s + i + 1) e s2 = Some s3" "blk_write (lg_start s + i + 1) s3 = Some s4"
    "blk_release (lh s ! i) s4 = Some s5" "blk_release (lg_start s + i + 1) s5 = Some s'"
    by (auto simp: write_log_one_def bind_eq_Some Let_def)
  then show ?thesis by (metis log_fields_ops(1-4))
qed

lemma write_head_fields: "write_head s = Some s' \<Longrightarrow> log_fields s' = log_fields s"
proof -
  assume "write_head s = Some s'"
  then obtain b s1 s2 s3 where "blk_read (lg_start s) s = Some (b, s1)"
    "blk_set (lg_start s) (put_head (lh s) b) s1 = Some s2" "blk_write (lg_start s) s2 = Some s3"
    "blk_release (lg_start s) s3 = Some s'"
    by (auto simp: write_head_def bind_eq_Some)
  then show ?thesis by (metis log_fields_ops(1-4))
qed

lemmas log_loops_fields = install_one_fields write_log_one_fields write_head_fields

lemma commit_fields:
  assumes "commit s = Some s'"
  shows "lh s' = [] \<and> lg_size s' = lg_size s \<and> lg_outstanding s' = lg_outstanding s \<and> lg_committing s' = lg_committing s"
proof (cases "lh s = []")
  case False
  with assms obtain s1 s2 s3 where a: "write_log s = Some s1" "write_head s1 = Some s2" "install_trans s2 = Some s3"
    and w: "write_head (s3\<lparr>lh := []\<rparr>) = Some s'" by (auto simp: commit_def bind_eq_Some)
  have "log_fields s1 = log_fields s"
    by (rule run_log_fields [OF _ a(1) [unfolded write_log_def]]) (rule log_loops_fields)
  moreover have "log_fields s2 = log_fields s1" by (rule log_loops_fields(3) [OF a(2)])
  moreover have "log_fields s3 = log_fields s2"
    by (rule run_log_fields [OF _ a(3) [unfolded install_trans_def]]) (rule log_loops_fields)
  moreover have "log_fields s' = log_fields (s3\<lparr>lh := []\<rparr>)" by (rule log_loops_fields(3) [OF w])
  ultimately show ?thesis by (simp add: log_fields_def)
qed (use assms in \<open>simp add: commit_def\<close>)

lemma sum_list_le: "\<forall>b \<in> set bs. b \<le> (k :: nat) \<Longrightarrow> sum_list bs \<le> length bs * k"
  by (induction bs) auto

lemma space_inv_step:
  assumes "op_step per x y" and "space_inv per sz x" and "per \<le> MAXOPBLOCKS"
  shows "space_inv per sz y"
  using assms(1)
proof cases
  case (admit s s' bs)
  have "sum_list bs \<le> length bs * per" using assms(2) admit(1) by (auto simp: space_inv_def intro: sum_list_le)
  moreover have "int (length (lh s)) + (int (length bs) + 1) * int MAXOPBLOCKS \<le> int LOGSIZE"
    using admit assms(2) by (auto simp: begin_op_def space_inv_def split: if_splits)
  then have "length (lh s) + length bs * MAXOPBLOCKS \<le> LOGSIZE - MAXOPBLOCKS" by (simp add: MAXOPBLOCKS_def LOGSIZE_def)
  moreover have "length bs * per \<le> length bs * MAXOPBLOCKS" by (rule mult_le_mono2 [OF assms(3)])
  ultimately have "length (lh s) + (per + sum_list bs) \<le> LOGSIZE - MAXOPBLOCKS + per"
    by linarith
  then show ?thesis using admit assms(2) by (auto simp: begin_op_def space_inv_def split: if_splits)
next
  case (logw i bs n s s')
  then have f: "log_fields s' = log_fields (s\<lparr>lh := lh s @ [n]\<rparr>)"
    by (auto simp: log_write_def dest!: log_fields_ops split: if_splits)
  have "sum_list (bs[i := bs ! i - 1]) + 1 = sum_list bs"
    using logw(3,5) member_le_sum_list [of "bs ! i" bs] by (simp add: sum_list_update)
  moreover have "\<forall>b \<in> set (bs[i := bs ! i - 1]). b \<le> per"
    using assms(2) logw(1,3) set_update_subset_insert [of bs i "bs ! i - 1"]
    by (fastforce simp: space_inv_def dest: nth_mem)
  ultimately show ?thesis using f assms(2) logw(1,2) by (auto simp: space_inv_def log_fields_def)
next
  case (absorb n s s' bs)
  then have "log_fields s' = log_fields s"
    by (auto simp: log_write_def dest!: log_fields_ops split: if_splits)
  then show ?thesis using assms(2) absorb by (auto simp: space_inv_def log_fields_def)
next
  case (other s' s bs)
  then show ?thesis using assms(2) by (simp add: space_inv_def)
next
  case (finish i bs s s')
  have bs: "bs = take i bs @ bs ! i # drop (Suc i) bs" using finish(3) by (simp add: id_take_nth_drop)
  then have sum: "sum_list (take i bs @ drop (Suc i) bs) \<le> sum_list bs"
    by (metis add_le_cancel_left le_add2 sum_list.Cons sum_list_append)
  have len: "int (length (take i bs @ drop (Suc i) bs)) = int (length bs) - 1" using finish(3) by simp
  have sub: "set (take i bs @ drop (Suc i) bs) \<subseteq> set bs" using set_take_subset set_drop_subset by fastforce
  show ?thesis
  proof (cases "lg_outstanding s = 1")
    case True
    then obtain s2 where c: "commit (s\<lparr>lg_outstanding := lg_outstanding s - 1, lg_committing := True\<rparr>) = Some s2"
      and s': "s' = s2\<lparr>lg_committing := False\<rparr>"
      using finish assms(2) by (auto simp: end_op_def space_inv_def bind_eq_Some)
    show ?thesis
      using commit_fields [OF c] s' sum len sub assms(2) finish(1,2) True by (auto simp: space_inv_def)
  next
    case False
    then have "s' = s\<lparr>lg_outstanding := lg_outstanding s - 1\<rparr>"
      using finish assms(2) by (auto simp: end_op_def space_inv_def)
    then show ?thesis
      using sum len sub assms(2) finish(1,2) by (auto simp: space_inv_def)
  qed
qed

lemma op_reachable_inv: "op_reachable per sz x \<Longrightarrow> per \<le> MAXOPBLOCKS \<Longrightarrow> space_inv per sz x"
proof (induction rule: op_reachable.induct)
  case (step x y)
  then show ?case using space_inv_step by blast
qed (simp add: space_inv_def)

text \<open>
  C15. The log does not fill up under a caller, provided it is large enough for what a call may log.
  However the file system calls that \<open>begin_op\<close> admits interleave, and whatever blocks earlier calls have left in the
  log: if no call logs more than \<open>per\<close> new blocks and the log has more than \<open>20 + per\<close> blocks with its header, a call with
  room left in its allowance can log one more block it holds, so neither panic of \<open>log_write\<close> is
  reachable. The block is recorded once however often it is logged. The full allowance of \<open>MAXOPBLOCKS\<close>
  needs 31 blocks; the log mkfs makes has \<open>LOGSIZE = 30\<close>, which is enough for 9 blocks per call and not for 10.
\<close>

theorem log_write_never_panics:
  assumes "op_reachable per sz (s, bs)" and "per \<le> MAXOPBLOCKS" and "LOGSIZE - MAXOPBLOCKS + per < sz"
    and "i < length bs" and "0 < bs ! i" and "n \<in> held_blks s" and "n \<notin> unread s"
  shows "\<exists>s'. log_write n s = Some s' \<and> n \<in> pinned s' \<and> lh s' = (if n \<in> set (lh s) then lh s else lh s @ [n])"
proof -
  have i: "space_inv per sz (s, bs)" by (rule op_reachable_inv [OF assms(1,2)])
  have "bs ! i \<le> sum_list bs" using assms(4) by (simp add: member_le_sum_list)
  then have "length (lh s) < LOGSIZE - MAXOPBLOCKS + per" "0 < lg_outstanding s" "lg_size s = sz"
    using i assms(4,5) by (auto simp: space_inv_def)
  then show ?thesis using assms(2,3,6,7) by (simp add: log_write_def blk_pin_def LOGSIZE_def MAXOPBLOCKS_def)
qed

text \<open>Two calls of at most 9 blocks each run on a log as large as that of mkfs; the first has read block 50.\<close>

definition demo_ops :: lstate where
  "demo_ops = demo_log\<lparr>blk := disk demo_log, pinned := {}, modified := {}, held_blks := {50}, lg_size := LOGSIZE,
     lg_outstanding := 2, lh := []\<rparr>"

lemma demo_ops_reachable: "op_reachable 9 LOGSIZE (demo_ops, [9, 9])"
proof -
  let ?s0 = "demo_ops\<lparr>lg_outstanding := 0\<rparr>" and ?s1 = "demo_ops\<lparr>lg_outstanding := 1\<rparr>"
  have "op_reachable 9 LOGSIZE (?s0, [])"
    by (rule op_reachable.start) (simp_all add: demo_ops_def demo_log_def)
  moreover have "op_step 9 (?s0, []) (?s1, [9])"
    by (rule op_step.admit) (simp add: begin_op_def demo_ops_def demo_log_def MAXOPBLOCKS_def LOGSIZE_def)
  moreover have "op_step 9 (?s1, [9]) (demo_ops, [9, 9])"
    by (rule op_step.admit) (simp add: begin_op_def demo_ops_def demo_log_def MAXOPBLOCKS_def LOGSIZE_def)
  ultimately show ?thesis by (meson op_reachable.step)
qed

lemma log_write_never_panics_witness: "\<exists>s'. log_write 50 demo_ops = Some s' \<and> lh s' = [50]"
  using log_write_never_panics [OF demo_ops_reachable, of 0 50]
  by (auto simp: demo_ops_def demo_log_def LOGSIZE_def MAXOPBLOCKS_def)

end
