(* ===== verification/Fs.thy ===== *)
theory Fs
  imports Log
begin

text \<open>
  The file system (\<^verbatim>\<open>Part_B/fs.c\<close>): block allocator with the eight-block allocator of the
  paging code, inodes and their cache, file contents, directories and path names. All of it
  runs on the block store and the log; a kernel pointer to an inode is its index in the inode
  cache. A call that panics, dereferences null or sleeps on a lock that nobody will release is
  \<open>None\<close>.
\<close>

section \<open>State\<close>

definition NINODE :: nat where "NINODE = 50"
definition NDIRECT :: nat where "NDIRECT = 12"
definition NINDIRECT :: nat where "NINDIRECT = 128"
definition MAXFILE :: nat where "MAXFILE = NDIRECT + NINDIRECT"
definition DINODE_SIZE :: nat where "DINODE_SIZE = 64"
definition IPB :: nat where "IPB = BSIZE div DINODE_SIZE"
definition BPB :: nat where "BPB = BSIZE * 8"
definition DIRSIZ :: nat where "DIRSIZ = 14"
definition DIRENT_SIZE :: nat where "DIRENT_SIZE = 16"
definition ROOTINO :: u32 where "ROOTINO = 1"
definition T_DIR :: u16 where "T_DIR = 1"
definition T_FILE :: u16 where "T_FILE = 2"
definition T_DEV :: u16 where "T_DEV = 3"
definition NDEV :: int where "NDEV = 10"

record inode =
  i_dev :: u32
  i_inum :: u32
  i_ref :: int
  i_lock :: sleeplock
  i_valid :: bool
  i_type :: u16
  i_major :: u16
  i_minor :: u16
  i_nlink :: u16
  i_size :: u32
  i_addrs :: "u32 list"

record fs = lstate +
  sb :: superblock
  numallocblocks :: int
  icache :: "nat \<Rightarrow> inode"

definition upd_inode :: "nat \<Rightarrow> (inode \<Rightarrow> inode) \<Rightarrow> ('a) fs_scheme \<Rightarrow> ('a) fs_scheme" where
  "upd_inode i f s = s\<lparr>icache := (icache s)(i := f (icache s i))\<rparr>"

text \<open>Device drivers are reached through the table \<^verbatim>\<open>devsw\<close> of function pointers; \<open>None\<close> is a null pointer.\<close>

record 'f devsw =
  dv_read :: "int \<Rightarrow> (nat \<Rightarrow> bytes \<Rightarrow> u32 \<Rightarrow> 'f \<Rightarrow> (int \<times> bytes \<times> 'f) option) option"
  dv_write :: "int \<Rightarrow> (nat \<Rightarrow> bytes \<Rightarrow> u32 \<Rightarrow> 'f \<Rightarrow> (int \<times> 'f) option) option"

definition IBLOCK :: "nat \<Rightarrow> superblock \<Rightarrow> nat" where
  "IBLOCK i b = i div IPB + unat (sb_inodestart b)"

definition BBLOCK :: "nat \<Rightarrow> superblock \<Rightarrow> nat" where
  "BBLOCK n b = n div BPB + unat (sb_bmapstart b)"

section \<open>Blocks\<close>

text \<open>\<open>bzero\<close>.\<close>

definition bzero :: "nat \<Rightarrow> ('a) fs_scheme \<Rightarrow> ('a) fs_scheme option" where
  "bzero bno s = do {
     (_, s1) \<leftarrow> blk_read bno s;
     s2 \<leftarrow> blk_set bno zero_bytes s1;
     s3 \<leftarrow> log_write bno s2;
     blk_release bno s3
   }"

text \<open>The bit of a block in its bitmap block: \<^verbatim>\<open>m = 1 << (bi % 8)\<close> in byte \<^verbatim>\<open>bi/8\<close>.\<close>

definition bit_mask :: "nat \<Rightarrow> u8" where
  "bit_mask bi = push_bit (bi mod 8) 1"

definition bit_free :: "bytes \<Rightarrow> nat \<Rightarrow> bool" where
  "bit_free d bi \<longleftrightarrow> d (bi div 8) AND bit_mask bi = 0"

definition bit_mark :: "nat \<Rightarrow> bytes \<Rightarrow> bytes" where
  "bit_mark bi d = d(bi div 8 := d (bi div 8) OR bit_mask bi)"

definition bit_clear :: "nat \<Rightarrow> bytes \<Rightarrow> bytes" where
  "bit_clear bi d = d(bi div 8 := d (bi div 8) AND NOT (bit_mask bi))"

text \<open>\<open>balloc\<close>: the loop over bitmap blocks, with the inner loop as a search for the first free bit.\<close>

fun balloc_loop :: "nat list \<Rightarrow> ('a) fs_scheme \<Rightarrow> (nat \<times> ('a) fs_scheme) option" where
  "balloc_loop [] s = None"
| "balloc_loop (b # bs) s = do {
     let bb = BBLOCK b (sb s);
     (d, s1) \<leftarrow> blk_read bb s;
     case find (bit_free d) [0..<min BPB (unat (sb_size (sb s)) - b)] of
       Some bi \<Rightarrow> do {
         s2 \<leftarrow> begin_op s1;
         s3 \<leftarrow> blk_set bb (bit_mark bi d) s2;
         s4 \<leftarrow> log_write bb s3;
         s5 \<leftarrow> blk_release bb s4;
         s6 \<leftarrow> bzero (b + bi) s5;
         s7 \<leftarrow> end_op s6;
         Some (b + bi, s7)
       }
     | None \<Rightarrow> do {
         s2 \<leftarrow> blk_release bb s1;
         balloc_loop bs s2
       }
   }"

definition balloc :: "('a) fs_scheme \<Rightarrow> (nat \<times> ('a) fs_scheme) option" where
  "balloc s = balloc_loop (map (\<lambda>k. k * BPB) [0..<(unat (sb_size (sb s)) + BPB - 1) div BPB]) s"

definition bfree :: "nat \<Rightarrow> ('a) fs_scheme \<Rightarrow> ('a) fs_scheme option" where
  "bfree b s = do {
     (q, s1) \<leftarrow> readsb s;
     let s2 = s1\<lparr>sb := q\<rparr>;
     let bb = BBLOCK b q;
     (d, s3) \<leftarrow> blk_read bb s2;
     let bi = b mod BPB;
     if bit_free d bi then None
     else do {
       s4 \<leftarrow> blk_set bb (bit_clear bi d) s3;
       s5 \<leftarrow> blk_write bb s4;
       blk_release bb s5
     }
   }"

text \<open>
  \<open>balloc_page\<close>: \<open>i\<close> counts the blocks of the current run, all blocks obtained so far are in
  \<open>alloc_b\<close> (oldest first), and a block that does not continue the run makes it start again at that block. The
  loop ends since every round takes one free block; \<open>fuel\<close> bounds the rounds. The C array has
  100000 entries; a longer search would overrun it (\<open>None\<close>).
\<close>

definition NUM :: nat where "NUM = 100000"

fun balloc_page_loop :: "nat \<Rightarrow> nat \<Rightarrow> nat list \<Rightarrow> ('a) fs_scheme \<Rightarrow> (nat list \<times> ('a) fs_scheme) option" where
  "balloc_page_loop 0 i alloc_b s = None"
| "balloc_page_loop (Suc fuel) i alloc_b s =
     (if i \<ge> 8 then Some (alloc_b, s)
      else if length alloc_b \<ge> NUM then None
      else do {
        (b, s1) \<leftarrow> balloc s;
        let i' = (if i > 0 \<and> int b - int (last alloc_b) \<noteq> 1 then 0 else i);
        balloc_page_loop fuel (i' + 1) (alloc_b @ [b]) s1
      })"

definition balloc_page :: "('a) fs_scheme \<Rightarrow> (nat \<times> ('a) fs_scheme) option" where
  "balloc_page s = do {
     (alloc_b, s1) \<leftarrow> balloc_page_loop (NUM + 2) 0 [] s;
     s2 \<leftarrow> run bfree (take (length alloc_b - 8) alloc_b) s1;
     Some (alloc_b ! (length alloc_b - 8), s2\<lparr>numallocblocks := numallocblocks s2 + 1\<rparr>)
   }"

definition bfree_page :: "nat \<Rightarrow> ('a) fs_scheme \<Rightarrow> ('a) fs_scheme option" where
  "bfree_page b s = do {
     s1 \<leftarrow> run (\<lambda>i. bfree (b + i)) [0..<8] s;
     Some (s1\<lparr>numallocblocks := numallocblocks s1 - 1\<rparr>)
   }"

section \<open>Inodes\<close>

definition iinit :: "('a) fs_scheme \<Rightarrow> ('a) fs_scheme option" where
  "iinit s = do {
     let s1 = s\<lparr>icache := (\<lambda>i. if i < NINODE then (icache s i)\<lparr>i_lock := initsleeplock (i_lock (icache s i))\<rparr>
                             else icache s i)\<rparr>;
     (q, s2) \<leftarrow> readsb s1;
     Some (s2\<lparr>sb := q\<rparr>)
   }"

text \<open>Offset of an inode in its block, and the fields of \<^verbatim>\<open>struct dinode\<close>.\<close>

definition dinode_off :: "nat \<Rightarrow> nat" where
  "dinode_off inum = DINODE_SIZE * (inum mod IPB)"

definition get_addrs :: "bytes \<Rightarrow> nat \<Rightarrow> u32 list" where
  "get_addrs d o1 = map (\<lambda>k. get32 d (o1 + 12 + 4 * k)) [0..<NDIRECT + 1]"

fun put_addrs :: "nat \<Rightarrow> u32 list \<Rightarrow> bytes \<Rightarrow> bytes" where
  "put_addrs o1 [] d = d"
| "put_addrs o1 (a # as) d = put_addrs (o1 + 4) as (put32 d o1 a)"

definition put_dinode :: "nat \<Rightarrow> inode \<Rightarrow> bytes \<Rightarrow> bytes" where
  "put_dinode o1 ip d =
     (let d1 = put16 d o1 (i_type ip);
          d2 = put16 d1 (o1 + 2) (i_major ip);
          d3 = put16 d2 (o1 + 4) (i_minor ip);
          d4 = put16 d3 (o1 + 6) (i_nlink ip);
          d5 = put32 d4 (o1 + 8) (i_size ip)
      in put_addrs (o1 + 12) (i_addrs ip) d5)"

definition get_dinode :: "nat \<Rightarrow> bytes \<Rightarrow> inode \<Rightarrow> inode" where
  "get_dinode o1 d ip = ip\<lparr>i_type := get16 d o1, i_major := get16 d (o1 + 2), i_minor := get16 d (o1 + 4),
     i_nlink := get16 d (o1 + 6), i_size := get32 d (o1 + 8), i_addrs := get_addrs d o1\<rparr>"

definition iget :: "u32 \<Rightarrow> u32 \<Rightarrow> ('a) fs_scheme \<Rightarrow> (nat \<times> ('a) fs_scheme) option" where
  "iget dev inum s =
     (case find (\<lambda>i. i_ref (icache s i) > 0 \<and> i_dev (icache s i) = dev \<and> i_inum (icache s i) = inum) [0..<NINODE] of
        Some i \<Rightarrow> Some (i, upd_inode i (\<lambda>ip. ip\<lparr>i_ref := i_ref ip + 1\<rparr>) s)
      | None \<Rightarrow> do {
          i \<leftarrow> find (\<lambda>i. i_ref (icache s i) = 0) [0..<NINODE];
          Some (i, upd_inode i (\<lambda>ip. ip\<lparr>i_dev := dev, i_inum := inum, i_ref := 1, i_valid := False\<rparr>) s)
        })"

fun ialloc_loop :: "u16 \<Rightarrow> nat list \<Rightarrow> ('a) fs_scheme \<Rightarrow> (nat \<times> ('a) fs_scheme) option" where
  "ialloc_loop ty [] s = None"
| "ialloc_loop ty (inum # is) s = do {
     let n = IBLOCK inum (sb s);
     let o1 = dinode_off inum;
     (d, s1) \<leftarrow> blk_read n s;
     if get16 d o1 = 0 then do {
       s2 \<leftarrow> blk_set n (put16 (blit d o1 zero_bytes 0 DINODE_SIZE) o1 ty) s1;
       s3 \<leftarrow> log_write n s2;
       s4 \<leftarrow> blk_release n s3;
       iget ROOTDEV (of_nat inum) s4
     } else do {
       s2 \<leftarrow> blk_release n s1;
       ialloc_loop ty is s2
     }
   }"

definition ialloc :: "u16 \<Rightarrow> ('a) fs_scheme \<Rightarrow> (nat \<times> ('a) fs_scheme) option" where
  "ialloc ty s = ialloc_loop ty [1..<unat (sb_ninodes (sb s))] s"

definition iupdate :: "nat \<Rightarrow> ('a) fs_scheme \<Rightarrow> ('a) fs_scheme option" where
  "iupdate i s = do {
     let ip = icache s i;
     let n = IBLOCK (unat (i_inum ip)) (sb s);
     (d, s1) \<leftarrow> blk_read n s;
     s2 \<leftarrow> blk_set n (put_dinode (dinode_off (unat (i_inum ip))) ip d) s1;
     s3 \<leftarrow> log_write n s2;
     blk_release n s3
   }"

definition idup :: "nat \<Rightarrow> ('a) fs_scheme \<Rightarrow> ('a) fs_scheme" where
  "idup i s = upd_inode i (\<lambda>ip. ip\<lparr>i_ref := i_ref ip + 1\<rparr>) s"

definition lock_inode :: "int \<Rightarrow> nat \<Rightarrow> ('a) fs_scheme \<Rightarrow> ('a) fs_scheme option" where
  "lock_inode pid i s = do {
     lk \<leftarrow> acquiresleep pid (i_lock (icache s i));
     Some (upd_inode i (\<lambda>ip. ip\<lparr>i_lock := lk\<rparr>) s)
   }"

definition unlock_inode :: "nat \<Rightarrow> ('a) fs_scheme \<Rightarrow> ('a) fs_scheme" where
  "unlock_inode i s = upd_inode i (\<lambda>ip. ip\<lparr>i_lock := releasesleep (i_lock ip)\<rparr>) s"

definition ilock :: "int \<Rightarrow> nat \<Rightarrow> ('a) fs_scheme \<Rightarrow> ('a) fs_scheme option" where
  "ilock pid i s =
     (if i_ref (icache s i) < 1 then None
      else do {
        s1 \<leftarrow> lock_inode pid i s;
        if i_valid (icache s1 i) then Some s1
        else do {
          let inum = unat (i_inum (icache s1 i));
          let n = IBLOCK inum (sb s1);
          (d, s2) \<leftarrow> blk_read n s1;
          let s3 = upd_inode i (get_dinode (dinode_off inum) d) s2;
          s4 \<leftarrow> blk_release n s3;
          let s5 = upd_inode i (\<lambda>ip. ip\<lparr>i_valid := True\<rparr>) s4;
          if i_type (icache s5 i) = 0 then None else Some s5
        }
      })"

definition iunlock :: "nat \<Rightarrow> ('a) fs_scheme \<Rightarrow> ('a) fs_scheme option" where
  "iunlock i s =
     (if \<not> holdingsleep (i_lock (icache s i)) \<or> i_ref (icache s i) < 1 then None
      else Some (unlock_inode i s))"

text \<open>\<open>itrunc\<close>: the loop over the direct blocks, the loop over the indirect block, and the rest.\<close>

definition trunc_direct :: "nat \<Rightarrow> nat \<Rightarrow> ('a) fs_scheme \<Rightarrow> ('a) fs_scheme option" where
  "trunc_direct i k s =
     (if i_addrs (icache s i) ! k \<noteq> 0 then do {
        s1 \<leftarrow> bfree (unat (i_addrs (icache s i) ! k)) s;
        Some (upd_inode i (\<lambda>ip. ip\<lparr>i_addrs := (i_addrs ip)[k := 0]\<rparr>) s1)
      } else Some s)"

definition trunc_indirect :: "bytes \<Rightarrow> nat \<Rightarrow> ('a) fs_scheme \<Rightarrow> ('a) fs_scheme option" where
  "trunc_indirect d j s =
     (if get32 d (4 * j) \<noteq> 0 then bfree (unat (get32 d (4 * j))) s else Some s)"

definition itrunc :: "nat \<Rightarrow> ('a) fs_scheme \<Rightarrow> ('a) fs_scheme option" where
  "itrunc i s = do {
     s1 \<leftarrow> run (trunc_direct i) [0..<NDIRECT] s;
     let ind = i_addrs (icache s1 i) ! NDIRECT;
     s5 \<leftarrow> (if ind \<noteq> 0 then do {
         (d, s2) \<leftarrow> blk_read (unat ind) s1;
         s3 \<leftarrow> run (trunc_indirect d) [0..<NINDIRECT] s2;
         s4 \<leftarrow> blk_release (unat ind) s3;
         s5 \<leftarrow> bfree (unat ind) s4;
         Some (upd_inode i (\<lambda>ip. ip\<lparr>i_addrs := (i_addrs ip)[NDIRECT := 0]\<rparr>) s5)
       } else Some s1);
     iupdate i (upd_inode i (\<lambda>ip. ip\<lparr>i_size := 0\<rparr>) s5)
   }"

definition iput :: "int \<Rightarrow> nat \<Rightarrow> ('a) fs_scheme \<Rightarrow> ('a) fs_scheme option" where
  "iput pid i s = do {
     s1 \<leftarrow> lock_inode pid i s;
     s2 \<leftarrow> (if i_valid (icache s1 i) \<and> i_nlink (icache s1 i) = 0 \<and> i_ref (icache s1 i) = 1 then do {
          t1 \<leftarrow> itrunc i s1;
          t2 \<leftarrow> iupdate i (upd_inode i (\<lambda>ip. ip\<lparr>i_type := 0\<rparr>) t1);
          Some (upd_inode i (\<lambda>ip. ip\<lparr>i_valid := False\<rparr>) t2)
        } else Some s1);
     Some (upd_inode i (\<lambda>ip. ip\<lparr>i_ref := i_ref ip - 1\<rparr>) (unlock_inode i s2))
   }"

definition iunlockput :: "int \<Rightarrow> nat \<Rightarrow> ('a) fs_scheme \<Rightarrow> ('a) fs_scheme option" where
  "iunlockput pid i s = do {
     s1 \<leftarrow> iunlock i s;
     iput pid i s1
   }"

section \<open>File contents\<close>

text \<open>\<open>bmap\<close>: the disk block of the \<open>bn\<close>-th block of the file, allocated if there is none.\<close>

definition bmap :: "nat \<Rightarrow> nat \<Rightarrow> ('a) fs_scheme \<Rightarrow> (nat \<times> ('a) fs_scheme) option" where
  "bmap i bn s =
     (if bn < NDIRECT then
        let addr = i_addrs (icache s i) ! bn
        in if addr = 0 then do {
             (b, s1) \<leftarrow> balloc s;
             Some (b, upd_inode i (\<lambda>ip. ip\<lparr>i_addrs := (i_addrs ip)[bn := of_nat b]\<rparr>) s1)
           } else Some (unat addr, s)
      else if bn - NDIRECT < NINDIRECT then do {
        let addr = i_addrs (icache s i) ! NDIRECT;
        (ind, s1) \<leftarrow> (if addr = 0 then do {
            (b, s1) \<leftarrow> balloc s;
            Some (b, upd_inode i (\<lambda>ip. ip\<lparr>i_addrs := (i_addrs ip)[NDIRECT := of_nat b]\<rparr>) s1)
          } else Some (unat addr, s));
        (d, s2) \<leftarrow> blk_read ind s1;
        let a = get32 d (4 * (bn - NDIRECT));
        if a = 0 then do {
          (b, s3) \<leftarrow> balloc s2;
          s4 \<leftarrow> blk_set ind (put32 d (4 * (bn - NDIRECT)) (of_nat b)) s3;
          s5 \<leftarrow> log_write ind s4;
          s6 \<leftarrow> blk_release ind s5;
          Some (b, s6)
        } else do {
          s3 \<leftarrow> blk_release ind s2;
          Some (unat a, s3)
        }
      } else None)"

record stat =
  st_type :: u16
  st_dev :: u32
  st_ino :: u32
  st_nlink :: u16
  st_size :: u32

definition stati :: "inode \<Rightarrow> stat" where
  "stati ip = \<lparr>st_type = i_type ip, st_dev = i_dev ip, st_ino = i_inum ip, st_nlink = i_nlink ip, st_size = i_size ip\<rparr>"

text \<open>
  The loops of \<open>readi\<close> and \<open>writei\<close>: \<open>r\<close> bytes are left, at file offset \<open>off\<close> and buffer
  offset \<open>di\<close>. The buffer is the byte array \<open>dst\<close> or \<open>src\<close>.
\<close>

lemma block_step: "0 < r \<Longrightarrow> r - min r (BSIZE - off mod BSIZE) < (r :: nat)"
  by (simp add: BSIZE_def)

function readi_loop :: "nat \<Rightarrow> nat \<Rightarrow> nat \<Rightarrow> nat \<Rightarrow> bytes \<Rightarrow> ('a) fs_scheme \<Rightarrow> (bytes \<times> ('a) fs_scheme) option" where
  "readi_loop i r off di dst s =
     (if r = 0 then Some (dst, s)
      else do {
        (b, s1) \<leftarrow> bmap i (off div BSIZE) s;
        (d, s2) \<leftarrow> blk_read b s1;
        s3 \<leftarrow> blk_release b s2;
        let m = min r (BSIZE - off mod BSIZE);
        readi_loop i (r - m) (off + m) (di + m) (blit dst di d (off mod BSIZE) m) s3
      })"
  by pat_completeness auto
termination
  by (relation "measure (\<lambda>(i, r, off, di, dst, s). r)") (auto simp: block_step)

definition devsw_index_ok :: "inode \<Rightarrow> bool" where
  "devsw_index_ok ip \<longleftrightarrow> \<not> (sint (i_major ip) < 0 \<or> sint (i_major ip) \<ge> NDEV)"

definition readi :: "('a) fs_scheme devsw \<Rightarrow> nat \<Rightarrow> bytes \<Rightarrow> u32 \<Rightarrow> u32 \<Rightarrow> ('a) fs_scheme \<Rightarrow>
    (int \<times> bytes \<times> ('a) fs_scheme) option" where
  "readi D i dst off n s =
     (let ip = icache s i
      in if i_type ip = T_DEV then
           (if \<not> devsw_index_ok ip then Some (- 1, dst, s)
            else case dv_read D (sint (i_major ip)) of
                None \<Rightarrow> Some (- 1, dst, s)
              | Some f \<Rightarrow> f i dst n s)
         else if off > i_size ip \<or> off + n < off then Some (- 1, dst, s)
         else let n' = (if off + n > i_size ip then i_size ip - off else n)
              in do {
                (dst', s') \<leftarrow> readi_loop i (unat n') (unat off) 0 dst s;
                Some (sint n', dst', s')
              })"

function writei_loop :: "nat \<Rightarrow> nat \<Rightarrow> nat \<Rightarrow> nat \<Rightarrow> bytes \<Rightarrow> ('a) fs_scheme \<Rightarrow> ('a) fs_scheme option" where
  "writei_loop i r off si src s =
     (if r = 0 then Some s
      else do {
        (b, s1) \<leftarrow> bmap i (off div BSIZE) s;
        (d, s2) \<leftarrow> blk_read b s1;
        let m = min r (BSIZE - off mod BSIZE);
        s3 \<leftarrow> blk_set b (blit d (off mod BSIZE) src si m) s2;
        s4 \<leftarrow> log_write b s3;
        s5 \<leftarrow> blk_release b s4;
        writei_loop i (r - m) (off + m) (si + m) src s5
      })"
  by pat_completeness auto
termination
  by (relation "measure (\<lambda>(i, r, off, si, src, s). r)") (auto simp: block_step)

definition writei :: "('a) fs_scheme devsw \<Rightarrow> nat \<Rightarrow> bytes \<Rightarrow> u32 \<Rightarrow> u32 \<Rightarrow> ('a) fs_scheme \<Rightarrow>
    (int \<times> ('a) fs_scheme) option" where
  "writei D i src off n s =
     (let ip = icache s i
      in if i_type ip = T_DEV then
           (if \<not> devsw_index_ok ip then Some (- 1, s)
            else case dv_write D (sint (i_major ip)) of
                None \<Rightarrow> Some (- 1, s)
              | Some f \<Rightarrow> f i src n s)
         else if off > i_size ip \<or> off + n < off then Some (- 1, s)
         else if off + n > of_nat (MAXFILE * BSIZE) then Some (- 1, s)
         else do {
           s1 \<leftarrow> writei_loop i (unat n) (unat off) 0 src s;
           s2 \<leftarrow> (if n > 0 \<and> off + n > i_size (icache s1 i)
                  then iupdate i (upd_inode i (\<lambda>ip. ip\<lparr>i_size := off + n\<rparr>) s1)
                  else Some s1);
           Some (sint n, s2)
         })"

declare readi_loop.simps [simp del]
declare writei_loop.simps [simp del]

section \<open>Directories\<close>

text \<open>
  Names are strings without NUL. A directory entry is 16 bytes: the inode number and 14
  bytes of name, padded with NUL when shorter. \<open>strncmp\<close> compares like the C function, a
  missing character being the terminating NUL.
\<close>

definition char_at :: "string \<Rightarrow> nat" where
  "char_at p = (case p of [] \<Rightarrow> 0 | c # _ \<Rightarrow> of_char c)"

fun strncmp :: "string \<Rightarrow> string \<Rightarrow> nat \<Rightarrow> int" where
  "strncmp p q 0 = 0"
| "strncmp p q (Suc n) =
     (if char_at p \<noteq> 0 \<and> char_at p = char_at q then strncmp (tl p) (tl q) n
      else int (char_at p) - int (char_at q))"

definition namecmp :: "string \<Rightarrow> string \<Rightarrow> int" where
  "namecmp p q = strncmp p q DIRSIZ"

definition de_inum :: "bytes \<Rightarrow> u16" where
  "de_inum de = get16 de 0"

definition de_name :: "bytes \<Rightarrow> string" where
  "de_name de = map (\<lambda>k. char_of (unat (de (2 + k)))) (takeWhile (\<lambda>k. de (2 + k) \<noteq> 0) [0..<DIRSIZ])"

text \<open>\<^verbatim>\<open>strncpy(de.name, name, DIRSIZ)\<close>: copies up to the NUL and pads with NUL.\<close>

definition put_name :: "string \<Rightarrow> bytes \<Rightarrow> bytes" where
  "put_name name de = (\<lambda>k. if 2 \<le> k \<and> k < 2 + DIRSIZ
     then (if k - 2 < length name then of_nat (of_char (name ! (k - 2))) else 0) else de k)"

definition dirent :: "string \<Rightarrow> u16 \<Rightarrow> bytes" where
  "dirent name inum = put16 (put_name name zero_bytes) 0 inum"

text \<open>
  The loop of \<open>dirlookup\<close> over the offsets 0, 16, ... below the size. The result carries the
  offset and the inode number found, or nothing.
\<close>

fun dirlookup_loop :: "('a) fs_scheme devsw \<Rightarrow> nat \<Rightarrow> string \<Rightarrow> nat list \<Rightarrow> ('a) fs_scheme \<Rightarrow>
    ((nat \<times> u16) option \<times> ('a) fs_scheme) option" where
  "dirlookup_loop D dp name [] s = Some (None, s)"
| "dirlookup_loop D dp name (k # ks) s = do {
     (r, de, s1) \<leftarrow> readi D dp zero_bytes (of_nat (DIRENT_SIZE * k)) (of_nat DIRENT_SIZE) s;
     if r \<noteq> int DIRENT_SIZE then None
     else if de_inum de \<noteq> 0 \<and> namecmp name (de_name de) = 0
          then Some (Some (DIRENT_SIZE * k, de_inum de), s1)
          else dirlookup_loop D dp name ks s1
   }"

text \<open>The entries a loop \<^verbatim>\<open>for(off = 0; off < dp->size; off += sizeof(de))\<close> visits.\<close>

definition dir_slots :: "inode \<Rightarrow> nat list" where
  "dir_slots ip = [0..<(unat (i_size ip) + DIRENT_SIZE - 1) div DIRENT_SIZE]"

definition dirlookup :: "('a) fs_scheme devsw \<Rightarrow> nat \<Rightarrow> string \<Rightarrow> ('a) fs_scheme \<Rightarrow>
    ((nat \<times> nat) option \<times> ('a) fs_scheme) option" where
  "dirlookup D dp name s =
     (if i_type (icache s dp) \<noteq> T_DIR then None
      else do {
        (r, s1) \<leftarrow> dirlookup_loop D dp name (dir_slots (icache s dp)) s;
        case r of
          None \<Rightarrow> Some (None, s1)
        | Some (off, inum) \<Rightarrow> do {
            (i, s2) \<leftarrow> iget (i_dev (icache s1 dp)) (ucast inum) s1;
            Some (Some (i, off), s2)
          }
      })"

text \<open>The search of \<open>dirlink\<close> for a free entry: the offset of the first one, or the size.\<close>

fun dirlink_slot :: "('a) fs_scheme devsw \<Rightarrow> nat \<Rightarrow> nat list \<Rightarrow> nat \<Rightarrow> ('a) fs_scheme \<Rightarrow>
    (nat \<times> bytes \<times> ('a) fs_scheme) option" where
  "dirlink_slot D dp [] off s = Some (off, zero_bytes, s)"
| "dirlink_slot D dp (k # ks) off s = do {
     (r, de, s1) \<leftarrow> readi D dp zero_bytes (of_nat (DIRENT_SIZE * k)) (of_nat DIRENT_SIZE) s;
     if r \<noteq> int DIRENT_SIZE then None
     else if de_inum de = 0 then Some (DIRENT_SIZE * k, de, s1)
     else dirlink_slot D dp ks (DIRENT_SIZE * (k + 1)) s1
   }"

definition dirlink :: "('a) fs_scheme devsw \<Rightarrow> int \<Rightarrow> nat \<Rightarrow> string \<Rightarrow> u32 \<Rightarrow> ('a) fs_scheme \<Rightarrow>
    (int \<times> ('a) fs_scheme) option" where
  "dirlink D pid dp name inum s = do {
     (r, s1) \<leftarrow> dirlookup D dp name s;
     case r of
       Some (i, _) \<Rightarrow> do { s2 \<leftarrow> iput pid i s1; Some (- 1, s2) }
     | None \<Rightarrow> do {
         (off, de, s2) \<leftarrow> dirlink_slot D dp (dir_slots (icache s1 dp)) 0 s1;
         let de' = put16 (put_name name de) 0 (ucast inum);
         (w, s3) \<leftarrow> writei D dp de' (of_nat off) (of_nat DIRENT_SIZE) s2;
         if w \<noteq> int DIRENT_SIZE then None else Some (0, s3)
       }
   }"

section \<open>Path names\<close>

text \<open>
  \<open>skipelem path\<close> is \<open>None\<close> if no element is left, else the first element and the rest of the
  path. The element is cut to \<open>DIRSIZ\<close> characters.
\<close>

definition skipelem :: "string \<Rightarrow> (string \<times> string) option" where
  "skipelem path =
     (let s = dropWhile (\<lambda>c. c = CHR ''/'') path
      in if s = [] then None
         else let elem = takeWhile (\<lambda>c. c \<noteq> CHR ''/'') s;
                  rest = dropWhile (\<lambda>c. c = CHR ''/'') (dropWhile (\<lambda>c. c \<noteq> CHR ''/'') s)
              in Some (take DIRSIZ elem, rest))"

lemma skipelem_shorter: "skipelem path = Some (name, rest) \<Longrightarrow> length rest < length path"
proof -
  assume sk: "skipelem path = Some (name, rest)"
  define s where "s = dropWhile (\<lambda>c. c = CHR ''/'') path"
  have s: "s \<noteq> []" and r: "rest = dropWhile (\<lambda>c. c = CHR ''/'') (dropWhile (\<lambda>c. c \<noteq> CHR ''/'') s)"
    using sk by (auto simp: skipelem_def s_def Let_def split: if_splits)
  have "hd s \<noteq> CHR ''/''" 
    using hd_dropWhile [of "\<lambda>c. c = CHR ''/''" path] s by (simp add: s_def)
  then have "length (dropWhile (\<lambda>c. c \<noteq> CHR ''/'') s) < length s"
    using s by (cases s) (auto simp: length_dropWhile_le le_imp_less_Suc)
  then have "length rest < length s" 
    unfolding r by (rule le_less_trans [OF length_dropWhile_le])
  then show ?thesis unfolding s_def by (rule less_le_trans [OF _ length_dropWhile_le])
qed

text \<open>The loop of \<open>namex\<close>. The result is the inode and, for \<open>nameiparent\<close>, the last element.\<close>

function namex_loop :: "('a) fs_scheme devsw \<Rightarrow> int \<Rightarrow> bool \<Rightarrow> string \<Rightarrow> string \<Rightarrow> nat \<Rightarrow> ('a) fs_scheme \<Rightarrow>
    ((nat \<times> string) option \<times> ('a) fs_scheme) option" where
  "namex_loop D pid par path name0 ip s =
     (case skipelem path of
        None \<Rightarrow> if par then do { s1 \<leftarrow> iput pid ip s; Some (None, s1) } else Some (Some (ip, name0), s)
      | Some (name, rest) \<Rightarrow> do {
          s1 \<leftarrow> ilock pid ip s;
          if i_type (icache s1 ip) \<noteq> T_DIR then do { s2 \<leftarrow> iunlockput pid ip s1; Some (None, s2) }
          else if par \<and> rest = [] then do { s2 \<leftarrow> iunlock ip s1; Some (Some (ip, name), s2) }
          else do {
            (r, s2) \<leftarrow> dirlookup D ip name s1;
            s3 \<leftarrow> iunlockput pid ip s2;
            case r of
              None \<Rightarrow> Some (None, s3)
            | Some (next, _) \<Rightarrow> namex_loop D pid par rest name next s3
          }
        })"
  by pat_completeness auto
termination
  by (relation "measure (\<lambda>(D, pid, par, path, name0, ip, s). length path)") (auto simp: skipelem_shorter)

declare namex_loop.simps [simp del]

definition namex :: "('a) fs_scheme devsw \<Rightarrow> int \<Rightarrow> nat \<Rightarrow> bool \<Rightarrow> string \<Rightarrow> ('a) fs_scheme \<Rightarrow>
    ((nat \<times> string) option \<times> ('a) fs_scheme) option" where
  "namex D pid cwd par path s = do {
     (ip, s1) \<leftarrow> (if path \<noteq> [] \<and> hd path = CHR ''/'' then iget ROOTDEV ROOTINO s else Some (cwd, idup cwd s));
     namex_loop D pid par path [] ip s1
   }"

definition namei :: "('a) fs_scheme devsw \<Rightarrow> int \<Rightarrow> nat \<Rightarrow> string \<Rightarrow> ('a) fs_scheme \<Rightarrow>
    (nat option \<times> ('a) fs_scheme) option" where
  "namei D pid cwd path s = map_option (\<lambda>(r, s1). (map_option fst r, s1)) (namex D pid cwd False path s)"

definition nameiparent :: "('a) fs_scheme devsw \<Rightarrow> int \<Rightarrow> nat \<Rightarrow> string \<Rightarrow> ('a) fs_scheme \<Rightarrow>
    ((nat \<times> string) option \<times> ('a) fs_scheme) option" where
  "nameiparent D pid cwd path s = namex D pid cwd True path s"

text \<open>
  \<open>itoa\<close>: the digits come out last first. \<^verbatim>\<open>i *= -1\<close> of the smallest integer overflows in C;
  the model gives the mathematical value.
\<close>

fun digits_rev :: "nat \<Rightarrow> nat \<Rightarrow> string" where
  "digits_rev 0 n = []"
| "digits_rev (Suc fuel) n =
     char_of (48 + n mod 10) # (if n div 10 = 0 then [] else digits_rev fuel (n div 10))"

definition itoa :: "int \<Rightarrow> string" where
  "itoa i = (if i < 0 then ''-'' else []) @ rev (digits_rev (Suc (nat \<bar>i\<bar>)) (nat \<bar>i\<bar>))"

end
