(* ===== verification/Words.thy ===== *)
theory Words
  imports Prelude
begin

text \<open>
  Arithmetic on page addresses: the C expressions \<^verbatim>\<open>a & ~0xFFF\<close> and \<^verbatim>\<open>a & 0xFFF\<close> read as
  natural numbers, and page table entries made of a page address and flag bits.
\<close>


lemma mask12: "(0xFFF :: u32) = mask 12"
  by (simp add: mask_eq_exp_minus_1)

lemma page_base_push: "(a :: u32) AND NOT 0xFFF = push_bit 12 (drop_bit 12 a)"
  unfolding mask12
  by (rule bit_word_eqI) (auto simp: bit_and_iff bit_not_iff bit_mask_iff bit_push_bit_iff bit_drop_bit_eq)

lemma unat_page_base: "unat ((a :: u32) AND NOT 0xFFF) = 4096 * (unat a div 4096)"
proof -
  have l: "unat a < 2 ^ 32" using unsigned_less [of a] by simp
  then have tb: "take_bit 32 (unat a) = unat a" by (rule take_bit_nat_eq_self)
  have "unat (push_bit 12 (drop_bit 12 a)) = take_bit 32 (push_bit 12 (drop_bit 12 (unat a)))"
    by (simp add: unsigned_push_bit_eq unsigned_drop_bit_eq tb)
  also have "push_bit 12 (drop_bit 12 (unat a)) = 4096 * (unat a div 4096)"
    by (simp add: push_bit_eq_mult drop_bit_eq_div)
  also have "take_bit 32 (4096 * (unat a div 4096)) = 4096 * (unat a div 4096)"
    using l times_div_less_eq_dividend[of 4096 "unat a"] by (intro take_bit_nat_eq_self) linarith
  finally show ?thesis unfolding page_base_push .
qed

lemma unat_page_offset: "unat ((a :: u32) AND 0xFFF) = unat a mod 4096"
  unfolding mask12 take_bit_eq_mask [symmetric] by (simp add: unsigned_take_bit_eq take_bit_nat_def)

lemma page_base_dvd: "4096 dvd unat a \<Longrightarrow> (a :: u32) AND NOT 0xFFF = a"
  unfolding word_unat_eq_iff unat_page_base by simp

lemma page_base_or:
  assumes "4096 dvd unat (a :: u32)" and "unat p < 4096"
  shows "(a OR p) AND NOT 0xFFF = a" and "(a OR p) AND 0xFFF = p"
proof -
  have p: "\<not> bit p n" if "12 \<le> n" for n
  proof -
    have "unat p < 2 ^ n" using assms(2) that power_increasing [of 12 n "2 :: nat"] by simp
    then have "take_bit n (unat p) = unat p" by (rule take_bit_nat_eq_self)
    then have "\<not> bit (unat p) n" by (metis bit_take_bit_iff order_less_irrefl)
    then show ?thesis by (simp add: bit_unsigned_iff)
  qed
  have a: "\<not> bit a n" if "n < 12" for n
  proof -
    have "a = push_bit 12 (drop_bit 12 a)" using page_base_dvd [OF assms(1)] unfolding page_base_push by simp
    then show ?thesis using that by (metis bit_push_bit_iff not_le)
  qed
  show "(a OR p) AND NOT 0xFFF = a"
  proof (rule bit_word_eqI)
    fix n
    show "n < LENGTH(32) \<Longrightarrow> bit ((a OR p) AND NOT 0xFFF) n = bit a n"
      unfolding mask12 using p [of n] a [of n] by (cases "n < 12") (auto simp: bit_and_iff bit_or_iff bit_not_iff bit_mask_iff)
  qed
  show "(a OR p) AND 0xFFF = p"
  proof (rule bit_word_eqI)
    fix n
    show "n < LENGTH(32) \<Longrightarrow> bit ((a OR p) AND 0xFFF) n = bit p n"
      unfolding mask12 using p [of n] a [of n] by (cases "n < 12") (auto simp: bit_and_iff bit_or_iff bit_mask_iff)
  qed
qed
lemma add_mod_inj:
  fixes i j n p :: nat
  assumes "(p + i) mod n = (p + j) mod n" and "i < n" and "j < n"
  shows "i = j"
  using assms
proof (induction i j rule: linorder_wlog)
  case (le i j)
  then have "n dvd (p + j) - (p + i)" by (metis mod_eq_dvd_iff_nat add_le_cancel_left)
  then have "n dvd j - i" by simp
  then have "j - i = 0" using le(4) by (metis less_imp_diff_less nat_dvd_not_less neq0_conv)
  then show ?case using le(1) by simp
qed simp


text \<open>A word that is not negative as an int reads the same with and without sign.\<close>

lemma sint_nonneg:
  fixes x :: u32
  assumes "0 \<le> sint x"
  shows "uint x = sint x" and "unat x < 2 ^ 31"
proof -
  have "uint x = uint (word_of_int (sint x) :: u32)" by simp
  also have "\<dots> = sint x mod 2 ^ 32" by (simp only: uint_word_of_int) simp
  also have "\<dots> = sint x" using assms sint_lt [of x] by (intro mod_pos_pos_trivial) auto
  finally show *: "uint x = sint x" .
  have "nat (uint x) < 2 ^ 31" using * sint_lt [of x] by (simp add: nat_less_iff)
  then show "unat x < 2 ^ 31" by simp
qed

end
