(* ===== verification/Kmem.thy ===== *)
theory Kmem
  imports Fs Words
begin

text \<open>
  Physical memory and the page allocator. RAM is mapped at \<open>KERNBASE\<close>, and the kernel
  follows pointers into that window only; \<open>kload\<close> and \<open>kstore\<close> are the 32-bit accesses through such a
  pointer, undefined (\<open>None\<close>) outside the window. The allocator is kalloc.c, which is in the
  repository as the C source lines of the listing kernel.asm: a list of free pages threaded
  through the first word of each.
\<close>

section \<open>Memory\<close>

definition PGSIZE :: nat where "PGSIZE = 4096"
definition KERNBASE :: u32 where "KERNBASE = 0x80000000"
definition EXTMEM :: u32 where "EXTMEM = 0x100000"
definition PHYSTOP :: u32 where "PHYSTOP = 0x400000"
definition DEVSPACE :: u32 where "DEVSPACE = 0xFE000000"
definition KERNLINK :: u32 where "KERNLINK = KERNBASE + EXTMEM"

definition V2P :: "u32 \<Rightarrow> u32" where "V2P a = a - KERNBASE"
definition P2V :: "u32 \<Rightarrow> u32" where "P2V a = a + KERNBASE"

text \<open>The addresses that the linker script gives to \<^verbatim>\<open>data\<close> and \<^verbatim>\<open>end\<close>.\<close>

definition kdata :: u32 where "kdata = 0x80109000"
definition kend :: u32 where "kend = 0x801167e8"

record vm = fs +
  ram :: bytes
  freelist :: u32

definition kptr_ok :: "u32 \<Rightarrow> nat \<Rightarrow> bool" where
  "kptr_ok p n \<longleftrightarrow> KERNBASE \<le> p \<and> unat (V2P p) + n \<le> unat PHYSTOP"

definition kload :: "u32 \<Rightarrow> ('a) vm_scheme \<Rightarrow> u32 option" where
  "kload p s = (if kptr_ok p 4 then Some (get32 (ram s) (unat (V2P p))) else None)"

definition kstore :: "u32 \<Rightarrow> u32 \<Rightarrow> ('a) vm_scheme \<Rightarrow> ('a) vm_scheme option" where
  "kstore p v s = (if kptr_ok p 4 then Some (s\<lparr>ram := put32 (ram s) (unat (V2P p)) v\<rparr>) else None)"

text \<open>\<^verbatim>\<open>memset\<close> and \<^verbatim>\<open>memmove\<close> on a kernel buffer.\<close>

definition fill :: "bytes \<Rightarrow> nat \<Rightarrow> nat \<Rightarrow> u8 \<Rightarrow> bytes" where
  "fill d a n c = (\<lambda>i. if a \<le> i \<and> i < a + n then c else d i)"

definition kmemset :: "u32 \<Rightarrow> u8 \<Rightarrow> nat \<Rightarrow> ('a) vm_scheme \<Rightarrow> ('a) vm_scheme option" where
  "kmemset p c n s = (if kptr_ok p n then Some (s\<lparr>ram := fill (ram s) (unat (V2P p)) n c\<rparr>) else None)"

definition kwrite :: "u32 \<Rightarrow> bytes \<Rightarrow> nat \<Rightarrow> ('a) vm_scheme \<Rightarrow> ('a) vm_scheme option" where
  "kwrite p src n s = (if kptr_ok p n then Some (s\<lparr>ram := blit (ram s) (unat (V2P p)) src 0 n\<rparr>) else None)"

definition kread :: "u32 \<Rightarrow> nat \<Rightarrow> ('a) vm_scheme \<Rightarrow> bytes option" where
  "kread p n s = (if kptr_ok p n then Some (\<lambda>i. ram s (unat (V2P p) + i)) else None)"

section \<open>The page allocator\<close>

definition PGROUNDUP :: "u32 \<Rightarrow> u32" where
  "PGROUNDUP sz = (sz + 4096 - 1) AND NOT 0xFFF"

definition PGROUNDDOWN :: "u32 \<Rightarrow> u32" where
  "PGROUNDDOWN a = a AND NOT 0xFFF"

definition kfree :: "u32 \<Rightarrow> ('a) vm_scheme \<Rightarrow> ('a) vm_scheme option" where
  "kfree v s =
     (if v mod 4096 \<noteq> 0 \<or> v < kend \<or> PHYSTOP \<le> V2P v then None
      else do {
        s1 \<leftarrow> kmemset v 1 PGSIZE s;
        s2 \<leftarrow> kstore v (freelist s1) s1;
        Some (s2\<lparr>freelist := v\<rparr>)
      })"

text \<open>The loop of \<^verbatim>\<open>freerange\<close> visits the whole pages between its bounds.\<close>

definition freerange :: "u32 \<Rightarrow> u32 \<Rightarrow> ('a) vm_scheme \<Rightarrow> ('a) vm_scheme option" where
  "freerange vstart vend s = (let p = PGROUNDUP vstart in
     run kfree (map (\<lambda>i. p + of_nat (i * PGSIZE)) [0..<(unat vend - unat p) div PGSIZE]) s)"

text \<open>\<open>kalloc\<close> returns the null pointer when no page is left.\<close>

definition kalloc :: "('a) vm_scheme \<Rightarrow> (u32 \<times> ('a) vm_scheme) option" where
  "kalloc s =
     (if freelist s = 0 then Some (0, s)
      else do { r \<leftarrow> kload (freelist s) s; Some (freelist s, s\<lparr>freelist := r\<rparr>) })"

section \<open>Pages\<close>

text \<open>A page that \<open>kfree\<close> accepts, the addresses that it covers, and the state of a page's bytes.\<close>

definition upage :: "u32 \<Rightarrow> bool" where
  "upage v \<longleftrightarrow> v mod 4096 = 0 \<and> kend \<le> v \<and> V2P v < PHYSTOP"

definition page_of :: "u32 \<Rightarrow> nat set" where
  "page_of v = {unat (V2P v)..<unat (V2P v) + PGSIZE}"

lemma upage_bounds:
  assumes "upage v"
  shows "KERNBASE \<le> v" "v \<noteq> 0" "PGSIZE dvd unat (V2P v)" "unat (V2P v) + PGSIZE \<le> unat PHYSTOP"
proof -
  have k: "kend \<le> v" and m: "v mod 4096 = 0" and l: "V2P v < PHYSTOP" using assms by (simp_all add: upage_def)
  have kb: "KERNBASE \<le> kend" by (simp add: KERNBASE_def kend_def)
  show K: "KERNBASE \<le> v" using k kb by (rule order_trans [rotated])
  then show "v \<noteq> 0" by (auto simp: KERNBASE_def)
  have u: "unat (V2P v) = unat v - PGSIZE * 524288" using K by (simp add: V2P_def unat_sub KERNBASE_def PGSIZE_def)
  have "unat (v mod 4096) = unat v mod PGSIZE" by (simp add: unat_mod PGSIZE_def)
  then have "PGSIZE dvd unat v" using m by (simp add: dvd_eq_mod_eq_0)
  then show M: "PGSIZE dvd unat (V2P v)" unfolding u by (intro dvd_diff_nat) simp_all
  have "unat (V2P v) < unat PHYSTOP" using l by (simp add: word_less_nat_alt)
  also have "unat PHYSTOP = PGSIZE * 1024" by (simp add: PHYSTOP_def PGSIZE_def)
  finally obtain k where k: "unat (V2P v) = PGSIZE * k" "PGSIZE * k < PGSIZE * 1024" using M by (metis dvdE)
  then have "Suc k \<le> 1024" by simp
  then have "PGSIZE * Suc k \<le> PGSIZE * 1024" by (rule mult_le_mono2)
  then show "unat (V2P v) + PGSIZE \<le> unat PHYSTOP" using k(1) \<open>unat PHYSTOP = _\<close> by simp
qed

lemma upage_ptr_ok: "upage v \<Longrightarrow> n \<le> PGSIZE \<Longrightarrow> kptr_ok v n"
  using upage_bounds [of v] by (simp add: kptr_ok_def)

lemma page_of_disjoint:
  assumes "upage v" "upage w" "v \<noteq> w"
  shows "page_of v \<inter> page_of w = {}"
proof -
  obtain i j where ij: "unat (V2P v) = PGSIZE * i" "unat (V2P w) = PGSIZE * j"
    using upage_bounds(3) [OF assms(1)] upage_bounds(3) [OF assms(2)] by (auto elim!: dvdE)
  have "V2P v \<noteq> V2P w" using assms(3) by (simp add: V2P_def)
  then have "i \<noteq> j" using ij by (auto simp: word_unat_eq_iff)
  then have "Suc i \<le> j \<or> Suc j \<le> i" by linarith
  then have "PGSIZE * Suc i \<le> PGSIZE * j \<or> PGSIZE * Suc j \<le> PGSIZE * i" using mult_le_mono2 by blast
  then show ?thesis by (auto simp: page_of_def ij)
qed

section \<open>The free list\<close>

text \<open>\<open>flist m xs p\<close>: following the first words of the pages from pointer \<open>p\<close> visits \<open>xs\<close>.\<close>

fun flist :: "bytes \<Rightarrow> u32 list \<Rightarrow> u32 \<Rightarrow> bool" where
  "flist m [] p \<longleftrightarrow> p = 0"
| "flist m (x # xs) p \<longleftrightarrow> p = x \<and> upage x \<and> flist m xs (get32 m (unat (V2P x)))"

definition free_pages :: "('a) vm_scheme \<Rightarrow> u32 list \<Rightarrow> bool" where
  "free_pages s xs \<longleftrightarrow> flist (ram s) xs (freelist s) \<and> distinct xs"

lemma flist_upage: "flist m xs p \<Longrightarrow> x \<in> set xs \<Longrightarrow> upage x"
  by (induction xs arbitrary: p) auto

lemma get32_page:
  assumes "\<And>i. i \<in> page_of x \<Longrightarrow> m' i = m i"
  shows "get32 m' (unat (V2P x)) = get32 m (unat (V2P x))"
  using assms by (intro get32_cong) (simp add: page_of_def PGSIZE_def)

lemma flist_cong:
  "(\<And>x i. x \<in> set xs \<Longrightarrow> i \<in> page_of x \<Longrightarrow> m' i = m i) \<Longrightarrow> flist m' xs p \<longleftrightarrow> flist m xs p"
proof (induction xs arbitrary: p)
  case (Cons x xs)
  have "get32 m' (unat (V2P x)) = get32 m (unat (V2P x))" 
    using Cons.prems [of x] by (intro get32_page) simp
  moreover have "flist m' xs q = flist m xs q" for q by (intro Cons.IH Cons.prems) simp_all
  ultimately show ?case by simp
qed simp

lemma flist_unique: "flist m xs p \<Longrightarrow> flist m ys p \<Longrightarrow> xs = ys"
proof (induction xs arbitrary: p ys)
  case Nil
  then show ?case by (cases ys) (auto dest: upage_bounds(2))
next
  case (Cons x xs)
  then show ?case by (cases ys) (auto dest: upage_bounds(2))
qed

lemma free_pages_upage: "free_pages s xs \<Longrightarrow> x \<in> set xs \<Longrightarrow> upage x"
  by (auto simp: free_pages_def dest: flist_upage)

lemma free_pages_unique: "free_pages s xs \<Longrightarrow> free_pages s ys \<Longrightarrow> xs = ys"
  by (auto simp: free_pages_def dest: flist_unique)

lemma free_pages_cong:
  assumes "freelist s' = freelist s" and "\<And>x i. x \<in> set xs \<Longrightarrow> i \<in> page_of x \<Longrightarrow> ram s' i = ram s i"
  shows "free_pages s' xs \<longleftrightarrow> free_pages s xs"
  using flist_cong [of xs "ram s'" "ram s"] assms by (simp add: free_pages_def)

lemma kalloc_Nil: "free_pages s [] \<Longrightarrow> kalloc s = Some (0, s)"
  by (simp add: free_pages_def kalloc_def)

definition list_head :: "u32 list \<Rightarrow> u32" where
  "list_head xs = (case xs of [] \<Rightarrow> 0 | x # _ \<Rightarrow> x)"

lemma flist_head: "flist m xs p \<Longrightarrow> p = list_head xs"
  by (cases xs) (auto simp: list_head_def)

lemma kalloc_Cons:
  assumes "free_pages s (x # xs)"
  shows "kalloc s = Some (x, s\<lparr>freelist := list_head xs\<rparr>)" and "free_pages (s\<lparr>freelist := list_head xs\<rparr>) xs"
proof -
  have f: "freelist s = x" "upage x" "flist (ram s) xs (get32 (ram s) (unat (V2P x)))" and d: "distinct xs"
    using assms by (simp_all add: free_pages_def)
  have h: "get32 (ram s) (unat (V2P x)) = list_head xs" using flist_head [OF f(3)] .
  have "kload x s = Some (list_head xs)"
    using upage_ptr_ok [OF f(2), of 4] h by (simp add: kload_def PGSIZE_def)
  then show "kalloc s = Some (x, s\<lparr>freelist := list_head xs\<rparr>)"
    using f(1) upage_bounds(2) [OF f(2)] by (simp add: kalloc_def)
  show "free_pages (s\<lparr>freelist := list_head xs\<rparr>) xs"
    using f(3) h d by (simp add: free_pages_def)
qed

text \<open>A freed page holds the link in its first word and the byte 1 elsewhere.\<close>

definition junk :: "u32 \<Rightarrow> u32 \<Rightarrow> bytes \<Rightarrow> bytes" where
  "junk v p m = put32 (fill m (unat (V2P v)) PGSIZE 1) (unat (V2P v)) p"

lemma junk_other: "i \<notin> page_of v \<Longrightarrow> junk v p m i = m i"
  by (auto simp: junk_def put32_def fill_def page_of_def PGSIZE_def)

lemma kfree_upage:
  assumes "upage v"
  shows "kfree v s = Some (s\<lparr>ram := junk v (freelist s) (ram s), freelist := v\<rparr>)"
  using assms upage_ptr_ok [OF assms, of 4] upage_ptr_ok [OF assms, of PGSIZE]
  by (simp add: kfree_def upage_def not_le not_less kmemset_def kstore_def junk_def PGSIZE_def)

lemma kfree_panics: "\<not> upage v \<Longrightarrow> kfree v s = None"
  by (auto simp: kfree_def upage_def not_le not_less)

lemma kfree_pages:
  assumes "free_pages s xs" and "upage v" and "v \<notin> set xs"
  shows "free_pages (s\<lparr>ram := junk v (freelist s) (ram s), freelist := v\<rparr>) (v # xs)"
proof -
  have "junk v (freelist s) (ram s) i = ram s i" if "x \<in> set xs" "i \<in> page_of x" for x i
  proof -
    have "page_of x \<inter> page_of v = {}"
      using free_pages_upage [OF assms(1) that(1)] assms(2,3) that(1) by (intro page_of_disjoint) auto
    then show ?thesis using that(2) by (intro junk_other) auto
  qed
  then have "flist (junk v (freelist s) (ram s)) xs (freelist s)"
    using flist_cong [of xs "junk v (freelist s) (ram s)" "ram s"] assms(1) by (simp add: free_pages_def)
  then show ?thesis using assms by (simp add: free_pages_def junk_def)
qed

section \<open>The allocator as an interface\<close>

text \<open>
  \<open>pages s xs\<close> is the abstract state of a page allocator, and \<open>touch U s s'\<close> says that between
  \<open>s\<close> and \<open>s'\<close> only the contents of the pages \<open>U\<close> have changed.
\<close>

inductive use_pages :: "('s \<Rightarrow> ('p \<times> 's) option) \<Rightarrow> ('p \<Rightarrow> 's \<Rightarrow> 's option) \<Rightarrow> 'p \<Rightarrow> ('p set \<Rightarrow> 's \<Rightarrow> 's \<Rightarrow> bool) \<Rightarrow>
    's \<times> 'p set \<Rightarrow> 's \<times> 'p set \<Rightarrow> bool"
  for alloc free null touch where
  use_alloc: "alloc s = Some (p, s') \<Longrightarrow> use_pages alloc free null touch (s, U) (s', if p = null then U else insert p U)"
| use_free: "v \<in> U \<Longrightarrow> free v s = Some s' \<Longrightarrow> use_pages alloc free null touch (s, U) (s', U - {v})"
| use_touch: "touch U s s' \<Longrightarrow> use_pages alloc free null touch (s, U) (s', U)"

inductive_cases use_pagesE: "use_pages alloc free null touch (s, U) (s', U')"

locale page_allocator =
  fixes alloc :: "'s \<Rightarrow> ('p \<times> 's) option" and free :: "'p \<Rightarrow> 's \<Rightarrow> 's option" and null :: 'p
    and touch :: "'p set \<Rightarrow> 's \<Rightarrow> 's \<Rightarrow> bool" and pages :: "'s \<Rightarrow> 'p list \<Rightarrow> bool" and page :: "'p \<Rightarrow> bool"
  assumes alloc_empty: "pages s [] \<Longrightarrow> alloc s = Some (null, s)"
    and alloc_first: "pages s (x # xs) \<Longrightarrow> \<exists>s'. alloc s = Some (x, s') \<and> pages s' xs"
    and free_first: "pages s xs \<Longrightarrow> page v \<Longrightarrow> v \<notin> set xs \<Longrightarrow> \<exists>s'. free v s = Some s' \<and> pages s' (v # xs)"
    and touch_pages: "pages s xs \<Longrightarrow> U \<inter> set xs = {} \<Longrightarrow> \<forall>p \<in> U. page p \<Longrightarrow> touch U s s' \<Longrightarrow> pages s' xs"
    and pages_wf: "pages s xs \<Longrightarrow> distinct xs \<and> (\<forall>p \<in> set xs. page p \<and> p \<noteq> null)"
begin

definition owned :: "'p set \<Rightarrow> 's \<times> 'p set \<Rightarrow> bool" where
  "owned A c \<longleftrightarrow> (\<exists>xs. pages (fst c) xs \<and> snd c \<inter> set xs = {} \<and> snd c \<union> set xs = A) \<and> (\<forall>p \<in> snd c. page p)"

lemma owned_step:
  assumes "use_pages alloc free null touch c c'" and "owned A c"
  shows "owned A c'"
  using assms
proof (induction rule: use_pages.induct)
  case (use_alloc s p s' U)
  then obtain xs where xs: "pages s xs" "U \<inter> set xs = {}" "U \<union> set xs = A" "\<forall>p \<in> U. page p"
    by (auto simp: owned_def)
  show ?case
  proof (cases xs)
    case Nil
    then show ?thesis using use_alloc(1) alloc_empty [of s] xs by (auto simp: owned_def intro: exI [of _ "[]"])
  next
    case (Cons x ys)
    then obtain t where t: "alloc s = Some (x, t)" "pages t ys" using alloc_first xs(1) by blast
    have "page x" "x \<noteq> null" "x \<notin> set ys" using pages_wf [OF xs(1)] Cons by auto
    then show ?thesis using use_alloc(1) t xs Cons by (auto simp: owned_def intro!: exI [of _ ys])
  qed
next
  case (use_free v U s s')
  then obtain xs where xs: "pages s xs" "U \<inter> set xs = {}" "U \<union> set xs = A" "\<forall>p \<in> U. page p"
    by (auto simp: owned_def)
  have v: "page v" "v \<notin> set xs" using xs use_free(1) by auto
  obtain t where "free v s = Some t" "pages t (v # xs)" using free_first [OF xs(1) v] by blast
  then show ?case using use_free(1,2) xs by (auto simp: owned_def intro!: exI [of _ "v # xs"])
next
  case (use_touch U s s')
  then obtain xs where xs: "pages s xs" "U \<inter> set xs = {}" "U \<union> set xs = A" "\<forall>p \<in> U. page p"
    by (auto simp: owned_def)
  have "pages s' xs" by (rule touch_pages [OF xs(1,2,4) use_touch(1)])
  then show ?case using xs by (auto simp: owned_def)
qed

lemma owned_reachable:
  assumes "(use_pages alloc free null touch)\<^sup>*\<^sup>* (s, {}) c" and "pages s xs"
  shows "owned (set xs) c"
  using assms(1)
proof (induction rule: rtranclp_induct)
  case base
  then show ?case using assms(2) by (auto simp: owned_def)
next
  case (step c d)
  then show ?case using owned_step by blast
qed

lemma owned_alloc:
  assumes "owned A (s, U)"
  shows "\<exists>p s'. alloc s = Some (p, s') \<and> (if U = A then p = null else p \<in> A - U \<and> p \<noteq> null)"
proof -
  obtain xs where xs: "pages s xs" "U \<inter> set xs = {}" "U \<union> set xs = A" using assms by (auto simp: owned_def)
  show ?thesis
  proof (cases xs)
    case Nil
    then show ?thesis using alloc_empty [of s] xs by auto
  next
    case (Cons x ys)
    then obtain t where "alloc s = Some (x, t)" using alloc_first xs(1) by blast
    moreover have "x \<noteq> null" using pages_wf [OF xs(1)] Cons by auto
    ultimately show ?thesis using xs Cons by auto
  qed
qed

lemma owned_free:
  assumes "owned A (s, U)" and "v \<in> U"
  shows "\<exists>s'. free v s = Some s'"
proof -
  obtain xs where xs: "pages s xs" "U \<inter> set xs = {}" "\<forall>p \<in> U. page p" using assms(1) by (auto simp: owned_def)
  then show ?thesis using free_first [OF xs(1), of v] assms(2) by auto
qed

end

definition touch_ram :: "u32 set \<Rightarrow> ('a) vm_scheme \<Rightarrow> ('a) vm_scheme \<Rightarrow> bool" where
  "touch_ram U s s' \<longleftrightarrow> freelist s' = freelist s \<and> (\<forall>i. (\<forall>p \<in> U. i \<notin> page_of p) \<longrightarrow> ram s' i = ram s i)"

lemma touch_free_pages:
  assumes "free_pages s xs" and "U \<inter> set xs = {}" and "\<forall>p \<in> U. upage p" and "touch_ram U s s'"
  shows "free_pages s' xs"
proof -
  have "ram s' i = ram s i" if "x \<in> set xs" "i \<in> page_of x" for x i
  proof -
    have "i \<notin> page_of p" if "p \<in> U" for p
    proof -
      have "page_of x \<inter> page_of p = {}"
        using free_pages_upage [OF assms(1) \<open>x \<in> set xs\<close>] assms(2,3) that \<open>x \<in> set xs\<close> by (intro page_of_disjoint) auto
      then show ?thesis using \<open>i \<in> page_of x\<close> by blast
    qed
    then show ?thesis using assms(4) by (simp add: touch_ram_def)
  qed
  then show ?thesis using assms(1,4) free_pages_cong [of s' s xs] by (simp add: touch_ram_def)
qed

interpretation km: page_allocator kalloc kfree 0 touch_ram free_pages upage
proof
  fix s :: "('a) vm_scheme" and s' :: "('a) vm_scheme" and x :: u32 and xs :: "u32 list" and U :: "u32 set" and v :: u32
  show "free_pages s [] \<Longrightarrow> kalloc s = Some (0, s)" by (rule kalloc_Nil)
  show "\<exists>s'. kalloc s = Some (x, s') \<and> free_pages s' xs" if "free_pages s (x # xs)"
    using kalloc_Cons [OF that] by blast
  show "\<exists>s'. kfree v s = Some s' \<and> free_pages s' (v # xs)" if "free_pages s xs" "upage v" "v \<notin> set xs"
    using kfree_upage [OF that(2)] kfree_pages [OF that] by blast
  show "free_pages s xs \<Longrightarrow> U \<inter> set xs = {} \<Longrightarrow> \<forall>p \<in> U. upage p \<Longrightarrow> touch_ram U s s' \<Longrightarrow> free_pages s' xs"
    by (rule touch_free_pages)
  show "distinct xs \<and> (\<forall>p \<in> set xs. upage p \<and> p \<noteq> 0)" if "free_pages s xs"
    using that free_pages_upage [OF that] upage_bounds(2) by (auto simp: free_pages_def)
qed

section \<open>The boot-time free list\<close>

lemma PGROUNDUP_bounds:
  assumes "v \<le> 0xFFFFF000"
  shows "4096 dvd unat (PGROUNDUP v)" "unat v \<le> unat (PGROUNDUP v)" "unat (PGROUNDUP v) < unat v + 4096"
proof -
  have "unat v \<le> 4294963200" using assms by (simp add: word_le_nat_alt)
  then have "unat (v + 4095) = unat v + 4095" by (simp add: unat_word_ariths)
  then have e: "unat (PGROUNDUP v) = 4096 * ((unat v + 4095) div 4096)"
    using unat_page_base [of "v + 4095"] by (simp add: PGROUNDUP_def add.commute)
  show "4096 dvd unat (PGROUNDUP v)" by (simp add: e)
  have "unat v + 4095 = 4096 * ((unat v + 4095) div 4096) + (unat v + 4095) mod 4096" by simp
  moreover have "(unat v + 4095) mod 4096 < 4096" by simp
  ultimately show "unat v \<le> unat (PGROUNDUP v)" "unat (PGROUNDUP v) < unat v + 4096" unfolding e by linarith+
qed

lemma upageI:
  assumes "4096 dvd unat v" "kend \<le> v" "unat v < 2151677952"
  shows "upage v"
proof -
  have "unat (v mod 4096) = unat v mod 4096" by (simp add: unat_mod)
  then have m: "v mod 4096 = 0" using assms(1) by (simp add: word_unat_eq_iff dvd_eq_mod_eq_0)
  have "KERNBASE \<le> v" using assms(2) order_trans [of KERNBASE kend v] by (simp add: KERNBASE_def kend_def)
  then have "unat (V2P v) = unat v - 2147483648" by (simp add: V2P_def unat_sub KERNBASE_def)
  then have "V2P v < PHYSTOP" using assms(3) by (simp add: word_less_nat_alt PHYSTOP_def)
  then show ?thesis using m assms(2) by (simp add: upage_def)
qed

lemma run_kfree:
  assumes "free_pages s xs" and "distinct vs" and "\<forall>v \<in> set vs. upage v \<and> v \<notin> set xs"
  shows "\<exists>s'. run kfree vs s = Some s' \<and> free_pages s' (rev vs @ xs)"
  using assms
proof (induction vs arbitrary: s xs)
  case (Cons v vs)
  let ?s1 = "s\<lparr>ram := junk v (freelist s) (ram s), freelist := v\<rparr>"
  have "free_pages ?s1 (v # xs)" using Cons.prems by (intro kfree_pages) auto
  moreover have "distinct vs" "\<forall>w \<in> set vs. upage w \<and> w \<notin> set (v # xs)" using Cons.prems by auto
  ultimately obtain s' where "run kfree vs ?s1 = Some s'" "free_pages s' (rev vs @ v # xs)"
    using Cons.IH by blast
  then show ?case using Cons.prems(3) kfree_upage [of v s] by auto
qed simp

end
