(* ===== verification/Vm.thy ===== *)
theory Vm
  imports Kmem
begin

text \<open>
  vm.c of the demand-paging kernel: page directories and page tables in memory. A pointer to a
  page directory or to an entry is a kernel virtual address; the null pointer is 0. What the hardware does with
  a page directory is \<open>translate\<close>. The functions that call the swapper are in the theory Swap.
\<close>

section \<open>Page tables\<close>

definition PDX :: "u32 \<Rightarrow> nat" where "PDX va = unat (drop_bit 22 va AND 0x3FF)"
definition PTX :: "u32 \<Rightarrow> nat" where "PTX va = unat (drop_bit 12 va AND 0x3FF)"

definition PGADDR :: "nat \<Rightarrow> u32" where
  "PGADDR d = push_bit 22 (of_nat d)"

definition PTE_P :: u32 where "PTE_P = 0x001"
definition PTE_W :: u32 where "PTE_W = 0x002"
definition PTE_U :: u32 where "PTE_U = 0x004"
definition PTE_A :: u32 where "PTE_A = 0x020"
definition PTE_SWAPPED :: u32 where "PTE_SWAPPED = 0x200"

definition PTE_ADDR :: "u32 \<Rightarrow> u32" where "PTE_ADDR pte = pte AND NOT 0xFFF"
definition PTE_FLAGS :: "u32 \<Rightarrow> u32" where "PTE_FLAGS pte = pte AND 0xFFF"

definition NPDENTRIES :: nat where "NPDENTRIES = 1024"

definition walkpgdir :: "u32 \<Rightarrow> u32 \<Rightarrow> bool \<Rightarrow> ('a) vm_scheme \<Rightarrow> (u32 \<times> ('a) vm_scheme) option" where
  "walkpgdir pgdir va alloc s = do {
     let pde = pgdir + 4 * of_nat (PDX va);
     e \<leftarrow> kload pde s;
     if e AND PTE_P \<noteq> 0 then Some (P2V (PTE_ADDR e) + 4 * of_nat (PTX va), s)
     else if \<not> alloc then Some (0, s)
     else do {
       (pgtab, s1) \<leftarrow> kalloc s;
       if pgtab = 0 then Some (0, s1)
       else do {
         s2 \<leftarrow> kmemset pgtab 0 PGSIZE s1;
         s3 \<leftarrow> kstore pde (V2P pgtab OR PTE_P OR PTE_W OR PTE_U) s2;
         Some (pgtab + 4 * of_nat (PTX va), s3)
       }
     }
   }"

text \<open>
  The loop of \<open>mappages\<close> over the pages from \<open>a\<close> to \<open>last\<close>; the result is the C return value.
  \<open>strict\<close> tells the copy in vm.c, which panics on a present entry, from the one in paging.c.
\<close>

fun mappages_loop :: "bool \<Rightarrow> u32 \<Rightarrow> u32 \<Rightarrow> (u32 \<times> u32) list \<Rightarrow> ('a) vm_scheme \<Rightarrow> (int \<times> ('a) vm_scheme) option" where
  "mappages_loop strict pgdir perm [] s = Some (0, s)"
| "mappages_loop strict pgdir perm ((a, pa) # ps) s = do {
     (pte, s1) \<leftarrow> walkpgdir pgdir a True s;
     if pte = 0 then Some (- 1, s1)
     else do {
       e \<leftarrow> kload pte s1;
       if strict \<and> e AND PTE_P \<noteq> 0 then None
       else do {
         s2 \<leftarrow> kstore pte (pa OR perm OR PTE_P) s1;
         mappages_loop strict pgdir perm ps s2
       }
     }
   }"

definition page_range :: "u32 \<Rightarrow> u32 \<Rightarrow> u32 \<Rightarrow> (u32 \<times> u32) list" where
  "page_range a last1 pa =
     map (\<lambda>i. (a + of_nat (i * PGSIZE), pa + of_nat (i * PGSIZE))) [0..<unat (last1 - a) div PGSIZE + 1]"

definition mappages :: "u32 \<Rightarrow> u32 \<Rightarrow> u32 \<Rightarrow> u32 \<Rightarrow> u32 \<Rightarrow> ('a) vm_scheme \<Rightarrow> (int \<times> ('a) vm_scheme) option" where
  "mappages pgdir va sz pa perm s =
     mappages_loop True pgdir perm (page_range (PGROUNDDOWN va) (PGROUNDDOWN (va + sz - 1)) pa) s"

definition paging_mappages :: "u32 \<Rightarrow> u32 \<Rightarrow> u32 \<Rightarrow> u32 \<Rightarrow> u32 \<Rightarrow> ('a) vm_scheme \<Rightarrow> (int \<times> ('a) vm_scheme) option" where
  "paging_mappages pgdir va sz pa perm s =
     mappages_loop False pgdir perm (page_range (PGROUNDDOWN va) (PGROUNDDOWN (va + sz - 1)) pa) s"

section \<open>Releasing memory\<close>

text \<open>
  The loop of \<open>deallocuvm\<close>; it runs for ever when \<open>a\<close> wraps around below \<open>oldsz\<close>. \<open>swapping\<close>
  tells the copy in vm.c, which frees the blocks of swapped pages, from \<open>deallocuvmXV7\<close> in
  paging.c.
\<close>

partial_function (option) deallocuvm_loop :: "bool \<Rightarrow> u32 \<Rightarrow> u32 \<Rightarrow> u32 \<Rightarrow> ('a) vm_scheme \<Rightarrow> ('a) vm_scheme option" where
  "deallocuvm_loop swapping pgdir a oldsz s =
     (if \<not> a < oldsz then Some s
      else Option.bind (walkpgdir pgdir a False s) (\<lambda>(pte, s1).
        if pte = 0 then deallocuvm_loop swapping pgdir (PGADDR (PDX a + 1)) oldsz s1
        else Option.bind (kload pte s1) (\<lambda>e.
          if swapping \<and> e AND PTE_SWAPPED \<noteq> 0 then
            Option.bind (bfree_page (unat (drop_bit 12 e)) s1) (\<lambda>s2. deallocuvm_loop swapping pgdir (a + 4096) oldsz s2)
          else if e AND PTE_P \<noteq> 0 then
            (if PTE_ADDR e = 0 then None
             else Option.bind (kfree (P2V (PTE_ADDR e)) s1) (\<lambda>s2.
               Option.bind (kstore pte 0 s2) (\<lambda>s3. deallocuvm_loop swapping pgdir (a + 4096) oldsz s3)))
          else deallocuvm_loop swapping pgdir (a + 4096) oldsz s1)))"

definition deallocuvm :: "u32 \<Rightarrow> u32 \<Rightarrow> u32 \<Rightarrow> ('a) vm_scheme \<Rightarrow> (u32 \<times> ('a) vm_scheme) option" where
  "deallocuvm pgdir oldsz newsz s =
     (if oldsz \<le> newsz then Some (oldsz, s)
      else do { s1 \<leftarrow> deallocuvm_loop True pgdir (PGROUNDUP newsz) oldsz s; Some (newsz, s1) })"

definition deallocuvmXV7 :: "u32 \<Rightarrow> u32 \<Rightarrow> u32 \<Rightarrow> ('a) vm_scheme \<Rightarrow> (u32 \<times> ('a) vm_scheme) option" where
  "deallocuvmXV7 pgdir oldsz newsz s =
     (if oldsz \<le> newsz then Some (oldsz, s)
      else do { s1 \<leftarrow> deallocuvm_loop False pgdir (PGROUNDUP newsz) oldsz s; Some (newsz, s1) })"

definition free_table :: "u32 \<Rightarrow> nat \<Rightarrow> ('a) vm_scheme \<Rightarrow> ('a) vm_scheme option" where
  "free_table pgdir i s = do {
     e \<leftarrow> kload (pgdir + 4 * of_nat i) s;
     if e AND PTE_P \<noteq> 0 then kfree (P2V (PTE_ADDR e)) s else Some s
   }"

definition freevm :: "u32 \<Rightarrow> ('a) vm_scheme \<Rightarrow> ('a) vm_scheme option" where
  "freevm pgdir s =
     (if pgdir = 0 then None
      else do {
        (_, s1) \<leftarrow> deallocuvm pgdir KERNBASE 0 s;
        s2 \<leftarrow> run (free_table pgdir) [0..<NPDENTRIES] s1;
        kfree pgdir s2
      })"

section \<open>The kernel part\<close>

record kmap =
  k_virt :: u32
  k_phys_start :: u32
  k_phys_end :: u32
  k_perm :: u32

definition kmaps :: "kmap list" where
  "kmaps =
    [\<lparr>k_virt = KERNBASE, k_phys_start = 0, k_phys_end = EXTMEM, k_perm = PTE_W\<rparr>,
     \<lparr>k_virt = KERNLINK, k_phys_start = V2P KERNLINK, k_phys_end = V2P kdata, k_perm = 0\<rparr>,
     \<lparr>k_virt = kdata, k_phys_start = V2P kdata, k_phys_end = PHYSTOP, k_perm = PTE_W\<rparr>,
     \<lparr>k_virt = DEVSPACE, k_phys_start = DEVSPACE, k_phys_end = 0, k_perm = PTE_W\<rparr>]"

fun map_kernel :: "u32 \<Rightarrow> kmap list \<Rightarrow> ('a) vm_scheme \<Rightarrow> (bool \<times> ('a) vm_scheme) option" where
  "map_kernel pgdir [] s = Some (True, s)"
| "map_kernel pgdir (k # ks) s = do {
     (r, s1) \<leftarrow> mappages pgdir (k_virt k) (k_phys_end k - k_phys_start k) (k_phys_start k) (k_perm k) s;
     if r < 0 then Some (False, s1) else map_kernel pgdir ks s1
   }"

definition setupkvm :: "('a) vm_scheme \<Rightarrow> (u32 \<times> ('a) vm_scheme) option" where
  "setupkvm s = do {
     (pgdir, s1) \<leftarrow> kalloc s;
     if pgdir = 0 then Some (0, s1)
     else do {
       s2 \<leftarrow> kmemset pgdir 0 PGSIZE s1;
       if P2V PHYSTOP > DEVSPACE then None
       else do {
         (ok, s3) \<leftarrow> map_kernel pgdir kmaps s2;
         if ok then Some (pgdir, s3)
         else do { s4 \<leftarrow> freevm pgdir s3; Some (0, s4) }
       }
     }
   }"

section \<open>The user part\<close>

definition inituvm :: "u32 \<Rightarrow> bytes \<Rightarrow> u32 \<Rightarrow> ('a) vm_scheme \<Rightarrow> ('a) vm_scheme option" where
  "inituvm pgdir init1 sz s =
     (if sz \<ge> 4096 then None
      else do {
        (m, s1) \<leftarrow> kalloc s;
        s2 \<leftarrow> kmemset m 0 PGSIZE s1;
        (_, s3) \<leftarrow> mappages pgdir 0 4096 (V2P m) (PTE_W OR PTE_U) s2;
        kwrite m init1 (unat sz) s3
      })"

text \<open>The loop of \<open>loaduvm\<close>: \<open>is\<close> are the offsets 0, PGSIZE, 2 * PGSIZE, ... below \<open>sz\<close>.\<close>

fun loaduvm_loop :: "('a) vm_scheme devsw \<Rightarrow> u32 \<Rightarrow> u32 \<Rightarrow> nat \<Rightarrow> u32 \<Rightarrow> u32 \<Rightarrow> u32 list \<Rightarrow> ('a) vm_scheme \<Rightarrow>
    (int \<times> ('a) vm_scheme) option" where
  "loaduvm_loop D pgdir addr ip offset sz [] s = Some (0, s)"
| "loaduvm_loop D pgdir addr ip offset sz (i # is) s = do {
     (pte, s1) \<leftarrow> walkpgdir pgdir (addr + i) False s;
     if pte = 0 then None
     else do {
       e \<leftarrow> kload pte s1;
       let pa = PTE_ADDR e;
       let n = (if sz - i < 4096 then sz - i else 4096);
       dst \<leftarrow> kread (P2V pa) PGSIZE s1;
       (r, dst', s2) \<leftarrow> readi D ip dst (offset + i) n s1;
       s3 \<leftarrow> kwrite (P2V pa) dst' PGSIZE s2;
       if word_of_int r \<noteq> n then Some (- 1, s3) else loaduvm_loop D pgdir addr ip offset sz is s3
     }
   }"

definition page_steps :: "u32 \<Rightarrow> u32 list" where
  "page_steps sz = map (\<lambda>k. of_nat (k * PGSIZE)) [0..<(unat sz + PGSIZE - 1) div PGSIZE]"

definition loaduvm :: "('a) vm_scheme devsw \<Rightarrow> u32 \<Rightarrow> u32 \<Rightarrow> nat \<Rightarrow> u32 \<Rightarrow> u32 \<Rightarrow> ('a) vm_scheme \<Rightarrow>
    (int \<times> ('a) vm_scheme) option" where
  "loaduvm D pgdir addr ip offset sz s =
     (if addr mod 4096 \<noteq> 0 then None else loaduvm_loop D pgdir addr ip offset sz (page_steps sz) s)"

text \<open>The loop of \<open>allocuvm\<close> over the pages from \<open>PGROUNDUP oldsz\<close>; \<open>newsz\<close> is below \<open>KERNBASE\<close>.\<close>

fun allocuvm_loop :: "u32 \<Rightarrow> u32 \<Rightarrow> u32 \<Rightarrow> u32 list \<Rightarrow> ('a) vm_scheme \<Rightarrow> (u32 \<times> ('a) vm_scheme) option" where
  "allocuvm_loop pgdir oldsz newsz [] s = Some (newsz, s)"
| "allocuvm_loop pgdir oldsz newsz (a # as) s = do {
     (m, s1) \<leftarrow> kalloc s;
     if m = 0 then do { (_, s2) \<leftarrow> deallocuvm pgdir newsz oldsz s1; Some (0, s2) }
     else do {
       s2 \<leftarrow> kmemset m 0 PGSIZE s1;
       (r, s3) \<leftarrow> mappages pgdir a 4096 (V2P m) (PTE_W OR PTE_U) s2;
       if r < 0 then do {
         (_, s4) \<leftarrow> deallocuvm pgdir newsz oldsz s3;
         s5 \<leftarrow> kfree m s4;
         Some (0, s5)
       }
       else allocuvm_loop pgdir oldsz newsz as s3
     }
   }"

definition allocuvm :: "u32 \<Rightarrow> u32 \<Rightarrow> u32 \<Rightarrow> ('a) vm_scheme \<Rightarrow> (u32 \<times> ('a) vm_scheme) option" where
  "allocuvm pgdir oldsz newsz s =
     (if newsz \<ge> KERNBASE then Some (0, s)
      else if newsz < oldsz then Some (oldsz, s)
      else let a = PGROUNDUP oldsz in
        allocuvm_loop pgdir oldsz newsz
          (map (\<lambda>k. a + of_nat (k * PGSIZE)) [0..<(unat newsz - unat a + PGSIZE - 1) div PGSIZE]) s)"

definition clearpteu :: "u32 \<Rightarrow> u32 \<Rightarrow> ('a) vm_scheme \<Rightarrow> ('a) vm_scheme option" where
  "clearpteu pgdir uva s = do {
     (pte, s1) \<leftarrow> walkpgdir pgdir uva False s;
     if pte = 0 then None
     else do { e \<leftarrow> kload pte s1; kstore pte (e AND NOT PTE_U) s1 }
   }"

text \<open>\<open>uva2ka\<close> follows the null pointer when there is no page table.\<close>

definition uva2ka :: "u32 \<Rightarrow> u32 \<Rightarrow> ('a) vm_scheme \<Rightarrow> u32 option" where
  "uva2ka pgdir uva s = do {
     (pte, s1) \<leftarrow> walkpgdir pgdir uva False s;
     e \<leftarrow> kload pte s1;
     if e AND PTE_P = 0 then Some 0
     else if e AND PTE_U = 0 then Some 0
     else Some (P2V (PTE_ADDR e))
   }"

definition uva2pte :: "u32 \<Rightarrow> u32 \<Rightarrow> ('a) vm_scheme \<Rightarrow> (u32 \<times> ('a) vm_scheme) option" where
  "uva2pte pgdir uva s = walkpgdir pgdir uva False s"

function copyout_loop :: "u32 \<Rightarrow> u32 \<Rightarrow> bytes \<Rightarrow> nat \<Rightarrow> u32 \<Rightarrow> ('a) vm_scheme \<Rightarrow> (int \<times> ('a) vm_scheme) option" where
  "copyout_loop pgdir va p j len s =
     (if len = 0 then Some (0, s)
      else do {
        let va0 = PGROUNDDOWN va;
        pa0 \<leftarrow> uva2ka pgdir va0 s;
        if pa0 = 0 then Some (- 1, s)
        else do {
          let n0 = 4096 - (va - va0);
          let n = (if n0 > len then len else n0);
          s1 \<leftarrow> kwrite (pa0 + (va - va0)) (\<lambda>k. p (j + k)) (unat n) s;
          copyout_loop pgdir (va0 + 4096) p (j + unat n) (len - n) s1
        }
      })"
  by pat_completeness auto

lemma page_room: "0 < 4096 - ((va :: u32) - PGROUNDDOWN va)"
proof -
  have r: "unat (PGROUNDDOWN va) = 4096 * (unat va div 4096)" unfolding PGROUNDDOWN_def by (rule unat_page_base)
  then have "PGROUNDDOWN va \<le> va" by (simp add: word_le_nat_alt)
  then have "unat (va - PGROUNDDOWN va) = unat va mod 4096" by (simp add: unat_sub r minus_mult_div_eq_mod)
  then have "unat (va - PGROUNDDOWN va) < 4096" by simp
  then show ?thesis by (simp add: word_less_nat_alt unat_sub word_le_nat_alt)
qed

lemma shorter: "(len :: u32) \<noteq> 0 \<Longrightarrow> 0 < n \<Longrightarrow> unat (len - (if n > len then len else n)) < unat len"
  by (auto simp: word_less_nat_alt unat_sub word_le_nat_alt unat_gt_0 word_greater_zero_iff)

termination copyout_loop
  by (relation "measure (\<lambda>(pgdir, va, p, j, len, s). unat len)", simp,
      simp only: in_measure case_prod_conv shorter page_room not_False_eq_True)

declare copyout_loop.simps [simp del]

definition copyout :: "u32 \<Rightarrow> u32 \<Rightarrow> bytes \<Rightarrow> u32 \<Rightarrow> ('a) vm_scheme \<Rightarrow> (int \<times> ('a) vm_scheme) option" where
  "copyout pgdir va p len s = copyout_loop pgdir va p 0 len s"

section \<open>Victims\<close>

text \<open>
  The loops over the user half of the address space, from the second page on. A lookup without
  allocation does not change the state.
\<close>

definition user_pages :: "u32 list" where
  "user_pages = map (\<lambda>k. of_nat (k * PGSIZE)) [1..<524288]"

fun victim_loop :: "u32 \<Rightarrow> u32 list \<Rightarrow> ('a) vm_scheme \<Rightarrow> u32 option" where
  "victim_loop pgdir [] s = Some 0"
| "victim_loop pgdir (i # is) s = do {
     (pte, _) \<leftarrow> walkpgdir pgdir i False s;
     if pte \<noteq> 0 then do {
       e \<leftarrow> kload pte s;
       if e AND PTE_P \<noteq> 0 \<and> e AND NOT PTE_A \<noteq> 0 then Some pte else victim_loop pgdir is s
     }
     else victim_loop pgdir is s
   }"

definition select_a_victim :: "u32 \<Rightarrow> ('a) vm_scheme \<Rightarrow> u32 option" where
  "select_a_victim pgdir s = victim_loop pgdir user_pages s"

fun clearaccessbit_loop :: "u32 \<Rightarrow> nat \<Rightarrow> u32 list \<Rightarrow> ('a) vm_scheme \<Rightarrow> ('a) vm_scheme option" where
  "clearaccessbit_loop pgdir cnt [] s = Some s"
| "clearaccessbit_loop pgdir cnt (i # is) s = do {
     (pte, _) \<leftarrow> walkpgdir pgdir i False s;
     (cnt1, s1) \<leftarrow>
       (if pte \<noteq> 0 then do {
          e \<leftarrow> kload pte s;
          if (e AND PTE_P) AND (e AND PTE_A) \<noteq> 0
          then do { s1 \<leftarrow> kstore pte (e AND NOT PTE_A) s; Some (cnt + 1, s1) }
          else Some (cnt, s)
        }
        else Some (cnt, s));
     if cnt1 = 103 then Some s1 else clearaccessbit_loop pgdir cnt1 is s1
   }"

definition clearaccessbit :: "u32 \<Rightarrow> ('a) vm_scheme \<Rightarrow> ('a) vm_scheme option" where
  "clearaccessbit pgdir s = clearaccessbit_loop pgdir 0 user_pages s"

text \<open>The block number, read as a signed integer.\<close>

definition getswappedblk :: "u32 \<Rightarrow> u32 \<Rightarrow> ('a) vm_scheme \<Rightarrow> int option" where
  "getswappedblk pgdir va s = do {
     (pte, s1) \<leftarrow> walkpgdir pgdir va False s;
     e \<leftarrow> kload pte s1;
     Some (sint (drop_bit 12 e))
   }"

end
