(* ===== verification/File.thy ===== *)
theory File
  imports Vm
begin

text \<open>
  The open file table (file.c) and pipes (pipe.c). A pointer to an open file is the index of its slot; a
  pointer to a pipe is the address of the page that holds it, and \<open>pipes\<close> gives the contents of that
  \<^verbatim>\<open>struct pipe\<close>. A pipe operation runs under the pipe's lock until it returns or goes to sleep;
  \<open>PSleep i\<close> is the state of a writer that sleeps before its \<open>i\<close>-th byte, or of a sleeping reader, and calling
  the operation again with \<open>i\<close> resumes it. \<open>wakeups\<close> records the channels that were woken, latest first.
\<close>

section \<open>State\<close>

definition NFILE :: nat where "NFILE = 100"
definition PIPESIZE :: nat where "PIPESIZE = 512"

datatype fdtype = FD_NONE | FD_PIPE | FD_INODE

record fileobj =
  f_type :: fdtype
  f_ref :: int
  f_readable :: u8
  f_writable :: u8
  f_pipe :: u32
  f_ip :: nat
  f_off :: u32

record pipe =
  p_data :: bytes
  p_nread :: u32
  p_nwrite :: u32
  p_readopen :: bool
  p_writeopen :: bool

datatype pchan = ChNread u32 | ChNwrite u32

record kern = vm +
  ftable :: "nat \<Rightarrow> fileobj"
  pipes :: "u32 \<Rightarrow> pipe"
  wakeups :: "pchan list"

definition upd_file :: "nat \<Rightarrow> (fileobj \<Rightarrow> fileobj) \<Rightarrow> ('a) kern_scheme \<Rightarrow> ('a) kern_scheme" where
  "upd_file i f s = s\<lparr>ftable := (ftable s)(i := f (ftable s i))\<rparr>"

definition upd_pipe :: "u32 \<Rightarrow> (pipe \<Rightarrow> pipe) \<Rightarrow> ('a) kern_scheme \<Rightarrow> ('a) kern_scheme" where
  "upd_pipe p f s = s\<lparr>pipes := (pipes s)(p := f (pipes s p))\<rparr>"

definition wakeup_chan :: "pchan \<Rightarrow> ('a) kern_scheme \<Rightarrow> ('a) kern_scheme" where
  "wakeup_chan c s = s\<lparr>wakeups := c # wakeups s\<rparr>"

section \<open>Pipes\<close>

datatype pipe_io = PReturn int | PSleep nat

definition pipeclose :: "u32 \<Rightarrow> bool \<Rightarrow> ('a) kern_scheme \<Rightarrow> ('a) kern_scheme option" where
  "pipeclose p writable s =
     (let s1 = (if writable
          then wakeup_chan (ChNread p) (upd_pipe p (\<lambda>q. q\<lparr>p_writeopen := False\<rparr>) s)
          else wakeup_chan (ChNwrite p) (upd_pipe p (\<lambda>q. q\<lparr>p_readopen := False\<rparr>) s))
      in if \<not> p_readopen (pipes s1 p) \<and> \<not> p_writeopen (pipes s1 p) then kfree p s1 else Some s1)"

definition pipe_full :: "pipe \<Rightarrow> bool" where
  "pipe_full q \<longleftrightarrow> p_nwrite q = p_nread q + of_nat PIPESIZE"

definition pipe_push :: "u8 \<Rightarrow> pipe \<Rightarrow> pipe" where
  "pipe_push c q = q\<lparr>p_data := (p_data q)(unat (p_nwrite q mod of_nat PIPESIZE) := c), p_nwrite := p_nwrite q + 1\<rparr>"

text \<open>The loop of \<open>pipewrite\<close> from byte \<open>i\<close> with \<open>k\<close> bytes left; \<open>None\<close> as result means all are written.\<close>

fun pipewrite_loop :: "u32 \<Rightarrow> bool \<Rightarrow> bytes \<Rightarrow> nat \<Rightarrow> nat \<Rightarrow> ('a) kern_scheme \<Rightarrow> (pipe_io option \<times> ('a) kern_scheme)" where
  "pipewrite_loop p killed addr i 0 s = (None, s)"
| "pipewrite_loop p killed addr i (Suc k) s =
     (if pipe_full (pipes s p) then
        (if \<not> p_readopen (pipes s p) \<or> killed then (Some (PReturn (- 1)), s)
         else (Some (PSleep i), wakeup_chan (ChNread p) s))
      else pipewrite_loop p killed addr (i + 1) k (upd_pipe p (pipe_push (addr i)) s))"

definition pipewrite :: "u32 \<Rightarrow> bool \<Rightarrow> bytes \<Rightarrow> int \<Rightarrow> nat \<Rightarrow> ('a) kern_scheme \<Rightarrow> (pipe_io \<times> ('a) kern_scheme)" where
  "pipewrite p killed addr n i s =
     (case pipewrite_loop p killed addr i (nat n - i) s of
        (Some r, s1) \<Rightarrow> (r, s1)
      | (None, s1) \<Rightarrow> (PReturn n, wakeup_chan (ChNread p) s1))"

definition pipe_empty :: "pipe \<Rightarrow> bool" where
  "pipe_empty q \<longleftrightarrow> p_nread q = p_nwrite q"

text \<open>The copying loop of \<open>piperead\<close>: number of bytes read so far and the buffer.\<close>

fun piperead_loop :: "u32 \<Rightarrow> nat \<Rightarrow> nat \<Rightarrow> bytes \<Rightarrow> ('a) kern_scheme \<Rightarrow> (nat \<times> bytes \<times> ('a) kern_scheme)" where
  "piperead_loop p i 0 addr s = (i, addr, s)"
| "piperead_loop p i (Suc k) addr s =
     (if pipe_empty (pipes s p) then (i, addr, s)
      else piperead_loop p (i + 1) k (addr(i := p_data (pipes s p) (unat (p_nread (pipes s p) mod of_nat PIPESIZE))))
             (upd_pipe p (\<lambda>q. q\<lparr>p_nread := p_nread q + 1\<rparr>) s))"

definition piperead :: "u32 \<Rightarrow> bool \<Rightarrow> bytes \<Rightarrow> int \<Rightarrow> ('a) kern_scheme \<Rightarrow> (pipe_io \<times> bytes \<times> ('a) kern_scheme)" where
  "piperead p killed addr n s =
     (if pipe_empty (pipes s p) \<and> p_writeopen (pipes s p) then
        (if killed then (PReturn (- 1), addr, s) else (PSleep 0, addr, s))
      else (case piperead_loop p 0 (nat n) addr s of
          (i, addr', s1) \<Rightarrow> (PReturn (int i), addr', wakeup_chan (ChNwrite p) s1)))"

section \<open>Files\<close>

definition filealloc :: "('a) kern_scheme \<Rightarrow> (nat option \<times> ('a) kern_scheme)" where
  "filealloc s =
     (case find (\<lambda>i. f_ref (ftable s i) = 0) [0..<NFILE] of
        Some i \<Rightarrow> (Some i, upd_file i (\<lambda>f. f\<lparr>f_ref := 1\<rparr>) s)
      | None \<Rightarrow> (None, s))"

definition filedup :: "nat \<Rightarrow> ('a) kern_scheme \<Rightarrow> ('a) kern_scheme option" where
  "filedup i s = (if f_ref (ftable s i) < 1 then None else Some (upd_file i (\<lambda>f. f\<lparr>f_ref := f_ref f + 1\<rparr>) s))"

definition fileclose :: "int \<Rightarrow> nat \<Rightarrow> ('a) kern_scheme \<Rightarrow> ('a) kern_scheme option" where
  "fileclose pid i s =
     (if f_ref (ftable s i) < 1 then None
      else let s1 = upd_file i (\<lambda>f. f\<lparr>f_ref := f_ref f - 1\<rparr>) s
        in if f_ref (ftable s1 i) > 0 then Some s1
           else let ff = ftable s1 i;
                    s2 = upd_file i (\<lambda>f. f\<lparr>f_ref := 0, f_type := FD_NONE\<rparr>) s1
             in case f_type ff of
                  FD_PIPE \<Rightarrow> pipeclose (f_pipe ff) (f_writable ff \<noteq> 0) s2
                | FD_INODE \<Rightarrow> do { s3 \<leftarrow> begin_op s2; s4 \<leftarrow> iput pid (f_ip ff) s3; end_op s4 }
                | FD_NONE \<Rightarrow> Some s2)"

text \<open>\<open>None\<close> as status stands for the result -1.\<close>

definition filestat :: "int \<Rightarrow> nat \<Rightarrow> ('a) kern_scheme \<Rightarrow> (stat option \<times> ('a) kern_scheme) option" where
  "filestat pid i s =
     (if f_type (ftable s i) = FD_INODE then do {
        let ip = f_ip (ftable s i);
        s1 \<leftarrow> ilock pid ip s;
        let st = stati (icache s1 ip);
        s2 \<leftarrow> iunlock ip s1;
        Some (Some st, s2)
      }
      else Some (None, s))"

definition fileread :: "('a) kern_scheme devsw \<Rightarrow> int \<Rightarrow> bool \<Rightarrow> nat \<Rightarrow> bytes \<Rightarrow> int \<Rightarrow> ('a) kern_scheme \<Rightarrow>
    (pipe_io \<times> bytes \<times> ('a) kern_scheme) option" where
  "fileread D pid killed i addr n s =
     (let f = ftable s i
      in if f_readable f = 0 then Some (PReturn (- 1), addr, s)
         else if f_type f = FD_PIPE then Some (piperead (f_pipe f) killed addr n s)
         else if f_type f = FD_INODE then do {
           s1 \<leftarrow> ilock pid (f_ip f) s;
           (r, addr', s2) \<leftarrow> readi D (f_ip f) addr (f_off (ftable s1 i)) (word_of_int n) s1;
           let s3 = (if r > 0 then upd_file i (\<lambda>f. f\<lparr>f_off := f_off f + word_of_int r\<rparr>) s2 else s2);
           s4 \<leftarrow> iunlock (f_ip f) s3;
           Some (PReturn r, addr', s4)
         }
         else None)"

definition filewrite_max :: int where
  "filewrite_max = (int MAXOPBLOCKS - 1 - 1 - 2) div 2 * 512"

text \<open>One round of the loop of \<open>filewrite\<close>: a transaction that writes \<open>n1\<close> bytes from offset \<open>i\<close> of the buffer.\<close>

definition filewrite_round :: "('a) kern_scheme devsw \<Rightarrow> int \<Rightarrow> nat \<Rightarrow> bytes \<Rightarrow> int \<Rightarrow> int \<Rightarrow> ('a) kern_scheme \<Rightarrow>
    (int \<times> ('a) kern_scheme) option" where
  "filewrite_round D pid fi addr i n1 s = do {
     let ip = f_ip (ftable s fi);
     s1 \<leftarrow> begin_op s;
     s2 \<leftarrow> ilock pid ip s1;
     (r, s3) \<leftarrow> writei D ip (\<lambda>k. addr (nat i + k)) (f_off (ftable s2 fi)) (word_of_int n1) s2;
     let s4 = (if r > 0 then upd_file fi (\<lambda>f. f\<lparr>f_off := f_off f + word_of_int r\<rparr>) s3 else s3);
     s5 \<leftarrow> iunlock ip s4;
     s6 \<leftarrow> end_op s5;
     Some (r, s6)
   }"

lemma filewrite_max_pos: "0 < filewrite_max"
  by (simp add: filewrite_max_def MAXOPBLOCKS_def)

function filewrite_loop :: "('a) kern_scheme devsw \<Rightarrow> int \<Rightarrow> nat \<Rightarrow> bytes \<Rightarrow> int \<Rightarrow> int \<Rightarrow> ('a) kern_scheme \<Rightarrow>
    (int \<times> ('a) kern_scheme) option" where
  "filewrite_loop D pid fi addr n i s =
     (if \<not> i < n then Some (i, s)
      else do {
        let n1 = min (n - i) filewrite_max;
        (r, s1) \<leftarrow> filewrite_round D pid fi addr i n1 s;
        if r < 0 then Some (i, s1)
        else if r \<noteq> n1 then None
        else filewrite_loop D pid fi addr n (i + n1) s1
      })"
  by pat_completeness auto
termination
  by (relation "measure (\<lambda>(D, pid, fi, addr, n, i, s). nat (n - i))") (auto simp: min_def filewrite_max_pos)

declare filewrite_loop.simps [simp del]

definition filewrite :: "('a) kern_scheme devsw \<Rightarrow> int \<Rightarrow> bool \<Rightarrow> nat \<Rightarrow> bytes \<Rightarrow> int \<Rightarrow> nat \<Rightarrow> ('a) kern_scheme \<Rightarrow>
    (pipe_io \<times> ('a) kern_scheme) option" where
  "filewrite D pid killed fi addr n resume s =
     (let f = ftable s fi
      in if f_writable f = 0 then Some (PReturn (- 1), s)
         else if f_type f = FD_PIPE then Some (pipewrite (f_pipe f) killed addr n resume s)
         else if f_type f = FD_INODE then do {
           (i, s1) \<leftarrow> filewrite_loop D pid fi addr n 0 s;
           Some (PReturn (if i = n then n else - 1), s1)
         }
         else None)"

section \<open>Creating a pipe\<close>

definition new_pipe :: "pipe \<Rightarrow> pipe" where
  "new_pipe q = q\<lparr>p_readopen := True, p_writeopen := True, p_nwrite := 0, p_nread := 0\<rparr>"

text \<open>The cleanup \<^verbatim>\<open>bad:\<close> of \<open>pipealloc\<close>; no page is allocated when it runs.\<close>

definition pipe_bad :: "int \<Rightarrow> nat option \<Rightarrow> nat option \<Rightarrow> ('a) kern_scheme \<Rightarrow> ((nat \<times> nat) option \<times> ('a) kern_scheme) option" where
  "pipe_bad pid f0 f1 s = do {
     s1 \<leftarrow> (case f0 of Some f \<Rightarrow> fileclose pid f s | None \<Rightarrow> Some s);
     s2 \<leftarrow> (case f1 of Some f \<Rightarrow> fileclose pid f s1 | None \<Rightarrow> Some s1);
     Some (None, s2)
   }"

definition pipealloc :: "int \<Rightarrow> ('a) kern_scheme \<Rightarrow> ((nat \<times> nat) option \<times> ('a) kern_scheme) option" where
  "pipealloc pid s =
     (case filealloc s of
        (None, s1) \<Rightarrow> pipe_bad pid None None s1
      | (Some f0, s1) \<Rightarrow>
          (case filealloc s1 of
             (None, s2) \<Rightarrow> pipe_bad pid (Some f0) None s2
           | (Some f1, s2) \<Rightarrow> do {
               (p, s3) \<leftarrow> kalloc s2;
               if p = 0 then pipe_bad pid (Some f0) (Some f1) s3
               else Some (Some (f0, f1),
                 upd_file f1 (\<lambda>f. f\<lparr>f_type := FD_PIPE, f_readable := 0, f_writable := 1, f_pipe := p\<rparr>)
                   (upd_file f0 (\<lambda>f. f\<lparr>f_type := FD_PIPE, f_readable := 1, f_writable := 0, f_pipe := p\<rparr>)
                     (upd_pipe p new_pipe s3)))
             }))"

end
