(* ===== verification/Swap.thy ===== *)
theory Swap
  imports File
begin

text \<open>
  Demand paging and swapping: the page transfers at the end of bio.c, paging.c, and \<open>copyuvm\<close> of
  vm.c. The arguments \<open>pid\<close> and \<open>cwd\<close> are the current process's, and \<open>img n d\<close> are the raw bytes of
  the C object \<^verbatim>\<open>struct buf\<close> that caches block \<open>n\<close> with contents \<open>d\<close> (its header holds
  pointers that the model of the cache does not fix). Messages on the console and the TLB flush are left out.
\<close>

section \<open>The swap file\<close>

text \<open>\<open>create\<close> in bio.c: from the allocation of the inode on, and the whole.\<close>

definition swap_make :: "('a) kern_scheme devsw \<Rightarrow> int \<Rightarrow> nat \<Rightarrow> string \<Rightarrow> u16 \<Rightarrow> u16 \<Rightarrow> u16 \<Rightarrow> ('a) kern_scheme \<Rightarrow>
    (nat option \<times> ('a) kern_scheme) option" where
  "swap_make D pid dp name ty major minor s = do {
     (ip, s1) \<leftarrow> ialloc ty s;
     s2 \<leftarrow> ilock pid ip s1;
     s3 \<leftarrow> iupdate ip (upd_inode ip (\<lambda>x. x\<lparr>i_nlink := 1, i_major := major, i_minor := minor\<rparr>) s2);
     s7 \<leftarrow> (if ty = T_DIR then do {
         s4 \<leftarrow> iupdate dp (upd_inode dp (\<lambda>x. x\<lparr>i_nlink := i_nlink x + 1\<rparr>) s3);
         (a, s5) \<leftarrow> dirlink D pid ip ''..'' (i_inum (icache s4 dp)) s4;
         if a < 0 then None
         else do {
           (b, s6) \<leftarrow> dirlink D pid ip ''.'' (i_inum (icache s5 ip)) s5;
           if b < 0 then None else Some s6
         }
       } else Some s3);
     (c, s8) \<leftarrow> dirlink D pid dp name (i_inum (icache s7 ip)) s7;
     if c < 0 then None
     else do { s9 \<leftarrow> iunlockput pid dp s8; Some (Some ip, s9) }
   }"

definition swap_create :: "('a) kern_scheme devsw \<Rightarrow> int \<Rightarrow> nat \<Rightarrow> string \<Rightarrow> u16 \<Rightarrow> u16 \<Rightarrow> u16 \<Rightarrow> ('a) kern_scheme \<Rightarrow>
    (nat option \<times> ('a) kern_scheme) option" where
  "swap_create D pid cwd path ty major minor s = do {
     (r, s1) \<leftarrow> nameiparent D pid cwd path s;
     case r of
       None \<Rightarrow> Some (None, s1)
     | Some (dp, name) \<Rightarrow> do {
         s2 \<leftarrow> ilock pid dp s1;
         (l, s3) \<leftarrow> dirlookup D dp name s2;
         case l of
           Some (ip, _) \<Rightarrow> do {
             s4 \<leftarrow> iunlockput pid dp s3;
             s5 \<leftarrow> ilock pid ip s4;
             if ty = T_FILE \<and> i_type (icache s5 ip) = T_FILE then Some (Some ip, s5)
             else do { s6 \<leftarrow> iunlockput pid ip s5; Some (None, s6) }
           }
         | None \<Rightarrow> swap_make D pid dp name ty major minor s3
       }
   }"

definition swap_path :: "int \<Rightarrow> u32 \<Rightarrow> string" where
  "swap_path pid pte = itoa pid @ ''_'' @ itoa (sint (drop_bit 12 (pte AND 0xFFFFF000)))"

definition createSwapFile :: "('a) kern_scheme devsw \<Rightarrow> int \<Rightarrow> nat \<Rightarrow> u32 \<Rightarrow> ('a) kern_scheme \<Rightarrow>
    (nat \<times> ('a) kern_scheme) option" where
  "createSwapFile D pid cwd pte s = do {
     e \<leftarrow> kload pte s;
     s1 \<leftarrow> begin_op s;
     (r, s2) \<leftarrow> swap_create D pid cwd (swap_path pid e) T_FILE 0 0 s1;
     ip \<leftarrow> r;
     s3 \<leftarrow> iunlock ip s2;
     (case filealloc s3 of
        (None, s4) \<Rightarrow> None
      | (Some f, s4) \<Rightarrow> do {
          let s5 = upd_file f (\<lambda>x. x\<lparr>f_ip := ip, f_type := FD_INODE, f_off := 0, f_writable := 2, f_readable := 1\<rparr>) s4;
          s6 \<leftarrow> end_op s5;
          Some (f, s6)
        })
   }"

section \<open>Page transfers\<close>

definition read_page_part :: "u32 \<Rightarrow> nat \<Rightarrow> nat \<Rightarrow> ('a) kern_scheme \<Rightarrow> ('a) kern_scheme option" where
  "read_page_part pg b i s = do {
     (d, s1) \<leftarrow> blk_read (b + i) s;
     s2 \<leftarrow> kwrite (pg + of_nat (i * BSIZE)) d BSIZE s1;
     blk_release (b + i) s2
   }"

definition read_page_from_disk :: "u32 \<Rightarrow> nat \<Rightarrow> ('a) kern_scheme \<Rightarrow> ('a) kern_scheme option" where
  "read_page_from_disk pg b s = run (read_page_part pg b) [0..<8] s"

definition write_page_part :: "('a) kern_scheme devsw \<Rightarrow> int \<Rightarrow> (nat \<Rightarrow> bytes \<Rightarrow> bytes) \<Rightarrow> nat \<Rightarrow> u32 \<Rightarrow> nat \<Rightarrow> nat \<Rightarrow>
    ('a) kern_scheme \<Rightarrow> ('a) kern_scheme option" where
  "write_page_part D pid img towrite pg b i s = do {
     s1 \<leftarrow> blk_get (b + i) s;
     let s2 = upd_file towrite (\<lambda>x. x\<lparr>f_off := of_nat (i * 512)\<rparr>) s1;
     src \<leftarrow> kread (pg + of_nat (i * BSIZE)) BSIZE s2;
     s3 \<leftarrow> blk_set (b + i) (blit (blk s2 (b + i)) 0 src 0 BSIZE) s2;
     (_, s4) \<leftarrow> filewrite D pid False towrite (img (b + i) (blk s3 (b + i))) 512 0 s3;
     s5 \<leftarrow> blk_write (b + i) s4;
     blk_release (b + i) s5
   }"

definition write_page_to_disk :: "('a) kern_scheme devsw \<Rightarrow> int \<Rightarrow> nat \<Rightarrow> (nat \<Rightarrow> bytes \<Rightarrow> bytes) \<Rightarrow> u32 \<Rightarrow> nat \<Rightarrow> u32 \<Rightarrow>
    ('a) kern_scheme \<Rightarrow> ('a) kern_scheme option" where
  "write_page_to_disk D pid cwd img pg b pte s = do {
     (towrite, s1) \<leftarrow> createSwapFile D pid cwd pte s;
     run (write_page_part D pid img towrite pg b) [0..<8] s1
   }"

section \<open>Swapping out\<close>

definition swapped_pte :: "nat \<Rightarrow> u32" where
  "swapped_pte b = (push_bit 12 (of_nat b) OR PTE_SWAPPED) AND NOT PTE_P"

definition swap_page_from_pte :: "('a) kern_scheme devsw \<Rightarrow> int \<Rightarrow> nat \<Rightarrow> (nat \<Rightarrow> bytes \<Rightarrow> bytes) \<Rightarrow> u32 \<Rightarrow>
    ('a) kern_scheme \<Rightarrow> ('a) kern_scheme option" where
  "swap_page_from_pte D pid cwd img pte s = do {
     e \<leftarrow> kload pte s;
     let pa = PTE_ADDR e;
     (b, s1) \<leftarrow> balloc_page s;
     s2 \<leftarrow> write_page_to_disk D pid cwd img (P2V pa) b pte s1;
     s3 \<leftarrow> kstore pte (swapped_pte b) s2;
     kfree (P2V pa) s3
   }"

definition swap_page :: "('a) kern_scheme devsw \<Rightarrow> int \<Rightarrow> nat \<Rightarrow> (nat \<Rightarrow> bytes \<Rightarrow> bytes) \<Rightarrow> u32 \<Rightarrow>
    ('a) kern_scheme \<Rightarrow> ('a) kern_scheme option" where
  "swap_page D pid cwd img pgdir s = do {
     pte \<leftarrow> select_a_victim pgdir s;
     (pte', s1) \<leftarrow> (if pte = 0 then do {
         s1 \<leftarrow> clearaccessbit pgdir s;
         p \<leftarrow> select_a_victim pgdir s1;
         Some (p, s1)
       } else Some (pte, s));
     swap_page_from_pte D pid cwd img pte' s1
   }"

text \<open>A page from the allocator, after swapping one out if there was none.\<close>

definition kalloc_or_swap :: "('a) kern_scheme devsw \<Rightarrow> int \<Rightarrow> nat \<Rightarrow> (nat \<Rightarrow> bytes \<Rightarrow> bytes) \<Rightarrow> u32 \<Rightarrow>
    ('a) kern_scheme \<Rightarrow> (u32 \<times> ('a) kern_scheme) option" where
  "kalloc_or_swap D pid cwd img pgdir s = do {
     (m, s1) \<leftarrow> kalloc s;
     if m = 0 then do { s2 \<leftarrow> swap_page D pid cwd img pgdir s1; kalloc s2 }
     else Some (m, s1)
   }"

section \<open>Swapping in\<close>

definition resident_pte :: "u32 \<Rightarrow> u32" where
  "resident_pte m = (V2P m OR PTE_W OR PTE_U OR PTE_P) AND NOT PTE_SWAPPED"

definition swap_in :: "u32 \<Rightarrow> u32 \<Rightarrow> u32 \<Rightarrow> u32 \<Rightarrow> ('a) kern_scheme \<Rightarrow> ('a) kern_scheme option" where
  "swap_in pgdir va pte m s = do {
     b \<leftarrow> getswappedblk pgdir va s;
     s1 \<leftarrow> read_page_from_disk m (nat b) s;
     s2 \<leftarrow> kstore pte (resident_pte m) s1;
     bfree_page (nat b) s2
   }"

definition map_address :: "('a) kern_scheme devsw \<Rightarrow> int \<Rightarrow> nat \<Rightarrow> (nat \<Rightarrow> bytes \<Rightarrow> bytes) \<Rightarrow> u32 \<Rightarrow> u32 \<Rightarrow>
    ('a) kern_scheme \<Rightarrow> ('a) kern_scheme option" where
  "map_address D pid cwd img pgdir cr2 s = do {
     let a = PGROUNDDOWN cr2;
     (pte, s0) \<leftarrow> walkpgdir pgdir a False s;
     (m, s1) \<leftarrow> kalloc_or_swap D pid cwd img pgdir s0;
     if pte = 0 then Some s1
     else do {
       e \<leftarrow> kload pte s1;
       if e AND PTE_SWAPPED \<noteq> 0 then swap_in pgdir a pte m s1
       else do {
         s2 \<leftarrow> kmemset m 0 PGSIZE s1;
         (r, s3) \<leftarrow> paging_mappages pgdir a 4096 (V2P m) (PTE_P OR PTE_W OR PTE_U) s2;
         if r < 0 then None else Some s3
       }
     }
   }"

definition handle_pgfault :: "('a) kern_scheme devsw \<Rightarrow> int \<Rightarrow> nat \<Rightarrow> (nat \<Rightarrow> bytes \<Rightarrow> bytes) \<Rightarrow> u32 \<Rightarrow> u32 \<Rightarrow>
    ('a) kern_scheme \<Rightarrow> ('a) kern_scheme option" where
  "handle_pgfault D pid cwd img pgdir cr2 s = map_address D pid cwd img pgdir cr2 s"

section \<open>Copying an address space\<close>

text \<open>
  The loop of \<open>copyuvm\<close>. The source address is computed before the allocation that may swap a page
  out, as in the code. The result is the new directory, or 0 when a page table could not be allocated.
\<close>

fun copyuvm_loop :: "('a) kern_scheme devsw \<Rightarrow> int \<Rightarrow> nat \<Rightarrow> (nat \<Rightarrow> bytes \<Rightarrow> bytes) \<Rightarrow> u32 \<Rightarrow> u32 \<Rightarrow> u32 list \<Rightarrow>
    ('a) kern_scheme \<Rightarrow> (u32 \<times> ('a) kern_scheme) option" where
  "copyuvm_loop D pid cwd img pgdir d [] s = Some (d, s)"
| "copyuvm_loop D pid cwd img pgdir d (i # is) s = do {
     (pte, s0) \<leftarrow> walkpgdir pgdir i False s;
     if pte = 0 then None
     else do {
       e0 \<leftarrow> kload pte s0;
       s1 \<leftarrow> (if e0 AND PTE_SWAPPED \<noteq> 0 then do {
           (m, s1) \<leftarrow> kalloc_or_swap D pid cwd img pgdir s0;
           swap_in pgdir i pte m s1
         } else Some s0);
       e \<leftarrow> kload pte s1;
       let pa = PTE_ADDR e;
       let flags = PTE_FLAGS e;
       (m, s2) \<leftarrow> kalloc_or_swap D pid cwd img pgdir s1;
       src \<leftarrow> kread (P2V pa) PGSIZE s2;
       s3 \<leftarrow> kwrite m src PGSIZE s2;
       (r, s4) \<leftarrow> mappages d i 4096 (V2P m) flags s3;
       if r < 0 then do { s5 \<leftarrow> freevm d s4; Some (0, s5) }
       else copyuvm_loop D pid cwd img pgdir d is s4
     }
   }"

definition copyuvm :: "('a) kern_scheme devsw \<Rightarrow> int \<Rightarrow> nat \<Rightarrow> (nat \<Rightarrow> bytes \<Rightarrow> bytes) \<Rightarrow> u32 \<Rightarrow> u32 \<Rightarrow>
    ('a) kern_scheme \<Rightarrow> (u32 \<times> ('a) kern_scheme) option" where
  "copyuvm D pid cwd img pgdir sz s = do {
     (d, s1) \<leftarrow> setupkvm s;
     if d = 0 then Some (0, s1)
     else copyuvm_loop D pid cwd img pgdir d (page_steps sz) s1
   }"

end
