(* ===== verification/Sysfile.thy ===== *)
theory Sysfile
  imports Swap
begin

text \<open>
  System calls on files (sysfile.c) and the fetching of their arguments (syscall.c). \<open>umem\<close> is the
  memory of the calling process as it sees it, below its size \<open>psz\<close>; page faults taken while the kernel reads it
  are transparent and modelled in Swap. An argument that cannot be fetched is \<open>None\<close> of an inner option or
  the result -1; \<open>None\<close> of the outer option is still panic or waiting for ever.
\<close>

section \<open>The calling process\<close>

definition NOFILE_B :: nat where "NOFILE_B = 16"
definition MAXARG :: nat where "MAXARG = 32"
definition O_RDONLY :: u32 where "O_RDONLY = 0"
definition O_WRONLY :: u32 where "O_WRONLY = 1"
definition O_RDWR :: u32 where "O_RDWR = 2"
definition O_CREATE :: u32 where "O_CREATE = 0x200"

record ksys = kern +
  umem :: bytes
  psz :: u32
  pgdir :: u32
  tf_esp :: u32
  tf_eip :: u32
  tf_eax :: u32
  ofiles :: "nat \<Rightarrow> nat option"
  cwd :: nat
  cpid :: int
  ckilled :: bool
  pname :: string

section \<open>Arguments\<close>

definition fetchint :: "u32 \<Rightarrow> ('a) ksys_scheme \<Rightarrow> u32 option" where
  "fetchint addr s =
     (if addr \<ge> psz s \<or> addr + 4 > psz s then None else Some (get32 (umem s) (unat addr)))"

text \<open>The string ends before the first NUL below \<open>psz\<close>; without one there is no string.\<close>

definition fetchstr :: "u32 \<Rightarrow> ('a) ksys_scheme \<Rightarrow> string option" where
  "fetchstr addr s =
     (if addr \<ge> psz s then None
      else case find (\<lambda>k. umem s k = 0) [unat addr..<unat (psz s)] of
          None \<Rightarrow> None
        | Some e \<Rightarrow> Some (map (\<lambda>k. char_of (unat (umem s k))) [unat addr..<e]))"

definition argint :: "nat \<Rightarrow> ('a) ksys_scheme \<Rightarrow> u32 option" where
  "argint n s = fetchint (tf_esp s + 4 + 4 * of_nat n) s"

definition argptr :: "nat \<Rightarrow> int \<Rightarrow> ('a) ksys_scheme \<Rightarrow> u32 option" where
  "argptr n sz s = do {
     i \<leftarrow> argint n s;
     if sz < 0 \<or> i \<ge> psz s \<or> i + word_of_int sz > psz s then None else Some i
   }"

definition argstr :: "nat \<Rightarrow> ('a) ksys_scheme \<Rightarrow> string option" where
  "argstr n s = do { addr \<leftarrow> argint n s; fetchstr addr s }"

text \<open>A descriptor and its open file.\<close>

definition argfd :: "nat \<Rightarrow> ('a) ksys_scheme \<Rightarrow> (nat \<times> nat) option" where
  "argfd n s = do {
     w \<leftarrow> argint n s;
     if sint w < 0 \<or> sint w \<ge> int NOFILE_B then None
     else case ofiles s (unat w) of None \<Rightarrow> None | Some f \<Rightarrow> Some (unat w, f)
   }"

definition fdalloc :: "nat \<Rightarrow> ('a) ksys_scheme \<Rightarrow> (int \<times> ('a) ksys_scheme)" where
  "fdalloc f s =
     (case find (\<lambda>fd. ofiles s fd = None) [0..<NOFILE_B] of
        Some fd \<Rightarrow> (int fd, s\<lparr>ofiles := (ofiles s)(fd \<mapsto> f)\<rparr>)
      | None \<Rightarrow> (- 1, s))"

section \<open>Reading and writing\<close>

definition sys_dup :: "('a) ksys_scheme \<Rightarrow> (int \<times> ('a) ksys_scheme) option" where
  "sys_dup s =
     (case argfd 0 s of
        None \<Rightarrow> Some (- 1, s)
      | Some (_, f) \<Rightarrow>
          (case fdalloc f s of (fd, s1) \<Rightarrow>
             if fd < 0 then Some (- 1, s1)
             else do { s2 \<leftarrow> filedup f s1; Some (fd, s2) }))"

definition sys_read :: "('a) ksys_scheme devsw \<Rightarrow> ('a) ksys_scheme \<Rightarrow> (pipe_io \<times> ('a) ksys_scheme) option" where
  "sys_read D s =
     (case argfd 0 s of None \<Rightarrow> Some (PReturn (- 1), s) | Some (_, f) \<Rightarrow>
      case argint 2 s of None \<Rightarrow> Some (PReturn (- 1), s) | Some n \<Rightarrow>
      case argptr 1 (sint n) s of None \<Rightarrow> Some (PReturn (- 1), s) | Some p \<Rightarrow> do {
        (r, buf, s1) \<leftarrow> fileread D (cpid s) (ckilled s) f (\<lambda>k. umem s (unat p + k)) (sint n) s;
        Some (r, s1\<lparr>umem := blit (umem s1) (unat p) buf 0 (unat n)\<rparr>)
      })"

definition sys_write :: "('a) ksys_scheme devsw \<Rightarrow> nat \<Rightarrow> ('a) ksys_scheme \<Rightarrow> (pipe_io \<times> ('a) ksys_scheme) option" where
  "sys_write D resume s =
     (case argfd 0 s of None \<Rightarrow> Some (PReturn (- 1), s) | Some (_, f) \<Rightarrow>
      case argint 2 s of None \<Rightarrow> Some (PReturn (- 1), s) | Some n \<Rightarrow>
      case argptr 1 (sint n) s of None \<Rightarrow> Some (PReturn (- 1), s) | Some p \<Rightarrow>
        filewrite D (cpid s) (ckilled s) f (\<lambda>k. umem s (unat p + k)) (sint n) resume s)"

definition sys_close :: "('a) ksys_scheme \<Rightarrow> (int \<times> ('a) ksys_scheme) option" where
  "sys_close s =
     (case argfd 0 s of
        None \<Rightarrow> Some (- 1, s)
      | Some (fd, f) \<Rightarrow> do {
          s1 \<leftarrow> fileclose (cpid s) f (s\<lparr>ofiles := (ofiles s)(fd := None)\<rparr>);
          Some (0, s1)
        })"

text \<open>\<^verbatim>\<open>struct stat\<close> in memory, with the padding the compiler inserts before \<^verbatim>\<open>dev\<close> and \<^verbatim>\<open>size\<close>.\<close>

definition stat_bytes :: "stat \<Rightarrow> bytes \<Rightarrow> bytes" where
  "stat_bytes st b = put32 (put16 (put32 (put32 (put16 b 0 (st_type st)) 4 (st_dev st)) 8 (st_ino st)) 12 (st_nlink st)) 16 (st_size st)"

definition STAT_SIZE :: nat where "STAT_SIZE = 20"

definition sys_fstat :: "('a) ksys_scheme \<Rightarrow> (int \<times> ('a) ksys_scheme) option" where
  "sys_fstat s =
     (case argfd 0 s of None \<Rightarrow> Some (- 1, s) | Some (_, f) \<Rightarrow>
      case argptr 1 (int STAT_SIZE) s of None \<Rightarrow> Some (- 1, s) | Some p \<Rightarrow> do {
        (r, s1) \<leftarrow> filestat (cpid s) f s;
        case r of
          None \<Rightarrow> Some (- 1, s1)
        | Some st \<Rightarrow> Some (0, s1\<lparr>umem := blit (umem s1) (unat p) (stat_bytes st (\<lambda>k. umem s1 (unat p + k))) 0 STAT_SIZE\<rparr>)
      })"

section \<open>Names\<close>

text \<open>The exits of \<open>sys_link\<close> that undo the link count.\<close>

definition link_bad :: "nat \<Rightarrow> ('a) ksys_scheme \<Rightarrow> (int \<times> ('a) ksys_scheme) option" where
  "link_bad ip s = do {
     s1 \<leftarrow> ilock (cpid s) ip s;
     s2 \<leftarrow> iupdate ip (upd_inode ip (\<lambda>x. x\<lparr>i_nlink := i_nlink x - 1\<rparr>) s1);
     s3 \<leftarrow> iunlockput (cpid s) ip s2;
     s4 \<leftarrow> end_op s3;
     Some (- 1, s4)
   }"

definition link_to :: "('a) ksys_scheme devsw \<Rightarrow> string \<Rightarrow> nat \<Rightarrow> ('a) ksys_scheme \<Rightarrow> (int \<times> ('a) ksys_scheme) option" where
  "link_to D new ip s = do {
     (r, s1) \<leftarrow> nameiparent D (cpid s) (cwd s) new s;
     case r of
       None \<Rightarrow> link_bad ip s1
     | Some (dp, name) \<Rightarrow> do {
         s2 \<leftarrow> ilock (cpid s) dp s1;
         (ok, s3) \<leftarrow> (if i_dev (icache s2 dp) \<noteq> i_dev (icache s2 ip) then Some (False, s2)
            else do { (r, s3) \<leftarrow> dirlink D (cpid s) dp name (i_inum (icache s2 ip)) s2; Some (r \<ge> 0, s3) });
         s4 \<leftarrow> iunlockput (cpid s) dp s3;
         if \<not> ok then link_bad ip s4
         else do { s5 \<leftarrow> iput (cpid s) ip s4; s6 \<leftarrow> end_op s5; Some (0, s6) }
       }
   }"

definition sys_link :: "('a) ksys_scheme devsw \<Rightarrow> ('a) ksys_scheme \<Rightarrow> (int \<times> ('a) ksys_scheme) option" where
  "sys_link D s =
     (case argstr 0 s of None \<Rightarrow> Some (- 1, s) | Some old \<Rightarrow>
      case argstr 1 s of None \<Rightarrow> Some (- 1, s) | Some new \<Rightarrow> do {
        s1 \<leftarrow> begin_op s;
        (r, s2) \<leftarrow> namei D (cpid s) (cwd s) old s1;
        case r of
          None \<Rightarrow> do { s3 \<leftarrow> end_op s2; Some (- 1, s3) }
        | Some ip \<Rightarrow> do {
            s3 \<leftarrow> ilock (cpid s) ip s2;
            if i_type (icache s3 ip) = T_DIR then do {
              s4 \<leftarrow> iunlockput (cpid s) ip s3; s5 \<leftarrow> end_op s4; Some (- 1, s5) }
            else do {
              s4 \<leftarrow> iupdate ip (upd_inode ip (\<lambda>x. x\<lparr>i_nlink := i_nlink x + 1\<rparr>) s3);
              s5 \<leftarrow> iunlock ip s4;
              link_to D new ip s5
            }
          }
      })"

text \<open>The loop of \<open>isdirempty\<close> from the third entry on.\<close>

fun isdirempty_loop :: "('a) ksys_scheme devsw \<Rightarrow> nat \<Rightarrow> nat list \<Rightarrow> ('a) ksys_scheme \<Rightarrow> (bool \<times> ('a) ksys_scheme) option" where
  "isdirempty_loop D dp [] s = Some (True, s)"
| "isdirempty_loop D dp (k # ks) s = do {
     (r, de, s1) \<leftarrow> readi D dp zero_bytes (of_nat (DIRENT_SIZE * k)) (of_nat DIRENT_SIZE) s;
     if r \<noteq> int DIRENT_SIZE then None
     else if de_inum de \<noteq> 0 then Some (False, s1)
     else isdirempty_loop D dp ks s1
   }"

definition isdirempty :: "('a) ksys_scheme devsw \<Rightarrow> nat \<Rightarrow> ('a) ksys_scheme \<Rightarrow> (bool \<times> ('a) ksys_scheme) option" where
  "isdirempty D dp s = isdirempty_loop D dp (drop 2 (dir_slots (icache s dp))) s"

definition unlink_bad :: "nat \<Rightarrow> ('a) ksys_scheme \<Rightarrow> (int \<times> ('a) ksys_scheme) option" where
  "unlink_bad dp s = do { s1 \<leftarrow> iunlockput (cpid s) dp s; s2 \<leftarrow> end_op s1; Some (- 1, s2) }"

text \<open>\<open>sys_unlink\<close> from the lock of the entry's inode on.\<close>

definition unlink_entry :: "('a) ksys_scheme devsw \<Rightarrow> nat \<Rightarrow> nat \<Rightarrow> nat \<Rightarrow> ('a) ksys_scheme \<Rightarrow> (int \<times> ('a) ksys_scheme) option" where
  "unlink_entry D dp ip off s = do {
     s1 \<leftarrow> ilock (cpid s) ip s;
     if sint (i_nlink (icache s1 ip)) < 1 then None
     else do {
       (emp, s2) \<leftarrow> (if i_type (icache s1 ip) = T_DIR then isdirempty D ip s1 else Some (True, s1));
       if \<not> emp then do { s3 \<leftarrow> iunlockput (cpid s) ip s2; unlink_bad dp s3 }
       else do {
         (r, s3) \<leftarrow> writei D dp zero_bytes (of_nat off) (of_nat DIRENT_SIZE) s2;
         if r \<noteq> int DIRENT_SIZE then None
         else do {
           s4 \<leftarrow> (if i_type (icache s3 ip) = T_DIR
                  then iupdate dp (upd_inode dp (\<lambda>x. x\<lparr>i_nlink := i_nlink x - 1\<rparr>) s3) else Some s3);
           s5 \<leftarrow> iunlockput (cpid s) dp s4;
           s6 \<leftarrow> iupdate ip (upd_inode ip (\<lambda>x. x\<lparr>i_nlink := i_nlink x - 1\<rparr>) s5);
           s7 \<leftarrow> iunlockput (cpid s) ip s6;
           s8 \<leftarrow> end_op s7;
           Some (0, s8)
         }
       }
     }
   }"

definition sys_unlink :: "('a) ksys_scheme devsw \<Rightarrow> ('a) ksys_scheme \<Rightarrow> (int \<times> ('a) ksys_scheme) option" where
  "sys_unlink D s =
     (case argstr 0 s of None \<Rightarrow> Some (- 1, s) | Some path \<Rightarrow> do {
        s1 \<leftarrow> begin_op s;
        (r, s2) \<leftarrow> nameiparent D (cpid s) (cwd s) path s1;
        case r of
          None \<Rightarrow> do { s3 \<leftarrow> end_op s2; Some (- 1, s3) }
        | Some (dp, name) \<Rightarrow> do {
            s3 \<leftarrow> ilock (cpid s) dp s2;
            if namecmp name ''.'' = 0 \<or> namecmp name ''..'' = 0 then unlink_bad dp s3
            else do {
              (l, s4) \<leftarrow> dirlookup D dp name s3;
              case l of
                None \<Rightarrow> unlink_bad dp s4
              | Some (ip, off) \<Rightarrow> unlink_entry D dp ip off s4
            }
          }
      })"

section \<open>Creating and opening\<close>

text \<open>\<open>create\<close> in sysfile.c, from the allocation of the inode on, and the whole.\<close>

definition create_make :: "('a) ksys_scheme devsw \<Rightarrow> nat \<Rightarrow> string \<Rightarrow> u16 \<Rightarrow> u16 \<Rightarrow> u16 \<Rightarrow> ('a) ksys_scheme \<Rightarrow>
    (nat option \<times> ('a) ksys_scheme) option" where
  "create_make D dp name ty major minor s = do {
     (ip, s1) \<leftarrow> ialloc ty s;
     s2 \<leftarrow> ilock (cpid s) ip s1;
     s3 \<leftarrow> iupdate ip (upd_inode ip (\<lambda>x. x\<lparr>i_major := major, i_minor := minor, i_nlink := 1\<rparr>) s2);
     s7 \<leftarrow> (if ty = T_DIR then do {
         s4 \<leftarrow> iupdate dp (upd_inode dp (\<lambda>x. x\<lparr>i_nlink := i_nlink x + 1\<rparr>) s3);
         (a, s5) \<leftarrow> dirlink D (cpid s) ip ''.'' (i_inum (icache s4 ip)) s4;
         if a < 0 then None
         else do {
           (b, s6) \<leftarrow> dirlink D (cpid s) ip ''..'' (i_inum (icache s5 dp)) s5;
           if b < 0 then None else Some s6
         }
       } else Some s3);
     (c, s8) \<leftarrow> dirlink D (cpid s) dp name (i_inum (icache s7 ip)) s7;
     if c < 0 then None
     else do { s9 \<leftarrow> iunlockput (cpid s) dp s8; Some (Some ip, s9) }
   }"

definition create :: "('a) ksys_scheme devsw \<Rightarrow> string \<Rightarrow> u16 \<Rightarrow> u16 \<Rightarrow> u16 \<Rightarrow> ('a) ksys_scheme \<Rightarrow>
    (nat option \<times> ('a) ksys_scheme) option" where
  "create D path ty major minor s = do {
     (r, s1) \<leftarrow> nameiparent D (cpid s) (cwd s) path s;
     case r of
       None \<Rightarrow> Some (None, s1)
     | Some (dp, name) \<Rightarrow> do {
         s2 \<leftarrow> ilock (cpid s) dp s1;
         (l, s3) \<leftarrow> dirlookup D dp name s2;
         case l of
           Some (ip, _) \<Rightarrow> do {
             s4 \<leftarrow> iunlockput (cpid s) dp s3;
             s5 \<leftarrow> ilock (cpid s) ip s4;
             if ty = T_FILE \<and> i_type (icache s5 ip) = T_FILE then Some (Some ip, s5)
             else do { s6 \<leftarrow> iunlockput (cpid s) ip s5; Some (None, s6) }
           }
         | None \<Rightarrow> create_make D dp name ty major minor s3
       }
   }"

text \<open>\<open>sys_open\<close> once the inode is locked.\<close>

definition open_inode :: "nat \<Rightarrow> u32 \<Rightarrow> ('a) ksys_scheme \<Rightarrow> (int \<times> ('a) ksys_scheme) option" where
  "open_inode ip omode s =
     (case filealloc s of
        (None, s1) \<Rightarrow> do { s2 \<leftarrow> iunlockput (cpid s) ip s1; s3 \<leftarrow> end_op s2; Some (- 1, s3) }
      | (Some f, s1) \<Rightarrow>
          (case fdalloc f s1 of (fd, s2) \<Rightarrow>
             if fd < 0 then do {
               s3 \<leftarrow> fileclose (cpid s) f s2; s4 \<leftarrow> iunlockput (cpid s) ip s3; s5 \<leftarrow> end_op s4; Some (- 1, s5) }
             else do {
               s3 \<leftarrow> iunlock ip s2;
               s4 \<leftarrow> end_op s3;
               Some (fd, upd_file f (\<lambda>x. x\<lparr>f_type := FD_INODE, f_ip := ip, f_off := 0,
                 f_readable := (if omode AND O_WRONLY = 0 then 1 else 0),
                 f_writable := (if omode AND O_WRONLY \<noteq> 0 \<or> omode AND O_RDWR \<noteq> 0 then 1 else 0)\<rparr>) s4)
             }))"

definition sys_open :: "('a) ksys_scheme devsw \<Rightarrow> ('a) ksys_scheme \<Rightarrow> (int \<times> ('a) ksys_scheme) option" where
  "sys_open D s =
     (case argstr 0 s of None \<Rightarrow> Some (- 1, s) | Some path \<Rightarrow>
      case argint 1 s of None \<Rightarrow> Some (- 1, s) | Some omode \<Rightarrow> do {
        s1 \<leftarrow> begin_op s;
        if omode AND O_CREATE \<noteq> 0 then do {
          (r, s2) \<leftarrow> create D path T_FILE 0 0 s1;
          case r of
            None \<Rightarrow> do { s3 \<leftarrow> end_op s2; Some (- 1, s3) }
          | Some ip \<Rightarrow> open_inode ip omode s2
        }
        else do {
          (r, s2) \<leftarrow> namei D (cpid s) (cwd s) path s1;
          case r of
            None \<Rightarrow> do { s3 \<leftarrow> end_op s2; Some (- 1, s3) }
          | Some ip \<Rightarrow> do {
              s3 \<leftarrow> ilock (cpid s) ip s2;
              if i_type (icache s3 ip) = T_DIR \<and> omode \<noteq> O_RDONLY then do {
                s4 \<leftarrow> iunlockput (cpid s) ip s3; s5 \<leftarrow> end_op s4; Some (- 1, s5) }
              else open_inode ip omode s3
            }
        }
      })"

text \<open>The common tail of \<open>sys_mkdir\<close> and \<open>sys_mknod\<close>.\<close>

definition made :: "nat option \<Rightarrow> ('a) ksys_scheme \<Rightarrow> (int \<times> ('a) ksys_scheme) option" where
  "made r s =
     (case r of
        None \<Rightarrow> do { s1 \<leftarrow> end_op s; Some (- 1, s1) }
      | Some ip \<Rightarrow> do { s1 \<leftarrow> iunlockput (cpid s) ip s; s2 \<leftarrow> end_op s1; Some (0, s2) })"

definition sys_mkdir :: "('a) ksys_scheme devsw \<Rightarrow> ('a) ksys_scheme \<Rightarrow> (int \<times> ('a) ksys_scheme) option" where
  "sys_mkdir D s = do {
     s1 \<leftarrow> begin_op s;
     (r, s2) \<leftarrow> (case argstr 0 s1 of None \<Rightarrow> Some (None, s1) | Some path \<Rightarrow> create D path T_DIR 0 0 s1);
     made r s2
   }"

definition sys_mknod :: "('a) ksys_scheme devsw \<Rightarrow> ('a) ksys_scheme \<Rightarrow> (int \<times> ('a) ksys_scheme) option" where
  "sys_mknod D s = do {
     s1 \<leftarrow> begin_op s;
     (r, s2) \<leftarrow> (case argstr 0 s1 of None \<Rightarrow> Some (None, s1) | Some path \<Rightarrow>
        case argint 1 s1 of None \<Rightarrow> Some (None, s1) | Some major \<Rightarrow>
        case argint 2 s1 of None \<Rightarrow> Some (None, s1) | Some minor \<Rightarrow> create D path T_DEV (ucast major) (ucast minor) s1);
     made r s2
   }"

definition sys_chdir :: "('a) ksys_scheme devsw \<Rightarrow> ('a) ksys_scheme \<Rightarrow> (int \<times> ('a) ksys_scheme) option" where
  "sys_chdir D s = do {
     s1 \<leftarrow> begin_op s;
     (r, s2) \<leftarrow> (case argstr 0 s1 of None \<Rightarrow> Some (None, s1) | Some path \<Rightarrow> namei D (cpid s) (cwd s) path s1);
     case r of
       None \<Rightarrow> do { s3 \<leftarrow> end_op s2; Some (- 1, s3) }
     | Some ip \<Rightarrow> do {
         s3 \<leftarrow> ilock (cpid s) ip s2;
         if i_type (icache s3 ip) \<noteq> T_DIR then do {
           s4 \<leftarrow> iunlockput (cpid s) ip s3; s5 \<leftarrow> end_op s4; Some (- 1, s5) }
         else do {
           s4 \<leftarrow> iunlock ip s3;
           s5 \<leftarrow> iput (cpid s) (cwd s4) s4;
           s6 \<leftarrow> end_op s5;
           Some (0, s6\<lparr>cwd := ip\<rparr>)
         }
       }
   }"

section \<open>Pipes and swapping\<close>

definition sys_pipe :: "('a) ksys_scheme \<Rightarrow> (int \<times> ('a) ksys_scheme) option" where
  "sys_pipe s =
     (case argptr 0 8 s of None \<Rightarrow> Some (- 1, s) | Some fd \<Rightarrow> do {
        (r, s1) \<leftarrow> pipealloc (cpid s) s;
        case r of
          None \<Rightarrow> Some (- 1, s1)
        | Some (rfile, wfile) \<Rightarrow>
            (case fdalloc rfile s1 of (fd0, s2) \<Rightarrow>
             case (if fd0 < 0 then (- 1, s2) else fdalloc wfile s2) of (fd1, s3) \<Rightarrow>
               if fd0 < 0 \<or> fd1 < 0 then do {
                 let s4 = (if fd0 \<ge> 0 then s3\<lparr>ofiles := (ofiles s3)(nat fd0 := None)\<rparr> else s3);
                 s5 \<leftarrow> fileclose (cpid s) rfile s4;
                 s6 \<leftarrow> fileclose (cpid s) wfile s5;
                 Some (- 1, s6)
               }
               else Some (0, s3\<lparr>umem := put32 (put32 (umem s3) (unat fd) (word_of_int fd0)) (unat fd + 4) (word_of_int fd1)\<rparr>))
      })"

definition sys_bstat :: "('a) ksys_scheme \<Rightarrow> (int \<times> ('a) ksys_scheme) option" where
  "sys_bstat s = Some (numallocblocks s, s)"

text \<open>\<open>sys_swap\<close> does not check the result of \<open>walkpgdir\<close>.\<close>

definition sys_swap :: "('a) ksys_scheme devsw \<Rightarrow> (nat \<Rightarrow> bytes \<Rightarrow> bytes) \<Rightarrow> ('a) ksys_scheme \<Rightarrow> (int \<times> ('a) ksys_scheme) option" where
  "sys_swap D img s =
     (case argint 0 s of None \<Rightarrow> Some (- 1, s) | Some addr \<Rightarrow> do {
        (pte, s1) \<leftarrow> walkpgdir (pgdir s) addr True s;
        e \<leftarrow> kload pte s1;
        s2 \<leftarrow> (if e AND PTE_P \<noteq> 0 then swap_page_from_pte D (cpid s) (cwd s) img pte s1 else Some s1);
        Some (0, s2)
      })"

end
