(* ===== verification/Exec.thy ===== *)
theory Exec
  imports Sysfile
begin

text \<open>
  exec.c and \<open>sys_exec\<close>: loading an ELF image into a fresh address space, building the stack
  and switching to it. The result of a step that may go to the label \<^verbatim>\<open>bad\<close> is \<open>None\<close> of an inner option.
\<close>

section \<open>ELF headers\<close>

definition ELF_MAGIC :: u32 where "ELF_MAGIC = 0x464C457F"
definition ELF_PROG_LOAD :: u32 where "ELF_PROG_LOAD = 1"
definition ELFHDR_SIZE :: nat where "ELFHDR_SIZE = 52"
definition PROGHDR_SIZE :: nat where "PROGHDR_SIZE = 32"

record elfhdr =
  eh_magic :: u32
  eh_entry :: u32
  eh_phoff :: u32
  eh_phnum :: u16

definition decode_elfhdr :: "bytes \<Rightarrow> elfhdr" where
  "decode_elfhdr b = \<lparr>eh_magic = get32 b 0, eh_entry = get32 b 24, eh_phoff = get32 b 28, eh_phnum = get16 b 44\<rparr>"

record proghdr =
  ph_type :: u32
  ph_off :: u32
  ph_vaddr :: u32
  ph_filesz :: u32
  ph_memsz :: u32

definition decode_proghdr :: "bytes \<Rightarrow> proghdr" where
  "decode_proghdr b = \<lparr>ph_type = get32 b 0, ph_off = get32 b 4, ph_vaddr = get32 b 8, ph_filesz = get32 b 16, ph_memsz = get32 b 20\<rparr>"

section \<open>Loading\<close>

text \<open>One round of the loop over the program headers, at file offset \<open>off\<close>; the result is the new size.\<close>

definition load_segment :: "('a) ksys_scheme devsw \<Rightarrow> u32 \<Rightarrow> nat \<Rightarrow> u32 \<Rightarrow> u32 \<Rightarrow> ('a) ksys_scheme \<Rightarrow>
    (u32 option \<times> ('a) ksys_scheme) option" where
  "load_segment D pd ip off sz s = do {
     (r, b, s1) \<leftarrow> readi D ip zero_bytes off (of_nat PROGHDR_SIZE) s;
     let ph = decode_proghdr b;
     if r \<noteq> int PROGHDR_SIZE then Some (None, s1)
     else if ph_type ph \<noteq> ELF_PROG_LOAD then Some (Some sz, s1)
     else if ph_memsz ph < ph_filesz ph then Some (None, s1)
     else if ph_vaddr ph + ph_memsz ph < ph_vaddr ph then Some (None, s1)
     else do {
       (sz', s2) \<leftarrow> allocuvm pd sz (ph_vaddr ph + ph_memsz ph) s1;
       if sz' = 0 then Some (None, s2)
       else if ph_vaddr ph mod 4096 \<noteq> 0 then Some (None, s2)
       else do {
         (l, s3) \<leftarrow> loaduvm D pd (ph_vaddr ph) ip (ph_off ph) (ph_filesz ph) s2;
         if l < 0 then Some (None, s3) else Some (Some sz', s3)
       }
     }
   }"

fun load_segments :: "('a) ksys_scheme devsw \<Rightarrow> u32 \<Rightarrow> nat \<Rightarrow> u32 \<Rightarrow> nat \<Rightarrow> u32 \<Rightarrow> ('a) ksys_scheme \<Rightarrow>
    (u32 option \<times> ('a) ksys_scheme) option" where
  "load_segments D pd ip off 0 sz s = Some (Some sz, s)"
| "load_segments D pd ip off (Suc n) sz s = do {
     (r, s1) \<leftarrow> load_segment D pd ip off sz s;
     case r of
       None \<Rightarrow> Some (None, s1)
     | Some sz' \<Rightarrow> load_segments D pd ip (off + of_nat PROGHDR_SIZE) n sz' s1
   }"

text \<open>The label \<^verbatim>\<open>bad\<close>: \<open>pd\<close> is 0 before \<open>setupkvm\<close> has returned a directory.\<close>

definition exec_bad :: "u32 \<Rightarrow> nat option \<Rightarrow> ('a) ksys_scheme \<Rightarrow> (int \<times> ('a) ksys_scheme) option" where
  "exec_bad pd ip s = do {
     s1 \<leftarrow> (if pd \<noteq> 0 then freevm pd s else Some s);
     s2 \<leftarrow> (case ip of Some i \<Rightarrow> do { t \<leftarrow> iunlockput (cpid s) i s1; end_op t } | None \<Rightarrow> Some s1);
     Some (- 1, s2)
   }"

section \<open>The stack\<close>

definition string_bytes :: "string \<Rightarrow> bytes" where
  "string_bytes a k = (if k < length a then of_nat (of_char (a ! k)) else 0)"

fun word_bytes :: "nat \<Rightarrow> u32 list \<Rightarrow> bytes \<Rightarrow> bytes" where
  "word_bytes i [] b = b"
| "word_bytes i (w # ws) b = word_bytes (i + 4) ws (put32 b i w)"

text \<open>The argument strings go below \<open>sp\<close>, one after another; \<open>ustack\<close> collects their addresses.\<close>

fun push_args :: "u32 \<Rightarrow> u32 \<Rightarrow> u32 list \<Rightarrow> string list \<Rightarrow> ('a) ksys_scheme \<Rightarrow>
    ((u32 \<times> u32 list) option \<times> ('a) ksys_scheme) option" where
  "push_args pd sp ustack [] s = Some (Some (sp, ustack), s)"
| "push_args pd sp ustack (a # as) s =
     (if length ustack \<ge> MAXARG then Some (None, s)
      else do {
        let sp' = (sp - (of_nat (length a) + 1)) AND NOT 3;
        (r, s1) \<leftarrow> copyout pd sp' (string_bytes a) (of_nat (length a) + 1) s;
        if r < 0 then Some (None, s1) else push_args pd sp' (ustack @ [sp']) as s1
      })"

definition push_stack :: "u32 \<Rightarrow> u32 \<Rightarrow> string list \<Rightarrow> ('a) ksys_scheme \<Rightarrow> (u32 option \<times> ('a) ksys_scheme) option" where
  "push_stack pd sp0 argv s = do {
     (r, s1) \<leftarrow> push_args pd sp0 [] argv s;
     case r of
       None \<Rightarrow> Some (None, s1)
     | Some (sp, addrs) \<Rightarrow> do {
         let argc = length addrs;
         let ustack = [0xffffffff, of_nat argc, sp - (of_nat argc + 1) * 4] @ addrs @ [0];
         let sp' = sp - (3 + of_nat argc + 1) * 4;
         (c, s2) \<leftarrow> copyout pd sp' (word_bytes 0 ustack zero_bytes) ((3 + of_nat argc + 1) * 4) s1;
         if c < 0 then Some (None, s2) else Some (Some sp', s2)
       }
   }"

text \<open>The name kept for debugging: what follows the last slash, at most 15 characters.\<close>

definition base_name :: "string \<Rightarrow> string" where
  "base_name path = take 15 (rev (takeWhile (\<lambda>c. c \<noteq> CHR ''/'') (rev path)))"

text \<open>User memory as the hardware shows it through a page directory; a page that is not present reads as 0.\<close>

definition user_view :: "u32 \<Rightarrow> ('a) vm_scheme \<Rightarrow> bytes" where
  "user_view pd s i =
     (case do { (pte, _) \<leftarrow> walkpgdir pd (of_nat i) False s; if pte = 0 then Some 0 else kload pte s } of
        None \<Rightarrow> 0
      | Some e \<Rightarrow> if e AND PTE_P = 0 then 0 else ram s (unat (PTE_ADDR e) + i mod PGSIZE))"

definition exec_commit :: "string \<Rightarrow> u32 \<Rightarrow> u32 \<Rightarrow> u32 \<Rightarrow> u32 \<Rightarrow> ('a) ksys_scheme \<Rightarrow> (int \<times> ('a) ksys_scheme) option" where
  "exec_commit path pd sz entry1 sp s = do {
     let oldpgdir = pgdir s;
     let s1 = s\<lparr>pname := base_name path, pgdir := pd, psz := sz, tf_eip := entry1, tf_esp := sp, umem := user_view pd s\<rparr>;
     s2 \<leftarrow> freevm oldpgdir s1;
     Some (0, s2)
   }"

section \<open>exec\<close>

text \<open>After the image is loaded: two more pages, the lower one inaccessible, the upper one the stack.\<close>

definition exec_stack :: "string \<Rightarrow> string list \<Rightarrow> u32 \<Rightarrow> u32 \<Rightarrow> u32 \<Rightarrow> ('a) ksys_scheme \<Rightarrow> (int \<times> ('a) ksys_scheme) option" where
  "exec_stack path argv pd entry1 sz0 s = do {
     let sz1 = PGROUNDUP sz0;
     (sz, s1) \<leftarrow> allocuvm pd sz1 (sz1 + 2 * 4096) s;
     if sz = 0 then exec_bad pd None s1
     else do {
       s2 \<leftarrow> clearpteu pd (sz - 2 * 4096) s1;
       (r, s3) \<leftarrow> push_stack pd sz argv s2;
       case r of
         None \<Rightarrow> exec_bad pd None s3
       | Some sp \<Rightarrow> exec_commit path pd sz entry1 sp s3
     }
   }"

definition exec_image :: "('a) ksys_scheme devsw \<Rightarrow> string \<Rightarrow> string list \<Rightarrow> nat \<Rightarrow> ('a) ksys_scheme \<Rightarrow>
    (int \<times> ('a) ksys_scheme) option" where
  "exec_image D path argv ip s = do {
     (r, b, s1) \<leftarrow> readi D ip zero_bytes 0 (of_nat ELFHDR_SIZE) s;
     let elf = decode_elfhdr b;
     if r \<noteq> int ELFHDR_SIZE then exec_bad 0 (Some ip) s1
     else if eh_magic elf \<noteq> ELF_MAGIC then exec_bad 0 (Some ip) s1
     else do {
       (pd, s2) \<leftarrow> setupkvm s1;
       if pd = 0 then exec_bad 0 (Some ip) s2
       else do {
         (l, s3) \<leftarrow> load_segments D pd ip (eh_phoff elf) (unat (eh_phnum elf)) 0 s2;
         case l of
           None \<Rightarrow> exec_bad pd (Some ip) s3
         | Some sz \<Rightarrow> do {
             s4 \<leftarrow> iunlockput (cpid s) ip s3;
             s5 \<leftarrow> end_op s4;
             exec_stack path argv pd (eh_entry elf) sz s5
           }
       }
     }
   }"

definition exec :: "('a) ksys_scheme devsw \<Rightarrow> string \<Rightarrow> string list \<Rightarrow> ('a) ksys_scheme \<Rightarrow> (int \<times> ('a) ksys_scheme) option" where
  "exec D path argv s = do {
     s1 \<leftarrow> begin_op s;
     (r, s2) \<leftarrow> namei D (cpid s) (cwd s) path s1;
     case r of
       None \<Rightarrow> do { s3 \<leftarrow> end_op s2; Some (- 1, s3) }
     | Some ip \<Rightarrow> do { s3 \<leftarrow> ilock (cpid s) ip s2; exec_image D path argv ip s3 }
   }"

text \<open>The loop of \<open>sys_exec\<close> over the argument vector in user memory, with room for \<open>n\<close> more.\<close>

fun fetch_args :: "nat \<Rightarrow> u32 \<Rightarrow> ('a) ksys_scheme \<Rightarrow> string list option" where
  "fetch_args 0 uargv s = None"
| "fetch_args (Suc n) uargv s = do {
     uarg \<leftarrow> fetchint uargv s;
     if uarg = 0 then Some []
     else do { a \<leftarrow> fetchstr uarg s; as \<leftarrow> fetch_args n (uargv + 4) s; Some (a # as) }
   }"

definition sys_exec :: "('a) ksys_scheme devsw \<Rightarrow> ('a) ksys_scheme \<Rightarrow> (int \<times> ('a) ksys_scheme) option" where
  "sys_exec D s =
     (case argstr 0 s of None \<Rightarrow> Some (- 1, s) | Some path \<Rightarrow>
      case argint 1 s of None \<Rightarrow> Some (- 1, s) | Some uargv \<Rightarrow>
      case fetch_args MAXARG uargv s of None \<Rightarrow> Some (- 1, s) | Some argv \<Rightarrow> exec D path argv s)"

end
