(* ===== verification/ProcB.thy ===== *)
theory ProcB
  imports Proc Exec
begin

text \<open>
  The process table of the demand-paging kernel (\<^verbatim>\<open>Assignment 3/G17/Part_B/proc.c\<close>): creation, fork, exit,
  wait, sleep, wakeup and kill over the memory, files and disk of the theories below, which are the component
  \<open>mach\<close> of the state. A pointer into the table is a slot number. A critical section under
  \<^verbatim>\<open>ptable.lock\<close> is one function. A process that gives up the CPU in the middle of kernel code leaves a
  \<open>kcont\<close>, the point where \<^verbatim>\<open>swtch\<close> resumes it; the bytes of its kernel stack (context and trap frame)
  are these two fields, only the page itself comes from the allocator. \<open>None\<close> is panic or waiting for ever.
\<close>

section \<open>State\<close>

text \<open>Sleep channels by what their address identifies.\<close>

datatype uchan = UProc nat | UTicks | UPipe pchan | USwap bool

text \<open>
  Where a saved context resumes: a new process, one preempted by the timer, in \<open>wait\<close>, in \<open>sys_sleep\<close> with its
  locals, in a pipe call on a file with the bytes already written, and the two swapper threads.
\<close>

datatype kcont = KForkret | KPreempted | KWait | KSleep u32 u32 | KRead | KWrite nat | KSwapper bool

record uproc =
  u_sz :: u32
  u_pgdir :: u32
  u_kstack :: u32
  u_state :: procstate
  u_pid :: int
  u_parent :: "nat option"
  u_tf :: trapframe
  u_cont :: kcont
  u_chan :: "uchan option"
  u_killed :: bool
  u_ofile :: "nat \<Rightarrow> nat option"
  u_cwd :: "nat option"
  u_name :: string

record qnode =
  q_p :: "nat option"
  q_next :: "nat option"
  q_prev :: "nat option"

text \<open>
  \<open>cur\<close> is \<^verbatim>\<open>c->proc\<close> of the CPU, \<open>cr3\<close> and \<open>esp0\<close> are its page directory register and the kernel stack of its
  task state, \<open>spos\<close> is the loop variable of \<open>scheduler\<close>, \<open>first\<close> the static variable of \<open>forkret\<close>.
\<close>

record psys =
  mach :: ksys
  ptab :: "nat \<Rightarrow> uproc"
  initp :: "nat option"
  nextp :: int
  cur :: "nat option"
  cr3 :: u32
  esp0 :: u32
  kpgdir :: u32
  spos :: nat
  uticks :: u32
  first :: bool
  qnodes :: "nat \<Rightarrow> qnode"
  freenode :: "nat option"

definition upd_slot :: "nat \<Rightarrow> (uproc \<Rightarrow> uproc) \<Rightarrow> psys \<Rightarrow> psys" where
  "upd_slot p f s = s\<lparr>ptab := (ptab s)(p := f (ptab s p))\<rparr>"

section \<open>Which CPU\<close>

text \<open>\<open>mycpu\<close> panics with interrupts enabled and for an APIC id that is not listed.\<close>

definition mycpu :: "bool \<Rightarrow> u8 \<Rightarrow> u8 list \<Rightarrow> nat option" where
  "mycpu intr apicid cpus = (if intr then None else find_idx (\<lambda>a. a = apicid) cpus)"

definition cpuid :: "bool \<Rightarrow> u8 \<Rightarrow> u8 list \<Rightarrow> nat option" where
  "cpuid intr apicid cpus = mycpu intr apicid cpus"

section \<open>Wakeup\<close>

definition wakeup1 :: "uchan option \<Rightarrow> psys \<Rightarrow> psys" where
  "wakeup1 ch s = s\<lparr>ptab := (\<lambda>p. let x = ptab s p in
     if p < NPROC \<and> u_state x = SLEEPING \<and> u_chan x = ch then x\<lparr>u_state := RUNNABLE\<rparr> else x)\<rparr>"

definition wakeup :: "uchan option \<Rightarrow> psys \<Rightarrow> psys" where
  "wakeup ch s = wakeup1 ch s"

text \<open>Code of the theories below records the channels it wakes; here they take effect.\<close>

definition put_mach :: "ksys \<Rightarrow> psys \<Rightarrow> psys" where
  "put_mach c s = fold (\<lambda>ch. wakeup (Some (UPipe ch))) (rev (wakeups c)) (s\<lparr>mach := c\<lparr>wakeups := []\<rparr>\<rparr>)"

section \<open>Switching\<close>

definition switchuvm :: "nat \<Rightarrow> psys \<Rightarrow> psys option" where
  "switchuvm p s =
     (if u_kstack (ptab s p) = 0 then None
      else if u_pgdir (ptab s p) = 0 then None
      else Some (s\<lparr>esp0 := u_kstack (ptab s p) + of_nat KSTACKSIZE, cr3 := V2P (u_pgdir (ptab s p))\<rparr>))"

definition switchkvm :: "psys \<Rightarrow> psys" where
  "switchkvm s = s\<lparr>cr3 := V2P (kpgdir s)\<rparr>"

text \<open>
  \<open>sched\<close> up to \<^verbatim>\<open>swtch\<close> and what \<open>scheduler\<close> does after it. The tests on the lock and on interrupts are about the
  discipline of the theory Locks.
\<close>

definition sched :: "nat \<Rightarrow> psys \<Rightarrow> psys option" where
  "sched p s =
     (if u_state (ptab s p) = RUNNING then None
      else Some ((switchkvm s)\<lparr>cur := None\<rparr>))"

definition yield :: "nat \<Rightarrow> psys \<Rightarrow> psys option" where
  "yield p s = sched p (upd_slot p (\<lambda>x. x\<lparr>u_state := RUNNABLE, u_cont := KPreempted\<rparr>) s)"

text \<open>\<open>sleep\<close> up to \<open>sched\<close>, and the line after it.\<close>

definition sleep :: "nat \<Rightarrow> uchan \<Rightarrow> kcont \<Rightarrow> psys \<Rightarrow> psys option" where
  "sleep p ch k s = sched p (upd_slot p (\<lambda>x. x\<lparr>u_chan := Some ch, u_state := SLEEPING, u_cont := k\<rparr>) s)"

definition slept :: "nat \<Rightarrow> psys \<Rightarrow> psys" where
  "slept p s = upd_slot p (\<lambda>x. x\<lparr>u_chan := None\<rparr>) s"

text \<open>\<open>kill\<close> takes the first slot with the pid, whatever its state.\<close>

definition kill :: "int \<Rightarrow> psys \<Rightarrow> int \<times> psys" where
  "kill pid s =
     (case find (\<lambda>p. u_pid (ptab s p) = pid) [0..<NPROC] of
        None \<Rightarrow> (- 1, s)
      | Some p \<Rightarrow> (0, upd_slot p (\<lambda>x. x\<lparr>u_killed := True,
          u_state := (if u_state x = SLEEPING then RUNNABLE else u_state x)\<rparr>) s))"

section \<open>Creation\<close>

definition allocproc :: "psys \<Rightarrow> (nat option \<times> psys) option" where
  "allocproc s =
     (case find (\<lambda>p. u_state (ptab s p) = UNUSED) [0..<NPROC] of
        None \<Rightarrow> Some (None, s)
      | Some p \<Rightarrow> do {
          let s1 = upd_slot p (\<lambda>x. x\<lparr>u_state := EMBRYO, u_pid := nextp s\<rparr>) (s\<lparr>nextp := wrap32 (nextp s + 1)\<rparr>);
          (k, c) \<leftarrow> kalloc (mach s1);
          let s2 = s1\<lparr>mach := c\<rparr>;
          if k = 0 then Some (None, upd_slot p (\<lambda>x. x\<lparr>u_kstack := 0, u_state := UNUSED\<rparr>) s2)
          else Some (Some p, upd_slot p (\<lambda>x. x\<lparr>u_kstack := k, u_cont := KForkret\<rparr>) s2)
        })"

text \<open>The trap frame of a process that starts in user mode at address 0 with one page.\<close>

definition user_tf :: trapframe where
  "user_tf = zero_tf\<lparr>tf_cs := 0x1B, tf_ds := 0x23, tf_es := 0x23, tf_ss := 0x23, tf_eflags := 0x200,
     trapframe.tf_esp := 4096, trapframe.tf_eip := 0\<rparr>"

text \<open>\<open>initcode\<close> and its size are produced by the build.\<close>

definition userinit :: "ksys devsw \<Rightarrow> bytes \<Rightarrow> u32 \<Rightarrow> psys \<Rightarrow> psys option" where
  "userinit D initcode isz s = do {
     (r, s1) \<leftarrow> allocproc s;
     p \<leftarrow> r;
     (pd, c1) \<leftarrow> setupkvm (mach s1);
     if pd = 0 then None
     else do {
       c2 \<leftarrow> inituvm pd initcode isz c1;
       (cw, c3) \<leftarrow> namei D 0 0 ''/'' c2;
       Some (upd_slot p (\<lambda>x. x\<lparr>u_pgdir := pd, u_sz := 4096, u_tf := user_tf, u_name := safestr ''initcode'' 16,
         u_cwd := cw, u_state := RUNNABLE\<rparr>) (put_mach c3 (s1\<lparr>initp := Some p\<rparr>)))
     }
   }"

text \<open>The comparison with \<open>KERNBASE\<close> is unsigned; \<open>n\<close> is the C int.\<close>

definition growproc :: "nat \<Rightarrow> u32 \<Rightarrow> psys \<Rightarrow> int \<times> psys" where
  "growproc p n s =
     (if sint n < 0 \<or> n > KERNBASE \<or> u_sz (ptab s p) + n > KERNBASE then (- 1, s)
      else (0, upd_slot p (\<lambda>x. x\<lparr>u_sz := u_sz x + n\<rparr>) s))"

fun dup_open :: "(nat \<Rightarrow> nat option) \<Rightarrow> nat list \<Rightarrow> ksys \<Rightarrow> ksys option" where
  "dup_open ofs [] c = Some c"
| "dup_open ofs (fd # fds) c =
     (case ofs fd of
        None \<Rightarrow> dup_open ofs fds c
      | Some f \<Rightarrow> do { c1 \<leftarrow> filedup f c; dup_open ofs fds c1 })"

definition cwd_of :: "uproc \<Rightarrow> nat" where
  "cwd_of x = (case u_cwd x of Some i \<Rightarrow> i | None \<Rightarrow> 0)"

text \<open>Process \<open>p\<close> forks; \<open>img\<close> as in Swap.\<close>

definition fork :: "ksys devsw \<Rightarrow> (nat \<Rightarrow> bytes \<Rightarrow> bytes) \<Rightarrow> nat \<Rightarrow> psys \<Rightarrow> (int \<times> psys) option" where
  "fork D img p s = do {
     (r, s1) \<leftarrow> allocproc s;
     case r of
       None \<Rightarrow> Some (- 1, s1)
     | Some np \<Rightarrow> do {
         let x = ptab s1 p;
         (d, c1) \<leftarrow> copyuvm D (u_pid x) (cwd_of x) img (u_pgdir x) (u_sz x) (mach s1);
         if d = 0 then do {
           c2 \<leftarrow> kfree (u_kstack (ptab s1 np)) c1;
           Some (- 1, upd_slot np (\<lambda>y. y\<lparr>u_pgdir := 0, u_kstack := 0, u_state := UNUSED\<rparr>) (put_mach c2 s1))
         }
         else do {
           c2 \<leftarrow> dup_open (u_ofile x) [0..<NOFILE] c1;
           let c3 = idup (cwd_of x) c2;
           let ofs = (\<lambda>fd. if fd < NOFILE \<and> u_ofile x fd \<noteq> None then u_ofile x fd else u_ofile (ptab s1 np) fd);
           Some (u_pid (ptab s1 np), upd_slot np (\<lambda>y. y\<lparr>u_pgdir := d, u_sz := u_sz x, u_parent := Some p,
             u_tf := (u_tf x)\<lparr>trapframe.tf_eax := 0\<rparr>, u_ofile := ofs, u_cwd := Some (cwd_of x),
             u_name := safestr (u_name x) 16, u_state := RUNNABLE\<rparr>) (put_mach c3 s1))
         }
       }
   }"

section \<open>Exit and wait\<close>

fun close_open :: "int \<Rightarrow> (nat \<Rightarrow> nat option) \<Rightarrow> nat list \<Rightarrow> ksys \<Rightarrow> ksys option" where
  "close_open pid ofs [] c = Some c"
| "close_open pid ofs (fd # fds) c =
     (case ofs fd of
        None \<Rightarrow> close_open pid ofs fds c
      | Some f \<Rightarrow> do { c1 \<leftarrow> fileclose pid f c; close_open pid ofs fds c1 })"

text \<open>The loop of \<open>exit\<close> that gives the children to the first process.\<close>

fun reparent :: "nat \<Rightarrow> nat list \<Rightarrow> psys \<Rightarrow> psys" where
  "reparent p [] s = s"
| "reparent p (q # qs) s =
     (if u_parent (ptab s q) = Some p then
        let s1 = upd_slot q (\<lambda>x. x\<lparr>u_parent := initp s\<rparr>) s
        in reparent p qs (if u_state (ptab s1 q) = ZOMBIE then wakeup1 (map_option UProc (initp s1)) s1 else s1)
      else reparent p qs s)"

definition exit :: "nat \<Rightarrow> psys \<Rightarrow> psys option" where
  "exit p s =
     (if initp s = Some p then None
      else do {
        let x = ptab s p;
        c1 \<leftarrow> close_open (u_pid x) (u_ofile x) [0..<NOFILE] (mach s);
        c2 \<leftarrow> begin_op c1;
        c3 \<leftarrow> iput (u_pid x) (cwd_of x) c2;
        c4 \<leftarrow> end_op c3;
        let s1 = upd_slot p (\<lambda>y. y\<lparr>u_ofile := (\<lambda>fd. if fd < NOFILE then None else u_ofile y fd), u_cwd := None\<rparr>)
          (put_mach c4 s);
        let s2 = wakeup1 (map_option UProc (u_parent (ptab s1 p))) s1;
        let s3 = reparent p [0..<NPROC] s2;
        sched p (upd_slot p (\<lambda>y. y\<lparr>u_state := ZOMBIE\<rparr>) s3)
      })"

text \<open>A call from user space returns a value or gives up the CPU.\<close>

datatype kres = Ret int | Away

text \<open>The scan of \<open>wait\<close> over the table: the first zombie child, and whether there was any child.\<close>

fun wait_scan :: "nat \<Rightarrow> (nat \<Rightarrow> uproc) \<Rightarrow> nat list \<Rightarrow> bool \<Rightarrow> nat option \<times> bool" where
  "wait_scan p tab [] havekids = (None, havekids)"
| "wait_scan p tab (q # qs) havekids =
     (if u_parent (tab q) \<noteq> Some p then wait_scan p tab qs havekids
      else if u_state (tab q) = ZOMBIE then (Some q, True)
      else wait_scan p tab qs True)"

definition wait :: "nat \<Rightarrow> psys \<Rightarrow> (kres \<times> psys) option" where
  "wait p s =
     (case wait_scan p (ptab s) [0..<NPROC] False of
        (Some q, _) \<Rightarrow> do {
          let x = ptab s q;
          c1 \<leftarrow> kfree (u_kstack x) (mach s);
          let s1 = upd_slot q (\<lambda>y. y\<lparr>u_kstack := 0, u_pgdir := 0, u_pid := 0, u_parent := None, u_name := [],
            u_killed := False, u_state := UNUSED\<rparr>) (put_mach c1 s);
          c2 \<leftarrow> freevm (u_pgdir x) (mach s1);
          Some (Ret (u_pid x), put_mach c2 s1)
        }
      | (None, havekids) \<Rightarrow>
          if \<not> havekids \<or> u_killed (ptab s p) then Some (Ret (- 1), s)
          else do { s1 \<leftarrow> sleep p (UProc p) KWait s; Some (Away, s1) })"

text \<open>The first run of a process, still in the kernel.\<close>

definition forkret :: "psys \<Rightarrow> psys option" where
  "forkret s =
     (if first s then do {
        c1 \<leftarrow> iinit (mach s);
        c2 \<leftarrow> initlog c1;
        Some (put_mach c2 (s\<lparr>first := False\<rparr>))
      } else Some s)"

section \<open>The swapper threads\<close>

text \<open>
  \<open>swapout\<close> (\<open>True\<close>) and \<open>swapin\<close> (\<open>False\<close>) only sleep, both when they start and after each wakeup.
\<close>

definition swapout :: "nat \<Rightarrow> psys \<Rightarrow> psys option" where
  "swapout p s = sleep p (USwap True) (KSwapper True) s"

definition swapin :: "nat \<Rightarrow> psys \<Rightarrow> psys option" where
  "swapin p s = sleep p (USwap False) (KSwapper False) s"

text \<open>
  \<open>qn\<close> is the indeterminate value of the local variable of that name. \<open>sizeof(name)\<close> is the size of a pointer.
\<close>

definition create_kernel_process :: "ksys devsw \<Rightarrow> nat \<Rightarrow> string \<Rightarrow> bool \<Rightarrow> psys \<Rightarrow> psys option" where
  "create_kernel_process D qn name entry s = do {
     (r, s1) \<leftarrow> allocproc s;
     p \<leftarrow> r;
     n \<leftarrow> freenode s1;
     let nx = q_next (qnodes s1 n);
     let s2 = s1\<lparr>freenode := nx\<rparr>;
     let s3 = (case nx of None \<Rightarrow> s2 | Some m \<Rightarrow> s2\<lparr>qnodes := (qnodes s2)(m := (qnodes s2 m)\<lparr>q_prev := None\<rparr>)\<rparr>);
     (pd, c1) \<leftarrow> setupkvm (mach s3);
     if pd = 0 then None
     else do {
       (cw, c2) \<leftarrow> namei D 0 0 ''/'' c1;
       let s4 = put_mach c2 s3;
       let s5 = s4\<lparr>qnodes := (qnodes s4)(qn := (qnodes s4 qn)\<lparr>q_p := Some p\<rparr>)\<rparr>;
       Some (upd_slot p (\<lambda>x. x\<lparr>u_pgdir := pd, u_sz := 4096, u_parent := initp s5, u_tf := user_tf\<lparr>trapframe.tf_eax := 0\<rparr>,
         u_cwd := cw, u_name := safestr name 4, u_cont := KSwapper entry, u_state := RUNNABLE\<rparr>) s5)
     }
   }"

section \<open>The process listing\<close>

definition state_name :: "procstate \<Rightarrow> string" where
  "state_name x = (case x of UNUSED \<Rightarrow> ''unused'' | EMBRYO \<Rightarrow> ''embryo'' | SLEEPING \<Rightarrow> ''sleep ''
     | RUNNABLE \<Rightarrow> ''runble'' | RUNNING \<Rightarrow> ''run   '' | ZOMBIE \<Rightarrow> ''zombie'')"

text \<open>
  The lines of \<open>procdump\<close> as pid, state, name and program counters; \<open>pcs\<close> gives what \<open>getcallerpcs\<close> finds on the
  kernel stack of a sleeping process, shown up to the first 0.
\<close>

fun procdump_lines :: "(nat \<Rightarrow> u32 list) \<Rightarrow> (nat \<Rightarrow> uproc) \<Rightarrow> nat list \<Rightarrow> (int \<times> string \<times> string \<times> u32 list) list" where
  "procdump_lines pcs tab [] = []"
| "procdump_lines pcs tab (p # ps) =
     (if u_state (tab p) = UNUSED then procdump_lines pcs tab ps
      else (u_pid (tab p), state_name (u_state (tab p)), u_name (tab p),
            if u_state (tab p) = SLEEPING then takeWhile (\<lambda>a. a \<noteq> 0) (take 10 (pcs p)) else [])
           # procdump_lines pcs tab ps)"

definition procdump :: "(nat \<Rightarrow> u32 list) \<Rightarrow> psys \<Rightarrow> (int \<times> string \<times> string \<times> u32 list) list" where
  "procdump pcs s = procdump_lines pcs (ptab s) [0..<NPROC]"

end
