(* ===== verification/Wakeup.thy ===== *)
theory Wakeup
  imports ProcB ProcSched
begin

text \<open>
  The contract of \<open>wakeup\<close>, which both kernels provide and the pipe, the clock, \<open>exit\<close> and the sleep locks rely on. The
  laws say what one call does to the table; the lemmas follow for any number of calls. The kernel of Part B collects the channels that a
  system call wakes and wakes them at its end (\<open>put_mach\<close>), and the lemmas justify that.
\<close>

locale wakeup_table =
  fixes wake :: "'c \<Rightarrow> 's \<Rightarrow> 's" and slots :: "'s \<Rightarrow> nat set" and state_of :: "'s \<Rightarrow> nat \<Rightarrow> procstate" and chan_of :: "'s \<Rightarrow> nat \<Rightarrow> 'c"
  assumes wake_slots: "slots (wake c s) = slots s"
    and wake_chan: "i \<in> slots s \<Longrightarrow> chan_of (wake c s) i = chan_of s i"
    and wake_state: "i \<in> slots s \<Longrightarrow> state_of (wake c s) i = (if state_of s i = SLEEPING \<and> chan_of s i = c then RUNNABLE else state_of s i)"
begin

definition sleepers :: "'c \<Rightarrow> 's \<Rightarrow> nat set" where
  "sleepers c s = {i \<in> slots s. state_of s i = SLEEPING \<and> chan_of s i = c}"

lemma wake_sleepers: "sleepers d (wake c s) = (if d = c then {} else sleepers d s)"
  by (auto simp: sleepers_def wake_slots wake_chan wake_state split: if_splits)

lemma wake_all_slots: "slots (fold wake cs s) = slots s"
  by (induction cs arbitrary: s) (simp_all add: wake_slots)

lemma wake_all:
  assumes "i \<in> slots s"
  shows "chan_of (fold wake cs s) i = chan_of s i \<and>
    state_of (fold wake cs s) i = (if state_of s i = SLEEPING \<and> chan_of s i \<in> set cs then RUNNABLE else state_of s i)"
  using assms by (induction cs arbitrary: s) (auto simp: wake_slots wake_chan wake_state)

text \<open>Order and repetition of the calls do not matter.\<close>

lemma wake_all_cong: "i \<in> slots s \<Longrightarrow> set cs = set ds \<Longrightarrow> state_of (fold wake cs s) i = state_of (fold wake ds s) i"
  by (simp add: wake_all)

lemma wake_all_sleepers: "c \<in> set cs \<Longrightarrow> sleepers c (fold wake cs s) = {}"
  by (auto simp: sleepers_def wake_all_slots wake_all split: if_splits)

text \<open>Only sleepers on the woken channels change, and they become runnable: no wakeup stops a process.\<close>

lemma wake_all_runnable: "i \<in> slots s \<Longrightarrow> state_of s i = RUNNABLE \<Longrightarrow> state_of (fold wake cs s) i = RUNNABLE"
  by (simp add: wake_all)

end

interpretation wa: wakeup_table Proc.wakeup "\<lambda>s. {..<length (ptable s)}" "\<lambda>s i. p_state (ptable s ! i)" "\<lambda>s i. p_chan (ptable s ! i)"
  by unfold_locales (simp_all add: Proc.wakeup_def Proc.wakeup1_def upd_all_def wake_proc_def)

interpretation wb: wakeup_table ProcB.wakeup "\<lambda>s. {..<NPROC}" "\<lambda>s i. u_state (ptab s i)" "\<lambda>s i. u_chan (ptab s i)"
  by unfold_locales (simp_all add: ProcB.wakeup_def ProcB.wakeup1_def Let_def)

lemma put_mach_fold: "put_mach c s = fold ProcB.wakeup (map (\<lambda>ch. Some (UPipe ch)) (rev (wakeups c))) (s\<lparr>mach := c\<lparr>wakeups := []\<rparr>\<rparr>)"
  by (simp add: put_mach_def fold_map comp_def)

text \<open>At the end of a system call exactly the sleepers on the pipe channels that it has woken become runnable.\<close>

lemma put_mach_wakes:
  assumes "p < NPROC"
  shows "u_state (ptab (put_mach c s) p) =
    (if u_state (ptab s p) = SLEEPING \<and> u_chan (ptab s p) \<in> (\<lambda>ch. Some (UPipe ch)) ` set (wakeups c) then RUNNABLE else u_state (ptab s p))"
  using wb.wake_all [where i = p and s = "s\<lparr>mach := c\<lparr>wakeups := []\<rparr>\<rparr>" and cs = "map (\<lambda>ch. Some (UPipe ch)) (rev (wakeups c))"] assms
  by (simp add: put_mach_fold)

end
