(* ===== verification/VmInv.thy ===== *)
theory VmInv
  imports Vm
begin

text \<open>
  What a page directory in memory means: \<open>entry\<close> is the page table entry that the hardware finds
  for a virtual address, and \<open>pgdir_ok\<close> says that the directory and its page tables are distinct pages
  that are not on the free list. The lemmas describe \<open>walkpgdir\<close> and \<open>mappages\<close> over this view.
\<close>

section \<open>Indices\<close>

definition vpage :: "u32 \<Rightarrow> nat" where
  "vpage va = unat va div 4096"

lemma unat_and_3ff: "unat ((w :: u32) AND 0x3FF) = unat w mod 1024"
proof -
  have "(0x3FF :: u32) = mask 10" by (simp add: mask_eq_exp_minus_1)
  then have "w AND 0x3FF = take_bit 10 w" by (simp only: take_bit_eq_mask)
  then show ?thesis by (simp add: unsigned_take_bit_eq take_bit_nat_def)
qed

lemma unat_shift: "unat (drop_bit 12 (va :: u32)) = unat va div 4096" "unat (drop_bit 22 va) = unat va div 4194304"
  by (simp_all only: unat_drop_bit_eq) (simp_all add: drop_bit_eq_div)

lemma unat_u32_less: "unat (va :: u32) < 4294967296"
  using unsigned_less [of va] by simp

lemma PTX_vpage: "PTX va = vpage va mod 1024"
  unfolding PTX_def unat_and_3ff unat_shift by (simp add: vpage_def)

lemma PDX_vpage: "PDX va = vpage va div 1024"
proof -
  have "unat va div 4194304 < 1024" using unat_u32_less [of va] by simp
  moreover have "unat va div 4194304 = vpage va div 1024" by (simp add: vpage_def flip: div_mult2_eq)
  ultimately show ?thesis unfolding PDX_def unat_and_3ff unat_shift by simp
qed

lemma vpage_less: "vpage va < 1048576"
  using unat_u32_less [of va] unfolding vpage_def by simp

lemma PTX_less [simp]: "PTX va < 1024"
  by (simp add: PTX_vpage)

lemma PDX_less [simp]: "PDX va < 1024"
  using vpage_less [of va] by (simp add: PDX_vpage)

lemma vpage_iff: "PDX a = PDX b \<and> PTX a = PTX b \<longleftrightarrow> vpage a = vpage b"
  unfolding PTX_vpage PDX_vpage by (metis div_mult_mod_eq)

lemma upage_slot:
  assumes "upage p" and "k < 1024"
  shows "unat (V2P (p + 4 * of_nat k)) = unat (V2P p) + 4 * k" "kptr_ok (p + 4 * of_nat k) 4"
    "p + 4 * of_nat k \<noteq> 0"
proof -
  have b: "unat (V2P p) + 4096 \<le> 4194304"
    using upage_bounds(4) [OF assms(1)] by (simp add: PGSIZE_def PHYSTOP_def)
  have v: "V2P (p + 4 * of_nat k) = V2P p + 4 * of_nat k" by (simp add: V2P_def)
  have u: "unat (4 * of_nat k :: u32) = 4 * k" using assms(2) by (simp add: unat_word_ariths unat_of_nat)
  show e: "unat (V2P (p + 4 * of_nat k)) = unat (V2P p) + 4 * k"
    unfolding v using b assms(2) by (simp add: unat_word_ariths(1) u)
  have K: "KERNBASE \<le> p" by (rule upage_bounds(1) [OF assms(1)])
  then have "unat (V2P p) = unat p - 2147483648" "2147483648 \<le> unat p"
    by (simp_all add: V2P_def unat_sub KERNBASE_def word_le_nat_alt)
  then have "unat (p + 4 * of_nat k) = unat p + 4 * k"
    using b assms(2) by (simp add: unat_word_ariths(1) u)
  then have "KERNBASE \<le> p + 4 * of_nat k" "p + 4 * of_nat k \<noteq> 0"
    using K \<open>2147483648 \<le> unat p\<close> by (auto simp: word_le_nat_alt)
  then show "kptr_ok (p + 4 * of_nat k) 4" "p + 4 * of_nat k \<noteq> 0"
    using b assms(2) by (simp_all add: kptr_ok_def e PHYSTOP_def)
qed

section \<open>The contents of page tables\<close>

text \<open>Word \<open>k\<close> of page \<open>p\<close>.\<close>

definition slot :: "('a) vm_scheme \<Rightarrow> u32 \<Rightarrow> nat \<Rightarrow> u32" where
  "slot s p k = get32 (ram s) (unat (V2P p) + 4 * k)"

definition set_slot :: "u32 \<Rightarrow> nat \<Rightarrow> u32 \<Rightarrow> ('a) vm_scheme \<Rightarrow> ('a) vm_scheme" where
  "set_slot p k v s = s\<lparr>ram := put32 (ram s) (unat (V2P p) + 4 * k) v\<rparr>"

lemma kload_slot: "upage p \<Longrightarrow> k < 1024 \<Longrightarrow> kload (p + 4 * of_nat k) s = Some (slot s p k)"
  by (simp add: kload_def upage_slot slot_def)

lemma kstore_slot: "upage p \<Longrightarrow> k < 1024 \<Longrightarrow> kstore (p + 4 * of_nat k) v s = Some (set_slot p k v s)"
  by (simp add: kstore_def upage_slot set_slot_def)

lemma slot_in_page: "k < 1024 \<Longrightarrow> j < 4 \<Longrightarrow> unat (V2P p) + 4 * k + j \<in> page_of p"
  by (simp add: page_of_def PGSIZE_def)

lemma set_slot_ram: "k < 1024 \<Longrightarrow> i \<notin> page_of p \<Longrightarrow> ram (set_slot p k v s) i = ram s i"
  using slot_in_page [of k 0 p] slot_in_page [of k 1 p] slot_in_page [of k 2 p] slot_in_page [of k 3 p]
  by (auto simp: set_slot_def put32_def)

lemma slot_cong: "k < 1024 \<Longrightarrow> (\<And>i. i \<in> page_of p \<Longrightarrow> ram s' i = ram s i) \<Longrightarrow> slot s' p k = slot s p k"
  unfolding slot_def by (rule get32_cong) (simp add: slot_in_page)

lemma slot_set_slot:
  assumes "upage p" "upage q" "k < 1024" "j < 1024"
  shows "slot (set_slot p k v s) q j = (if q = p \<and> j = k then v else slot s q j)"
proof (cases "q = p")
  case True
  then show ?thesis
    using assms by (cases j k rule: linorder_cases) (auto simp: slot_def set_slot_def get32_put32_other)
next
  case False
  then have "page_of q \<inter> page_of p = {}" by (intro page_of_disjoint assms)
  then have "slot (set_slot p k v s) q j = slot s q j"
    by (intro slot_cong assms set_slot_ram) auto
  then show ?thesis using False by simp
qed

lemma set_slot_simps [simp]: "freelist (set_slot p k v s) = freelist s"
  by (simp add: set_slot_def)

text \<open>The page table of a directory entry, and the entry for an address.\<close>

definition table :: "u32 \<Rightarrow> u32" where
  "table e = P2V (PTE_ADDR e)"

definition present :: "u32 \<Rightarrow> bool" where
  "present e \<longleftrightarrow> e AND PTE_P \<noteq> 0"

definition entry :: "('a) vm_scheme \<Rightarrow> u32 \<Rightarrow> u32 \<Rightarrow> u32" where
  "entry s pgdir va = (let e = slot s pgdir (PDX va) in if present e then slot s (table e) (PTX va) else 0)"

text \<open>Address translation as the hardware does it, for a user access.\<close>

definition translate :: "('a) vm_scheme \<Rightarrow> u32 \<Rightarrow> u32 \<Rightarrow> u32 option" where
  "translate s pgdir va = (let e = entry s pgdir va in
     if present e then Some (PTE_ADDR e + (va AND 0xFFF)) else None)"

definition pgdir_ok :: "('a) vm_scheme \<Rightarrow> u32 \<Rightarrow> u32 list \<Rightarrow> bool" where
  "pgdir_ok s pgdir xs \<longleftrightarrow> free_pages s xs \<and> upage pgdir \<and> pgdir \<notin> set xs \<and>
     (\<forall>i < 1024. present (slot s pgdir i) \<longrightarrow>
        upage (table (slot s pgdir i)) \<and> table (slot s pgdir i) \<notin> set xs \<and> table (slot s pgdir i) \<noteq> pgdir) \<and>
     (\<forall>i < 1024. \<forall>j < 1024. i \<noteq> j \<longrightarrow> present (slot s pgdir i) \<longrightarrow> present (slot s pgdir j) \<longrightarrow>
        table (slot s pgdir i) \<noteq> table (slot s pgdir j))"

text \<open>The pages of a page directory, itself included.\<close>

definition pt_pages :: "('a) vm_scheme \<Rightarrow> u32 \<Rightarrow> u32 set" where
  "pt_pages s pgdir = insert pgdir {table (slot s pgdir i) | i. i < 1024 \<and> present (slot s pgdir i)}"

lemma pgdir_okD:
  assumes "pgdir_ok s pgdir xs"
  shows "free_pages s xs" "upage pgdir" "pgdir \<notin> set xs"
    and "\<And>i. i < 1024 \<Longrightarrow> present (slot s pgdir i) \<Longrightarrow>
      upage (table (slot s pgdir i)) \<and> table (slot s pgdir i) \<notin> set xs \<and> table (slot s pgdir i) \<noteq> pgdir"
    and "\<And>i j. i < 1024 \<Longrightarrow> j < 1024 \<Longrightarrow> i \<noteq> j \<Longrightarrow> present (slot s pgdir i) \<Longrightarrow> present (slot s pgdir j) \<Longrightarrow>
      table (slot s pgdir i) \<noteq> table (slot s pgdir j)"
  using assms unfolding pgdir_ok_def by blast+

section \<open>walkpgdir\<close>

lemma walk_hit:
  assumes "pgdir_ok s pgdir xs" and "present (slot s pgdir (PDX va))"
  shows "walkpgdir pgdir va alloc s = Some (table (slot s pgdir (PDX va)) + 4 * of_nat (PTX va), s)"
  using assms(2) kload_slot [OF pgdir_okD(2) [OF assms(1)] PDX_less, where s = s]
  by (simp add: walkpgdir_def present_def table_def Let_def)

lemma walk_miss:
  assumes "pgdir_ok s pgdir xs" and "\<not> present (slot s pgdir (PDX va))"
  shows "walkpgdir pgdir va False s = Some (0, s)"
  using assms(2) kload_slot [OF pgdir_okD(2) [OF assms(1)] PDX_less, where s = s]
  by (simp add: walkpgdir_def present_def Let_def)

text \<open>Overwriting the entry of an address whose page table exists.\<close>

definition set_entry :: "u32 \<Rightarrow> u32 \<Rightarrow> u32 \<Rightarrow> ('a) vm_scheme \<Rightarrow> ('a) vm_scheme" where
  "set_entry pgdir va v s = set_slot (table (slot s pgdir (PDX va))) (PTX va) v s"

lemma free_pages_set_slot:
  assumes "free_pages s xs" and "upage p" and "p \<notin> set xs" and "k < 1024"
  shows "free_pages (set_slot p k v s) xs"
proof -
  have "ram (set_slot p k v s) i = ram s i" if "x \<in> set xs" "i \<in> page_of x" for x i
  proof -
    have "page_of x \<inter> page_of p = {}"
      using free_pages_upage [OF assms(1) that(1)] assms(2,3) that(1) by (intro page_of_disjoint) auto
    then show ?thesis using that(2) by (intro set_slot_ram assms) auto
  qed
  then show ?thesis using assms(1) free_pages_cong [of "set_slot p k v s" s xs] by simp
qed

lemma set_entry_ok:
  assumes ok: "pgdir_ok s pgdir xs" and pr: "present (slot s pgdir (PDX va))"
  shows "pgdir_ok (set_entry pgdir va v s) pgdir xs"
    and "slot (set_entry pgdir va v s) pgdir i = slot s pgdir i \<or> \<not> i < 1024"
    and "entry (set_entry pgdir va v s) pgdir vb = (if vpage vb = vpage va then v else entry s pgdir vb)"
    and "kstore (table (slot s pgdir (PDX va)) + 4 * of_nat (PTX va)) v s = Some (set_entry pgdir va v s)"
    and "kload (table (slot s pgdir (PDX va)) + 4 * of_nat (PTX va)) s = Some (entry s pgdir va)"
    and "table (slot s pgdir (PDX va)) + 4 * of_nat (PTX va) \<noteq> 0"
proof -
  let ?t = "table (slot s pgdir (PDX va))" and ?s = "set_entry pgdir va v s"
  note D = pgdir_okD [OF ok]
  have t: "upage ?t" "?t \<notin> set xs" "?t \<noteq> pgdir" using D(4) [OF PDX_less pr] by auto
  have sd: "slot ?s pgdir i = slot s pgdir i" if "i < 1024" for i
    using t(3) that by (auto simp: set_entry_def slot_set_slot [OF t(1) D(2)])
  then show "slot (set_entry pgdir va v s) pgdir i = slot s pgdir i \<or> \<not> i < 1024" by blast
  have "free_pages ?s xs" unfolding set_entry_def by (rule free_pages_set_slot [OF D(1) t(1,2) PTX_less])
  then show "pgdir_ok ?s pgdir xs" using ok sd unfolding pgdir_ok_def by simp
  show "entry ?s pgdir vb = (if vpage vb = vpage va then v else entry s pgdir vb)"
  proof (cases "present (slot s pgdir (PDX vb))")
    case False
    then have "PDX vb \<noteq> PDX va" using pr by auto
    then have "vpage vb \<noteq> vpage va" using vpage_iff by metis
    then show ?thesis using False sd by (simp add: entry_def)
  next
    case True
    have u: "upage (table (slot s pgdir (PDX vb)))" using D(4) [OF PDX_less True] by simp
    have "table (slot s pgdir (PDX vb)) = ?t \<longleftrightarrow> PDX vb = PDX va"
      using D(5) [of "PDX vb" "PDX va"] True pr by auto
    then show ?thesis
      using True sd vpage_iff [of vb va] by (auto simp: entry_def set_entry_def slot_set_slot [OF t(1) u])
  qed
  show "kstore (?t + 4 * of_nat (PTX va)) v s = Some ?s"
    unfolding set_entry_def by (rule kstore_slot [OF t(1) PTX_less])
  show "kload (?t + 4 * of_nat (PTX va)) s = Some (entry s pgdir va)"
    using kload_slot [OF t(1) PTX_less] pr by (simp add: entry_def)
  show "?t + 4 * of_nat (PTX va) \<noteq> 0" by (rule upage_slot(3) [OF t(1) PTX_less])
qed

text \<open>Adding the free page \<open>x\<close> as the page table for an address.\<close>

definition add_table :: "u32 \<Rightarrow> u32 \<Rightarrow> u32 \<Rightarrow> u32 list \<Rightarrow> ('a) vm_scheme \<Rightarrow> ('a) vm_scheme" where
  "add_table pgdir va x xs s = set_slot pgdir (PDX va) (V2P x OR PTE_P OR PTE_W OR PTE_U)
     (s\<lparr>freelist := list_head xs, ram := fill (ram s) (unat (V2P x)) PGSIZE 0\<rparr>)"

lemma table_new:
  assumes "upage x"
  shows "table (V2P x OR PTE_P OR PTE_W OR PTE_U) = x" and "present (V2P x OR PTE_P OR PTE_W OR PTE_U)"
proof -
  have "4096 dvd unat (V2P x)" using upage_bounds(3) [OF assms] by (simp add: PGSIZE_def)
  then have "(V2P x OR 7) AND NOT 0xFFF = V2P x" "(V2P x OR 7) AND 0xFFF = 7"
    using page_base_or [of "V2P x" 7] by simp_all
  moreover have "V2P x OR PTE_P OR PTE_W OR PTE_U = V2P x OR 7"
    by (simp add: PTE_P_def PTE_W_def PTE_U_def or.assoc)
  ultimately show "table (V2P x OR PTE_P OR PTE_W OR PTE_U) = x"
    by (simp only: table_def PTE_ADDR_def) (simp add: P2V_def V2P_def)
  have "bit (V2P x OR PTE_P OR PTE_W OR PTE_U) 0" by (simp add: bit_or_iff PTE_P_def)
  then show "present (V2P x OR PTE_P OR PTE_W OR PTE_U)"
    unfolding present_def PTE_P_def by (metis and_exp_eq_0_iff_not_bit push_bit_of_1 push_bit_0_id id_apply power_0)
qed

lemma fill_other: "i \<notin> page_of x \<Longrightarrow> fill d (unat (V2P x)) PGSIZE c i = d i"
  by (auto simp: fill_def page_of_def)

lemma get32_fill0: "a \<le> i \<Longrightarrow> i + 4 \<le> a + n \<Longrightarrow> get32 (fill d a n 0) i = 0"
  by (simp add: get32_def fill_def)

lemma not_present_0 [simp]: "\<not> present 0"
  by (simp add: present_def)

lemma slot_add_table:
  assumes "upage pgdir" "upage x" "x \<noteq> pgdir" "upage p" "k < 1024"
  shows "slot (add_table pgdir va x xs s) p k =
    (if p = x then 0 else if p = pgdir \<and> k = PDX va then V2P x OR PTE_P OR PTE_W OR PTE_U else slot s p k)"
proof -
  let ?s1 = "s\<lparr>freelist := list_head xs, ram := fill (ram s) (unat (V2P x)) PGSIZE 0\<rparr>"
  have "slot ?s1 p k = (if p = x then 0 else slot s p k)"
  proof (cases "p = x")
    case True
    then show ?thesis using assms(5) by (simp add: slot_def get32_fill0 PGSIZE_def)
  next
    case False
    then have "page_of p \<inter> page_of x = {}" by (intro page_of_disjoint assms)
    then have "i \<notin> page_of x" if "i \<in> page_of p" for i using that by blast
    then have "slot ?s1 p k = slot s p k" by (intro slot_cong assms) (simp add: fill_other)
    then show ?thesis using False by simp
  qed
  then show ?thesis
    using assms(3) unfolding add_table_def by (auto simp: slot_set_slot [OF assms(1,4) PDX_less assms(5)])
qed

lemma walk_alloc:
  assumes ok: "pgdir_ok s pgdir (x # xs)" and miss: "\<not> present (slot s pgdir (PDX va))"
  defines "s' \<equiv> add_table pgdir va x xs s"
  shows "walkpgdir pgdir va True s = Some (table (slot s' pgdir (PDX va)) + 4 * of_nat (PTX va), s')"
    and "pgdir_ok s' pgdir xs" and "present (slot s' pgdir (PDX va))" and "entry s' pgdir vb = entry s pgdir vb"
proof -
  note D = pgdir_okD [OF ok]
  have x: "upage x" "x \<noteq> pgdir" "x \<notin> set xs"
    using D(1,3) free_pages_upage [OF D(1), of x] by (auto simp: free_pages_def)
  note S = slot_add_table [OF D(2) x(1,2), where va = va and xs = xs and s = s, folded s'_def]
  have dir: "slot s' pgdir i = (if i = PDX va then V2P x OR PTE_P OR PTE_W OR PTE_U else slot s pgdir i)" if "i < 1024" for i
    using S [OF D(2) that] x(2) by simp
  have t: "table (slot s' pgdir (PDX va)) = x" "present (slot s' pgdir (PDX va))"
    using table_new [OF x(1)] by (simp_all add: dir)
  then show "present (slot s' pgdir (PDX va))" by simp
  let ?s1 = "s\<lparr>freelist := list_head xs\<rparr>"
  let ?s2 = "s\<lparr>freelist := list_head xs, ram := fill (ram s) (unat (V2P x)) PGSIZE 0\<rparr>"
  have k: "kalloc s = Some (x, ?s1)" "free_pages ?s1 xs" using kalloc_Cons [OF D(1)] by blast+
  have m: "kmemset x 0 PGSIZE ?s1 = Some ?s2" using upage_ptr_ok [OF x(1), of PGSIZE] by (simp add: kmemset_def)
  have st: "kstore (pgdir + 4 * of_nat (PDX va)) (V2P x OR PTE_P OR PTE_W OR PTE_U) ?s2 = Some s'"
    unfolding s'_def add_table_def by (rule kstore_slot [OF D(2) PDX_less])
  show "walkpgdir pgdir va True s = Some (table (slot s' pgdir (PDX va)) + 4 * of_nat (PTX va), s')"
    using miss kload_slot [OF D(2) PDX_less, where s = s] k(1) m st upage_bounds(2) [OF x(1)]
    by (simp add: walkpgdir_def present_def t(1))
  have "ram ?s2 i = ram ?s1 i" if "y \<in> set xs" "i \<in> page_of y" for y i
  proof -
    have "upage y" "y \<noteq> x" using free_pages_upage [OF D(1), of y] that x(3) by auto
    then have "page_of y \<inter> page_of x = {}" using x(1) by (intro page_of_disjoint) auto
    then have "i \<notin> page_of x" using that(2) by blast
    then show ?thesis by (simp add: fill_other)
  qed
  then have "free_pages ?s2 xs" using k(2) free_pages_cong [of ?s2 ?s1 xs] by simp
  then have f: "free_pages s' xs" unfolding s'_def add_table_def using D(2,3) by (intro free_pages_set_slot) auto
  have tn: "table (slot s pgdir i) \<noteq> x" if "i < 1024" "present (slot s pgdir i)" for i
    using D(4) [OF that] by auto
  show "pgdir_ok s' pgdir xs"
    unfolding pgdir_ok_def
  proof (intro conjI allI impI)
    show "free_pages s' xs" "upage pgdir" "pgdir \<notin> set xs" using f D(2,3) by auto
    fix i
    assume i: "i < 1024" "present (slot s' pgdir i)"
    show "upage (table (slot s' pgdir i))" "table (slot s' pgdir i) \<notin> set xs" "table (slot s' pgdir i) \<noteq> pgdir"
      using D(4) [OF i(1)] i t x dir [OF i(1)] by (cases "i = PDX va"; auto)+
    fix j
    assume j: "j < 1024" "i \<noteq> j" "present (slot s' pgdir j)"
    show "table (slot s' pgdir i) \<noteq> table (slot s' pgdir j)"
    proof (cases "i = PDX va \<or> j = PDX va")
      case True
      then show ?thesis using t tn [OF i(1)] tn [OF j(1)] i j dir [OF i(1)] dir [OF j(1)] by auto
    next
      case False
      then show ?thesis using D(5) [OF i(1) j(1,2)] i j dir [OF i(1)] dir [OF j(1)] by auto
    qed
  qed
  show "entry s' pgdir vb = entry s pgdir vb"
  proof (cases "PDX vb = PDX va")
    case True
    then show ?thesis using t miss S [OF x(1) PTX_less] by (simp add: entry_def Let_def)
  next
    case False
    then have d: "slot s' pgdir (PDX vb) = slot s pgdir (PDX vb)" using dir by simp
    show ?thesis
    proof (cases "present (slot s pgdir (PDX vb))")
      case True
      have "upage (table (slot s pgdir (PDX vb)))" "table (slot s pgdir (PDX vb)) \<noteq> pgdir"
        using D(4) [OF PDX_less True] by auto
      then show ?thesis using True d S [OF _ PTX_less] tn [OF PDX_less True] by (simp add: entry_def Let_def)
    qed (simp add: entry_def d)
  qed
qed

section \<open>Frames\<close>

text \<open>
  From \<open>s\<close> to \<open>s'\<close> the free list shrinks from \<open>xs\<close> to \<open>xs'\<close>, and only pages of the
  page directory change, among them perhaps new ones taken from the free list.
\<close>

definition vm_frame :: "u32 \<Rightarrow> u32 list \<Rightarrow> u32 list \<Rightarrow> ('a) vm_scheme \<Rightarrow> ('a) vm_scheme \<Rightarrow> bool" where
  "vm_frame pgdir xs xs' s s' \<longleftrightarrow> s' = s\<lparr>ram := ram s', freelist := freelist s'\<rparr> \<and> set xs' \<subseteq> set xs \<and>
     pt_pages s' pgdir \<subseteq> pt_pages s pgdir \<union> (set xs - set xs') \<and>
     (\<forall>i. (\<forall>p \<in> pt_pages s pgdir \<union> (set xs - set xs'). i \<notin> page_of p) \<longrightarrow> ram s' i = ram s i)"

lemma vm_frame_refl [simp]: "vm_frame pgdir xs xs s s"
  by (simp add: vm_frame_def)

lemma vm_frame_trans:
  assumes "vm_frame pgdir xs ys s t" and "vm_frame pgdir ys zs t u"
  shows "vm_frame pgdir xs zs s u"
proof -
  have sub: "pt_pages t pgdir \<union> (set ys - set zs) \<subseteq> pt_pages s pgdir \<union> (set xs - set zs)"
    "pt_pages s pgdir \<union> (set xs - set ys) \<subseteq> pt_pages s pgdir \<union> (set xs - set zs)"
    using assms by (auto simp: vm_frame_def)
  have "ram u i = ram s i" if i: "\<forall>p \<in> pt_pages s pgdir \<union> (set xs - set zs). i \<notin> page_of p" for i
  proof -
    have "ram u i = ram t i" using assms(2) i sub(1) unfolding vm_frame_def by blast
    also have "\<dots> = ram s i" using assms(1) i sub(2) unfolding vm_frame_def by blast
    finally show ?thesis .
  qed
  moreover have "pt_pages u pgdir \<subseteq> pt_pages s pgdir \<union> (set xs - set zs)"
    using assms(2) sub(1) unfolding vm_frame_def by blast
  moreover have "u = s\<lparr>ram := ram u, freelist := freelist u\<rparr>"
  proof -
    have "u = t\<lparr>ram := ram u, freelist := freelist u\<rparr>" "t = s\<lparr>ram := ram t, freelist := freelist t\<rparr>"
      using assms by (simp_all add: vm_frame_def)
    then show ?thesis by (cases s, cases t, cases u) simp
  qed
  ultimately show ?thesis using assms unfolding vm_frame_def by blast
qed

text \<open>Pages outside the directory and the free list keep their contents.\<close>

lemma vm_frame_page:
  assumes "vm_frame pgdir xs xs' s s'" and "pgdir_ok s pgdir xs" and "upage p" and "p \<notin> pt_pages s pgdir" and "p \<notin> set xs"
    and "i \<in> page_of p"
  shows "ram s' i = ram s i"
proof -
  have "i \<notin> page_of q" if q: "q \<in> pt_pages s pgdir \<union> (set xs - set xs')" for q
  proof -
    have "upage q" using q pgdir_okD(2,4) [OF assms(2)] free_pages_upage [OF pgdir_okD(1) [OF assms(2)]]
      by (auto simp: pt_pages_def)
    moreover have "q \<noteq> p" using q assms(4,5) by auto
    ultimately have "page_of q \<inter> page_of p = {}" using assms(3) by (intro page_of_disjoint) auto
    then show ?thesis using assms(6) by blast
  qed
  then show ?thesis using assms(1) unfolding vm_frame_def by blast
qed

lemma set_slot_record: "set_slot p k v s = s\<lparr>ram := ram (set_slot p k v s), freelist := freelist (set_slot p k v s)\<rparr>"
  by (cases s) (simp add: set_slot_def)

lemma pt_pages_cong: "(\<And>i. i < 1024 \<Longrightarrow> slot s' pgdir i = slot s pgdir i) \<Longrightarrow> pt_pages s' pgdir = pt_pages s pgdir"
  unfolding pt_pages_def by auto metis+

lemma set_entry_frame:
  assumes "pgdir_ok s pgdir xs" and "present (slot s pgdir (PDX va))"
  shows "vm_frame pgdir xs xs s (set_entry pgdir va v s)" and "freelist (set_entry pgdir va v s) = freelist s"
proof -
  let ?t = "table (slot s pgdir (PDX va))"
  have "pt_pages (set_entry pgdir va v s) pgdir = pt_pages s pgdir"
    using set_entry_ok(2) [OF assms] by (intro pt_pages_cong) blast
  moreover have "?t \<in> pt_pages s pgdir" using assms(2) by (auto simp: pt_pages_def)
  then have "ram (set_entry pgdir va v s) i = ram s i" if "\<forall>p \<in> pt_pages s pgdir. i \<notin> page_of p" for i
    using that unfolding set_entry_def by (intro set_slot_ram PTX_less) blast
  moreover have "set_entry pgdir va v s = s\<lparr>ram := ram (set_entry pgdir va v s), freelist := freelist (set_entry pgdir va v s)\<rparr>"
    unfolding set_entry_def by (rule set_slot_record)
  ultimately show "vm_frame pgdir xs xs s (set_entry pgdir va v s)" by (simp add: vm_frame_def)
  show "freelist (set_entry pgdir va v s) = freelist s" by (simp add: set_entry_def)
qed

lemma add_table_frame:
  assumes ok: "pgdir_ok s pgdir (x # xs)" and miss: "\<not> present (slot s pgdir (PDX va))"
  shows "vm_frame pgdir (x # xs) xs s (add_table pgdir va x xs s)"
proof -
  let ?s' = "add_table pgdir va x xs s"
  note D = pgdir_okD [OF ok]
  have x: "upage x" "x \<noteq> pgdir" "x \<notin> set xs"
    using D(1,3) free_pages_upage [OF D(1), of x] by (auto simp: free_pages_def)
  have dir: "slot ?s' pgdir i = (if i = PDX va then V2P x OR PTE_P OR PTE_W OR PTE_U else slot s pgdir i)" if "i < 1024" for i
    using slot_add_table [OF D(2) x(1,2) D(2) that, where s = s] x(2) by simp
  have "pt_pages ?s' pgdir \<subseteq> insert x (pt_pages s pgdir)"
  proof
    fix q
    assume "q \<in> pt_pages ?s' pgdir"
    then consider "q = pgdir" | i where "i < 1024" "present (slot ?s' pgdir i)" "q = table (slot ?s' pgdir i)"
      by (auto simp: pt_pages_def)
    then show "q \<in> insert x (pt_pages s pgdir)"
      by cases (use dir table_new(1) [OF x(1)] in \<open>auto simp: pt_pages_def split: if_splits\<close>)
  qed
  moreover have "ram ?s' i = ram s i" if i: "i \<notin> page_of pgdir" "i \<notin> page_of x" for i
    by (simp add: add_table_def set_slot_ram [OF PDX_less i(1)] fill_other [OF i(2)])
  then have "ram ?s' i = ram s i" if "\<forall>p \<in> pt_pages s pgdir \<union> {x}. i \<notin> page_of p" for i
    using that by (simp add: pt_pages_def)
  moreover have "?s' = s\<lparr>ram := ram ?s', freelist := freelist ?s'\<rparr>"
    by (cases s) (simp add: add_table_def set_slot_def)
  ultimately show ?thesis using x(3) unfolding vm_frame_def by auto
qed

text \<open>The three outcomes of \<open>walkpgdir\<close> with allocation, as one rule.\<close>

lemma walk_True_cases:
  assumes ok: "pgdir_ok s pgdir xs"
  obtains (full) "xs = []" "\<not> present (slot s pgdir (PDX va))" "walkpgdir pgdir va True s = Some (0, s)"
  | (found) s' xs' p where "walkpgdir pgdir va True s = Some (p, s')" "p \<noteq> 0" "pgdir_ok s' pgdir xs'"
      "present (slot s' pgdir (PDX va))" "\<And>vb. entry s' pgdir vb = entry s pgdir vb" "vm_frame pgdir xs xs' s s'"
      "kload p s' = Some (entry s' pgdir va)" "\<And>v. kstore p v s' = Some (set_entry pgdir va v s')"
      "xs' = xs \<or> (\<exists>x. xs = x # xs')"
proof (cases "present (slot s pgdir (PDX va))")
  case True
  show ?thesis
    by (rule found [OF walk_hit [OF ok True]])
      (use ok True set_entry_ok(4-6) [OF ok True] in \<open>auto\<close>)
next
  case miss: False
  show ?thesis
  proof (cases xs)
    case Nil
    have "free_pages s []" using pgdir_okD(1) [OF ok] Nil by simp
    then have "walkpgdir pgdir va True s = Some (0, s)"
      using miss kload_slot [OF pgdir_okD(2) [OF ok] PDX_less, where s = s] kalloc_Nil [of s]
      by (simp add: walkpgdir_def present_def Let_def)
    then show ?thesis using full Nil miss by blast
  next
    case (Cons x ys)
    note W = walk_alloc [OF ok [unfolded Cons] miss]
    show ?thesis
      by (rule found [OF W(1) _ W(2,3,4) add_table_frame [OF ok [unfolded Cons] miss, folded Cons]])
        (use set_entry_ok(4-6) [OF W(2,3)] Cons in \<open>auto\<close>)
  qed
qed

section \<open>mappages\<close>

text \<open>The first \<open>n\<close> pairs of \<open>ps\<close> have been entered with permissions \<open>perm\<close>, and nothing else.\<close>

definition entered :: "u32 \<Rightarrow> u32 \<Rightarrow> (u32 \<times> u32) list \<Rightarrow> ('a) vm_scheme \<Rightarrow> ('a) vm_scheme \<Rightarrow> bool" where
  "entered pgdir perm ps s s' \<longleftrightarrow>
     (\<forall>va. vpage va \<notin> vpage ` fst ` set ps \<longrightarrow> entry s' pgdir va = entry s pgdir va) \<and>
     (\<forall>a pa va. (a, pa) \<in> set ps \<longrightarrow> vpage va = vpage a \<longrightarrow> entry s' pgdir va = pa OR perm OR PTE_P)"

lemma entry_vpage: "vpage va = vpage vb \<Longrightarrow> entry s pgdir va = entry s pgdir vb"
  unfolding entry_def PDX_vpage PTX_vpage Let_def by simp

lemma entered_Nil [simp]: "entered pgdir perm [] s s"
  by (simp add: entered_def)

lemma mappages_loop_ok:
  assumes "pgdir_ok s pgdir xs" and "distinct (map (\<lambda>q. vpage (fst q)) ps)"
    and "strict \<longrightarrow> (\<forall>q \<in> set ps. \<not> present (entry s pgdir (fst q)))"
  shows "\<exists>r s' xs' n. mappages_loop strict pgdir perm ps s = Some (r, s') \<and> pgdir_ok s' pgdir xs' \<and>
    vm_frame pgdir xs xs' s s' \<and> entered pgdir perm (take n ps) s s' \<and>
    (r = 0 \<and> length ps \<le> n \<or> r = - 1 \<and> xs' = [])"
  using assms
proof (induction ps arbitrary: s xs)
  case Nil
  then show ?case by (intro exI [of _ 0] exI [of _ s] exI [of _ xs]) simp
next
  case (Cons q ps)
  obtain a pa where q: "q = (a, pa)" by fastforce
  from Cons.prems(1) show ?case
  proof (cases rule: walk_True_cases [where va = a])
    case full
    then show ?thesis using Cons.prems(1) unfolding q
      by (intro exI [of _ "- 1"] exI [of _ s] exI [of _ xs] exI [of _ 0]) simp
  next
    case (found s1 xs1 p)
    let ?v = "pa OR perm OR PTE_P"
    let ?s2 = "set_entry pgdir a ?v s1"
    note E = set_entry_ok [OF found(3,4)]
    have e2: "entry ?s2 pgdir vb = (if vpage vb = vpage a then ?v else entry s pgdir vb)" for vb
      by (simp add: E(3) found(5))
    have "strict \<longrightarrow> (\<forall>q \<in> set ps. \<not> present (entry ?s2 pgdir (fst q)))"
    proof (intro impI ballI)
      fix q'
      assume "strict" "q' \<in> set ps"
      then have "\<not> present (entry s pgdir (fst q'))" "vpage (fst q') \<noteq> vpage a"
        using Cons.prems(2,3) by (force simp: q)+
      then show "\<not> present (entry ?s2 pgdir (fst q'))" by (simp add: e2)
    qed
    moreover have "distinct (map (\<lambda>q. vpage (fst q)) ps)" using Cons.prems(2) by simp
    ultimately obtain r s' xs' n where R: "mappages_loop strict pgdir perm ps ?s2 = Some (r, s')" "pgdir_ok s' pgdir xs'"
      "vm_frame pgdir xs1 xs' ?s2 s'" "entered pgdir perm (take n ps) ?s2 s'"
      "r = 0 \<and> length ps \<le> n \<or> r = - 1 \<and> xs' = []"
      using Cons.IH [OF E(1)] by blast
    have np: "\<not> (strict \<and> entry s1 pgdir a AND PTE_P \<noteq> 0)"
      using Cons.prems(3) by (simp add: q found(5) present_def)
    have run: "mappages_loop strict pgdir perm (q # ps) s = Some (r, s')"
      using found(1,2,7,8) np R(1) by (simp add: q)
    have fr: "vm_frame pgdir xs xs' s s'"
      by (rule vm_frame_trans [OF vm_frame_trans [OF found(6) set_entry_frame(1) [OF found(3,4)]] R(3)])
    have nin: "vpage a \<notin> vpage ` fst ` set (take n ps)"
    proof -
      have "vpage a \<notin> (\<lambda>q. vpage (fst q)) ` set ps" using Cons.prems(2) by (simp add: q)
      then show ?thesis using set_take_subset [of n ps] by (auto simp: image_image)
    qed
    have "entered pgdir perm (take (Suc n) (q # ps)) s s'"
      unfolding entered_def
    proof (intro conjI allI impI)
      fix va
      assume "vpage va \<notin> vpage ` fst ` set (take (Suc n) (q # ps))"
      then show "entry s' pgdir va = entry s pgdir va" using R(4) by (simp add: entered_def e2 q)
    next
      fix b pb va
      assume m: "(b, pb) \<in> set (take (Suc n) (q # ps))" "vpage va = vpage b"
      show "entry s' pgdir va = pb OR perm OR PTE_P"
      proof (cases "(b, pb) \<in> set (take n ps)")
        case True
        then show ?thesis using R(4) m(2) unfolding entered_def by blast
      next
        case False
        then have "b = a" "pb = pa" using m(1) by (simp_all add: q)
        moreover have "entry s' pgdir va = entry ?s2 pgdir va"
          using R(4) nin m(2) \<open>b = a\<close> by (simp add: entered_def)
        ultimately show ?thesis using m(2) by (simp add: e2)
      qed
    qed
    then show ?thesis using run R(2,5) fr
      by (intro exI [of _ r] exI [of _ s'] exI [of _ xs'] exI [of _ "Suc n"]) auto
  qed
qed

lemma vpage_add: "vpage (a + of_nat (i * PGSIZE)) = (vpage a + i) mod 1048576"
proof -
  have "unat (a + of_nat (i * PGSIZE)) = (unat a + i * 4096) mod 4294967296"
    by (simp add: unat_word_ariths unat_of_nat PGSIZE_def mod_simps del: of_nat_mult)
  also have "\<dots> div 4096 = (unat a + i * 4096) div 4096 mod 1048576"
    using mod_mult2_eq [of "unat a + i * 4096" 4096 1048576] by simp
  also have "(unat a + i * 4096) div 4096 = unat a div 4096 + i" by simp
  finally show ?thesis by (simp only: vpage_def)
qed

definition page_count :: "u32 \<Rightarrow> u32 \<Rightarrow> nat" where
  "page_count va sz = unat (PGROUNDDOWN (va + sz - 1) - PGROUNDDOWN va) div PGSIZE + 1"

lemma page_count_le: "page_count va sz \<le> 1048576"
  using unat_u32_less [of "PGROUNDDOWN (va + sz - 1) - PGROUNDDOWN va"] by (simp add: page_count_def PGSIZE_def)

lemma vpage_PGROUNDDOWN [simp]: "vpage (PGROUNDDOWN va) = vpage va"
proof -
  have "unat (PGROUNDDOWN va) = 4096 * (unat va div 4096)" unfolding PGROUNDDOWN_def by (rule unat_page_base)
  then show ?thesis by (simp add: vpage_def)
qed

lemma page_range_distinct: "distinct (map (\<lambda>q. vpage (fst q)) (page_range (PGROUNDDOWN va) (PGROUNDDOWN (va + sz - 1)) pa))"
proof -
  have "inj_on (\<lambda>i. (vpage va + i) mod 1048576) {0..<page_count va sz}"
  proof (rule inj_onI)
    fix i j
    assume "i \<in> {0..<page_count va sz}" "j \<in> {0..<page_count va sz}" "(vpage va + i) mod 1048576 = (vpage va + j) mod 1048576"
    then show "i = j" using add_mod_inj [of "vpage va" i 1048576 j] page_count_le [of va sz] by simp
  qed
  then have "distinct (map (\<lambda>i. (vpage va + i) mod 1048576) [0..<page_count va sz])"
    unfolding distinct_map by simp
  then show ?thesis
    unfolding page_range_def page_count_def map_map comp_def fst_conv vpage_add vpage_PGROUNDDOWN .
qed

end
