(* ===== verification/Tx.thy ===== *)
theory Tx
  imports Fs
begin

text \<open>
  What a file system call may assume between its calls of the log: the invariant \<open>tx_ok\<close> of
  the store, the log and the superblock, and the effect of the two idioms of \<^verbatim>\<open>fs.c\<close>,
  reading a block (\<open>bread\<close>, \<open>brelse\<close>) and changing one inside a transaction (\<open>bread\<close>, change,
  \<open>log_write\<close>, \<open>brelse\<close>), and of a nested or outermost \<open>end_op\<close>. The read idiom is stated as
  a locale, so that the loops of the layers above are proved once for whatever they read.
\<close>

lemma flush_fs_simps [simp]:
  fixes s :: "('a) fs_scheme"
  shows "sb (flush ws s) = sb s" "numallocblocks (flush ws s) = numallocblocks s" "icache (flush ws s) = icache s"
  by (simp_all add: flush_def)

section \<open>Reading blocks through an interface\<close>

text \<open>Fetch a block and give it back.\<close>

definition fetch :: "(nat \<Rightarrow> 's \<Rightarrow> (bytes \<times> 's) option) \<Rightarrow> (nat \<Rightarrow> 's \<Rightarrow> 's option) \<Rightarrow> nat \<Rightarrow> 's \<Rightarrow> (bytes \<times> 's) option" where
  "fetch rd rel n s = do {
     (d, s1) \<leftarrow> rd n s;
     s2 \<leftarrow> rel n s1;
     Some (d, s2)
   }"

text \<open>Fetch several blocks one after the other, as the transfer of a page does.\<close>

fun fetch_list :: "(nat \<Rightarrow> 's \<Rightarrow> (bytes \<times> 's) option) \<Rightarrow> (nat \<Rightarrow> 's \<Rightarrow> 's option) \<Rightarrow> nat list \<Rightarrow> 's \<Rightarrow> (bytes list \<times> 's) option" where
  "fetch_list rd rel [] s = Some ([], s)"
| "fetch_list rd rel (n # ns) s = do {
     (d, s1) \<leftarrow> fetch rd rel n s;
     (ds, s2) \<leftarrow> fetch_list rd rel ns s1;
     Some (d # ds, s2)
   }"

locale block_reader =
  fixes rd :: "nat \<Rightarrow> 's \<Rightarrow> (bytes \<times> 's) option"
    and rel :: "nat \<Rightarrow> 's \<Rightarrow> 's option"
    and view :: "'s \<Rightarrow> nat \<Rightarrow> bytes"
    and readable :: "'s \<Rightarrow> nat \<Rightarrow> bool"
  assumes rd_rel: "readable s n \<Longrightarrow> \<exists>s1. rd n s = Some (view s n, s1) \<and> rel n s1 = Some s"
begin

lemma fetch_view: "readable s n \<Longrightarrow> fetch rd rel n s = Some (view s n, s)"
  using rd_rel by (fastforce simp: fetch_def)

lemma fetch_list_view: "\<forall>n \<in> set ns. readable s n \<Longrightarrow> fetch_list rd rel ns s = Some (map (view s) ns, s)"
  by (induction ns) (simp_all add: fetch_view)

end

section \<open>The invariant of a transaction\<close>

definition tx_ok :: "('a) fs_scheme \<Rightarrow> bool" where
  "tx_ok s \<longleftrightarrow> store_inv s \<and> distinct (lh s) \<and> log_fits (lh s) s \<and> pinned s \<subseteq> set (lh s) \<and> LOGSIZE \<le> lg_size s \<and>
     held_blks s \<inter> log_area s = {} \<and> unread s = {} \<and> \<not> lg_committing s \<and> 0 \<le> lg_outstanding s \<and>
     head_count (disk s (lg_start s)) = 0 \<and> 1 < nblocks s \<and> 1 \<notin> log_area s \<and> nblocks s \<le> 2 ^ 31 \<and>
     decode_sb (blk s 1) = sb s \<and> unat (sb_logstart (sb s)) = lg_start s \<and> unat (sb_nlog (sb s)) = lg_size s"

definition readable :: "('a) fs_scheme \<Rightarrow> nat \<Rightarrow> bool" where
  "readable s n \<longleftrightarrow> tx_ok s \<and> n \<notin> held_blks s \<and> n < nblocks s"

lemma read_release:
  assumes "store_inv s" and "unread s = {}" and "n \<notin> held_blks s" and "n < nblocks s"
  shows "blk_read n s = Some (blk s n, s\<lparr>held_blks := insert n (held_blks s)\<rparr>) \<and>
    blk_release n (s\<lparr>held_blks := insert n (held_blks s)\<rparr>) = Some s"
proof -
  have "n \<in> modified s \<Longrightarrow> n \<in> pinned s" using assms(1,3) by (auto simp: store_inv_def)
  then show ?thesis
    using assms by (cases s) (auto simp: blk_read_def blk_release_def)
qed

interpretation fsr: block_reader blk_read blk_release blk readable
proof
  fix s :: "('a) fs_scheme" and n
  assume "readable s n"
  then have "store_inv s" "unread s = {}" "n \<notin> held_blks s" "n < nblocks s"
    by (simp_all add: readable_def tx_ok_def)
  from read_release [OF this]
  show "\<exists>s1. blk_read n s = Some (blk s n, s1) \<and> blk_release n s1 = Some s" by blast
qed

section \<open>Changing a block inside a transaction\<close>

text \<open>The state after a block has been read, changed to \<open>d\<close>, logged and released.\<close>

definition logged :: "nat \<Rightarrow> bytes \<Rightarrow> ('a) lstate_scheme \<Rightarrow> ('a) lstate_scheme" where
  "logged n d s = s\<lparr>blk := (blk s)(n := d), modified := insert n (modified s), pinned := insert n (pinned s),
     lh := (if n \<in> set (lh s) then lh s else lh s @ [n])\<rparr>"

lemma logged_simps [simp]:
  "blk (logged n d s) = (blk s)(n := d)" "disk (logged n d s) = disk s" "held_blks (logged n d s) = held_blks s"
  "pinned (logged n d s) = insert n (pinned s)" "unread (logged n d s) = unread s"
  "modified (logged n d s) = insert n (modified s)" "nblocks (logged n d s) = nblocks s"
  "issued (logged n d s) = issued s" "lg_start (logged n d s) = lg_start s" "lg_size (logged n d s) = lg_size s"
  "lg_outstanding (logged n d s) = lg_outstanding s" "lg_committing (logged n d s) = lg_committing s"
  "lh (logged n d s) = (if n \<in> set (lh s) then lh s else lh s @ [n])" "log_area (logged n d s) = log_area s"
  by (simp_all add: logged_def log_area_def)

lemma logged_fs_simps [simp]:
  fixes s :: "('a) fs_scheme"
  shows "sb (logged n d s) = sb s" "numallocblocks (logged n d s) = numallocblocks s" "icache (logged n d s) = icache s"
  by (simp_all add: logged_def)

text \<open>A block a transaction may change: in range, outside the log, not the superblock.\<close>

definition writable :: "('a) fs_scheme \<Rightarrow> nat \<Rightarrow> bool" where
  "writable s n \<longleftrightarrow> n < nblocks s \<and> n \<notin> log_area s \<and> n \<noteq> 1"

definition can_log :: "('a) fs_scheme \<Rightarrow> bool" where
  "can_log s \<longleftrightarrow> 1 \<le> lg_outstanding s \<and> Suc (length (lh s)) < LOGSIZE"

lemma log_write_held:
  assumes "tx_ok s" and "can_log s" and "n \<in> held_blks s"
  shows "log_write n s = Some (s\<lparr>pinned := insert n (pinned s), lh := (if n \<in> set (lh s) then lh s else lh s @ [n])\<rparr>)"
  using assms by (auto simp: log_write_def blk_pin_def tx_ok_def can_log_def LOGSIZE_def)

lemma update_block:
  assumes "tx_ok s" and "can_log s" and "n \<notin> held_blks s" and "n < nblocks s"
  shows "\<exists>s1 s2 s3. blk_read n s = Some (blk s n, s1) \<and> blk_set n d s1 = Some s2 \<and> log_write n s2 = Some s3 \<and>
    blk_release n s3 = Some (logged n d s)"
proof -
  have "unread s = {}" "lg_size s \<ge> LOGSIZE" using assms(1) by (simp_all add: tx_ok_def)
  then show ?thesis
    using assms(2-4)
    by (cases s) (auto simp: blk_read_def blk_set_def log_write_def blk_pin_def blk_release_def logged_def can_log_def)
qed

lemma tx_ok_logged:
  assumes "tx_ok s" and "writable s n" and "Suc (length (lh s)) < LOGSIZE"
  shows "tx_ok (logged n d s)"
proof -
  have "store_inv (logged n d s)"
    using assms(1,2) by (auto simp: tx_ok_def store_inv_def writable_def)
  moreover have "log_fits (lh (logged n d s)) (logged n d s)"
    using assms by (auto simp: tx_ok_def log_fits_def writable_def)
  moreover have "distinct (lh (logged n d s))" using assms(1) by (simp add: tx_ok_def)
  ultimately show ?thesis
    using assms(1,2) by (auto simp: tx_ok_def writable_def)
qed

text \<open>Only the block itself changes; what is seen through the log area is unaffected.\<close>

lemma bzero_logged:
  assumes "tx_ok s" and "can_log s" and "n \<notin> held_blks s" and "n < nblocks s"
  shows "bzero n s = Some (logged n zero_bytes s)"
  using update_block [OF assms, of zero_bytes] by (auto simp: bzero_def)

section \<open>Begin and end\<close>

lemma tx_ok_outstanding:
  fixes s :: "('a) fs_scheme"
  assumes "tx_ok s" and "0 \<le> k"
  shows "tx_ok (s\<lparr>lg_outstanding := k\<rparr>)"
proof -
  have "log_area (s\<lparr>lg_outstanding := k\<rparr>) = log_area s" by (simp add: log_area_def)
  then show ?thesis using assms by (simp add: tx_ok_def store_inv_def log_fits_def)
qed

lemma begin_op_tx:
  assumes "tx_ok s" and "int (length (lh s)) + (lg_outstanding s + 1) * int MAXOPBLOCKS \<le> int LOGSIZE"
  shows "begin_op s = Some (s\<lparr>lg_outstanding := lg_outstanding s + 1\<rparr>) \<and>
    tx_ok (s\<lparr>lg_outstanding := lg_outstanding s + 1\<rparr>) \<and> can_log (s\<lparr>lg_outstanding := lg_outstanding s + 1\<rparr>)"
proof -
  have o: "0 \<le> lg_outstanding s" "\<not> lg_committing s" using assms(1) by (simp_all add: tx_ok_def)
  then have "tx_ok (s\<lparr>lg_outstanding := lg_outstanding s + 1\<rparr>)" by (intro tx_ok_outstanding assms(1)) simp
  then show ?thesis
    using o assms(2) by (simp add: begin_op_def can_log_def LOGSIZE_def MAXOPBLOCKS_def)
qed

text \<open>The state after the outermost \<open>end_op\<close> has committed.\<close>

definition committed :: "('a) lstate_scheme \<Rightarrow> ('a) lstate_scheme" where
  "committed s = (if lh s = [] then s\<lparr>lg_outstanding := 0\<rparr>
     else (flush (commit_writes (lh s) (lg_start s) (blk s)) s)\<lparr>lh := [], lg_outstanding := 0\<rparr>)"

lemma committed_simps [simp]:
  "held_blks (committed s) = held_blks s" "unread (committed s) = unread s" "nblocks (committed s) = nblocks s"
  "lg_start (committed s) = lg_start s" "lg_size (committed s) = lg_size s" "lg_outstanding (committed s) = 0"
  "lg_committing (committed s) = lg_committing s" "lh (committed s) = []" "log_area (committed s) = log_area s"
  by (auto simp: committed_def log_area_def)

lemma committed_fs_simps [simp]:
  fixes s :: "('a) fs_scheme"
  shows "sb (committed s) = sb s" "numallocblocks (committed s) = numallocblocks s" "icache (committed s) = icache s"
  by (simp_all add: committed_def flush_def)

lemma tx_log_ok: "tx_ok s \<Longrightarrow> held_blks s = {} \<Longrightarrow> log_ok s"
  by (simp add: tx_ok_def log_ok_def)

lemma commit_writes_view:
  assumes "log_ok s" and "n \<notin> log_area s"
  shows "apply_writes (commit_writes (lh s) (lg_start s) (blk s)) (blk s) n = blk s n"
    and "apply_writes (commit_writes (lh s) (lg_start s) (blk s)) (disk s) n = blk s n"
proof -
  note D = log_okD [OF assms(1)]
  let ?l = "lh s" and ?st = "lg_start s"
  have st: "n \<noteq> ?st" using D(3) assms(2) by (auto simp: log_fits_def log_area_def)
  have W1: "n \<notin> fst ` set (log_writes ?l ?st (blk s))"
    using log_writes_fst [of ?l ?st "blk s"] D(3) assms(2) by (fastforce simp: log_fits_def log_area_def)
  have H: "apply_writes (map (\<lambda>m. (m, blk s m)) l) e n = (if n \<in> set l then blk s n else e n)" for e l
    by (induction l arbitrary: e) auto
  show "apply_writes (commit_writes ?l ?st (blk s)) (blk s) n = blk s n"
    "apply_writes (commit_writes ?l ?st (blk s)) (disk s) n = blk s n"
    using st D(8) [of n] by (simp_all add: commit_writes_def H apply_writes_notin [OF W1])
qed

lemma commit_writes_head:
  "head_count (apply_writes (commit_writes l st d) e st) = 0"
  by (simp add: commit_writes_def head_count_empty)

lemma tx_ok_committed:
  assumes "tx_ok s" and "held_blks s = {}"
  shows "tx_ok (committed s)" and "\<And>n. n \<notin> log_area s \<Longrightarrow> blk (committed s) n = blk s n"
proof -
  have ok: "log_ok s" by (rule tx_log_ok [OF assms])
  note V = commit_writes_view [OF ok] and D = log_okD [OF ok]
  let ?ws = "commit_writes (lh s) (lg_start s) (blk s)"
  show v: "blk (committed s) n = blk s n" if "n \<notin> log_area s" for n
    using V(1) [OF that] by (simp add: committed_def)
  show "tx_ok (committed s)"
  proof (cases "lh s = []")
    case True
    then show ?thesis using assms(1) tx_ok_outstanding [OF assms(1), of 0] by (simp add: committed_def)
  next
    case False
    have fst: "set (lh s) \<subseteq> fst ` set ?ws" by (auto simp: commit_writes_def image_Un image_image)
    have "blk (committed s) n = disk (committed s) n" for n
    proof (cases "n \<in> fst ` set ?ws")
      case True
      then show ?thesis using False apply_writes_cong by (simp add: committed_def)
    next
      case not: False
      then have "n \<notin> set (lh s)" using fst by blast
      then show ?thesis using not False D(8) by (simp add: committed_def apply_writes_notin)
    qed
    moreover have "modified (committed s) = {}" "pinned (committed s) = {}"
      using False fst D(4,6) by (auto simp: committed_def)
    ultimately have "store_inv (committed s)" using assms by (simp add: store_inv_def tx_ok_def)
    moreover have "head_count (disk (committed s) (lg_start s)) = 0"
      using False by (simp add: committed_def commit_writes_head)
    moreover have "1 \<notin> log_area s" using assms(1) by (simp add: tx_ok_def)
    ultimately show ?thesis
      using assms v [of 1] \<open>pinned (committed s) = {}\<close> by (simp add: tx_ok_def log_fits_def)
  qed
qed

text \<open>\<open>end_op\<close> of a nested call only counts; that of the outermost one commits.\<close>

lemma end_op_nested:
  assumes "tx_ok s" and "2 \<le> lg_outstanding s"
  shows "end_op s = Some (s\<lparr>lg_outstanding := lg_outstanding s - 1\<rparr>) \<and> tx_ok (s\<lparr>lg_outstanding := lg_outstanding s - 1\<rparr>)"
  using assms tx_ok_outstanding [OF assms(1), of "lg_outstanding s - 1"]
  by (simp add: end_op_def Let_def tx_ok_def)

lemma end_op_last:
  assumes "tx_ok s" and "lg_outstanding s = 1" and "held_blks s = {}"
  shows "end_op s = Some (committed s)"
proof -
  let ?s = "s\<lparr>lg_outstanding := 0, lg_committing := True\<rparr>"
  have c: "\<not> lg_committing s" using assms(1) by (simp add: tx_ok_def)
  have a: "log_area ?s = log_area s" by (simp add: log_area_def)
  have ok: "log_ok ?s" using tx_log_ok [OF assms(1,3)] a by (auto simp: log_ok_def store_inv_def log_fits_def)
  have e: "end_op s = map_option (\<lambda>t. t\<lparr>lg_committing := False\<rparr>) (commit ?s)"
    using assms(2) c by (cases "commit ?s") (simp_all add: end_op_def Let_def)
  show ?thesis
  proof (cases "lh s = []")
    case True
    then show ?thesis using e c by (cases s) (simp add: commit_def committed_def)
  next
    case False
    then have "commit ?s = Some ((flush (commit_writes (lh s) (lg_start s) (blk s)) ?s)\<lparr>lh := []\<rparr>)"
      using commit_exec [OF ok] by simp
    then show ?thesis using e c False by (cases s) (simp add: committed_def flush_def)
  qed
qed

end
