(* ===== verification/FsAlloc.thy ===== *)
theory FsAlloc
  imports Tx
begin

text \<open>
  The block allocator: \<open>balloc\<close>, \<open>bfree\<close> and the eight-block allocator \<open>balloc_page\<close>,
  \<open>bfree_page\<close> that the swapping code uses, against the abstract view of the free bitmap as
  the set of used blocks.
\<close>

section \<open>Bits\<close>

lemma bit_free_bit: "bit_free d bi \<longleftrightarrow> \<not> bit (d (bi div 8)) (bi mod 8)"
  by (simp add: bit_free_def bit_mask_def and_exp_eq_0_iff_not_bit push_bit_of_1)

lemma bit_mask_bit: "n < 8 \<Longrightarrow> bit (bit_mask bi) n \<longleftrightarrow> n = bi mod 8"
  by (auto simp: bit_mask_def push_bit_of_1 bit_exp_iff)

lemma bit_mark_free [simp]: "bit_free (bit_mark bi d) bj \<longleftrightarrow> bj \<noteq> bi \<and> bit_free d bj"
proof -
  have "bj div 8 = bi div 8 \<Longrightarrow> bj mod 8 = bi mod 8 \<longleftrightarrow> bj = bi" by (metis div_mult_mod_eq)
  then show ?thesis
    by (auto simp: bit_free_bit bit_mark_def bit_or_iff bit_mask_bit)
qed

lemma bit_clear_free [simp]: "bit_free (bit_clear bi d) bj \<longleftrightarrow> bj = bi \<or> bit_free d bj"
proof -
  have "bj div 8 = bi div 8 \<Longrightarrow> bj mod 8 = bi mod 8 \<longleftrightarrow> bj = bi" by (metis div_mult_mod_eq)
  moreover have "bj mod 8 < 8" by simp
  ultimately show ?thesis
    by (auto simp: bit_free_bit bit_clear_def bit_and_iff bit_not_iff bit_mask_bit)
qed

lemma find_upt_Some: "i < m \<Longrightarrow> P i \<Longrightarrow> \<forall>j < i. \<not> P j \<Longrightarrow> find P [0..<m] = Some i"
  by (auto simp: find_Some_iff intro!: exI [of _ i])

lemma find_upt_None: "\<forall>j < m. \<not> P j \<Longrightarrow> find P [0..<m] = None"
  by (simp add: find_None_iff)

section \<open>The bitmap\<close>

definition fs_size :: "('a) fs_scheme \<Rightarrow> nat" where
  "fs_size s = unat (sb_size (sb s))"

definition used :: "('a) fs_scheme \<Rightarrow> nat \<Rightarrow> bool" where
  "used s n \<longleftrightarrow> \<not> bit_free (blk s (BBLOCK n (sb s))) (n mod BPB)"

text \<open>The disk layout that mkfs makes; everything below \<open>data_start\<close> is metadata.\<close>

definition data_start :: "superblock \<Rightarrow> nat" where
  "data_start q = unat (sb_bmapstart q) + unat (sb_size q) div BPB + 1"

definition geom :: "('a) fs_scheme \<Rightarrow> bool" where
  "geom s \<longleftrightarrow> fs_size s \<le> nblocks s \<and> data_start (sb s) \<le> fs_size s \<and> 1 < lg_start s \<and>
     lg_start s + lg_size s \<le> unat (sb_inodestart (sb s)) \<and>
     unat (sb_inodestart (sb s)) + unat (sb_ninodes (sb s)) div IPB + 1 \<le> unat (sb_bmapstart (sb s))"

definition alloc_ok :: "('a) fs_scheme \<Rightarrow> bool" where
  "alloc_ok s \<longleftrightarrow> tx_ok s \<and> geom s \<and> (\<forall>n < data_start (sb s). used s n)"

text \<open>What an allocation leaves alone.\<close>

definition same_frame :: "('a) fs_scheme \<Rightarrow> ('a) fs_scheme \<Rightarrow> bool" where
  "same_frame s s' \<longleftrightarrow> nblocks s' = nblocks s \<and> lg_start s' = lg_start s \<and> lg_size s' = lg_size s \<and> sb s' = sb s \<and>
     icache s' = icache s \<and> held_blks s' = held_blks s \<and> lg_outstanding s' = lg_outstanding s"

lemma same_frame_trans: "same_frame s t \<Longrightarrow> same_frame t u \<Longrightarrow> same_frame s u"
  by (simp add: same_frame_def)

lemma same_frame_refl [simp]: "same_frame s s"
  by (simp add: same_frame_def)

lemma same_frame_area: "same_frame s s' \<Longrightarrow> log_area s' = log_area s"
  by (simp add: same_frame_def log_area_def)

lemma BBLOCK_range: "geom s \<Longrightarrow> n < fs_size s \<Longrightarrow> unat (sb_bmapstart (sb s)) \<le> BBLOCK n (sb s) \<and> BBLOCK n (sb s) < data_start (sb s)"
  by (auto simp: BBLOCK_def data_start_def fs_size_def le_imp_less_Suc div_le_mono less_imp_le)

lemma bitmap_writable:
  assumes "tx_ok s" and "geom s" and "n < fs_size s"
  shows "writable s (BBLOCK n (sb s))" and "BBLOCK n (sb s) < fs_size s"
  using BBLOCK_range [OF assms(2,3)] assms(2) by (auto simp: writable_def geom_def log_area_def)

lemma free_is_data: "alloc_ok s \<Longrightarrow> n < fs_size s \<Longrightarrow> \<not> used s n \<Longrightarrow> data_start (sb s) \<le> n"
  by (metis alloc_ok_def not_le)

lemma data_writable: "geom s \<Longrightarrow> tx_ok s \<Longrightarrow> data_start (sb s) \<le> n \<Longrightarrow> n < fs_size s \<Longrightarrow> writable s n"
  by (auto simp: writable_def geom_def data_start_def log_area_def)

lemma bitmap_index:
  assumes "bi < BPB"
  shows "BBLOCK (k * BPB + bi) q = BBLOCK (k * BPB) q" "(k * BPB + bi) mod BPB = bi"
  using assms by (simp_all add: BBLOCK_def BPB_def BSIZE_def)

text \<open>The view of the disk after block \<open>b\<close> has been marked and zeroed.\<close>

definition alloc_view :: "nat \<Rightarrow> ('a) fs_scheme \<Rightarrow> nat \<Rightarrow> bytes" where
  "alloc_view b s n = (if n = b then zero_bytes
     else if n = BBLOCK b (sb s) then bit_mark (b mod BPB) (blk s n) else blk s n)"

definition begin_ok :: "('a) fs_scheme \<Rightarrow> bool" where
  "begin_ok s \<longleftrightarrow> int (length (lh s)) + (lg_outstanding s + 1) * int MAXOPBLOCKS \<le> int LOGSIZE"

section \<open>One block\<close>

lemma balloc_loop_skip:
  assumes "tx_ok s" and "geom s" and "k * BPB < fs_size s" and "BBLOCK (k * BPB) (sb s) \<notin> held_blks s"
    and "\<forall>n. k * BPB \<le> n \<longrightarrow> n < (k + 1) * BPB \<longrightarrow> n < fs_size s \<longrightarrow> used s n"
  shows "balloc_loop (k * BPB # bs) s = balloc_loop bs s"
proof -
  let ?bb = "BBLOCK (k * BPB) (sb s)"
  have "readable s ?bb"
    using assms bitmap_writable [OF assms(1-3)] by (simp add: readable_def writable_def)
  then obtain s1 where r: "blk_read ?bb s = Some (blk s ?bb, s1)" "blk_release ?bb s1 = Some s"
    using fsr.rd_rel by blast
  have "find (bit_free (blk s ?bb)) [0..<min BPB (unat (sb_size (sb s)) - k * BPB)] = None"
  proof (rule find_upt_None, intro allI impI)
    fix bi
    assume bi: "bi < min BPB (unat (sb_size (sb s)) - k * BPB)"
    then have "used s (k * BPB + bi)" using assms(5) [THEN spec, of "k * BPB + bi"] by (simp add: fs_size_def less_diff_conv add.commute)
    then show "\<not> bit_free (blk s ?bb) bi" using bi by (simp add: used_def bitmap_index)
  qed
  then show ?thesis using r by simp
qed

text \<open>The two logged changes inside the nested transaction, and the state in which \<open>balloc\<close> returns block \<open>b\<close>.\<close>

definition alloc_logged :: "nat \<Rightarrow> ('a) fs_scheme \<Rightarrow> ('a) fs_scheme" where
  "alloc_logged b s = logged b zero_bytes (logged (BBLOCK b (sb s)) (bit_mark (b mod BPB) (blk s (BBLOCK b (sb s))))
                (s\<lparr>lg_outstanding := lg_outstanding s + 1\<rparr>))"

definition alloc_result :: "nat \<Rightarrow> ('a) fs_scheme \<Rightarrow> ('a) fs_scheme" where
  "alloc_result b s =
     (if lg_outstanding s = 0 then committed (alloc_logged b s)
      else (alloc_logged b s)\<lparr>lg_outstanding := lg_outstanding s\<rparr>)"

lemma balloc_loop_hit:
  assumes ok: "alloc_ok s" and beg: "begin_ok s" and b: "b < fs_size s" "\<not> used s b" and k: "k = b div BPB"
    and low: "\<forall>n < b. k * BPB \<le> n \<longrightarrow> used s n" and bh: "BBLOCK b (sb s) \<notin> held_blks s" "b \<notin> held_blks s"
    and idle: "lg_outstanding s = 0 \<longrightarrow> held_blks s = {}"
  shows "balloc_loop (k * BPB # bs) s = Some (b, alloc_result b s) \<and> tx_ok (alloc_logged b s)"
proof -
  have tx: "tx_ok s" and g: "geom s" using ok by (simp_all add: alloc_ok_def)
  define bi where "bi = b mod BPB"
  have bi: "bi < BPB" by (simp add: bi_def BPB_def BSIZE_def)
  have bk: "b = k * BPB + bi" by (simp add: k bi_def)
  let ?bb = "BBLOCK b (sb s)"
  have bb: "BBLOCK (k * BPB) (sb s) = ?bb" using bitmap_index(1) [OF bi] bk by simp
  have W: "writable s ?bb" "writable s b"
    using bitmap_writable [OF tx g b(1)] data_writable [OF g tx free_is_data [OF ok b] b(1)] by auto
  have find: "find (bit_free (blk s ?bb)) [0..<min BPB (unat (sb_size (sb s)) - k * BPB)] = Some bi"
  proof (rule find_upt_Some)
    show "bi < min BPB (unat (sb_size (sb s)) - k * BPB)" using bi b(1) bk by (simp add: fs_size_def)
    show "bit_free (blk s ?bb) bi" using b(2) by (simp add: used_def bi_def)
    show "\<forall>j < bi. \<not> bit_free (blk s ?bb) j"
    proof (intro allI impI)
      fix j
      assume j: "j < bi"
      then have "used s (k * BPB + j)" using low bk by simp
      then show "\<not> bit_free (blk s ?bb) j" using j bi bb by (simp add: used_def bitmap_index)
    qed
  qed
  let ?s0 = "s\<lparr>lg_outstanding := lg_outstanding s + 1\<rparr>"
  have B: "tx_ok ?s0" "can_log ?s0" using begin_op_tx [OF tx] beg by (auto simp: begin_ok_def)
  have len: "length (lh s) + 10 \<le> LOGSIZE"
    using beg tx by (simp add: begin_ok_def tx_ok_def MAXOPBLOCKS_def LOGSIZE_def)
  obtain s1 s2 s3 where u: "blk_read ?bb ?s0 = Some (blk ?s0 ?bb, s1)" "blk_set ?bb (bit_mark bi (blk s ?bb)) s1 = Some s2"
    "log_write ?bb s2 = Some s3" "blk_release ?bb s3 = Some (logged ?bb (bit_mark bi (blk s ?bb)) ?s0)"
    using update_block [OF B, of ?bb "bit_mark bi (blk s ?bb)"] bh(1) W(1) by (auto simp: writable_def)
  have s1: "s1 = s\<lparr>held_blks := insert ?bb (held_blks s), lg_outstanding := lg_outstanding s + 1\<rparr>"
    using u(1) by (cases s) (auto simp: blk_read_def split: if_splits)
  let ?r = "s\<lparr>held_blks := insert ?bb (held_blks s)\<rparr>"
  have r: "blk_read ?bb s = Some (blk s ?bb, ?r)"
    using bh(1) W(1) by (simp add: blk_read_def writable_def)
  have beg': "begin_op ?r = Some s1"
    using begin_op_tx [OF tx] beg by (cases s) (auto simp: s1 begin_op_def begin_ok_def split: if_splits)
  let ?t = "logged ?bb (bit_mark bi (blk s ?bb)) ?s0"
  have wt: "writable ?s0 ?bb" using W(1) by (simp add: writable_def log_area_def)
  have "Suc (length (lh ?s0)) < LOGSIZE" using len by (simp add: LOGSIZE_def)
  then have tt: "tx_ok ?t" by (rule tx_ok_logged [OF B(1) wt])
  have ct: "can_log ?t" using len tx by (auto simp: can_log_def tx_ok_def LOGSIZE_def)
  have z: "bzero b ?t = Some (logged b zero_bytes ?t)"
    using bh(2) W(2) by (intro bzero_logged tt ct) (simp_all add: writable_def)
  let ?x = "logged b zero_bytes ?t"
  have "writable ?t b" using W(2) by (simp add: writable_def log_area_def)
  moreover have "Suc (length (lh ?t)) < LOGSIZE" using len by (simp add: LOGSIZE_def)
  ultimately have tx': "tx_ok ?x" by (rule tx_ok_logged [OF tt])
  have e: "end_op ?x = Some (alloc_result b s)"
  proof (cases "lg_outstanding s = 0")
    case True
    then show ?thesis using end_op_last [OF tx'] idle by (simp add: alloc_result_def alloc_logged_def bi_def)
  next
    case False
    then have "2 \<le> lg_outstanding ?x" using tx by (simp add: tx_ok_def)
    from end_op_nested [OF tx' this] False show ?thesis by (simp add: alloc_result_def alloc_logged_def bi_def)
  qed
  show ?thesis
    using r beg' u(2-4) z e find tx' by (simp add: bb bk [symmetric]) (simp add: alloc_logged_def bi_def)
qed

lemma alloc_result_frame:
  fixes s :: "('a) fs_scheme"
  shows "same_frame s (alloc_result b s)" "numallocblocks (alloc_result b s) = numallocblocks s"
  by (simp_all add: same_frame_def alloc_result_def alloc_logged_def)

text \<open>What is visible outside the log area, in terms of blocks and of the bitmap.\<close>

lemma alloc_result_view:
  assumes ok: "alloc_ok s" and tx: "tx_ok (alloc_logged b s)" and b: "b < fs_size s" "\<not> used s b"
    and idle: "lg_outstanding s = 0 \<longrightarrow> held_blks s = {}"
  shows "n \<notin> log_area s \<Longrightarrow> blk (alloc_result b s) n = alloc_view b s n"
    and "n < fs_size s \<Longrightarrow> used (alloc_result b s) n \<longleftrightarrow> n = b \<or> used s n"
    and "alloc_ok (alloc_result b s)"
    and "length (lh (alloc_result b s)) \<le> (if lg_outstanding s = 0 then 0 else length (lh s) + 2)"
proof -
  have t: "tx_ok s" and g: "geom s" using ok by (simp_all add: alloc_ok_def)
  let ?x = "alloc_logged b s"
  have area: "log_area ?x = log_area s" by (simp add: alloc_logged_def log_area_def)
  have xv: "blk ?x n = alloc_view b s n" for n
    by (simp add: alloc_logged_def alloc_view_def)
  have hx: "held_blks ?x = held_blks s" by (simp add: alloc_logged_def)
  show v: "blk (alloc_result b s) n = alloc_view b s n" if "n \<notin> log_area s" for n
    using tx_ok_committed(2) [OF tx, of n] idle hx xv that area by (simp add: alloc_result_def)
  have u: "used (alloc_result b s) n \<longleftrightarrow> n = b \<or> used s n" if n: "n < fs_size s" for n
  proof -
    have r: "BBLOCK n (sb s) < data_start (sb s)" using BBLOCK_range [OF g n] by simp
    moreover have "data_start (sb s) \<le> b" by (rule free_is_data [OF ok b])
    ultimately have ne: "BBLOCK n (sb s) \<noteq> b" by simp
    have "BBLOCK n (sb s) \<notin> log_area s" using bitmap_writable(1) [OF t g n] by (simp add: writable_def)
    then have bv: "blk (alloc_result b s) (BBLOCK n (sb s)) = alloc_view b s (BBLOCK n (sb s))" by (rule v)
    have sbe: "sb (alloc_result b s) = sb s" using alloc_result_frame(1) [of s b] by (simp add: same_frame_def)
    have "BBLOCK n (sb s) = BBLOCK b (sb s) \<Longrightarrow> n mod BPB = b mod BPB \<longleftrightarrow> n = b"
      unfolding BBLOCK_def by (metis add_right_cancel div_mult_mod_eq)
    moreover have "n = b \<Longrightarrow> BBLOCK n (sb s) = BBLOCK b (sb s)" by simp
    ultimately show ?thesis using ne by (auto simp: used_def sbe bv alloc_view_def)
  qed
  then show "n < fs_size s \<Longrightarrow> used (alloc_result b s) n \<longleftrightarrow> n = b \<or> used s n" by simp
  have "tx_ok (alloc_result b s)"
    using tx_ok_committed(1) [OF tx] idle hx tx_ok_outstanding [OF tx, of "lg_outstanding s"] t
    by (simp add: alloc_result_def tx_ok_def)
  moreover have fr: "same_frame s (alloc_result b s)" by (rule alloc_result_frame)
  then have "geom (alloc_result b s)" using g by (simp add: geom_def fs_size_def same_frame_def)
  moreover have "used (alloc_result b s) n" if n: "n < data_start (sb s)" for n
    using u [of n] n ok g by (auto simp: alloc_ok_def geom_def)
  ultimately show "alloc_ok (alloc_result b s)" using fr by (simp add: alloc_ok_def same_frame_def)
  show "length (lh (alloc_result b s)) \<le> (if lg_outstanding s = 0 then 0 else length (lh s) + 2)"
    by (simp add: alloc_result_def alloc_logged_def)
qed

lemma balloc_loop_append:
  assumes "tx_ok s" and "geom s" and "\<forall>k < K. k * BPB < fs_size s \<and> BBLOCK (k * BPB) (sb s) \<notin> held_blks s"
    and "\<forall>n < K * BPB. n < fs_size s \<longrightarrow> used s n"
  shows "balloc_loop (map (\<lambda>k. k * BPB) [0..<K] @ bs) s = balloc_loop bs s"
  using assms(3,4)
proof (induction K arbitrary: bs)
  case (Suc K)
  have "balloc_loop (K * BPB # bs) s = balloc_loop bs s"
    using Suc.prems by (intro balloc_loop_skip assms(1,2)) auto
  then show ?case using Suc.IH [of "K * BPB # bs"] Suc.prems by simp
qed simp

text \<open>Locks on bitmap blocks are never held across a call of the allocator, nor on free blocks.\<close>

definition locks_ok :: "('a) fs_scheme \<Rightarrow> bool" where
  "locks_ok s \<longleftrightarrow> (\<forall>n < fs_size s. BBLOCK n (sb s) \<notin> held_blks s) \<and> (\<forall>n \<in> held_blks s. used s n) \<and>
     (lg_outstanding s = 0 \<longrightarrow> held_blks s = {})"

lemma balloc_exec:
  assumes ok: "alloc_ok s" and lk: "locks_ok s" and beg: "begin_ok s"
    and b: "b < fs_size s" "\<not> used s b" and low: "\<forall>n < b. used s n"
  shows "balloc s = Some (b, alloc_result b s) \<and> tx_ok (alloc_logged b s)"
proof -
  have t: "tx_ok s" and g: "geom s" using ok by (simp_all add: alloc_ok_def)
  define k K where "k = b div BPB" and "K = (fs_size s + BPB - 1) div BPB"
  have P: "0 < BPB" by (simp add: BPB_def BSIZE_def)
  have kb: "k * BPB \<le> b" by (simp add: k_def)
  have "k < K"
  proof -
    have "b + BPB \<le> fs_size s + BPB - 1" using b(1) P by simp
    then have "(b + BPB) div BPB \<le> K" unfolding K_def by (rule div_le_mono)
    then show ?thesis using P by (simp add: k_def div_add_self2)
  qed
  then have split: "[0..<K] = [0..<k] @ k # [Suc k..<K]"
    by (metis less_imp_le_nat upt_add_eq_append upt_conv_Cons le_add_diff_inverse zero_le)
  have "balloc_loop (map (\<lambda>k. k * BPB) [0..<k] @ k * BPB # map (\<lambda>k. k * BPB) [Suc k..<K]) s
      = balloc_loop (k * BPB # map (\<lambda>k. k * BPB) [Suc k..<K]) s"
  proof (rule balloc_loop_append [OF t g])
    have "j * BPB < fs_size s" if "j < k" for j
    proof -
      have "j * BPB \<le> k * BPB" using that by simp
      then show ?thesis using kb b(1) by linarith
    qed
    then show "\<forall>j < k. j * BPB < fs_size s \<and> BBLOCK (j * BPB) (sb s) \<notin> held_blks s"
      using lk by (simp add: locks_ok_def)
    show "\<forall>n < k * BPB. n < fs_size s \<longrightarrow> used s n" using low kb by simp
  qed
  moreover have "balloc_loop (k * BPB # map (\<lambda>k. k * BPB) [Suc k..<K]) s = Some (b, alloc_result b s) \<and> tx_ok (alloc_logged b s)"
    by (rule balloc_loop_hit [OF ok beg b k_def])
      (use low lk b in \<open>auto simp: locks_ok_def\<close>)
  ultimately show ?thesis using split by (simp add: balloc_def K_def fs_size_def)
qed

lemma balloc_full:
  assumes "alloc_ok s" and "locks_ok s" and "\<forall>n < fs_size s. used s n"
  shows "balloc s = None"
proof -
  define K where "K = (fs_size s + BPB - 1) div BPB"
  have P: "0 < BPB" by (simp add: BPB_def BSIZE_def)
  have "j * BPB < fs_size s" if "j < K" for j
  proof -
    have "Suc j * BPB \<le> fs_size s + BPB - 1"
      using that unfolding K_def by (meson Suc_leI div_times_less_eq_dividend le_trans mult_le_mono1)
    then show ?thesis using P by simp
  qed
  then have "balloc_loop (map (\<lambda>k. k * BPB) [0..<K] @ []) s = balloc_loop [] s"
    using assms by (intro balloc_loop_append) (auto simp: alloc_ok_def locks_ok_def)
  then show ?thesis by (simp add: balloc_def K_def fs_size_def)
qed

section \<open>Freeing\<close>

lemma tx_ok_flush:
  assumes "tx_ok s" and "writable s n" and "n \<notin> held_blks s"
  shows "tx_ok (flush [(n, d)] s)"
proof -
  have "log_area (flush [(n, d)] s) = log_area s" by (simp add: log_area_def)
  moreover have "store_inv (flush [(n, d)] s)" using assms by (auto simp: tx_ok_def store_inv_def)
  moreover have "lg_start s \<noteq> n" using assms by (auto simp: tx_ok_def writable_def log_area_def log_fits_def)
  ultimately show ?thesis using assms by (auto simp: tx_ok_def writable_def log_fits_def)
qed

lemma bfree_exec:
  assumes t: "tx_ok s" and g: "geom s" and b: "b < fs_size s" and h: "BBLOCK b (sb s) \<notin> held_blks s" "1 \<notin> held_blks s"
  shows "bfree b s = (if used s b
     then Some (flush [(BBLOCK b (sb s), bit_clear (b mod BPB) (blk s (BBLOCK b (sb s))))] s) else None)"
proof -
  let ?bb = "BBLOCK b (sb s)"
  have "readable s 1" using t h(2) by (simp add: readable_def tx_ok_def)
  then obtain s1 where s1: "blk_read 1 s = Some (blk s 1, s1)" "blk_release 1 s1 = Some s"
    using fsr.rd_rel by blast
  have dec: "decode_sb (blk s 1) = sb s" using t by (simp add: tx_ok_def)
  have rs: "readsb s = Some (sb s, s)" using s1 dec by (simp add: readsb_def)
  have sbi: "s\<lparr>sb := sb s\<rparr> = s" by simp
  have W: "writable s ?bb" by (rule bitmap_writable(1) [OF t g b])
  have un: "unread s = {}" using t by (simp add: tx_ok_def)
  have st: "?bb \<noteq> 1 " using W by (simp add: writable_def)
  have e: "bfree b s = do {
      (d, s3) \<leftarrow> blk_read ?bb s;
      if bit_free d (b mod BPB) then None
      else do {
        s4 \<leftarrow> blk_set ?bb (bit_clear (b mod BPB) d) s3;
        s5 \<leftarrow> blk_write ?bb s4;
        blk_release ?bb s5
      } }"
    by (simp add: bfree_def rs Let_def)
  show ?thesis
    unfolding e using W h(1) un
    by (cases s) (auto simp: writable_def blk_ops flush_def used_def)
qed

definition plain :: "('a) fs_scheme \<Rightarrow> nat \<Rightarrow> bool" where
  "plain s n \<longleftrightarrow> n \<notin> log_area s \<and> (n < unat (sb_bmapstart (sb s)) \<or> data_start (sb s) \<le> n)"

text \<open>No file system call is running.\<close>

definition idle :: "('a) fs_scheme \<Rightarrow> bool" where
  "idle s \<longleftrightarrow> alloc_ok s \<and> held_blks s = {} \<and> lg_outstanding s = 0 \<and> lh s = []"

lemma idle_locks: "idle s \<Longrightarrow> locks_ok s \<and> begin_ok s"
  by (simp add: idle_def locks_ok_def begin_ok_def MAXOPBLOCKS_def LOGSIZE_def)

lemma bfree_idle:
  assumes i: "idle s" and b: "b < fs_size s" "data_start (sb s) \<le> b" "used s b"
  shows "\<exists>s'. bfree b s = Some s' \<and> idle s' \<and> same_frame s s' \<and> numallocblocks s' = numallocblocks s \<and>
    (\<forall>n < fs_size s. used s' n \<longleftrightarrow> used s n \<and> n \<noteq> b) \<and> (\<forall>n. plain s n \<longrightarrow> blk s' n = blk s n)"
proof -
  have t: "tx_ok s" and g: "geom s" and m: "\<forall>n < data_start (sb s). used s n" and h: "held_blks s = {}"
    using i by (simp_all add: idle_def alloc_ok_def)
  let ?bb = "BBLOCK b (sb s)"
  let ?s' = "flush [(?bb, bit_clear (b mod BPB) (blk s ?bb))] s"
  have f: "bfree b s = Some ?s'" using bfree_exec [OF t g b(1)] h b(3) by simp
  have fr: "same_frame s ?s'" "numallocblocks ?s' = numallocblocks s"
    by (simp_all add: same_frame_def flush_def)
  have sbs: "sb ?s' = sb s" using fr by (simp add: same_frame_def)
  have u: "used ?s' n \<longleftrightarrow> used s n \<and> n \<noteq> b" if "n < fs_size s" for n
  proof -
    have "BBLOCK n (sb s) = ?bb \<Longrightarrow> n mod BPB = b mod BPB \<longleftrightarrow> n = b"
      unfolding BBLOCK_def by (metis add_right_cancel div_mult_mod_eq)
    then show ?thesis by (auto simp: used_def sbs)
  qed
  have W: "writable s ?bb" by (rule bitmap_writable(1) [OF t g b(1)])
  have "tx_ok ?s'" by (rule tx_ok_flush [OF t W]) (simp add: h)
  moreover have "geom ?s'" using g fr by (simp add: geom_def fs_size_def same_frame_def)
  moreover have "used ?s' n" if "n < data_start (sb s)" for n
    using u [of n] that m b(2) g by (auto simp: geom_def)
  ultimately have "idle ?s'"
    using i fr sbs by (simp add: idle_def alloc_ok_def same_frame_def)
  moreover have "blk ?s' n = blk s n" if "plain s n" for n
    using BBLOCK_range [OF g b(1)] that by (auto simp: plain_def)
  ultimately show ?thesis using f fr u by blast
qed

lemma run_bfree:
  assumes "idle s" and "distinct bs" and "\<forall>b \<in> set bs. b < fs_size s \<and> data_start (sb s) \<le> b \<and> used s b"
  shows "\<exists>s'. run bfree bs s = Some s' \<and> idle s' \<and> same_frame s s' \<and> numallocblocks s' = numallocblocks s \<and>
    (\<forall>n < fs_size s. used s' n \<longleftrightarrow> used s n \<and> n \<notin> set bs) \<and> (\<forall>n. plain s n \<longrightarrow> blk s' n = blk s n)"
  using assms
proof (induction bs arbitrary: s)
  case (Cons b bs)
  obtain s1 where s1: "bfree b s = Some s1" "idle s1" "same_frame s s1" "numallocblocks s1 = numallocblocks s"
    "\<forall>n < fs_size s. used s1 n \<longleftrightarrow> used s n \<and> n \<noteq> b" "\<forall>n. plain s n \<longrightarrow> blk s1 n = blk s n"
    using bfree_idle [OF Cons.prems(1), of b] Cons.prems(3) by auto
  have fs: "fs_size s1 = fs_size s" "sb s1 = sb s" "plain s1 = plain s"
    using s1(3) same_frame_area [OF s1(3)] by (auto simp: fs_size_def same_frame_def plain_def fun_eq_iff)
  have "\<forall>b \<in> set bs. b < fs_size s1 \<and> data_start (sb s1) \<le> b \<and> used s1 b"
    using Cons.prems(2,3) s1(5) fs by auto
  from Cons.IH [OF s1(2) _ this] Cons.prems(2) obtain s' where s': "run bfree bs s1 = Some s'" "idle s'" "same_frame s1 s'"
    "numallocblocks s' = numallocblocks s1" "\<forall>n < fs_size s1. used s' n \<longleftrightarrow> used s1 n \<and> n \<notin> set bs"
    "\<forall>n. plain s1 n \<longrightarrow> blk s' n = blk s1 n" by auto
  show ?case
    using s1 s' fs same_frame_trans [OF s1(3) s'(3)] by (intro exI [of _ s']) auto
qed simp

lemma balloc_idle:
  assumes i: "idle s" and b: "b < fs_size s" "\<not> used s b" "\<forall>n < b. used s n"
  shows "\<exists>s'. balloc s = Some (b, s') \<and> idle s' \<and> same_frame s s' \<and> numallocblocks s' = numallocblocks s \<and>
    (\<forall>n < fs_size s. used s' n \<longleftrightarrow> n = b \<or> used s n) \<and> blk s' b = zero_bytes \<and>
    (\<forall>n. plain s n \<longrightarrow> n \<noteq> b \<longrightarrow> blk s' n = blk s n)"
proof -
  have ok: "alloc_ok s" and g: "geom s" and t: "tx_ok s" using i by (simp_all add: idle_def alloc_ok_def)
  have e: "balloc s = Some (b, alloc_result b s)" "tx_ok (alloc_logged b s)"
    using balloc_exec [OF ok] idle_locks [OF i] b by auto
  have il: "lg_outstanding s = 0 \<longrightarrow> held_blks s = {}" using i by (simp add: idle_def)
  note V = alloc_result_view [OF ok e(2) b(1,2) il]
  have fr: "same_frame s (alloc_result b s)" "numallocblocks (alloc_result b s) = numallocblocks s"
    by (rule alloc_result_frame)+
  have "idle (alloc_result b s)" using V(3,4) i fr by (simp add: idle_def same_frame_def)
  moreover have "b \<notin> log_area s"
    using data_writable [OF g t free_is_data [OF ok b(1,2)] b(1)] by (simp add: writable_def)
  then have "blk (alloc_result b s) b = zero_bytes" using V(1) by (simp add: alloc_view_def)
  moreover have "blk (alloc_result b s) n = blk s n" if "plain s n" "n \<noteq> b" for n
    using V(1) [of n] that BBLOCK_range [OF g b(1)] by (auto simp: plain_def alloc_view_def)
  ultimately show ?thesis using e(1) fr V(2) by blast
qed

section \<open>Eight blocks in a row\<close>

text \<open>
  The loop of \<open>balloc_page\<close> collects the free blocks in increasing order. \<open>page_inv\<close> describes
  the collected list \<open>as\<close> against the blocks \<open>free\<close> before the call: it holds all free blocks up
  to its last one, its last \<open>i\<close> blocks are the maximal run that ends there, and
  \<open>r\<close> is the first run of eight.
\<close>

definition first_run :: "(nat \<Rightarrow> bool) \<Rightarrow> nat \<Rightarrow> bool" where
  "first_run free r \<longleftrightarrow> (\<forall>k < 8. free (r + k)) \<and> (\<forall>c < r. \<exists>k < 8. \<not> free (c + k))"

definition page_inv :: "(nat \<Rightarrow> bool) \<Rightarrow> nat \<Rightarrow> nat \<Rightarrow> nat list \<Rightarrow> bool" where
  "page_inv free r i as \<longleftrightarrow> sorted_wrt (<) as \<and>
     (if as = [] then i = 0
      else set as = {n. free n \<and> n \<le> last as} \<and> 1 \<le> i \<and> i \<le> last as + 1 \<and>
        (\<forall>n. last as + 1 - i \<le> n \<and> n \<le> last as \<longrightarrow> free n) \<and>
        (last as + 1 - i = 0 \<or> \<not> free (last as - i)) \<and>
        (if i < 8 then last as < r + 7 else i = 8 \<and> last as = r + 7))"

lemma sorted_wrt_last: "sorted_wrt (<) as \<Longrightarrow> x \<in> set as \<Longrightarrow> x \<le> last (as :: nat list)"
  by (induction as) (auto split: if_splits dest: last_in_set order_less_imp_le)

text \<open>One more round, with \<open>b\<close> the first free block that has not been collected.\<close>

lemma page_inv_step:
  assumes I: "page_inv free r i as" and i: "i < 8" and run: "first_run free r"
    and b: "free b" "b \<notin> set as" "\<forall>n < b. free n \<longrightarrow> n \<in> set as"
  shows "page_inv free r ((if i > 0 \<and> int b - int (last as) \<noteq> 1 then 0 else i) + 1) (as @ [b])"
proof (cases "as = []")
  case True
  then have "\<forall>n < b. \<not> free n" "i = 0" using b(3) I by (auto simp: page_inv_def)
  moreover have "free r" "free (r + 7)" using run by (auto simp: first_run_def dest: spec [of _ 0])
  ultimately have "b \<le> r" by (meson not_le)
  moreover have "{n. free n \<and> n \<le> b} = {b}" using \<open>\<forall>n < b. \<not> free n\<close> b(1) by (auto simp: le_less)
  moreover have "b = 0 \<or> \<not> free (b - 1)" using \<open>\<forall>n < b. \<not> free n\<close> by auto
  moreover have "\<forall>n. b + 1 - 1 \<le> n \<and> n \<le> b \<longrightarrow> free n" using b(1) by (simp add: dual_order.antisym) (metis le_antisym)
  ultimately show ?thesis using True \<open>i = 0\<close> by (simp add: page_inv_def)
next
  case False
  define l where "l = last as"
  have S: "sorted_wrt (<) as" "set as = {n. free n \<and> n \<le> l}" and i1: "1 \<le> i" "i \<le> l + 1"
    and R: "\<And>n. l + 1 - i \<le> n \<Longrightarrow> n \<le> l \<Longrightarrow> free n" and M: "l + 1 - i = 0 \<or> \<not> free (l - i)" and L: "l < r + 7"
    using I False i unfolding page_inv_def l_def by auto
  have lb: "l < b" using b(1,2) S(2) by force
  have gap: "\<not> free n" if "l < n" "n < b" for n using b(3) S(2) that by auto
  have br: "b \<le> r + 7"
  proof (rule ccontr)
    assume "\<not> b \<le> r + 7"
    then have "free (r + 7) \<longrightarrow> r + 7 \<in> set as" using b(3) by simp
    moreover have "free (r + 7)" using run by (simp add: first_run_def)
    ultimately show False using S(2) L by auto
  qed
  have sorted: "sorted_wrt (<) (as @ [b])"
    using S lb by (auto simp: sorted_wrt_append)
  have set: "set (as @ [b]) = {n. free n \<and> n \<le> b}"
  proof (rule set_eqI)
    fix n
    show "n \<in> set (as @ [b]) \<longleftrightarrow> n \<in> {n. free n \<and> n \<le> b}"
      using S(2) lb gap [of n] b(1) by (cases "n \<le> l"; cases "n < b") auto
  qed
  show ?thesis
  proof (cases "b = l + 1")
    case True
    have run': "free n" if "l + 1 - i \<le> n" "n \<le> b" for n using R [of n] that True b(1) by (cases "n = b") auto
    have cond: "if i + 1 < 8 then b < r + 7 else i + 1 = 8 \<and> b = r + 7"
    proof (cases "i + 1 < 8")
      case True
      have "b \<noteq> r + 7"
      proof
        assume "b = r + 7"
        then have lr: "l = r + 6" using \<open>b = l + 1\<close> by simp
        have "l - i = r + (6 - i)" using lr True by simp
        moreover have "free (r + (6 - i))" using run by (simp add: first_run_def)
        ultimately show False using M lr True by simp
      qed
      then show ?thesis using br True by simp
    next
      case False
      then have i7: "i = 7" using i by simp
      then have "\<forall>k < 8. free ((b - 7) + k)" using run' True i1(2) by auto
      then have "r \<le> b - 7" using run unfolding first_run_def by (meson not_le)
      moreover have "7 \<le> b" using i7 i1(2) True by simp
      ultimately show ?thesis using br i7 by simp
    qed
    have idx: "int b - int l = 1" using True by simp
    have start: "b + 1 - (i + 1) = l + 1 - i" "b - (i + 1) = l - i" using True by simp_all
    show ?thesis
      unfolding page_inv_def l_def [symmetric]
      using sorted set run' M cond i1 True False by (auto simp: idx start)
  next
    case False
    then have far: "int b - int l \<noteq> 1" and nb: "\<not> free (b - 1)" using lb gap [of "b - 1"] by auto
    have "b \<noteq> r + 7"
    proof
      assume "b = r + 7"
      then have "b - 1 = r + 6" by simp
      then show False using nb run by (simp add: first_run_def)
    qed
    then have "b < r + 7" using br by simp
    moreover have "{n. b + 1 - 1 \<le> n \<and> n \<le> b} = {b}" by auto
    ultimately show ?thesis
      unfolding page_inv_def l_def [symmetric]
      using sorted set far nb b(1) \<open>as \<noteq> []\<close> i1 by (auto simp: le_antisym)
  qed
qed

text \<open>When eight blocks in a row have been collected, they are the run at \<open>r\<close> and the rest lies below.\<close>

lemma page_inv_done:
  assumes I: "page_inv free r 8 as" and run: "first_run free r"
  shows "8 \<le> length as" and "as ! (length as - 8) = r" and "set (take (length as - 8) as) = {n. free n \<and> n < r}"
    and "distinct as" and "set as = {n. free n \<and> n < r + 8}"
proof -
  have ne: "as \<noteq> []" using I by (auto simp: page_inv_def)
  have l: "last as = r + 7" and S: "sorted_wrt (<) as" "set as = {n. free n \<and> n \<le> r + 7}"
    using I ne by (auto simp: page_inv_def)
  define A where "A = {n. free n \<and> n < r}"
  have fA: "finite A" by (simp add: A_def)
  have r8: "free n" if "r \<le> n" "n < r + 8" for n
    using run that unfolding first_run_def by (metis add_diff_inverse_nat less_diff_conv2 not_le add.commute)
  have eq: "as = sorted_list_of_set A @ [r..<r + 8]"
  proof (rule sorted_distinct_set_unique)
    show "sorted as" "distinct as" using S(1) by (simp_all add: strict_sorted_iff)
    show "sorted (sorted_list_of_set A @ [r..<r + 8])" using fA by (auto simp: sorted_append A_def)
    show "distinct (sorted_list_of_set A @ [r..<r + 8])" using fA by (auto simp: A_def)
    show "set as = set (sorted_list_of_set A @ [r..<r + 8])"
    proof (rule set_eqI)
      fix n
      show "n \<in> set as \<longleftrightarrow> n \<in> set (sorted_list_of_set A @ [r..<r + 8])"
        using fA r8 [of n] unfolding S(2) by (cases "n < r") (simp_all add: A_def, linarith+)
    qed
  qed
  show "8 \<le> length as" "as ! (length as - 8) = r" by (simp_all add: eq nth_append)
  show "set (take (length as - 8) as) = {n. free n \<and> n < r}" using fA by (simp add: eq A_def)
  show "distinct as" using S(1) by (simp add: strict_sorted_iff)
  have "n \<le> r + 7 \<longleftrightarrow> n < r + 8" for n :: nat by linarith
  then show "set as = {n. free n \<and> n < r + 8}" unfolding S(2) by simp
qed

text \<open>The free blocks of a state, and what the loop has done after collecting \<open>as\<close>.\<close>

definition free_block :: "('a) fs_scheme \<Rightarrow> nat \<Rightarrow> bool" where
  "free_block s n \<longleftrightarrow> n < fs_size s \<and> \<not> used s n"

definition took :: "('a) fs_scheme \<Rightarrow> nat list \<Rightarrow> ('a) fs_scheme \<Rightarrow> bool" where
  "took s0 as s \<longleftrightarrow> idle s \<and> same_frame s0 s \<and> numallocblocks s = numallocblocks s0 \<and>
     (\<forall>n < fs_size s0. used s n \<longleftrightarrow> n \<in> set as \<or> used s0 n) \<and>
     (\<forall>n. plain s0 n \<longrightarrow> n \<notin> set as \<longrightarrow> blk s n = blk s0 n)"

lemma same_frame_eqs:
  assumes "same_frame s s'"
  shows "fs_size s' = fs_size s" and "sb s' = sb s" and "plain s' = plain s"
  using assms same_frame_area [OF assms] by (auto simp: fs_size_def same_frame_def plain_def fun_eq_iff)

lemma idle_numallocblocks [simp]: "idle (s\<lparr>numallocblocks := k\<rparr>) = idle s"
  by (simp add: idle_def alloc_ok_def tx_ok_def geom_def used_def fs_size_def store_inv_def log_fits_def log_area_def
      readable_def)

lemma page_inv_missing:
  assumes "page_inv free r i as" and "i < 8" and "first_run free r"
  shows "\<exists>n < r + 8. free n \<and> n \<notin> set as"
proof (cases "as = []")
  case True
  have "free (r + 0)" using assms(3) unfolding first_run_def by (elim conjE allE [of _ 0]) simp
  then show ?thesis using True by (intro exI [of _ r]) simp
next
  case False
  have "set as = {n. free n \<and> n \<le> last as}" "last as < r + 7"
    using assms(1,2) False by (simp_all add: page_inv_def)
  moreover have "free (r + 7)" using assms(3) by (simp add: first_run_def)
  ultimately show ?thesis by (intro exI [of _ "r + 7"]) simp
qed

lemma page_inv_below:
  assumes "page_inv free r i as" and "i \<le> 8"
  shows "set as \<subseteq> {n. free n \<and> n < r + 8}" and "length as = card (set as)"
proof -
  show "set as \<subseteq> {n. free n \<and> n < r + 8}"
  proof (cases "as = []")
    case False
    then have "set as = {n. free n \<and> n \<le> last as}" "last as \<le> r + 7"
      using assms by (auto simp: page_inv_def split: if_splits)
    moreover have "n \<le> last as \<Longrightarrow> n < r + 8" for n using \<open>last as \<le> r + 7\<close> by linarith
    ultimately show ?thesis by blast
  qed simp
  have "sorted_wrt (<) as" using assms(1) by (simp add: page_inv_def)
  then have "distinct as" by (simp add: strict_sorted_iff)
  then show "length as = card (set as)" by (simp add: distinct_card)
qed

lemma took_next:
  assumes t: "took s0 as s" and f: "\<exists>n. free_block s0 n \<and> n \<notin> set as"
  obtains b s' where "balloc s = Some (b, s')" and "took s0 (as @ [b]) s'" and "free_block s0 b" and "b \<notin> set as"
    and "\<forall>n < b. free_block s0 n \<longrightarrow> n \<in> set as"
proof -
  define b where "b = (LEAST n. free_block s0 n \<and> n \<notin> set as)"
  have i: "idle s" and fr: "same_frame s0 s" and u: "\<And>n. n < fs_size s0 \<Longrightarrow> used s n \<longleftrightarrow> n \<in> set as \<or> used s0 n"
    using t by (simp_all add: took_def)
  note E = same_frame_eqs [OF fr]
  have b: "free_block s0 b" "b \<notin> set as" using LeastI_ex [OF f] by (simp_all add: b_def)
  have low: "n \<in> set as" if "n < b" "free_block s0 n" for n
    using not_less_Least that unfolding b_def by blast
  have "b < fs_size s" "\<not> used s b" using b u [of b] E(1) by (simp_all add: free_block_def)
  moreover have "\<forall>n < b. used s n"
  proof (intro allI impI)
    fix n
    assume "n < b"
    then have "n < fs_size s0" using b(1) by (simp add: free_block_def)
    then show "used s n" using u low [OF \<open>n < b\<close>] by (auto simp: free_block_def)
  qed
  ultimately obtain s' where s': "balloc s = Some (b, s')" "idle s'" "same_frame s s'" "numallocblocks s' = numallocblocks s"
    "\<forall>n < fs_size s. used s' n \<longleftrightarrow> n = b \<or> used s n" "\<forall>n. plain s n \<longrightarrow> n \<noteq> b \<longrightarrow> blk s' n = blk s n"
    using balloc_idle [OF i] by blast
  have "took s0 (as @ [b]) s'"
    using s' t same_frame_trans [OF fr s'(3)] E u by (auto simp: took_def)
  with s'(1) b low show ?thesis using that by blast
qed

lemma balloc_page_loop_ok:
  assumes "page_inv (free_block s0) r i as" and "i \<le> 8" and "took s0 as s" and run: "first_run (free_block s0) r"
    and "card {n. free_block s0 n \<and> n < r + 8} \<le> NUM"
    and "card {n. free_block s0 n \<and> n < r + 8} < fuel + length as"
  shows "\<exists>as' s'. balloc_page_loop fuel i as s = Some (as', s') \<and> page_inv (free_block s0) r 8 as' \<and> took s0 as' s'"
  using assms(1,2,3,6)
proof (induction fuel arbitrary: i as s)
  case 0
  have "card (set as) \<le> card {n. free_block s0 n \<and> n < r + 8}"
    using page_inv_below [OF 0(1,2)] by (intro card_mono) auto
  then show ?case using 0 page_inv_below(2) [OF 0(1,2)] by simp
next
  case (Suc fuel)
  let ?F = "{n. free_block s0 n \<and> n < r + 8}"
  show ?case
  proof (cases "i < 8")
    case False
    then show ?thesis using Suc.prems by simp
  next
    case True
    obtain n where n: "n \<in> ?F" "n \<notin> set as" using page_inv_missing [OF Suc.prems(1) True run] by blast
    have "set as \<subset> ?F" using page_inv_below(1) [OF Suc.prems(1,2)] n by blast
    then have "card (set as) < card ?F" by (intro psubset_card_mono) simp_all
    then have len: "length as < NUM" using page_inv_below(2) [OF Suc.prems(1,2)] assms(5) by simp
    obtain b s1 where b: "balloc s = Some (b, s1)" "took s0 (as @ [b]) s1" "free_block s0 b" "b \<notin> set as"
      "\<forall>n < b. free_block s0 n \<longrightarrow> n \<in> set as"
      using took_next [OF Suc.prems(3)] n by blast
    define i' where "i' = (if i > 0 \<and> int b - int (last as) \<noteq> 1 then 0 else i) + 1"
    have I: "page_inv (free_block s0) r i' (as @ [b])"
      unfolding i'_def by (rule page_inv_step [OF Suc.prems(1) True run b(3,4,5)])
    have i8: "i' \<le> 8" using True by (simp add: i'_def)
    have fuel: "card ?F < fuel + length (as @ [b])" using Suc.prems(4) by simp
    have "balloc_page_loop (Suc fuel) i as s = balloc_page_loop fuel i' (as @ [b]) s1"
      using True len b(1) by (simp add: i'_def Let_def)
    then show ?thesis using Suc.IH [OF I i8 b(2) fuel] by simp
  qed
qed

lemma balloc_page_idle:
  assumes i: "idle s" and run: "first_run (free_block s) r" and lim: "card {n. free_block s n \<and> n < r + 8} \<le> NUM"
  shows "\<exists>s'. balloc_page s = Some (r, s') \<and> idle s' \<and> same_frame s s' \<and> numallocblocks s' = numallocblocks s + 1 \<and>
    (\<forall>n < fs_size s. used s' n \<longleftrightarrow> used s n \<or> r \<le> n \<and> n < r + 8) \<and>
    (\<forall>n. plain s n \<longrightarrow> used s n \<longrightarrow> blk s' n = blk s n)"
proof -
  have "page_inv (free_block s) r 0 []" by (simp add: page_inv_def)
  moreover have "took s [] s" using i by (simp add: took_def)
  ultimately obtain as s1 where L: "balloc_page_loop (NUM + 2) 0 [] s = Some (as, s1)"
    and I: "page_inv (free_block s) r 8 as" and T: "took s as s1"
    using balloc_page_loop_ok [of s r 0 "[]" s "NUM + 2"] run lim by auto
  note D = page_inv_done [OF I run]
  let ?rest = "take (length as - 8) as"
  have T': "idle s1" "same_frame s s1" "numallocblocks s1 = numallocblocks s"
    "\<And>n. n < fs_size s \<Longrightarrow> used s1 n \<longleftrightarrow> n \<in> set as \<or> used s n"
    "\<And>n. plain s n \<Longrightarrow> n \<notin> set as \<Longrightarrow> blk s1 n = blk s n"
    using T by (simp_all add: took_def)
  note E = same_frame_eqs [OF T'(2)]
  have ok: "alloc_ok s" using i by (simp add: idle_def)
  have rest: "\<forall>b \<in> set ?rest. b < fs_size s1 \<and> data_start (sb s1) \<le> b \<and> used s1 b"
  proof
    fix b
    assume "b \<in> set ?rest"
    then have b: "free_block s b" "b < r" using D(3) by auto
    then have "b \<in> set as" using D(5) by simp
    then show "b < fs_size s1 \<and> data_start (sb s1) \<le> b \<and> used s1 b"
      using b(1) E T'(4) [of b] free_is_data [OF ok, of b] by (simp add: free_block_def)
  qed
  have "distinct ?rest" using D(4) by simp
  from run_bfree [OF T'(1) this rest] obtain s2 where s2: "run bfree ?rest s1 = Some s2" "idle s2" "same_frame s1 s2"
    "numallocblocks s2 = numallocblocks s1" "\<forall>n < fs_size s1. used s2 n \<longleftrightarrow> used s1 n \<and> n \<notin> set ?rest"
    "\<forall>n. plain s1 n \<longrightarrow> blk s2 n = blk s1 n" by blast
  let ?s' = "s2\<lparr>numallocblocks := numallocblocks s2 + 1\<rparr>"
  have b: "balloc_page s = Some (r, ?s')" using L s2(1) D(2) by (simp add: balloc_page_def)
  have fr: "same_frame s ?s'" using same_frame_trans [OF T'(2) s2(3)] by (simp add: same_frame_def)
  have idle': "idle ?s'" using s2(2) by simp
  have u: "used ?s' n \<longleftrightarrow> used s n \<or> r \<le> n \<and> n < r + 8" if n: "n < fs_size s" for n
  proof -
    have r8: "free_block s n" if "r \<le> n" "n < r + 8"
      using run that unfolding first_run_def by (metis le_add_diff_inverse nat_add_left_cancel_less)
    have "used ?s' n \<longleftrightarrow> used s2 n" by (simp add: used_def)
    also have "\<dots> \<longleftrightarrow> (n \<in> set as \<or> used s n) \<and> n \<notin> set ?rest" using s2(5) n E T'(4) by simp
    also have "\<dots> \<longleftrightarrow> (free_block s n \<and> n < r + 8 \<or> used s n) \<and> \<not> (free_block s n \<and> n < r)"
      unfolding D(3,5) by simp
    also have "\<dots> \<longleftrightarrow> used s n \<or> r \<le> n \<and> n < r + 8"
      using r8 n by (cases "used s n") (auto simp: free_block_def)
    finally show ?thesis .
  qed
  have d: "blk ?s' n = blk s n" if n: "plain s n" "used s n" for n
  proof -
    have "n \<notin> set as" using D(5) n(2) by (simp add: free_block_def)
    then show ?thesis using s2(6) T'(5) [OF n(1)] n(1) E by simp
  qed
  show ?thesis using b idle' fr s2(4) T'(3) u d by (intro exI [of _ ?s']) simp
qed

lemma bfree_page_idle:
  assumes i: "idle s" and r: "r + 8 \<le> fs_size s" "data_start (sb s) \<le> r" "\<forall>n. r \<le> n \<longrightarrow> n < r + 8 \<longrightarrow> used s n"
  shows "\<exists>s'. bfree_page r s = Some s' \<and> idle s' \<and> same_frame s s' \<and> numallocblocks s' = numallocblocks s - 1 \<and>
    (\<forall>n < fs_size s. used s' n \<longleftrightarrow> used s n \<and> \<not> (r \<le> n \<and> n < r + 8)) \<and>
    (\<forall>n. plain s n \<longrightarrow> blk s' n = blk s n)"
proof -
  have e: "run (\<lambda>i. bfree (r + i)) [0..<8] s = run bfree [r..<r + 8] s" for s :: "('a) fs_scheme"
    using run_map [of bfree "\<lambda>i. i + r" "[0..<8]" s] by (simp add: map_add_upt add.commute)
  have "\<forall>b \<in> set [r..<r + 8]. b < fs_size s \<and> data_start (sb s) \<le> b \<and> used s b" using r by auto
  from run_bfree [OF i _ this] obtain s1 where s1: "run bfree [r..<r + 8] s = Some s1" "idle s1" "same_frame s s1"
    "numallocblocks s1 = numallocblocks s" "\<forall>n < fs_size s. used s1 n \<longleftrightarrow> used s n \<and> n \<notin> set [r..<r + 8]"
    "\<forall>n. plain s n \<longrightarrow> blk s1 n = blk s n" by (auto simp del: set_upt)
  let ?s' = "s1\<lparr>numallocblocks := numallocblocks s1 - 1\<rparr>"
  have "bfree_page r s = Some ?s'" by (simp add: bfree_page_def e s1(1))
  moreover have "idle ?s'" using s1(2) by simp
  moreover have "same_frame s ?s'" using s1(3) by (simp add: same_frame_def)
  moreover have "used ?s' n \<longleftrightarrow> used s1 n" for n by (simp add: used_def)
  ultimately show ?thesis using s1(4,5,6) by (intro exI [of _ ?s']) simp
qed

end
