(* ===== verification/FsAllocProps.thy ===== *)
theory FsAllocProps
  imports FsAlloc
begin

text \<open>
  The properties of the block allocator, and a small file system on which they are applied:
  100 blocks, the log in 2..32, one block of inodes at 33, the bitmap in block 35, data from 36 on.
\<close>

section \<open>A small file system\<close>

definition small_sb :: bytes where
  "small_sb = put32 (put32 (put32 (put32 (put32 (put32 (put32 zero_bytes 0 100) 4 64) 8 8) 12 31) 16 2) 20 33) 24 35"

definition small_disk :: "nat \<Rightarrow> bytes" where
  "small_disk n = (if n = 1 then small_sb
     else if n = 35 then (\<lambda>i. if i < 4 then 255 else if i = 4 then 15 else 0) else zero_bytes)"

definition small_fs :: fs where
  "small_fs = \<lparr>disk = small_disk, blk = small_disk, held_blks = {}, pinned = {}, unread = {}, modified = {},
     nblocks = 100, issued = [], lg_start = 2, lg_size = 31, lg_outstanding = 0, lg_committing = False, lh = [],
     sb = \<lparr>sb_size = 100, sb_nblocks = 64, sb_ninodes = 8, sb_nlog = 31, sb_logstart = 2, sb_inodestart = 33,
       sb_bmapstart = 35\<rparr>, numallocblocks = 0, icache = (\<lambda>_. undefined)\<rparr>"

lemma small_used: "n < 100 \<Longrightarrow> used small_fs n \<longleftrightarrow> n < 36"
proof -
  assume n: "n < 100"
  have b: "n div BPB = 0" "n mod BPB = n" using n by (simp_all add: BPB_def BSIZE_def)
  have "used small_fs n \<longleftrightarrow> bit (if n div 8 < 4 then (255 :: 8 word) else if n div 8 = 4 then 15 else 0) (n mod 8)"
    by (simp add: used_def small_fs_def BBLOCK_def b bit_free_bit small_disk_def)
  also have "\<dots> \<longleftrightarrow> n < 36"
  proof -
    have "\<forall>n \<in> set [0..<100]. bit (if n div 8 < 4 then (255 :: 8 word) else if n div 8 = 4 then 15 else 0) (n mod 8) \<longleftrightarrow> n < 36"
      by code_simp
    then show ?thesis using n by simp
  qed
  finally show ?thesis .
qed

lemma small_idle: "idle small_fs"
proof -
  have "store_inv small_fs" by (simp add: store_inv_def small_fs_def)
  moreover have "decode_sb small_sb = sb small_fs"
    by (simp add: decode_sb_def small_sb_def small_fs_def byte_simps)
  moreover have "head_count zero_bytes = 0" by (simp add: head_count_def)
  ultimately have "tx_ok small_fs"
    by (simp add: tx_ok_def log_fits_def log_area_def LOGSIZE_def) (simp add: small_fs_def small_disk_def MAXOPBLOCKS_def)
  moreover have "geom small_fs" by (simp add: geom_def fs_size_def data_start_def small_fs_def BPB_def BSIZE_def IPB_def DINODE_SIZE_def)
  moreover have "data_start (sb small_fs) = 36" by (simp add: data_start_def small_fs_def BPB_def BSIZE_def)
  ultimately show ?thesis using small_used by (simp add: idle_def alloc_ok_def) (simp add: small_fs_def)
qed

section \<open>Allocation\<close>

text \<open>
  C16. When no lock on a bitmap block or on a free block is held and the log has room,
  \<open>balloc\<close> panics exactly when every block is in use; otherwise it returns the least free block,
  zeroed and marked as used, and it changes no other bit of the bitmap, no other data or metadata block and
  no lock.
\<close>

theorem balloc_first_free:
  assumes "alloc_ok s" and "locks_ok s" and "begin_ok s"
  shows "case find (\<lambda>n. \<not> used s n) [0..<fs_size s] of
      None \<Rightarrow> balloc s = None
    | Some b \<Rightarrow> \<exists>s'. balloc s = Some (b, s') \<and> alloc_ok s' \<and> same_frame s s' \<and>
        (\<forall>n < fs_size s. used s' n \<longleftrightarrow> used s n \<or> n = b) \<and> blk s' b = zero_bytes \<and>
        (\<forall>n. n \<notin> log_area s \<and> n \<noteq> b \<and> n \<noteq> BBLOCK b (sb s) \<longrightarrow> blk s' n = blk s n)"
proof (cases "find (\<lambda>n. \<not> used s n) [0..<fs_size s]")
  case None
  then have "\<forall>n < fs_size s. used s n" by (simp add: find_None_iff)
  from balloc_full [OF assms(1,2) this] show ?thesis by (simp add: None)
next
  case (Some b)
  have b: "b < fs_size s" "\<not> used s b" "\<forall>n < b. used s n"
    using Some by (auto simp: find_Some_iff)
  have e: "balloc s = Some (b, alloc_result b s)" "tx_ok (alloc_logged b s)"
    using balloc_exec [OF assms b] by auto
  have il: "lg_outstanding s = 0 \<longrightarrow> held_blks s = {}" using assms(2) by (simp add: locks_ok_def)
  note V = alloc_result_view [OF assms(1) e(2) b(1,2) il]
  have t: "tx_ok s" "geom s" using assms(1) by (simp_all add: alloc_ok_def)
  have "b \<notin> log_area s"
    using data_writable [OF t(2,1) free_is_data [OF assms(1) b(1,2)] b(1)] by (simp add: writable_def)
  then have "blk (alloc_result b s) b = zero_bytes" by (simp add: V(1) alloc_view_def)
  moreover have "\<forall>n. n \<notin> log_area s \<and> n \<noteq> b \<and> n \<noteq> BBLOCK b (sb s) \<longrightarrow> blk (alloc_result b s) n = blk s n"
    using V(1) by (simp add: alloc_view_def)
  moreover have "used (alloc_result b s) n \<longleftrightarrow> used s n \<or> n = b" if "n < fs_size s" for n
    using V(2) [OF that] by auto
  ultimately show ?thesis
    using Some e(1) V(3) alloc_result_frame(1) [of s b] by simp
qed

lemma small_first: "find (\<lambda>n. \<not> used small_fs n) [0..<fs_size small_fs] = Some 36"
  by (rule find_upt_Some) (simp_all add: small_used fs_size_def, simp_all add: small_fs_def)

lemma balloc_first_free_witness: "\<exists>s'. balloc small_fs = Some (36, s') \<and> blk s' 36 = zero_bytes"
  using balloc_first_free [of small_fs] small_idle idle_locks [OF small_idle] small_first
  by (auto simp: idle_def)

text \<open>
  C17. Between file system calls, if \<open>r\<close> is the least block at which eight free blocks in a row start
  and at most 100000 free blocks lie below \<open>r + 8\<close> (the size of the array on the kernel stack),
  \<open>balloc_page\<close> returns \<open>r\<close>; afterwards exactly these eight blocks are newly in use (the others it
  took on the way are free again), the counter is one higher, and no used block has changed.
\<close>

theorem balloc_page_first_run:
  assumes "idle s" and "first_run (free_block s) r" and "card {n. free_block s n \<and> n < r + 8} \<le> NUM"
  shows "\<exists>s'. balloc_page s = Some (r, s') \<and> idle s' \<and> same_frame s s' \<and> numallocblocks s' = numallocblocks s + 1 \<and>
    (\<forall>n < fs_size s. used s' n \<longleftrightarrow> used s n \<or> r \<le> n \<and> n < r + 8) \<and>
    (\<forall>n. plain s n \<longrightarrow> used s n \<longrightarrow> blk s' n = blk s n)"
  using balloc_page_idle [OF assms] .

lemma small_run: "first_run (free_block small_fs) 36" "card {n. free_block small_fs n \<and> n < 36 + 8} \<le> NUM"
proof -
  have sz: "fs_size small_fs = 100" by (simp add: fs_size_def small_fs_def)
  have f: "free_block small_fs n \<longleftrightarrow> n < 100 \<and> 36 \<le> n" for n
    using small_used [of n] by (auto simp: free_block_def sz)
  have "\<exists>k < 8. \<not> free_block small_fs (c + k)" if "c < 36" for c
    using that f [of c] by (intro exI [of _ 0]) simp
  then show "first_run (free_block small_fs) 36" by (simp add: first_run_def f)
  have "{n. free_block small_fs n \<and> n < 36 + 8} \<subseteq> {36..<44}" by (auto simp: f)
  then have "card {n. free_block small_fs n \<and> n < 36 + 8} \<le> card {36..<44::nat}" by (intro card_mono) auto
  then show "card {n. free_block small_fs n \<and> n < 36 + 8} \<le> NUM" by (simp add: NUM_def)
qed

lemma balloc_page_first_run_witness:
  "\<exists>s'. balloc_page small_fs = Some (36, s') \<and> numallocblocks s' = 1 \<and> idle s'"
  using balloc_page_first_run [OF small_idle small_run] by (auto simp: small_fs_def)

text \<open>
  C18. Freeing the eight blocks again restores the bitmap and the counter, and with them the file
  system's free blocks, and leaves every used block as it was before the allocation.
\<close>

theorem balloc_page_roundtrip:
  assumes "idle s" and "first_run (free_block s) r" and "card {n. free_block s n \<and> n < r + 8} \<le> NUM"
  shows "\<exists>s1 s2. balloc_page s = Some (r, s1) \<and> bfree_page r s1 = Some s2 \<and> idle s2 \<and>
    (\<forall>n < fs_size s. used s2 n \<longleftrightarrow> used s n) \<and> numallocblocks s2 = numallocblocks s \<and>
    (\<forall>n. plain s n \<longrightarrow> used s n \<longrightarrow> blk s2 n = blk s n)"
proof -
  obtain s1 where s1: "balloc_page s = Some (r, s1)" "idle s1" "same_frame s s1" "numallocblocks s1 = numallocblocks s + 1"
    "\<forall>n < fs_size s. used s1 n \<longleftrightarrow> used s n \<or> r \<le> n \<and> n < r + 8" "\<forall>n. plain s n \<longrightarrow> used s n \<longrightarrow> blk s1 n = blk s n"
    using balloc_page_idle [OF assms] by blast
  note E = same_frame_eqs [OF s1(3)]
  have run: "free_block s n" if "r \<le> n" "n < r + 8" for n
    using assms(2) that unfolding first_run_def by (metis le_add_diff_inverse nat_add_left_cancel_less)
  have "free_block s (r + 7)" "free_block s r" using run by simp_all
  then have r: "r + 8 \<le> fs_size s1" "data_start (sb s1) \<le> r"
    using E assms(1) free_is_data [of s r] by (simp_all add: free_block_def idle_def)
  have "\<forall>n. r \<le> n \<longrightarrow> n < r + 8 \<longrightarrow> used s1 n" using s1(5) r(1) E(1) by simp
  from bfree_page_idle [OF s1(2) r this] obtain s2 where s2: "bfree_page r s1 = Some s2" "idle s2" "same_frame s1 s2"
    "numallocblocks s2 = numallocblocks s1 - 1" "\<forall>n < fs_size s1. used s2 n \<longleftrightarrow> used s1 n \<and> \<not> (r \<le> n \<and> n < r + 8)"
    "\<forall>n. plain s1 n \<longrightarrow> blk s2 n = blk s1 n" by blast
  have "used s2 n \<longleftrightarrow> used s n" if n: "n < fs_size s" for n
    using s2(5) s1(5) run [of n] n E(1) by (auto simp: free_block_def)
  then show ?thesis using s1 s2 E by (intro exI [of _ s1] exI [of _ s2]) simp
qed

lemma balloc_page_roundtrip_witness:
  "\<exists>s1 s2. balloc_page small_fs = Some (36, s1) \<and> bfree_page 36 s1 = Some s2 \<and> numallocblocks s2 = 0"
  using balloc_page_roundtrip [OF small_idle small_run] by (auto simp: small_fs_def)

text \<open>
  Freeing a block that is already free panics, and freeing a used block clears its bit
  on the disk at once, outside the log: the write is issued to the bitmap's home block even when a
  transaction is open.
\<close>

lemma bfree_unlogged:
  assumes "tx_ok s" and "geom s" and "b < fs_size s" and "BBLOCK b (sb s) \<notin> held_blks s" and "1 \<notin> held_blks s"
  shows "if used s b
    then \<exists>s'. bfree b s = Some s' \<and> \<not> used s' b \<and> lh s' = lh s \<and>
      issued s' = issued s @ [(BBLOCK b (sb s), bit_clear (b mod BPB) (blk s (BBLOCK b (sb s))))] \<and>
      disk s' (BBLOCK b (sb s)) = blk s' (BBLOCK b (sb s))
    else bfree b s = None"
  using bfree_exec [OF assms] by (auto simp: used_def flush_def)

lemma bfree_unlogged_witness: "bfree 50 small_fs = None \<and> (\<exists>s'. bfree 35 small_fs = Some s' \<and> \<not> used s' 35)"
proof -
  have t: "tx_ok small_fs" "geom small_fs" and h: "held_blks small_fs = {}"
    using small_idle by (simp_all add: idle_def alloc_ok_def)
  have sz: "fs_size small_fs = 100" by (simp add: fs_size_def small_fs_def)
  show ?thesis
    using bfree_unlogged [OF t, of 50] bfree_unlogged [OF t, of 35] h sz small_used [of 50] small_used [of 35] by auto
qed

end
