(* ===== verification/KmemProps.thy ===== *)
theory KmemProps
  imports Kmem FsAllocProps
begin

text \<open>The properties of the page allocator, with a kernel memory whose pages are all zero for the witnesses.\<close>

definition small_vm :: vm where
  "small_vm = fs.extend small_fs (vm.fields zero_bytes 0)"

lemma small_vm_simps [simp]: "ram small_vm = zero_bytes" "freelist small_vm = 0"
  by (simp_all add: small_vm_def fs.defs vm.defs)

text \<open>
  C22. Whatever sequence of \<open>kalloc\<close>, \<open>kfree\<close> of pages that were handed out and writes
  into such pages runs, \<open>kalloc\<close> never hands out a page that is in use, returns null only when all pages
  are in use, never fails, and \<open>kfree\<close> accepts every page in use.
\<close>

theorem kalloc_exclusive:
  assumes "free_pages s xs" and "(use_pages kalloc kfree 0 touch_ram)\<^sup>*\<^sup>* (s, {}) (s', U)"
  shows "(\<exists>p s''. kalloc s' = Some (p, s'') \<and> (if U = set xs then p = 0 else p \<in> set xs - U \<and> p \<noteq> 0)) \<and>
    (\<forall>v \<in> U. \<exists>s''. kfree v s' = Some s'')"
proof -
  have "km.owned (set xs) (s', U)" by (rule km.owned_reachable [OF assms(2,1)])
  then show ?thesis using km.owned_alloc km.owned_free by blast
qed

lemma free_pages_one: "free_pages (small_vm\<lparr>freelist := 0x80200000\<rparr>) [0x80200000]"
  by (simp add: free_pages_def upage_def kend_def V2P_def PHYSTOP_def KERNBASE_def)

lemma kalloc_exclusive_witness:
  "\<exists>s'. kalloc (small_vm\<lparr>freelist := 0x80200000\<rparr>) = Some (0x80200000, s') \<and> (\<exists>t. kalloc s' = Some (0, t)) \<and>
    (\<exists>t. kfree 0x80200000 s' = Some t)"
proof -
  let ?s = "small_vm\<lparr>freelist := 0x80200000\<rparr>"
  obtain s' where s': "kalloc ?s = Some (0x80200000, s')" using kalloc_Cons(1) [OF free_pages_one] by blast
  have "use_pages kalloc kfree 0 touch_ram (?s, {}) (s', {0x80200000})"
    using use_pages.use_alloc [where free = kfree and null = 0 and touch = touch_ram and U = "{}"] s' by fastforce
  from kalloc_exclusive [OF free_pages_one r_into_rtranclp [of "use_pages kalloc kfree 0 touch_ram", OF this]] s'
  show ?thesis by auto
qed

text \<open>
  \<open>freerange\<close>, run at boot on a range of memory above the kernel image that is not yet on the
  free list, never panics and puts exactly the whole pages of the range on it, the last one first.
\<close>

lemma freerange_pages:
  assumes "free_pages s xs" and "kend \<le> vstart" and "vstart \<le> vend" and "vend \<le> P2V PHYSTOP"
    and "\<forall>x \<in> set xs. unat vend \<le> unat x \<or> unat x < unat vstart"
  shows "\<exists>s'. freerange vstart vend s = Some s' \<and>
    free_pages s' (rev (map (\<lambda>i. PGROUNDUP vstart + of_nat (i * PGSIZE))
      [0..<(unat vend - unat (PGROUNDUP vstart)) div PGSIZE]) @ xs)"
proof (cases "unat (PGROUNDUP vstart) < unat vend")
  case False
  then show ?thesis using assms(1) by (simp add: freerange_def)
next
  case True
  define p where "p = PGROUNDUP vstart"
  define n where "n = (unat vend - unat p) div PGSIZE"
  define vs where "vs = map (\<lambda>i. p + of_nat (i * PGSIZE)) [0..<n]"
  have ve: "unat vend \<le> 2151677952" using assms(4) by (simp add: word_le_nat_alt P2V_def PHYSTOP_def KERNBASE_def)
  have sv: "unat vstart \<le> unat vend" using assms(3) by (simp add: word_le_nat_alt)
  then have "vstart \<le> 0xFFFFF000" using ve by (simp add: word_le_nat_alt)
  note P = PGROUNDUP_bounds [OF this, folded p_def]
  have at: "unat (p + of_nat (i * PGSIZE)) = unat p + i * PGSIZE \<and> unat p + i * PGSIZE + PGSIZE \<le> unat vend" if "i < n" for i
  proof -
    have "Suc i \<le> n" using that by simp
    then have "Suc i * PGSIZE \<le> unat vend - unat p"
      unfolding n_def by (metis div_times_less_eq_dividend le_trans mult_le_mono1)
    then have le: "unat p + i * PGSIZE + PGSIZE \<le> unat vend" using True by (simp add: p_def)
    then have "i * PGSIZE < 2 ^ 32" using ve by (simp add: PGSIZE_def)
    then have "unat (of_nat (i * PGSIZE) :: u32) = i * PGSIZE" by (simp add: unat_of_nat del: of_nat_mult)
    then show ?thesis using le ve by (simp add: unat_word_ariths)
  qed
  have up: "upage v \<and> v \<notin> set xs" if v: "v \<in> set vs" for v
  proof -
    obtain i where i: "i < n" "v = p + of_nat (i * PGSIZE)"
      using v unfolding vs_def set_map set_upt by (elim imageE) simp
    note A = at [OF i(1), folded i(2)]
    have "4096 dvd unat v" using P(1) A by (simp add: PGSIZE_def)
    moreover have "kend \<le> v" using assms(2) P(2) A by (simp add: word_le_nat_alt)
    moreover have "unat v < unat vend" using A by (simp add: PGSIZE_def)
    moreover have "unat vstart \<le> unat v" using P(2) A by simp
    ultimately show ?thesis using upageI [of v] assms(5) ve by auto
  qed
  have "inj_on (\<lambda>i. p + of_nat (i * PGSIZE)) {0..<n}"
  proof (rule inj_onI)
    fix i j
    assume "i \<in> {0..<n}" "j \<in> {0..<n}" "p + of_nat (i * PGSIZE) = p + of_nat (j * PGSIZE)"
    then have "unat p + i * PGSIZE = unat p + j * PGSIZE" using at [of i] at [of j] by (metis atLeastLessThan_iff)
    then show "i = j" by (simp add: PGSIZE_def)
  qed
  then have "distinct vs" by (simp add: vs_def distinct_map)
  from run_kfree [OF assms(1) this] up obtain s' where "run kfree vs s = Some s'" "free_pages s' (rev vs @ xs)" by blast
  then show ?thesis unfolding freerange_def Let_def p_def [symmetric] n_def [symmetric] vs_def [symmetric] by blast
qed

lemma freerange_example:
  "\<exists>s'. freerange 0x80300001 0x80303000 small_vm = Some s' \<and> free_pages s' [0x80302000, 0x80301000]"
proof -
  have e: "PGROUNDUP 0x80300001 = 0x80301000" by (simp add: PGROUNDUP_def)
  have "free_pages small_vm []" by (simp add: free_pages_def)
  from freerange_pages [OF this, of "0x80300001" "0x80303000"] show ?thesis
    by (simp add: kend_def P2V_def PHYSTOP_def KERNBASE_def e PGSIZE_def upt_rec)
qed

end
