(* ===== verification/VmProps.thy ===== *)
theory VmProps
  imports VmInv KmemProps
begin

text \<open>The properties of the page tables and of the search for a page to swap out.\<close>

section \<open>Mapping\<close>

lemma mappages_all:
  assumes "pgdir_ok s pgdir xs" and "\<forall>i < page_count va sz. \<forall>vb. vpage vb = (vpage va + i) mod 2 ^ 20 \<longrightarrow> \<not> present (entry s pgdir vb)"
  shows "\<exists>r s' xs'. mappages pgdir va sz pa perm s = Some (r, s') \<and> pgdir_ok s' pgdir xs' \<and> vm_frame pgdir xs xs' s s' \<and>
    (r = 0 \<and> (\<forall>i < page_count va sz. \<forall>vb. vpage vb = (vpage va + i) mod 2 ^ 20 \<longrightarrow>
        entry s' pgdir vb = (pa + of_nat (i * PGSIZE)) OR perm OR PTE_P) \<or> r = - 1 \<and> xs' = []) \<and>
    (\<forall>vb. (\<forall>i < page_count va sz. vpage vb \<noteq> (vpage va + i) mod 2 ^ 20) \<longrightarrow> entry s' pgdir vb = entry s pgdir vb)"
proof -
  let ?a = "PGROUNDDOWN va"
  let ?ps = "page_range ?a (PGROUNDDOWN (va + sz - 1)) pa"
  have ps: "?ps = map (\<lambda>i. (?a + of_nat (i * PGSIZE), pa + of_nat (i * PGSIZE))) [0..<page_count va sz]"
    unfolding page_range_def page_count_def ..
  have two: "2 ^ 20 = (1048576 :: nat)" by simp
  have vp: "vpage (?a + of_nat (i * PGSIZE)) = (vpage va + i) mod 2 ^ 20" for i
    unfolding vpage_add vpage_PGROUNDDOWN two ..
  have "True \<longrightarrow> (\<forall>q \<in> set ?ps. \<not> present (entry s pgdir (fst q)))"
  proof (intro impI ballI)
    fix q
    assume "q \<in> set ?ps"
    then obtain i where "i < page_count va sz" "fst q = ?a + of_nat (i * PGSIZE)" unfolding ps by auto
    then show "\<not> present (entry s pgdir (fst q))" using assms(2) vp [of i] by simp
  qed
  from mappages_loop_ok [OF assms(1) page_range_distinct this] obtain r s' xs' n where
    R: "mappages_loop True pgdir perm ?ps s = Some (r, s')" "pgdir_ok s' pgdir xs'" "vm_frame pgdir xs xs' s s'"
      "entered pgdir perm (take n ?ps) s s'" "r = 0 \<and> length ?ps \<le> n \<or> r = - 1 \<and> xs' = []" by blast
  have m: "mappages pgdir va sz pa perm s = Some (r, s')" using R(1) by (simp add: mappages_def)
  have all: "entry s' pgdir vb = (pa + of_nat (i * PGSIZE)) OR perm OR PTE_P"
    if "length ?ps \<le> n" "i < page_count va sz" "vpage vb = (vpage va + i) mod 2 ^ 20" for i vb
  proof -
    have "(?a + of_nat (i * PGSIZE), pa + of_nat (i * PGSIZE)) \<in> set ?ps" using that(2) unfolding ps by auto
    then show ?thesis using R(4) that(1,3) vp [of i] by (simp add: entered_def)
  qed
  have other: "entry s' pgdir vb = entry s pgdir vb" if "\<forall>i < page_count va sz. vpage vb \<noteq> (vpage va + i) mod 2 ^ 20" for vb
  proof -
    have "vpage vb \<notin> vpage ` fst ` set ?ps" using that vp unfolding ps by auto
    then have "vpage vb \<notin> vpage ` fst ` set (take n ?ps)" using set_take_subset [of n ?ps] by blast
    then show ?thesis using R(4) by (simp add: entered_def)
  qed
  show ?thesis using m R(2,3,5) all other by (intro exI [of _ r] exI [of _ s'] exI [of _ xs']) blast
qed

text \<open>
  C23. On a well-formed page directory, mapping pages that are not yet present never panics. Either
  every page of the range gets its entry (physical page, permissions and the present bit) and no other address changes, or
  the free list is exhausted and the result is -1; the directory stays well-formed and no page outside it changes.
\<close>

theorem mappages_maps:
  assumes "pgdir_ok s pgdir xs" and "\<forall>i < page_count va sz. \<forall>vb. vpage vb = (vpage va + i) mod 2 ^ 20 \<longrightarrow> \<not> present (entry s pgdir vb)"
  shows "\<exists>r s' xs'. mappages pgdir va sz pa perm s = Some (r, s') \<and> pgdir_ok s' pgdir xs' \<and> vm_frame pgdir xs xs' s s' \<and>
    (r = 0 \<and> (\<forall>i < page_count va sz. \<forall>vb. vpage vb = (vpage va + i) mod 2 ^ 20 \<longrightarrow>
        entry s' pgdir vb = (pa + of_nat (i * PGSIZE)) OR perm OR PTE_P) \<or> r = - 1 \<and> xs' = []) \<and>
    (\<forall>vb. (\<forall>i < page_count va sz. vpage vb \<noteq> (vpage va + i) mod 2 ^ 20) \<longrightarrow> entry s' pgdir vb = entry s pgdir vb)"
  by (rule mappages_all [OF assms])

definition vm_demo :: vm where
  "vm_demo = small_vm\<lparr>freelist := 0x80201000\<rparr>"

lemma vm_demo_ok: "pgdir_ok vm_demo 0x80200000 [0x80201000]" and vm_demo_entry: "entry vm_demo 0x80200000 va = 0"
proof -
  have z: "slot vm_demo p k = 0" for p k by (simp add: slot_def vm_demo_def)
  have "free_pages vm_demo [0x80201000]"
    by (simp add: free_pages_def vm_demo_def upage_def kend_def V2P_def PHYSTOP_def KERNBASE_def)
  moreover have "upage 0x80200000" by (simp add: upage_def kend_def V2P_def PHYSTOP_def KERNBASE_def)
  ultimately show "pgdir_ok vm_demo 0x80200000 [0x80201000]" by (simp add: pgdir_ok_def z)
  show "entry vm_demo 0x80200000 va = 0" by (simp add: entry_def z)
qed

lemma mappages_maps_witness:
  "\<exists>r s' xs'. mappages 0x80200000 0x1000 4096 0x300000 PTE_W vm_demo = Some (r, s') \<and> pgdir_ok s' 0x80200000 xs'"
  using mappages_maps [OF vm_demo_ok, of "0x1000" 4096 "0x300000" PTE_W] by (auto simp: vm_demo_entry)

section \<open>Victims\<close>

fun first_present :: "u32 \<Rightarrow> u32 list \<Rightarrow> ('a) vm_scheme \<Rightarrow> u32 option" where
  "first_present pgdir [] s = Some 0"
| "first_present pgdir (i # is) s = do {
     (pte, _) \<leftarrow> walkpgdir pgdir i False s;
     if pte = 0 then first_present pgdir is s
     else do { e \<leftarrow> kload pte s; if e AND PTE_P \<noteq> 0 then Some pte else first_present pgdir is s }
   }"

lemma present_not_only_access: "e AND PTE_P \<noteq> 0 \<Longrightarrow> e AND NOT PTE_A \<noteq> 0"
proof
  assume p: "e AND PTE_P \<noteq> 0" and z: "e AND NOT PTE_A = 0"
  have "e AND PTE_P = (e AND NOT PTE_A) AND PTE_P" by (simp add: PTE_A_def PTE_P_def and.assoc)
  then show False using p z by simp
qed

lemma victim_first_present: "select_a_victim pgdir s = first_present pgdir user_pages s"
proof -
  have "victim_loop pgdir is s = first_present pgdir is s" for "is"
    by (induction "is") (auto split: Option.bind_splits simp: present_not_only_access)
  then show ?thesis by (simp add: select_a_victim_def)
qed

lemma and_flags_0: "(e AND PTE_P) AND (e AND PTE_A) = 0"
  by (rule bit_word_eqI) (auto simp: bit_and_iff PTE_P_def PTE_A_def bit_1_iff bit_numeral_word_iff)

lemma clearaccessbit_same:
  assumes "pgdir_ok s pgdir xs"
  shows "clearaccessbit pgdir s = Some s"
proof -
  have "clearaccessbit_loop pgdir 0 is s = Some s" for "is"
  proof (induction "is")
    case (Cons i "is")
    show ?case
    proof (cases "present (slot s pgdir (PDX i))")
      case True
      then show ?thesis
        using Cons walk_hit [OF assms True, where alloc = False] set_entry_ok(5,6) [OF assms True]
        by (simp add: and_flags_0)
    next
      case False
      then show ?thesis using Cons walk_miss [OF assms False] by simp
    qed
  qed simp
  then show ?thesis by (simp add: clearaccessbit_def)
qed

text \<open>
  C24. Victims do not depend on the access bit. \<open>select_a_victim\<close> chooses the first present page from
  the second page on, so its second test is void, and \<open>clearaccessbit\<close>, whose test combines the
  present and the access bit with a bitwise \<^verbatim>\<open>&\<close> that is always 0, returns with the state
  unchanged on every well-formed page directory.
\<close>

theorem access_bit_unused:
  assumes "pgdir_ok s pgdir xs"
  shows "select_a_victim pgdir s = first_present pgdir user_pages s \<and> clearaccessbit pgdir s = Some s"
  using victim_first_present clearaccessbit_same [OF assms] by blast

lemma access_bit_unused_witness:
  "select_a_victim 0x80200000 vm_demo = first_present 0x80200000 user_pages vm_demo \<and> clearaccessbit 0x80200000 vm_demo = Some vm_demo"
  by (rule access_bit_unused [OF vm_demo_ok])

end
