(* ===== verification/SysB.thy ===== *)
theory SysB
  imports ProcB
begin

text \<open>
  The way from user mode into the demand-paging kernel and back: sysproc.c, the dispatcher of syscall.c, trap.c and the
  loop of \<open>scheduler\<close>, all of \<^verbatim>\<open>Assignment 3/G17/Part_B\<close>. A system call of the process in slot \<open>p\<close>
  sees the user memory through the process's page directory; what it writes there goes back to the pages that are
  present. Messages on the console are left out.
\<close>

section \<open>File system calls on a process\<close>

definition load_cur :: "nat \<Rightarrow> psys \<Rightarrow> ksys" where
  "load_cur p s = (let x = ptab s p in (mach s)\<lparr>umem := user_view (u_pgdir x) (mach s), psz := u_sz x,
     pgdir := u_pgdir x, ksys.tf_esp := trapframe.tf_esp (u_tf x), ksys.tf_eip := trapframe.tf_eip (u_tf x),
     ksys.tf_eax := trapframe.tf_eax (u_tf x), ofiles := u_ofile x, cwd := cwd_of x, cpid := u_pid x,
     ckilled := u_killed x, pname := u_name x\<rparr>)"

text \<open>One page of user memory back into the frame that holds it.\<close>

definition store_page :: "u32 \<Rightarrow> bytes \<Rightarrow> nat \<Rightarrow> ksys \<Rightarrow> ksys option" where
  "store_page pd m i c = do {
     (pte, _) \<leftarrow> walkpgdir pd (of_nat (i * PGSIZE)) False c;
     if pte = 0 then Some c
     else do {
       e \<leftarrow> kload pte c;
       if e AND PTE_P = 0 then Some c
       else kwrite (P2V (PTE_ADDR e)) (\<lambda>k. m (i * PGSIZE + k)) PGSIZE c
     }
   }"

definition store_user :: "u32 \<Rightarrow> u32 \<Rightarrow> bytes \<Rightarrow> ksys \<Rightarrow> ksys option" where
  "store_user pd sz m c = run (store_page pd m) [0..<(unat sz + PGSIZE - 1) div PGSIZE] c"

text \<open>After a call: open files and directory of the process, and its memory.\<close>

definition save_cur :: "nat \<Rightarrow> ksys \<Rightarrow> psys \<Rightarrow> psys option" where
  "save_cur p c s = do {
     c1 \<leftarrow> store_user (u_pgdir (ptab s p)) (u_sz (ptab s p)) (umem c) c;
     Some (upd_slot p (\<lambda>x. x\<lparr>u_ofile := ofiles c, u_cwd := Some (cwd c)\<rparr>) (put_mach c1 s))
   }"

definition file_call :: "(ksys \<Rightarrow> (int \<times> ksys) option) \<Rightarrow> nat \<Rightarrow> psys \<Rightarrow> (kres \<times> psys) option" where
  "file_call f p s = do { (r, c) \<leftarrow> f (load_cur p s); s1 \<leftarrow> save_cur p c s; Some (Ret r, s1) }"

text \<open>A pipe call that cannot go on sleeps on the pipe's channel.\<close>

definition pipe_addr :: "ksys \<Rightarrow> u32" where
  "pipe_addr c = (case argfd 0 c of None \<Rightarrow> 0 | Some (_, f) \<Rightarrow> f_pipe (ftable c f))"

definition read_call :: "ksys devsw \<Rightarrow> nat \<Rightarrow> psys \<Rightarrow> (kres \<times> psys) option" where
  "read_call D p s = do {
     (r, c) \<leftarrow> sys_read D (load_cur p s);
     s1 \<leftarrow> save_cur p c s;
     case r of
       PReturn n \<Rightarrow> Some (Ret n, s1)
     | PSleep i \<Rightarrow> do { s2 \<leftarrow> sleep p (UPipe (ChNread (pipe_addr c))) KRead s1; Some (Away, s2) }
   }"

definition write_call :: "ksys devsw \<Rightarrow> nat \<Rightarrow> nat \<Rightarrow> psys \<Rightarrow> (kres \<times> psys) option" where
  "write_call D resume p s = do {
     (r, c) \<leftarrow> sys_write D resume (load_cur p s);
     s1 \<leftarrow> save_cur p c s;
     case r of
       PReturn n \<Rightarrow> Some (Ret n, s1)
     | PSleep i \<Rightarrow> do { s2 \<leftarrow> sleep p (UPipe (ChNwrite (pipe_addr c))) (KWrite i) s1; Some (Away, s2) }
   }"

text \<open>
  \<open>exec\<close> changes the process only when it succeeds; \<open>switchuvm\<close> then loads the new page directory.
\<close>

definition exec_call :: "ksys devsw \<Rightarrow> nat \<Rightarrow> psys \<Rightarrow> (kres \<times> psys) option" where
  "exec_call D p s = do {
     (r, c) \<leftarrow> sys_exec D (load_cur p s);
     if r < 0 then Some (Ret r, put_mach c s)
     else do {
       let s1 = upd_slot p (\<lambda>x. x\<lparr>u_sz := psz c, u_pgdir := pgdir c, u_name := pname c,
         u_tf := (u_tf x)\<lparr>trapframe.tf_esp := ksys.tf_esp c, trapframe.tf_eip := ksys.tf_eip c\<rparr>\<rparr>) (put_mach c s);
       s2 \<leftarrow> switchuvm p s1;
       Some (Ret r, s2)
     }
   }"

section \<open>System calls on processes\<close>

definition sys_fork :: "ksys devsw \<Rightarrow> (nat \<Rightarrow> bytes \<Rightarrow> bytes) \<Rightarrow> nat \<Rightarrow> psys \<Rightarrow> (kres \<times> psys) option" where
  "sys_fork D img p s = do { (r, s1) \<leftarrow> fork D img p s; Some (Ret r, s1) }"

definition sys_exit :: "nat \<Rightarrow> psys \<Rightarrow> (kres \<times> psys) option" where
  "sys_exit p s = do { s1 \<leftarrow> exit p s; Some (Away, s1) }"

definition sys_wait :: "nat \<Rightarrow> psys \<Rightarrow> (kres \<times> psys) option" where
  "sys_wait p s = wait p s"

definition sys_kill :: "nat \<Rightarrow> psys \<Rightarrow> (kres \<times> psys) option" where
  "sys_kill p s =
     (case argint 0 (load_cur p s) of
        None \<Rightarrow> Some (Ret (- 1), s)
      | Some w \<Rightarrow> (case kill (sint w) s of (r, s1) \<Rightarrow> Some (Ret r, s1)))"

definition sys_getpid :: "nat \<Rightarrow> psys \<Rightarrow> (kres \<times> psys) option" where
  "sys_getpid p s = Some (Ret (u_pid (ptab s p)), s)"

definition sys_sbrk :: "nat \<Rightarrow> psys \<Rightarrow> (kres \<times> psys) option" where
  "sys_sbrk p s =
     (case argint 0 (load_cur p s) of
        None \<Rightarrow> Some (Ret (- 1), s)
      | Some n \<Rightarrow> (case growproc p n s of (r, s1) \<Rightarrow>
          if r < 0 then Some (Ret (- 1), s1) else Some (Ret (sint (u_sz (ptab s p))), s1)))"

text \<open>The loop of \<open>sys_sleep\<close>, entered again after each tick; \<^verbatim>\<open>n\<close> is compared as an unsigned number.\<close>

definition sleep_loop :: "nat \<Rightarrow> u32 \<Rightarrow> u32 \<Rightarrow> psys \<Rightarrow> (kres \<times> psys) option" where
  "sleep_loop p ticks0 n s =
     (if uticks s - ticks0 < n then
        if u_killed (ptab s p) then Some (Ret (- 1), s)
        else do { s1 \<leftarrow> sleep p UTicks (KSleep ticks0 n) s; Some (Away, s1) }
      else Some (Ret 0, s))"

definition sys_sleep :: "nat \<Rightarrow> psys \<Rightarrow> (kres \<times> psys) option" where
  "sys_sleep p s =
     (case argint 0 (load_cur p s) of
        None \<Rightarrow> Some (Ret (- 1), s)
      | Some n \<Rightarrow> sleep_loop p (uticks s) n s)"

definition sys_uptime :: "nat \<Rightarrow> psys \<Rightarrow> (kres \<times> psys) option" where
  "sys_uptime p s = Some (Ret (sint (uticks s)), s)"

section \<open>The dispatcher\<close>

definition NSYSCALLS :: nat where "NSYSCALLS = 24"

text \<open>The table \<^verbatim>\<open>syscalls\<close>; entry 0 is null.\<close>

definition syscalls :: "ksys devsw \<Rightarrow> (nat \<Rightarrow> bytes \<Rightarrow> bytes) \<Rightarrow> (nat \<Rightarrow> psys \<Rightarrow> (kres \<times> psys) option) option list" where
  "syscalls D img =
    [None,
     Some (sys_fork D img),
     Some sys_exit,
     Some sys_wait,
     Some (file_call sys_pipe),
     Some (read_call D),
     Some sys_kill,
     Some (exec_call D),
     Some (file_call sys_fstat),
     Some (file_call (sys_chdir D)),
     Some (file_call sys_dup),
     Some sys_getpid,
     Some sys_sbrk,
     Some sys_sleep,
     Some sys_uptime,
     Some (file_call (sys_open D)),
     Some (write_call D 0),
     Some (file_call (sys_mknod D)),
     Some (file_call (sys_unlink D)),
     Some (file_call (sys_link D)),
     Some (file_call (sys_mkdir D)),
     Some (file_call sys_close),
     Some (file_call sys_bstat),
     Some (file_call (sys_swap D img))]"

definition syscall :: "ksys devsw \<Rightarrow> (nat \<Rightarrow> bytes \<Rightarrow> bytes) \<Rightarrow> nat \<Rightarrow> psys \<Rightarrow> (kres \<times> psys) option" where
  "syscall D img p s =
     (let num = sint (trapframe.tf_eax (u_tf (ptab s p)))
      in if 0 < num \<and> num < int NSYSCALLS then
           case syscalls D img ! nat num of
             Some f \<Rightarrow> f p s
           | None \<Rightarrow> Some (Ret (- 1), s)
         else Some (Ret (- 1), s))"

section \<open>Traps\<close>

definition T_PGFLT :: u32 where "T_PGFLT = 14"

text \<open>The value goes to \<open>eax\<close>; then the last test of \<open>trap\<close> on the way out of a system call.\<close>

definition sys_return :: "nat \<Rightarrow> int \<Rightarrow> psys \<Rightarrow> psys option" where
  "sys_return p r s =
     (let s1 = upd_slot p (\<lambda>x. x\<lparr>u_tf := (u_tf x)\<lparr>trapframe.tf_eax := word_of_int r\<rparr>\<rparr>) s
      in if u_killed (ptab s1 p) then exit p s1 else Some s1)"

definition finish :: "nat \<Rightarrow> kres \<times> psys \<Rightarrow> psys option" where
  "finish p rs = (case rs of (Ret r, s) \<Rightarrow> sys_return p r s | (Away, s) \<Rightarrow> Some s)"

definition trap_syscall :: "ksys devsw \<Rightarrow> (nat \<Rightarrow> bytes \<Rightarrow> bytes) \<Rightarrow> trapframe \<Rightarrow> psys \<Rightarrow> psys option" where
  "trap_syscall D img tf s = do {
     p \<leftarrow> cur s;
     if u_killed (ptab s p) then exit p s
     else do { rs \<leftarrow> syscall D img p (upd_slot p (\<lambda>x. x\<lparr>u_tf := tf\<rparr>) s); finish p rs }
   }"

text \<open>
  The switch of \<open>trap\<close> on CPU \<open>cpu\<close>; \<open>cr2\<close> is the faulting address and \<open>dev\<close> stands for the handlers of the
  disk, the keyboard and the serial line.
\<close>

definition trap_switch :: "ksys devsw \<Rightarrow> (nat \<Rightarrow> bytes \<Rightarrow> bytes) \<Rightarrow> (u32 \<Rightarrow> ksys \<Rightarrow> ksys) \<Rightarrow> nat \<Rightarrow> u32 \<Rightarrow> trapframe \<Rightarrow>
    psys \<Rightarrow> psys option" where
  "trap_switch D img dev cpu cr2 tf s =
     (let t = tf_trapno tf
      in if t = T_PGFLT then do {
           p \<leftarrow> cur s;
           let x = ptab s p;
           c \<leftarrow> handle_pgfault D (u_pid x) (cwd_of x) img (u_pgdir x) cr2 (mach s);
           Some (put_mach c s)
         }
         else if t = T_IRQ0 + IRQ_TIMER then
           Some (if cpu = 0 then wakeup (Some UTicks) (s\<lparr>uticks := uticks s + 1\<rparr>) else s)
         else if t = T_IRQ0 + IRQ_IDE \<or> t = T_IRQ0 + IRQ_KBD \<or> t = T_IRQ0 + IRQ_COM1 then
           Some (put_mach (dev t (mach s)) s)
         else if t = T_IRQ0 + IRQ_IDE + 1 \<or> t = T_IRQ0 + 7 \<or> t = T_IRQ0 + IRQ_SPURIOUS then Some s
         else case cur s of
             None \<Rightarrow> None
           | Some p \<Rightarrow> if tf_cs tf AND 3 = 0 then None
                       else Some (upd_slot p (\<lambda>x. x\<lparr>u_killed := True\<rparr>) s))"

definition killed_user :: "trapframe \<Rightarrow> psys \<Rightarrow> nat option" where
  "killed_user tf s =
     (case cur s of None \<Rightarrow> None
      | Some p \<Rightarrow> if u_killed (ptab s p) \<and> tf_cs tf AND 3 = DPL_USER then Some p else None)"

text \<open>The last test, also after a process preempted in user mode has the CPU again.\<close>

definition trap_out :: "trapframe \<Rightarrow> psys \<Rightarrow> psys option" where
  "trap_out tf s = (case killed_user tf s of Some p \<Rightarrow> exit p s | None \<Rightarrow> Some s)"

text \<open>The tests after the switch.\<close>

definition trap_after :: "trapframe \<Rightarrow> psys \<Rightarrow> psys option" where
  "trap_after tf s =
     (case killed_user tf s of
        Some p \<Rightarrow> exit p s
      | None \<Rightarrow>
          (case cur s of
             Some p \<Rightarrow> if u_state (ptab s p) = RUNNING \<and> tf_trapno tf = T_IRQ0 + IRQ_TIMER then yield p s
                       else trap_out tf s
           | None \<Rightarrow> trap_out tf s))"

text \<open>The trap frame of a trap from user mode is the one of the process.\<close>

definition trap :: "ksys devsw \<Rightarrow> (nat \<Rightarrow> bytes \<Rightarrow> bytes) \<Rightarrow> (u32 \<Rightarrow> ksys \<Rightarrow> ksys) \<Rightarrow> nat \<Rightarrow> u32 \<Rightarrow> trapframe \<Rightarrow>
    psys \<Rightarrow> psys option" where
  "trap D img dev cpu cr2 tf s =
     (if tf_trapno tf = T_SYSCALL then trap_syscall D img tf s
      else do {
        let s0 = (case cur s of
            Some p \<Rightarrow> if tf_cs tf AND 3 = DPL_USER then upd_slot p (\<lambda>x. x\<lparr>u_tf := tf\<rparr>) s else s
          | None \<Rightarrow> s);
        s1 \<leftarrow> trap_switch D img dev cpu cr2 tf s0;
        trap_after tf s1
      })"

section \<open>The scheduler\<close>

text \<open>
  What the process in slot \<open>p\<close> does when \<^verbatim>\<open>swtch\<close> returns in its context: it goes on in the kernel until it is
  in user mode or gives up the CPU again.
\<close>

definition resume :: "ksys devsw \<Rightarrow> nat \<Rightarrow> psys \<Rightarrow> psys option" where
  "resume D p s =
     (case u_cont (ptab s p) of
        KForkret \<Rightarrow> forkret s
      | KPreempted \<Rightarrow> trap_out (u_tf (ptab s p)) s
      | KWait \<Rightarrow> Option.bind (wait p (slept p s)) (finish p)
      | KSleep ticks0 n \<Rightarrow> Option.bind (sleep_loop p ticks0 n (slept p s)) (finish p)
      | KRead \<Rightarrow> Option.bind (read_call D p (slept p s)) (finish p)
      | KWrite i \<Rightarrow> Option.bind (write_call D i p (slept p s)) (finish p)
      | KSwapper b \<Rightarrow> (if b then swapout p (slept p s) else swapin p (slept p s)))"

text \<open>One round of the inner loop of \<open>scheduler\<close>, up to \<^verbatim>\<open>swtch\<close>; the loop variable moves on.\<close>

definition dispatch :: "nat \<Rightarrow> psys \<Rightarrow> psys option" where
  "dispatch p s = do {
     s1 \<leftarrow> switchuvm p (s\<lparr>cur := Some p\<rparr>);
     Some (upd_slot p (\<lambda>x. x\<lparr>u_state := RUNNING\<rparr>) s1)
   }"

definition scheduler :: "ksys devsw \<Rightarrow> psys \<Rightarrow> psys option" where
  "scheduler D s =
     (let p = spos s;
          s1 = s\<lparr>spos := (if p + 1 < NPROC then p + 1 else 0)\<rparr>
      in if u_state (ptab s p) \<noteq> RUNNABLE then Some s1
         else do { s2 \<leftarrow> dispatch p s1; resume D p s2 })"

section \<open>Runs of the kernel\<close>

text \<open>User mode: any instructions of the process change its own present pages at will.\<close>

definition user_run :: "nat \<Rightarrow> bytes \<Rightarrow> psys \<Rightarrow> psys option" where
  "user_run p m s = do {
     c \<leftarrow> store_user (u_pgdir (ptab s p)) (u_sz (ptab s p)) m (mach s);
     Some (s\<lparr>mach := c\<rparr>)
   }"

datatype klabel = Look nat | Trapped u32 | User

inductive kstep :: "ksys devsw \<Rightarrow> (nat \<Rightarrow> bytes \<Rightarrow> bytes) \<Rightarrow> (u32 \<Rightarrow> ksys \<Rightarrow> ksys) \<Rightarrow> psys \<Rightarrow> klabel \<Rightarrow> psys \<Rightarrow> bool"
  for D :: "ksys devsw" and img :: "nat \<Rightarrow> bytes \<Rightarrow> bytes" and dev :: "u32 \<Rightarrow> ksys \<Rightarrow> ksys" where
  look: "cur s = None \<Longrightarrow> scheduler D s = Some t \<Longrightarrow> kstep D img dev s (Look (spos s)) t"
| trapped: "trap D img dev cpu cr2 tf s = Some t \<Longrightarrow> kstep D img dev s (Trapped (tf_trapno tf)) t"
| user: "cur s = Some p \<Longrightarrow> user_run p m s = Some t \<Longrightarrow> kstep D img dev s User t"

text \<open>A run, with the state each of its steps starts in.\<close>

inductive kruns :: "ksys devsw \<Rightarrow> (nat \<Rightarrow> bytes \<Rightarrow> bytes) \<Rightarrow> (u32 \<Rightarrow> ksys \<Rightarrow> ksys) \<Rightarrow> psys \<Rightarrow> (psys \<times> klabel) list \<Rightarrow> psys \<Rightarrow> bool"
  for D :: "ksys devsw" and img :: "nat \<Rightarrow> bytes \<Rightarrow> bytes" and dev :: "u32 \<Rightarrow> ksys \<Rightarrow> ksys" where
  start: "kruns D img dev s [] s"
| step: "kruns D img dev s es t \<Longrightarrow> kstep D img dev t l u \<Longrightarrow> kruns D img dev s (es @ [(t, l)]) u"

inductive_cases kstepE: "kstep D img dev s l t"

end
