(* ===== verification/ProcBInv.thy ===== *)
theory ProcBInv
  imports SysB ProcInv
begin

text \<open>
  The well-formedness of the process table of the demand-paging kernel and its preservation. A slot is well formed
  for its state: only a process that can run has a directory and a size in the user half, a free slot owns nothing, a
  zombie only its memory. \<open>pinv\<close> adds the process tree, the pids and the page directory register, over
  the views of the table that ProcInv reasons about. \<open>follows\<close> is what any step of the running process leaves.
\<close>

section \<open>What freeing an address space leaves alone\<close>

lemma run_frame:
  assumes "run f xs s = Some t" and "\<And>x s t. f x s = Some t \<Longrightarrow> g t = g s"
  shows "g t = g s"
  using assms(1)
proof (induction xs arbitrary: s)
  case (Cons x xs)
  then obtain u where u: "f x s = Some u" "run f xs u = Some t" by (auto simp: bind_eq_Some)
  show ?case using Cons.IH [OF u(2)] assms(2) [OF u(1)] by simp
qed simp

lemma fs_blk_frame:
  fixes s :: "('a) fs_scheme"
  shows "blk_read n s = Some (d, t) \<Longrightarrow> fs.more t = fs.more s"
    and "blk_set n d s = Some t \<Longrightarrow> fs.more t = fs.more s"
    and "blk_write n s = Some t \<Longrightarrow> fs.more t = fs.more s"
    and "blk_release n s = Some t \<Longrightarrow> fs.more t = fs.more s"
  by (auto simp: blk_read_def blk_set_def blk_write_def blk_release_def split: if_splits)

lemma readsb_frame: "readsb s = Some (q, t) \<Longrightarrow> fs.more t = fs.more s"
  by (auto simp: readsb_def bind_eq_Some fs_blk_frame)

lemma bfree_frame: "bfree b s = Some t \<Longrightarrow> fs.more t = fs.more s"
  by (auto simp: bfree_def bind_eq_Some Let_def split: if_splits
      dest!: readsb_frame fs_blk_frame(1) fs_blk_frame(2) fs_blk_frame(3) fs_blk_frame(4))

lemma bfree_page_frame: "bfree_page b s = Some t \<Longrightarrow> fs.more t = fs.more s"
  by (auto simp: bfree_page_def bind_eq_Some dest!: run_frame [where g = fs.more] intro: bfree_frame)

lemma vm_more_fs: "fs.more (t :: ('a) vm_scheme) = fs.more s \<Longrightarrow> vm.more t = vm.more s"
  by (cases s, cases t) simp

lemma kmem_frame:
  shows "kmemset p c n s = Some t \<Longrightarrow> vm.more t = vm.more s"
    and "kstore p v s = Some t \<Longrightarrow> vm.more t = vm.more s"
    and "kwrite p m n s = Some t \<Longrightarrow> vm.more t = vm.more s"
  by (auto simp: kmemset_def kstore_def kwrite_def split: if_splits)

lemma kfree_frame: "kfree v s = Some t \<Longrightarrow> vm.more t = vm.more s"
  by (auto simp: kfree_def bind_eq_Some split: if_splits dest!: kmem_frame(1) kmem_frame(2))

lemma walk_frame: "walkpgdir pd va False s = Some (pte, t) \<Longrightarrow> t = s"
  by (auto simp: walkpgdir_def Let_def bind_eq_Some split: if_splits)

lemma deallocuvm_loop_frame: "deallocuvm_loop sw pd a o1 s = Some t \<Longrightarrow> vm.more t = vm.more s"
proof (rule deallocuvm_loop.raw_induct [where P = "\<lambda>sw pd a o1 s t. vm.more t = vm.more s"])
  fix rec sw pd a o1 and s t :: "('a) vm_scheme"
  assume ih: "\<And>sw pd a o1 s t. rec sw pd a o1 s = Some t \<Longrightarrow> vm.more t = vm.more s"
    and eq: "(if \<not> a < o1 then Some s
      else Option.bind (walkpgdir pd a False s) (\<lambda>(pte, s1).
        if pte = 0 then rec sw pd (PGADDR (PDX a + 1)) o1 s1
        else Option.bind (kload pte s1) (\<lambda>e.
          if sw \<and> e AND PTE_SWAPPED \<noteq> 0 then
            Option.bind (bfree_page (unat (drop_bit 12 e)) s1) (\<lambda>s2. rec sw pd (a + 4096) o1 s2)
          else if e AND PTE_P \<noteq> 0 then
            (if PTE_ADDR e = 0 then None
             else Option.bind (kfree (P2V (PTE_ADDR e)) s1) (\<lambda>s2.
               Option.bind (kstore pte 0 s2) (\<lambda>s3. rec sw pd (a + 4096) o1 s3)))
          else rec sw pd (a + 4096) o1 s1))) = Some t"
  then show "vm.more t = vm.more s"
    by (auto simp: bind_eq_Some split: if_splits
        dest!: walk_frame ih bfree_page_frame [THEN vm_more_fs] kfree_frame kmem_frame(2))
qed

lemma freevm_frame: "freevm pd s = Some t \<Longrightarrow> vm.more t = vm.more s"
proof -
  assume f: "freevm pd s = Some t"
  then obtain s1 s2 where d: "deallocuvm_loop True pd (PGROUNDUP 0) KERNBASE s = Some s1"
    and r: "run (free_table pd) [0..<NPDENTRIES] s1 = Some s2" and k: "kfree pd s2 = Some t"
    by (auto simp: freevm_def deallocuvm_def bind_eq_Some KERNBASE_def split: if_splits)
  have "vm.more u = vm.more v" if "free_table pd i v = Some u" for i and u v :: "('a) vm_scheme"
    using that by (auto simp: free_table_def bind_eq_Some kfree_frame split: if_splits)
  with r have "vm.more s2 = vm.more s1" by (rule run_frame [where g = vm.more])
  with deallocuvm_loop_frame [OF d] kfree_frame [OF k] show ?thesis by simp
qed

lemma ksys_more:
  "vm.more (c' :: ('a) ksys_scheme) = vm.more c \<Longrightarrow> psz c' = psz c \<and> pgdir c' = pgdir c"
  by (cases c, cases c') simp

section \<open>The image that exec leaves\<close>

lemma allocuvm_loop_result: "allocuvm_loop pd o1 n as s = Some (r, t) \<Longrightarrow> r = 0 \<or> r = n"
proof (induction as arbitrary: s)
  case (Cons a as)
  then show ?case by (auto simp: bind_eq_Some split: if_splits)
qed simp

lemma allocuvm_result:
  "allocuvm pd o1 n s = Some (r, t) \<Longrightarrow> r = 0 \<or> r = o1 \<and> n < o1 \<or> r = n \<and> n < KERNBASE"
  by (auto simp: allocuvm_def Let_def not_le split: if_splits dest: allocuvm_loop_result)

lemma load_segment_bound:
  assumes "load_segment D pd ip off sz s = Some (Some sz', t)" and "sz < KERNBASE"
  shows "sz' < KERNBASE"
  using assms
  by (auto simp: load_segment_def bind_eq_Some Let_def split: if_splits dest!: allocuvm_result)

lemma load_segments_bound:
  "load_segments D pd ip off n sz s = Some (Some sz', t) \<Longrightarrow> sz < KERNBASE \<Longrightarrow> sz' < KERNBASE"
proof (induction n arbitrary: off sz s)
  case (Suc n)
  from Suc.prems(1) obtain y u where y: "load_segment D pd ip off sz s = Some (Some y, u)"
    and l: "load_segments D pd ip (off + of_nat PROGHDR_SIZE) n y u = Some (Some sz', t)"
    by (auto simp: bind_eq_Some split: option.splits)
  show ?case by (rule Suc.IH [OF l load_segment_bound [OF y Suc.prems(2)]])
qed simp

lemma exec_bad_fails: "exec_bad pd ip s = Some (r, t) \<Longrightarrow> r < 0"
  by (auto simp: exec_bad_def bind_eq_Some)

lemma exec_commit_image:
  assumes "exec_commit path pd sz e sp s = Some (r, t)"
  shows "psz t = sz \<and> pgdir t = pd"
proof -
  from assms obtain u where "freevm (pgdir s) u = Some t" and u: "psz u = sz" "pgdir u = pd"
    by (fastforce simp: exec_commit_def bind_eq_Some Let_def)
  from this(1) have "psz t = psz u \<and> pgdir t = pgdir u" by (intro ksys_more freevm_frame)
  with u show ?thesis by simp
qed

text \<open>The stack comes above the image, so only a size below \<open>KERNBASE\<close> gets there.\<close>

lemma stack_room:
  assumes "sz0 < KERNBASE" and "(r :: u32) = PGROUNDUP sz0 \<and> PGROUNDUP sz0 + 2 * 4096 < PGROUNDUP sz0 \<or>
    r = PGROUNDUP sz0 + 2 * 4096 \<and> PGROUNDUP sz0 + 2 * 4096 < KERNBASE"
  shows "r < KERNBASE"
proof -
  have "unat (sz0 + 4095) = unat sz0 + 4095"
    using assms(1) by (simp add: KERNBASE_def word_less_nat_alt unat_word_ariths)
  then have le: "unat (PGROUNDUP sz0) \<le> unat sz0 + 4095"
    using unat_page_base [of "sz0 + 4095"] by (simp add: PGROUNDUP_def add.commute)
  then have "unat (PGROUNDUP sz0 + 8192) = unat (PGROUNDUP sz0) + 8192"
    using assms(1) by (simp add: KERNBASE_def word_less_nat_alt unat_word_ariths)
  then have "\<not> PGROUNDUP sz0 + 2 * 4096 < PGROUNDUP sz0" by (simp add: word_less_nat_alt)
  with assms(2) show ?thesis by simp
qed

lemma exec_stack_image:
  assumes e: "exec_stack path argv pd en sz0 s = Some (r, t)" and r: "\<not> r < 0" and sz: "sz0 < KERNBASE"
  shows "pgdir t = pd \<and> psz t < KERNBASE"
proof -
  from e r obtain s1 s3 sz1 sp where a: "allocuvm pd (PGROUNDUP sz0) (PGROUNDUP sz0 + 2 * 4096) s = Some (sz1, s1)"
    and nz: "sz1 \<noteq> 0" and c: "exec_commit path pd sz1 en sp s3 = Some (r, t)"
    by (auto simp: exec_stack_def bind_eq_Some Let_def split: if_splits option.splits dest: exec_bad_fails)
  have "sz1 < KERNBASE" using allocuvm_result [OF a] nz by (intro stack_room [OF sz]) auto
  with exec_commit_image [OF c] show ?thesis by simp
qed

lemma exec_image_result:
  assumes e: "exec_image D path argv ip s = Some (r, t)" and r: "\<not> r < 0"
  shows "pgdir t \<noteq> 0 \<and> psz t < KERNBASE"
proof -
  from e r obtain pd s5 en sz s2 s3 off n where nz: "pd \<noteq> 0"
    and l: "load_segments D pd ip off n 0 s2 = Some (Some sz, s3)"
    and st: "exec_stack path argv pd en sz s5 = Some (r, t)"
    by (auto simp: exec_image_def bind_eq_Some Let_def split: if_splits option.splits dest: exec_bad_fails)
  have "sz < KERNBASE" by (rule load_segments_bound [OF l]) (simp add: KERNBASE_def)
  with exec_stack_image [OF st r] nz show ?thesis by simp
qed

lemma sys_exec_result:
  assumes "sys_exec D s = Some (r, t)" and "\<not> r < 0"
  shows "pgdir t \<noteq> 0 \<and> psz t < KERNBASE"
  using assms
  by (auto simp: sys_exec_def exec_def bind_eq_Some split: option.splits dest: exec_image_result)

section \<open>Views and well-formed slots\<close>

definition ust :: "psys \<Rightarrow> nat \<Rightarrow> procstate" where "ust s p = u_state (ptab s p)"
definition upid :: "psys \<Rightarrow> nat \<Rightarrow> int" where "upid s p = u_pid (ptab s p)"
definition upar :: "psys \<Rightarrow> nat \<Rightarrow> nat option" where "upar s p = u_parent (ptab s p)"
definition on_cpu :: "psys \<Rightarrow> nat \<Rightarrow> nat option" where "on_cpu s c = (if c = 0 then cur s else None)"

definition no_files :: "uproc \<Rightarrow> bool" where
  "no_files x \<longleftrightarrow> (\<forall>fd < NOFILE. u_ofile x fd = None) \<and> u_cwd x = None"

definition uslot_ok :: "uproc \<Rightarrow> bool" where
  "uslot_ok x \<longleftrightarrow> (case u_state x of
     UNUSED \<Rightarrow> u_kstack x = 0 \<and> u_pgdir x = 0 \<and> no_files x
   | EMBRYO \<Rightarrow> u_kstack x \<noteq> 0 \<and> u_pgdir x = 0 \<and> no_files x
   | ZOMBIE \<Rightarrow> u_kstack x \<noteq> 0 \<and> u_pgdir x \<noteq> 0 \<and> no_files x
   | _ \<Rightarrow> u_kstack x \<noteq> 0 \<and> u_pgdir x \<noteq> 0 \<and> u_cwd x \<noteq> None \<and> u_sz x \<le> KERNBASE \<and>
          (u_state x = SLEEPING \<longrightarrow> u_chan x \<noteq> None))"

lemma uslot_ok_frame [simp]:
  "uslot_ok (x\<lparr>u_killed := b\<rparr>) = uslot_ok x" "uslot_ok (x\<lparr>u_tf := tf\<rparr>) = uslot_ok x"
  "uslot_ok (x\<lparr>u_cont := k\<rparr>) = uslot_ok x" "uslot_ok (x\<lparr>u_name := nm\<rparr>) = uslot_ok x"
  "uslot_ok (x\<lparr>u_pid := i\<rparr>) = uslot_ok x" "uslot_ok (x\<lparr>u_parent := po\<rparr>) = uslot_ok x"
  by (cases "u_state x"; simp add: uslot_ok_def no_files_def)+

text \<open>
  The pids are part of it under the flag \<open>F\<close> only: they stay unique as long as the counter has not
  wrapped around. \<open>pinvx F X\<close> leaves out the slots in \<open>X\<close>, such as that of a process in the middle of \<open>exit\<close>.
\<close>

definition pinvx :: "bool \<Rightarrow> nat set \<Rightarrow> psys \<Rightarrow> bool" where
  "pinvx F X s \<longleftrightarrow> run_inv NPROC (ust s) (on_cpu s) \<and> (F \<longrightarrow> pid_inv NPROC (ust s) (upid s) (nextp s)) \<and>
     tree_inv NPROC (ust s) (upar s) (initp s) \<and> (\<forall>p < NPROC. p \<notin> X \<longrightarrow> uslot_ok (ptab s p)) \<and>
     (\<forall>p. cur s = Some p \<longrightarrow> cr3 s = V2P (u_pgdir (ptab s p))) \<and> spos s < NPROC"

abbreviation pinv :: "bool \<Rightarrow> psys \<Rightarrow> bool" where "pinv F \<equiv> pinvx F {}"

lemma pinvxI:
  assumes "run_inv NPROC (ust s) (on_cpu s)" "F \<Longrightarrow> pid_inv NPROC (ust s) (upid s) (nextp s)"
    "tree_inv NPROC (ust s) (upar s) (initp s)" "\<And>p. p < NPROC \<Longrightarrow> p \<notin> X \<Longrightarrow> uslot_ok (ptab s p)"
    "\<And>p. cur s = Some p \<Longrightarrow> cr3 s = V2P (u_pgdir (ptab s p))" "spos s < NPROC"
  shows "pinvx F X s"
  using assms unfolding pinvx_def by blast

lemma pinvxD:
  assumes "pinvx F X s"
  shows "run_inv NPROC (ust s) (on_cpu s)" "F \<Longrightarrow> pid_inv NPROC (ust s) (upid s) (nextp s)"
    "tree_inv NPROC (ust s) (upar s) (initp s)" "p < NPROC \<Longrightarrow> p \<notin> X \<Longrightarrow> uslot_ok (ptab s p)"
    "cur s = Some p \<Longrightarrow> cr3 s = V2P (u_pgdir (ptab s p))" "spos s < NPROC"
  using assms unfolding pinvx_def by blast+

lemmas pinvI = pinvxI [where X = "{}"]
lemmas pinvD = pinvxD [where X = "{}", simplified]

lemma pinv_cur: "pinv F s \<Longrightarrow> cur s = Some p \<Longrightarrow> p < NPROC \<and> ust s p = RUNNING"
  using run_invD(1) [OF pinvD(1), of F s 0 p] by (simp add: on_cpu_def)

lemma pinv_running: "pinv F s \<Longrightarrow> p < NPROC \<Longrightarrow> ust s p = RUNNING \<Longrightarrow> cur s = Some p"
  using run_invD(3) [OF pinvD(1), of F s p] by (auto simp: on_cpu_def split: if_splits)

lemma views_upd [simp]:
  "ust (upd_slot p f s) = (ust s)(p := u_state (f (ptab s p)))"
  "upid (upd_slot p f s) = (upid s)(p := u_pid (f (ptab s p)))"
  "upar (upd_slot p f s) = (upar s)(p := u_parent (f (ptab s p)))"
  "on_cpu (upd_slot p f s) = on_cpu s"
  by (auto simp: upd_slot_def ust_def upid_def upar_def on_cpu_def fun_eq_iff)

lemma upd_slot_simps [simp]:
  "ptab (upd_slot p f s) q = (if q = p then f (ptab s p) else ptab s q)"
  "mach (upd_slot p f s) = mach s" "initp (upd_slot p f s) = initp s" "nextp (upd_slot p f s) = nextp s"
  "cur (upd_slot p f s) = cur s" "cr3 (upd_slot p f s) = cr3 s" "esp0 (upd_slot p f s) = esp0 s"
  "kpgdir (upd_slot p f s) = kpgdir s" "spos (upd_slot p f s) = spos s" "uticks (upd_slot p f s) = uticks s"
  "first (upd_slot p f s) = first s" "freenode (upd_slot p f s) = freenode s" "qnodes (upd_slot p f s) = qnodes s"
  by (simp_all add: upd_slot_def)

lemma upd_slot_twice: "upd_slot p g (upd_slot p f s) = upd_slot p (\<lambda>x. g (f x)) s"
  by (simp add: upd_slot_def)

lemma upd_slot_cong: "f (ptab s p) = g (ptab s p) \<Longrightarrow> upd_slot p f s = upd_slot p g s"
  by (simp add: upd_slot_def)

lemma upd_slot_mach: "(upd_slot p f s)\<lparr>mach := c\<rparr> = upd_slot p f (s\<lparr>mach := c\<rparr>)"
  by (simp add: upd_slot_def)

lemma views_same:
  "u_state (ptab s p) = ust s p" "u_pid (ptab s p) = upid s p" "u_parent (ptab s p) = upar s p"
  by (simp_all add: ust_def upid_def upar_def)

text \<open>An update that keeps state, pid and parent, and the directory of the running process.\<close>

lemma pinv_same:
  assumes s: "pinv F s" and f: "u_state (f (ptab s p)) = ust s p" "u_pid (f (ptab s p)) = upid s p"
      "u_parent (f (ptab s p)) = upar s p"
    and ok: "uslot_ok (ptab s p) \<Longrightarrow> uslot_ok (f (ptab s p))"
    and pd: "cur s = Some p \<Longrightarrow> u_pgdir (f (ptab s p)) = u_pgdir (ptab s p)"
  shows "pinv F (upd_slot p f s)"
proof (rule pinvI)
  fix q assume "q < NPROC"
  with ok pinvD(4) [OF s, of q] show "uslot_ok (ptab (upd_slot p f s) q)" by (cases "q = p") simp_all
next
  fix q assume "cur (upd_slot p f s) = Some q"
  with pd pinvD(5) [OF s, of q] show "cr3 (upd_slot p f s) = V2P (u_pgdir (ptab (upd_slot p f s) q))" by auto
qed (use pinvD(1,3,6) [OF s] pinvD(2) [OF s] f in \<open>simp_all add: fun_upd_idem\<close>)

text \<open>The invariant does not speak of the other fields.\<close>

lemma views_frame [simp]:
  "ust (s\<lparr>mach := c\<rparr>) = ust s" "upid (s\<lparr>mach := c\<rparr>) = upid s" "upar (s\<lparr>mach := c\<rparr>) = upar s" "on_cpu (s\<lparr>mach := c\<rparr>) = on_cpu s"
  "ust (s\<lparr>nextp := n\<rparr>) = ust s" "upid (s\<lparr>nextp := n\<rparr>) = upid s" "upar (s\<lparr>nextp := n\<rparr>) = upar s" "on_cpu (s\<lparr>nextp := n\<rparr>) = on_cpu s"
  "ust (s\<lparr>cur := c'\<rparr>) = ust s" "upid (s\<lparr>cur := c'\<rparr>) = upid s" "upar (s\<lparr>cur := c'\<rparr>) = upar s"
  "ust (s\<lparr>cr3 := r\<rparr>) = ust s" "upid (s\<lparr>cr3 := r\<rparr>) = upid s" "upar (s\<lparr>cr3 := r\<rparr>) = upar s" "on_cpu (s\<lparr>cr3 := r\<rparr>) = on_cpu s"
  "ust (s\<lparr>esp0 := r\<rparr>) = ust s" "upid (s\<lparr>esp0 := r\<rparr>) = upid s" "upar (s\<lparr>esp0 := r\<rparr>) = upar s" "on_cpu (s\<lparr>esp0 := r\<rparr>) = on_cpu s"
  "ust (s\<lparr>spos := k\<rparr>) = ust s" "upid (s\<lparr>spos := k\<rparr>) = upid s" "upar (s\<lparr>spos := k\<rparr>) = upar s" "on_cpu (s\<lparr>spos := k\<rparr>) = on_cpu s"
  "ust (s\<lparr>uticks := t\<rparr>) = ust s" "upid (s\<lparr>uticks := t\<rparr>) = upid s" "upar (s\<lparr>uticks := t\<rparr>) = upar s" "on_cpu (s\<lparr>uticks := t\<rparr>) = on_cpu s"
  "ust (s\<lparr>first := b\<rparr>) = ust s" "upid (s\<lparr>first := b\<rparr>) = upid s" "upar (s\<lparr>first := b\<rparr>) = upar s" "on_cpu (s\<lparr>first := b\<rparr>) = on_cpu s"
  "ust (s\<lparr>initp := i\<rparr>) = ust s" "upid (s\<lparr>initp := i\<rparr>) = upid s" "upar (s\<lparr>initp := i\<rparr>) = upar s" "on_cpu (s\<lparr>initp := i\<rparr>) = on_cpu s"
  by (simp_all add: ust_def upid_def upar_def on_cpu_def fun_eq_iff)

lemma pinv_frame [simp]:
  "pinvx F X (s\<lparr>mach := c\<rparr>) = pinvx F X s" "pinvx F X (s\<lparr>uticks := t\<rparr>) = pinvx F X s" "pinvx F X (s\<lparr>first := b\<rparr>) = pinvx F X s"
  by (simp_all add: pinvx_def)

section \<open>Wakeups\<close>

text \<open>\<open>woken s t\<close>: \<open>t\<close> differs from \<open>s\<close> in the machine below and in sleepers that became runnable.\<close>

definition woken :: "psys \<Rightarrow> psys \<Rightarrow> bool" where
  "woken s t \<longleftrightarrow> initp t = initp s \<and> nextp t = nextp s \<and> cur t = cur s \<and> cr3 t = cr3 s \<and> spos t = spos s \<and>
     first t = first s \<and>
     (\<forall>p. ptab t p = ptab s p \<or>
        p < NPROC \<and> u_state (ptab s p) = SLEEPING \<and> ptab t p = (ptab s p)\<lparr>u_state := RUNNABLE\<rparr>)"

lemma woken_mach [simp]: "woken s (s\<lparr>mach := c\<rparr>)"
  by (simp add: woken_def)

lemma woken_trans:
  assumes a: "woken s t" and b: "woken t u"
  shows "woken s u"
proof -
  have "ptab u p = ptab s p \<or> p < NPROC \<and> u_state (ptab s p) = SLEEPING \<and> ptab u p = (ptab s p)\<lparr>u_state := RUNNABLE\<rparr>" for p
  proof (cases "ptab t p = ptab s p")
    case True
    with b show ?thesis unfolding woken_def by metis
  next
    case False
    with a have t: "p < NPROC" "u_state (ptab s p) = SLEEPING" "ptab t p = (ptab s p)\<lparr>u_state := RUNNABLE\<rparr>"
      unfolding woken_def by blast+
    then have "u_state (ptab t p) \<noteq> SLEEPING" by simp
    then have "ptab u p = ptab t p" using b unfolding woken_def by blast
    with t show ?thesis by simp
  qed
  with a b show ?thesis by (simp add: woken_def)
qed

lemma woken_wakeup1: "woken s (wakeup1 ch s)"
  by (auto simp: woken_def wakeup1_def Let_def)

lemma woken_put_mach: "woken s (put_mach c s)"
proof -
  have "woken s (fold (\<lambda>ch. wakeup (Some (UPipe ch))) cs t)" if "woken s t" for cs t
    using that by (induction cs arbitrary: t) (simp_all add: wakeup_def woken_trans woken_wakeup1)
  then show ?thesis by (simp add: put_mach_def)
qed

lemma woken_frame:
  "woken s t \<Longrightarrow> initp t = initp s \<and> nextp t = nextp s \<and> cur t = cur s \<and> cr3 t = cr3 s \<and> spos t = spos s"
  by (simp add: woken_def)

lemma woken_slot:
  assumes "woken s t"
  obtains "ptab t p = ptab s p"
  | "p < NPROC" "u_state (ptab s p) = SLEEPING" "ptab t p = (ptab s p)\<lparr>u_state := RUNNABLE\<rparr>"
  using assms unfolding woken_def by blast

lemma woken_views:
  assumes w: "woken s t"
  shows "upid t = upid s" "upar t = upar s" "on_cpu t = on_cpu s"
    "ust t p = ust s p \<or> ust s p = SLEEPING \<and> ust t p = RUNNABLE"
    "u_pgdir (ptab t p) = u_pgdir (ptab s p)"
proof -
  have "upid t q = upid s q \<and> upar t q = upar s q" for q
    by (rule woken_slot [OF w, of q]) (simp_all add: upid_def upar_def)
  then show "upid t = upid s" "upar t = upar s" by auto
  show "on_cpu t = on_cpu s" using woken_frame [OF w] by (auto simp: on_cpu_def)
  show "ust t p = ust s p \<or> ust s p = SLEEPING \<and> ust t p = RUNNABLE"
    by (rule woken_slot [OF w, of p]) (simp_all add: ust_def)
  show "u_pgdir (ptab t p) = u_pgdir (ptab s p)"
    by (rule woken_slot [OF w, of p]) simp_all
qed

lemma uslot_ok_woken: "uslot_ok x \<Longrightarrow> u_state x = SLEEPING \<Longrightarrow> uslot_ok (x\<lparr>u_state := RUNNABLE\<rparr>)"
  by (simp add: uslot_ok_def)

lemma pinv_woken:
  assumes w: "woken s t" and s: "pinvx F X s"
  shows "pinvx F X t"
proof (rule pinvxI)
  note v = woken_views [OF w] and f = woken_frame [OF w]
  have i: "(ust t i = RUNNING) = (ust s i = RUNNING)" "(ust t i = UNUSED) = (ust s i = UNUSED)"
    "(ust t i = EMBRYO) = (ust s i = EMBRYO)" "alive (ust t i) = alive (ust s i)" for i
    using v(4) [of i] by auto
  show "run_inv NPROC (ust t) (on_cpu t)" unfolding v(3) by (rule run_inv_cong [OF pinvxD(1) [OF s]]) (simp add: i)
  have "nextp t = nextp s" "initp t = initp s" using f by simp_all
  then show "tree_inv NPROC (ust t) (upar t) (initp t)" "F \<Longrightarrow> pid_inv NPROC (ust t) (upid t) (nextp t)"
    using pid_inv_cong [OF pinvxD(2) [OF s], of "ust t" "upid t"] tree_inv_cong [OF pinvxD(3) [OF s], of "ust t" "upar t"]
    by (simp_all add: i v)
  show "uslot_ok (ptab t p)" if "p < NPROC" "p \<notin> X" for p
    by (rule woken_slot [OF w, of p]) (use pinvxD(4) [OF s that] uslot_ok_woken in simp_all)
  show "cr3 t = V2P (u_pgdir (ptab t p))" if "cur t = Some p" for p
    using pinvxD(5) [OF s, of p] that f v(5) by simp
  show "spos t < NPROC" using pinvxD(6) [OF s] f by simp
qed

section \<open>What a step of the running process leaves\<close>

definition follows :: "bool \<Rightarrow> nat \<Rightarrow> psys \<Rightarrow> psys \<Rightarrow> bool" where
  "follows F p s t \<longleftrightarrow> pinv F t \<and> spos t = spos s \<and> (cur t = Some p \<or> cur t = None) \<and>
     (\<forall>q. q \<noteq> p \<longrightarrow> ust s q = RUNNABLE \<longrightarrow> ust t q = RUNNABLE)"

lemma followsI:
  "pinv F t \<Longrightarrow> spos t = spos s \<Longrightarrow> cur t = Some p \<or> cur t = None \<Longrightarrow>
   (\<And>q. q \<noteq> p \<Longrightarrow> ust s q = RUNNABLE \<Longrightarrow> ust t q = RUNNABLE) \<Longrightarrow> follows F p s t"
  by (simp add: follows_def)

lemma follows_pinv: "follows F p s t \<Longrightarrow> pinv F t"
  by (simp add: follows_def)

lemma follows_refl: "pinv F s \<Longrightarrow> cur s = Some p \<Longrightarrow> follows F p s s"
  by (simp add: follows_def)

lemma follows_trans: "follows F p s t \<Longrightarrow> follows F p t u \<Longrightarrow> follows F p s u"
  by (simp add: follows_def)

lemma follows_woken:
  assumes w: "woken s t" and s: "pinv F s" "cur s = Some p"
  shows "follows F p s t \<and> cur t = Some p"
proof -
  have "ust t q = RUNNABLE" if "ust s q = RUNNABLE" for q using woken_views(4) [OF w, of q] that by auto
  then show ?thesis using woken_frame [OF w] pinv_woken [OF w s(1)] s(2) by (simp add: follows_def)
qed

lemmas follows_put = follows_woken [OF woken_put_mach]

lemma follows_same:
  assumes s: "pinv F s" "cur s = Some p"
    and f: "u_state (f (ptab s p)) = ust s p" "u_pid (f (ptab s p)) = upid s p"
      "u_parent (f (ptab s p)) = upar s p" "u_pgdir (f (ptab s p)) = u_pgdir (ptab s p)"
    and ok: "uslot_ok (ptab s p) \<Longrightarrow> uslot_ok (f (ptab s p))"
  shows "follows F p s (upd_slot p f s) \<and> cur (upd_slot p f s) = Some p"
proof -
  have "pinv F (upd_slot p f s)" by (rule pinv_same [where f = f, OF s(1) f(1-3) ok f(4)])
  with s f(1) show ?thesis by (simp add: follows_def)
qed

text \<open>Giving up the CPU as runnable or asleep.\<close>

lemma sched_follows:
  assumes s: "pinv F s" "cur s = Some p"
    and f: "u_state (f (ptab s p)) = x" "u_pid (f (ptab s p)) = upid s p" "u_parent (f (ptab s p)) = upar s p"
    and x: "alive x" "x \<noteq> RUNNING"
    and ok: "uslot_ok (f (ptab s p))"
    and t: "sched p (upd_slot p f s) = Some t"
  shows "follows F p s t \<and> cur t = None"
proof -
  have t_eq: "t = (switchkvm (upd_slot p f s))\<lparr>cur := None\<rparr>"
    using t f(1) x(2) by (simp add: ProcB.sched_def split: if_splits)
  have v: "ust t = (ust s)(p := x)" "upid t = upid s" "upar t = upar s" "on_cpu t = (on_cpu s)(0 := None)"
    "nextp t = nextp s" "initp t = initp s" "cur t = None" "spos t = spos s"
    using f by (auto simp: t_eq switchkvm_def on_cpu_def fun_eq_iff)
  have run: "on_cpu s 0 = Some p" "p < NPROC" "ust s p = RUNNING"
    using s pinv_cur [OF s] by (simp_all add: on_cpu_def)
  have "pinv F t"
  proof (rule pinvI)
    show "run_inv NPROC (ust t) (on_cpu t)" unfolding v by (rule run_inv_release [OF pinvD(1) [OF s(1)] run(1) x(2)])
    show "pid_inv NPROC (ust t) (upid t) (nextp t)" if F
      unfolding v by (rule pid_inv_cong [OF pinvD(2) [OF s(1) that]]) (use run in \<open>auto split: if_splits\<close>)
    show "tree_inv NPROC (ust t) (upar t) (initp t)"
      unfolding v by (rule tree_inv_alive [OF pinvD(3) [OF s(1)]]) (use run x in simp_all)
    show "uslot_ok (ptab t q)" if "q < NPROC" for q
      using pinvD(4) [OF s(1) that] ok by (simp add: t_eq switchkvm_def)
    show "spos t < NPROC" unfolding v by (rule pinvD(6) [OF s(1)])
  qed (simp add: v)
  with v x show ?thesis by (simp add: follows_def)
qed

lemma running_ok: "pinv F s \<Longrightarrow> cur s = Some p \<Longrightarrow> uslot_ok (ptab s p) \<and> u_state (ptab s p) = RUNNING"
  using pinv_cur [of F s p] pinvD(4) [of F s p] by (simp add: ust_def)

lemma yield_follows: "pinv F s \<Longrightarrow> cur s = Some p \<Longrightarrow> yield p s = Some t \<Longrightarrow> follows F p s t \<and> cur t = None"
  unfolding ProcB.yield_def
  by (rule sched_follows [where x = RUNNABLE]) (use running_ok [of F s p] in \<open>auto simp: views_same uslot_ok_def\<close>)

lemma sleep_follows: "pinv F s \<Longrightarrow> cur s = Some p \<Longrightarrow> sleep p ch k s = Some t \<Longrightarrow> follows F p s t \<and> cur t = None"
  unfolding ProcB.sleep_def
  by (rule sched_follows [where x = SLEEPING]) (use running_ok [of F s p] in \<open>auto simp: views_same uslot_ok_def\<close>)

lemma slept_follows: "pinv F s \<Longrightarrow> cur s = Some p \<Longrightarrow> follows F p s (slept p s) \<and> cur (slept p s) = Some p"
  unfolding slept_def
  by (rule follows_same) (use running_ok [of F s p] in \<open>auto simp: views_same uslot_ok_def\<close>)

lemma kill_follows:
  assumes s: "pinv F s" "cur s = Some p" and k: "kill pid s = (r, t)"
  shows "follows F p s t \<and> cur t = Some p"
proof (cases "find (\<lambda>p. u_pid (ptab s p) = pid) [0..<NPROC]")
  case None
  with k have "t = s" by (simp add: ProcB.kill_def)
  with s show ?thesis by (simp add: follows_refl)
next
  case (Some q)
  let ?f = "\<lambda>x. x\<lparr>u_killed := True\<rparr>"
  have t_eq: "t = upd_slot q (\<lambda>x. x\<lparr>u_killed := True, u_state := (if u_state x = SLEEPING then RUNNABLE else u_state x)\<rparr>) s"
    using k Some by (simp add: ProcB.kill_def)
  have f: "follows F p s (upd_slot q ?f s)"
  proof (rule followsI)
    show "pinv F (upd_slot q ?f s)" by (rule pinv_same [OF s(1)]) (simp_all add: views_same)
  qed (use s in \<open>auto simp: ust_def\<close>)
  have "q < NPROC" using find_SomeD [OF Some] by simp
  then have w: "woken (upd_slot q ?f s) t" by (auto simp: t_eq woken_def)
  have "pinv F (upd_slot q ?f s)" by (rule follows_pinv [OF f])
  from follows_woken [OF w this] s show ?thesis by (auto intro: follows_trans [OF f])
qed

section \<open>Creating and reaping\<close>

text \<open>A slot that is neither running nor a live parent takes new contents.\<close>

lemma pinv_slot:
  assumes s: "pinv F s" and q: "q < NPROC" "\<not> alive (ust s q)"
    and f: "u_state (f (ptab s q)) = x" "x \<noteq> RUNNING" "u_pid (f (ptab s q)) = pd" "u_parent (f (ptab s q)) = po"
    and ok: "uslot_ok (f (ptab s q))"
    and pd: "F \<Longrightarrow> x = UNUSED \<and> pd < nextp s \<or> pd = upid s q \<and> ust s q \<noteq> UNUSED"
    and po: "if x = UNUSED \<or> x = EMBRYO then po = None
             else \<exists>p < NPROC. po = Some p \<and> p \<noteq> q \<and> alive (ust s p)"
  shows "pinv F (upd_slot q f s)"
proof -
  have ip: "Some q \<noteq> initp s" using pinvD(3) [OF s] q(2) by (auto simp: tree_inv_def)
  have nc: "cur s \<noteq> Some q" using q(2) pinv_cur [OF s, of q] by auto
  have nr: "ust s q \<noteq> RUNNING" using q(2) by auto
  have v: "ust (upd_slot q f s) = (ust s)(q := x)" "upid (upd_slot q f s) = (upid s)(q := pd)"
    "upar (upd_slot q f s) = (upar s)(q := po)"
    using f by simp_all
  show ?thesis
  proof (rule pinvI)
    show "run_inv NPROC (ust (upd_slot q f s)) (on_cpu (upd_slot q f s))"
      unfolding v(1) using run_inv_quiet [OF pinvD(1) [OF s] nr f(2)] by simp
    show "pid_inv NPROC (ust (upd_slot q f s)) (upid (upd_slot q f s)) (nextp (upd_slot q f s))" if F
      using pd [OF that]
    proof
      assume "x = UNUSED \<and> pd < nextp s"
      then show ?thesis unfolding v using pid_inv_free [OF pinvD(2) [OF s that]] by simp
    next
      assume e: "pd = upid s q \<and> ust s q \<noteq> UNUSED"
      have "pid_inv NPROC ((ust s)(q := x)) (upid s) (nextp s)"
        by (rule pid_inv_cong [OF pinvD(2) [OF s that]]) (use e in \<open>simp_all split: if_splits\<close>)
      then show ?thesis unfolding v using e by (simp add: fun_upd_idem)
    qed
    show "tree_inv NPROC (ust (upd_slot q f s)) (upar (upd_slot q f s)) (initp (upd_slot q f s))"
      unfolding v using tree_inv_slot [OF pinvD(3) [OF s] q(1) ip q(2) po] by simp
    show "uslot_ok (ptab (upd_slot q f s) p)" if "p < NPROC" for p
      using pinvD(4) [OF s that] ok by simp
    show "cr3 (upd_slot q f s) = V2P (u_pgdir (ptab (upd_slot q f s) p))" if "cur (upd_slot q f s) = Some p" for p
      using pinvD(5) [OF s, of p] nc that by auto
    show "spos (upd_slot q f s) < NPROC" using pinvD(6) [OF s] by simp
  qed
qed

text \<open>
  What \<open>allocproc\<close> did, for its callers. The next pid is a C \<open>int\<close> that nothing tests: where pids are to stay
  unique (the flag), the increment must not wrap around.
\<close>

lemma allocproc_ok:
  assumes s: "pinv F s" and room: "F \<Longrightarrow> nextp s < INT_MAX" and a: "allocproc s = Some (r, t)"
  shows "pinv F t \<and> cur t = cur s \<and> spos t = spos s \<and> initp t = initp s \<and>
    (\<forall>q. ust s q \<noteq> UNUSED \<longrightarrow> ptab t q = ptab s q) \<and>
    (\<forall>q. r = Some q \<longrightarrow> q < NPROC \<and> ust s q = UNUSED \<and> ust t q = EMBRYO)"
proof (cases "find (\<lambda>p. u_state (ptab s p) = UNUSED) [0..<NPROC]")
  case None
  with a s show ?thesis by (auto simp: ProcB.allocproc_def)
next
  case (Some q)
  then have q: "q < NPROC" "u_state (ptab s q) = UNUSED" using find_SomeD [OF Some] by simp_all
  from a Some obtain k c where kc: "kalloc (mach s) = Some (k, c)" by (auto simp: ProcB.allocproc_def bind_eq_Some Let_def)
  have k: "t = upd_slot q (\<lambda>x. x\<lparr>u_state := (if k = 0 then UNUSED else EMBRYO), u_pid := nextp s,
      u_kstack := k, u_cont := (if k = 0 then u_cont x else KForkret)\<rparr>) (s\<lparr>nextp := wrap32 (nextp s + 1), mach := c\<rparr>)"
    and r: "r = (if k = 0 then None else Some q)"
    using a unfolding ProcB.allocproc_def Some
    by (auto simp: kc Let_def upd_slot_twice upd_slot_mach split: if_splits intro!: upd_slot_cong)
  have par: "upar s q = None" using pinvD(3) [OF s] q by (auto simp: tree_inv_def ust_def split: if_splits)
  have v: "ust t = (ust s)(q := if k = 0 then UNUSED else EMBRYO)" "upid t = (upid s)(q := nextp s)" "upar t = upar s"
    "on_cpu t = on_cpu s" "nextp t = wrap32 (nextp s + 1)" "initp t = initp s" "cur t = cur s" "cr3 t = cr3 s" "spos t = spos s"
    using q par by (auto simp: k fun_eq_iff upar_def on_cpu_def)
  have "pinv F t"
  proof (rule pinvI)
    show "run_inv NPROC (ust t) (on_cpu t)" unfolding v
      by (rule run_inv_quiet [OF pinvD(1) [OF s]]) (use q in \<open>auto simp: ust_def\<close>)
    show "pid_inv NPROC (ust t) (upid t) (nextp t)" if F unfolding v by (rule pid_inv_fresh [OF pinvD(2) [OF s that] room [OF that]])
    show "tree_inv NPROC (ust t) (upar t) (initp t)" unfolding v
      by (rule tree_inv_cong [OF pinvD(3) [OF s]]) (use q in \<open>auto simp: ust_def\<close>)
    show "uslot_ok (ptab t p)" if "p < NPROC" for p
      using pinvD(4) [OF s that] q by (cases "p = q") (simp add: k uslot_ok_def no_files_def, simp add: k)
    show "cr3 t = V2P (u_pgdir (ptab t p))" if "cur t = Some p" for p
      using pinvD(5) [OF s, of p] that by (simp add: v k)
    show "spos t < NPROC" unfolding v by (rule pinvD(6) [OF s])
  qed
  moreover have "ptab t p = ptab s p" if "ust s p \<noteq> UNUSED" for p
    using that q by (auto simp: k ust_def)
  ultimately show ?thesis using q r v by (auto simp: ust_def)
qed

lemma put_mach_frame [simp]:
  "cur (put_mach c s) = cur s" "spos (put_mach c s) = spos s" "initp (put_mach c s) = initp s"
  "nextp (put_mach c s) = nextp s" "cr3 (put_mach c s) = cr3 s"
  "upid (put_mach c s) = upid s" "upar (put_mach c s) = upar s"
  using woken_frame [OF woken_put_mach [of s c]] woken_views(1,2) [OF woken_put_mach [of s c]] by simp_all

lemma put_mach_slot: "ust s p \<noteq> SLEEPING \<Longrightarrow> ptab (put_mach c s) p = ptab s p"
  by (rule woken_slot [OF woken_put_mach [of s c], of p]) (simp_all add: ust_def)

lemma put_mach_ust: "ust s p \<noteq> SLEEPING \<Longrightarrow> ust (put_mach c s) p = ust s p"
  using put_mach_slot [of s p c] by (simp add: ust_def)

lemma slot_follows:
  assumes s: "pinv F s" "cur s = Some p" and q: "ust s q \<noteq> RUNNABLE"
    and t: "pinv F (upd_slot q f s)"
  shows "follows F p s (upd_slot q f s) \<and> cur (upd_slot q f s) = Some p"
  using assms by (auto simp: follows_def)

lemma fork_follows:
  assumes s: "pinv F s" "cur s = Some p" and room: "F \<Longrightarrow> nextp s < INT_MAX" and f: "fork D img p s = Some (r, t)"
  shows "follows F p s t \<and> cur t = Some p"
proof -
  from f obtain a s1 where a: "allocproc s = Some (a, s1)" by (auto simp: ProcB.fork_def bind_eq_Some)
  note al = allocproc_ok [OF s(1) room a]
  have p: "p < NPROC" "ust s p = RUNNING" using pinv_cur [OF s] by simp_all
  then have s1: "pinv F s1" "cur s1 = Some p" "ptab s1 p = ptab s p" using al s by simp_all
  have f1: "follows F p s s1"
  proof (rule followsI)
    show "ust s1 q = RUNNABLE" if "ust s q = RUNNABLE" for q
      using al that by (simp add: ust_def)
  qed (use al s in simp_all)
  show ?thesis
  proof (cases a)
    case None
    with f a f1 s1 show ?thesis by (simp add: ProcB.fork_def)
  next
    case (Some np)
    with al have np: "np < NPROC" "ust s1 np = EMBRYO" and ne: "np \<noteq> p" using p by auto
    have par: "upar s1 np = None" using pinvD(3) [OF s1(1)] np by (auto simp: tree_inv_def split: if_splits)
    have emb: "uslot_ok (ptab s1 np)" "u_state (ptab s1 np) = EMBRYO" using pinvD(4) [OF s1(1) np(1)] np(2) by (simp_all add: ust_def)
    have run: "uslot_ok (ptab s1 p)" using running_ok [OF s1(1,2)] by simp
    have st1: "ust s1 p = RUNNING" using p s1(3) by (simp add: ust_def)
    have put: "pinv F (put_mach c s1)" "cur (put_mach c s1) = Some p" "follows F p s1 (put_mach c s1)"
      "ptab (put_mach c s1) np = ptab s1 np" "ust (put_mach c s1) np = EMBRYO" "ust (put_mach c s1) p = RUNNING" for c
      using follows_put [OF s1(1,2), of c] np put_mach_slot [of s1 np c] put_mach_ust [of s1 np c]
        put_mach_ust [of s1 p c] st1 by (auto dest: follows_pinv)
    have upd: "follows F p s (upd_slot np g (put_mach c s1)) \<and> cur (upd_slot np g (put_mach c s1)) = Some p"
      if "pinv F (upd_slot np g (put_mach c s1))" for g c
      using slot_follows [OF put(1,2) _ that] put(5) follows_trans [OF f1 follows_trans [OF put(3) [of c]]] by simp
    have gone: "pinv F (upd_slot np (\<lambda>y. y\<lparr>u_pgdir := 0, u_kstack := 0, u_state := UNUSED\<rparr>) (put_mach c s1))" for c
      by (rule pinv_slot [where x = UNUSED and po = None and pd = "upid s1 np", OF put(1) np(1)])
         (use put emb par np in \<open>auto simp: uslot_ok_def no_files_def views_same\<close>)
    have born: "pinv F (upd_slot np (\<lambda>y. y\<lparr>u_pgdir := d, u_sz := u_sz (ptab s1 p), u_parent := Some p, u_tf := tf, u_ofile := ofs,
        u_cwd := Some cw, u_name := nm, u_state := RUNNABLE\<rparr>) (put_mach c s1))" if "d \<noteq> 0" for d tf ofs cw nm c
    proof (rule pinv_slot [where x = RUNNABLE and po = "Some p" and pd = "upid s1 np", OF put(1) np(1)])
      show "if RUNNABLE = UNUSED \<or> RUNNABLE = EMBRYO then Some p = None
        else \<exists>q < NPROC. Some p = Some q \<and> q \<noteq> np \<and> alive (ust (put_mach c s1) q)"
        using put(6) p ne by auto
      have "u_sz (ptab s1 p) \<le> KERNBASE" using run st1 by (simp add: uslot_ok_def ust_def)
      then show "uslot_ok ((\<lambda>y. y\<lparr>u_pgdir := d, u_sz := u_sz (ptab s1 p), u_parent := Some p, u_tf := tf, u_ofile := ofs,
        u_cwd := Some cw, u_name := nm, u_state := RUNNABLE\<rparr>) (ptab (put_mach c s1) np))"
        using emb that by (simp add: uslot_ok_def put)
    qed (use put emb np in \<open>auto simp: views_same\<close>)
    from f a Some obtain d c1 where d: "copyuvm D (u_pid (ptab s1 p)) (cwd_of (ptab s1 p)) img (u_pgdir (ptab s1 p))
        (u_sz (ptab s1 p)) (mach s1) = Some (d, c1)"
      by (auto simp: ProcB.fork_def bind_eq_Some Let_def)
    show ?thesis
    proof (cases "d = 0")
      case True
      with f a Some d obtain c where
        "t = upd_slot np (\<lambda>y. y\<lparr>u_pgdir := 0, u_kstack := 0, u_state := UNUSED\<rparr>) (put_mach c s1)"
        by (auto simp: ProcB.fork_def Let_def bind_eq_Some)
      with upd [OF gone] show ?thesis by simp
    next
      case False
      with f a Some d obtain c tf ofs cw nm where
        "t = upd_slot np (\<lambda>y. y\<lparr>u_pgdir := d, u_sz := u_sz (ptab s1 p), u_parent := Some p, u_tf := tf, u_ofile := ofs,
          u_cwd := Some cw, u_name := nm, u_state := RUNNABLE\<rparr>) (put_mach c s1)"
        by (auto simp: ProcB.fork_def Let_def bind_eq_Some)
      with upd [OF born [OF False]] show ?thesis by simp
    qed
  qed
qed

text \<open>The scan of \<open>wait\<close> finds a zombie child, if there is one.\<close>

lemma wait_scan_Some:
  "wait_scan p tab qs h = (Some q, k) \<Longrightarrow> q \<in> set qs \<and> u_parent (tab q) = Some p \<and> u_state (tab q) = ZOMBIE"
  by (induction qs arbitrary: h) (auto split: if_splits)

definition call_ok :: "bool \<Rightarrow> nat \<Rightarrow> psys \<Rightarrow> kres \<times> psys \<Rightarrow> bool" where
  "call_ok F p s rs \<longleftrightarrow> follows F p s (snd rs) \<and> cur (snd rs) = (case fst rs of Ret r \<Rightarrow> Some p | Away \<Rightarrow> None)"

lemma call_ok_Ret [simp]: "call_ok F p s (Ret r, t) \<longleftrightarrow> follows F p s t \<and> cur t = Some p"
  by (simp add: call_ok_def)

lemma call_ok_Away [simp]: "call_ok F p s (Away, t) \<longleftrightarrow> follows F p s t \<and> cur t = None"
  by (simp add: call_ok_def)

lemma call_ok_trans: "follows F p s t \<Longrightarrow> call_ok F p t rs \<Longrightarrow> call_ok F p s rs"
  by (cases rs; cases "fst rs") (auto simp: call_ok_def intro: follows_trans)

lemma wait_ok:
  assumes s: "pinv F s" "cur s = Some p" and w: "wait p s = Some rs"
  shows "call_ok F p s rs"
proof -
  obtain z h where z: "wait_scan p (ptab s) [0..<NPROC] False = (z, h)" by (rule prod.exhaust)
  show ?thesis
  proof (cases z)
    case None
    show ?thesis
    proof (cases "\<not> h \<or> u_killed (ptab s p)")
      case True
      with w z None s show ?thesis by (auto simp: ProcB.wait_def follows_refl)
    next
      case False
      with w z None obtain t where "sleep p (UProc p) KWait s = Some t" "rs = (Away, t)"
        by (auto simp: ProcB.wait_def bind_eq_Some)
      with sleep_follows [OF s] show ?thesis by simp
    qed
  next
    case (Some q)
    with wait_scan_Some [of p "ptab s" "[0..<NPROC]" False q h] z
    have q: "q < NPROC" "u_state (ptab s q) = ZOMBIE" by simp_all
    define f where "f = (\<lambda>y :: uproc. y\<lparr>u_kstack := 0, u_pgdir := 0, u_pid := 0, u_parent := None, u_name := [],
            u_killed := False, u_state := UNUSED\<rparr>)"
    from w z Some obtain c1 c2 where rs: "rs = (Ret (u_pid (ptab s q)), put_mach c2 (upd_slot q f (put_mach c1 s)))"
      by (auto simp: ProcB.wait_def bind_eq_Some Let_def f_def)
    note put = follows_put [OF s, of c1]
    have pq: "ptab (put_mach c1 s) q = ptab s q" using put_mach_slot [of s q c1] q by (simp add: ust_def)
    have np: "F \<Longrightarrow> 0 < nextp s" using pinvD(2) [OF s(1)] by (simp add: pid_inv_def)
    have "pinv F (upd_slot q f (put_mach c1 s))"
      by (rule pinv_slot [where x = UNUSED and po = None and pd = 0])
         (use put pq q np pinvD(4) [OF s(1) q(1)] in \<open>auto simp: f_def follows_def ust_def uslot_ok_def no_files_def\<close>)
    then have u: "follows F p s (upd_slot q f (put_mach c1 s)) \<and> cur (upd_slot q f (put_mach c1 s)) = Some p"
      using slot_follows [of F "put_mach c1 s" p q f] put pq q by (auto simp: ust_def dest: follows_pinv intro: follows_trans)
    have "follows F p (upd_slot q f (put_mach c1 s)) (put_mach c2 (upd_slot q f (put_mach c1 s)))"
      using follows_put [of F "upd_slot q f (put_mach c1 s)" p c2] u by (auto dest: follows_pinv)
    with u show ?thesis by (auto simp: rs intro: follows_trans)
  qed
qed

section \<open>Exit\<close>

text \<open>What the reparenting loop does to the slots it visits.\<close>

lemma reparent_ok:
  assumes "pinvx F X s" "set qs \<subseteq> {..<NPROC}" "initp s \<noteq> Some p"
  shows "pinvx F X (reparent p qs s) \<and> cur (reparent p qs s) = cur s \<and> spos (reparent p qs s) = spos s \<and>
    initp (reparent p qs s) = initp s \<and>
    (\<forall>q < NPROC. upar (reparent p qs s) q = (if upar s q = Some p \<and> q \<in> set qs then initp s else upar s q)) \<and>
    (\<forall>q. ust s q \<noteq> SLEEPING \<longrightarrow> ptab (reparent p qs s) q = (ptab s q)\<lparr>u_parent := upar (reparent p qs s) q\<rparr>)"
  using assms
proof (induction qs arbitrary: s)
  case Nil
  then show ?case by (simp add: upar_def)
next
  case (Cons r qs)
  show ?case
  proof (cases "upar s r = Some p")
    case False
    with Cons.IH [of s] Cons.prems show ?thesis by (auto simp: views_same)
  next
    case True
    let ?s1 = "upd_slot r (\<lambda>x. x\<lparr>u_parent := initp s\<rparr>) s"
    define s2 where "s2 = (if u_state (ptab ?s1 r) = ZOMBIE then wakeup1 (map_option UProc (initp ?s1)) ?s1 else ?s1)"
    have r: "r < NPROC" using Cons.prems(2) by simp
    have "pinvx F X ?s1"
    proof (rule pinvxI)
      show "tree_inv NPROC (ust ?s1) (upar ?s1) (initp ?s1)"
        using tree_inv_reparent [OF pinvxD(3) [OF Cons.prems(1)] r] True by (simp add: views_same fun_upd_idem)
      show "uslot_ok (ptab ?s1 q)" if "q < NPROC" "q \<notin> X" for q
        using pinvxD(4) [OF Cons.prems(1) that] by (cases "q = r") simp_all
      show "cr3 ?s1 = V2P (u_pgdir (ptab ?s1 q))" if "cur ?s1 = Some q" for q
        using pinvxD(5) [OF Cons.prems(1), of q] that by auto
    qed (use pinvxD(1,2,6) [OF Cons.prems(1)] in \<open>simp_all add: views_same\<close>)
    moreover have w: "woken ?s1 s2" by (simp add: s2_def woken_wakeup1) (simp add: woken_def)
    ultimately have k2: "pinvx F X s2" by (intro pinv_woken [OF w])
    note fr = woken_frame [OF w] and v = woken_views [OF w]
    have ih: "pinvx F X (reparent p qs s2) \<and> cur (reparent p qs s2) = cur s2 \<and> spos (reparent p qs s2) = spos s2 \<and>
      initp (reparent p qs s2) = initp s2 \<and>
      (\<forall>q < NPROC. upar (reparent p qs s2) q = (if upar s2 q = Some p \<and> q \<in> set qs then initp s2 else upar s2 q)) \<and>
      (\<forall>q. ust s2 q \<noteq> SLEEPING \<longrightarrow> ptab (reparent p qs s2) q = (ptab s2 q)\<lparr>u_parent := upar (reparent p qs s2) q\<rparr>)"
      by (rule Cons.IH [OF k2]) (use Cons.prems fr in auto)
    have step: "reparent p (r # qs) s = reparent p qs s2"
      using True by (simp add: s2_def Let_def views_same)
    have awake: "ptab s2 q = ptab ?s1 q \<and> ust s2 q \<noteq> SLEEPING" if "ust s q \<noteq> SLEEPING" for q
      by (rule woken_slot [OF w, of q]) (use that in \<open>auto simp: ust_def split: if_splits\<close>)
    have "ptab (reparent p qs s2) q = (ptab s q)\<lparr>u_parent := upar (reparent p qs s2) q\<rparr>" if "ust s q \<noteq> SLEEPING" for q
      using ih awake [OF that] by simp
    with ih fr v(2) True Cons.prems(3) show ?thesis unfolding step by auto
  qed
qed

lemma exit_follows:
  assumes s: "pinv F s" "cur s = Some p" and e: "exit p s = Some t"
  shows "follows F p s t \<and> cur t = None"
proof -
  define f1 where "f1 = (\<lambda>y :: uproc. y\<lparr>u_ofile := (\<lambda>fd. if fd < NOFILE then None else u_ofile y fd), u_cwd := None\<rparr>)"
  from e obtain c s1 s2 s3 where ip: "initp s \<noteq> Some p"
    and s1: "s1 = upd_slot p f1 (put_mach c s)" and s2: "s2 = wakeup1 (map_option UProc (u_parent (ptab s1 p))) s1"
    and s3: "s3 = reparent p [0..<NPROC] s2" and t: "sched p (upd_slot p (\<lambda>y. y\<lparr>u_state := ZOMBIE\<rparr>) s3) = Some t"
    by (auto simp: ProcB.exit_def bind_eq_Some Let_def f1_def split: if_splits)
  have p: "p < NPROC" "u_state (ptab s p) = RUNNING" "uslot_ok (ptab s p)"
    using pinv_cur [OF s] running_ok [OF s] by simp_all
  note put = follows_put [OF s, of c]
  have pp: "ptab (put_mach c s) p = ptab s p" by (rule put_mach_slot) (simp add: ust_def p)
  have "pinvx F {p} s1"
  proof (rule pinvxI)
    note i = pinvD [OF follows_pinv [OF conjunct1 [OF put]]]
    show "uslot_ok (ptab s1 q)" if "q < NPROC" "q \<notin> {p}" for q using i(4) [OF that(1)] that by (simp add: s1)
    show "cr3 s1 = V2P (u_pgdir (ptab s1 q))" if "cur s1 = Some q" for q
      using i(5) [of q] that by (auto simp: s1 f1_def)
  qed (use pinvD [OF follows_pinv [OF conjunct1 [OF put]]] in \<open>simp_all add: s1 f1_def views_same fun_upd_idem\<close>)
  moreover have w: "woken s1 s2" unfolding s2 by (rule woken_wakeup1)
  ultimately have i2: "pinvx F {p} s2" by (intro pinv_woken [OF w])
  have st1: "u_state (ptab s1 p) = RUNNING" by (simp add: s1 f1_def pp p)
  have p2: "ptab s2 p = ptab s1 p" by (rule woken_slot [OF w, of p]) (use st1 in simp_all)
  have f2: "cur s2 = Some p" "initp s2 = initp s" "spos s2 = spos s" using woken_frame [OF w] s(2) by (simp_all add: s1)
  have "ust s2 q = RUNNABLE" if "ust s q = RUNNABLE" for q
    using woken_views(4) [OF w, of q] put_mach_ust [of s q c] that by (auto simp: s1 f1_def ust_def)
  moreover have i3: "pinvx F {p} s3" and f3: "cur s3 = Some p" "initp s3 = initp s" "spos s3 = spos s"
    and par3: "\<And>q. q < NPROC \<Longrightarrow> upar s3 q \<noteq> Some p"
    and same: "\<And>q. ust s2 q \<noteq> SLEEPING \<Longrightarrow> ptab s3 q = (ptab s2 q)\<lparr>u_parent := upar s3 q\<rparr>"
    using reparent_ok [OF i2, of "[0..<NPROC]" p] f2 ip by (auto simp: s3 atLeast0LessThan split: if_splits)
  ultimately have keep: "ust s3 q = RUNNABLE" if "ust s q = RUNNABLE" for q
    using same [of q] that by (simp add: ust_def)
  have p3: "ptab s3 p = (f1 (ptab s p))\<lparr>u_parent := upar s3 p\<rparr>" using same [of p] p2 st1 by (simp add: ust_def s1 pp)
  have t_eq: "t = (switchkvm (upd_slot p (\<lambda>y. y\<lparr>u_state := ZOMBIE\<rparr>) s3))\<lparr>cur := None\<rparr>"
    using t by (simp add: ProcB.sched_def)
  have v: "ust t = (ust s3)(p := ZOMBIE)" "upid t = upid s3" "upar t = upar s3" "on_cpu t = (on_cpu s3)(0 := None)"
    "nextp t = nextp s3" "initp t = initp s3" "cur t = None" "spos t = spos s3"
    by (auto simp: t_eq switchkvm_def on_cpu_def fun_eq_iff views_same)
  have st3: "ust s3 p = RUNNING" using p3 p by (simp add: ust_def f1_def)
  have "pinv F t"
  proof (rule pinvI)
    show "run_inv NPROC (ust t) (on_cpu t)"
      unfolding v by (rule run_inv_release [OF pinvxD(1) [OF i3]]) (simp_all add: on_cpu_def f3)
    show "pid_inv NPROC (ust t) (upid t) (nextp t)" if F
      unfolding v by (rule pid_inv_cong [OF pinvxD(2) [OF i3 that]]) (use st3 in \<open>auto split: if_splits\<close>)
    show "tree_inv NPROC (ust t) (upar t) (initp t)"
      unfolding v by (rule tree_inv_die [OF pinvxD(3) [OF i3]]) (use st3 f3 ip p par3 in auto)
    show "uslot_ok (ptab t q)" if "q < NPROC" for q
    proof (cases "q = p")
      case True
      with p show ?thesis by (simp add: t_eq switchkvm_def p3 f1_def uslot_ok_def no_files_def)
    next
      case False
      with pinvxD(4) [OF i3 that] show ?thesis by (simp add: t_eq switchkvm_def)
    qed
    show "spos t < NPROC" unfolding v by (rule pinvxD(6) [OF i3])
  qed (simp add: v)
  with v f3 keep show ?thesis by (auto simp: follows_def)
qed

section \<open>System calls\<close>

lemma Ret_same: "pinv F s \<Longrightarrow> cur s = Some p \<Longrightarrow> call_ok F p s (Ret r, s)"
  by (simp add: follows_refl)

text \<open>The size stays in the user half: \<open>n\<close> is not negative and the sum does not wrap around.\<close>

lemma growproc_follows:
  assumes s: "pinv F s" "cur s = Some p" and g: "growproc p n s = (r, t)"
  shows "follows F p s t \<and> cur t = Some p"
proof (cases "sint n < 0 \<or> n > KERNBASE \<or> u_sz (ptab s p) + n > KERNBASE")
  case True
  with g s show ?thesis by (auto simp: ProcB.growproc_def follows_refl)
next
  case False
  then have "u_sz (ptab s p) + n \<le> KERNBASE" by (simp add: not_less)
  with False g show ?thesis
    using follows_same [OF s, of "\<lambda>x. x\<lparr>u_sz := u_sz x + n\<rparr>"] running_ok [OF s]
    by (auto simp: ProcB.growproc_def views_same uslot_ok_def)
qed

lemma save_cur_follows:
  assumes s: "pinv F s" "cur s = Some p" and c: "save_cur p c s = Some t"
  shows "follows F p s t \<and> cur t = Some p"
proof -
  from c obtain c1 where t: "t = upd_slot p (\<lambda>x. x\<lparr>u_ofile := ofiles c, u_cwd := Some (cwd c)\<rparr>) (put_mach c1 s)"
    by (auto simp: save_cur_def bind_eq_Some)
  note put = follows_put [OF s, of c1]
  have "follows F p (put_mach c1 s) t \<and> cur t = Some p"
    unfolding t by (rule follows_same)
      (use put running_ok [of F "put_mach c1 s" p] in \<open>auto simp: views_same uslot_ok_def dest: follows_pinv\<close>)
  with put show ?thesis by (auto intro: follows_trans)
qed

lemma file_call_ok:
  assumes s: "pinv F s" "cur s = Some p" and f: "file_call f p s = Some rs"
  shows "call_ok F p s rs"
  using f save_cur_follows [OF s] by (auto simp: file_call_def bind_eq_Some)

lemma sleep_call_ok:
  assumes s: "pinv F s" "cur s = Some p" and c: "save_cur p c s = Some s1" and t: "sleep p ch k s1 = Some t"
  shows "call_ok F p s (Away, t)"
proof -
  have 1: "follows F p s s1 \<and> cur s1 = Some p" by (rule save_cur_follows [OF s c])
  then have "follows F p s1 t \<and> cur t = None" by (intro sleep_follows [OF _ _ t]) (auto dest: follows_pinv)
  with 1 show ?thesis by (auto intro: follows_trans)
qed

lemma read_call_ok:
  assumes s: "pinv F s" "cur s = Some p" and f: "read_call D p s = Some rs"
  shows "call_ok F p s rs"
proof -
  from f obtain r c s1 where r: "sys_read D (load_cur p s) = Some (r, c)" and c: "save_cur p c s = Some s1"
    by (auto simp: read_call_def bind_eq_Some)
  show ?thesis
  proof (cases r)
    case (PReturn n)
    with f r c have "rs = (Ret n, s1)" by (simp add: read_call_def)
    with save_cur_follows [OF s c] show ?thesis by simp
  next
    case (PSleep j)
    with f r c obtain ch k t where "sleep p ch k s1 = Some t" "rs = (Away, t)" by (auto simp: read_call_def bind_eq_Some)
    with sleep_call_ok [OF s c] show ?thesis by simp
  qed
qed

lemma write_call_ok:
  assumes s: "pinv F s" "cur s = Some p" and f: "write_call D i p s = Some rs"
  shows "call_ok F p s rs"
proof -
  from f obtain r c s1 where r: "sys_write D i (load_cur p s) = Some (r, c)" and c: "save_cur p c s = Some s1"
    by (auto simp: write_call_def bind_eq_Some)
  show ?thesis
  proof (cases r)
    case (PReturn n)
    with f r c have "rs = (Ret n, s1)" by (simp add: write_call_def)
    with save_cur_follows [OF s c] show ?thesis by simp
  next
    case (PSleep j)
    with f r c obtain ch k t where "sleep p ch k s1 = Some t" "rs = (Away, t)" by (auto simp: write_call_def bind_eq_Some)
    with sleep_call_ok [OF s c] show ?thesis by simp
  qed
qed

lemma pinv_switch:
  assumes "run_inv NPROC (ust s) (on_cpu s)" "F \<Longrightarrow> pid_inv NPROC (ust s) (upid s) (nextp s)"
    "tree_inv NPROC (ust s) (upar s) (initp s)" "\<And>q. q < NPROC \<Longrightarrow> uslot_ok (ptab s q)" "spos s < NPROC"
    "cur s = Some p" "switchuvm p s = Some t"
  shows "pinv F t"
  using assms by (auto simp: switchuvm_def on_cpu_def fun_eq_iff cong: if_cong split: if_splits intro!: pinvI)

lemma exec_call_ok:
  assumes s: "pinv F s" "cur s = Some p" and e: "exec_call D p s = Some rs"
  shows "call_ok F p s rs"
proof -
  from e obtain r c where x: "sys_exec D (load_cur p s) = Some (r, c)" by (auto simp: exec_call_def bind_eq_Some)
  note put = follows_put [OF s, of c]
  show ?thesis
  proof (cases "r < 0")
    case True
    with e x put show ?thesis by (auto simp: exec_call_def)
  next
    case False
    then have im: "pgdir c \<noteq> 0" "psz c \<le> KERNBASE" using sys_exec_result [OF x] by auto
    define g where "g = (\<lambda>x :: uproc. x\<lparr>u_sz := psz c, u_pgdir := pgdir c, u_name := pname c,
         u_tf := (u_tf x)\<lparr>trapframe.tf_esp := ksys.tf_esp c, trapframe.tf_eip := ksys.tf_eip c\<rparr>\<rparr>)"
    from e x False obtain t where t: "switchuvm p (upd_slot p g (put_mach c s)) = Some t" and rs: "rs = (Ret r, t)"
      by (auto simp: exec_call_def bind_eq_Some Let_def g_def)
    have i: "pinv F (put_mach c s)" "cur (put_mach c s) = Some p" using put by (auto dest: follows_pinv)
    have "uslot_ok (g (ptab (put_mach c s) p))"
      using running_ok [OF i] im by (auto simp: g_def uslot_ok_def)
    then have ok: "uslot_ok (ptab (upd_slot p g (put_mach c s)) q)" if "q < NPROC" for q
      using pinvD(4) [OF i(1) that] by (cases "q = p") simp_all
    have "pinv F t"
      by (rule pinv_switch [OF _ _ _ ok _ _ t]) (use pinvD [OF i(1)] i(2) in \<open>simp_all add: g_def views_same fun_upd_idem\<close>)
    moreover have "cur t = Some p" "spos t = spos s" "ust t = ust (put_mach c s)"
      using t i(2) by (auto simp: switchuvm_def views_same g_def fun_upd_idem split: if_splits)
    ultimately show ?thesis using put by (simp add: rs follows_def)
  qed
qed

lemma sleep_loop_ok:
  assumes s: "pinv F s" "cur s = Some p" and l: "sleep_loop p t0 n s = Some rs"
  shows "call_ok F p s rs"
  using l sleep_follows [OF s] by (auto simp: sleep_loop_def bind_eq_Some follows_refl [OF s] s(2) split: if_splits)

lemma kill_call_ok:
  assumes s: "pinv F s" "cur s = Some p" and l: "sys_kill p s = Some rs"
  shows "call_ok F p s rs"
  using l kill_follows [OF s] by (auto simp: sys_kill_def follows_refl [OF s] s(2) split: option.splits prod.splits)

lemma sbrk_call_ok:
  assumes s: "pinv F s" "cur s = Some p" and l: "sys_sbrk p s = Some rs"
  shows "call_ok F p s rs"
  using l growproc_follows [OF s] by (auto simp: sys_sbrk_def follows_refl [OF s] s(2) split: option.splits prod.splits if_splits)

lemma sleep_sys_ok:
  assumes s: "pinv F s" "cur s = Some p" and l: "sys_sleep p s = Some rs"
  shows "call_ok F p s rs"
  using l sleep_loop_ok [OF s] by (auto simp: sys_sleep_def follows_refl [OF s] s(2) split: option.splits)

definition good_call :: "(nat \<Rightarrow> psys \<Rightarrow> (kres \<times> psys) option) \<Rightarrow> bool" where
  "good_call f \<longleftrightarrow> (\<forall>F p s rs. pinv F s \<longrightarrow> (F \<longrightarrow> nextp s < INT_MAX) \<longrightarrow> cur s = Some p \<longrightarrow> f p s = Some rs \<longrightarrow>
     call_ok F p s rs)"

lemma good_callI: 
  "(\<And>F p s rs. pinv F s \<Longrightarrow> cur s = Some p \<Longrightarrow> (F \<Longrightarrow> nextp s < INT_MAX) \<Longrightarrow> f p s = Some rs \<Longrightarrow> call_ok F p s rs) \<Longrightarrow>
   good_call f"
  by (simp add: good_call_def)

lemma good_callD: 
  "good_call f \<Longrightarrow> pinv F s \<Longrightarrow> (F \<Longrightarrow> nextp s < INT_MAX) \<Longrightarrow> cur s = Some p \<Longrightarrow> f p s = Some rs \<Longrightarrow> call_ok F p s rs"
  unfolding good_call_def by blast

lemma good_calls:
  "good_call (sys_fork D img)" "good_call sys_exit" "good_call sys_wait" "good_call sys_kill" "good_call sys_getpid"
  "good_call sys_sbrk" "good_call sys_sleep" "good_call sys_uptime" "good_call (file_call f)" "good_call (read_call D)"
  "good_call (write_call D i)" "good_call (exec_call D)"
proof -
  show "good_call (sys_fork D img)"
    by (rule good_callI) (auto simp: sys_fork_def bind_eq_Some dest: fork_follows)
  show "good_call sys_exit"
    by (rule good_callI) (auto simp: sys_exit_def bind_eq_Some dest: exit_follows)
  show "good_call sys_wait" by (rule good_callI) (simp add: sys_wait_def wait_ok)
  show "good_call sys_getpid" "good_call sys_uptime"
    by (rule good_callI, auto simp: sys_getpid_def sys_uptime_def follows_refl)+
qed (rule good_callI, erule (2) kill_call_ok sbrk_call_ok sleep_sys_ok file_call_ok read_call_ok write_call_ok exec_call_ok)+

lemma good_table: "list_all (\<lambda>e. \<forall>f. e = Some f \<longrightarrow> good_call f) (syscalls D img)"
  by (simp add: syscalls_def good_calls)

lemma syscall_ok:
  assumes s: "pinv F s" "cur s = Some p" and room: "F \<Longrightarrow> nextp s < INT_MAX" and l: "syscall D img p s = Some rs"
  shows "call_ok F p s rs"
proof -
  define num where "num = sint (trapframe.tf_eax (u_tf (ptab s p)))"
  show ?thesis
  proof (cases "0 < num \<and> num < int NSYSCALLS")
    case False
    with l have "rs = (Ret (- 1), s)" by (auto simp: syscall_def num_def Let_def)
    with s show ?thesis by (simp add: follows_refl)
  next
    case True
    moreover have "length (syscalls D img) = 24" by (simp add: syscalls_def)
    ultimately have "nat num < length (syscalls D img)" by (simp add: NSYSCALLS_def nat_less_iff)
    then have g: "\<forall>f. syscalls D img ! nat num = Some f \<longrightarrow> good_call f"
      using good_table [of D img] by (simp add: list_all_length)
    show ?thesis
    proof (cases "syscalls D img ! nat num")
      case None
      with True l have "rs = (Ret (- 1), s)" by (auto simp: syscall_def num_def Let_def)
      with s show ?thesis by (simp add: follows_refl)
    next
      case (Some f)
      with True l have "f p s = Some rs" by (auto simp: syscall_def num_def Let_def)
      with g Some show ?thesis using good_callD [OF _ s(1) room s(2), of f rs] by blast
    qed
  qed
qed

section \<open>Traps and the scheduler\<close>

text \<open>\<open>follows\<close> for code that may leave the CPU to nobody.\<close>

lemma finish_follows:
  assumes c: "call_ok F p s rs" and f: "finish p rs = Some t"
  shows "follows F p s t"
proof (cases rs)
  case (Pair k u)
  show ?thesis
  proof (cases k)
    case Away
    with Pair c f show ?thesis by (simp add: finish_def)
  next
    case (Ret r)
    define s1 where "s1 = upd_slot p (\<lambda>x. x\<lparr>u_tf := (u_tf x)\<lparr>trapframe.tf_eax := word_of_int r\<rparr>\<rparr>) u"
    have u: "follows F p s u" "cur u = Some p" using c Pair Ret by simp_all
    have s1: "follows F p u s1 \<and> cur s1 = Some p"
      unfolding s1_def by (rule follows_same) (use u in \<open>auto simp: views_same dest: follows_pinv\<close>)
    then have f1: "follows F p s s1" using u by (auto intro: follows_trans)
    show ?thesis
    proof (cases "u_killed (ptab s1 p)")
      case True
      with f Pair Ret have "exit p s1 = Some t" by (simp add: finish_def sys_return_def s1_def)
      with exit_follows [of F s1 p t] s1 f1 show ?thesis by (auto dest: follows_pinv intro: follows_trans)
    next
      case False
      with f Pair Ret f1 show ?thesis by (simp add: finish_def sys_return_def s1_def)
    qed
  qed
qed

lemma tf_follows:
  assumes "pinv F s" "cur s = Some p"
  shows "follows F p s (upd_slot p (\<lambda>x. x\<lparr>u_tf := tf\<rparr>) s) \<and> cur (upd_slot p (\<lambda>x. x\<lparr>u_tf := tf\<rparr>) s) = Some p"
  by (rule follows_same [OF assms]) (auto simp: views_same)

lemma trap_syscall_follows:
  assumes s: "pinv F s" and room: "F \<Longrightarrow> nextp s < INT_MAX" and t: "trap_syscall D img tf s = Some t"
  shows "\<exists>p. cur s = Some p \<and> follows F p s t"
proof -
  from t obtain p where p: "cur s = Some p" by (auto simp: trap_syscall_def bind_eq_Some)
  note tf = tf_follows [OF s p, of tf]
  have "follows F p s t"
  proof (cases "u_killed (ptab s p)")
    case True
    with t p exit_follows [OF s p] show ?thesis by (simp add: trap_syscall_def)
  next
    case False
    with t p obtain rs where rs: "syscall D img p (upd_slot p (\<lambda>x. x\<lparr>u_tf := tf\<rparr>) s) = Some rs" "finish p rs = Some t"
      by (auto simp: trap_syscall_def bind_eq_Some)
    have "call_ok F p s rs"
      using syscall_ok [OF _ _ _ rs(1)] tf room by (auto dest: follows_pinv intro: call_ok_trans)
    with rs(2) show ?thesis by (rule finish_follows [rotated])
  qed
  with p show ?thesis by blast
qed

text \<open>A trap outside system calls, with \<open>q\<close> as the process on the CPU, if any.\<close>

definition quiet :: "bool \<Rightarrow> psys \<Rightarrow> psys \<Rightarrow> bool" where
  "quiet F s t \<longleftrightarrow> pinv F t \<and> spos t = spos s \<and> (cur t = cur s \<or> cur t = None) \<and>
     (\<forall>q. cur s \<noteq> Some q \<longrightarrow> ust s q = RUNNABLE \<longrightarrow> ust t q = RUNNABLE)"

lemma follows_quiet: "follows F p s t \<Longrightarrow> cur s = Some p \<Longrightarrow> quiet F s t"
  by (auto simp: follows_def quiet_def)

lemma quiet_trans: "quiet F s t \<Longrightarrow> quiet F t u \<Longrightarrow> pinv F s \<Longrightarrow> quiet F s u"
  by (auto simp: quiet_def)

lemma quiet_refl: "pinv F s \<Longrightarrow> quiet F s s"
  by (simp add: quiet_def)

lemma woken_quiet: "woken s t \<Longrightarrow> pinv F s \<Longrightarrow> quiet F s t"
  using woken_views(4) [of s t] woken_frame [of s t] pinv_woken [of s t F "{}"] by (force simp: quiet_def)

lemma killed_quiet:
  assumes s: "pinv F s" and k: "killed_user tf s = Some p" and e: "exit p s = Some t"
  shows "quiet F s t"
proof -
  have "cur s = Some p" using k by (auto simp: killed_user_def split: option.splits if_splits)
  with exit_follows [OF s this e] show ?thesis by (auto intro: follows_quiet)
qed

lemma trap_out_quiet: "pinv F s \<Longrightarrow> trap_out tf s = Some t \<Longrightarrow> quiet F s t"
  by (auto simp: trap_out_def quiet_refl split: option.splits dest: killed_quiet)

lemma trap_after_quiet:
  assumes s: "pinv F s" and t: "trap_after tf s = Some t"
  shows "quiet F s t"
proof (cases "killed_user tf s")
  case (Some p)
  with t killed_quiet [OF s Some] show ?thesis by (simp add: trap_after_def)
next
  case None
  with t consider "trap_out tf s = Some t" | p where "cur s = Some p" "yield p s = Some t"
    by (auto simp: trap_after_def split: option.splits if_splits)
  then show ?thesis by cases (use s in \<open>auto intro: trap_out_quiet follows_quiet dest: yield_follows\<close>)
qed

lemma trap_switch_quiet:
  assumes s: "pinv F s" and t: "trap_switch D img dev cpu cr2 tf s = Some t"
  shows "quiet F s t"
proof -
  have put: "quiet F s (put_mach c s)" for c by (rule woken_quiet [OF woken_put_mach s])
  have tick: "quiet F s (wakeup (Some UTicks) (s\<lparr>uticks := n\<rparr>))" for n
    using woken_quiet [OF woken_wakeup1, of F "s\<lparr>uticks := n\<rparr>"] s by (simp add: ProcB.wakeup_def quiet_def)
  have kld: "quiet F s (upd_slot p (\<lambda>x. x\<lparr>u_killed := True\<rparr>) s)" if "cur s = Some p" for p
  proof -
    have "follows F p s (upd_slot p (\<lambda>x. x\<lparr>u_killed := True\<rparr>) s) \<and> cur (upd_slot p (\<lambda>x. x\<lparr>u_killed := True\<rparr>) s) = Some p"
      by (rule follows_same [OF s that]) (auto simp: views_same)
    with that show ?thesis by (auto intro: follows_quiet)
  qed
  show ?thesis using t put tick kld quiet_refl [OF s]
    by (auto simp: SysB.trap_switch_def Let_def bind_eq_Some split: if_splits option.splits)
qed

lemma trap_quiet:
  assumes s: "pinv F s" and room: "F \<Longrightarrow> nextp s < INT_MAX" and t: "trap D img dev cpu cr2 tf s = Some t"
  shows "quiet F s t"
proof (cases "tf_trapno tf = T_SYSCALL")
  case True
  with t have "trap_syscall D img tf s = Some t" by (simp add: SysB.trap_def)
  from trap_syscall_follows [OF s room this] show ?thesis by (auto intro: follows_quiet)
next
  case False
  define s0 where "s0 = (case cur s of
      Some p \<Rightarrow> if tf_cs tf AND 3 = DPL_USER then upd_slot p (\<lambda>x. x\<lparr>u_tf := tf\<rparr>) s else s | None \<Rightarrow> s)"
  have 0: "quiet F s s0"
    using tf_follows [OF s] by (auto simp: s0_def quiet_refl [OF s] split: option.split intro: follows_quiet)
  from False t obtain s1 where s1: "trap_switch D img dev cpu cr2 tf s0 = Some s1" "trap_after tf s1 = Some t"
    by (auto simp: SysB.trap_def bind_eq_Some Let_def s0_def)
  have 1: "quiet F s s1" using quiet_trans [OF 0 trap_switch_quiet [OF _ s1(1)] s] 0 by (simp add: quiet_def)
  show ?thesis using quiet_trans [OF 1 trap_after_quiet [OF _ s1(2)] s] 1 by (simp add: quiet_def)
qed

text \<open>The process that gets the CPU goes on from where it left off.\<close>

lemma forkret_follows:
  assumes s: "pinv F s" "cur s = Some p" and f: "forkret s = Some t"
  shows "follows F p s t"
proof (cases "first s")
  case True
  with f obtain c where t: "t = put_mach c (s\<lparr>first := False\<rparr>)" by (auto simp: forkret_def bind_eq_Some)
  have "follows F p (s\<lparr>first := False\<rparr>) t" using follows_put [of F "s\<lparr>first := False\<rparr>" p c] s by (simp add: t)
  then show ?thesis by (simp add: follows_def)
next
  case False
  with f s show ?thesis by (simp add: forkret_def follows_refl)
qed

lemma resume_follows:
  assumes s: "pinv F s" "cur s = Some p" and room: "F \<Longrightarrow> nextp s < INT_MAX" and r: "resume D p s = Some t"
  shows "follows F p s t"
proof -
  have sl: "follows F p s (slept p s)" "pinv F (slept p s)" "cur (slept p s) = Some p"
    using slept_follows [OF s] by (auto dest: follows_pinv)
  have room': "F \<Longrightarrow> nextp (slept p s) < INT_MAX" using room by (simp add: slept_def)
  have call: "follows F p s t" if "f p (slept p s) = Some rs" "finish p rs = Some t" "good_call f" for f rs
    using finish_follows [OF good_callD [OF that(3) sl(2) room' sl(3) that(1)] that(2)] sl(1) by (auto intro: follows_trans)
  have loop: "good_call (\<lambda>p. sleep_loop p t0 n)" for t0 n by (rule good_callI) (rule sleep_loop_ok)
  have wt: "good_call wait" by (rule good_callI) (rule wait_ok)
  show ?thesis
  proof (cases "u_cont (ptab s p)")
    case KForkret
    with r forkret_follows [OF s] show ?thesis by (simp add: resume_def)
  next
    case KPreempted
    with r have "trap_out (u_tf (ptab s p)) s = Some t" by (simp add: resume_def)
    with s show ?thesis
      by (auto simp: trap_out_def killed_user_def follows_refl split: option.splits if_splits dest: exit_follows)
  next
    case KWait
    with r obtain rs where "wait p (slept p s) = Some rs" "finish p rs = Some t" by (auto simp: resume_def bind_eq_Some)
    with call [of wait] wt show ?thesis by blast
  next
    case (KSleep t0 n)
    with r obtain rs where "sleep_loop p t0 n (slept p s) = Some rs" "finish p rs = Some t"
      by (auto simp: resume_def bind_eq_Some)
    with call [of "\<lambda>p. sleep_loop p t0 n"] loop show ?thesis by blast
  next
    case KRead
    with r obtain rs where "read_call D p (slept p s) = Some rs" "finish p rs = Some t"
      by (auto simp: resume_def bind_eq_Some)
    with call [of "read_call D"] good_calls show ?thesis by blast
  next
    case (KWrite i)
    with r obtain rs where "write_call D i p (slept p s) = Some rs" "finish p rs = Some t"
      by (auto simp: resume_def bind_eq_Some)
    with call [of "write_call D i"] good_calls show ?thesis by blast
  next
    case (KSwapper b)
    with r have "sleep p (USwap b) (KSwapper b) (slept p s) = Some t"
      by (auto simp: resume_def swapout_def swapin_def split: if_splits)
    with sleep_follows [OF sl(2,3)] sl(1) show ?thesis by (auto intro: follows_trans)
  qed
qed

text \<open>\<open>scheduler\<close> on a slot: the switch itself never panics.\<close>

lemma dispatch_ok:
  assumes s: "pinv F s" "cur s = None" and p: "p < NPROC" "ust s p = RUNNABLE"
  shows "\<exists>t. dispatch p s = Some t \<and> pinv F t \<and> cur t = Some p \<and> spos t = spos s \<and> nextp t = nextp s \<and>
    (\<forall>q. q \<noteq> p \<longrightarrow> ptab t q = ptab s q)"
proof -
  have ok: "uslot_ok (ptab s p)" "u_state (ptab s p) = RUNNABLE" using pinvD(4) [OF s(1) p(1)] p(2) by (simp_all add: ust_def)
  then have nz: "u_kstack (ptab s p) \<noteq> 0" "u_pgdir (ptab s p) \<noteq> 0" by (simp_all add: uslot_ok_def)
  define t where "t = upd_slot p (\<lambda>x. x\<lparr>u_state := RUNNING\<rparr>)
    (s\<lparr>cur := Some p, esp0 := u_kstack (ptab s p) + of_nat KSTACKSIZE, cr3 := V2P (u_pgdir (ptab s p))\<rparr>)"
  have t: "dispatch p s = Some t" using nz by (simp add: dispatch_def switchuvm_def t_def)
  have v: "ust t = (ust s)(p := RUNNING)" "upid t = upid s" "upar t = upar s" "on_cpu t = (on_cpu s)(0 := Some p)"
    "nextp t = nextp s" "initp t = initp s" "cur t = Some p" "spos t = spos s"
    "cr3 t = V2P (u_pgdir (ptab t p))"
    by (auto simp: t_def on_cpu_def fun_eq_iff views_same)
  have "pinv F t"
  proof (rule pinvI)
    show "run_inv NPROC (ust t) (on_cpu t)"
      unfolding v by (rule run_inv_dispatch [OF pinvD(1) [OF s(1)]]) (use s p in \<open>simp_all add: on_cpu_def\<close>)
    show "pid_inv NPROC (ust t) (upid t) (nextp t)" if F
      unfolding v by (rule pid_inv_cong [OF pinvD(2) [OF s(1) that]]) (use p in \<open>auto split: if_splits\<close>)
    show "tree_inv NPROC (ust t) (upar t) (initp t)"
      unfolding v by (rule tree_inv_alive [OF pinvD(3) [OF s(1)]]) (use p in simp_all)
    show "uslot_ok (ptab t q)" if "q < NPROC" for q
    proof (cases "q = p")
      case True
      with ok show ?thesis by (simp add: t_def uslot_ok_def)
    next
      case False
      with pinvD(4) [OF s(1) that] show ?thesis by (simp add: t_def)
    qed
    show "spos t < NPROC" unfolding v by (rule pinvD(6) [OF s(1)])
  qed (use v in auto)
  with t v show ?thesis by (simp add: t_def)
qed

lemma scheduler_ok:
  assumes s: "pinv F s" "cur s = None" and room: "F \<Longrightarrow> nextp s < INT_MAX" and t: "scheduler D s = Some t"
  shows "pinv F t \<and> spos t = Suc (spos s) mod NPROC \<and> (\<forall>q. q \<noteq> spos s \<longrightarrow> ust s q = RUNNABLE \<longrightarrow> ust t q = RUNNABLE)"
proof -
  define s1 where "s1 = s\<lparr>spos := (if spos s + 1 < NPROC then spos s + 1 else 0)\<rparr>"
  have pos: "spos s1 = Suc (spos s) mod NPROC" "spos s1 < NPROC"
    using pinvD(6) [OF s(1)] by (cases "spos s = 63"; auto simp: s1_def NPROC_def)+
  have s1: "pinv F s1" "cur s1 = None"
    using s pinvD [OF s(1)] pos by (auto simp: s1_def intro!: pinvI)
  show ?thesis
  proof (cases "ust s (spos s) = RUNNABLE")
    case False
    with t have "t = s1" by (simp add: SysB.scheduler_def Let_def s1_def views_same)
    with s1 pos show ?thesis by (simp add: s1_def)
  next
    case True
    then have "ust s1 (spos s) = RUNNABLE" "spos s < NPROC" using pinvD(6) [OF s(1)] by (simp_all add: s1_def)
    from dispatch_ok [OF s1 this(2,1)] obtain s2 where s2: "dispatch (spos s) s1 = Some s2" "pinv F s2" "cur s2 = Some (spos s)"
      "spos s2 = spos s1" "nextp s2 = nextp s1" "\<forall>q. q \<noteq> spos s \<longrightarrow> ptab s2 q = ptab s1 q" by blast
    have "Option.bind (dispatch (spos s) s1) (resume D (spos s)) = Some t"
      using t True by (simp add: SysB.scheduler_def Let_def s1_def views_same)
    with s2(1) have "resume D (spos s) s2 = Some t" by simp
    from resume_follows [OF s2(2,3) _ this] room s2 pos show ?thesis by (auto simp: follows_def ust_def s1_def)
  qed
qed

lemma user_run_ok: "pinv F s \<Longrightarrow> user_run p m s = Some t \<Longrightarrow> pinv F t \<and> spos t = spos s \<and> ust t = ust s \<and> cur t = cur s"
  by (auto simp: user_run_def bind_eq_Some)

lemma kstep_pinv: "kstep D img dev s l t \<Longrightarrow> pinv F s \<Longrightarrow> (F \<Longrightarrow> nextp s < INT_MAX) \<Longrightarrow> pinv F t"
  by (erule kstepE) (auto dest: scheduler_ok trap_quiet user_run_ok simp: quiet_def)

end
