(* ===== verification/PipeProps.thy ===== *)
theory PipeProps
  imports File KmemProps
begin

text \<open>
  A pipe is a bounded queue: its ring buffer with two counters that wrap around refines the list
  of the bytes in transit. The operations are run in any order, with writers and readers going to sleep and
  resuming.
\<close>

section \<open>Bounded queues\<close>

locale bounded_queue =
  fixes contents :: "'q \<Rightarrow> 'e list" and wf :: "'q \<Rightarrow> bool" and push :: "'e \<Rightarrow> 'q \<Rightarrow> 'q" and first :: "'q \<Rightarrow> 'e"
    and pop :: "'q \<Rightarrow> 'q" and full :: "'q \<Rightarrow> bool" and empty :: "'q \<Rightarrow> bool" and capacity :: nat
  assumes wf_bound: "wf q \<Longrightarrow> length (contents q) \<le> capacity"
    and full_iff: "wf q \<Longrightarrow> full q \<longleftrightarrow> length (contents q) = capacity"
    and empty_iff: "wf q \<Longrightarrow> empty q \<longleftrightarrow> contents q = []"
    and push_contents: "wf q \<Longrightarrow> \<not> full q \<Longrightarrow> contents (push e q) = contents q @ [e] \<and> wf (push e q)"
    and pop_contents: "wf q \<Longrightarrow> \<not> empty q \<Longrightarrow> contents q = first q # contents (pop q) \<and> wf (pop q)"
begin

fun push_all :: "'e list \<Rightarrow> 'q \<Rightarrow> 'q" where
  "push_all [] q = q"
| "push_all (e # es) q = (if full q then q else push_all es (push e q))"

lemma push_all_contents:
  assumes "wf q"
  shows "contents (push_all es q) = contents q @ take (capacity - length (contents q)) es \<and> wf (push_all es q)"
  using assms
proof (induction es arbitrary: q)
  case (Cons e es)
  show ?case
  proof (cases "full q")
    case True
    then show ?thesis using Cons.prems full_iff by simp
  next
    case False
    then have P: "contents (push e q) = contents q @ [e]" "wf (push e q)" using push_contents Cons.prems by blast+
    have "length (contents q) < capacity" using False full_iff wf_bound Cons.prems by (metis le_neq_implies_less)
    then have "capacity - length (contents q) = Suc (capacity - length (contents (push e q)))" by (simp add: P)
    then show ?thesis using Cons.IH [OF P(2)] False by (simp add: P)
  qed
qed simp

fun pop_all :: "nat \<Rightarrow> 'q \<Rightarrow> 'e list \<times> 'q" where
  "pop_all 0 q = ([], q)"
| "pop_all (Suc n) q = (if empty q then ([], q) else (case pop_all n (pop q) of (es, q') \<Rightarrow> (first q # es, q')))"

lemma pop_all_contents:
  assumes "wf q"
  shows "fst (pop_all n q) = take n (contents q) \<and> contents (snd (pop_all n q)) = drop n (contents q) \<and> wf (snd (pop_all n q))"
  using assms
proof (induction n arbitrary: q)
  case (Suc n)
  show ?case
  proof (cases "empty q")
    case True
    then show ?thesis using Suc.prems empty_iff by simp
  next
    case False
    then have "contents q = first q # contents (pop q)" "wf (pop q)" using pop_contents Suc.prems by blast+
    then show ?thesis using Suc.IH [of "pop q"] False by (auto split: prod.split)
  qed
qed simp

end

section \<open>The ring buffer\<close>

definition pipe_pop :: "pipe \<Rightarrow> pipe" where
  "pipe_pop q = q\<lparr>p_nread := p_nread q + 1\<rparr>"

definition pipe_first :: "pipe \<Rightarrow> u8" where
  "pipe_first q = p_data q (unat (p_nread q mod of_nat PIPESIZE))"

definition pipe_contents :: "pipe \<Rightarrow> u8 list" where
  "pipe_contents q = map (\<lambda>k. p_data q ((unat (p_nread q) + k) mod PIPESIZE)) [0..<unat (p_nwrite q - p_nread q)]"

definition pipe_wf :: "pipe \<Rightarrow> bool" where
  "pipe_wf q \<longleftrightarrow> unat (p_nwrite q - p_nread q) \<le> PIPESIZE"

lemma ring_index: "unat ((a :: u32) mod of_nat PIPESIZE) = unat a mod PIPESIZE"
  by (simp add: PIPESIZE_def unat_mod)

lemma unat_add_mod: "unat ((a :: u32) + b) mod PIPESIZE = (unat a + unat b) mod PIPESIZE"
  by (simp add: PIPESIZE_def unat_word_ariths(1) mod_mod_cancel)

lemma push_queue:
  assumes "pipe_wf q" and "\<not> pipe_full q"
  shows "pipe_contents (pipe_push c q) = pipe_contents q @ [c]" and "pipe_wf (pipe_push c q)"
proof -
  let ?d = "p_nwrite q - p_nread q" and ?r = "unat (p_nread q)"
  have "?d \<noteq> of_nat PIPESIZE" using assms(2) by (auto simp: pipe_full_def algebra_simps)
  then have "unat ?d \<noteq> PIPESIZE" by (auto simp: PIPESIZE_def word_unat_eq_iff)
  then have lt: "unat ?d < PIPESIZE" using assms(1) by (simp add: pipe_wf_def)
  have d1: "p_nwrite q + 1 - p_nread q = ?d + 1" by simp
  have u1: "unat (?d + 1) = Suc (unat ?d)" using lt by (simp add: unat_word_ariths(1) PIPESIZE_def)
  have w: "unat (p_nwrite q) mod PIPESIZE = (?r + unat ?d) mod PIPESIZE"
    using unat_add_mod [of "p_nread q" ?d] by simp
  have other: "(?r + k) mod PIPESIZE \<noteq> (?r + unat ?d) mod PIPESIZE" if "k < unat ?d" for k
    using add_mod_inj [of ?r k PIPESIZE "unat ?d"] that lt by auto
  show "pipe_contents (pipe_push c q) = pipe_contents q @ [c]"
    using other by (simp add: pipe_contents_def pipe_push_def d1 u1 ring_index w)
  show "pipe_wf (pipe_push c q)" using lt by (simp add: pipe_wf_def pipe_push_def d1 u1)
qed

lemma pop_queue:
  assumes "pipe_wf q" and "\<not> pipe_empty q"
  shows "pipe_contents q = pipe_first q # pipe_contents (pipe_pop q)" and "pipe_wf (pipe_pop q)"
proof -
  let ?d = "p_nwrite q - p_nread q" and ?r = "unat (p_nread q)"
  have "?d \<noteq> 0" using assms(2) by (auto simp: pipe_empty_def)
  then have pos: "0 < unat ?d" by (simp add: unat_gt_0)
  have d1: "p_nwrite q - (p_nread q + 1) = ?d - 1" by simp
  have u1: "unat (?d - 1) = unat ?d - 1" using pos by (simp add: unat_sub word_le_nat_alt)
  have s: "(unat (p_nread q + 1) + k) mod PIPESIZE = (?r + Suc k) mod PIPESIZE" for k
  proof -
    have "(unat (p_nread q + 1) + k) mod PIPESIZE = (unat (p_nread q + 1) mod PIPESIZE + k) mod PIPESIZE"
      by (rule mod_add_left_eq [symmetric])
    also have "\<dots> = ((?r + 1) mod PIPESIZE + k) mod PIPESIZE" using unat_add_mod [of "p_nread q" 1] by simp
    also have "\<dots> = (?r + 1 + k) mod PIPESIZE" by (rule mod_add_left_eq)
    finally show ?thesis by simp
  qed
  have "[0..<unat ?d] = 0 # map Suc [0..<unat ?d - 1]"
    using pos by (metis Suc_diff_1 map_Suc_upt upt_conv_Cons)
  then show "pipe_contents q = pipe_first q # pipe_contents (pipe_pop q)"
    by (simp add: pipe_contents_def pipe_first_def pipe_pop_def d1 u1 ring_index s comp_def)
  show "pipe_wf (pipe_pop q)" using assms(1) by (simp add: pipe_wf_def pipe_pop_def d1 u1)
qed

interpretation pq: bounded_queue pipe_contents pipe_wf pipe_push pipe_first pipe_pop pipe_full pipe_empty PIPESIZE
proof
  fix q e
  show "length (pipe_contents q) \<le> PIPESIZE" if "pipe_wf q" using that by (simp add: pipe_contents_def pipe_wf_def)
  show "pipe_full q \<longleftrightarrow> length (pipe_contents q) = PIPESIZE" if "pipe_wf q"
  proof -
    have "pipe_full q \<longleftrightarrow> p_nwrite q - p_nread q = of_nat PIPESIZE" by (auto simp: pipe_full_def algebra_simps)
    also have "\<dots> \<longleftrightarrow> unat (p_nwrite q - p_nread q) = PIPESIZE" by (simp add: PIPESIZE_def word_unat_eq_iff)
    finally show ?thesis by (simp add: pipe_contents_def)
  qed
  show "pipe_empty q \<longleftrightarrow> pipe_contents q = []" if "pipe_wf q"
    by (auto simp: pipe_empty_def pipe_contents_def unat_eq_0)
  show "pipe_contents (pipe_push e q) = pipe_contents q @ [e] \<and> pipe_wf (pipe_push e q)" if "pipe_wf q" "\<not> pipe_full q"
    using push_queue [OF that] by blast
  show "pipe_contents q = pipe_first q # pipe_contents (pipe_pop q) \<and> pipe_wf (pipe_pop q)" if "pipe_wf q" "\<not> pipe_empty q"
    using pop_queue [OF that] by blast
qed

section \<open>The operations\<close>

lemma upd_pipe_simps [simp]:
  "pipes (upd_pipe p f s) = (pipes s)(p := f (pipes s p))" "wakeups (upd_pipe p f s) = wakeups s"
  "pipes (wakeup_chan c s) = pipes s" "wakeups (wakeup_chan c s) = c # wakeups s"
  by (simp_all add: upd_pipe_def wakeup_chan_def)

lemma upd_pipe_id [simp]: "upd_pipe p (\<lambda>q. q) s = s" and upd_pipe_twice [simp]: "upd_pipe p f (upd_pipe p g s) = upd_pipe p (f \<circ> g) s"
  by (simp_all add: upd_pipe_def)

text \<open>What a segment of \<open>pipewrite\<close> does: it pushes bytes until all are written or the pipe is full.\<close>

lemma pipewrite_loop_spec:
  assumes "pipe_wf (pipes s p)"
  defines "room \<equiv> PIPESIZE - length (pipe_contents (pipes s p))"
  shows "pipewrite_loop p killed addr i k s =
    (let s' = upd_pipe p (pq.push_all (map (\<lambda>j. addr (i + j)) [0..<k])) s
     in if k \<le> room then (None, s')
        else if \<not> p_readopen (pipes s p) \<or> killed then (Some (PReturn (- 1)), s')
        else (Some (PSleep (i + room)), wakeup_chan (ChNread p) s'))"
  using assms(1) unfolding room_def
proof (induction k arbitrary: i s)
  case 0
  then show ?case by (simp add: upd_pipe_def)
next
  case (Suc k)
  let ?q = "pipes s p"
  have m: "map (\<lambda>j. addr (i + j)) [0..<Suc k] = addr i # map (\<lambda>j. addr (i + 1 + j)) [0..<k]"
    by (simp add: upt_conv_Cons map_Suc_upt [symmetric] comp_def del: upt_Suc)
  show ?case
  proof (cases "pipe_full ?q")
    case True
    then have "length (pipe_contents ?q) = PIPESIZE" using pq.full_iff Suc.prems by blast
    then show ?thesis unfolding m using True by (simp add: upd_pipe_def)
  next
    case False
    note P = push_queue [OF Suc.prems False, of "addr i"]
    have lt: "length (pipe_contents ?q) < PIPESIZE"
      using False pq.full_iff [OF Suc.prems] pq.wf_bound [OF Suc.prems] by simp
    have R: "PIPESIZE - length (pipe_contents ?q) = Suc (PIPESIZE - length (pipe_contents (pipe_push (addr i) ?q)))"
      using lt by (simp add: P(1) Suc_diff_Suc)
    have ro: "p_readopen (pipe_push (addr i) ?q) = p_readopen ?q" by (simp add: pipe_push_def)
    have "pipewrite_loop p killed addr i (Suc k) s = pipewrite_loop p killed addr (i + 1) k (upd_pipe p (pipe_push (addr i)) s)"
      using False by simp
    also have "\<dots> = (let s' = upd_pipe p (pq.push_all (map (\<lambda>j. addr (i + j)) [0..<Suc k])) s
       in if Suc k \<le> PIPESIZE - length (pipe_contents ?q) then (None, s')
          else if \<not> p_readopen ?q \<or> killed then (Some (PReturn (- 1)), s')
          else (Some (PSleep (i + (PIPESIZE - length (pipe_contents ?q)))), wakeup_chan (ChNread p) s'))"
    proof -
      have f: "upd_pipe p (pq.push_all (map (\<lambda>j. addr (i + j)) [0..<Suc k])) s =
        upd_pipe p (pq.push_all (map (\<lambda>j. addr (i + 1 + j)) [0..<k])) (upd_pipe p (pipe_push (addr i)) s)"
        unfolding m using False by (simp add: upd_pipe_def)
      show ?thesis
        unfolding f R using Suc.IH [of "upd_pipe p (pipe_push (addr i)) s" "i + 1"] P(2)
        by (simp add: ro Let_def del: upd_pipe_twice)
    qed
    finally show ?thesis .
  qed
qed

lemma piperead_loop_spec:
  assumes "pipe_wf (pipes s p)"
  shows "\<exists>addr'. piperead_loop p i k addr s =
      (i + length (fst (pq.pop_all k (pipes s p))), addr', upd_pipe p (\<lambda>q. snd (pq.pop_all k q)) s) \<and>
    (\<forall>j. addr' j = (if i \<le> j \<and> j < i + length (fst (pq.pop_all k (pipes s p)))
       then fst (pq.pop_all k (pipes s p)) ! (j - i) else addr j))"
  using assms
proof (induction k arbitrary: i addr s)
  case 0
  show ?case by (intro exI [of _ addr]) auto
next
  case (Suc k)
  let ?q = "pipes s p"
  show ?case
  proof (cases "pipe_empty ?q")
    case True
    then show ?thesis by (intro exI [of _ addr]) (auto simp: upd_pipe_def)
  next
    case False
    let ?a = "addr(i := pipe_first ?q)" and ?s = "upd_pipe p pipe_pop s"
    obtain es q' where pa: "pq.pop_all k (pipe_pop ?q) = (es, q')" by fastforce
    have pp: "pipes ?s p = pipe_pop ?q" by simp
    have wf: "pipe_wf (pipes ?s p)" using pop_queue(2) [OF Suc.prems False] by simp
    have st: "piperead_loop p i (Suc k) addr s = piperead_loop p (i + 1) k ?a ?s"
      using False by (simp add: pipe_first_def pipe_pop_def [abs_def])
    obtain addr' where A: "piperead_loop p (i + 1) k ?a ?s = (i + 1 + length es, addr', upd_pipe p (\<lambda>q. snd (pq.pop_all k q)) ?s)"
      "\<And>j. addr' j = (if i + 1 \<le> j \<and> j < i + 1 + length es then es ! (j - (i + 1)) else ?a j)"
      using Suc.IH [OF wf, of "i + 1" ?a] unfolding pp pa fst_conv by blast
    have U: "upd_pipe p (\<lambda>q. snd (pq.pop_all k q)) ?s = upd_pipe p (\<lambda>q. snd (pq.pop_all (Suc k) q)) s"
      using False pa by (simp add: upd_pipe_def)
    have J: "addr' j = (if i \<le> j \<and> j < i + Suc (length es) then (pipe_first ?q # es) ! (j - i) else addr j)" for j
    proof (cases "i < j")
      case True
      then obtain d where "j = i + Suc d" by (metis add_Suc_right less_imp_Suc_add)
      then show ?thesis by (simp add: A(2))
    next
      case False
      then show ?thesis by (cases "j = i") (simp_all add: A(2))
    qed
    have P: "pq.pop_all (Suc k) ?q = (pipe_first ?q # es, q')" using False pa by simp
    show ?thesis
      unfolding st A(1) U P fst_conv
    proof (intro exI [of _ addr'] conjI allI)
      show "(i + 1 + length es, addr', upd_pipe p (\<lambda>q. snd (pq.pop_all (Suc k) q)) s) =
        (i + length (pipe_first ?q # es), addr', upd_pipe p (\<lambda>q. snd (pq.pop_all (Suc k) q)) s)" by simp
      show "addr' j = (if i \<le> j \<and> j < i + length (pipe_first ?q # es) then (pipe_first ?q # es) ! (j - i) else addr j)" for j
        using J [of j] by simp
    qed
  qed
qed

lemma push_all_flags:
  "p_nread (pq.push_all es q) = p_nread q" "p_readopen (pq.push_all es q) = p_readopen q" "p_writeopen (pq.push_all es q) = p_writeopen q"
  by (induction es q rule: pq.push_all.induct) (simp_all add: pipe_push_def)

lemma pop_all_flags:
  "p_readopen (snd (pq.pop_all n q)) = p_readopen q" "p_writeopen (snd (pq.pop_all n q)) = p_writeopen q"
  by (induction n q rule: pq.pop_all.induct) (simp_all add: pipe_pop_def split_beta)

lemma take_upt_min: "take k [0..<n] = [0..<min n k]"
  by (cases "k \<le> n") (simp_all add: min_def)

lemma pipewrite_spec:
  fixes n :: int and i :: nat
  assumes "pipe_wf (pipes s p)"
  defines "m \<equiv> min (nat n - i) (PIPESIZE - length (pipe_contents (pipes s p)))"
  shows "\<exists>r s' q'. pipewrite p killed addr n i s = (r, s') \<and> pipes s' = (pipes s)(p := q') \<and> pipe_wf q' \<and>
    pipe_contents q' = pipe_contents (pipes s p) @ map (\<lambda>j. addr (i + j)) [0..<m] \<and>
    p_nread q' = p_nread (pipes s p) \<and>
    p_readopen q' = p_readopen (pipes s p) \<and> p_writeopen q' = p_writeopen (pipes s p) \<and>
    (if nat n - i \<le> PIPESIZE - length (pipe_contents (pipes s p)) then r = PReturn n \<and> wakeups s' = ChNread p # wakeups s
     else if \<not> p_readopen (pipes s p) \<or> killed then r = PReturn (- 1) \<and> wakeups s' = wakeups s
     else r = PSleep (i + m) \<and> wakeups s' = ChNread p # wakeups s)"
proof -
  let ?q = "pipes s p"
  let ?q' = "pq.push_all (map (\<lambda>j. addr (i + j)) [0..<nat n - i]) ?q"
  have q: "pipe_contents ?q' = pipe_contents ?q @ map (\<lambda>j. addr (i + j)) [0..<m]" "pipe_wf ?q'"
    using pq.push_all_contents [OF assms(1), of "map (\<lambda>j. addr (i + j)) [0..<nat n - i]"]
    by (simp_all add: take_map m_def take_upt_min)
  show ?thesis
    using q push_all_flags [of "map (\<lambda>j. addr (i + j)) [0..<nat n - i]" ?q]
    by (intro exI [of _ "fst (pipewrite p killed addr n i s)"] exI [of _ "snd (pipewrite p killed addr n i s)"] exI [of _ ?q'])
      (simp add: pipewrite_def pipewrite_loop_spec [OF assms(1)] Let_def m_def min_def)
qed

lemma piperead_spec:
  fixes n :: int
  assumes "pipe_wf (pipes s p)"
  defines "m \<equiv> min (nat n) (length (pipe_contents (pipes s p)))"
  shows "if pipe_contents (pipes s p) = [] \<and> p_writeopen (pipes s p)
    then piperead p killed addr n s = (if killed then PReturn (- 1) else PSleep 0, addr, s)
    else \<exists>addr' s' q'. piperead p killed addr n s = (PReturn (int m), addr', s') \<and> pipes s' = (pipes s)(p := q') \<and> pipe_wf q' \<and>
      pipe_contents q' = drop m (pipe_contents (pipes s p)) \<and>
      (\<forall>j. addr' j = (if j < m then pipe_contents (pipes s p) ! j else addr j)) \<and>
      p_readopen q' = p_readopen (pipes s p) \<and> p_writeopen q' = p_writeopen (pipes s p) \<and>
      wakeups s' = ChNwrite p # wakeups s"
proof (cases "pipe_contents (pipes s p) = [] \<and> p_writeopen (pipes s p)")
  case True
  then show ?thesis using pq.empty_iff [OF assms(1)] by (simp add: piperead_def)
next
  case False
  let ?q = "pipes s p"
  have e: "\<not> (pipe_empty ?q \<and> p_writeopen ?q)" using False pq.empty_iff [OF assms(1)] by simp
  note P = pq.pop_all_contents [OF assms(1), of "nat n"]
  have len: "length (fst (pq.pop_all (nat n) ?q)) = m" using P by (simp add: m_def min.commute)
  obtain addr' where A: "piperead_loop p 0 (nat n) addr s = (m, addr', upd_pipe p (\<lambda>q. snd (pq.pop_all (nat n) q)) s)"
    "\<And>j. addr' j = (if j < m then fst (pq.pop_all (nat n) ?q) ! j else addr j)"
    using piperead_loop_spec [OF assms(1), of 0 "nat n" addr] by (auto simp: len)
  have "pipe_contents (snd (pq.pop_all (nat n) ?q)) = drop m (pipe_contents ?q)"
    using P by (simp add: m_def min_def)
  moreover have "addr' j = (if j < m then pipe_contents ?q ! j else addr j)" for j
    using P A(2) [of j] by (simp add: m_def)
  ultimately show ?thesis
    using P e A(1) False pop_all_flags [of "nat n" ?q] by (auto simp: piperead_def)
qed

section \<open>A pipe is a queue\<close>

text \<open>
  A run of pipe operations by any number of processes: the bytes that entered the pipe,
  the bytes that readers received, and the state.
\<close>

datatype pipe_op = PWrite bool bytes int nat | PRead bool bytes int

fun pipe_exec :: "u32 \<Rightarrow> pipe_op list \<Rightarrow> ('a) kern_scheme \<Rightarrow> u8 list \<times> u8 list \<times> ('a) kern_scheme" where
  "pipe_exec p [] s = ([], [], s)"
| "pipe_exec p (PWrite killed addr n i # ops) s =
     (case pipewrite p killed addr n i s of (r, s1) \<Rightarrow>
        case pipe_exec p ops s1 of (sent, got, s') \<Rightarrow>
          (map (\<lambda>j. addr (i + j)) [0..<unat (p_nwrite (pipes s1 p) - p_nwrite (pipes s p))] @ sent, got, s'))"
| "pipe_exec p (PRead killed addr n # ops) s =
     (case piperead p killed addr n s of (r, addr', s1) \<Rightarrow>
        case pipe_exec p ops s1 of (sent, got, s') \<Rightarrow>
          (sent, (case r of PReturn m \<Rightarrow> map addr' [0..<nat m] | PSleep _ \<Rightarrow> []) @ got, s'))"

lemma sent_length:
  assumes "pipe_contents q' = pipe_contents q @ map f [0..<m]" and "p_nread q' = p_nread q"
  shows "unat (p_nwrite q' - p_nwrite q) = m"
proof -
  let ?d = "p_nwrite q - p_nread q" and ?d' = "p_nwrite q' - p_nread q"
  have "length (pipe_contents q') = length (pipe_contents q) + m" by (simp add: assms(1))
  then have "unat ?d' = unat ?d + m" by (simp add: pipe_contents_def assms(2))
  moreover from this have "unat (?d' - ?d) = unat ?d' - unat ?d" by (intro unat_sub) (simp add: word_le_nat_alt)
  ultimately show ?thesis by simp
qed

lemma pipe_exec_queue:
  assumes "pipe_wf (pipes s p)"
  shows "case pipe_exec p ops s of (sent, got, s') \<Rightarrow>
    pipe_wf (pipes s' p) \<and> pipe_contents (pipes s p) @ sent = got @ pipe_contents (pipes s' p)"
  using assms
proof (induction ops arbitrary: s)
  case (Cons a ops)
  show ?case
  proof (cases a)
    case (PWrite killed addr n i)
    obtain r s1 q' m where W: "pipewrite p killed addr n i s = (r, s1)" "pipes s1 = (pipes s)(p := q')" "pipe_wf q'"
      "pipe_contents q' = pipe_contents (pipes s p) @ map (\<lambda>j. addr (i + j)) [0..<m]" "p_nread q' = p_nread (pipes s p)"
      using pipewrite_spec [OF Cons.prems, where killed = killed and addr = addr and n = n and i = i] by blast
    obtain sent got s' where E: "pipe_exec p ops s1 = (sent, got, s')" by (metis prod_cases3)
    have "pipe_wf (pipes s1 p)" using W(2,3) by simp
    from Cons.IH [OF this] show ?thesis
      using PWrite W E sent_length [OF W(4,5)] by simp
  next
    case (PRead killed addr n)
    obtain r addr' s1 where R: "piperead p killed addr n s = (r, addr', s1)" by (metis prod_cases3)
    obtain sent got s' where E: "pipe_exec p ops s1 = (sent, got, s')" by (metis prod_cases3)
    let ?got = "case r of PReturn m \<Rightarrow> map addr' [0..<nat m] | PSleep _ \<Rightarrow> []"
    have "pipe_wf (pipes s1 p) \<and> pipe_contents (pipes s p) = ?got @ pipe_contents (pipes s1 p)"
    proof (cases "pipe_contents (pipes s p) = [] \<and> p_writeopen (pipes s p)")
      case True
      then show ?thesis
        using piperead_spec [OF Cons.prems, where killed = killed and addr = addr and n = n] R Cons.prems
        by (auto split: if_splits)
    next
      case False
      define m where "m = min (nat n) (length (pipe_contents (pipes s p)))"
      obtain q' where S: "r = PReturn (int m)" "pipes s1 = (pipes s)(p := q')" "pipe_wf q'"
        "pipe_contents q' = drop m (pipe_contents (pipes s p))"
        "\<And>j. addr' j = (if j < m then pipe_contents (pipes s p) ! j else addr j)"
        using piperead_spec [OF Cons.prems, where killed = killed and addr = addr and n = n] R False
        by (auto simp: m_def)
      have "map addr' [0..<m] = take m (pipe_contents (pipes s p))"
        by (rule nth_equalityI) (simp_all add: S(5) m_def)
      then show ?thesis using S(1-4) by simp
    qed
    with Cons.IH [of s1] show ?thesis using PRead R E by simp
  qed
qed simp

text \<open>
  C27. Whatever reads and writes are executed on a fresh pipe, by whatever processes, in
  whatever order, with whatever interruptions: the bytes that readers received, followed by the bytes in
  the buffer, are exactly the bytes that entered the pipe, in order; and the buffer never holds more than 512.
\<close>

theorem pipe_fifo:
  assumes "pipes s p = new_pipe q"
  shows "case pipe_exec p ops s of (sent, got, s') \<Rightarrow>
    sent = got @ pipe_contents (pipes s' p) \<and> length (pipe_contents (pipes s' p)) \<le> PIPESIZE"
proof -
  have "pipe_wf (pipes s p)" "pipe_contents (pipes s p) = []"
    by (simp_all add: assms new_pipe_def pipe_wf_def pipe_contents_def)
  then show ?thesis
    using pipe_exec_queue [of s p ops] pq.wf_bound by (auto split: prod.splits)
qed

definition demo_pipe :: pipe where
  "demo_pipe = new_pipe \<lparr>p_data = zero_bytes, p_nread = 0, p_nwrite = 0, p_readopen = True, p_writeopen = True\<rparr>"

definition kern_demo :: kern where
  "kern_demo = vm.extend small_vm (kern.fields
     (\<lambda>_. \<lparr>f_type = FD_NONE, f_ref = 0, f_readable = 0, f_writable = 0, f_pipe = 0, f_ip = 0, f_off = 0\<rparr>)
     (\<lambda>_. demo_pipe) [])"

lemma kern_demo_simps [simp]: "pipes kern_demo = (\<lambda>_. demo_pipe)" "wakeups kern_demo = []"
  by (simp_all add: kern_demo_def vm.defs kern.defs)

lemma pipe_fifo_witness:
  "case pipe_exec 1 [PWrite False (\<lambda>k. of_nat k) 600 0, PRead False zero_bytes 100, PWrite False (\<lambda>k. of_nat k) 600 512] kern_demo
   of (sent, got, s') \<Rightarrow> sent = got @ pipe_contents (pipes s' 1)"
  using pipe_fifo [of kern_demo 1 _ "[PWrite False (\<lambda>k. of_nat k) 600 0, PRead False zero_bytes 100, PWrite False (\<lambda>k. of_nat k) 600 512]"]
  by (auto simp: demo_pipe_def split: prod.splits)

section \<open>Sleeping and waking up\<close>

text \<open>
  The state of one pipe with its sleepers: whether a reader and whether a writer is asleep. A
  wakeup of a channel wakes everybody on it. A process that sleeps holds its end open, so an end is closed only
  when nobody sleeps with it; writers that have been killed are not in these runs.
\<close>

inductive pipe_sys :: "u32 \<Rightarrow> ('a) kern_scheme \<times> bool \<times> bool \<Rightarrow> ('a) kern_scheme \<times> bool \<times> bool \<Rightarrow> bool" for p where
  sys_write: "p_writeopen (pipes s p) \<Longrightarrow> pipewrite p False addr n i (s\<lparr>wakeups := []\<rparr>) = (r, s') \<Longrightarrow>
    pipe_sys p (s, ra, wa) (s', ra \<and> ChNread p \<notin> set (wakeups s'),
      wa \<and> ChNwrite p \<notin> set (wakeups s') \<or> (\<exists>j. r = PSleep j))"
| sys_read: "p_readopen (pipes s p) \<Longrightarrow> piperead p killed addr n (s\<lparr>wakeups := []\<rparr>) = (r, addr', s') \<Longrightarrow>
    pipe_sys p (s, ra, wa) (s', ra \<and> ChNread p \<notin> set (wakeups s') \<or> (\<exists>j. r = PSleep j),
      wa \<and> ChNwrite p \<notin> set (wakeups s'))"
| sys_close: "p_writeopen (pipes s p) \<and> p_readopen (pipes s p) \<Longrightarrow> (if wend then \<not> wa else \<not> ra) \<Longrightarrow>
    pipeclose p wend (s\<lparr>wakeups := []\<rparr>) = Some s' \<Longrightarrow>
    pipe_sys p (s, ra, wa) (s', ra \<and> ChNread p \<notin> set (wakeups s'), wa \<and> ChNwrite p \<notin> set (wakeups s'))"

inductive_cases pipe_sysE: "pipe_sys p (s, ra, wa) (s', ra', wa')"

definition sleepers_ok :: "u32 \<Rightarrow> ('a) kern_scheme \<times> bool \<times> bool \<Rightarrow> bool" where
  "sleepers_ok p c \<longleftrightarrow> (case c of (s, ra, wa) \<Rightarrow> pipe_wf (pipes s p) \<and>
     (ra \<longrightarrow> pipe_empty (pipes s p) \<and> p_writeopen (pipes s p) \<and> p_readopen (pipes s p)) \<and>
     (wa \<longrightarrow> pipe_full (pipes s p) \<and> p_readopen (pipes s p) \<and> p_writeopen (pipes s p)))"

lemma sleepers_step:
  assumes "pipe_sys p c c'" and "sleepers_ok p c"
  shows "sleepers_ok p c'"
  using assms
proof (induction rule: pipe_sys.induct)
  case (sys_write s addr n i r s' ra wa)
  let ?q = "pipes s p"
  have wf: "pipe_wf ?q" using sys_write by (simp add: sleepers_ok_def)
  then have wf0: "pipe_wf (pipes (s\<lparr>wakeups := []\<rparr>) p)" by simp
  define m where "m = min (nat n - i) (PIPESIZE - length (pipe_contents ?q))"
  obtain q' where q': "pipes s' = (pipes s)(p := q')" "pipe_wf q'"
    "pipe_contents q' = pipe_contents ?q @ map (\<lambda>j. addr (i + j)) [0..<m]"
    "p_readopen q' = p_readopen ?q" "p_writeopen q' = p_writeopen ?q"
    "if nat n - i \<le> PIPESIZE - length (pipe_contents ?q) then r = PReturn n \<and> wakeups s' = [ChNread p]
     else if \<not> p_readopen ?q then r = PReturn (- 1) \<and> wakeups s' = []
     else r = PSleep (i + m) \<and> wakeups s' = [ChNread p]"
    using pipewrite_spec [OF wf0, where killed = False and addr = addr and n = n and i = i] sys_write(2)
    by (auto simp: m_def)
  have wa: "pipe_full q'" if "pipe_full ?q"
  proof -
    have "m = 0" using that pq.full_iff [OF wf] by (simp add: m_def)
    then show ?thesis using that q'(2,3) pq.full_iff wf by simp
  qed
  have sl: "pipe_full q' \<and> p_readopen ?q" if "r = PSleep j" for j
  proof -
    have "\<not> nat n - i \<le> PIPESIZE - length (pipe_contents ?q)" "p_readopen ?q" using q'(6) that by (auto split: if_splits)
    then have "length (pipe_contents q') = PIPESIZE" using pq.wf_bound [OF wf] by (simp add: q'(3) m_def)
    then show ?thesis using pq.full_iff [OF q'(2)] \<open>p_readopen ?q\<close> by simp
  qed
  have P: "pipes s' p = q'" using q'(1) by simp
  have old: "ra \<longrightarrow> p_readopen ?q" "wa \<longrightarrow> pipe_full ?q \<and> p_readopen ?q"
    using sys_write(3) by (simp_all add: sleepers_ok_def)
  have ra: "\<not> (ra \<and> ChNread p \<notin> set (wakeups s'))" using q'(6) old(1) by (auto split: if_splits)
  have "pipe_full q' \<and> p_readopen q'" if "wa \<and> ChNwrite p \<notin> set (wakeups s') \<or> (\<exists>j. r = PSleep j)"
    using that wa sl old(2) q'(4) by blast
  then show ?case
    using ra q'(2,5) sys_write(1) unfolding sleepers_ok_def prod.case P by blast
next
  case (sys_read s killed addr n r addr' s' ra wa)
  let ?q = "pipes s p"
  have wf: "pipe_wf ?q" using sys_read by (simp add: sleepers_ok_def)
  then have wf0: "pipe_wf (pipes (s\<lparr>wakeups := []\<rparr>) p)" by simp
  show ?case
  proof (cases "pipe_contents ?q = [] \<and> p_writeopen ?q")
    case True
    then have "s' = s\<lparr>wakeups := []\<rparr>" "pipe_empty ?q"
      using piperead_spec [OF wf0, where killed = killed and addr = addr and n = n] sys_read(2) pq.empty_iff [OF wf] by auto
    then show ?thesis using sys_read(1,3) True wf by (auto simp: sleepers_ok_def)
  next
    case False
    then obtain q' m where q': "r = PReturn m" "pipes s' = (pipes s)(p := q')" "pipe_wf q'" "wakeups s' = [ChNwrite p]"
      using piperead_spec [OF wf0, where killed = killed and addr = addr and n = n] sys_read(2) by auto
    have "\<not> ra" using sys_read(3) False pq.empty_iff [OF wf] by (auto simp: sleepers_ok_def)
    then show ?thesis using q' by (auto simp: sleepers_ok_def)
  qed
next
  case (sys_close s wend wa ra s')
  let ?f = "if wend then (\<lambda>q. q\<lparr>p_writeopen := False\<rparr>) else (\<lambda>q. q\<lparr>p_readopen := False\<rparr>)"
  have "pipes s' = (pipes s)(p := ?f (pipes s p)) \<and> wakeups s' = [if wend then ChNread p else ChNwrite p]"
    using sys_close(1,3) by (auto simp: pipeclose_def Let_def)
  then have e: "pipes s' p = ?f (pipes s p)" "wakeups s' = [if wend then ChNread p else ChNwrite p]" by simp_all
  have wf: "pipe_wf (?f (pipes s p))" using sys_close(4) by (simp add: sleepers_ok_def pipe_wf_def)
  have "\<not> (ra \<and> ChNread p \<notin> set (wakeups s'))" "\<not> (wa \<and> ChNwrite p \<notin> set (wakeups s'))"
    using sys_close(2) e(2) by (cases wend; simp)+
  then show ?case using wf unfolding sleepers_ok_def prod.case e(1) by blast
qed

text \<open>
  C28. No wakeup is lost: in every run of a fresh pipe in which no writer is killed, a reader is
  asleep only while the pipe is empty and its write end is open, and a writer is asleep only while
  the pipe is full and its read end is open.
\<close>

theorem pipe_no_lost_wakeup:
  assumes "pipes s p = new_pipe q" and "(pipe_sys p)\<^sup>*\<^sup>* (s, False, False) (s', ra, wa)"
  shows "(ra \<longrightarrow> pipe_empty (pipes s' p) \<and> p_writeopen (pipes s' p)) \<and>
    (wa \<longrightarrow> pipe_full (pipes s' p) \<and> p_readopen (pipes s' p))"
proof -
  have "sleepers_ok p (s, False, False)"
    by (simp add: sleepers_ok_def assms(1) new_pipe_def pipe_wf_def)
  with assms(2) have "sleepers_ok p (s', ra, wa)"
    by (induction rule: rtranclp_induct) (auto dest: sleepers_step)
  then show ?thesis by (simp add: sleepers_ok_def)
qed

lemma pipe_no_lost_wakeup_witness:
  "\<exists>s'. (pipe_sys 1)\<^sup>*\<^sup>* (kern_demo, False, False) (s', True, False) \<and> pipe_empty (pipes s' 1)"
proof -
  have e: "pipe_empty demo_pipe" "p_writeopen demo_pipe" "p_readopen demo_pipe"
    by (simp_all add: demo_pipe_def new_pipe_def pipe_empty_def)
  then have "piperead 1 False zero_bytes 8 (kern_demo\<lparr>wakeups := []\<rparr>) = (PSleep 0, zero_bytes, kern_demo\<lparr>wakeups := []\<rparr>)"
    by (simp add: piperead_def)
  from pipe_sys.sys_read [OF _ this, of False False] e(3)
  have "pipe_sys 1 (kern_demo, False, False) (kern_demo\<lparr>wakeups := []\<rparr>, True, False)" by simp
  then have r: "(pipe_sys 1)\<^sup>*\<^sup>* (kern_demo, False, False) (kern_demo\<lparr>wakeups := []\<rparr>, True, False)" by blast
  have "pipes kern_demo 1 = new_pipe \<lparr>p_data = zero_bytes, p_nread = 0, p_nwrite = 0, p_readopen = True, p_writeopen = True\<rparr>"
    by (simp add: demo_pipe_def)
  from pipe_no_lost_wakeup [OF this r] show ?thesis using r by blast
qed

text \<open>
  A writer that is killed loses a wakeup: on an empty pipe, a killed process that writes more than
  512 bytes fills the buffer and returns -1 without waking the readers that sleep on it.
\<close>

lemma killed_writer_loses_wakeup:
  assumes "pipe_wf (pipes s p)" and "pipe_empty (pipes s p)" and "int PIPESIZE < n"
  shows "\<exists>s'. pipewrite p True addr n 0 s = (PReturn (- 1), s') \<and> wakeups s' = wakeups s \<and> pipe_full (pipes s' p)"
proof -
  have e: "pipe_contents (pipes s p) = []" using assms(1,2) pq.empty_iff by blast
  have big: "\<not> nat n \<le> PIPESIZE" using assms(3) by simp
  obtain r s' q' where "pipewrite p True addr n 0 s = (r, s')" "pipes s' = (pipes s)(p := q')" "pipe_wf q'"
    "length (pipe_contents q') = PIPESIZE" "r = PReturn (- 1)" "wakeups s' = wakeups s"
    using pipewrite_spec [OF assms(1), where killed = True and addr = addr and n = n and i = 0] e big by auto
  then show ?thesis using pq.full_iff by auto
qed

lemma killed_writer_loses_wakeup_witness:
  "\<exists>s'. pipewrite 1 True zero_bytes 513 0 kern_demo = (PReturn (- 1), s') \<and> wakeups s' = [] \<and> pipe_full (pipes s' 1)"
proof -
  have "pipe_wf demo_pipe" "pipe_empty demo_pipe" by (simp_all add: demo_pipe_def new_pipe_def pipe_wf_def pipe_empty_def)
  then show ?thesis using killed_writer_loses_wakeup [of kern_demo 1 513] by (simp add: PIPESIZE_def)
qed

end
