(* ===== verification/ProcBProps.thy ===== *)
theory ProcBProps
  imports ProcBInv PipeProps
begin

text \<open>
  The properties of the process layer of the demand-paging kernel: the table stays well formed from the first
  process on (pids are unique as long as the counter of pids has not wrapped around), and the scheduler serves every runnable process within one pass over the table.
\<close>

section \<open>The first process\<close>

definition slot0 :: uproc where
  "slot0 = \<lparr>u_sz = 0, u_pgdir = 0, u_kstack = 0, u_state = UNUSED, u_pid = 0, u_parent = None, u_tf = zero_tf,
     u_cont = KForkret, u_chan = None, u_killed = False, u_ofile = (\<lambda>_. None), u_cwd = None, u_name = []\<rparr>"

text \<open>The static data at boot, with the page directory \<open>kp\<close> of \<open>kvmalloc\<close>.\<close>

definition psys0 :: "ksys \<Rightarrow> u32 \<Rightarrow> psys" where
  "psys0 c kp = \<lparr>mach = c, ptab = (\<lambda>_. slot0), initp = None, nextp = 1, cur = None, cr3 = V2P kp, esp0 = 0, kpgdir = kp,
     spos = 0, uticks = 0, first = True, qnodes = (\<lambda>_. \<lparr>q_p = None, q_next = None, q_prev = None\<rparr>), freenode = None\<rparr>"

lemma psys0_simps [simp]:
  "ptab (psys0 c kp) p = slot0" "initp (psys0 c kp) = None" "nextp (psys0 c kp) = 1" "cur (psys0 c kp) = None"
  "mach (psys0 c kp) = c" "spos (psys0 c kp) = 0" "freenode (psys0 c kp) = None"
  by (simp_all add: psys0_def)

lemma slot0_simps [simp]:
  "u_state slot0 = UNUSED" "u_pid slot0 = 0" "u_parent slot0 = None" "u_ofile slot0 fd = None" "u_cwd slot0 = None"
  "u_kstack slot0 = 0" "u_pgdir slot0 = 0" "u_killed slot0 = False"
  by (simp_all add: slot0_def)

lemma namei_root: "namei D pid cd ''/'' c = Some (r, c') \<Longrightarrow> r \<noteq> None"
proof -
  have "skipelem ''/'' = None" by (simp add: skipelem_def)
  then show "namei D pid cd ''/'' c = Some (r, c') \<Longrightarrow> r \<noteq> None"
    by (auto simp: namei_def namex_def bind_eq_Some namex_loop.simps)
qed

lemma find_first: "P 0 \<Longrightarrow> find P [0..<NPROC] = Some 0"
  by (simp add: NPROC_def upt_conv_Cons)

text \<open>One runnable process in slot 0, all other slots free.\<close>

lemma one_process_pinv:
  assumes x: "u_state x = RUNNABLE" "u_pid x = 1" "u_parent x = None" "uslot_ok x"
    and s: "ptab s = (\<lambda>_. slot0)(0 := x)" "initp s = Some 0" "nextp s = 2" "cur s = None" "spos s < NPROC"
  shows "pinv F s"
proof -
  have v: "ust s = (\<lambda>_. UNUSED)(0 := RUNNABLE)" "upid s = (\<lambda>_. 0)(0 := 1)" "upar s = (\<lambda>_. None)" "on_cpu s = (\<lambda>_. None)"
    using x s by (auto simp: ust_def upid_def upar_def on_cpu_def fun_eq_iff)
  have ok: "uslot_ok slot0" by (simp add: uslot_ok_def no_files_def)
  show ?thesis
    by (rule pinvI) (use x s ok in \<open>auto simp: v run_inv_def pid_inv_def tree_inv_def NPROC_def\<close>)
qed

lemma userinit_pinv:
  assumes u: "userinit D initcode isz (psys0 c kp) = Some s"
  shows "pinv F s"
proof -
  from u obtain r s1 where a: "allocproc (psys0 c kp) = Some (r, s1)" by (auto simp: ProcB.userinit_def bind_eq_Some)
  with u have r: "r \<noteq> None" by (auto simp: ProcB.userinit_def bind_eq_Some)
  have f: "find (\<lambda>p. u_state (ptab (psys0 c kp) p) = UNUSED) [0..<NPROC] = Some 0" by (rule find_first) simp
  obtain k c1 where k: "kalloc c = Some (k, c1)" using a f by (auto simp: ProcB.allocproc_def bind_eq_Some Let_def)
  have nz: "k \<noteq> 0" and s1: "s1 = upd_slot 0 (\<lambda>x. x\<lparr>u_state := EMBRYO, u_pid := 1, u_kstack := k, u_cont := KForkret\<rparr>)
      ((psys0 c kp)\<lparr>nextp := 2, mach := c1\<rparr>)" and r0: "r = Some 0"
    using a f r k by (auto simp: ProcB.allocproc_def Let_def upd_slot_twice upd_slot_mach split: if_splits intro!: upd_slot_cong)
  from u a r0 obtain pd c2 c3 c4 cw where pd: "pd \<noteq> 0" and cw: "namei D 0 0 ''/'' c3 = Some (cw, c4)"
    and s: "s = upd_slot 0 (\<lambda>x. x\<lparr>u_pgdir := pd, u_sz := 4096, u_tf := user_tf, u_name := safestr ''initcode'' 16,
         u_cwd := cw, u_state := RUNNABLE\<rparr>) (put_mach c4 (s1\<lparr>initp := Some 0\<rparr>))"
    by (auto simp: ProcB.userinit_def bind_eq_Some split: if_splits)
  have same: "ptab (put_mach c4 (s1\<lparr>initp := Some 0\<rparr>)) p = ptab s1 p" for p
    by (rule trans [OF put_mach_slot]) (simp_all add: s1 ust_def)
  have tab: "ptab s p = (if p = 0 then (ptab s1 0)\<lparr>u_pgdir := pd, u_sz := 4096, u_tf := user_tf,
      u_name := safestr ''initcode'' 16, u_cwd := cw, u_state := RUNNABLE\<rparr> else ptab s1 p)" for p
    unfolding s by (simp add: same)
  show ?thesis
  proof (rule one_process_pinv [where x = "ptab s 0"])
    show "ptab s = (\<lambda>_. slot0)(0 := ptab s 0)" by (rule ext) (simp add: tab s1)
    show "uslot_ok (ptab s 0)" using nz pd namei_root [OF cw] by (simp add: tab s1 uslot_ok_def KERNBASE_def)
    show "initp s = Some 0" "nextp s = 2" "cur s = None" "spos s < NPROC" by (simp_all add: s s1 NPROC_def)
  qed (simp_all add: tab s1)
qed

section \<open>Well-formed tables\<close>

definition runnable_demo :: uproc where
  "runnable_demo = slot0\<lparr>u_sz := 4096, u_pgdir := 0x80200000, u_kstack := 0x80201000, u_state := RUNNABLE, u_pid := 1,
     u_tf := user_tf, u_cont := KPreempted, u_cwd := Some 0\<rparr>"

definition ksys_demo :: ksys where
  "ksys_demo = kern.extend kern_demo (ksys.fields zero_bytes 0 0 0 0 0 (\<lambda>_. None) 0 0 False [])"

definition psys_demo :: "nat \<Rightarrow> psys" where
  "psys_demo k = upd_slot 0 (\<lambda>_. runnable_demo) ((psys0 ksys_demo 0x80300000)\<lparr>initp := Some 0, nextp := 2, spos := k\<rparr>)"

lemma psys_demo_pinv: "k < NPROC \<Longrightarrow> pinv F (psys_demo k)"
  by (rule one_process_pinv [where x = runnable_demo])
     (auto simp: psys_demo_def runnable_demo_def uslot_ok_def KERNBASE_def fun_eq_iff)

definition no_dev :: "ksys devsw" where
  "no_dev = \<lparr>dv_read = (\<lambda>_. None), dv_write = (\<lambda>_. None)\<rparr>"



text \<open>No step of the run starts with the last value of the counter of pids.\<close>

definition pids_left :: "(psys \<times> klabel) list \<Rightarrow> bool" where
  "pids_left es \<longleftrightarrow> (\<forall>e \<in> set es. nextp (fst e) < INT_MAX)"

lemma kruns_pinv: "kruns D img dev s es t \<Longrightarrow> pinv F s \<Longrightarrow> (F \<Longrightarrow> pids_left es) \<Longrightarrow> pinv F t"
  by (induction rule: kruns.induct) (auto simp: pids_left_def intro: kstep_pinv)




section \<open>Round robin\<close>

text \<open>Rounds of the scheduler loop until it looks at slot \<open>q\<close> again.\<close>

definition turns_to :: "nat \<Rightarrow> psys \<Rightarrow> nat" where
  "turns_to q s = (q + NPROC - spos s) mod NPROC"

definition looks :: "(psys \<times> klabel) list \<Rightarrow> nat" where
  "looks es = length (filter (\<lambda>e. case snd e of Look _ \<Rightarrow> True | _ \<Rightarrow> False) es)"

lemma looks_simps [simp]: "looks [] = 0" "looks (es @ [(t, l)]) = looks es + (case l of Look _ \<Rightarrow> 1 | _ \<Rightarrow> 0)"
  by (simp_all add: looks_def split: klabel.split)

lemma turns_step:
  assumes "p < NPROC" "q < NPROC" "p \<noteq> q"
  shows "(q + NPROC - p) mod NPROC = Suc ((q + NPROC - Suc p mod NPROC) mod NPROC)"
proof (cases "p < q")
  case True
  then obtain d where d: "q = p + Suc d" using less_iff_Suc_add by auto
  then have "q + NPROC - p = Suc d + NPROC" "q + NPROC - Suc p = d + NPROC" "Suc p < NPROC" using assms by simp_all
  then show ?thesis using d assms mod_add_self2 [of "Suc d" NPROC] by simp
next
  case False
  then have lt: "q < p" using assms by simp
  show ?thesis
  proof (cases "Suc p = NPROC")
    case True
    then show ?thesis using lt assms by auto
  next
    case False
    then show ?thesis using lt assms by simp
  qed
qed

text \<open>
  The run \<open>es\<close> to \<open>t\<close> serves \<open>q\<close>: it has a step, after fewer than \<open>NPROC\<close> looks during which \<open>q\<close> is RUNNABLE, where
  the scheduler loop comes to \<open>q\<close>, switches to it and hands over to it with its directory loaded; what \<open>q\<close> does with
  the CPU there leads to the next state of the run.
\<close>

definition served :: "ksys devsw \<Rightarrow> nat \<Rightarrow> (psys \<times> klabel) list \<Rightarrow> psys \<Rightarrow> bool" where
  "served D q es t \<longleftrightarrow> (\<exists>es1 u es2 v. es = es1 @ (u, Look q) # es2 \<and> looks es1 < NPROC \<and>
     (\<forall>e \<in> set es1. u_state (ptab (fst e) q) = RUNNABLE) \<and>
     cur u = None \<and> spos u = q \<and> u_state (ptab u q) = RUNNABLE \<and>
     dispatch q (u\<lparr>spos := Suc q mod NPROC\<rparr>) = Some v \<and> cur v = Some q \<and> u_state (ptab v q) = RUNNING \<and>
     cr3 v = V2P (u_pgdir (ptab v q)) \<and>
     resume D q v = Some (case es2 of [] \<Rightarrow> t | e # _ \<Rightarrow> fst e))"

lemma served_append: "served D q es t \<Longrightarrow> served D q (es @ [(t, l)]) u"
  unfolding served_def by (elim exE, rule_tac x = es1 in exI, rule_tac x = ua in exI, rule_tac x = "es2 @ [(t, l)]" in exI)
    (auto split: list.split)

lemma scheduler_serves:
  assumes s: "pinv F s" "cur s = None" "ust s (spos s) = RUNNABLE" and t: "scheduler D s = Some t"
  shows "\<exists>v. dispatch (spos s) (s\<lparr>spos := Suc (spos s) mod NPROC\<rparr>) = Some v \<and> cur v = Some (spos s) \<and>
    u_state (ptab v (spos s)) = RUNNING \<and> cr3 v = V2P (u_pgdir (ptab v (spos s))) \<and> resume D (spos s) v = Some t"
proof -
  let ?s1 = "s\<lparr>spos := Suc (spos s) mod NPROC\<rparr>"
  have q: "spos s < NPROC" by (rule pinvD(6) [OF s(1)])
  then have pos: "(if spos s + 1 < NPROC then spos s + 1 else 0) = Suc (spos s) mod NPROC"
    by (cases "spos s = 63") (simp_all add: NPROC_def)
  have i: "pinv F ?s1" using pinvD [OF s(1)] by (auto simp: NPROC_def intro!: pinvI)
  obtain v where v: "dispatch (spos s) ?s1 = Some v" "pinv F v" "cur v = Some (spos s)"
    using dispatch_ok [OF i _ q] s(2,3) by auto
  have "Option.bind (dispatch (spos s) ?s1) (resume D (spos s)) = Some t"
    using t s(3) by (simp add: SysB.scheduler_def Let_def pos [simplified] views_same)
  with v pinv_cur [OF v(2,3)] pinvD(5) [OF v(2,3)] show ?thesis by (simp add: ust_def)
qed

lemma waiting_run:
  assumes "kruns D img dev s es t" "pinv False s" "q < NPROC" "ust s q = RUNNABLE"
  shows "served D q es t \<or> ust t q = RUNNABLE \<and> (\<forall>e \<in> set es. u_state (ptab (fst e) q) = RUNNABLE) \<and>
    looks es + turns_to q t = turns_to q s"
  using assms
proof (induction rule: kruns.induct)
  case (step s es t l u)
  have t: "pinv False t" using kruns_pinv [OF step.hyps(1) step.prems(1)] by simp
  show ?case
  proof (cases "served D q es t")
    case True
    then show ?thesis by (simp add: served_append)
  next
    case False
    with step have w: "ust t q = RUNNABLE" "\<forall>e \<in> set es. u_state (ptab (fst e) q) = RUNNABLE"
      "looks es + turns_to q t = turns_to q s" by simp_all
    then have nc: "cur t \<noteq> Some q" using pinv_cur [OF t, of q] by auto
    from step.hyps(2) show ?thesis
    proof (cases rule: kstep.cases)
      case look
      have sch: "spos u = Suc (spos t) mod NPROC" "\<forall>q. q \<noteq> spos t \<longrightarrow> ust t q = RUNNABLE \<longrightarrow> ust u q = RUNNABLE"
        using scheduler_ok [OF t look(2) _ look(3)] by simp_all
      show ?thesis
      proof (cases "spos t = q")
        case True
        then obtain v where v: "dispatch q (t\<lparr>spos := Suc q mod NPROC\<rparr>) = Some v" "cur v = Some q"
          "u_state (ptab v q) = RUNNING" "cr3 v = V2P (u_pgdir (ptab v q))" "resume D q v = Some u"
          using scheduler_serves [OF t look(2) _ look(3)] w(1) by auto
        have "looks es < NPROC" using w(3) by (simp add: turns_to_def NPROC_def)
        with True look v w show ?thesis
          unfolding served_def by (intro disjI1 exI [of _ es] exI [of _ "[]"] exI [of _ t] exI [of _ v]) (simp add: ust_def)
      next
        case False
        with sch w turns_step [OF pinvD(6) [OF t] step.prems(2) False] look(1) show ?thesis
          by (simp add: turns_to_def ust_def)
      qed
    next
      case (trapped cpu cr2 tf)
      have "quiet False t u" by (rule trap_quiet [OF t _ trapped(2)]) simp
      with trapped(1) w nc show ?thesis by (simp add: quiet_def turns_to_def ust_def)
    next
      case (user p m)
      with user_run_ok [OF t user(3)] w show ?thesis by (simp add: turns_to_def ust_def)
    qed
  qed
qed simp

text \<open>
  C31. Round robin is fair: whatever the other processes do, a RUNNABLE process stays RUNNABLE in the run until the loop
  of \<open>scheduler\<close> comes to it, before it has looked at \<open>NPROC\<close> slots, and is then switched to without a panic.
\<close>

theorem round_robin_serves:
  assumes "pinv False s" and "kruns D img dev s es t" and "q < NPROC" and "u_state (ptab s q) = RUNNABLE"
    and "NPROC \<le> looks es"
  shows "served D q es t"
proof -
  have "turns_to q s < NPROC" by (simp add: turns_to_def NPROC_def)
  with waiting_run [OF assms(2,1,3)] assms(4,5) show ?thesis by (auto simp: ust_def)
qed

section \<open>Examples\<close>

lemma psys_demo_simps [simp]:
  "cur (psys_demo k) = None" "spos (psys_demo k) = k" "ptab (psys_demo k) 0 = runnable_demo"
  "p \<noteq> 0 \<Longrightarrow> ptab (psys_demo k) p = slot0"
  by (simp_all add: psys_demo_def)

lemma psys_demo_next:
  assumes "0 < k" "Suc k < NPROC"
  shows "kstep no_dev img dev (psys_demo k) (Look k) (psys_demo (Suc k))"
proof -
  have "scheduler no_dev (psys_demo k) = Some (psys_demo (Suc k))"
    using assms by (simp add: SysB.scheduler_def Let_def) (simp add: psys_demo_def upd_slot_def)
  from kstep.look [OF _ this, where img = img and dev = dev] show ?thesis by simp
qed

definition demo_looks :: "nat \<Rightarrow> nat \<Rightarrow> (psys \<times> klabel) list" where
  "demo_looks k n = map (\<lambda>i. (psys_demo i, Look i)) [k..<k + n]"

lemma psys_demo_runs: "0 < k \<Longrightarrow> k + n < NPROC \<Longrightarrow> kruns no_dev img dev (psys_demo k) (demo_looks k n) (psys_demo (k + n))"
proof (induction n)
  case 0
  show ?case by (simp add: kruns.start demo_looks_def)
next
  case (Suc n)
  then have "kruns no_dev img dev (psys_demo k) (demo_looks k n @ [(psys_demo (k + n), Look (k + n))]) (psys_demo (Suc (k + n)))"
    by (intro kruns.step [OF _ psys_demo_next]) simp_all
  then show ?case by (simp add: demo_looks_def)
qed

text \<open>The last slot, and then the process in slot 0.\<close>

lemma psys_demo_wrap:
  "kstep no_dev img dev (psys_demo 63) (Look 63) (psys_demo 0)"
  "\<exists>t. kstep no_dev img dev (psys_demo 0) (Look 0) t \<and> cur t = Some 0 \<and> u_tf (ptab t 0) = user_tf"
proof -
  have "scheduler no_dev (psys_demo 63) = Some (psys_demo 0)"
    by (simp add: SysB.scheduler_def Let_def NPROC_def) (simp add: psys_demo_def upd_slot_def)
  from kstep.look [OF _ this, where img = img and dev = dev]
  show "kstep no_dev img dev (psys_demo 63) (Look 63) (psys_demo 0)" by simp
  have "\<exists>t. scheduler no_dev (psys_demo 0) = Some t \<and> cur t = Some 0 \<and> u_tf (ptab t 0) = user_tf"
    by (simp add: SysB.scheduler_def Let_def NPROC_def runnable_demo_def dispatch_def switchuvm_def resume_def
        trap_out_def killed_user_def)
  then obtain t where t: "scheduler no_dev (psys_demo 0) = Some t" "cur t = Some 0 \<and> u_tf (ptab t 0) = user_tf" by blast
  from kstep.look [OF _ t(1), where img = img and dev = dev] t(2)
  show "\<exists>t. kstep no_dev img dev (psys_demo 0) (Look 0) t \<and> cur t = Some 0 \<and> u_tf (ptab t 0) = user_tf" by auto
qed


lemma round_robin_serves_witness:
  "\<exists>t. kruns no_dev (\<lambda>_ d. d) (\<lambda>_ c. c) (psys_demo 1) (demo_looks 1 62 @ [(psys_demo 63, Look 63), (psys_demo 0, Look 0)]) t \<and>
     served no_dev 0 (demo_looks 1 62 @ [(psys_demo 63, Look 63), (psys_demo 0, Look 0)]) t"
proof -
  let ?es = "demo_looks 1 62 @ [(psys_demo 63, Look 63), (psys_demo 0, Look 0)]"
  obtain t where t: "kstep no_dev (\<lambda>_ d. d) (\<lambda>_ c. c) (psys_demo 0) (Look 0) t" using psys_demo_wrap(2) by blast
  have "kruns no_dev (\<lambda>_ d. d) (\<lambda>_ c. c) (psys_demo 1) (demo_looks 1 62) (psys_demo (1 + 62))"
    by (rule psys_demo_runs) (simp_all add: NPROC_def)
  then have r: "kruns no_dev (\<lambda>_ d. d) (\<lambda>_ c. c) (psys_demo 1) ?es t"
    using kruns.step [OF kruns.step [OF _ psys_demo_wrap(1)] t] by simp
  have p: "pinv False (psys_demo 1)" by (rule psys_demo_pinv) (simp add: NPROC_def)
  have l: "looks ?es = 64" by (simp add: looks_def demo_looks_def filter_map comp_def)
  have "served no_dev 0 ?es t"
    by (rule round_robin_serves [OF p r]) (simp_all only: NPROC_def l psys_demo_simps, simp_all add: runnable_demo_def)
  with r show ?thesis by blast
qed

end
