(* ===== verification/SwapProps.thy ===== *)
theory SwapProps
  imports Swap PipeProps VmProps
begin

text \<open>
  What the page-fault handlers do on a well-formed page directory: one frame is taken and cleared, and where it goes.
\<close>

section \<open>A fresh page\<close>

lemma take_page:
  assumes ok: "pgdir_ok s pgdir (m # xs)"
  defines "s2 \<equiv> s\<lparr>freelist := list_head xs, ram := fill (ram s) (unat (V2P m)) PGSIZE 0\<rparr>"
  shows "kalloc s = Some (m, s\<lparr>freelist := list_head xs\<rparr>)" and "m \<noteq> 0"
    and "kmemset m 0 PGSIZE (s\<lparr>freelist := list_head xs\<rparr>) = Some s2"
    and "pgdir_ok (s\<lparr>freelist := list_head xs\<rparr>) pgdir xs" and "pgdir_ok s2 pgdir xs"
    and "i < 1024 \<Longrightarrow> slot s2 pgdir i = slot s pgdir i" and "entry s2 pgdir vb = entry s pgdir vb"
proof -
  note D = pgdir_okD [OF ok]
  have m: "upage m" "m \<notin> set xs" "m \<noteq> pgdir" using D(1,3) free_pages_upage [OF D(1), of m] by (auto simp: free_pages_def)
  show k: "kalloc s = Some (m, s\<lparr>freelist := list_head xs\<rparr>)" by (rule kalloc_Cons [OF D(1)])
  show "m \<noteq> 0" by (rule upage_bounds(2) [OF m(1)])
  show "kmemset m 0 PGSIZE (s\<lparr>freelist := list_head xs\<rparr>) = Some s2"
    using upage_ptr_ok [OF m(1), of PGSIZE] by (simp add: kmemset_def s2_def)
  have f1: "free_pages (s\<lparr>freelist := list_head xs\<rparr>) xs" by (rule kalloc_Cons [OF D(1)])
  show "pgdir_ok (s\<lparr>freelist := list_head xs\<rparr>) pgdir xs" using ok f1 by (simp add: pgdir_ok_def slot_def)
  have other: "ram s2 i = ram s i" if "upage p" "p \<noteq> m" "i \<in> page_of p" for p i
  proof -
    have "page_of p \<inter> page_of m = {}" by (rule page_of_disjoint [OF that(1) m(1) that(2)])
    then have "i \<notin> page_of m" using that(3) by blast
    then show ?thesis by (simp add: s2_def fill_other)
  qed
  have sl: "slot s2 p j = slot s p j" if "upage p" "p \<noteq> m" "j < 1024" for p j
    by (rule slot_cong [OF that(3) other [OF that(1,2)]])
  have dir: "slot s2 pgdir j = slot s pgdir j" if "j < 1024" for j by (rule sl [OF D(2) _ that]) (use m in auto)
  have tab: "table (slot s pgdir j) \<noteq> m" if "j < 1024" "present (slot s pgdir j)" for j using D(4) [OF that] by auto
  have "ram s2 i = ram (s\<lparr>freelist := list_head xs\<rparr>) i" if "x \<in> set xs" "i \<in> page_of x" for x i
    using other [OF free_pages_upage [OF f1 that(1)] _ that(2)] that(1) m(2) by auto
  then have "free_pages s2 xs" using f1 by (subst free_pages_cong) (simp_all add: s2_def)
  then show "pgdir_ok s2 pgdir xs" using ok dir unfolding pgdir_ok_def by simp
  show "i < 1024 \<Longrightarrow> slot s2 pgdir i = slot s pgdir i" by (rule dir)
  show "entry s2 pgdir vb = entry s pgdir vb"
    using sl [OF _ _ PTX_less] D(4) [OF PDX_less] tab [OF PDX_less] by (auto simp: entry_def dir Let_def)
qed

lemma PGROUNDDOWN_twice [simp]: "PGROUNDDOWN (PGROUNDDOWN a) = PGROUNDDOWN a"
  by (simp add: PGROUNDDOWN_def and.assoc)

lemma one_page: "page_range (PGROUNDDOWN a) (PGROUNDDOWN (PGROUNDDOWN a + 4096 - 1)) pa = [(PGROUNDDOWN a, pa)]"
proof -
  have u: "unat (PGROUNDDOWN a) = 4096 * (unat a div 4096)" unfolding PGROUNDDOWN_def by (rule unat_page_base)
  have "unat a div 4096 < 1048576" using unat_u32_less [of a] by simp
  then have "unat (PGROUNDDOWN a + 4095) = 4096 * (unat a div 4096) + 4095"
    using u by (simp add: unat_word_ariths)
  then have "unat (PGROUNDDOWN (PGROUNDDOWN a + 4095)) = unat (PGROUNDDOWN a)"
    using u unat_page_base [of "PGROUNDDOWN a + 4095"] by (simp add: PGROUNDDOWN_def)
  then have "PGROUNDDOWN (PGROUNDDOWN a + 4095) = PGROUNDDOWN a" by (simp add: word_unat_eq_iff)
  then show ?thesis by (simp add: page_range_def add.commute [of 4095])
qed

lemma PDX_PGROUNDDOWN [simp]: "PDX (PGROUNDDOWN a) = PDX a"
  by (simp add: PDX_vpage)

section \<open>The demand-paging handler\<close>

text \<open>
  C25. The page-fault handler checks nothing about the faulting address. If the address has a page table, then whatever
  its entry was, as long as it is not a swapped page and a page is free, it now maps a cleared page that user code can write, and no other
  address changes: that is demand allocation below the size of the process, but it also holds above the size and
  for addresses of the kernel. If the address has no page table yet, a page is taken from the allocator and nothing is mapped,
  so the page is lost and the access faults again.
\<close>

theorem page_fault_unchecked:
  assumes ok: "pgdir_ok s pgdir (m # xs)" and ns: "entry s pgdir cr2 AND PTE_SWAPPED = 0"
  shows "\<exists>t. handle_pgfault D pid cd img pgdir cr2 s = Some t \<and> pgdir_ok t pgdir xs \<and>
    (if present (slot s pgdir (PDX cr2)) then
       entry t pgdir cr2 = V2P m OR (PTE_P OR PTE_W OR PTE_U) OR PTE_P \<and>
       (\<forall>i \<in> page_of m. ram t i = 0) \<and> (\<forall>vb. vpage vb \<noteq> vpage cr2 \<longrightarrow> entry t pgdir vb = entry s pgdir vb)
     else \<forall>vb. entry t pgdir vb = entry s pgdir vb)"
proof -
  let ?a = "PGROUNDDOWN cr2"
  define s1 where "s1 = s\<lparr>freelist := list_head xs\<rparr>"
  define s2 where "s2 = s\<lparr>freelist := list_head xs, ram := fill (ram s) (unat (V2P m)) PGSIZE 0\<rparr>"
  note T = take_page [OF ok, folded s1_def s2_def]
  have d1: "slot s1 p i = slot s p i" for p i by (simp add: s1_def slot_def)
  have e1: "entry s1 pgdir vb = entry s pgdir vb" for vb by (simp add: entry_def d1 Let_def)
  have k: "kalloc_or_swap D pid cd img pgdir s = Some (m, s1)" using T(1,2) by (simp add: kalloc_or_swap_def)
  show ?thesis
  proof (cases "present (slot s pgdir (PDX cr2))")
    case False
    then have "handle_pgfault D pid cd img pgdir cr2 s = Some s1"
      using walk_miss [OF ok, of ?a] k by (simp add: handle_pgfault_def map_address_def Let_def)
    with False T(4) e1 show ?thesis by auto
  next
    case True
    let ?p = "table (slot s pgdir (PDX ?a)) + 4 * of_nat (PTX ?a)" and ?v = "V2P m OR (PTE_P OR PTE_W OR PTE_U) OR PTE_P"
    have pr: "present (slot s pgdir (PDX ?a))" "present (slot s2 pgdir (PDX ?a))" using True T(6) [OF PDX_less] by simp_all
    have ea: "entry s pgdir ?a = entry s pgdir cr2" by (rule entry_vpage) simp
    have w: "walkpgdir pgdir ?a False s = Some (?p, s)" by (rule walk_hit [OF ok pr(1)])
    note E1 = set_entry_ok [OF T(4), where va = ?a, unfolded d1, OF pr(1)]
    note E = set_entry_ok [OF T(5) pr(2)]
    have "walkpgdir pgdir ?a True s2 = Some (table (slot s2 pgdir (PDX ?a)) + 4 * of_nat (PTX ?a), s2)"
      by (rule walk_hit [OF T(5) pr(2)])
    then have "paging_mappages pgdir ?a 4096 (V2P m) (PTE_P OR PTE_W OR PTE_U) s2 = Some (0, set_entry pgdir ?a ?v s2)"
      using E(4-6) unfolding paging_mappages_def PGROUNDDOWN_twice one_page by simp
    then have run: "handle_pgfault D pid cd img pgdir cr2 s = Some (set_entry pgdir ?a ?v s2)"
      using w k E1(5,6) T(3) ns ea e1 by (simp add: handle_pgfault_def map_address_def Let_def)
    have m: "upage m" "m \<noteq> table (slot s2 pgdir (PDX ?a))"
      using pgdir_okD(1) [OF ok] pgdir_okD(4) [OF ok PDX_less pr(1)] free_pages_upage [of s "m # xs" m] T(6) [OF PDX_less]
      by auto
    have "ram (set_entry pgdir ?a ?v s2) i = 0" if "i \<in> page_of m" for i
    proof -
      have "upage (table (slot s2 pgdir (PDX ?a)))" using pgdir_okD(4) [OF T(5) PDX_less pr(2)] by simp
      then have "page_of m \<inter> page_of (table (slot s2 pgdir (PDX ?a))) = {}" by (intro page_of_disjoint m)
      then have "i \<notin> page_of (table (slot s2 pgdir (PDX ?a)))" using that by blast
      then have "ram (set_entry pgdir ?a ?v s2) i = ram s2 i" unfolding set_entry_def by (intro set_slot_ram PTX_less)
      also have "\<dots> = 0" using that by (simp add: s2_def fill_def page_of_def)
      finally show ?thesis .
    qed
    then show ?thesis using run E(1,3) T(7) True by (intro exI [of _ "set_entry pgdir ?a ?v s2"]) simp
  qed
qed

text \<open>A directory with one page table, for the addresses around the start of the kernel.\<close>

definition fault_demo :: kern where
  "fault_demo = add_table 0x80200000 0x80100000 0x80201000 [0x80202000]
     (kern_demo\<lparr>freelist := 0x80201000, ram := put32 zero_bytes 0x201000 0x80202000\<rparr>)"

lemma fault_demo_ok:
  "pgdir_ok fault_demo 0x80200000 [0x80202000]" "entry fault_demo 0x80200000 0x80100000 = 0"
  "present (slot fault_demo 0x80200000 (PDX 0x80100000))"
proof -
  let ?s = "kern_demo\<lparr>freelist := 0x80201000, ram := put32 zero_bytes 0x201000 0x80202000\<rparr>"
  have z: "slot ?s 0x80200000 k = 0" if "k < 1024" for k
  proof -
    have "get32 (put32 zero_bytes 0x201000 0x80202000) (0x200000 + 4 * k) = get32 zero_bytes (0x200000 + 4 * k)"
      by (rule get32_put32_other) (use that in auto)
    then show ?thesis by (simp add: slot_def V2P_def KERNBASE_def)
  qed
  have u: "upage 0x80200000" "upage 0x80201000" "upage 0x80202000"
    by (simp_all add: upage_def kend_def V2P_def PHYSTOP_def KERNBASE_def)
  have "free_pages ?s [0x80201000, 0x80202000]"
    using u by (simp add: free_pages_def V2P_def KERNBASE_def get32_put32)
       (simp add: get32_put32_other)
  then have ok: "pgdir_ok ?s 0x80200000 [0x80201000, 0x80202000]" using z u by (simp add: pgdir_ok_def)
  have np: "\<not> present (slot ?s 0x80200000 (PDX 0x80100000))" by (simp add: z)
  note W = walk_alloc [OF ok np, folded fault_demo_def]
  show "pgdir_ok fault_demo 0x80200000 [0x80202000]" "present (slot fault_demo 0x80200000 (PDX 0x80100000))"
    by (rule W)+
  show "entry fault_demo 0x80200000 0x80100000 = 0" unfolding W(4) by (simp add: entry_def z)
qed

text \<open>A user access to an address of the kernel that the directory does not map, and its result.\<close>

lemma page_fault_unchecked_witness:
  "\<exists>t. handle_pgfault \<lparr>dv_read = \<lambda>_. None, dv_write = \<lambda>_. None\<rparr> 1 0 (\<lambda>_ d. d) 0x80200000 0x80100000 fault_demo = Some t \<and>
     entry t 0x80200000 0x80100000 = V2P 0x80202000 OR (PTE_P OR PTE_W OR PTE_U) OR PTE_P"
  using page_fault_unchecked [OF fault_demo_ok(1), of "0x80100000" "\<lparr>dv_read = \<lambda>_. None, dv_write = \<lambda>_. None\<rparr>" 1 0 "\<lambda>_ d. d"]
    fault_demo_ok(2,3) by auto

end
