(* ===== verification/Lazy.thy ===== *)
theory Lazy
  imports Sysfile SwapProps
begin

text \<open>
  Lazy page allocation (\<^verbatim>\<open>Assignment 3/G17/Part_A\<close>): \<open>sys_sbrk\<close> only moves the size, the page-fault branch of
  \<open>trap\<close> allocates, and the copies of vm.c that differ from the demand-paging kernel of Part B, in which no page is ever
  swapped. The rest of Part A's vm.c is the code modelled in Vm. \<open>None\<close> is panic or a fault of the kernel.
\<close>

section \<open>The code\<close>

definition lazy_deallocuvm :: "u32 \<Rightarrow> u32 \<Rightarrow> u32 \<Rightarrow> ('a) vm_scheme \<Rightarrow> (u32 \<times> ('a) vm_scheme) option" where
  "lazy_deallocuvm pd oldsz newsz s =
     (if oldsz \<le> newsz then Some (oldsz, s)
      else do { s1 \<leftarrow> deallocuvm_loop False pd (PGROUNDUP newsz) oldsz s; Some (newsz, s1) })"

definition lazy_freevm :: "u32 \<Rightarrow> ('a) vm_scheme \<Rightarrow> ('a) vm_scheme option" where
  "lazy_freevm pd s =
     (if pd = 0 then None
      else do {
        (_, s1) \<leftarrow> lazy_deallocuvm pd KERNBASE 0 s;
        s2 \<leftarrow> run (free_table pd) [0..<NPDENTRIES] s1;
        kfree pd s2
      })"

definition lazy_bad :: "u32 \<Rightarrow> ('a) vm_scheme \<Rightarrow> (u32 \<times> ('a) vm_scheme) option" where
  "lazy_bad d s = do { s1 \<leftarrow> lazy_freevm d s; Some (0, s1) }"

text \<open>The loop of \<open>copyuvm\<close>; a page that was never touched makes it panic.\<close>

fun lazy_copyuvm_loop :: "u32 \<Rightarrow> u32 \<Rightarrow> u32 list \<Rightarrow> ('a) vm_scheme \<Rightarrow> (u32 \<times> ('a) vm_scheme) option" where
  "lazy_copyuvm_loop pd d [] s = Some (d, s)"
| "lazy_copyuvm_loop pd d (i # is) s = do {
     (pte, s0) \<leftarrow> walkpgdir pd i False s;
     if pte = 0 then None
     else do {
       e \<leftarrow> kload pte s0;
       if e AND PTE_P = 0 then None
       else do {
         let pa = PTE_ADDR e;
         let flags = PTE_FLAGS e;
         (m, s1) \<leftarrow> kalloc s0;
         if m = 0 then lazy_bad d s1
         else do {
           src \<leftarrow> kread (P2V pa) PGSIZE s1;
           s2 \<leftarrow> kwrite m src PGSIZE s1;
           (r, s3) \<leftarrow> mappages d i 4096 (V2P m) flags s2;
           if r < 0 then do { s4 \<leftarrow> kfree m s3; lazy_bad d s4 }
           else lazy_copyuvm_loop pd d is s3
         }
       }
     }
   }"

definition lazy_copyuvm :: "u32 \<Rightarrow> u32 \<Rightarrow> ('a) vm_scheme \<Rightarrow> (u32 \<times> ('a) vm_scheme) option" where
  "lazy_copyuvm pd sz s = do {
     (d, s1) \<leftarrow> setupkvm s;
     if d = 0 then Some (0, s1) else lazy_copyuvm_loop pd d (page_steps sz) s1
   }"

text \<open>The size moves by any \<open>n\<close>, downwards too, without limit and without freeing anything.\<close>

definition lazy_sbrk :: "('a) ksys_scheme \<Rightarrow> int \<times> ('a) ksys_scheme" where
  "lazy_sbrk s =
     (case argint 0 s of
        None \<Rightarrow> (- 1, s)
      | Some n \<Rightarrow> (sint (psz s), s\<lparr>psz := psz s + n\<rparr>))"

text \<open>
  \<^verbatim>\<open>memset(0, 0, PGSIZE)\<close>, which the handler does when there is no free page. It runs with the page directory of the
  process, so it clears the frame that the process has at address 0, if the kernel can write there (the processor
  checks the writable bits of both levels for the kernel too). If it cannot, the store faults, the handler is entered again, gets
  no page again, and so on until the kernel stack overflows: \<open>None\<close>.
\<close>

definition null_memset :: "u32 \<Rightarrow> ('a) vm_scheme \<Rightarrow> ('a) vm_scheme option" where
  "null_memset pd s = do {
     d \<leftarrow> kload (pd + 4 * of_nat (PDX 0)) s;
     if d AND PTE_P = 0 \<or> d AND PTE_W = 0 then None
     else do {
       e \<leftarrow> kload (P2V (PTE_ADDR d) + 4 * of_nat (PTX 0)) s;
       if e AND PTE_P = 0 \<or> e AND PTE_W = 0 then None
       else Some (s\<lparr>ram := fill (ram s) (unat (PTE_ADDR e)) PGSIZE 0\<rparr>)
     }
   }"

text \<open>The branch for page faults; neither the result of \<open>kalloc\<close> nor that of \<open>mappages\<close> is checked.\<close>

definition lazy_fault :: "u32 \<Rightarrow> u32 \<Rightarrow> ('a) vm_scheme \<Rightarrow> ('a) vm_scheme option" where
  "lazy_fault pd cr2 s = do {
     let va = PGROUNDDOWN cr2;
     (m, s1) \<leftarrow> kalloc s;
     s2 \<leftarrow> (if m = 0 then null_memset pd s1 else kmemset m 0 PGSIZE s1);
     (_, s3) \<leftarrow> mappages pd va 4096 (V2P m) (PTE_W OR PTE_U) s2;
     Some s3
   }"

section \<open>Faults\<close>

lemma mappages_one:
  "mappages pd (PGROUNDDOWN a) 4096 pa perm s = mappages_loop True pd perm [(PGROUNDDOWN a, pa)] s"
  unfolding mappages_def PGROUNDDOWN_twice one_page ..

lemma entry_PGROUNDDOWN [simp]: "entry s pd (PGROUNDDOWN a) = entry s pd a"
  by (rule entry_vpage) simp

lemma mappages_remap:
  assumes ok: "pgdir_ok s pd xs" and pr: "present (entry s pd a)"
  shows "mappages pd (PGROUNDDOWN a) 4096 pa perm s = None"
proof -
  have d: "present (slot s pd (PDX (PGROUNDDOWN a)))" using pr by (auto simp: entry_def Let_def split: if_splits)
  show ?thesis
    using walk_hit [OF ok d, of True] set_entry_ok(5,6) [OF ok d] pr
    unfolding mappages_one by (simp add: present_def)
qed

text \<open>One page at an address that is not mapped; without a page table and without memory nothing happens.\<close>

lemma mappages_page:
  assumes ok: "pgdir_ok s pd xs" and np: "\<not> present (entry s pd a)"
  shows "\<exists>r t ys. mappages pd (PGROUNDDOWN a) 4096 pa perm s = Some (r, t) \<and> pgdir_ok t pd ys \<and> vm_frame pd xs ys s t \<and>
    set ys \<subseteq> set xs \<and> (\<forall>vb. entry t pd vb =
      (if vpage vb = vpage a \<and> (xs \<noteq> [] \<or> present (slot s pd (PDX a))) then pa OR perm OR PTE_P else entry s pd vb))"
  using ok
proof (cases rule: walk_True_cases [where va = "PGROUNDDOWN a"])
  case full
  then have "mappages pd (PGROUNDDOWN a) 4096 pa perm s = Some (- 1, s)" by (simp add: mappages_one)
  with full ok show ?thesis by (intro exI [of _ "- 1"] exI [of _ s] exI [of _ "[]"]) simp
next
  case (found s1 ys p)
  let ?v = "pa OR perm OR PTE_P"
  note E = set_entry_ok(1,3) [OF found(3,4), where v = ?v]
  have "\<not> entry s1 pd a AND PTE_P \<noteq> 0" using np found(5) by (simp add: present_def)
  then have m: "mappages pd (PGROUNDDOWN a) 4096 pa perm s = Some (0, set_entry pd (PGROUNDDOWN a) ?v s1)"
    using found(1,2,7,8) by (simp add: mappages_one)
  have fr: "vm_frame pd xs ys s (set_entry pd (PGROUNDDOWN a) ?v s1)"
    by (rule vm_frame_trans [OF found(6) set_entry_frame(1) [OF found(3,4)]])
  have "xs \<noteq> [] \<or> present (slot s pd (PDX a))"
  proof (rule ccontr)
    assume c: "\<not> (xs \<noteq> [] \<or> present (slot s pd (PDX a)))"
    then have "free_pages s []" "\<not> present (slot s pd (PDX (PGROUNDDOWN a)))" using pgdir_okD(1) [OF ok] by simp_all
    then have "walkpgdir pd (PGROUNDDOWN a) True s = Some (0, s)"
      using kload_slot [OF pgdir_okD(2) [OF ok] PDX_less, where s = s] kalloc_Nil [of s]
      by (simp add: walkpgdir_def present_def Let_def)
    with found(1,2) show False by simp
  qed
  moreover have "set ys \<subseteq> set xs" using fr by (simp add: vm_frame_def)
  ultimately show ?thesis using m fr E found(5)
    by (intro exI [of _ 0] exI [of _ "set_entry pd (PGROUNDDOWN a) ?v s1"] exI [of _ ys]) simp
qed

lemma table_pt_page: "present (slot s pd (PDX a)) \<Longrightarrow> table (slot s pd (PDX a)) \<in> pt_pages s pd"
  by (auto simp: pt_pages_def)

text \<open>The kernel can write at address 0, and the page it writes to there.\<close>

definition null_writable :: "('a) vm_scheme \<Rightarrow> u32 \<Rightarrow> bool" where
  "null_writable s pd \<longleftrightarrow> slot s pd (PDX 0) AND PTE_W \<noteq> 0 \<and> present (entry s pd 0) \<and> entry s pd 0 AND PTE_W \<noteq> 0"

definition null_page :: "('a) vm_scheme \<Rightarrow> u32 \<Rightarrow> u32" where
  "null_page s pd = P2V (PTE_ADDR (entry s pd 0))"

lemma null_memset_eq:
  assumes ok: "pgdir_ok s pd xs"
  shows "null_memset pd s =
    (if null_writable s pd then Some (s\<lparr>ram := fill (ram s) (unat (V2P (null_page s pd))) PGSIZE 0\<rparr>) else None)"
proof -
  have v: "V2P (null_page s pd) = PTE_ADDR (entry s pd 0)" by (simp add: null_page_def V2P_def P2V_def)
  show ?thesis
  proof (cases "present (slot s pd (PDX 0))")
    case True
    then show ?thesis
      using kload_slot [OF pgdir_okD(2) [OF ok] PDX_less, where s = s] set_entry_ok(5) [OF ok True]
      unfolding null_memset_def v by (simp add: null_writable_def present_def table_def)
  next
    case False
    then show ?thesis
      using kload_slot [OF pgdir_okD(2) [OF ok] PDX_less, where s = s]
      by (simp add: null_memset_def null_writable_def entry_def present_def)
  qed
qed

lemma null_memset_frame:
  assumes ok: "pgdir_ok s pd []" and f: "upage f" "f \<notin> pt_pages s pd"
  defines "s' \<equiv> s\<lparr>ram := fill (ram s) (unat (V2P f)) PGSIZE 0\<rparr>"
  shows "pgdir_ok s' pd []" and "entry s' pd vb = entry s pd vb" and "slot s' pd (PDX va) = slot s pd (PDX va)"
    and "pt_pages s' pd = pt_pages s pd"
proof -
  note D = pgdir_okD [OF ok]
  have sl: "slot s' p k = slot s p k" if "upage p" "p \<noteq> f" "k < 1024" for p k
  proof (rule slot_cong [OF that(3)])
    fix i
    assume i: "i \<in> page_of p"
    have "page_of p \<inter> page_of f = {}" by (rule page_of_disjoint [OF that(1) f(1) that(2)])
    then have "i \<notin> page_of f" using i by blast
    then show "ram s' i = ram s i" by (simp add: s'_def fill_other)
  qed
  have dir: "slot s' pd k = slot s pd k" if "k < 1024" for k
    by (rule sl [OF D(2) _ that]) (use f(2) in \<open>auto simp: pt_pages_def\<close>)
  then show "slot s' pd (PDX va) = slot s pd (PDX va)" by simp
  show "pt_pages s' pd = pt_pages s pd" by (rule pt_pages_cong [OF dir])
  have "free_pages s' []" using D(1) by (simp add: free_pages_def s'_def)
  then show "pgdir_ok s' pd []" using ok dir unfolding pgdir_ok_def by simp
  show "entry s' pd vb = entry s pd vb"
  proof (cases "present (slot s pd (PDX vb))")
    case True
    have "table (slot s pd (PDX vb)) \<noteq> f" using table_pt_page [OF True] f(2) by auto
    then show ?thesis using sl [OF _ _ PTX_less] D(4) [OF PDX_less True] by (simp add: entry_def dir Let_def)
  qed (simp add: entry_def dir)
qed

lemma V2P_null: "V2P 0 = 0x80000000"
  by code_simp

text \<open>A page outside the directory and the free list survives the mapping of a page.\<close>

lemma mappages_page_zero:
  assumes ok: "pgdir_ok s pd xs" and np: "\<not> present (entry s pd a)"
    and f: "upage f" "f \<notin> pt_pages s pd" "f \<notin> set xs" "\<forall>i \<in> page_of f. ram s i = 0"
  shows "\<exists>r t ys. mappages pd (PGROUNDDOWN a) 4096 pa perm s = Some (r, t) \<and> pgdir_ok t pd ys \<and> set ys \<subseteq> set xs \<and>
    (\<forall>i \<in> page_of f. ram t i = 0) \<and> (\<forall>vb. entry t pd vb =
      (if vpage vb = vpage a \<and> (xs \<noteq> [] \<or> present (slot s pd (PDX a))) then pa OR perm OR PTE_P else entry s pd vb))"
proof -
  obtain r t ys where M: "mappages pd (PGROUNDDOWN a) 4096 pa perm s = Some (r, t)" "pgdir_ok t pd ys" "vm_frame pd xs ys s t"
      "set ys \<subseteq> set xs" "\<forall>vb. entry t pd vb =
      (if vpage vb = vpage a \<and> (xs \<noteq> [] \<or> present (slot s pd (PDX a))) then pa OR perm OR PTE_P else entry s pd vb)"
    using mappages_page [OF ok np, of pa perm] by blast
  have "ram t i = 0" if "i \<in> page_of f" for i
    using vm_frame_page [OF M(3) ok f(1-3) that] f(4) that by simp
  with M show ?thesis by blast
qed

text \<open>
  C26. The outcomes of a page fault under lazy allocation, for a page directory in which page 0 of the process, if it is there,
  is not itself one of the page tables. A fault at an address that is mapped already, such as one of the kernel or of the guard
  page, panics. Otherwise, if a page is free, the fault is served with a cleared, user-writable page; only when it was the last one
  and a page table was needed too, nothing is mapped and the page is lost. If no page is free, the kernel
  clears page 0 of the process and then maps the physical address \<open>0x80000000\<close>, where there is no memory, if the address has a page
  table, and nothing otherwise; with no writable page 0 it faults for ever.
\<close>

theorem lazy_fault_outcomes:
  assumes ok: "pgdir_ok s pd xs"
    and zero: "null_writable s pd \<Longrightarrow> upage (null_page s pd) \<and> null_page s pd \<notin> pt_pages s pd"
  shows "if present (entry s pd cr2) then lazy_fault pd cr2 s = None
    else case xs of
      m # ys \<Rightarrow> \<exists>t zs. lazy_fault pd cr2 s = Some t \<and> pgdir_ok t pd zs \<and> set zs \<subseteq> set ys \<and> (\<forall>i \<in> page_of m. ram t i = 0) \<and>
        (\<forall>vb. entry t pd vb = (if vpage vb = vpage cr2 \<and> (ys \<noteq> [] \<or> present (slot s pd (PDX cr2)))
                               then V2P m OR (PTE_W OR PTE_U) OR PTE_P else entry s pd vb))
    | [] \<Rightarrow> if \<not> null_writable s pd then lazy_fault pd cr2 s = None
        else \<exists>t. lazy_fault pd cr2 s = Some t \<and> pgdir_ok t pd [] \<and> (\<forall>i \<in> page_of (null_page s pd). ram t i = 0) \<and>
          (\<forall>vb. entry t pd vb = (if vpage vb = vpage cr2 \<and> present (slot s pd (PDX cr2))
                                 then 0x80000000 OR (PTE_W OR PTE_U) OR PTE_P else entry s pd vb))"
proof (cases xs)
  case Nil
  have k: "kalloc s = Some (0, s)" using pgdir_okD(1) [OF ok] Nil by (simp add: kalloc_Nil)
  show ?thesis
  proof (cases "null_writable s pd")
    case False
    then have "lazy_fault pd cr2 s = None" using k null_memset_eq [OF ok] by (simp add: lazy_fault_def Let_def)
    with False Nil show ?thesis by simp
  next
    case True
    define s' where "s' = s\<lparr>ram := fill (ram s) (unat (V2P (null_page s pd))) PGSIZE 0\<rparr>"
    have f: "upage (null_page s pd)" "null_page s pd \<notin> pt_pages s pd" using zero [OF True] by simp_all
    note F = null_memset_frame [OF ok [unfolded Nil] f, folded s'_def]
    have z: "\<forall>i \<in> page_of (null_page s pd). ram s' i = 0" by (simp add: s'_def fill_def page_of_def)
    have nm: "null_memset pd s = Some s'" using True null_memset_eq [OF ok] by (simp add: s'_def)
    then have e: "lazy_fault pd cr2 s = map_option snd (mappages pd (PGROUNDDOWN cr2) 4096 0x80000000 (PTE_W OR PTE_U) s')"
      using k by (cases "mappages pd (PGROUNDDOWN cr2) 4096 0x80000000 (PTE_W OR PTE_U) s'")
        (simp_all add: lazy_fault_def Let_def V2P_null split: prod.split)
    show ?thesis
    proof (cases "present (entry s pd cr2)")
      case pr: True
      then have "lazy_fault pd cr2 s = None" using e mappages_remap [OF F(1), of cr2] F(2) by simp
      with pr show ?thesis by simp
    next
      case False
      have np: "\<not> present (entry s' pd cr2)" using False F(2) by simp
      from mappages_page_zero [OF F(1) np f(1) _ _ z, of "0x80000000" "PTE_W OR PTE_U"] f(2) F(2-4)
      obtain r t where "mappages pd (PGROUNDDOWN cr2) 4096 0x80000000 (PTE_W OR PTE_U) s' = Some (r, t)" "pgdir_ok t pd []"
        "\<forall>i \<in> page_of (null_page s pd). ram t i = 0" "\<forall>vb. entry t pd vb = (if vpage vb = vpage cr2 \<and> present (slot s pd (PDX cr2))
                                 then 0x80000000 OR (PTE_W OR PTE_U) OR PTE_P else entry s pd vb)"
        by auto
      with e True False Nil show ?thesis by auto
    qed
  qed
next
  case (Cons m ys)
  define s2 where "s2 = s\<lparr>freelist := list_head ys, ram := fill (ram s) (unat (V2P m)) PGSIZE 0\<rparr>"
  note T = take_page [OF ok [unfolded Cons], folded s2_def]
  have f: "lazy_fault pd cr2 s = map_option snd (mappages pd (PGROUNDDOWN cr2) 4096 (V2P m) (PTE_W OR PTE_U) s2)"
    using T(1,2,3) by (cases "mappages pd (PGROUNDDOWN cr2) 4096 (V2P m) (PTE_W OR PTE_U) s2")
      (simp_all add: lazy_fault_def Let_def split: prod.split)
  show ?thesis
  proof (cases "present (entry s pd cr2)")
    case True
    then have "lazy_fault pd cr2 s = None" using f mappages_remap [OF T(5), of cr2] T(7) by simp
    with True show ?thesis by simp
  next
    case False
    note D = pgdir_okD [OF ok [unfolded Cons]]
    have m: "upage m" "m \<notin> set ys" using D(1) free_pages_upage [OF D(1), of m] by (auto simp: free_pages_def)
    have "m \<noteq> table (slot s pd i)" if "i < 1024" "present (slot s pd i)" for i using D(4) [OF that] by auto
    then have mp: "m \<notin> pt_pages s2 pd" using D(3) T(6) by (auto simp: pt_pages_def)
    have z: "\<forall>i \<in> page_of m. ram s2 i = 0" by (simp add: s2_def fill_def page_of_def)
    have np: "\<not> present (entry s2 pd cr2)" using False T(7) by simp
    from mappages_page_zero [OF T(5) np m(1) mp m(2) z, of "V2P m" "PTE_W OR PTE_U", unfolded T(7) T(6) [OF PDX_less]]
    obtain r t zs where "mappages pd (PGROUNDDOWN cr2) 4096 (V2P m) (PTE_W OR PTE_U) s2 = Some (r, t)" "pgdir_ok t pd zs"
        "set zs \<subseteq> set ys" "\<forall>i \<in> page_of m. ram t i = 0" "\<forall>vb. entry t pd vb =
          (if vpage vb = vpage cr2 \<and> (ys \<noteq> [] \<or> present (slot s pd (PDX cr2))) then V2P m OR (PTE_W OR PTE_U) OR PTE_P else entry s pd vb)"
      by blast
    with f False Cons show ?thesis by auto
  qed
qed

text \<open>A directory with one page table, page 0 mapped to the last free page, and no page left.\<close>

definition full_base :: kern where
  "full_base = add_table 0x80200000 0 0x80201000 [] (kern_demo\<lparr>freelist := 0x80201000, ram := zero_bytes\<rparr>)"

definition full_demo :: kern where
  "full_demo = set_entry 0x80200000 0 (0x202000 OR 7) full_base"

lemma full_demo_ok:
  "pgdir_ok full_demo 0x80200000 []" "entry full_demo 0x80200000 va = (if vpage va = 0 then 0x202007 else 0)"
  "present (slot full_demo 0x80200000 (PDX 0))" "null_writable full_demo 0x80200000"
  "null_page full_demo 0x80200000 = 0x80202000" "0x80202000 \<notin> pt_pages full_demo 0x80200000"
proof -
  let ?s = "kern_demo\<lparr>freelist := 0x80201000, ram := zero_bytes\<rparr>"
  have z: "slot ?s p k = 0" for p k by (simp add: slot_def)
  have u: "upage 0x80200000" "upage 0x80201000" by (simp_all add: upage_def kend_def V2P_def PHYSTOP_def KERNBASE_def)
  have "free_pages ?s [0x80201000]" using u by (simp add: free_pages_def)
  then have ok: "pgdir_ok ?s 0x80200000 [0x80201000]" using z u by (simp add: pgdir_ok_def)
  have np: "\<not> present (slot ?s 0x80200000 (PDX 0))" by (simp add: z)
  note W = walk_alloc [OF ok np, folded full_base_def]
  note E = set_entry_ok(1-3) [OF W(2,3), where v = "0x202000 OR 7", folded full_demo_def]
  show "pgdir_ok full_demo 0x80200000 []" by (rule E(1))
  have ze: "entry ?s 0x80200000 vb = 0" for vb by (simp add: entry_def z)
  have v0: "vpage 0 = 0" by (simp add: vpage_def)
  show e: "entry full_demo 0x80200000 va = (if vpage va = 0 then 0x202007 else 0)" for va
    by (simp add: E(3) W(4) ze v0)
  have dir: "slot full_demo 0x80200000 i = (if i = PDX 0 then V2P 0x80201000 OR PTE_P OR PTE_W OR PTE_U else 0)" if "i < 1024" for i
  proof -
    have "slot full_demo 0x80200000 i = slot full_base 0x80200000 i" using E(2) [of i] that by simp
    then show ?thesis
      unfolding full_base_def using slot_add_table [OF u(1) u(2) _ u(1) that, where s = ?s and va = 0] by (simp add: z)
  qed
  show pr: "present (slot full_demo 0x80200000 (PDX 0))" using dir [OF PDX_less] table_new(2) [OF u(2)] by simp
  have "slot full_demo 0x80200000 (PDX 0) AND PTE_W \<noteq> 0"
    using dir [OF PDX_less] by (simp add: PTE_W_def PTE_P_def PTE_U_def V2P_def KERNBASE_def)
  then show "null_writable full_demo 0x80200000"
    by (simp add: null_writable_def e v0 present_def PTE_P_def PTE_W_def)
  show "null_page full_demo 0x80200000 = 0x80202000"
    by (simp add: null_page_def e v0 PTE_ADDR_def P2V_def KERNBASE_def)
  have "table (slot full_demo 0x80200000 i) \<noteq> 0x80202000" if i: "i < 1024" "present (slot full_demo 0x80200000 i)" for i
  proof -
    have "i = PDX 0" using dir [OF i(1)] i(2) by (auto split: if_splits)
    then show ?thesis using dir [OF i(1)] table_new(1) [OF u(2)] by simp
  qed
  then show "0x80202000 \<notin> pt_pages full_demo 0x80200000" by (auto simp: pt_pages_def)
qed

text \<open>A fault at address \<open>0x1000\<close> without memory: page 0 is cleared, and a page without memory is mapped.\<close>

lemma lazy_fault_outcomes_witness:
  "\<exists>t. lazy_fault 0x80200000 0x1000 full_demo = Some t \<and> entry t 0x80200000 0x1000 = 0x80000007 \<and>
     (\<forall>i \<in> page_of 0x80202000. ram t i = 0)"
proof -
  have u: "upage 0x80202000" by (simp add: upage_def kend_def V2P_def PHYSTOP_def KERNBASE_def)
  have v: "vpage 0x1000 = 1" "PDX 0x1000 = PDX 0" by (simp_all add: vpage_def PDX_vpage)
  have "\<exists>t. lazy_fault 0x80200000 0x1000 full_demo = Some t \<and> pgdir_ok t 0x80200000 [] \<and>
      (\<forall>i \<in> page_of 0x80202000. ram t i = 0) \<and>
      (\<forall>vb. entry t 0x80200000 vb = (if vpage vb = 1 then 0x80000000 OR (PTE_W OR PTE_U) OR PTE_P else entry full_demo 0x80200000 vb))"
    using lazy_fault_outcomes [OF full_demo_ok(1), of "0x1000"] full_demo_ok u
    by (simp add: v full_demo_ok(2))
  then show ?thesis by (auto simp: v PTE_W_def PTE_U_def PTE_P_def)
qed

text \<open>A fork after \<open>sbrk\<close> without touching the new page panics.\<close>

lemma lazy_copyuvm_untouched:
  assumes "pgdir_ok s pd xs" and "\<not> present (entry s pd i)"
  shows "lazy_copyuvm_loop pd d (i # is) s = None"
proof (cases "present (slot s pd (PDX i))")
  case True
  then show ?thesis using walk_hit [OF assms(1) True, of False] set_entry_ok(5,6) [OF assms(1) True] assms(2)
    by (simp add: present_def)
next
  case False
  then show ?thesis using walk_miss [OF assms(1) False] by simp
qed

end
