(* ===== verification/Mkfs.thy ===== *)
theory Mkfs
  imports Fs
begin

text \<open>
  The program that makes the file system image (\<^verbatim>\<open>Part_B/mkfs.c\<close>). It runs on the host: the
  image file is a sequence of sectors that grows when one beyond the end is written, a host file
  is the sequence of buffers that \<open>read\<close> returns for it, and both a failing assertion and
  \<open>exit(1)\<close> are \<open>None\<close>. The counters \<open>freeinode\<close> and \<open>freeblock\<close> and the superblock are
  the program's global variables. Messages on the terminal are left out.
\<close>

section \<open>Parameters\<close>

definition FSSIZE :: nat where "FSSIZE = 128000"
definition NINODES :: nat where "NINODES = 200"
definition nbitmap :: nat where "nbitmap = FSSIZE div (BSIZE * 8) + 1"
definition ninodeblocks :: nat where "ninodeblocks = NINODES div IPB + 1"
definition nlog :: nat where "nlog = LOGSIZE"
definition nmeta :: nat where "nmeta = 2 + nlog + ninodeblocks + nbitmap"
definition ndatablocks :: nat where "ndatablocks = FSSIZE - nmeta"

text \<open>
  Conversion to the byte order of the kernel: the bytes of \<open>y\<close> are stored one by one and read
  back as an integer of the host, an x86 as well.
\<close>

definition xshort :: "u16 \<Rightarrow> u16" where
  "xshort x = get16 (zero_bytes(0 := ucast x, 1 := ucast (drop_bit 8 x))) 0"

definition xint :: "u32 \<Rightarrow> u32" where
  "xint x = get32 (zero_bytes(0 := ucast x, 1 := ucast (drop_bit 8 x), 2 := ucast (drop_bit 16 x),
     3 := ucast (drop_bit 24 x))) 0"

section \<open>State\<close>

record mkfs =
  m_img :: "nat \<Rightarrow> bytes"
  m_nsect :: nat
  m_sb :: superblock
  m_freeinode :: u32
  m_freeblock :: u32

record dinode =
  d_type :: u16
  d_major :: u16
  d_minor :: u16
  d_nlink :: u16
  d_size :: u32
  d_addrs :: "u32 list"

definition zero_dinode :: dinode where
  "zero_dinode = \<lparr>d_type = 0, d_major = 0, d_minor = 0, d_nlink = 0, d_size = 0, d_addrs = replicate (NDIRECT + 1) 0\<rparr>"

definition read_di :: "bytes \<Rightarrow> nat \<Rightarrow> dinode" where
  "read_di b o1 = \<lparr>d_type = get16 b o1, d_major = get16 b (o1 + 2), d_minor = get16 b (o1 + 4), d_nlink = get16 b (o1 + 6),
     d_size = get32 b (o1 + 8), d_addrs = get_addrs b o1\<rparr>"

definition write_di :: "nat \<Rightarrow> dinode \<Rightarrow> bytes \<Rightarrow> bytes" where
  "write_di o1 d b = put_addrs (o1 + 12) (d_addrs d) (put32 (put16 (put16 (put16 (put16 b o1 (d_type d))
     (o1 + 2) (d_major d)) (o1 + 4) (d_minor d)) (o1 + 6) (d_nlink d)) (o1 + 8) (d_size d))"

text \<open>\<^verbatim>\<open>memmove(buf, &sb, sizeof(sb))\<close>.\<close>

definition write_sb :: "superblock \<Rightarrow> bytes \<Rightarrow> bytes" where
  "write_sb q b = put32 (put32 (put32 (put32 (put32 (put32 (put32 b 0 (sb_size q)) 4 (sb_nblocks q)) 8 (sb_ninodes q))
     12 (sb_nlog q)) 16 (sb_logstart q)) 20 (sb_inodestart q)) 24 (sb_bmapstart q)"

section \<open>Sectors\<close>

text \<open>\<^verbatim>\<open>sec * BSIZE\<close> is computed in 32 bits. A write succeeds, a read beyond the end does not.\<close>

definition sector :: "u32 \<Rightarrow> nat" where
  "sector sec = unat (sec * of_nat BSIZE) div BSIZE"

definition wsect :: "u32 \<Rightarrow> bytes \<Rightarrow> mkfs \<Rightarrow> mkfs" where
  "wsect sec buf s = s\<lparr>m_img := (m_img s)(sector sec := buf), m_nsect := max (m_nsect s) (sector sec + 1)\<rparr>"

definition rsect :: "u32 \<Rightarrow> mkfs \<Rightarrow> bytes option" where
  "rsect sec s = (if sector sec < m_nsect s then Some (m_img s (sector sec)) else None)"

section \<open>Inodes\<close>

definition winode :: "u32 \<Rightarrow> dinode \<Rightarrow> mkfs \<Rightarrow> mkfs option" where
  "winode inum ip s = do {
     let bn = of_nat (IBLOCK (unat inum) (m_sb s));
     buf \<leftarrow> rsect bn s;
     Some (wsect bn (write_di (dinode_off (unat inum)) ip buf) s)
   }"

definition rinode :: "u32 \<Rightarrow> mkfs \<Rightarrow> dinode option" where
  "rinode inum s = do {
     let bn = of_nat (IBLOCK (unat inum) (m_sb s));
     buf \<leftarrow> rsect bn s;
     Some (read_di buf (dinode_off (unat inum)))
   }"

definition ialloc_mkfs :: "u16 \<Rightarrow> mkfs \<Rightarrow> (u32 \<times> mkfs) option" where
  "ialloc_mkfs ty s = do {
     let inum = m_freeinode s;
     let s1 = s\<lparr>m_freeinode := inum + 1\<rparr>;
     s2 \<leftarrow> winode inum (zero_dinode\<lparr>d_type := xshort ty, d_nlink := xshort 1, d_size := xint 0\<rparr>) s1;
     Some (inum, s2)
   }"

text \<open>\<open>balloc\<close> of mkfs writes the bitmap block for the first \<open>used\<close> blocks.\<close>

definition balloc_mkfs :: "int \<Rightarrow> mkfs \<Rightarrow> mkfs option" where
  "balloc_mkfs used s =
     (if used < int (BSIZE * 8) then Some (wsect (sb_bmapstart (m_sb s)) (fold bit_mark [0..<nat used] zero_bytes) s)
      else None)"

section \<open>Appending to a file\<close>

text \<open>The block of index \<open>fbn\<close> of the file, taken from \<open>freeblock\<close> when there is none.\<close>

definition append_block :: "nat \<Rightarrow> dinode \<Rightarrow> mkfs \<Rightarrow> (u32 \<times> dinode \<times> mkfs) option" where
  "append_block fbn din s =
     (if fbn < NDIRECT then
        let (din1, s1) = (if xint (d_addrs din ! fbn) = 0
               then (din\<lparr>d_addrs := (d_addrs din)[fbn := xint (m_freeblock s)]\<rparr>, s\<lparr>m_freeblock := m_freeblock s + 1\<rparr>)
               else (din, s))
        in Some (xint (d_addrs din1 ! fbn), din1, s1)
      else do {
        let (din1, s1) = (if xint (d_addrs din ! NDIRECT) = 0
               then (din\<lparr>d_addrs := (d_addrs din)[NDIRECT := xint (m_freeblock s)]\<rparr>, s\<lparr>m_freeblock := m_freeblock s + 1\<rparr>)
               else (din, s));
        indirect \<leftarrow> rsect (xint (d_addrs din1 ! NDIRECT)) s1;
        let (indirect1, s2) = (if get32 indirect (4 * (fbn - NDIRECT)) = 0
               then let ind = put32 indirect (4 * (fbn - NDIRECT)) (xint (m_freeblock s1))
                    in (ind, wsect (xint (d_addrs din1 ! NDIRECT)) ind (s1\<lparr>m_freeblock := m_freeblock s1 + 1\<rparr>))
               else (indirect, s1));
        Some (xint (get32 indirect1 (4 * (fbn - NDIRECT))), din1, s2)
      })"

text \<open>
  The loop of \<open>iappend\<close>: \<open>n\<close> bytes of \<open>p\<close> from index \<open>j\<close> on are written at \<open>off\<close>. The
  assertion keeps \<open>off\<close> below 2^17, so its 32-bit arithmetic is exact.
\<close>

lemma append_rest: "0 < n \<Longrightarrow> n - min n ((off div BSIZE + 1) * BSIZE - off) < (n :: nat)"
proof -
  assume "0 < n"
  moreover have "off < (off div BSIZE + 1) * BSIZE"
    using div_mult_mod_eq [of off BSIZE] mod_less_divisor [of BSIZE off] by (simp add: BSIZE_def)
  ultimately show ?thesis by simp
qed

function iappend_loop :: "bytes \<Rightarrow> nat \<Rightarrow> nat \<Rightarrow> nat \<Rightarrow> dinode \<Rightarrow> mkfs \<Rightarrow> (nat \<times> dinode \<times> mkfs) option" where
  "iappend_loop p j n off din s =
     (if n = 0 then Some (off, din, s)
      else let fbn = off div BSIZE in
        if fbn < MAXFILE then do {
          (x, din1, s1) \<leftarrow> append_block fbn din s;
          let n1 = min n ((fbn + 1) * BSIZE - off);
          buf \<leftarrow> rsect x s1;
          let s2 = wsect x (blit buf (off - fbn * BSIZE) p j n1) s1;
          iappend_loop p (j + n1) (n - n1) (off + n1) din1 s2
        } else None)"
  by pat_completeness auto

termination
  by (relation "measure (\<lambda>(p, j, n, off, din, s). n)") (use append_rest in auto)

declare iappend_loop.simps [simp del]

definition iappend :: "u32 \<Rightarrow> bytes \<Rightarrow> nat \<Rightarrow> mkfs \<Rightarrow> mkfs option" where
  "iappend inum p n s = do {
     din \<leftarrow> rinode inum s;
     (off, din1, s1) \<leftarrow> iappend_loop p 0 n (unat (xint (d_size din))) din s;
     winode inum (din1\<lparr>d_size := xint (of_nat off)\<rparr>) s1
   }"

section \<open>The program\<close>

text \<open>
  A host file: its name on the command line and what the calls of \<open>read\<close> on it return, or
  nothing if it cannot be opened. An empty buffer stands for a result that is not positive.
\<close>

type_synonym host_file = "string \<times> u8 list list option"

definition buffer :: "u8 list \<Rightarrow> bytes" where
  "buffer c k = (if k < length c then c ! k else 0)"

fun add_chunks :: "u32 \<Rightarrow> u8 list list \<Rightarrow> mkfs \<Rightarrow> mkfs option" where
  "add_chunks inum [] s = Some s"
| "add_chunks inum (c # cs) s =
     (if c = [] then Some s
      else do {
        s1 \<leftarrow> iappend inum (buffer c) (length c) s;
        add_chunks inum cs s1
      })"

definition add_file :: "u32 \<Rightarrow> host_file \<Rightarrow> mkfs \<Rightarrow> mkfs option" where
  "add_file rootino f s =
     (if CHR 0x2F \<in> set (fst f) then None
      else case snd f of
        None \<Rightarrow> None
      | Some chunks \<Rightarrow> do {
          let name = (if fst f \<noteq> [] \<and> hd (fst f) = CHR 0x5F then tl (fst f) else fst f);
          (inum, s1) \<leftarrow> ialloc_mkfs T_FILE s;
          s2 \<leftarrow> iappend rootino (dirent name (xshort (ucast inum))) DIRENT_SIZE s1;
          add_chunks inum chunks s2
        })"

definition fix_root :: "u32 \<Rightarrow> mkfs \<Rightarrow> mkfs option" where
  "fix_root rootino s = do {
     din \<leftarrow> rinode rootino s;
     let off = xint (d_size din);
     let off1 = (off div of_nat BSIZE + 1) * of_nat BSIZE;
     winode rootino (din\<lparr>d_size := xint off1\<rparr>) s
   }"

definition mkfs_sb :: superblock where
  "mkfs_sb = \<lparr>sb_size = xint (of_nat FSSIZE), sb_nblocks = xint (of_nat ndatablocks), sb_ninodes = xint (of_nat NINODES),
     sb_nlog = xint (of_nat nlog), sb_logstart = xint 2, sb_inodestart = xint (of_nat (2 + nlog)),
     sb_bmapstart = xint (of_nat (2 + nlog + ninodeblocks))\<rparr>"

definition empty_image :: mkfs where
  "empty_image = \<lparr>m_img = (\<lambda>_. zero_bytes), m_nsect = 0, m_sb = mkfs_sb, m_freeinode = 1, m_freeblock = of_nat nmeta\<rparr>"

definition zero_image :: "mkfs \<Rightarrow> mkfs" where
  "zero_image s = fold (\<lambda>i. wsect (of_nat i) zero_bytes) [0..<FSSIZE] s"

definition main_mkfs :: "host_file list \<Rightarrow> mkfs option" where
  "main_mkfs files = do {
     let s1 = zero_image empty_image;
     let s2 = wsect 1 (write_sb (m_sb s1) zero_bytes) s1;
     (rootino, s3) \<leftarrow> ialloc_mkfs T_DIR s2;
     if rootino \<noteq> ROOTINO then None
     else do {
       s4 \<leftarrow> iappend rootino (dirent ''.'' (xshort (ucast rootino))) DIRENT_SIZE s3;
       s5 \<leftarrow> iappend rootino (dirent ''..'' (xshort (ucast rootino))) DIRENT_SIZE s4;
       s6 \<leftarrow> run (add_file rootino) files s5;
       s7 \<leftarrow> fix_root rootino s6;
       balloc_mkfs (sint (m_freeblock s7)) s7
     }
   }"

end
