(* ===== verification/MkfsInv.thy ===== *)
theory MkfsInv
  imports Mkfs FsAlloc
begin

text \<open>
  The invariant of the image that \<^verbatim>\<open>mkfs.c\<close> builds. A \<open>slot\<close> of an inode is one of the 140
  blocks of its contents or the indirect block (slot 140). The ghost map \<open>own\<close> sends every
  block handed out to the inode and slot that hold it, so no block has two holders.
\<close>

section \<open>Bytes, sectors and inodes\<close>

lemma xshort [simp]: "xshort x = x"
  using get16_put16 [of zero_bytes 0 x] by (simp add: xshort_def put16_def)

lemma xint [simp]: "xint x = x"
  using get32_put32 [of zero_bytes 0 x] by (simp add: xint_def put32_def numeral_2_eq_2)

lemma put_addrs_below: "k + 4 \<le> o1 \<Longrightarrow> get32 (put_addrs o1 as b) k = get32 b k"
  by (induction as arbitrary: o1 b) (simp_all add: byte_simps)

lemma put_addrs_outside: "k < o1 \<or> o1 + 4 * length as \<le> k \<Longrightarrow> put_addrs o1 as b k = b k"
  by (induction as arbitrary: o1 b) (auto simp: put32_other)

lemma put_addrs_at: "i < length as \<Longrightarrow> get32 (put_addrs o1 as b) (o1 + 4 * i) = as ! i"
proof (induction as arbitrary: o1 b i)
  case (Cons a as)
  show ?case
  proof (cases i)
    case (Suc i')
    then show ?thesis using Cons.IH [of i' "o1 + 4" "put32 b o1 a"] Cons.prems by (simp add: algebra_simps)
  qed (simp add: put_addrs_below)
qed simp

lemma get16_cong: "a i = b j \<Longrightarrow> a (i + 1) = b (j + 1) \<Longrightarrow> get16 a i = get16 b j"
  by (simp add: get16_def)

lemma put_addrs_get16: "k + 2 \<le> o1 \<Longrightarrow> get16 (put_addrs o1 as b) k = get16 b k"
  by (rule get16_cong) (simp_all add: put_addrs_outside)

lemma put32_get16: "k + 2 \<le> i \<or> i + 4 \<le> k \<Longrightarrow> get16 (put32 b i v) k = get16 b k"
  by (rule get16_cong) (auto simp: put32_other)

lemma get_addrs_put:
  assumes "length as = NDIRECT + 1"
  shows "get_addrs (put_addrs (o1 + 12) as b) o1 = as"
  using assms by (intro nth_equalityI) (simp_all add: get_addrs_def put_addrs_at del: upt_Suc)

lemma read_write_di:
  assumes "length (d_addrs d) = NDIRECT + 1"
  shows "read_di (write_di o1 d b) o1 = d"
  using assms by (cases d) (simp add: read_di_def write_di_def get_addrs_put put_addrs_get16 put32_get16 put_addrs_below byte_simps)

lemma put16_other: "k < i \<or> i + 2 \<le> k \<Longrightarrow> put16 b i v k = b k"
  by (auto simp: put16_def)

lemma write_di_outside:
  assumes "length (d_addrs d) = NDIRECT + 1" and "k < o1 \<or> o1 + DINODE_SIZE \<le> k"
  shows "write_di o1 d b k = b k"
proof -
  have "o1 + 12 + 4 * length (d_addrs d) \<le> o1 + DINODE_SIZE" by (simp add: assms(1) NDIRECT_def DINODE_SIZE_def)
  with assms(2) show ?thesis
    by (auto simp: write_di_def put_addrs_outside put32_other put16_other DINODE_SIZE_def)
qed

lemma read_di_cong:
  assumes "\<And>k. k < DINODE_SIZE \<Longrightarrow> a (o1 + k) = b (o1 + k)"
  shows "read_di a o1 = read_di b o1"
proof -
  have w: "get32 a (o1 + k) = get32 b (o1 + k)" if "k + 4 \<le> DINODE_SIZE" for k
    using that assms by (intro get32_cong) (simp add: add.assoc)
  have h: "get16 a (o1 + k) = get16 b (o1 + k)" if "k + 2 \<le> DINODE_SIZE" for k
    using that assms [of k] assms [of "k + 1"] by (intro get16_cong) (simp_all add: add.assoc)
  have "get_addrs a o1 = get_addrs b o1"
    using w by (auto simp: get_addrs_def NDIRECT_def DINODE_SIZE_def add.assoc)
  then show ?thesis using h [of 0] h [of 2] h [of 4] h [of 6] w [of 8] by (simp add: read_di_def DINODE_SIZE_def)
qed

lemma decode_write_sb: "decode_sb (write_sb q b) = q"
  by (cases q) (simp add: decode_sb_def write_sb_def byte_simps)

lemma sector_of_nat [simp]: "n < 2 ^ 23 \<Longrightarrow> sector (of_nat n) = n"
proof -
  assume n: "n < 2 ^ 23"
  have "(of_nat n :: 32 word) * of_nat BSIZE = of_nat (n * BSIZE)" by simp
  moreover have "unat (of_nat (n * BSIZE) :: 32 word) = n * BSIZE"
    using n by (subst unat_of_nat) (simp add: BSIZE_def)
  ultimately show ?thesis by (simp add: sector_def BSIZE_def)
qed

lemma sector_id: "unat b < 2 ^ 23 \<Longrightarrow> sector b = unat b"
  using sector_of_nat [of "unat b"] by simp

section \<open>Slots\<close>

definition slot :: "(nat \<Rightarrow> bytes) \<Rightarrow> dinode \<Rightarrow> nat \<Rightarrow> nat" where
  "slot img d q = (if q < NDIRECT then unat (d_addrs d ! q)
     else if q = MAXFILE then unat (d_addrs d ! NDIRECT)
     else if d_addrs d ! NDIRECT = 0 then 0
     else unat (get32 (img (unat (d_addrs d ! NDIRECT))) (4 * (q - NDIRECT))))"

definition ninos :: nat where "ninos = ninodeblocks * IPB"

lemmas mkfs_sizes = FSSIZE_def NINODES_def nbitmap_def ninodeblocks_def nlog_def nmeta_def ndatablocks_def ninos_def
  NDIRECT_def NINDIRECT_def MAXFILE_def IPB_def BSIZE_def DINODE_SIZE_def LOGSIZE_def

lemma nmeta_val: "nmeta = 90" "ninos = 208" "FSSIZE = 128000" "NDIRECT = 12" "MAXFILE = 140" "BSIZE = 512"
  by (simp_all add: mkfs_sizes)

lemma slot_direct: "q < NDIRECT \<Longrightarrow> slot img d q = unat (d_addrs d ! q)"
  by (simp add: slot_def)

lemma slot_indirect: "slot img d MAXFILE = unat (d_addrs d ! NDIRECT)"
  by (simp add: slot_def nmeta_val)

lemma slot_entry:
  "NDIRECT \<le> q \<Longrightarrow> q < MAXFILE \<Longrightarrow> slot img d q = (if slot img d MAXFILE = 0 then 0
     else unat (get32 (img (slot img d MAXFILE)) (4 * (q - NDIRECT))))"
  by (simp add: slot_def nmeta_val unat_eq_0)

lemma slot_img_cong:
  assumes "slot img d MAXFILE \<noteq> 0 \<Longrightarrow> img' (slot img d MAXFILE) = img (slot img d MAXFILE)"
  shows "slot img' d q = slot img d q"
proof -
  have "slot img' d MAXFILE = slot img d MAXFILE" by (simp add: slot_indirect)
  then show ?thesis
    using assms by (cases "q < NDIRECT \<or> MAXFILE < q") (auto simp: slot_def nmeta_val unat_eq_0)
qed

definition layout :: "(nat \<Rightarrow> dinode) \<Rightarrow> (nat \<Rightarrow> nat \<times> nat) \<Rightarrow> (nat \<Rightarrow> bytes) \<Rightarrow> nat \<Rightarrow> bool" where
  "layout V own img fb \<longleftrightarrow> nmeta \<le> fb \<and> (\<forall>b \<ge> fb. img b = zero_bytes) \<and>
     (\<forall>j < ninos. length (d_addrs (V j)) = NDIRECT + 1) \<and>
     (\<forall>j < ninos. \<forall>q \<le> MAXFILE. slot img (V j) q \<noteq> 0 \<longrightarrow>
        nmeta \<le> slot img (V j) q \<and> slot img (V j) q < fb \<and> own (slot img (V j) q) = (j, q))"

lemma layoutD:
  assumes "layout V own img fb"
  shows "nmeta \<le> fb" "fb \<le> b \<Longrightarrow> img b = zero_bytes" "j < ninos \<Longrightarrow> length (d_addrs (V j)) = NDIRECT + 1"
    "j < ninos \<Longrightarrow> q \<le> MAXFILE \<Longrightarrow> slot img (V j) q \<noteq> 0 \<Longrightarrow>
       nmeta \<le> slot img (V j) q \<and> slot img (V j) q < fb \<and> own (slot img (V j) q) = (j, q)"
  using assms by (simp_all add: layout_def)

text \<open>Slot \<open>q\<close> of inode \<open>i\<close> receives the block \<open>fb\<close>; only the indirect block of \<open>i\<close> may change for it.\<close>

definition grown :: "nat \<Rightarrow> nat \<Rightarrow> (nat \<Rightarrow> nat \<times> nat) \<Rightarrow> nat \<Rightarrow> (nat \<Rightarrow> dinode) \<Rightarrow> (nat \<Rightarrow> bytes) \<Rightarrow> (nat \<Rightarrow> dinode) \<Rightarrow> (nat \<Rightarrow> bytes) \<Rightarrow> bool" where
  "grown i q own fb V img V' img' \<longleftrightarrow>
     (\<forall>j < ninos. length (d_addrs (V' j)) = NDIRECT + 1) \<and>
     (\<forall>j < ninos. \<forall>r \<le> MAXFILE. slot img' (V' j) r = (if j = i \<and> r = q then fb else slot img (V j) r)) \<and>
     (\<forall>b. img' b \<noteq> img b \<longrightarrow> nmeta \<le> b \<and> b < fb \<and> own b = (i, MAXFILE))"

lemma grownD:
  assumes "grown i q own fb V img V' img'"
  shows "j < ninos \<Longrightarrow> length (d_addrs (V' j)) = NDIRECT + 1"
    "j < ninos \<Longrightarrow> r \<le> MAXFILE \<Longrightarrow> slot img' (V' j) r = (if j = i \<and> r = q then fb else slot img (V j) r)"
    "\<not> (nmeta \<le> b \<and> b < fb \<and> own b = (i, MAXFILE)) \<Longrightarrow> img' b = img b"
  using assms by (auto simp: grown_def)

lemma grown_layout:
  assumes L: "layout V own img fb" and G: "grown i q own fb V img V' img'"
  shows "layout V' (own(fb := (i, q))) img' (fb + 1)"
  unfolding layout_def
proof (intro conjI allI impI)
  show "nmeta \<le> fb + 1" using layoutD(1) [OF L] by simp
  show "img' b = zero_bytes" if "fb + 1 \<le> b" for b
    using that layoutD(2) [OF L, of b] grownD(3) [OF G, of b] by simp
  show "length (d_addrs (V' j)) = NDIRECT + 1" if "j < ninos" for j by (rule grownD(1) [OF G that])
  fix j r
  assume j: "j < ninos" and r: "r \<le> MAXFILE" and n: "slot img' (V' j) r \<noteq> 0"
  note e = grownD(2) [OF G j r]
  show "nmeta \<le> slot img' (V' j) r" "slot img' (V' j) r < fb + 1" "(own(fb := (i, q))) (slot img' (V' j) r) = (j, r)"
    using e n layoutD(1) [OF L] layoutD(4) [OF L j r] by (auto split: if_splits)
qed

section \<open>Contents\<close>

definition holds_data :: "(nat \<Rightarrow> u8 list) \<Rightarrow> (nat \<Rightarrow> bytes) \<Rightarrow> (nat \<Rightarrow> dinode) \<Rightarrow> bool" where
  "holds_data C img V \<longleftrightarrow> (\<forall>j < ninos. \<forall>k < MAXFILE * BSIZE. slot img (V j) (k div BSIZE) \<noteq> 0 \<longrightarrow>
     img (slot img (V j) (k div BSIZE)) (k mod BSIZE) = buffer (C j) k)"

lemma block_index: "k < MAXFILE * BSIZE \<Longrightarrow> k div BSIZE < MAXFILE"
  by (simp add: less_mult_imp_div_less)

lemma grown_data:
  assumes L: "layout V own img fb" and G: "grown i q own fb V img V' img'" and D: "holds_data C img V"
    and q: "q < MAXFILE \<Longrightarrow> length (C i) \<le> q * BSIZE"
  shows "holds_data C img' V'"
  unfolding holds_data_def
proof (intro allI impI)
  fix j k
  assume j: "j < ninos" and k: "k < MAXFILE * BSIZE" and n: "slot img' (V' j) (k div BSIZE) \<noteq> 0"
  have r: "k div BSIZE < MAXFILE" "k div BSIZE \<le> MAXFILE" using block_index [OF k] by simp_all
  note e = grownD(2) [OF G j r(2)]
  show "img' (slot img' (V' j) (k div BSIZE)) (k mod BSIZE) = buffer (C j) k"
  proof (cases "j = i \<and> k div BSIZE = q")
    case True
    then have "length (C i) \<le> k" using q r by (meson div_times_less_eq_dividend le_trans)
    moreover have "img' fb = zero_bytes" using grownD(3) [OF G, of fb] layoutD(2) [OF L, of fb] by simp
    ultimately show ?thesis using True e by (simp add: buffer_def)
  next
    case False
    let ?b = "slot img (V j) (k div BSIZE)"
    have eb: "slot img' (V' j) (k div BSIZE) = ?b" using False e by auto
    then have "own ?b = (j, k div BSIZE)" using n layoutD(4) [OF L j r(2)] by simp
    then have "img' ?b = img ?b" using r(1) by (intro grownD(3) [OF G]) simp
    then show ?thesis using eb n D j k by (simp add: holds_data_def)
  qed
qed

text \<open>The three ways a slot gets a block.\<close>

lemma grown_direct:
  assumes L: "layout V own img fb" and i: "i < ninos" and q: "q < NDIRECT" and fb: "fb < 2 ^ 32"
  shows "grown i q own fb V img (V(i := (V i)\<lparr>d_addrs := (d_addrs (V i))[q := of_nat fb]\<rparr>)) img"
proof -
  have len: "length (d_addrs (V i)) = NDIRECT + 1" by (rule layoutD(3) [OF L i])
  have "unat (of_nat fb :: 32 word) = fb" using fb by (subst unat_of_nat) simp
  then show ?thesis
    using layoutD(3) [OF L] len q by (auto simp: grown_def slot_def nmeta_val)
qed

lemma grown_indirect:
  assumes L: "layout V own img fb" and i: "i < ninos" and z: "slot img (V i) MAXFILE = 0" and fb: "fb < 2 ^ 32"
  shows "grown i MAXFILE own fb V img (V(i := (V i)\<lparr>d_addrs := (d_addrs (V i))[NDIRECT := of_nat fb]\<rparr>)) img"
proof -
  have len: "length (d_addrs (V i)) = NDIRECT + 1" by (rule layoutD(3) [OF L i])
  have u: "unat (of_nat fb :: 32 word) = fb" using fb by (subst unat_of_nat) simp
  have a: "d_addrs (V i) ! NDIRECT = 0" using z by (simp add: slot_indirect unat_eq_0)
  have "img fb = zero_bytes" using layoutD(2) [OF L] by simp
  then have "slot img ((V i)\<lparr>d_addrs := (d_addrs (V i))[NDIRECT := of_nat fb]\<rparr>) r =
      (if r = MAXFILE then fb else slot img (V i) r)" if "r \<le> MAXFILE" for r
    using len u a that by (simp add: slot_def nmeta_val)
  then show ?thesis using layoutD(3) [OF L] len by (auto simp: grown_def)
qed

lemma grown_entry:
  assumes L: "layout V own img fb" and i: "i < ninos" and q: "NDIRECT \<le> q" "q < MAXFILE"
    and ind: "ind = slot img (V i) MAXFILE" "ind \<noteq> 0" and fb: "fb < 2 ^ 32"
  shows "grown i q own fb V img V (img(ind := put32 (img ind) (4 * (q - NDIRECT)) (of_nat fb)))"
    (is "grown _ _ _ _ _ _ _ ?img")
proof -
  have u: "unat (of_nat fb :: 32 word) = fb" using fb by (subst unat_of_nat) simp
  have o: "nmeta \<le> ind" "ind < fb" "own ind = (i, MAXFILE)"
    using layoutD(4) [OF L i le_refl] ind by simp_all
  have "slot ?img (V j) r = (if j = i \<and> r = q then fb else slot img (V j) r)" if j: "j < ninos" and r: "r \<le> MAXFILE" for j r
  proof (cases "j = i")
    case False
    then have "ind \<noteq> slot img (V j) MAXFILE \<or> slot img (V j) MAXFILE = 0"
      using layoutD(4) [OF L j le_refl] o(3) by (cases "slot img (V j) MAXFILE = 0") auto
    then have "slot ?img (V j) r = slot img (V j) r" by (intro slot_img_cong) auto
    then show ?thesis using False by simp
  next
    case True
    have m: "slot ?img (V i) MAXFILE = ind" by (simp add: slot_indirect ind(1))
    consider "r < NDIRECT \<or> r = MAXFILE" | "r = q" | "NDIRECT \<le> r" "r < MAXFILE" "r \<noteq> q" using r by linarith
    then show ?thesis
    proof cases
      case 1
      then show ?thesis using True q m by (auto simp: slot_direct ind(1) [symmetric])
    next
      case 2
      then show ?thesis using True q m ind(2) u by (simp add: slot_entry)
    next
      case 3
      then have "get32 (put32 (img ind) (4 * (q - NDIRECT)) (of_nat fb)) (4 * (r - NDIRECT)) = get32 (img ind) (4 * (r - NDIRECT))"
        using q by (intro get32_put32_other) linarith
      then show ?thesis using True 3 m ind by (simp add: slot_entry)
    qed
  qed
  then show ?thesis using layoutD(3) [OF L] o by (auto simp: grown_def)
qed

section \<open>Appending a block\<close>

definition built :: "(nat \<Rightarrow> dinode) \<Rightarrow> (nat \<Rightarrow> u8 list) \<Rightarrow> (nat \<Rightarrow> nat \<times> nat) \<Rightarrow> mkfs \<Rightarrow> bool" where
  "built V C own s \<longleftrightarrow> layout V own (m_img s) (unat (m_freeblock s)) \<and> holds_data C (m_img s) V \<and>
     m_nsect s = FSSIZE \<and> unat (m_freeblock s) \<le> FSSIZE"

lemma builtD:
  assumes "built V C own s"
  shows "layout V own (m_img s) (unat (m_freeblock s))" "holds_data C (m_img s) V" "m_nsect s = FSSIZE"
    "unat (m_freeblock s) \<le> FSSIZE"
  using assms by (simp_all add: built_def)

text \<open>What appending leaves alone.\<close>

definition same_meta :: "mkfs \<Rightarrow> mkfs \<Rightarrow> bool" where
  "same_meta s s' \<longleftrightarrow> m_freeinode s' = m_freeinode s \<and> m_sb s' = m_sb s \<and> (\<forall>b < nmeta. m_img s' b = m_img s b)"

lemma same_meta_trans: "same_meta s t \<Longrightarrow> same_meta t u \<Longrightarrow> same_meta s u"
  by (simp add: same_meta_def)

lemma unat_u32_Suc: "unat (x :: u32) < 2 ^ 32 - 1 \<Longrightarrow> unat (x + 1) = unat x + 1"
  by (simp add: unat_word_ariths)

lemma built_grown:
  assumes B: "built V C own s" and fb: "fb = unat (m_freeblock s)" and lt: "fb < FSSIZE"
    and G: "grown i q own fb V (m_img s) V' img'" and q: "q < MAXFILE \<Longrightarrow> length (C i) \<le> q * BSIZE"
    and s': "s' = s\<lparr>m_img := img', m_freeblock := m_freeblock s + 1\<rparr>"
  shows "built V' C (own(fb := (i, q))) s'" "unat (m_freeblock s') = fb + 1" "same_meta s s'"
proof -
  show u: "unat (m_freeblock s') = fb + 1" using lt fb by (simp add: s' unat_u32_Suc nmeta_val)
  have L: "layout V own (m_img s) fb" using builtD(1) [OF B] fb by simp
  show "built V' C (own(fb := (i, q))) s'"
    using grown_layout [OF L G] grown_data [OF L G builtD(2) [OF B] q] builtD(3) [OF B] lt u
    by (simp add: built_def s')
  show "same_meta s s'" using grownD(3) [OF G] by (auto simp: same_meta_def s')
qed

lemma built_sector:
  assumes "built V C own s" and "i < ninos" and "q \<le> MAXFILE" and "slot (m_img s) (V i) q \<noteq> 0"
    and "unat x = slot (m_img s) (V i) q"
  shows "sector x = slot (m_img s) (V i) q" "rsect x s = Some (m_img s (slot (m_img s) (V i) q))"
proof -
  have lt: "slot (m_img s) (V i) q < FSSIZE"
    using layoutD(4) [OF builtD(1) [OF assms(1)] assms(2-4)] builtD(4) [OF assms(1)] by simp
  then show "sector x = slot (m_img s) (V i) q" using sector_id [of x] assms(5) by (simp add: nmeta_val)
  then show "rsect x s = Some (m_img s (slot (m_img s) (V i) q))"
    using lt builtD(3) [OF assms(1)] by (simp add: rsect_def)
qed

lemma wsect_built:
  assumes "sector x < FSSIZE" and "m_nsect s = FSSIZE"
  shows "wsect x buf s = s\<lparr>m_img := (m_img s)(sector x := buf)\<rparr>"
  using assms by (simp add: wsect_def max_def)

text \<open>
  From \<open>s\<close> to \<open>s'\<close> the slots \<open>Q\<close> of inode \<open>i\<close> that had no block have got one; nothing else has.
\<close>

definition gained :: "nat \<Rightarrow> nat set \<Rightarrow> (nat \<Rightarrow> dinode) \<Rightarrow> (nat \<Rightarrow> u8 list) \<Rightarrow> mkfs \<Rightarrow> dinode \<Rightarrow> mkfs \<Rightarrow> bool" where
  "gained i Q V C s d' s' \<longleftrightarrow>
     (\<exists>own'. built (V(i := d')) C own' s') \<and>
     (\<forall>j < ninos. \<forall>r \<le> MAXFILE. slot (m_img s') ((V(i := d')) j) r \<noteq> 0 \<longleftrightarrow>
        slot (m_img s) (V j) r \<noteq> 0 \<or> j = i \<and> r \<in> Q) \<and>
     unat (m_freeblock s') = unat (m_freeblock s) + card {q \<in> Q. slot (m_img s) (V i) q = 0} \<and>
     d' = (V i)\<lparr>d_addrs := d_addrs d'\<rparr> \<and> same_meta s s'"

lemma gained_all:
  assumes "gained i Q V C s d' s'"
  shows "j < ninos \<Longrightarrow> r \<le> MAXFILE \<Longrightarrow> slot (m_img s') ((V(i := d')) j) r \<noteq> 0 \<longleftrightarrow>
    slot (m_img s) (V j) r \<noteq> 0 \<or> j = i \<and> r \<in> Q"
  using assms unfolding gained_def by blast

lemma gained_slots:
  assumes "gained i Q V C s d' s'" and "i < ninos" and "r \<le> MAXFILE"
  shows "slot (m_img s') d' r \<noteq> 0 \<longleftrightarrow> slot (m_img s) (V i) r \<noteq> 0 \<or> r \<in> Q"
  using gained_all [OF assms] unfolding fun_upd_same by blast

lemma gained_none:
  assumes "built V C own s" and "slot (m_img s) (V i) q \<noteq> 0"
  shows "gained i {q} V C s (V i) s"
proof -
  have "{r \<in> {q}. slot (m_img s) (V i) r = 0} = {}" using assms(2) by auto
  then show ?thesis using assms by (auto simp: gained_def same_meta_def)
qed

lemma gained_one:
  assumes B: "built V C own s" and lt: "unat (m_freeblock s) < FSSIZE" and z: "slot (m_img s) (V i) q = 0"
    and G: "grown i q own (unat (m_freeblock s)) V (m_img s) (V(i := d')) img'"
    and q: "q < MAXFILE \<Longrightarrow> length (C i) \<le> q * BSIZE" and d: "d' = (V i)\<lparr>d_addrs := d_addrs d'\<rparr>"
    and s': "s' = s\<lparr>m_img := img', m_freeblock := m_freeblock s + 1\<rparr>"
  shows "gained i {q} V C s d' s'"
  unfolding gained_def
proof (intro conjI)
  note R = built_grown [OF B refl lt G q s']
  show "\<exists>own'. built (V(i := d')) C own' s'" using R(1) by blast
  have fb: "unat (m_freeblock s) \<noteq> 0" using layoutD(1) [OF builtD(1) [OF B]] by (simp add: nmeta_val)
  show "\<forall>j<ninos. \<forall>r\<le>MAXFILE. (slot (m_img s') ((V(i := d')) j) r \<noteq> 0) =
     (slot (m_img s) (V j) r \<noteq> 0 \<or> j = i \<and> r \<in> {q})"
  proof (intro allI impI)
    fix j r
    assume "j < ninos" "r \<le> MAXFILE"
    from grownD(2) [OF G this] fb s' z
    show "(slot (m_img s') ((V(i := d')) j) r \<noteq> 0) = (slot (m_img s) (V j) r \<noteq> 0 \<or> j = i \<and> r \<in> {q})"
      by (cases "j = i \<and> r = q") (auto simp del: fun_upd_apply)
  qed
  have c: "card {r \<in> {q}. slot (m_img s) (V i) r = 0} = 1"
  proof -
    have "{r \<in> {q}. slot (m_img s) (V i) r = 0} = {q}" using z by auto
    then show ?thesis by (simp only: One_nat_def card_1_singleton_iff) blast
  qed
  show "unat (m_freeblock s') = unat (m_freeblock s) + card {r \<in> {q}. slot (m_img s) (V i) r = 0}"
    unfolding c by (rule R(2))
  show "same_meta s s'" by (rule R(3))
qed (rule d)

lemma gained_trans:
  assumes 1: "gained i Q V C s d s1" and 2: "gained i R (V(i := d)) C s1 d' s'" and i: "i < ninos"
    and fin: "Q \<subseteq> {..MAXFILE}" "R \<subseteq> {..MAXFILE}"
  shows "gained i (Q \<union> R) V C s d' s'"
proof -
  have f: "finite Q" "finite R" using fin finite_subset by blast+
  have sl: "slot (m_img s1) d r = 0 \<longleftrightarrow> slot (m_img s) (V i) r = 0 \<and> r \<notin> Q" if "r \<in> R" for r
    using gained_slots [OF 1 i, of r] that fin(2) by auto
  have "{q \<in> Q \<union> R. slot (m_img s) (V i) q = 0} = {q \<in> Q. slot (m_img s) (V i) q = 0} \<union> {r \<in> R. slot (m_img s1) d r = 0}"
    using sl by blast
  moreover have "{q \<in> Q. slot (m_img s) (V i) q = 0} \<inter> {r \<in> R. slot (m_img s1) d r = 0} = {}" using sl by blast
  ultimately have c: "card {q \<in> Q \<union> R. slot (m_img s) (V i) q = 0} =
      card {q \<in> Q. slot (m_img s) (V i) q = 0} + card {r \<in> R. slot (m_img s1) d r = 0}"
    using f by (simp add: card_Un_disjoint)
  have "unat (m_freeblock s') = unat (m_freeblock s) + card {q \<in> Q \<union> R. slot (m_img s) (V i) q = 0}"
    using 1 2 unfolding c by (simp add: gained_def)
  moreover have "same_meta s s'" using 1 2 same_meta_trans unfolding gained_def by blast
  moreover have "\<exists>own'. built (V(i := d')) C own' s'" using 2 by (simp add: gained_def)
  moreover have "d' = (V i)\<lparr>d_addrs := d_addrs d'\<rparr>"
  proof -
    have "d = (V i)\<lparr>d_addrs := d_addrs d\<rparr>" "d' = d\<lparr>d_addrs := d_addrs d'\<rparr>" using 1 2 by (simp_all add: gained_def)
    then show ?thesis by (metis dinode.update_convs(6) dinode.surjective)
  qed
  moreover have "slot (m_img s') ((V(i := d')) j) r \<noteq> 0 \<longleftrightarrow> slot (m_img s) (V j) r \<noteq> 0 \<or> j = i \<and> r \<in> Q \<union> R"
    if "j < ninos" "r \<le> MAXFILE" for j r
  proof (cases "j = i")
    case True
    then show ?thesis using gained_slots [OF 1 i that(2)] gained_slots [OF 2 i that(2)] by auto
  next
    case False
    then show ?thesis using gained_all [OF 1 that] gained_all [OF 2 that] by (simp del: neq0_conv)
  qed
  ultimately show ?thesis unfolding gained_def by blast
qed

lemma append_direct:
  assumes B: "built V C own s" and i: "i < ninos" and q: "q < NDIRECT" and fb: "unat (m_freeblock s) < FSSIZE"
    and new: "slot (m_img s) (V i) q = 0 \<Longrightarrow> length (C i) \<le> q * BSIZE"
  shows "\<exists>x d' s'. append_block q (V i) s = Some (x, d', s') \<and> gained i {q} V C s d' s' \<and> unat x = slot (m_img s') d' q"
proof (cases "slot (m_img s) (V i) q = 0")
  case False
  then have "append_block q (V i) s = Some (d_addrs (V i) ! q, V i, s)"
    using q by (simp add: append_block_def slot_direct unat_eq_0)
  then show ?thesis using gained_none [OF B False] q by (auto simp: slot_direct)
next
  case True
  let ?d = "(V i)\<lparr>d_addrs := (d_addrs (V i))[q := m_freeblock s]\<rparr>"
  let ?s = "s\<lparr>m_freeblock := m_freeblock s + 1\<rparr>"
  have len: "length (d_addrs (V i)) = NDIRECT + 1" by (rule layoutD(3) [OF builtD(1) [OF B] i])
  have e: "append_block q (V i) s = Some (m_freeblock s, ?d, ?s)"
    using True q len by (simp add: append_block_def slot_direct unat_eq_0)
  have G: "grown i q own (unat (m_freeblock s)) V (m_img s) (V(i := ?d)) (m_img s)"
    using grown_direct [OF builtD(1) [OF B] i q] fb by (simp add: nmeta_val)
  have "gained i {q} V C s ?d ?s" by (rule gained_one [OF B fb True G]) (simp_all add: new True)
  moreover have "unat (m_freeblock s) = slot (m_img ?s) ?d q" using q len by (simp add: slot_direct)
  ultimately show ?thesis using e by blast
qed

text \<open>The indirect block, taken when there is none.\<close>

definition indirect_block :: "dinode \<Rightarrow> mkfs \<Rightarrow> dinode \<times> mkfs" where
  "indirect_block din s = (if xint (d_addrs din ! NDIRECT) = 0
     then (din\<lparr>d_addrs := (d_addrs din)[NDIRECT := xint (m_freeblock s)]\<rparr>, s\<lparr>m_freeblock := m_freeblock s + 1\<rparr>)
     else (din, s))"

lemma indirect_block_gained:
  assumes B: "built V C own s" and i: "i < ninos" and fb: "unat (m_freeblock s) < FSSIZE"
  shows "\<exists>d s1. indirect_block (V i) s = (d, s1) \<and> gained i {MAXFILE} V C s d s1 \<and>
    unat (m_freeblock s1) \<le> unat (m_freeblock s) + 1"
proof (cases "slot (m_img s) (V i) MAXFILE = 0")
  case False
  then show ?thesis using gained_none [OF B False] by (simp add: indirect_block_def slot_indirect unat_eq_0)
next
  case True
  let ?d = "(V i)\<lparr>d_addrs := (d_addrs (V i))[NDIRECT := m_freeblock s]\<rparr>"
  let ?s = "s\<lparr>m_freeblock := m_freeblock s + 1\<rparr>"
  have e: "indirect_block (V i) s = (?d, ?s)"
    using True by (simp add: indirect_block_def slot_indirect unat_eq_0)
  have G: "grown i MAXFILE own (unat (m_freeblock s)) V (m_img s) (V(i := ?d)) (m_img s)"
    using grown_indirect [OF builtD(1) [OF B] i True] fb by (simp add: nmeta_val)
  have g: "gained i {MAXFILE} V C s ?d ?s" by (rule gained_one [OF B fb True G]) simp_all
  have "unat (m_freeblock ?s) \<le> unat (m_freeblock s) + 1"
    using fb by (simp add: unat_u32_Suc nmeta_val)
  with e g show ?thesis by blast
qed

text \<open>The entry of the indirect block.\<close>

definition indirect_entry :: "nat \<Rightarrow> dinode \<Rightarrow> mkfs \<Rightarrow> (u32 \<times> dinode \<times> mkfs) option" where
  "indirect_entry k din s = do {
     indirect \<leftarrow> rsect (xint (d_addrs din ! NDIRECT)) s;
     let (indirect1, s2) = (if get32 indirect (4 * k) = 0
            then let ind = put32 indirect (4 * k) (xint (m_freeblock s))
                 in (ind, wsect (xint (d_addrs din ! NDIRECT)) ind (s\<lparr>m_freeblock := m_freeblock s + 1\<rparr>))
            else (indirect, s));
     Some (xint (get32 indirect1 (4 * k)), din, s2)
   }"

lemma append_block_indirect:
  "NDIRECT \<le> q \<Longrightarrow> append_block q din s = (case indirect_block din s of (d, s1) \<Rightarrow> indirect_entry (q - NDIRECT) d s1)"
  by (simp add: append_block_def indirect_block_def indirect_entry_def split: prod.split)

lemma indirect_entry_gained:
  assumes B: "built V C own s" and i: "i < ninos" and q: "NDIRECT \<le> q" "q < MAXFILE"
    and fb: "unat (m_freeblock s) < FSSIZE" and ind: "slot (m_img s) (V i) MAXFILE \<noteq> 0"
    and new: "slot (m_img s) (V i) q = 0 \<Longrightarrow> length (C i) \<le> q * BSIZE"
  shows "\<exists>x d' s'. indirect_entry (q - NDIRECT) (V i) s = Some (x, d', s') \<and> gained i {q} V C s d' s' \<and>
    unat x = slot (m_img s') d' q"
proof -
  let ?b = "slot (m_img s) (V i) MAXFILE" and ?k = "4 * (q - NDIRECT)"
  have a: "unat (d_addrs (V i) ! NDIRECT) = ?b" by (simp add: slot_indirect)
  note S = built_sector [OF B i le_refl ind a]
  have lt: "?b < FSSIZE" using layoutD(4) [OF builtD(1) [OF B] i le_refl ind] builtD(4) [OF B] by simp
  have sq: "slot (m_img s) (V i) q = unat (get32 (m_img s ?b) ?k)" using slot_entry [OF q] ind by simp
  show ?thesis
  proof (cases "slot (m_img s) (V i) q = 0")
    case False
    then have "indirect_entry (q - NDIRECT) (V i) s = Some (get32 (m_img s ?b) ?k, V i, s)"
      using sq S(2) by (simp add: indirect_entry_def unat_eq_0)
    then show ?thesis using gained_none [OF B False] sq by auto
  next
    case True
    let ?ind = "put32 (m_img s ?b) ?k (m_freeblock s)"
    let ?s = "s\<lparr>m_img := (m_img s)(?b := ?ind), m_freeblock := m_freeblock s + 1\<rparr>"
    have "wsect (d_addrs (V i) ! NDIRECT) ?ind (s\<lparr>m_freeblock := m_freeblock s + 1\<rparr>) = ?s"
      using S(1) lt builtD(3) [OF B] by (simp add: wsect_def max_def)
    then have e: "indirect_entry (q - NDIRECT) (V i) s = Some (m_freeblock s, V i, ?s)"
      using True sq S(2) by (simp add: indirect_entry_def unat_eq_0 Let_def)
    have G: "grown i q own (unat (m_freeblock s)) V (m_img s) (V(i := V i)) ((m_img s)(?b := ?ind))"
      using grown_entry [OF builtD(1) [OF B] i q refl ind] fb by (simp add: nmeta_val)
    have g: "gained i {q} V C s (V i) ?s" by (rule gained_one [OF B fb True G]) (simp_all add: new True)
    have "slot (m_img ?s) (V i) q = unat (m_freeblock s)"
      using grownD(2) [OF G i, of q] q by simp
    with e g show ?thesis by auto
  qed
qed

lemma append_block_gained:
  assumes B: "built V C own s" and i: "i < ninos" and q: "q < MAXFILE" and fb: "unat (m_freeblock s) + 2 \<le> FSSIZE"
    and new: "slot (m_img s) (V i) q = 0 \<Longrightarrow> length (C i) \<le> q * BSIZE"
  shows "\<exists>x d' s'. append_block q (V i) s = Some (x, d', s') \<and> unat x = slot (m_img s') d' q \<and>
    gained i (insert q (if NDIRECT \<le> q then {MAXFILE} else {})) V C s d' s'"
proof (cases "q < NDIRECT")
  case True
  then show ?thesis using append_direct [OF B i True _ new] fb by auto
next
  case False
  then have q1: "NDIRECT \<le> q" by simp
  obtain d s1 where 1: "indirect_block (V i) s = (d, s1)" "gained i {MAXFILE} V C s d s1"
    and fb1: "unat (m_freeblock s1) \<le> unat (m_freeblock s) + 1"
    using indirect_block_gained [OF B i] fb by auto
  then obtain own1 where B1: "built (V(i := d)) C own1 s1" by (auto simp: gained_def)
  have ind: "slot (m_img s1) ((V(i := d)) i) MAXFILE \<noteq> 0" using gained_slots [OF 1(2) i le_refl] by simp
  have new1: "slot (m_img s1) ((V(i := d)) i) q = 0 \<Longrightarrow> length (C i) \<le> q * BSIZE"
    using gained_slots [OF 1(2) i, of q] q new by auto
  have lt1: "unat (m_freeblock s1) < FSSIZE" using fb fb1 by simp
  obtain x d' s' where 2: "indirect_entry (q - NDIRECT) d s1 = Some (x, d', s')"
      "gained i {q} (V(i := d)) C s1 d' s'" "unat x = slot (m_img s') d' q"
    using indirect_entry_gained [OF B1 i q1 q lt1 ind new1] unfolding fun_upd_same by blast
  have "gained i ({MAXFILE} \<union> {q}) V C s d' s'"
    using gained_trans [OF 1(2) 2(2) i] q by auto
  then show ?thesis using 1(1) 2(1,3) q1 by (simp add: append_block_indirect insert_commute)
qed

section \<open>Writing into a block\<close>

lemma buffer_append:
  "buffer (c @ map p [j..<j + n]) k = (if k < length c then c ! k
     else if k < length c + n then p (j + (k - length c)) else 0)"
  by (auto simp: buffer_def nth_append)

lemma data_write:
  assumes B: "built V C own s" and i: "i < ninos" and q: "q < MAXFILE" and x: "x = slot (m_img s) (V i) q" "x \<noteq> 0"
    and off: "length (C i) div BSIZE = q" and n: "n \<le> (q + 1) * BSIZE - length (C i)"
    and s': "s' = s\<lparr>m_img := (m_img s)(x := blit (m_img s x) (length (C i) - q * BSIZE) p j n)\<rparr>"
  shows "built V (C(i := C i @ map p [j..<j + n])) own s'"
    and "l < ninos \<Longrightarrow> slot (m_img s') (V l) r = slot (m_img s) (V l) r" and "same_meta s s'"
proof -
  let ?off = "length (C i)" and ?C = "C(i := C i @ map p [j..<j + n])"
  have ox: "nmeta \<le> x" "x < unat (m_freeblock s)" "own x = (i, q)"
    using layoutD(4) [OF builtD(1) [OF B] i, of q] q x by simp_all
  have qo: "q * BSIZE \<le> ?off" "?off < (q + 1) * BSIZE"
    using off div_mult_mod_eq [of ?off BSIZE] mod_less_divisor [of BSIZE ?off] by (auto simp: BSIZE_def)
  have sl: "slot (m_img s') (V l) r = slot (m_img s) (V l) r" if "l < ninos" for l r
  proof (rule slot_img_cong)
    assume "slot (m_img s) (V l) MAXFILE \<noteq> 0"
    then have "own (slot (m_img s) (V l) MAXFILE) = (l, MAXFILE)" using layoutD(4) [OF builtD(1) [OF B] that le_refl] by simp
    then have "slot (m_img s) (V l) MAXFILE \<noteq> x" using ox(3) q by auto
    then show "m_img s' (slot (m_img s) (V l) MAXFILE) = m_img s (slot (m_img s) (V l) MAXFILE)" by (simp add: s')
  qed
  then show "l < ninos \<Longrightarrow> slot (m_img s') (V l) r = slot (m_img s) (V l) r" .
  show "same_meta s s'" using ox(1) by (auto simp: same_meta_def s')
  have L: "layout V own (m_img s') (unat (m_freeblock s))"
    using builtD(1) [OF B] ox(2) by (auto simp: layout_def sl) (auto simp: s')
  have "m_img s' (slot (m_img s) (V l) (k div BSIZE)) (k mod BSIZE) = buffer (?C l) k"
    if l: "l < ninos" and k: "k < MAXFILE * BSIZE" and nz: "slot (m_img s) (V l) (k div BSIZE) \<noteq> 0" for l k
  proof -
    let ?b = "slot (m_img s) (V l) (k div BSIZE)"
    have r: "k div BSIZE \<le> MAXFILE" using block_index [OF k] by simp
    have ob: "own ?b = (l, k div BSIZE)" using layoutD(4) [OF builtD(1) [OF B] l r nz] by simp
    have old: "m_img s ?b (k mod BSIZE) = buffer (C l) k" using builtD(2) [OF B] l k nz by (simp add: holds_data_def)
    show ?thesis
    proof (cases "l = i \<and> k div BSIZE = q")
      case True
      then have b: "?b = x" and kk: "k = q * BSIZE + k mod BSIZE" using x(1) by (auto simp: div_mult_mod_eq)
      have "?off - q * BSIZE \<le> k mod BSIZE \<and> k mod BSIZE < ?off - q * BSIZE + n \<longleftrightarrow> ?off \<le> k \<and> k < ?off + n"
        "k mod BSIZE - (?off - q * BSIZE) = k - ?off" using kk qo(1) by linarith+
      then show ?thesis using True b old by (auto simp: s' blit_at buffer_append) (auto simp: buffer_def)
    next
      case False
      then have "?b \<noteq> x" using ob ox(3) by auto
      moreover have "buffer (?C l) k = buffer (C l) k"
      proof (cases "l = i")
        case True
        then have "\<not> (?off \<le> k \<and> k < ?off + n)"
        proof -
          have "k div BSIZE = q" if "?off \<le> k" "k < ?off + n"
          proof -
            have "BSIZE * q \<le> k" "k < BSIZE * Suc q" using that qo n by (auto simp: mult.commute)
            then show ?thesis by (rule div_nat_eqI)
          qed
          then show ?thesis using False True by blast
        qed
        then show ?thesis using True by (auto simp: buffer_append) (auto simp: buffer_def)
      qed simp
      ultimately show ?thesis using old by (simp add: s')
    qed
  qed
  then have "holds_data ?C (m_img s') V" by (simp add: holds_data_def sl)
  then show "built V ?C own s'" using L builtD(3,4) [OF B] by (simp add: built_def) (simp add: s')
qed

section \<open>The invariant\<close>

text \<open>A file has blocks for its bytes and no others.\<close>

definition tight :: "u8 list \<Rightarrow> (nat \<Rightarrow> bytes) \<Rightarrow> dinode \<Rightarrow> bool" where
  "tight c img d \<longleftrightarrow> (\<forall>q < MAXFILE. slot img d q \<noteq> 0 \<longleftrightarrow> q * BSIZE < length c) \<and>
     (slot img d MAXFILE \<noteq> 0 \<longleftrightarrow> NDIRECT * BSIZE < length c)"

definition file_blocks :: "nat \<Rightarrow> nat" where
  "file_blocks n = (n + BSIZE - 1) div BSIZE + (if NDIRECT * BSIZE < n then 1 else 0)"

definition total_blocks :: "(nat \<Rightarrow> u8 list) \<Rightarrow> nat" where
  "total_blocks C = nmeta + (\<Sum>j < ninos. file_blocks (length (C j)))"

lemma total_blocks_upd:
  "i < ninos \<Longrightarrow> total_blocks (C(i := c)) + file_blocks (length (C i)) = total_blocks C + file_blocks (length c)"
  by (simp add: total_blocks_def sum.remove [of "{..<ninos}" i])

definition minv :: "(nat \<Rightarrow> dinode) \<Rightarrow> (nat \<Rightarrow> u8 list) \<Rightarrow> mkfs \<Rightarrow> bool" where
  "minv V C s \<longleftrightarrow> (\<exists>own. built V C own s) \<and> (\<forall>j < ninos. tight (C j) (m_img s) (V j)) \<and>
     unat (m_freeblock s) = total_blocks C"

lemma new_blocks:
  assumes "0 < n" and "n \<le> (off div BSIZE + 1) * BSIZE - off"
  shows "file_blocks (off + n) = file_blocks off + (if off = off div BSIZE * BSIZE then 1 else 0)
      + (if NDIRECT \<le> off div BSIZE \<and> \<not> NDIRECT * BSIZE < off then 1 else 0)"
proof -
  define q where "q = off div BSIZE"
  define r where "r = off mod BSIZE"
  have off: "off = q * 512 + r" "r < 512" by (simp_all add: q_def r_def BSIZE_def)
  have n: "n \<le> 512 - r" using assms(2) off by (simp add: q_def [symmetric] BSIZE_def)
  have d: "(q * 512 + k) div 512 = q + k div 512" for k :: nat by simp
  have "(off + n + 511) div 512 = q + 1"
  proof -
    have "(r + n + 511) div 512 = 1" using n off(2) assms(1) by (intro div_nat_eqI) auto
    then show ?thesis using d [of "r + n + 511"] off(1) by (simp add: add.assoc)
  qed
  moreover have "(off + 511) div 512 = (if r = 0 then q else q + 1)"
  proof (cases "r = 0")
    case False
    then have "(r + 511) div 512 = 1" using off(2) by (intro div_nat_eqI) auto
    then show ?thesis using False d [of "r + 511"] off(1) by (simp add: add.assoc)
  qed (use off in simp)
  moreover have "off = q * BSIZE \<longleftrightarrow> r = 0" using off by (auto simp: BSIZE_def)
  moreover have "NDIRECT * BSIZE < off + n \<longleftrightarrow> NDIRECT \<le> q" using off n assms(1) by (auto simp: nmeta_val)
  moreover have "NDIRECT * BSIZE < off \<longrightarrow> NDIRECT \<le> q" using off by (auto simp: nmeta_val)
  ultimately show ?thesis unfolding q_def [symmetric] by (simp add: file_blocks_def) (simp add: BSIZE_def ac_simps)
qed

lemma card_slots:
  assumes "q < MAXFILE"
  shows "card {r \<in> insert q (if b then {MAXFILE} else {}). P r} = (if P q then 1 else 0) + (if b \<and> P MAXFILE then 1 else 0)"
proof -
  have "{r \<in> insert q (if b then {MAXFILE} else {}). P r} = (if P q then {q} else {}) \<union> (if b \<and> P MAXFILE then {MAXFILE} else {})"
    by auto
  then show ?thesis using assms by (auto simp: card_insert_if)
qed

lemma minv_step:
  assumes M: "minv V C s" and i: "i < ninos" and q: "q = length (C i) div BSIZE" "q < MAXFILE" and n: "0 < n"
    and n1: "n1 = min n ((q + 1) * BSIZE - length (C i))" and room: "total_blocks C + 2 \<le> FSSIZE"
  shows "\<exists>x d' s1 buf. append_block q (V i) s = Some (x, d', s1) \<and> rsect x s1 = Some buf \<and>
    minv (V(i := d')) (C(i := C i @ map p [j..<j + n1])) (wsect x (blit buf (length (C i) - q * BSIZE) p j n1) s1) \<and>
    d' = (V i)\<lparr>d_addrs := d_addrs d'\<rparr> \<and> same_meta s (wsect x (blit buf (length (C i) - q * BSIZE) p j n1) s1)"
proof -
  let ?off = "length (C i)" and ?Q = "insert q (if NDIRECT \<le> q then {MAXFILE} else {})"
  let ?C = "C(i := C i @ map p [j..<j + n1])"
  obtain own where B: "built V C own s" using M by (auto simp: minv_def)
  have fb: "unat (m_freeblock s) = total_blocks C" and T: "\<And>j. j < ninos \<Longrightarrow> tight (C j) (m_img s) (V j)"
    using M by (simp_all add: minv_def)
  have qo: "q * BSIZE \<le> ?off" "?off < (q + 1) * BSIZE"
    using q(1) div_mult_mod_eq [of ?off BSIZE] mod_less_divisor [of BSIZE ?off] by (auto simp: BSIZE_def)
  then have n1': "0 < n1" "n1 \<le> (q + 1) * BSIZE - ?off" using n n1 by simp_all
  have z: "slot (m_img s) (V i) q = 0 \<longleftrightarrow> ?off = q * BSIZE" using T [OF i] q(2) qo(1) by (auto simp: tight_def)
  have zi: "slot (m_img s) (V i) MAXFILE = 0 \<longleftrightarrow> \<not> NDIRECT * BSIZE < ?off" using T [OF i] by (auto simp: tight_def)
  obtain x d' s1 where a: "append_block q (V i) s = Some (x, d', s1)" "unat x = slot (m_img s1) d' q"
      and g: "gained i ?Q V C s d' s1"
    using append_block_gained [OF B i q(2)] room fb z by auto
  obtain own' where B1: "built (V(i := d')) C own' s1" using g by (auto simp: gained_def)
  let ?x = "slot (m_img s1) ((V(i := d')) i) q"
  have x: "?x \<noteq> 0" "unat x = ?x" using gained_slots [OF g i, of q] q(2) a(2) by auto
  note S = built_sector [OF B1 i less_imp_le [OF q(2)] x]
  let ?buf = "blit (m_img s1 ?x) (?off - q * BSIZE) p j n1"
  have "?x < FSSIZE" using layoutD(4) [OF builtD(1) [OF B1] i less_imp_le [OF q(2)] x(1)] builtD(4) [OF B1] by simp
  then have w: "wsect x ?buf s1 = s1\<lparr>m_img := (m_img s1)(?x := ?buf)\<rparr>" (is "_ = ?s")
    using S(1) builtD(3) [OF B1] by (simp add: wsect_def max_def)
  note D = data_write [OF B1 i q(2) refl x(1) q(1) [symmetric] n1'(2) refl, where p = p and j = j]
  have tight: "tight (?C l) (m_img ?s) ((V(i := d')) l)" if l: "l < ninos" for l
  proof (cases "l = i")
    case False
    have "slot (m_img ?s) (V l) r \<noteq> 0 \<longleftrightarrow> slot (m_img s) (V l) r \<noteq> 0" if "r \<le> MAXFILE" for r
      using gained_all [OF g l that] D(2) [OF l, of r] False by (simp del: neq0_conv)
    then show ?thesis using T [OF l] False by (simp add: tight_def del: neq0_conv)
  next
    case True
    have sl: "slot (m_img ?s) d' r \<noteq> 0 \<longleftrightarrow> slot (m_img s) (V i) r \<noteq> 0 \<or> r \<in> ?Q" if "r \<le> MAXFILE" for r
      using gained_slots [OF g i that] D(2) [OF i, of r] by (simp del: neq0_conv)
    have t: "slot (m_img s) (V i) r \<noteq> 0 \<longleftrightarrow> r * BSIZE < ?off" if "r < MAXFILE" for r
      using T [OF i] that by (simp add: tight_def)
    have "r * BSIZE < ?off \<or> r = q \<longleftrightarrow> r * BSIZE < ?off + n1" for r
      using qo n1' by (cases "r < q"; cases "q < r") (auto simp: BSIZE_def)
    then have "slot (m_img ?s) d' r \<noteq> 0 \<longleftrightarrow> r * BSIZE < ?off + n1" if "r < MAXFILE" for r
      using sl [of r] t [OF that] that by auto
    moreover have "slot (m_img ?s) d' MAXFILE \<noteq> 0 \<longleftrightarrow> NDIRECT * BSIZE < ?off + n1"
      using sl [OF le_refl] zi q(2) qo n1' by (auto simp: nmeta_val)
    ultimately show ?thesis using True by (simp add: tight_def del: neq0_conv)
  qed
  have "unat (m_freeblock ?s) = total_blocks C + (if ?off = q * BSIZE then 1 else 0)
      + (if NDIRECT \<le> q \<and> \<not> NDIRECT * BSIZE < ?off then 1 else 0)"
    using g z zi card_slots [OF q(2)] by (simp add: gained_def fb)
  then have "unat (m_freeblock ?s) = total_blocks ?C"
    using new_blocks [OF n1'(1), of ?off] n1'(2) q(1) total_blocks_upd [OF i, of C "C i @ map p [j..<j + n1]"] by simp
  then have "minv (V(i := d')) ?C ?s" using D(1) tight unfolding minv_def by blast
  moreover have "same_meta s ?s" using g D(3) same_meta_trans unfolding gained_def by blast
  moreover have "d' = (V i)\<lparr>d_addrs := d_addrs d'\<rparr>" using g by (simp add: gained_def)
  ultimately show ?thesis using a(1) S(2) w by auto
qed

lemma file_blocks_mono: "m \<le> n \<Longrightarrow> file_blocks m \<le> file_blocks n"
  unfolding file_blocks_def by (intro add_mono div_le_mono) auto

lemma total_blocks_le: "i < ninos \<Longrightarrow> length (C i) \<le> length c \<Longrightarrow> total_blocks C \<le> total_blocks (C(i := c))"
  using total_blocks_upd [of i C c] file_blocks_mono [of "length (C i)" "length c"] by simp

lemma minv_loop:
  assumes "minv V C s" and i: "i < ninos" and "length (C i) + n \<le> MAXFILE * BSIZE"
    and "total_blocks (C(i := C i @ map p [j..<j + n])) + 2 \<le> FSSIZE"
  shows "\<exists>d' s'. iappend_loop p j n (length (C i)) (V i) s = Some (length (C i) + n, d', s') \<and>
    minv (V(i := d')) (C(i := C i @ map p [j..<j + n])) s' \<and> d' = (V i)\<lparr>d_addrs := d_addrs d'\<rparr> \<and> same_meta s s'"
  using assms(1,3,4)
proof (induction n arbitrary: V C s j rule: less_induct)
  case (less n)
  let ?off = "length (C i)"
  define q where "q = ?off div BSIZE"
  define n1 where "n1 = min n ((q + 1) * BSIZE - ?off)"
  show ?case
  proof (cases "n = 0")
    case True
    then have "iappend_loop p j n ?off (V i) s = Some (?off + n, V i, s)" by (simp add: iappend_loop.simps)
    moreover have "V(i := V i) = V" "C(i := C i @ map p [j..<j + n]) = C" using True by auto
    ultimately show ?thesis using less.prems(1) True by (auto simp: same_meta_def simp del: fun_upd_apply)
  next
    case False
    have qm: "q < MAXFILE" using less.prems(2) False block_index [of ?off] by (simp add: q_def)
    have "total_blocks C + 2 \<le> FSSIZE" using total_blocks_le [OF i, of C "C i @ map p [j..<j + n]"] less.prems(3) by (simp del: fun_upd_apply)
    from minv_step [OF less.prems(1) i q_def qm _ n1_def this, of p j] False
    obtain x d s1 buf where st: "append_block q (V i) s = Some (x, d, s1)" "rsect x s1 = Some buf"
      and M: "minv (V(i := d)) (C(i := C i @ map p [j..<j + n1])) (wsect x (blit buf (?off - q * BSIZE) p j n1) s1)"
      and d: "d = (V i)\<lparr>d_addrs := d_addrs d\<rparr>"
      and sm: "same_meta s (wsect x (blit buf (?off - q * BSIZE) p j n1) s1)" by blast
    let ?C1 = "C(i := C i @ map p [j..<j + n1])" and ?s1 = "wsect x (blit buf (?off - q * BSIZE) p j n1) s1"
    have n1: "0 < n1" "n1 \<le> n"
      using False append_rest [of n ?off] by (auto simp: n1_def q_def)
    have sp: "map p [j..<j + n1] @ map p [j + n1..<j + n1 + (n - n1)] = map p [j..<j + n]"
      using n1(2) upt_add_eq_append [of j "j + n1" "n - n1"] by (simp flip: map_append)
    have C2: "?C1(i := ?C1 i @ map p [j + n1..<j + n1 + (n - n1)]) = C(i := C i @ map p [j..<j + n])"
      using sp by (simp add: fun_eq_iff)
    have len: "length (?C1 i) = ?off + n1" by simp
    have "\<exists>d' s'. iappend_loop p (j + n1) (n - n1) (length (?C1 i)) ((V(i := d)) i) ?s1 = Some (length (?C1 i) + (n - n1), d', s') \<and>
      minv ((V(i := d))(i := d')) (?C1(i := ?C1 i @ map p [j + n1..<j + n1 + (n - n1)])) s' \<and>
      d' = ((V(i := d)) i)\<lparr>d_addrs := d_addrs d'\<rparr> \<and> same_meta ?s1 s'"
    proof (rule less.IH [OF _ M])
      show "n - n1 < n" using n1 by simp
      show "length (?C1 i) + (n - n1) \<le> MAXFILE * BSIZE" using n1 less.prems(2) by simp
      show "total_blocks (?C1(i := ?C1 i @ map p [j + n1..<j + n1 + (n - n1)])) + 2 \<le> FSSIZE"
        unfolding C2 by (rule less.prems(3))
    qed
    then obtain d' s' where r: "iappend_loop p (j + n1) (n - n1) (?off + n1) d ?s1 = Some (?off + n, d', s')"
      and M': "minv (V(i := d')) (C(i := C i @ map p [j..<j + n])) s'" and d': "d' = d\<lparr>d_addrs := d_addrs d'\<rparr>"
      and sm': "same_meta ?s1 s'"
      using n1(2) unfolding C2 by auto
    have "iappend_loop p j n ?off (V i) s = Some (?off + n, d', s')"
    proof -
      have "min n (BSIZE + q * BSIZE - ?off) = n1" by (simp add: n1_def)
      then show ?thesis
        using False qm st r by (subst iappend_loop.simps) (simp add: q_def [symmetric] Let_def)
    qed
    moreover have "d' = (V i)\<lparr>d_addrs := d_addrs d'\<rparr>" using d d' by (metis dinode.update_convs(6) dinode.surjective)
    ultimately show ?thesis using M' same_meta_trans [OF sm sm'] by blast
  qed
qed

end
