(* ===== verification/MkfsRun.thy ===== *)
theory MkfsRun
  imports MkfsInv
begin

text \<open>
  The operations of \<^verbatim>\<open>mkfs.c\<close> on an image at rest, with every inode written back: what
  \<open>iappend\<close>, \<open>ialloc\<close> and the loop over the host files do to the contents of the files.
\<close>

section \<open>Inodes on the disk\<close>

definition inode_at :: "mkfs \<Rightarrow> nat \<Rightarrow> dinode" where
  "inode_at s j = read_di (m_img s (IBLOCK j (m_sb s))) (dinode_off j)"

definition istart :: nat where "istart = 2 + nlog"

lemma istart_val: "istart = 32" "ninodeblocks = 26" "IPB = 8"
  by (simp_all add: istart_def mkfs_sizes)

lemma mkfs_sb_istart: "unat (sb_inodestart mkfs_sb) = istart"
  by (simp_all add: mkfs_sb_def istart_def mkfs_sizes)

lemma iblock: "i < ninos \<Longrightarrow> IBLOCK i mkfs_sb = istart + i div IPB \<and> istart + i div IPB < istart + ninodeblocks"
  by (simp add: IBLOCK_def mkfs_sb_istart ninos_def less_mult_imp_div_less)

definition ready :: "mkfs \<Rightarrow> bool" where
  "ready s \<longleftrightarrow> m_sb s = mkfs_sb \<and> m_nsect s = FSSIZE"

lemma unat_small: "i < ninos \<Longrightarrow> unat (of_nat i :: u32) = i"
  by (subst unat_of_nat) (simp add: nmeta_val)

lemma iblock_sector:
  assumes "i < ninos"
  shows "sector (of_nat (IBLOCK i mkfs_sb)) = istart + i div IPB" "istart + i div IPB < FSSIZE"
proof -
  have b: "IBLOCK i mkfs_sb = istart + i div IPB" "istart + i div IPB < 58" using iblock [OF assms] by (simp_all add: istart_val)
  then have "istart + i div IPB < 2 ^ 23" by simp
  then show "sector (of_nat (IBLOCK i mkfs_sb)) = istart + i div IPB" unfolding b(1) by (rule sector_of_nat)
  show "istart + i div IPB < FSSIZE" using b(2) by (simp add: nmeta_val)
qed

lemma rinode_at:
  assumes "ready s" and "i < ninos"
  shows "rinode (of_nat i) s = Some (inode_at s i)"
  using assms iblock_sector [OF assms(2)] iblock [OF assms(2)]
  by (simp add: rinode_def ready_def rsect_def inode_at_def unat_small del: of_nat_add)

lemma dinode_off_apart:
  assumes "i \<noteq> j" and "i div IPB = j div IPB"
  shows "dinode_off j + DINODE_SIZE \<le> dinode_off i \<or> dinode_off i + DINODE_SIZE \<le> dinode_off j"
proof -
  have "i mod IPB \<noteq> j mod IPB" using assms by (metis div_mult_mod_eq)
  then show ?thesis by (auto simp: dinode_off_def DINODE_SIZE_def)
qed

definition put_inode :: "nat \<Rightarrow> dinode \<Rightarrow> mkfs \<Rightarrow> mkfs" where
  "put_inode i d s = s\<lparr>m_img := (m_img s)(istart + i div IPB :=
     write_di (dinode_off i) d (m_img s (istart + i div IPB)))\<rparr>"

lemma winode_put:
  assumes "ready s" and "i < ninos"
  shows "winode (of_nat i) d s = Some (put_inode i d s)"
  using assms iblock_sector [OF assms(2)] iblock [OF assms(2)]
  by (simp add: winode_def ready_def rsect_def put_inode_def wsect_def unat_small max_def del: of_nat_add)

lemma put_inode_simps [simp]:
  "m_sb (put_inode i d s) = m_sb s" "m_nsect (put_inode i d s) = m_nsect s"
  "m_freeblock (put_inode i d s) = m_freeblock s" "m_freeinode (put_inode i d s) = m_freeinode s"
  "ready (put_inode i d s) = ready s"
  by (simp_all add: put_inode_def ready_def)

lemma put_inode_img:
  assumes "i < ninos" and "b < istart \<or> istart + ninodeblocks \<le> b"
  shows "m_img (put_inode i d s) b = m_img s b"
  using iblock [OF assms(1)] assms(2) by (auto simp: put_inode_def)

lemma inode_at_put:
  assumes "ready s" and "i < ninos" and "j < ninos" and "length (d_addrs d) = NDIRECT + 1"
  shows "inode_at (put_inode i d s) j = (if j = i then d else inode_at s j)"
proof -
  have b: "IBLOCK j mkfs_sb = istart + j div IPB" "IBLOCK i mkfs_sb = istart + i div IPB"
    using iblock assms by simp_all
  have "read_di (write_di (dinode_off i) d x) (dinode_off j) = read_di x (dinode_off j)"
    if "j \<noteq> i" "j div IPB = i div IPB" for x
    using dinode_off_apart [OF that] by (intro read_di_cong write_di_outside assms(4)) auto
  then show ?thesis
    using assms(1) b read_write_di [OF assms(4)] by (auto simp: inode_at_def put_inode_def ready_def)
qed

section \<open>An image at rest\<close>

text \<open>The invariant looks at inodes through \<open>V\<close> and at the image from \<open>nmeta\<close> on.\<close>

lemma slot_from_data:
  assumes "layout V own img fb" and "j < ninos" and "\<forall>b \<ge> nmeta. img' b = img b"
  shows "slot img' (V j) r = slot img (V j) r"
proof (rule slot_img_cong)
  assume "slot img (V j) MAXFILE \<noteq> 0"
  then show "img' (slot img (V j) MAXFILE) = img (slot img (V j) MAXFILE)"
    using layoutD(4) [OF assms(1,2) le_refl] assms(3) by simp
qed

lemma slot_addrs_cong: "d_addrs d' = d_addrs d \<Longrightarrow> slot img d' r = slot img d r"
  by (simp add: slot_def)

lemma minv_cong:
  assumes M: "minv V C s" and img: "\<forall>b \<ge> nmeta. m_img s' b = m_img s b" and V: "\<And>j. j < ninos \<Longrightarrow> d_addrs (V' j) = d_addrs (V j)"
    and "m_freeblock s' = m_freeblock s" and "m_nsect s' = m_nsect s"
  shows "minv V' C s'"
proof -
  obtain own where B: "built V C own s" using M by (auto simp: minv_def)
  note L = builtD(1) [OF B]
  have sl: "slot (m_img s') (V' j) r = slot (m_img s) (V j) r" if "j < ninos" for j r
    using slot_from_data [OF L that img] slot_addrs_cong [OF V [OF that]] by simp
  have L': "layout V' own (m_img s') (unat (m_freeblock s))"
    using L img V sl by (simp add: layout_def)
  have "holds_data C (m_img s') V'"
    unfolding holds_data_def
  proof (intro allI impI)
    fix j k
    assume j: "j < ninos" and k: "k < MAXFILE * BSIZE" and n: "slot (m_img s') (V' j) (k div BSIZE) \<noteq> 0"
    have "k div BSIZE \<le> MAXFILE" using block_index [OF k] by simp
    then have "nmeta \<le> slot (m_img s) (V j) (k div BSIZE)" using layoutD(4) [OF L j] n sl [OF j] by simp
    then show "m_img s' (slot (m_img s') (V' j) (k div BSIZE)) (k mod BSIZE) = buffer (C j) k"
      using img builtD(2) [OF B] n j k by (simp add: sl holds_data_def)
  qed
  then have "built V' C own s'" using L' builtD(3,4) [OF B] assms(4,5) by (simp add: built_def)
  moreover have "tight (C j) (m_img s') (V' j)" if "j < ninos" for j
    using M that sl [OF that] by (simp add: minv_def tight_def)
  ultimately show ?thesis using M assms(4) by (auto simp: minv_def)
qed

definition meta_ok :: "mkfs \<Rightarrow> bool" where
  "meta_ok s \<longleftrightarrow> (\<forall>b < nmeta. b < istart \<or> istart + ninodeblocks \<le> b \<longrightarrow>
     m_img s b = (if b = 1 then write_sb mkfs_sb zero_bytes else zero_bytes))"

definition sound_image :: "(nat \<Rightarrow> u8 list) \<Rightarrow> mkfs \<Rightarrow> bool" where
  "sound_image C s \<longleftrightarrow> ready s \<and> meta_ok s \<and> minv (inode_at s) C s \<and>
     (\<forall>j < ninos. d_size (inode_at s j) = of_nat (length (C j)) \<and> length (C j) \<le> MAXFILE * BSIZE)"

definition kind :: "dinode \<Rightarrow> u16 \<times> u16 \<times> u16 \<times> u16" where
  "kind d = (d_type d, d_major d, d_minor d, d_nlink d)"

lemma put_inode_meta: "i < ninos \<Longrightarrow> meta_ok s \<Longrightarrow> meta_ok (put_inode i d s)"
  by (simp add: meta_ok_def put_inode_img)

lemma put_inode_data: "i < ninos \<Longrightarrow> \<forall>b \<ge> nmeta. m_img (put_inode i d s) b = m_img s b"
  using put_inode_img [of i] by (auto simp: nmeta_val istart_val)

lemma total_blocks_mono: "(\<And>j. j < ninos \<Longrightarrow> length (C j) \<le> length (D j)) \<Longrightarrow> total_blocks C \<le> total_blocks D"
  by (auto simp: total_blocks_def intro!: sum_mono file_blocks_mono)

lemma size_word: "n \<le> MAXFILE * BSIZE \<Longrightarrow> unat (of_nat n :: u32) = n"
  by (subst unat_of_nat) (simp add: nmeta_val)

lemma iappend_image:
  assumes I: "sound_image C s" and i: "i < ninos" and len: "length (C i) + n \<le> MAXFILE * BSIZE"
    and room: "total_blocks (C(i := C i @ map p [0..<n])) + 2 \<le> FSSIZE"
  shows "\<exists>s'. iappend (of_nat i) p n s = Some s' \<and> sound_image (C(i := C i @ map p [0..<n])) s' \<and>
    m_freeinode s' = m_freeinode s \<and> (\<forall>j < ninos. kind (inode_at s' j) = kind (inode_at s j))"
proof -
  let ?C = "C(i := C i @ map p [0..<n])"
  have R: "ready s" and M: "minv (inode_at s) C s" and sz: "d_size (inode_at s i) = of_nat (length (C i))"
    using I i by (simp_all add: sound_image_def)
  obtain d s1 where l: "iappend_loop p 0 n (length (C i)) (inode_at s i) s = Some (length (C i) + n, d, s1)"
      and M1: "minv ((inode_at s)(i := d)) ?C s1" and d: "d = (inode_at s i)\<lparr>d_addrs := d_addrs d\<rparr>" and sm: "same_meta s s1"
    using minv_loop [OF M i len, of p 0] room by auto
  let ?d = "d\<lparr>d_size := of_nat (length (C i) + n)\<rparr>" and ?s = "put_inode i (d\<lparr>d_size := of_nat (length (C i) + n)\<rparr>) s1"
  obtain own1 where B1: "built ((inode_at s)(i := d)) ?C own1 s1" using M1 by (auto simp: minv_def)
  have R1: "ready s1" using R sm builtD(3) [OF B1] by (simp add: ready_def same_meta_def)
  have "unat (d_size (inode_at s i)) = length (C i)" using sz len by (simp add: size_word)
  then have e: "iappend (of_nat i) p n s = Some ?s"
    using rinode_at [OF R i] l winode_put [OF R1 i] by (simp add: iappend_def)
  have a: "length (d_addrs ?d) = NDIRECT + 1" using layoutD(3) [OF builtD(1) [OF B1] i] by simp
  have same: "inode_at s1 j = inode_at s j" if "j < ninos" for j
    proof -
    have "istart + j div IPB < nmeta" using iblock [OF that] by (simp add: nmeta_val istart_val)
    then show ?thesis using R R1 sm iblock [OF that] by (simp add: inode_at_def ready_def same_meta_def)
  qed
  have at: "inode_at ?s j = (if j = i then ?d else inode_at s j)" if "j < ninos" for j
    using inode_at_put [OF R1 i that a] same [OF that] by simp
  have kd: "kind (inode_at ?s j) = kind (inode_at s j)" if "j < ninos" for j
    using at [OF that] d by (cases d; cases "inode_at s i") (auto simp: kind_def)
  have "meta_ok s1" using I sm by (simp add: sound_image_def meta_ok_def same_meta_def)
  then have mo: "meta_ok ?s" by (rule put_inode_meta [OF i])
  have "minv (inode_at ?s) ?C ?s"
    by (rule minv_cong [OF M1 put_inode_data [OF i]]) (use at in auto)
  moreover have "d_size (inode_at ?s j) = of_nat (length (?C j)) \<and> length (?C j) \<le> MAXFILE * BSIZE" if "j < ninos" for j
    using at [OF that] I that len by (auto simp: sound_image_def)
  ultimately have "sound_image ?C ?s" using R1 mo by (simp add: sound_image_def)
  then show ?thesis using e kd sm by (auto simp: same_meta_def)
qed

section \<open>Creating a file\<close>

lemma ialloc_image:
  assumes I: "sound_image C s" and i: "i < ninos" and fi: "m_freeinode s = of_nat i" and c: "C i = []"
  shows "\<exists>s'. ialloc_mkfs ty s = Some (of_nat i, s') \<and> sound_image C s' \<and> m_freeinode s' = of_nat (Suc i) \<and>
    (\<forall>j < ninos. kind (inode_at s' j) = (if j = i then (ty, 0, 0, 1) else kind (inode_at s j)))"
proof -
  let ?d = "zero_dinode\<lparr>d_type := ty, d_nlink := 1, d_size := 0\<rparr>" and ?s1 = "s\<lparr>m_freeinode := m_freeinode s + 1\<rparr>"
  let ?s = "put_inode i ?d ?s1"
  have R: "ready ?s1" using I by (simp add: sound_image_def ready_def)
  have e: "ialloc_mkfs ty s = Some (of_nat i, ?s)"
    using winode_put [OF R i, of ?d] fi by (simp add: ialloc_mkfs_def Let_def)
  have a: "length (d_addrs ?d) = NDIRECT + 1" by (simp add: zero_dinode_def)
  have at: "inode_at ?s j = (if j = i then ?d else inode_at s j)" if "j < ninos" for j
    using inode_at_put [OF R i that a] by (simp add: inode_at_def)
  have M: "minv (inode_at s) C s" using I by (simp add: sound_image_def)
  have z: "slot img ?d r = 0" if "r \<le> MAXFILE" for img r using that by (simp add: slot_def zero_dinode_def nmeta_val)
  have M1: "minv ((inode_at s)(i := ?d)) C s"
  proof -
    obtain own where B: "built (inode_at s) C own s" using M by (auto simp: minv_def)
    have "layout ((inode_at s)(i := ?d)) own (m_img s) (unat (m_freeblock s))"
      using builtD(1) [OF B] z a by (simp add: layout_def)
    moreover have "holds_data C (m_img s) ((inode_at s)(i := ?d))"
      using builtD(2) [OF B] z block_index unfolding holds_data_def by (simp add: less_imp_le)
    ultimately have "built ((inode_at s)(i := ?d)) C own s" using builtD(3,4) [OF B] by (simp add: built_def)
    moreover have "tight (C j) (m_img s) (((inode_at s)(i := ?d)) j)" if "j < ninos" for j
      using M that c z by (simp add: minv_def tight_def)
    ultimately show ?thesis using M by (auto simp: minv_def)
  qed
  have "minv (inode_at ?s) C ?s"
    by (rule minv_cong [OF M1]) (use put_inode_data [OF i, of ?d ?s1] at in auto)
  moreover have "meta_ok ?s" using I by (intro put_inode_meta i) (simp add: sound_image_def meta_ok_def)
  moreover have "d_size (inode_at ?s j) = of_nat (length (C j)) \<and> length (C j) \<le> MAXFILE * BSIZE" if "j < ninos" for j
    using at [OF that] I that c by (simp add: sound_image_def)
  ultimately have "sound_image C ?s" using R by (simp add: sound_image_def)
  moreover have "kind (inode_at ?s j) = (if j = i then (ty, 0, 0, 1) else kind (inode_at s j))" if "j < ninos" for j
    using at [OF that] by (simp add: kind_def zero_dinode_def)
  ultimately show ?thesis using e fi by simp
qed

lemma buffer_map: "map (buffer c) [0..<length c] = c"
  by (intro nth_equalityI) (simp_all add: buffer_def)

definition read_bytes :: "u8 list list \<Rightarrow> u8 list" where
  "read_bytes cs = concat (takeWhile (\<lambda>c. c \<noteq> []) cs)"

lemma add_chunks_image:
  assumes "sound_image C s" and i: "i < ninos" and "length (C i) + length (read_bytes cs) \<le> MAXFILE * BSIZE"
    and "total_blocks (C(i := C i @ read_bytes cs)) + 2 \<le> FSSIZE"
  shows "\<exists>s'. add_chunks (of_nat i) cs s = Some s' \<and> sound_image (C(i := C i @ read_bytes cs)) s' \<and>
    m_freeinode s' = m_freeinode s \<and> (\<forall>j < ninos. kind (inode_at s' j) = kind (inode_at s j))"
  using assms(1,3,4)
proof (induction cs arbitrary: C s)
  case (Cons c cs)
  show ?case
  proof (cases "c = []")
    case False
    let ?C = "C(i := C i @ c)"
    have rb: "read_bytes (c # cs) = c @ read_bytes cs" using False by (simp add: read_bytes_def)
    then have len: "length (C i) + length c \<le> MAXFILE * BSIZE" "length (?C i) + length (read_bytes cs) \<le> MAXFILE * BSIZE"
      using Cons.prems(2) by simp_all
    have eq: "?C(i := ?C i @ read_bytes cs) = C(i := C i @ read_bytes (c # cs))" by (simp add: rb fun_eq_iff)
    have "total_blocks ?C \<le> total_blocks (C(i := C i @ read_bytes (c # cs)))"
      by (rule total_blocks_mono) (simp add: rb)
    then have "total_blocks (C(i := C i @ map (buffer c) [0..<length c])) + 2 \<le> FSSIZE"
      using Cons.prems(3) unfolding buffer_map by linarith
    from iappend_image [OF Cons.prems(1) i len(1) this]
    obtain s1 where 1: "iappend (of_nat i) (buffer c) (length c) s = Some s1" "sound_image ?C s1" "m_freeinode s1 = m_freeinode s"
      "\<forall>j < ninos. kind (inode_at s1 j) = kind (inode_at s j)" unfolding buffer_map by blast
    from Cons.IH [OF 1(2) len(2)] Cons.prems(3)
    obtain s' where "add_chunks (of_nat i) cs s1 = Some s'" "sound_image (C(i := C i @ read_bytes (c # cs))) s'"
      "m_freeinode s' = m_freeinode s1" "\<forall>j < ninos. kind (inode_at s' j) = kind (inode_at s1 j)"
      unfolding eq by blast
    moreover have "add_chunks (of_nat i) (c # cs) s = add_chunks (of_nat i) cs s1" using 1(1) False by simp
    ultimately show ?thesis using 1(3,4) by metis
  qed (use Cons.prems in \<open>simp add: read_bytes_def\<close>)
qed (simp add: read_bytes_def)

text \<open>The name under which a host file is entered, its bytes, and a directory entry as bytes.\<close>

definition fs_name :: "host_file \<Rightarrow> string" where
  "fs_name f = (if fst f \<noteq> [] \<and> hd (fst f) = CHR 0x5F then tl (fst f) else fst f)"

definition file_data :: "host_file \<Rightarrow> u8 list" where
  "file_data f = (case snd f of None \<Rightarrow> [] | Some cs \<Rightarrow> read_bytes cs)"

definition entry :: "string \<Rightarrow> nat \<Rightarrow> u8 list" where
  "entry nm i = map (dirent nm (of_nat i)) [0..<DIRENT_SIZE]"

definition readable_file :: "host_file \<Rightarrow> bool" where
  "readable_file f \<longleftrightarrow> CHR 0x2F \<notin> set (fst f) \<and> snd f \<noteq> None \<and> length (file_data f) \<le> MAXFILE * BSIZE"

lemma length_entry [simp]: "length (entry nm i) = DIRENT_SIZE"
  by (simp add: entry_def)

lemma ucast_small: "i < ninos \<Longrightarrow> (ucast (of_nat i :: u32) :: u16) = of_nat i"
  by (simp add: unsigned_of_nat take_bit_nat_eq_self nmeta_val)

lemma add_file_image:
  assumes I: "sound_image C s" and fi: "m_freeinode s = of_nat i" and i: "1 < i" "i < ninos" and c: "C i = []"
    and f: "readable_file f" and dir: "length (C 1) + DIRENT_SIZE \<le> MAXFILE * BSIZE"
    and room: "total_blocks (C(1 := C 1 @ entry (fs_name f) i, i := file_data f)) + 2 \<le> FSSIZE"
  shows "\<exists>s'. add_file ROOTINO f s = Some s' \<and> sound_image (C(1 := C 1 @ entry (fs_name f) i, i := file_data f)) s' \<and>
    m_freeinode s' = of_nat (Suc i) \<and>
    (\<forall>j < ninos. kind (inode_at s' j) = (if j = i then (T_FILE, 0, 0, 1) else kind (inode_at s j)))"
proof -
  obtain cs where cs: "snd f = Some cs" "file_data f = read_bytes cs" using f by (auto simp: readable_file_def file_data_def)
  have one: "(1 :: nat) < ninos" using i by simp
  have root: "ROOTINO = of_nat 1" by (simp add: ROOTINO_def)
  let ?C = "C(1 := C 1 @ entry (fs_name f) i)"
  obtain s1 where 1: "ialloc_mkfs T_FILE s = Some (of_nat i, s1)" "sound_image C s1" "m_freeinode s1 = of_nat (Suc i)"
      "\<forall>j < ninos. kind (inode_at s1 j) = (if j = i then (T_FILE, 0, 0, 1) else kind (inode_at s j))"
    using ialloc_image [OF I i(2) fi c] by blast
  have "total_blocks ?C \<le> total_blocks (C(1 := C 1 @ entry (fs_name f) i, i := file_data f))"
    by (rule total_blocks_mono) (use c i in auto)
  then have room1: "total_blocks (C(1 := C 1 @ map (dirent (fs_name f) (of_nat i)) [0..<DIRENT_SIZE])) + 2 \<le> FSSIZE"
    using room unfolding entry_def by linarith
  from iappend_image [OF 1(2) one dir room1]
  obtain s2 where 2: "iappend ROOTINO (dirent (fs_name f) (of_nat i)) DIRENT_SIZE s1 = Some s2" "sound_image ?C s2"
      "m_freeinode s2 = m_freeinode s1" "\<forall>j < ninos. kind (inode_at s2 j) = kind (inode_at s1 j)"
    unfolding root entry_def [symmetric] by blast
  have c2: "?C i = []" using i c by simp
  have eq: "?C(i := ?C i @ read_bytes cs) = C(1 := C 1 @ entry (fs_name f) i, i := file_data f)"
    using c2 cs(2) by (simp add: fun_eq_iff)
  have len: "length (?C i) + length (read_bytes cs) \<le> MAXFILE * BSIZE"
    using f c2 cs(2) by (simp add: readable_file_def)
  from add_chunks_image [OF 2(2) i(2) len] room
  obtain s3 where 3: "add_chunks (of_nat i) cs s2 = Some s3"
      "sound_image (C(1 := C 1 @ entry (fs_name f) i, i := file_data f)) s3"
      "m_freeinode s3 = m_freeinode s2" "\<forall>j < ninos. kind (inode_at s3 j) = kind (inode_at s2 j)"
    unfolding eq by blast
  have "add_file ROOTINO f s = Some s3"
    using f cs(1) 1(1) 2(1) 3(1)
    by (simp add: add_file_def readable_file_def fs_name_def [symmetric] ucast_small [OF i(2)] Let_def)
  then show ?thesis using 1(3,4) 2(3,4) 3(2-4) by auto
qed

end
