(* ===== verification/MkfsProps.thy ===== *)
theory MkfsProps
  imports MkfsRun
begin

text \<open>
  What \<^verbatim>\<open>mkfs.c\<close> produces: the run of the whole program, the contents of the image, and the
  state in which the kernel of \<^verbatim>\<open>Part_B\<close> starts on it.
\<close>

section \<open>The expected contents\<close>

definition root_dir :: "host_file list \<Rightarrow> u8 list" where
  "root_dir files = entry ''.'' 1 @ entry ''..'' 1 @
     concat (map (\<lambda>k. entry (fs_name (files ! k)) (k + 2)) [0..<length files])"

definition contents :: "host_file list \<Rightarrow> nat \<Rightarrow> u8 list" where
  "contents files j = (if j = 1 then root_dir files
     else if 2 \<le> j \<and> j < 2 + length files then file_data (files ! (j - 2)) else [])"

definition kinds_ok :: "nat \<Rightarrow> mkfs \<Rightarrow> bool" where
  "kinds_ok n s \<longleftrightarrow> (\<forall>j < ninos. kind (inode_at s j) =
     (if j = 1 then (T_DIR, 0, 0, 1) else if 2 \<le> j \<and> j < 2 + n then (T_FILE, 0, 0, 1) else (0, 0, 0, 0)))"

text \<open>The host files fit: at most 198, each at most 140 blocks, and all blocks below the 4096 of one bitmap block.\<close>

definition files_ok :: "host_file list \<Rightarrow> bool" where
  "files_ok files \<longleftrightarrow> (\<forall>f \<in> set files. readable_file f) \<and> length files + 2 \<le> NINODES \<and>
     total_blocks (contents files) < BSIZE * 8"

lemma length_root_dir: "length (root_dir files) = DIRENT_SIZE * (2 + length files)"
proof -
  have "length (concat (map (\<lambda>k. entry (fs_name (files ! k)) (k + 2)) ks)) = DIRENT_SIZE * length ks" for ks
    by (induction ks) simp_all
  then show ?thesis by (simp add: root_dir_def)
qed

lemma root_dir_snoc: "root_dir (fs @ [f]) = root_dir fs @ entry (fs_name f) (2 + length fs)"
proof -
  have m: "map (\<lambda>k. entry (fs_name ((fs @ [f]) ! k)) (k + 2)) [0..<length fs] =
      map (\<lambda>k. entry (fs_name (fs ! k)) (k + 2)) [0..<length fs]"
    by (rule map_cong) (simp_all add: nth_append)
  have u: "[0..<length (fs @ [f])] = [0..<length fs] @ [length fs]" by simp
  show ?thesis unfolding root_dir_def u map_append m by (simp add: add.commute)
qed

lemma contents_snoc:
  "contents (fs @ [f]) = (contents fs)(1 := contents fs 1 @ entry (fs_name f) (2 + length fs), 2 + length fs := file_data f)"
  by (auto simp: contents_def fun_eq_iff root_dir_snoc nth_append)

lemma contents_mono: "length (contents fs j) \<le> length (contents (fs @ gs) j)"
  by (auto simp: contents_def length_root_dir nth_append)

section \<open>The loop over the files\<close>

lemma run_files:
  assumes "sound_image (contents fs) s" and "m_freeinode s = of_nat (2 + length fs)" and "kinds_ok (length fs) s"
    and "\<forall>f \<in> set gs. readable_file f" and "length (fs @ gs) + 2 \<le> NINODES"
    and "total_blocks (contents (fs @ gs)) + 2 \<le> FSSIZE"
  shows "\<exists>s'. run (add_file ROOTINO) gs s = Some s' \<and> sound_image (contents (fs @ gs)) s' \<and>
    kinds_ok (length (fs @ gs)) s'"
  using assms
proof (induction gs arbitrary: fs s)
  case (Cons g gs)
  let ?i = "2 + length fs"
  have i: "1 < ?i" "?i < ninos" using Cons.prems(5) by (simp_all add: mkfs_sizes)
  have c: "contents fs ?i = []" by (simp add: contents_def)
  have f: "readable_file g" using Cons.prems(4) by simp
  have eq: "(contents fs)(1 := contents fs 1 @ entry (fs_name g) ?i, ?i := file_data g) = contents (fs @ [g])"
    by (simp only: contents_snoc)
  have dir: "length (contents fs 1) + DIRENT_SIZE \<le> MAXFILE * BSIZE"
    using Cons.prems(5) by (simp add: contents_def length_root_dir DIRENT_SIZE_def nmeta_val NINODES_def)
  have "total_blocks (contents (fs @ [g])) \<le> total_blocks (contents (fs @ g # gs))"
    using contents_mono [of "fs @ [g]" _ gs] by (intro total_blocks_mono) simp
  then have room: "total_blocks ((contents fs)(1 := contents fs 1 @ entry (fs_name g) ?i, ?i := file_data g)) + 2 \<le> FSSIZE"
    using Cons.prems(6) unfolding eq by linarith
  obtain s1 where 1: "add_file ROOTINO g s = Some s1" "sound_image (contents (fs @ [g])) s1" "m_freeinode s1 = of_nat (Suc ?i)"
    "\<forall>j < ninos. kind (inode_at s1 j) = (if j = ?i then (T_FILE, 0, 0, 1) else kind (inode_at s j))"
    using add_file_image [OF Cons.prems(1,2) i c f dir room] unfolding eq by blast
  have k: "kinds_ok (length (fs @ [g])) s1"
    using 1(4) Cons.prems(3) by (auto simp: kinds_ok_def)
  have fi: "m_freeinode s1 = of_nat (2 + length (fs @ [g]))" using 1(3) by simp
  obtain s' where "run (add_file ROOTINO) gs s1 = Some s'" "sound_image (contents (fs @ g # gs)) s'"
      "kinds_ok (length (fs @ g # gs)) s'"
    using Cons.IH [OF 1(2) fi k] Cons.prems(4-6) by auto
  then show ?case using 1(1) by simp
qed simp

section \<open>The start\<close>

lemma zero_sectors:
  assumes "m_img s = (\<lambda>_. zero_bytes)" and "n \<le> 2 ^ 23"
  shows "fold (\<lambda>i. wsect (of_nat i) zero_bytes) [0..<n] s = s\<lparr>m_nsect := max (m_nsect s) n\<rparr>"
  using assms(2)
proof (induction n)
  case (Suc n)
  have "(\<lambda>_. zero_bytes)(n := zero_bytes) = (\<lambda>_. zero_bytes)" by auto
  then show ?case using Suc assms(1) by (simp add: wsect_def)
qed simp

lemma read_di_zero: "read_di zero_bytes k = zero_dinode"
  by (simp add: read_di_def zero_dinode_def get_addrs_def map_replicate_const del: upt_Suc)

definition fresh_image :: mkfs where
  "fresh_image = wsect 1 (write_sb mkfs_sb zero_bytes) (zero_image empty_image)"

lemma fresh_image:
  "sound_image (\<lambda>_. []) fresh_image" "m_freeinode fresh_image = 1" "j < ninos \<Longrightarrow> kind (inode_at fresh_image j) = (0, 0, 0, 0)"
proof -
  have "sector 1 = 1" using sector_of_nat [of 1] by simp
  then have f: "fresh_image = empty_image\<lparr>m_nsect := FSSIZE, m_img := (\<lambda>_. zero_bytes)(1 := write_sb mkfs_sb zero_bytes)\<rparr>"
    using zero_sectors [of empty_image FSSIZE]
    by (simp add: fresh_image_def zero_image_def wsect_def) (simp add: empty_image_def nmeta_val)
  have R: "ready fresh_image" by (simp add: f ready_def empty_image_def)
  show "m_freeinode fresh_image = 1" by (simp add: f empty_image_def)
  have at: "inode_at fresh_image j = zero_dinode" if "j < ninos" for j
    using R iblock [OF that] by (simp add: inode_at_def ready_def) (simp add: f read_di_zero istart_val)
  then show "j < ninos \<Longrightarrow> kind (inode_at fresh_image j) = (0, 0, 0, 0)" by (simp add: kind_def zero_dinode_def)
  have fb: "unat (m_freeblock fresh_image) = nmeta" by (simp add: f empty_image_def nmeta_val)
  have z: "slot img zero_dinode r = 0" if "r \<le> MAXFILE" for img r
    using that by (simp add: slot_def zero_dinode_def nmeta_val)
  have "layout (inode_at fresh_image) own (m_img fresh_image) nmeta" for own
    using at z by (simp add: layout_def zero_dinode_def [THEN arg_cong, of d_addrs]) (simp add: f nmeta_val)
  moreover have "holds_data (\<lambda>_. []) (m_img fresh_image) (inode_at fresh_image)"
    using at z block_index by (simp add: holds_data_def less_imp_le)
  ultimately have "built (inode_at fresh_image) (\<lambda>_. []) (\<lambda>_. undefined) fresh_image"
    using R fb by (simp add: built_def ready_def nmeta_val)
  moreover have "total_blocks (\<lambda>_. []) = nmeta" by (simp add: total_blocks_def file_blocks_def BSIZE_def)
  ultimately have "minv (inode_at fresh_image) (\<lambda>_. []) fresh_image"
    using at z fb by (auto simp: minv_def tight_def)
  moreover have "meta_ok fresh_image" by (simp add: meta_ok_def f)
  ultimately show "sound_image (\<lambda>_. []) fresh_image" using R at by (simp add: sound_image_def zero_dinode_def)
qed

section \<open>The whole program\<close>

definition rounded :: "nat \<Rightarrow> nat" where
  "rounded n = (n div BSIZE + 1) * BSIZE"

lemma rounded_word:
  assumes "n \<le> MAXFILE * BSIZE"
  shows "((of_nat n :: u32) div of_nat BSIZE + 1) * of_nat BSIZE = of_nat (rounded n)"
proof -
  have "unat ((of_nat n :: u32) div of_nat BSIZE) = n div BSIZE"
    using assms by (simp add: unat_div size_word) (simp add: BSIZE_def)
  then have "(of_nat n :: u32) div of_nat BSIZE = of_nat (n div BSIZE)" by (metis of_nat_unat ucast_id)
  then show ?thesis by (simp add: rounded_def distrib_right)
qed

definition bitmap_block :: "nat \<Rightarrow> bytes" where
  "bitmap_block n = fold bit_mark [0..<n] zero_bytes"

text \<open>The finished image: the size of the root directory is rounded up, the bitmap written.\<close>

definition finished :: "host_file list \<Rightarrow> mkfs \<Rightarrow> mkfs \<Rightarrow> bool" where
  "finished files s s' \<longleftrightarrow> sound_image (contents files) s \<and> kinds_ok (length files) s \<and>
     s' = (let s1 = put_inode 1 ((inode_at s 1)\<lparr>d_size := of_nat (rounded (length (root_dir files)))\<rparr>) s
       in s1\<lparr>m_img := (m_img s1)(istart + ninodeblocks := bitmap_block (total_blocks (contents files)))\<rparr>)"

lemma image_blocks:
  assumes "sound_image C s"
  shows "unat (m_freeblock s) = total_blocks C"
  using assms by (simp add: sound_image_def minv_def)

lemma finish_image:
  assumes I: "sound_image (contents files) s" and K: "kinds_ok (length files) s" and ok: "files_ok files"
  shows "\<exists>s'. (case fix_root ROOTINO s of None \<Rightarrow> None | Some s7 \<Rightarrow> balloc_mkfs (sint (m_freeblock s7)) s7) = Some s' \<and>
    finished files s s'"
proof -
  let ?n = "total_blocks (contents files)" and ?m = "rounded (length (root_dir files))"
  let ?s7 = "put_inode 1 ((inode_at s 1)\<lparr>d_size := of_nat ?m\<rparr>) s"
  have one: "1 < ninos" by (simp add: nmeta_val)
  have R: "ready s" using I by (simp add: sound_image_def)
  have root: "ROOTINO = of_nat 1" by (simp add: ROOTINO_def)
  have sz: "d_size (inode_at s 1) = of_nat (length (root_dir files))" "length (root_dir files) \<le> MAXFILE * BSIZE"
    using I one by (auto simp: sound_image_def contents_def)
  have f: "fix_root ROOTINO s = Some ?s7"
    using rinode_at [OF R one] winode_put [OF R one] rounded_word [OF sz(2)] sz(1)
    by (simp add: fix_root_def root Let_def)
  have n: "?n < BSIZE * 8" using ok by (simp add: files_ok_def)
  have u: "unat (m_freeblock ?s7) = ?n" using image_blocks [OF I] by simp
  then have "m_freeblock ?s7 = of_nat ?n" by (metis of_nat_unat ucast_id)
  then have "sint (m_freeblock ?s7) = int ?n"
    using n by (simp only: signed_of_nat) (simp add: signed_take_bit_int_eq_self BSIZE_def)
  then have "balloc_mkfs (sint (m_freeblock ?s7)) ?s7 = Some (wsect (sb_bmapstart mkfs_sb) (bitmap_block ?n) ?s7)"
    using n R by (simp add: balloc_mkfs_def bitmap_block_def ready_def)
  moreover have "sector (sb_bmapstart mkfs_sb) = istart + ninodeblocks"
    using sector_of_nat [of 58] by (simp add: mkfs_sb_def istart_def mkfs_sizes)
  ultimately show ?thesis
    using f I K R by (simp add: finished_def wsect_def ready_def Let_def nmeta_val istart_val max_def)
qed

lemma main_mkfs_finished:
  assumes ok: "files_ok files"
  shows "\<exists>s s'. main_mkfs files = Some s' \<and> finished files s s'"
proof -
  have one: "1 < ninos" by (simp add: nmeta_val)
  have root: "ROOTINO = of_nat 1" by (simp add: ROOTINO_def)
  have n: "total_blocks (contents files) + 2 \<le> FSSIZE" using ok by (simp add: files_ok_def nmeta_val)
  have rl: "2 * DIRENT_SIZE \<le> length (root_dir files)" by (simp add: length_root_dir)
  obtain s3 where 3: "ialloc_mkfs T_DIR fresh_image = Some (ROOTINO, s3)" "sound_image (\<lambda>_. []) s3" "m_freeinode s3 = 2"
      "\<forall>j < ninos. kind (inode_at s3 j) = (if j = 1 then (T_DIR, 0, 0, 1) else (0, 0, 0, 0))"
    using ialloc_image [OF fresh_image(1) one, of T_DIR] fresh_image(2,3) by (auto simp: root)
  define C4 :: "nat \<Rightarrow> u8 list" where "C4 = (\<lambda>_. [])(1 := entry ''.'' 1)"
  define C5 :: "nat \<Rightarrow> u8 list" where "C5 = (\<lambda>_. [])(1 := entry ''.'' 1 @ entry ''..'' 1)"
  have C5: "C5 = contents []" by (simp add: C5_def contents_def root_dir_def fun_eq_iff)
  have room: "total_blocks C4 + 2 \<le> FSSIZE" "total_blocks C5 + 2 \<le> FSSIZE"
  proof -
    have "total_blocks C4 \<le> total_blocks (contents files)" "total_blocks C5 \<le> total_blocks (contents files)"
      using rl by (intro total_blocks_mono; auto simp: C4_def C5_def contents_def)+
    then show "total_blocks C4 + 2 \<le> FSSIZE" "total_blocks C5 + 2 \<le> FSSIZE" using n by simp_all
  qed
  have m4: "(\<lambda>_. [])(1 := [] @ map (dirent ''.'' 1) [0..<DIRENT_SIZE]) = C4" by (simp add: C4_def entry_def)
  have m5: "C4(1 := C4 1 @ map (dirent ''..'' 1) [0..<DIRENT_SIZE]) = C5" by (simp add: C4_def C5_def entry_def)
  obtain s4 where 4: "iappend ROOTINO (dirent ''.'' 1) DIRENT_SIZE s3 = Some s4" "sound_image C4 s4"
      "m_freeinode s4 = m_freeinode s3" "\<forall>j < ninos. kind (inode_at s4 j) = kind (inode_at s3 j)"
    using iappend_image [OF 3(2) one, of DIRENT_SIZE "dirent ''.'' 1"] room(1) unfolding m4 root
    by (auto simp: DIRENT_SIZE_def nmeta_val)
  obtain s5 where 5: "iappend ROOTINO (dirent ''..'' 1) DIRENT_SIZE s4 = Some s5" "sound_image C5 s5"
      "m_freeinode s5 = m_freeinode s4" "\<forall>j < ninos. kind (inode_at s5 j) = kind (inode_at s4 j)"
    using iappend_image [OF 4(2) one, of DIRENT_SIZE "dirent ''..'' 1"] room(2) unfolding m5 root
    by (auto simp: DIRENT_SIZE_def nmeta_val C4_def)
  have "kinds_ok (length ([] :: host_file list)) s5" using 3(4) 4(4) 5(4) by (simp add: kinds_ok_def)
  then obtain s6 where 6: "run (add_file ROOTINO) files s5 = Some s6" "sound_image (contents files) s6"
      "kinds_ok (length files) s6"
    using run_files [of "[]" s5 files] 5(2,3) 4(3) 3(3) ok n by (auto simp: C5 files_ok_def)
  obtain s' where 7: "(case fix_root ROOTINO s6 of None \<Rightarrow> None | Some s7 \<Rightarrow> balloc_mkfs (sint (m_freeblock s7)) s7) = Some s'"
      "finished files s6 s'" using finish_image [OF 6(2,3) ok] by blast
  have sb: "m_sb (zero_image empty_image) = mkfs_sb"
    using zero_sectors [of empty_image FSSIZE] by (simp add: zero_image_def empty_image_def nmeta_val)
  have "main_mkfs files = Some s'"
    using 3(1) 4(1) 5(1) 6(1) 7(1)
    by (simp add: main_mkfs_def sb fresh_image_def [symmetric] ROOTINO_def Let_def split: option.splits)
  then show ?thesis using 7(2) by blast
qed

section \<open>Reading the image\<close>

text \<open>The contents of a file as the kernel's \<open>bmap\<close> finds them; a block that is missing reads as zero.\<close>

definition file_byte :: "(nat \<Rightarrow> bytes) \<Rightarrow> dinode \<Rightarrow> nat \<Rightarrow> u8" where
  "file_byte img d k = (if slot img d (k div BSIZE) = 0 then 0 else img (slot img d (k div BSIZE)) (k mod BSIZE))"

definition file_bytes :: "(nat \<Rightarrow> bytes) \<Rightarrow> dinode \<Rightarrow> u8 list" where
  "file_bytes img d = map (file_byte img d) [0..<unat (d_size d)]"

lemma minv_byte:
  assumes "minv V C s" and "j < ninos" and "k < MAXFILE * BSIZE"
  shows "file_byte (m_img s) (V j) k = buffer (C j) k"
proof (cases "slot (m_img s) (V j) (k div BSIZE) = 0")
  case True
  then have "\<not> k div BSIZE * BSIZE < length (C j)"
  proof -
    have "tight (C j) (m_img s) (V j)" using assms(1,2) by (simp add: minv_def)
    then show ?thesis using True block_index [OF assms(3)] unfolding tight_def by blast
  qed
  then have "length (C j) \<le> k" using div_times_less_eq_dividend [of k BSIZE] by linarith
  then show ?thesis using True by (simp add: file_byte_def buffer_def)
next
  case False
  then show ?thesis using assms by (auto simp: file_byte_def minv_def built_def holds_data_def)
qed

lemma minv_bytes:
  assumes "minv V C s" and "j < ninos" and "unat (d_size (V j)) \<le> MAXFILE * BSIZE"
  shows "file_bytes (m_img s) (V j) = map (buffer (C j)) [0..<unat (d_size (V j))]"
  unfolding file_bytes_def using minv_byte [OF assms(1,2)] assms(3) by (intro map_cong) simp_all

lemma buffer_pad:
  "length c \<le> n \<Longrightarrow> map (buffer c) [0..<n] = c @ replicate (n - length c) 0"
  by (intro nth_equalityI) (auto simp: buffer_def nth_append)

lemma finishedD:
  assumes F: "finished files s s'" and ok: "files_ok files"
  shows "minv (inode_at s') (contents files) s'" "ready s'" "unat (m_freeblock s') = total_blocks (contents files)"
    and "j < ninos \<Longrightarrow> kind (inode_at s' j) =
      (if j = 1 then (T_DIR, 0, 0, 1) else if 2 \<le> j \<and> j < 2 + length files then (T_FILE, 0, 0, 1) else (0, 0, 0, 0))"
    and "j < ninos \<Longrightarrow> j \<noteq> 1 \<Longrightarrow> unat (d_size (inode_at s' j)) = length (contents files j)"
    and "unat (d_size (inode_at s' 1)) = rounded (length (root_dir files))"
    and "b < istart \<Longrightarrow> m_img s' b = (if b = 1 then write_sb mkfs_sb zero_bytes else zero_bytes)"
    and "k < nbitmap \<Longrightarrow> m_img s' (istart + ninodeblocks + k) =
      (if k = 0 then bitmap_block (total_blocks (contents files)) else zero_bytes)"
proof -
  have one: "1 < ninos" by (simp add: nmeta_val)
  let ?d = "(inode_at s 1)\<lparr>d_size := of_nat (rounded (length (root_dir files)))\<rparr>"
  let ?s1 = "put_inode 1 ?d s"
  have s': "s' = ?s1\<lparr>m_img := (m_img ?s1)(istart + ninodeblocks := bitmap_block (total_blocks (contents files)))\<rparr>"
    and I: "sound_image (contents files) s" and K: "kinds_ok (length files) s"
    using F by (simp_all add: finished_def Let_def)
  have R: "ready s" and M: "minv (inode_at s) (contents files) s" and meta: "meta_ok s"
    using I by (simp_all add: sound_image_def)
  obtain own where B: "built (inode_at s) (contents files) own s" using M by (auto simp: minv_def)
  have a: "length (d_addrs ?d) = NDIRECT + 1" using layoutD(3) [OF builtD(1) [OF B] one] by simp
  show R': "ready s'" using R by (simp add: s' ready_def)
  have at: "inode_at s' j = (if j = 1 then ?d else inode_at s j)" if "j < ninos" for j
  proof -
    have "IBLOCK j (m_sb s') \<noteq> istart + ninodeblocks" using iblock [OF that] R' by (simp add: ready_def)
    then have "inode_at s' j = inode_at ?s1 j" using R by (simp add: inode_at_def s' ready_def)
    then show ?thesis using inode_at_put [OF R one that a] by simp
  qed
  show fb: "unat (m_freeblock s') = total_blocks (contents files)" using image_blocks [OF I] by (simp add: s')
  have img: "\<forall>b \<ge> nmeta. m_img s' b = m_img s b"
    using put_inode_data [OF one, of ?d s] by (simp add: s' nmeta_val istart_val)
  show "minv (inode_at s') (contents files) s'"
    by (rule minv_cong [OF M img]) (use at in \<open>auto simp: s'\<close>)
  show "kind (inode_at s' j) = (if j = 1 then (T_DIR, 0, 0, 1) else if 2 \<le> j \<and> j < 2 + length files then (T_FILE, 0, 0, 1) else (0, 0, 0, 0))"
    if "j < ninos" using K that at [OF that] by (auto simp: kinds_ok_def kind_def)
  show "unat (d_size (inode_at s' j)) = length (contents files j)" if "j < ninos" "j \<noteq> 1"
    using I that at [OF that(1)] by (simp add: sound_image_def size_word)
  have "length (root_dir files) \<le> 3200" using ok by (simp add: files_ok_def length_root_dir NINODES_def DIRENT_SIZE_def)
  then have "rounded (length (root_dir files)) \<le> MAXFILE * BSIZE"
    by (simp add: rounded_def nmeta_val)
  then show "unat (d_size (inode_at s' 1)) = rounded (length (root_dir files))" using at [OF one] by (simp add: size_word)
  show "m_img s' b = (if b = 1 then write_sb mkfs_sb zero_bytes else zero_bytes)" if "b < istart"
    using meta that put_inode_img [OF one, of b ?d s] by (simp add: s' meta_ok_def nmeta_val istart_val)
  show "m_img s' (istart + ninodeblocks + k) = (if k = 0 then bitmap_block (total_blocks (contents files)) else zero_bytes)"
    if "k < nbitmap"
    using meta that put_inode_img [OF one, of "istart + ninodeblocks + k" ?d s]
    by (simp add: s' meta_ok_def nmeta_val istart_val nbitmap_def FSSIZE_def BSIZE_def)
qed

lemma rounded_ge: "n \<le> rounded n"
  unfolding rounded_def using div_mult_mod_eq [of n BSIZE] mod_less_divisor [of BSIZE n] by (simp add: BSIZE_def)

lemma mkfs_files:
  assumes ok: "files_ok files"
  shows "\<exists>s. main_mkfs files = Some s \<and>
    (\<forall>k < length files. kind (inode_at s (k + 2)) = (T_FILE, 0, 0, 1) \<and>
       file_bytes (m_img s) (inode_at s (k + 2)) = file_data (files ! k)) \<and>
    kind (inode_at s 1) = (T_DIR, 0, 0, 1) \<and>
    file_bytes (m_img s) (inode_at s 1) =
      root_dir files @ replicate (rounded (length (root_dir files)) - length (root_dir files)) 0 \<and>
    (\<forall>j < NINODES. length files + 2 \<le> j \<longrightarrow> d_type (inode_at s j) = 0)"
proof -
  obtain s0 s where m: "main_mkfs files = Some s" and F: "finished files s0 s" using main_mkfs_finished [OF ok] by blast
  note D = finishedD [OF F ok]
  have one: "1 < ninos" by (simp add: nmeta_val)
  have lt: "j < ninos" if "j < NINODES" for j using that by (simp add: nmeta_val NINODES_def)
  have "file_bytes (m_img s) (inode_at s (k + 2)) = file_data (files ! k)" "kind (inode_at s (k + 2)) = (T_FILE, 0, 0, 1)"
    if k: "k < length files" for k
  proof -
    have j: "k + 2 < ninos" using k ok lt [of "k + 2"] by (simp add: files_ok_def)
    have c: "contents files (k + 2) = file_data (files ! k)" using k by (simp add: contents_def)
    have sz: "unat (d_size (inode_at s (k + 2))) = length (file_data (files ! k))" using D(5) [OF j] c by simp
    moreover have "length (file_data (files ! k)) \<le> MAXFILE * BSIZE" using ok k by (simp add: files_ok_def readable_file_def)
    ultimately show "file_bytes (m_img s) (inode_at s (k + 2)) = file_data (files ! k)"
      using minv_bytes [OF D(1) j] c buffer_map [of "file_data (files ! k)"] by simp
    show "kind (inode_at s (k + 2)) = (T_FILE, 0, 0, 1)" using D(4) [OF j] k by simp
  qed
  moreover have "file_bytes (m_img s) (inode_at s 1) =
      root_dir files @ replicate (rounded (length (root_dir files)) - length (root_dir files)) 0"
  proof -
    have "length (root_dir files) \<le> 3200" using ok by (simp add: files_ok_def length_root_dir NINODES_def DIRENT_SIZE_def)
    then have "rounded (length (root_dir files)) \<le> MAXFILE * BSIZE" by (simp add: rounded_def nmeta_val)
    then have "file_bytes (m_img s) (inode_at s 1) = map (buffer (root_dir files)) [0..<rounded (length (root_dir files))]"
      using minv_bytes [OF D(1) one] D(6) by (simp add: contents_def)
    then show ?thesis by (simp add: buffer_pad rounded_ge)
  qed
  moreover have "d_type (inode_at s j) = 0" if "j < NINODES" "length files + 2 \<le> j" for j
    using D(4) [OF lt [OF that(1)]] that(2) by (simp add: kind_def split: if_splits)
  moreover have "kind (inode_at s 1) = (T_DIR, 0, 0, 1)" using D(4) [OF one] by simp
  ultimately show ?thesis using m by blast
qed

lemma mkfs_slots:
  assumes ok: "files_ok files" and m: "main_mkfs files = Some s"
    and i: "i < ninos" "q \<le> MAXFILE" "slot (m_img s) (inode_at s i) q \<noteq> 0"
  shows "nmeta \<le> slot (m_img s) (inode_at s i) q" "slot (m_img s) (inode_at s i) q < total_blocks (contents files)"
    and "j < ninos \<Longrightarrow> r \<le> MAXFILE \<Longrightarrow> slot (m_img s) (inode_at s j) r = slot (m_img s) (inode_at s i) q \<Longrightarrow> j = i \<and> r = q"
proof -
  obtain s0 where F: "finished files s0 s" using main_mkfs_finished [OF ok] m by auto
  note D = finishedD [OF F ok]
  obtain own where B: "built (inode_at s) (contents files) own s" using D(1) by (auto simp: minv_def)
  note L = layoutD(4) [OF builtD(1) [OF B]]
  show "nmeta \<le> slot (m_img s) (inode_at s i) q" "slot (m_img s) (inode_at s i) q < total_blocks (contents files)"
    using L [OF i] D(3) by simp_all
  assume j: "j < ninos" "r \<le> MAXFILE" and e: "slot (m_img s) (inode_at s j) r = slot (m_img s) (inode_at s i) q"
  then have "own (slot (m_img s) (inode_at s i) q) = (j, r)" using L [OF j] i(3) by simp
  then show "j = i \<and> r = q" using L [OF i] by simp
qed

section \<open>The kernel on a new image\<close>

text \<open>
  The kernel's file system state before \<open>forkret\<close> initialises it: the image is the memory disk,
  the buffer cache is empty, the log and the superblock in memory are zero.
\<close>

definition boot_fs :: "(nat \<Rightarrow> inode) \<Rightarrow> (nat \<Rightarrow> bytes) \<Rightarrow> fs" where
  "boot_fs ic img = \<lparr>disk = img, blk = img, held_blks = {}, pinned = {}, unread = {}, modified = {}, nblocks = FSSIZE,
     issued = [], lg_start = 0, lg_size = 0, lg_outstanding = 0, lg_committing = False, lh = [],
     sb = decode_sb zero_bytes, numallocblocks = 0, icache = ic\<rparr>"

text \<open>\<open>forkret\<close> calls \<^verbatim>\<open>iinit(ROOTDEV); initlog(ROOTDEV)\<close>.\<close>

definition mount :: "fs \<Rightarrow> fs option" where
  "mount s = do { s1 \<leftarrow> iinit s; initlog s1 }"

lemma bitmap_block_free: "bit_free (bitmap_block n) b \<longleftrightarrow> n \<le> b"
  unfolding bitmap_block_def
proof (induction n)
  case 0
  show ?case by (simp add: bit_free_def)
next
  case (Suc n)
  then show ?case by auto
qed

lemma mkfs_sb_vals:
  "unat (sb_size mkfs_sb) = 128000" "unat (sb_bmapstart mkfs_sb) = 58" "unat (sb_inodestart mkfs_sb) = 32"
  "unat (sb_ninodes mkfs_sb) = 200" "unat (sb_logstart mkfs_sb) = 2" "unat (sb_nlog mkfs_sb) = 30"
  by (simp_all add: mkfs_sb_def mkfs_sizes)

lemma mount_image:
  assumes d1: "img 1 = write_sb mkfs_sb zero_bytes" and d2: "img 2 = zero_bytes"
  shows "\<exists>s. mount (boot_fs ic img) = Some s \<and> tx_ok s \<and> geom s \<and> blk s = img \<and> sb s = mkfs_sb \<and>
    held_blks s = {} \<and> lg_outstanding s = 0 \<and> lh s = [] \<and> lg_size s = nlog \<and> nblocks s = FSSIZE \<and>
    icache s = (\<lambda>i. if i < NINODE then (ic i)\<lparr>i_lock := initsleeplock (i_lock (ic i))\<rparr> else ic i)"
proof -
  let ?ic = "\<lambda>i. if i < NINODE then (ic i)\<lparr>i_lock := initsleeplock (i_lock (ic i))\<rparr> else ic i"
  let ?s1 = "boot_fs ?ic img\<lparr>sb := mkfs_sb\<rparr>"
  let ?s2 = "?s1\<lparr>lg_start := 2, lg_size := 30, issued := [(2, zero_bytes)]\<rparr>"
  have z: "head_count zero_bytes = 0" "put_head [] zero_bytes = zero_bytes"
    by (simp_all add: head_count_def put_head_def put32_def fun_eq_iff)
  have dec: "decode_sb (img 1) = mkfs_sb" using d1 by (simp add: decode_write_sb)
  have "iinit (boot_fs ic img) = Some ?s1"
    using dec by (simp add: iinit_def readsb_def blk_ops boot_fs_def nmeta_val) (simp add: fun_eq_iff)
  moreover have "initlog ?s1 = Some ?s2"
    using z d2 d1 by (simp add: initlog_def readsb_def recover_from_log_def read_head_def write_head_def install_trans_def
      blk_ops boot_fs_def decode_write_sb nmeta_val mkfs_sb_vals head_blocks_empty LOGSIZE_def fun_upd_idem)
  ultimately have m: "mount (boot_fs ic img) = Some ?s2" by (simp add: mount_def)
  have "tx_ok ?s2"
    using z d2 d1 by (simp add: tx_ok_def store_inv_def log_fits_def log_area_def boot_fs_def LOGSIZE_def nmeta_val
      decode_write_sb mkfs_sb_vals)
  moreover have "geom ?s2"
    by (simp add: geom_def fs_size_def data_start_def boot_fs_def mkfs_sb_vals nmeta_val BPB_def BSIZE_def istart_val)
  ultimately show ?thesis using m by (simp add: boot_fs_def nlog_def LOGSIZE_def)
qed

lemma mkfs_mounts:
  assumes ok: "files_ok files" and m: "main_mkfs files = Some s"
  shows "\<exists>k. mount (boot_fs ic (m_img s)) = Some k \<and> idle k \<and> (\<forall>n < fs_size k. used k n \<longleftrightarrow> n < total_blocks (contents files)) \<and>
    blk k = m_img s \<and> fs_size k = m_nsect s"
proof -
  obtain s0 where F: "finished files s0 s" using main_mkfs_finished [OF ok] m by auto
  note D = finishedD [OF F ok]
  let ?n = "total_blocks (contents files)"
  have "m_img s 1 = write_sb mkfs_sb zero_bytes" "m_img s 2 = zero_bytes"
    using D(7) [of 1] D(7) [of 2] by (simp_all add: istart_val)
  from mount_image [OF this, of ic] obtain k where k: "mount (boot_fs ic (m_img s)) = Some k" "tx_ok k" "geom k"
    "blk k = m_img s" "sb k = mkfs_sb" "held_blks k = {}" "lg_outstanding k = 0" "lh k = []" by blast
  have n: "?n < 4096" "nmeta \<le> ?n" using ok by (simp_all add: files_ok_def BSIZE_def total_blocks_def)
  have bpb: "BPB = 4096" by (simp add: BPB_def BSIZE_def)
  have sz: "fs_size k = 128000" using k(5) by (simp add: fs_size_def mkfs_sb_vals)
  have used: "used k b \<longleftrightarrow> b < ?n" if b: "b < fs_size k" for b
  proof -
    have "b div 4096 < nbitmap" using b sz by (simp add: nbitmap_def FSSIZE_def BSIZE_def)
    from D(8) [OF this] have blk: "m_img s (58 + b div 4096) = (if b div 4096 = 0 then bitmap_block ?n else zero_bytes)"
      by (simp add: istart_val)
    have bb: "BBLOCK b mkfs_sb = 58 + b div 4096" by (simp add: BBLOCK_def bpb mkfs_sb_vals)
    have "bit_free (m_img s (58 + b div 4096)) (b mod 4096) \<longleftrightarrow> ?n \<le> b"
    proof (cases "b div 4096 = 0")
      case True
      then show ?thesis using blk bitmap_block_free [of ?n b] by simp
    next
      case False
      then have "4096 \<le> b" by simp
      then show ?thesis using blk False n by (simp add: bit_free_def)
    qed
    then show ?thesis by (simp add: used_def k(4,5) bb bpb not_le)
  qed
  have "data_start (sb k) = nmeta" by (simp add: data_start_def k(5) mkfs_sb_vals bpb nmeta_val)
  then have "alloc_ok k" using k(2,3) used n(2) sz by (simp add: alloc_ok_def nmeta_val)
  then have "idle k" using k by (simp add: idle_def)
  moreover have "m_nsect s = fs_size k" using D(2) by (simp add: ready_def nmeta_val sz)
  ultimately show ?thesis using k(1,4) used by auto
qed

section \<open>Three calls fill the log\<close>

lemma log_room:
  fixes s :: fs
  assumes "tx_ok s" and "1 \<le> lg_outstanding s" and "lh s = as" and "distinct (as @ ns)" and "length (as @ ns) < LOGSIZE"
    and "\<forall>n \<in> set ns. writable s n" and "held_blks s = {}"
  shows "\<exists>s'. run bzero ns s = Some s' \<and> lh s' = as @ ns \<and> lg_size s' = lg_size s"
  using assms
proof (induction ns arbitrary: s as)
  case (Cons n ns)
  let ?s = "logged n zero_bytes s"
  have w: "writable s n" and c: "can_log s" using Cons.prems by (simp_all add: can_log_def)
  have b: "bzero n s = Some ?s" using w Cons.prems(7) by (intro bzero_logged Cons.prems(1) c) (simp_all add: writable_def)
  have "Suc (length (lh s)) < LOGSIZE" using Cons.prems(3,5) by simp
  then have t: "tx_ok ?s" by (rule tx_ok_logged [OF Cons.prems(1) w])
  have l: "lh ?s = as @ [n]" using Cons.prems(3,4) by auto
  have wr: "\<forall>n \<in> set ns. writable ?s n" using Cons.prems(6) by (simp add: writable_def)
  have "\<exists>s'. run bzero ns ?s = Some s' \<and> lh s' = (as @ [n]) @ ns \<and> lg_size s' = lg_size ?s"
    by (rule Cons.IH [OF t _ l _ _ wr]) (use Cons.prems in simp_all)
  then show ?case using b by auto
qed simp

lemma three_calls:
  fixes k :: fs
  assumes "tx_ok k" and "lh k = []" and "lg_outstanding k = 0"
  shows "\<exists>k3. run (\<lambda>_. begin_op) [1, 2, 3 :: nat] k = Some k3 \<and> tx_ok k3 \<and> lg_outstanding k3 = 3 \<and> lh k3 = [] \<and>
    held_blks k3 = held_blks k \<and> lg_size k3 = lg_size k \<and> nblocks k3 = nblocks k \<and> log_area k3 = log_area k"
proof -
  have b: "begin_op s = Some (s\<lparr>lg_outstanding := lg_outstanding s + 1\<rparr>) \<and> tx_ok (s\<lparr>lg_outstanding := lg_outstanding s + 1\<rparr>)"
    if "tx_ok s" "lh s = []" "lg_outstanding s \<le> 2" for s :: fs
    using begin_op_tx [OF that(1)] that(2,3) by (simp add: MAXOPBLOCKS_def LOGSIZE_def)
  let ?k1 = "k\<lparr>lg_outstanding := 1\<rparr>" and ?k2 = "k\<lparr>lg_outstanding := 2\<rparr>" and ?k3 = "k\<lparr>lg_outstanding := 3\<rparr>"
  have "begin_op k = Some ?k1 \<and> tx_ok ?k1" using b [of k] assms by simp
  moreover from this have "begin_op ?k1 = Some ?k2 \<and> tx_ok ?k2" using b [of ?k1] assms(2) by simp
  moreover from this have "begin_op ?k2 = Some ?k3 \<and> tx_ok ?k3" using b [of ?k2] assms(2) by simp
  ultimately show ?thesis using assms(2) by (simp add: log_area_def)
qed

section \<open>The properties\<close>

text \<open>
  For at most 198 host files without a slash in their names, of at most 140 blocks each, that fit below
  block 4096, mkfs succeeds. Inode \<open>k + 2\<close> of the image is a file with one link whose bytes
  are those of the \<open>k\<close>-th host file however \<open>read\<close> cut it into pieces; the root
  directory holds \<open>.\<close>, \<open>..\<close> and one entry for each file, padded with zeros; all other inodes are free.
\<close>

lemma mkfs_contents:
  assumes "files_ok files"
  shows "\<exists>s. main_mkfs files = Some s \<and>
    (\<forall>k < length files. kind (inode_at s (k + 2)) = (T_FILE, 0, 0, 1) \<and>
       file_bytes (m_img s) (inode_at s (k + 2)) = file_data (files ! k)) \<and>
    kind (inode_at s 1) = (T_DIR, 0, 0, 1) \<and>
    file_bytes (m_img s) (inode_at s 1) =
      root_dir files @ replicate (rounded (length (root_dir files)) - length (root_dir files)) 0 \<and>
    (\<forall>j < NINODES. length files + 2 \<le> j \<longrightarrow> d_type (inode_at s j) = 0)"
  by (rule mkfs_files [OF assms])

text \<open>Two small host files.\<close>

definition demo_files :: "host_file list" where
  "demo_files = [(''_cat'', Some [[1, 2, 3], [4]]), (''README'', Some [[65], []])]"

lemma demo_data: "file_data (''_cat'', Some [[1, 2, 3], [4]]) = [1, 2, 3, 4]" "file_data (''README'', Some [[65], []]) = [65]"
  by (simp_all add: file_data_def read_bytes_def)

lemma demo_files_ok: "files_ok demo_files" "total_blocks (contents demo_files) = 93"
proof -
  have c: "contents demo_files = (\<lambda>_. [])(1 := root_dir demo_files, 2 := [1, 2, 3, 4], 3 := [65])"
    by (auto simp: contents_def demo_files_def demo_data fun_eq_iff nth_Cons')
  have f: "file_blocks 0 = 0" "file_blocks (Suc (Suc (Suc (Suc 0)))) = 1" "file_blocks (Suc 0) = 1" "file_blocks 64 = 1"
    by (simp_all add: file_blocks_def nmeta_val)
  have r: "length (root_dir demo_files) = 64" by (simp add: length_root_dir demo_files_def DIRENT_SIZE_def)
  have "total_blocks (\<lambda>_. []) = nmeta" by (simp add: total_blocks_def f)
  then have "total_blocks ((\<lambda>_. [])(1 := root_dir demo_files)) = nmeta + 1"
    using total_blocks_upd [of 1 "\<lambda>_. []" "root_dir demo_files"] by (simp add: f r nmeta_val)
  then have "total_blocks ((\<lambda>_. [])(1 := root_dir demo_files, 2 := [1, 2, 3, 4])) = nmeta + 2"
    using total_blocks_upd [of 2 "(\<lambda>_. [])(1 := root_dir demo_files)" "[1, 2, 3, 4]"] by (simp add: f nmeta_val del: fun_upd_apply) (simp add: f)
  then show t: "total_blocks (contents demo_files) = 93"
    using total_blocks_upd [of 3 "(\<lambda>_. [])(1 := root_dir demo_files, 2 := [1, 2, 3, 4])" "[65]"]
    unfolding c by (simp add: f nmeta_val del: fun_upd_apply) (simp add: f)
  show "files_ok demo_files"
    unfolding files_ok_def t by (simp add: demo_files_def readable_file_def demo_data NINODES_def nmeta_val)
qed

lemma mkfs_contents_witness:
  "\<exists>s. main_mkfs demo_files = Some s \<and> file_bytes (m_img s) (inode_at s 2) = [1, 2, 3, 4] \<and>
    file_bytes (m_img s) (inode_at s 3) = [65]"
proof -
  obtain s where s: "main_mkfs demo_files = Some s"
    "\<forall>k < length demo_files. file_bytes (m_img s) (inode_at s (k + 2)) = file_data (demo_files ! k)"
    using mkfs_contents [OF demo_files_ok(1)] by blast
  have "length demo_files = 2" by (simp add: demo_files_def)
  then show ?thesis using s(1) s(2) [rule_format, of 0] s(2) [rule_format, of 1] by (simp add: demo_files_def demo_data numeral_3_eq_3 numeral_2_eq_2)
qed

text \<open>
  C20. The image mkfs makes is consistent, and the kernel can use it. Every block of a file, directory or
  indirect block is a data block below the first free one and belongs to one place in one inode
  only. \<open>iinit\<close> and \<open>initlog\<close> succeed on the image and change no block; the state is one between
  file system calls, the bitmap marks exactly the blocks below the first free one, and
  \<open>balloc\<close> hands out that one.
\<close>

theorem mkfs_consistent:
  assumes "files_ok files" and "main_mkfs files = Some s"
  shows "(\<forall>i < ninos. \<forall>q \<le> MAXFILE. slot (m_img s) (inode_at s i) q \<noteq> 0 \<longrightarrow>
      nmeta \<le> slot (m_img s) (inode_at s i) q \<and> slot (m_img s) (inode_at s i) q < total_blocks (contents files) \<and>
      (\<forall>j < ninos. \<forall>r \<le> MAXFILE. slot (m_img s) (inode_at s j) r = slot (m_img s) (inode_at s i) q \<longrightarrow> j = i \<and> r = q)) \<and>
    (\<exists>k k'. mount (boot_fs ic (m_img s)) = Some k \<and> blk k = m_img s \<and> idle k \<and>
      (\<forall>n < fs_size k. used k n \<longleftrightarrow> n < total_blocks (contents files)) \<and>
      balloc k = Some (total_blocks (contents files), k') \<and> idle k')"
proof (intro conjI allI impI)
  fix i q
  assume i: "i < ninos" "q \<le> MAXFILE" "slot (m_img s) (inode_at s i) q \<noteq> 0"
  note S = mkfs_slots [OF assms i]
  show "nmeta \<le> slot (m_img s) (inode_at s i) q" "slot (m_img s) (inode_at s i) q < total_blocks (contents files)"
    by (rule S)+
  show "j = i" "r = q" if "j < ninos" "r \<le> MAXFILE" "slot (m_img s) (inode_at s j) r = slot (m_img s) (inode_at s i) q" for j r
    using S(3) [OF that] by simp_all
next
  obtain k where k: "mount (boot_fs ic (m_img s)) = Some k" "idle k" "blk k = m_img s" "fs_size k = m_nsect s"
      and u: "\<forall>n < fs_size k. used k n \<longleftrightarrow> n < total_blocks (contents files)"
    using mkfs_mounts [OF assms, of ic] by blast
  obtain s0 where F: "finished files s0 s" using main_mkfs_finished [OF assms(1)] assms(2) by auto
  have "fs_size k = 128000" using k(4) finishedD(2) [OF F assms(1)] by (simp add: ready_def nmeta_val)
  moreover have "total_blocks (contents files) < 4096" using assms(1) by (simp add: files_ok_def BSIZE_def)
  ultimately have b: "total_blocks (contents files) < fs_size k" by simp
  obtain k' where "balloc k = Some (total_blocks (contents files), k')" "idle k'"
    using balloc_idle [OF k(2) b] u b by auto
  then show "\<exists>k k'. mount (boot_fs ic (m_img s)) = Some k \<and> blk k = m_img s \<and> idle k \<and>
      (\<forall>n < fs_size k. used k n \<longleftrightarrow> n < total_blocks (contents files)) \<and>
      balloc k = Some (total_blocks (contents files), k') \<and> idle k'"
    using k u by blast
qed

lemma mkfs_consistent_witness:
  "\<exists>s k k'. main_mkfs demo_files = Some s \<and> mount (boot_fs (\<lambda>_. undefined) (m_img s)) = Some k \<and> balloc k = Some (93, k')"
proof -
  obtain s0 s where s: "main_mkfs demo_files = Some s" using main_mkfs_finished [OF demo_files_ok(1)] by blast
  then show ?thesis using mkfs_consistent [OF demo_files_ok(1) s, of "\<lambda>_. undefined"] demo_files_ok(2) by auto
qed

text \<open>How many blocks a call has logged, in a list of calls and blocks.\<close>

definition logged_by :: "nat \<Rightarrow> (nat \<times> nat) list \<Rightarrow> nat" where
  "logged_by c xs = length (filter (\<lambda>x. fst x = c) xs)"

lemma logged_by_three:
  "\<forall>x \<in> set xs. fst x \<in> {1, 2, 3} \<Longrightarrow> logged_by 1 xs + logged_by 2 xs + logged_by 3 xs = length xs"
  by (induction xs) (auto simp: logged_by_def)

text \<open>
  C21. The log of the image is one block short. mkfs gives the log LOGSIZE blocks, one of which is the header;
  \<open>begin_op\<close> lets three calls of ten blocks each run together. Let them zero 29 different free blocks in
  any order, none of the calls more than ten (\<open>xs\<close> lists call and block): this succeeds, one call has
  a block of its allowance left, and now every further log write panics.
\<close>

theorem mkfs_log_short:
  assumes "files_ok files" and "main_mkfs files = Some s" and "mount (boot_fs ic (m_img s)) = Some k"
    and "distinct (map snd xs)" and "length xs = 3 * MAXOPBLOCKS - 1" and "\<forall>(c, n) \<in> set xs. c \<in> {1, 2, 3} \<and> nmeta \<le> n \<and> n < FSSIZE"
    and "\<forall>c. logged_by c xs \<le> MAXOPBLOCKS"
  shows "\<exists>k3 k4. run (\<lambda>_. begin_op) [1, 2, 3 :: nat] k = Some k3 \<and> run (\<lambda>(c, n). bzero n) xs k3 = Some k4 \<and>
    (\<exists>c \<in> {1, 2, 3}. logged_by c xs < MAXOPBLOCKS) \<and> (\<forall>n. log_write n k4 = None \<and> bzero n k4 = None)"
proof -
  define ns where "ns = map snd xs"
  have ns: "distinct ns" "length ns = 3 * MAXOPBLOCKS - 1" "\<forall>n \<in> set ns. nmeta \<le> n \<and> n < FSSIZE"
    using assms(4-6) by (auto simp: ns_def)
  have "\<forall>x \<in> set xs. fst x \<in> {1, 2, 3}" using assms(6) by auto
  then have left: "\<exists>c \<in> {1, 2, 3}. logged_by c xs < MAXOPBLOCKS"
    using logged_by_three [of xs] assms(5) by (auto simp: MAXOPBLOCKS_def)
  obtain s0 where F: "finished files s0 s" using main_mkfs_finished [OF assms(1)] assms(2) by auto
  note D = finishedD [OF F assms(1)]
  have "m_img s 1 = write_sb mkfs_sb zero_bytes" "m_img s 2 = zero_bytes"
    using D(7) [of 1] D(7) [of 2] by (simp_all add: istart_val)
  from mount_image [OF this, of ic] assms(3)
  have k: "tx_ok k" "geom k" "sb k = mkfs_sb" "held_blks k = {}" "lg_outstanding k = 0" "lh k = []" "lg_size k = nlog" by auto
  obtain k3 where 3: "run (\<lambda>_. begin_op) [1, 2, 3 :: nat] k = Some k3" "tx_ok k3" "lg_outstanding k3 = 3" "lh k3 = []"
      "held_blks k3 = held_blks k" "lg_size k3 = lg_size k" "nblocks k3 = nblocks k" "log_area k3 = log_area k"
    using three_calls [OF k(1,6,5)] by blast
  have "writable k3 n" if "n \<in> set ns" for n
  proof -
    have "data_start (sb k) = nmeta" by (simp add: data_start_def k(3) mkfs_sb_vals BPB_def BSIZE_def nmeta_val)
    moreover have "fs_size k = FSSIZE" by (simp add: fs_size_def k(3) mkfs_sb_vals nmeta_val)
    ultimately have "writable k n" using data_writable [OF k(2,1), of n] ns(3) that by simp
    then show ?thesis using 3(7,8) by (simp add: writable_def)
  qed
  then obtain k4 where 4: "run bzero ns k3 = Some k4" "lh k4 = ns" "lg_size k4 = lg_size k3"
    using log_room [OF 3(2), of "[]" ns] 3 k(4) ns(1,2) by (auto simp: MAXOPBLOCKS_def LOGSIZE_def)
  have "log_write n k4 = None \<and> bzero n k4 = None" for n
  proof -
    have "int (lg_size k4) - 1 \<le> int (length (lh k4))"
      using 4(2,3) 3(6) k(7) ns(2) by (simp add: nlog_def LOGSIZE_def MAXOPBLOCKS_def)
    then show ?thesis
      by (auto simp: bzero_def blk_read_def blk_set_def log_write_def bind_eq_None_conv split: if_splits)
  qed
  moreover have "run (\<lambda>(c, n). bzero n) xs k3 = Some k4"
    using 4(1) by (simp add: ns_def run_map case_prod_beta')
  ultimately show ?thesis using 3(1) left by blast
qed

text \<open>Three calls that zero the blocks 100 to 128 in turns.\<close>

definition demo_calls :: "(nat \<times> nat) list" where
  "demo_calls = map (\<lambda>i. (i mod 3 + 1, 100 + i)) [0..<29]"

lemma demo_calls:
  "map snd demo_calls = [100..<129]" "length demo_calls = 3 * MAXOPBLOCKS - 1" "logged_by c demo_calls \<le> MAXOPBLOCKS"
proof -
  have u: "[0..<29] = [0, 1, 2, 3, 4, 5, 6, 7, 8, 9, 10, 11, 12, 13, 14, 15, 16, 17, 18, 19, 20, 21, 22, 23, 24, 25, 26, 27, 28]"
    by (simp add: upt_rec)
  show "map snd demo_calls = [100..<129]" unfolding demo_calls_def u by simp
  show "length demo_calls = 3 * MAXOPBLOCKS - 1" by (simp add: demo_calls_def MAXOPBLOCKS_def)
  show "logged_by c demo_calls \<le> MAXOPBLOCKS"
    unfolding demo_calls_def u by (simp add: logged_by_def MAXOPBLOCKS_def)
qed

lemma mkfs_log_short_witness:
  "\<exists>s k k3 k4. main_mkfs demo_files = Some s \<and> mount (boot_fs (\<lambda>_. undefined) (m_img s)) = Some k \<and>
    run (\<lambda>_. begin_op) [1, 2, 3 :: nat] k = Some k3 \<and> run (\<lambda>(c, n). bzero n) demo_calls k3 = Some k4 \<and> bzero 200 k4 = None"
proof -
  obtain s0 s where s: "main_mkfs demo_files = Some s" using main_mkfs_finished [OF demo_files_ok(1)] by blast
  obtain k where k: "mount (boot_fs (\<lambda>_. undefined) (m_img s)) = Some k"
    using mkfs_mounts [OF demo_files_ok(1) s] by blast
  have "\<exists>k3 k4. run (\<lambda>_. begin_op) [1, 2, 3 :: nat] k = Some k3 \<and> run (\<lambda>(c, n). bzero n) demo_calls k3 = Some k4 \<and>
    (\<exists>c \<in> {1, 2, 3}. logged_by c demo_calls < MAXOPBLOCKS) \<and> (\<forall>n. log_write n k4 = None \<and> bzero n k4 = None)"
    by (rule mkfs_log_short [OF demo_files_ok(1) s k])
       (use demo_calls in \<open>auto simp: demo_calls_def nmeta_val MAXOPBLOCKS_def\<close>)
  then show ?thesis using s k by blast
qed

end
