(* ===== verification/FsRead.thy ===== *)
theory FsRead
  imports FsAlloc
begin

text \<open>
  Reading files through the inode cache: what \<open>bmap\<close>, \<open>readi\<close>, \<open>dirlookup\<close> and \<open>namei\<close>
  return when the blocks they need exist, and that they then change nothing but the inode cache.
\<close>

section \<open>Reading blocks\<close>

definition quiet_store :: "('a) fs_scheme \<Rightarrow> bool" where
  "quiet_store s \<longleftrightarrow> store_inv s \<and> unread s = {} \<and> held_blks s = {}"

lemma quiet_read:
  assumes "quiet_store s" and "n < nblocks s"
  shows "blk_read n s = Some (blk s n, s\<lparr>held_blks := {n}\<rparr>)" "blk_release n (s\<lparr>held_blks := {n}\<rparr>) = Some s"
  using read_release [of s n] assms by (simp_all add: quiet_store_def)

lemma quiet_upd_inode [simp]: "quiet_store (upd_inode i f s) = quiet_store s"
  by (simp add: quiet_store_def store_inv_def upd_inode_def)

text \<open>The disk block of block \<open>bn\<close> of a file, 0 if there is none.\<close>

definition fblock :: "(nat \<Rightarrow> bytes) \<Rightarrow> u32 list \<Rightarrow> nat \<Rightarrow> nat" where
  "fblock img as bn = (if bn < NDIRECT then unat (as ! bn)
     else if as ! NDIRECT = 0 then 0
     else unat (get32 (img (unat (as ! NDIRECT))) (4 * (bn - NDIRECT))))"

definition block_ok :: "('a) fs_scheme \<Rightarrow> nat \<Rightarrow> nat \<Rightarrow> bool" where
  "block_ok s i bn \<longleftrightarrow> bn < MAXFILE \<and> fblock (blk s) (i_addrs (icache s i)) bn \<noteq> 0 \<and>
     fblock (blk s) (i_addrs (icache s i)) bn < nblocks s \<and>
     (NDIRECT \<le> bn \<longrightarrow> unat (i_addrs (icache s i) ! NDIRECT) < nblocks s)"

lemma bmap_present:
  assumes q: "quiet_store s" and ok: "block_ok s i bn"
  shows "bmap i bn s = Some (fblock (blk s) (i_addrs (icache s i)) bn, s)"
proof (cases "bn < NDIRECT")
  case True
  then show ?thesis using ok by (auto simp: bmap_def block_ok_def fblock_def Let_def)
next
  case False
  let ?a = "i_addrs (icache s i) ! NDIRECT"
  have b: "bn - NDIRECT < NINDIRECT" using ok False by (auto simp: block_ok_def MAXFILE_def)
  have a: "?a \<noteq> 0" "get32 (blk s (unat ?a)) (4 * (bn - NDIRECT)) \<noteq> 0"
    using ok False by (auto simp: block_ok_def fblock_def split: if_splits)
  have "unat ?a < nblocks s" using ok False by (simp add: block_ok_def)
  from quiet_read [OF q this] show ?thesis using False b a by (simp add: bmap_def fblock_def Let_def)
qed

definition fbyte :: "('a) fs_scheme \<Rightarrow> nat \<Rightarrow> nat \<Rightarrow> u8" where
  "fbyte s i k = blk s (fblock (blk s) (i_addrs (icache s i)) (k div BSIZE)) (k mod BSIZE)"

lemma readi_loop_reads:
  assumes q: "quiet_store s" and "\<And>k. off \<le> k \<Longrightarrow> k < off + r \<Longrightarrow> block_ok s i (k div BSIZE)"
  shows "readi_loop i r off di dst s = Some (blit dst di (\<lambda>k. fbyte s i (off + k)) 0 r, s)"
  using assms(2)
proof (induction r arbitrary: off di dst rule: less_induct)
  case (less r)
  show ?case
  proof (cases "r = 0")
    case False
    let ?b = "fblock (blk s) (i_addrs (icache s i)) (off div BSIZE)"
    define m where "m = min r (BSIZE - off mod BSIZE)"
    have ok: "block_ok s i (off div BSIZE)" using less.prems [of off] False by simp
    have b: "?b < nblocks s" using ok by (simp add: block_ok_def)
    have m: "0 < m" "m \<le> r" "off mod BSIZE + m \<le> BSIZE"
      using False mod_less_divisor [of BSIZE off] by (auto simp: m_def BSIZE_def)
    have e: "blit dst di (blk s ?b) (off mod BSIZE) m = blit dst di (\<lambda>k. fbyte s i (off + k)) 0 m"
    proof
      fix k
      have "(off + (k - di)) div BSIZE = off div BSIZE \<and> (off + (k - di)) mod BSIZE = off mod BSIZE + (k - di)"
        if "k < di + m" "di \<le> k"
      proof -
        have lt: "off mod BSIZE + (k - di) < BSIZE" using that m(3) by linarith
        have "off + (k - di) = off div BSIZE * BSIZE + (off mod BSIZE + (k - di))" by simp
        then show ?thesis using lt by (metis add.commute div_less div_mult_self1 mod_less mod_mult_self1 plus_nat.add_0 add_0_left not_less_zero)
      qed
      then show "blit dst di (blk s ?b) (off mod BSIZE) m k = blit dst di (\<lambda>k. fbyte s i (off + k)) 0 m k"
        by (auto simp: blit_at fbyte_def)
    qed
    have IH: "readi_loop i (r - m) (off + m) (di + m) (blit dst di (\<lambda>k. fbyte s i (off + k)) 0 m) s =
        Some (blit (blit dst di (\<lambda>k. fbyte s i (off + k)) 0 m) (di + m) (\<lambda>k. fbyte s i (off + m + k)) 0 (r - m), s)"
      by (rule less.IH) (use m less.prems in auto)
    have "blit (blit dst di (\<lambda>k. fbyte s i (off + k)) 0 m) (di + m) (\<lambda>k. fbyte s i (off + m + k)) 0 (r - m)
        = blit dst di (\<lambda>k. fbyte s i (off + k)) 0 r"
      using m(2) by (auto simp: blit_def fun_eq_iff add.assoc)
    then have "readi_loop i (r - m) (off + m) (di + m) (blit dst di (\<lambda>k. fbyte s i (off + k)) 0 m) s =
        Some (blit dst di (\<lambda>k. fbyte s i (off + k)) 0 r, s)" using IH by simp
    then show ?thesis
      using False bmap_present [OF q ok] quiet_read [OF q b] e
      by (subst readi_loop.simps) (simp add: m_def [symmetric] Let_def)
  qed (simp add: readi_loop.simps)
qed

lemma readi_reads:
  assumes q: "quiet_store s" and t: "i_type (icache s i) \<noteq> T_DEV" and sz: "unat (i_size (icache s i)) < 2 ^ 31"
    and off: "off \<le> unat (i_size (icache s i))" and n: "off + n < 2 ^ 32" and m: "m = min n (unat (i_size (icache s i)) - off)"
    and ok: "\<And>k. off \<le> k \<Longrightarrow> k < off + m \<Longrightarrow> block_ok s i (k div BSIZE)"
  shows "readi D i dst (of_nat off) (of_nat n) s = Some (int m, blit dst 0 (\<lambda>k. fbyte s i (off + k)) 0 m, s)"
proof -
  let ?sz = "i_size (icache s i)"
  have u: "unat (of_nat off :: u32) = off" "unat (of_nat n :: u32) = n"
    using off sz n by (subst unat_of_nat, simp)+
  have a: "unat (of_nat off + of_nat n :: u32) = off + n" using n u by (simp add: unat_word_ariths)
  have s: "unat (?sz - of_nat off) = unat ?sz - off" using off u by (subst unat_sub) (simp_all add: word_le_nat_alt)
  define n' where "n' = (if of_nat off + of_nat n > ?sz then ?sz - of_nat off else (of_nat n :: u32))"
  have n': "unat n' = m" using a s u off by (auto simp: n'_def m word_less_nat_alt)
  then have "n' = of_nat m" by (metis of_nat_unat ucast_id)
  moreover have "int m < 2 ^ 31" using m sz by simp
  ultimately have "sint n' = int m" by (simp add: signed_of_nat signed_take_bit_int_eq_self)
  moreover have "\<not> (of_nat off > ?sz \<or> (of_nat off + of_nat n :: u32) < of_nat off)"
    using off u a by (simp add: word_less_nat_alt)
  ultimately show ?thesis
    using t n' readi_loop_reads [OF q ok, where di = 0 and dst = dst] u
    by (simp add: readi_def Let_def n'_def [symmetric])
qed

section \<open>The inode cache\<close>

text \<open>A valid entry in use agrees with the disk.\<close>

definition from_disk :: "('a) fs_scheme \<Rightarrow> inode \<Rightarrow> inode" where
  "from_disk s ip = get_dinode (dinode_off (unat (i_inum ip))) (blk s (IBLOCK (unat (i_inum ip)) (sb s))) ip"

definition coherent :: "('a) fs_scheme \<Rightarrow> bool" where
  "coherent s \<longleftrightarrow> (\<forall>i < NINODE. 0 < i_ref (icache s i) \<and> i_valid (icache s i) \<longrightarrow> from_disk s (icache s i) = icache s i)"

lemma coherentD:
  "coherent s \<Longrightarrow> i < NINODE \<Longrightarrow> 0 < i_ref (icache s i) \<Longrightarrow> i_valid (icache s i) \<Longrightarrow> from_disk s (icache s i) = icache s i"
  by (simp add: coherent_def)

text \<open>Between calls nobody holds an inode lock either.\<close>

definition icache_ok :: "('a) fs_scheme \<Rightarrow> bool" where
  "icache_ok s \<longleftrightarrow> coherent s \<and> (\<forall>i < NINODE. \<not> k_locked (i_lock (icache s i)))"

text \<open>Only the inode cache differs.\<close>

definition same_but_icache :: "('a) fs_scheme \<Rightarrow> ('a) fs_scheme \<Rightarrow> bool" where
  "same_but_icache s s' \<longleftrightarrow> s' = s\<lparr>icache := icache s'\<rparr>"

lemma same_but_icacheI [intro]: "same_but_icache s (s\<lparr>icache := c\<rparr>)"
  by (cases s) (simp add: same_but_icache_def)

lemma same_but_icache_upd: "same_but_icache s (upd_inode i f s)"
  unfolding upd_inode_def by (rule same_but_icacheI)

lemma same_but_icache_trans: "same_but_icache s t \<Longrightarrow> same_but_icache t u \<Longrightarrow> same_but_icache s u"
  by (cases s, cases t, cases u) (simp add: same_but_icache_def)

lemma same_but_icache_fields:
  assumes "same_but_icache s s'"
  shows "blk s' = blk s" "sb s' = sb s" "nblocks s' = nblocks s" "held_blks s' = held_blks s" "quiet_store s' = quiet_store s"
    "disk s' = disk s" "lh s' = lh s" "lg_outstanding s' = lg_outstanding s"
proof -
  have e: "s' = s\<lparr>icache := icache s'\<rparr>" using assms by (simp add: same_but_icache_def)
  show "blk s' = blk s" "sb s' = sb s" "nblocks s' = nblocks s" "held_blks s' = held_blks s" "quiet_store s' = quiet_store s"
    "disk s' = disk s" "lh s' = lh s" "lg_outstanding s' = lg_outstanding s"
    by (subst e, simp add: quiet_store_def store_inv_def)+
qed

lemma upd_inode_fields [simp]:
  "icache (upd_inode i f s) = (icache s)(i := f (icache s i))" "blk (upd_inode i f s) = blk s" "sb (upd_inode i f s) = sb s"
  "nblocks (upd_inode i f s) = nblocks s"
  by (simp_all add: upd_inode_def)

lemma from_disk_cong: "blk s' = blk s \<Longrightarrow> sb s' = sb s \<Longrightarrow> from_disk s' ip = from_disk s ip"
  by (simp add: from_disk_def)

lemma coherent_upd:
  assumes "coherent s"
    and "0 < i_ref (f (icache s i)) \<Longrightarrow> i_valid (f (icache s i)) \<Longrightarrow> from_disk s (f (icache s i)) = f (icache s i)"
  shows "coherent (upd_inode i f s)"
  using assms by (simp add: coherent_def from_disk_cong [of "upd_inode i f s" s])

lemma from_disk_upd [simp]:
  "from_disk s (ip\<lparr>i_lock := l\<rparr>) = (from_disk s ip)\<lparr>i_lock := l\<rparr>" "from_disk s (ip\<lparr>i_ref := n\<rparr>) = (from_disk s ip)\<lparr>i_ref := n\<rparr>"
  "from_disk s (ip\<lparr>i_valid := v\<rparr>) = (from_disk s ip)\<lparr>i_valid := v\<rparr>" "from_disk s (from_disk s ip) = from_disk s ip"
  by (cases ip; simp add: from_disk_def get_dinode_def)+

lemma from_disk_meta [simp]:
  "i_inum (from_disk s ip) = i_inum ip" "i_dev (from_disk s ip) = i_dev ip" "i_ref (from_disk s ip) = i_ref ip"
  "i_lock (from_disk s ip) = i_lock ip" "i_valid (from_disk s ip) = i_valid ip"
  by (simp_all add: from_disk_def get_dinode_def)

text \<open>\<open>iget\<close> with a free entry in the cache.\<close>

lemma iget_ok:
  assumes ok: "coherent s" and free: "f < NINODE" "i_ref (icache s f) = 0"
  shows "\<exists>i g. iget dev inum s = Some (i, upd_inode i g s) \<and> i < NINODE \<and> 1 \<le> i_ref (g (icache s i)) \<and>
    i_dev (g (icache s i)) = dev \<and> i_inum (g (icache s i)) = inum \<and> i_lock (g (icache s i)) = i_lock (icache s i) \<and>
    (0 < i_ref (icache s i) \<longrightarrow> i_inum (icache s i) = inum) \<and> i_ref (g (icache s i)) = i_ref (icache s i) + 1 \<and>
    coherent (upd_inode i g s)"
proof (cases "find (\<lambda>i. i_ref (icache s i) > 0 \<and> i_dev (icache s i) = dev \<and> i_inum (icache s i) = inum) [0..<NINODE]")
  case None
  obtain i where i: "find (\<lambda>i. i_ref (icache s i) = 0) [0..<NINODE] = Some i"
    using free by (cases "find (\<lambda>i. i_ref (icache s i) = 0) [0..<NINODE]") (auto simp: find_None_iff)
  then have "i < NINODE" "i_ref (icache s i) = 0" using find_SomeD [OF i] by simp_all
  let ?g = "\<lambda>ip :: inode. ip\<lparr>i_dev := dev, i_inum := inum, i_ref := 1, i_valid := False\<rparr>"
  have "coherent (upd_inode i ?g s)" by (intro coherent_upd ok) simp
  then show ?thesis using None i \<open>i < NINODE\<close> \<open>i_ref (icache s i) = 0\<close>
    by (intro exI [of _ i] exI [of _ ?g]) (simp add: iget_def)
next
  case (Some i)
  then have i: "i < NINODE" "0 < i_ref (icache s i)" "i_dev (icache s i) = dev" "i_inum (icache s i) = inum"
    using find_SomeD [OF Some] by auto
  let ?g = "\<lambda>ip :: inode. ip\<lparr>i_ref := i_ref ip + 1\<rparr>"
  have "coherent (upd_inode i ?g s)" using coherentD [OF ok i(1,2)] by (intro coherent_upd ok) simp
  then show ?thesis using Some i by (intro exI [of _ i] exI [of _ ?g]) (simp add: iget_def)
qed

text \<open>The entry after \<open>ilock\<close>: locked, valid, as on the disk.\<close>

definition locked_inode :: "int \<Rightarrow> ('a) fs_scheme \<Rightarrow> inode \<Rightarrow> inode" where
  "locked_inode pid s ip = (from_disk s ip)\<lparr>i_lock := (i_lock ip)\<lparr>k_locked := True, k_pid := pid\<rparr>, i_valid := True\<rparr>"

lemma get_dinode_lock: "get_dinode o1 d (ip\<lparr>i_lock := l\<rparr>) = (get_dinode o1 d ip)\<lparr>i_lock := l\<rparr>"
  by (cases ip) (simp add: get_dinode_def)

lemma ilock_ok:
  assumes q: "quiet_store s" and ok: "coherent s" and un: "\<not> k_locked (i_lock (icache s i))"
    and i: "i < NINODE" "1 \<le> i_ref (icache s i)"
    and b: "IBLOCK (unat (i_inum (icache s i))) (sb s) < nblocks s" and t: "i_type (from_disk s (icache s i)) \<noteq> 0"
  shows "ilock pid i s = Some (upd_inode i (locked_inode pid s) s)"
proof -
  let ?ip = "icache s i" and ?lk = "(i_lock (icache s i))\<lparr>k_locked := True, k_pid := pid\<rparr>"
  let ?n = "IBLOCK (unat (i_inum ?ip)) (sb s)"
  have l: "lock_inode pid i s = Some (upd_inode i (\<lambda>ip. ip\<lparr>i_lock := ?lk\<rparr>) s)"
    using un by (simp add: lock_inode_def acquiresleep_def)
  show ?thesis
  proof (cases "i_valid ?ip")
    case True
    have e: "from_disk s ?ip = ?ip" using coherentD [OF ok i(1) _ True] i(2) by simp
    have "locked_inode pid s ?ip = ?ip\<lparr>i_lock := ?lk\<rparr>"
      unfolding locked_inode_def e using True by (cases ?ip) simp
    then have "upd_inode i (locked_inode pid s) s = upd_inode i (\<lambda>ip. ip\<lparr>i_lock := ?lk\<rparr>) s"
      by (simp add: upd_inode_def)
    then show ?thesis using i(2) l True by (simp add: ilock_def)
  next
    case False
    let ?s1 = "upd_inode i (\<lambda>ip. ip\<lparr>i_lock := ?lk\<rparr>) s"
    have r: "blk_read ?n ?s1 = Some (blk s ?n, ?s1\<lparr>held_blks := {?n}\<rparr>)"
      using quiet_read(1) [of ?s1 ?n] q b by simp
    let ?s2 = "?s1\<lparr>held_blks := {?n}\<rparr>"
    let ?g = "get_dinode (dinode_off (unat (i_inum ?ip))) (blk s ?n)"
    have rel: "blk_release ?n (upd_inode i ?g ?s2) = Some (upd_inode i ?g ?s1)"
    proof -
      have "upd_inode i ?g ?s2 = (upd_inode i ?g ?s1)\<lparr>held_blks := {?n}\<rparr>" by (cases s) (simp add: upd_inode_def)
      then show ?thesis using quiet_read(2) [of "upd_inode i ?g ?s1" ?n] q b by simp
    qed
    have "upd_inode i (\<lambda>ip. ip\<lparr>i_valid := True\<rparr>) (upd_inode i ?g ?s1) = upd_inode i (locked_inode pid s) s"
      by (simp add: upd_inode_def locked_inode_def from_disk_def get_dinode_lock)
    moreover have "i_type (?g (?ip\<lparr>i_lock := ?lk\<rparr>)) \<noteq> 0" using t by (simp add: from_disk_def get_dinode_lock)
    ultimately show ?thesis using i(2) l False r rel by (simp add: ilock_def Let_def)
  qed
qed

lemma coherent_locked: "coherent s \<Longrightarrow> coherent (upd_inode i (locked_inode pid s) s)"
  by (rule coherent_upd) (simp_all add: locked_inode_def)

text \<open>\<open>iunlockput\<close> of an inode with a link.\<close>

lemma upd_inode_twice [simp]: "upd_inode i f (upd_inode i g s) = upd_inode i (\<lambda>ip. f (g ip)) s"
  by (simp add: upd_inode_def)

lemma upd_inode_eqI: "f (icache s i) = g (icache s i) \<Longrightarrow> upd_inode i f s = upd_inode i g s"
  by (simp add: upd_inode_def)

lemma iunlockput_ok:
  assumes "k_locked (i_lock (icache s i))" and "1 \<le> i_ref (icache s i)" and "i_nlink (icache s i) \<noteq> 0"
  shows "iunlockput pid i s = Some (upd_inode i (\<lambda>ip. ip\<lparr>i_lock := releasesleep (i_lock ip), i_ref := i_ref ip - 1\<rparr>) s)"
proof -
  let ?u = "\<lambda>ip :: inode. ip\<lparr>i_lock := releasesleep (i_lock ip)\<rparr>"
  let ?l = "\<lambda>ip :: inode. ip\<lparr>i_lock := (releasesleep (i_lock (icache s i)))\<lparr>k_locked := True, k_pid := pid\<rparr>\<rparr>"
  have 1: "iunlock i s = Some (upd_inode i ?u s)"
    using assms by (simp add: iunlock_def holdingsleep_def unlock_inode_def)
  have 2: "lock_inode pid i (upd_inode i ?u s) = Some (upd_inode i ?l (upd_inode i ?u s))"
    by (simp add: lock_inode_def acquiresleep_def) (simp add: releasesleep_def)
  have "iput pid i (upd_inode i ?u s) =
      Some (upd_inode i (\<lambda>ip. ip\<lparr>i_ref := i_ref ip - 1\<rparr>) (unlock_inode i (upd_inode i ?l (upd_inode i ?u s))))"
    using assms(3) by (simp only: iput_def 2 Option.bind.simps) simp
  also have "\<dots> = Some (upd_inode i (\<lambda>ip. ip\<lparr>i_lock := releasesleep (i_lock ip), i_ref := i_ref ip - 1\<rparr>) s)"
    by (simp add: unlock_inode_def) (rule upd_inode_eqI, simp add: releasesleep_def)
  finally show ?thesis using 1 by (simp add: iunlockput_def)
qed

section \<open>Directories\<close>

definition dir_entry :: "('a) fs_scheme \<Rightarrow> nat \<Rightarrow> nat \<Rightarrow> bytes" where
  "dir_entry s dp j k = (if k < DIRENT_SIZE then fbyte s dp (DIRENT_SIZE * j + k) else 0)"

definition entry_matches :: "string \<Rightarrow> bytes \<Rightarrow> bool" where
  "entry_matches name de \<longleftrightarrow> de_inum de \<noteq> 0 \<and> namecmp name (de_name de) = 0"

definition entry_there :: "('a) fs_scheme \<Rightarrow> nat \<Rightarrow> nat \<Rightarrow> bool" where
  "entry_there s dp j \<longleftrightarrow> DIRENT_SIZE * (j + 1) \<le> unat (i_size (icache s dp)) \<and> block_ok s dp (DIRENT_SIZE * j div BSIZE)"

lemma entry_read:
  assumes q: "quiet_store s" and t: "i_type (icache s dp) \<noteq> T_DEV" and sz: "unat (i_size (icache s dp)) < 2 ^ 31"
    and e: "entry_there s dp j"
  shows "readi D dp zero_bytes (of_nat (DIRENT_SIZE * j)) (of_nat DIRENT_SIZE) s = Some (int DIRENT_SIZE, dir_entry s dp j, s)"
proof -
  have b: "k div BSIZE = DIRENT_SIZE * j div BSIZE" if "DIRENT_SIZE * j \<le> k" "k < DIRENT_SIZE * j + DIRENT_SIZE" for k
  proof -
    have "k div 16 = j" using that by (intro div_nat_eqI) (simp_all add: DIRENT_SIZE_def)
    moreover have "k div 512 = k div 16 div 32" "16 * j div 512 = j div 32" by (simp_all flip: div_mult2_eq)
    ultimately show ?thesis by (simp add: DIRENT_SIZE_def BSIZE_def)
  qed
  have le: "DIRENT_SIZE * j \<le> unat (i_size (icache s dp))" and m: "DIRENT_SIZE = min DIRENT_SIZE (unat (i_size (icache s dp)) - DIRENT_SIZE * j)"
    using e by (auto simp: entry_there_def)
  have n: "DIRENT_SIZE * j + DIRENT_SIZE < 2 ^ 32" using e sz by (simp add: entry_there_def)
  have "blit zero_bytes 0 (\<lambda>k. fbyte s dp (DIRENT_SIZE * j + k)) 0 DIRENT_SIZE = dir_entry s dp j"
    by (auto simp: blit_def dir_entry_def)
  moreover have "block_ok s dp (k div BSIZE)" if "DIRENT_SIZE * j \<le> k" "k < DIRENT_SIZE * j + DIRENT_SIZE" for k
    unfolding b [OF that] using e by (simp add: entry_there_def)
  ultimately show ?thesis using readi_reads [OF q t sz le n m, of D zero_bytes] by metis
qed

lemma dirlookup_loop_finds:
  assumes q: "quiet_store s" and t: "i_type (icache s dp) \<noteq> T_DEV" and sz: "unat (i_size (icache s dp)) < 2 ^ 31"
    and e: "\<forall>j \<le> k. entry_there s dp j" and no: "\<forall>j < k. \<not> entry_matches name (dir_entry s dp j)"
    and yes: "entry_matches name (dir_entry s dp k)" and a: "a \<le> k" "k < m"
  shows "dirlookup_loop D dp name [a..<m] s = Some (Some (DIRENT_SIZE * k, de_inum (dir_entry s dp k)), s)"
  using a
proof (induction "k - a" arbitrary: a)
  case 0
  then have "[a..<m] = k # [Suc k..<m]" by (simp add: upt_conv_Cons)
  then show ?case using entry_read [OF q t sz, of k] e yes by (simp add: entry_matches_def)
next
  case (Suc d)
  then have "[a..<m] = a # [Suc a..<m]" by (simp add: upt_conv_Cons)
  moreover have "dirlookup_loop D dp name [Suc a..<m] s = Some (Some (DIRENT_SIZE * k, de_inum (dir_entry s dp k)), s)"
    using Suc by (intro Suc.hyps(1)) auto
  moreover have "\<not> entry_matches name (dir_entry s dp a)" using no Suc.hyps(2) by simp
  ultimately show ?case using entry_read [OF q t sz, of a] e Suc.prems by (auto simp: entry_matches_def)
qed

section \<open>Path names\<close>

text \<open>One step of \<open>namei\<close>: the last element of the path is the \<open>k\<close>-th entry of the directory \<open>r\<close>.\<close>

lemma namex_last:
  fixes s :: "('a) fs_scheme"
  assumes q: "quiet_store s" and ok: "icache_ok s" and r: "r < NINODE" "1 \<le> i_ref (icache s r)"
    and b: "IBLOCK (unat (i_inum (icache s r))) (sb s) < nblocks s"
    and path: "skipelem path = Some (name, rest)" "skipelem rest = None"
    and s1: "s1 = upd_inode r (locked_inode pid s) s"
    and dir: "i_type (icache s1 r) = T_DIR" "i_nlink (icache s1 r) \<noteq> 0" "unat (i_size (icache s1 r)) < 2 ^ 31"
    and e: "\<forall>j \<le> k. entry_there s1 r j" and no: "\<forall>j < k. \<not> entry_matches name (dir_entry s1 r j)"
    and yes: "entry_matches name (dir_entry s1 r k)"
    and other: "ucast (de_inum (dir_entry s1 r k)) \<noteq> i_inum (icache s r)"
    and free: "f < NINODE" "i_ref (icache s f) = 0"
  shows "\<exists>i s'. namex_loop D pid False path n0 r s = Some (Some (i, name), s') \<and> i < NINODE \<and> 1 \<le> i_ref (icache s' i) \<and>
    i_dev (icache s' i) = i_dev (icache s r) \<and> i_inum (icache s' i) = ucast (de_inum (dir_entry s1 r k)) \<and>
    icache_ok s' \<and> same_but_icache s s' \<and> i \<noteq> r \<and>
    (\<forall>j. i_ref (icache s' j) = i_ref (icache s j) + (if j = i then 1 else 0) - (if j = r then 1 else 0))"
proof -
  let ?inum = "ucast (de_inum (dir_entry s1 r k)) :: u32"
  have co: "coherent s" and un: "\<And>i. i < NINODE \<Longrightarrow> \<not> k_locked (i_lock (icache s i))" using ok by (simp_all add: icache_ok_def)
  have t: "i_type (from_disk s (icache s r)) \<noteq> 0" using dir(1) by (simp add: s1 locked_inode_def T_DIR_def)
  have l: "ilock pid r s = Some s1" unfolding s1 by (rule ilock_ok [OF q co un [OF r(1)] r b t])
  have q1: "quiet_store s1" and co1: "coherent s1" using q coherent_locked [OF co] by (simp_all add: s1)
  have m: "k < (unat (i_size (icache s1 r)) + DIRENT_SIZE - 1) div DIRENT_SIZE"
    using e by (auto simp: entry_there_def DIRENT_SIZE_def)
  have "dirlookup_loop D r name (dir_slots (icache s1 r)) s1 = Some (Some (DIRENT_SIZE * k, de_inum (dir_entry s1 r k)), s1)"
    unfolding dir_slots_def by (rule dirlookup_loop_finds [OF q1 _ dir(3) e no yes le0 m]) (simp add: dir(1) T_DIR_def T_DEV_def)
  moreover
  have rf: "i_ref (icache s1 f) = 0" "f \<noteq> r" using free(2) r(2) by (auto simp: s1)
  moreover obtain i g where ig: "iget (i_dev (icache s1 r)) ?inum s1 = Some (i, upd_inode i g s1)"
    and i: "i < NINODE" "1 \<le> i_ref (g (icache s1 i))" "i_dev (g (icache s1 i)) = i_dev (icache s1 r)"
      "i_inum (g (icache s1 i)) = ?inum" "i_lock (g (icache s1 i)) = i_lock (icache s1 i)"
      "0 < i_ref (icache s1 i) \<longrightarrow> i_inum (icache s1 i) = ?inum" and gr: "i_ref (g (icache s1 i)) = i_ref (icache s1 i) + 1" and c2: "coherent (upd_inode i g s1)"
    using iget_ok [OF co1 free(1) rf(1), of "i_dev (icache s1 r)" ?inum] by blast
  ultimately have d: "dirlookup D r name s1 = Some (Some (i, DIRENT_SIZE * k), upd_inode i g s1)"
    using dir(1) by (simp add: dirlookup_def)
  have r1: "i_inum (icache s1 r) = i_inum (icache s r)" "i_dev (icache s1 r) = i_dev (icache s r)" "i_ref (icache s1 r) = i_ref (icache s r)"
    "k_locked (i_lock (icache s1 r))" by (simp_all add: s1 locked_inode_def)
  have ir: "i \<noteq> r" using i(6) r1 r(2) other by auto
  let ?s2 = "upd_inode i g s1" and ?h = "\<lambda>ip :: inode. ip\<lparr>i_lock := releasesleep (i_lock ip), i_ref := i_ref ip - 1\<rparr>"
  have p: "iunlockput pid r ?s2 = Some (upd_inode r ?h ?s2)"
    using ir r1 r(2) dir(2) by (intro iunlockput_ok) simp_all
  let ?s3 = "upd_inode r ?h ?s2"
  have fin: "namex_loop D pid False path n0 r s = Some (Some (i, name), ?s3)"
  proof -
    have "namex_loop D pid False path n0 r s = namex_loop D pid False rest name i ?s3"
      using path(1) l dir(1) d p by (subst namex_loop.simps) simp
    also have "\<dots> = Some (Some (i, name), ?s3)" using path(2) by (subst namex_loop.simps) simp
    finally show ?thesis .
  qed
  have fr: "from_disk ?s2 (icache ?s2 r) = icache ?s2 r"
  proof -
    have "from_disk ?s2 x = from_disk s x" for x by (rule from_disk_cong) (simp_all add: s1)
    then show ?thesis using ir by (simp add: s1 locked_inode_def)
  qed
  have "coherent ?s3" using fr by (intro coherent_upd c2) simp
  moreover have "\<not> k_locked (i_lock (icache ?s3 j))" if "j < NINODE" for j
    using un [OF that] i(5) ir by (auto simp: s1 releasesleep_def)
  ultimately have "icache_ok ?s3" by (simp add: icache_ok_def)
  moreover have "same_but_icache s ?s3"
    unfolding s1 by (intro same_but_icache_trans [OF _ same_but_icache_upd] same_but_icache_trans [OF same_but_icache_upd same_but_icache_upd])
  moreover have "i_ref (icache s1 j) = i_ref (icache s j)" for j by (simp add: s1 locked_inode_def)
  then have "\<forall>j. i_ref (icache ?s3 j) = i_ref (icache s j) + (if j = i then 1 else 0) - (if j = r then 1 else 0)"
    using ir gr by simp
  ultimately show ?thesis using fin i(1-4) ir r1(2) by (intro exI [of _ i] exI [of _ ?s3]) simp
qed

end
