(* ===== verification/MkfsRead.thy ===== *)
theory MkfsRead
  imports MkfsProps FsRead
begin

text \<open>
  The kernel reads what mkfs wrote: the path from the name of a host file through the directory, the
  inode cache, \<open>bmap\<close> and \<open>readi\<close> to its bytes.
\<close>

section \<open>Names\<close>

lemma of_char_0: "of_char c = (0 :: nat) \<longleftrightarrow> c = CHR 0x00"
  using of_char_eq_iff [of c "CHR 0x00", where ?'a = nat] by simp

lemma strncmp_0:
  assumes "CHR 0x00 \<notin> set p" and "CHR 0x00 \<notin> set q"
  shows "strncmp p q n = 0 \<longleftrightarrow> take n p = take n q"
  using assms
proof (induction n arbitrary: p q)
  case (Suc n)
  show ?case
    using Suc by (cases p; cases q) (auto simp: char_at_def of_char_0)
qed simp

lemma de_name_dirent:
  assumes "CHR 0x00 \<notin> set nm"
  shows "de_name (dirent nm i) = take DIRSIZ nm"
proof -
  let ?de = "dirent nm i"
  have at: "?de (2 + k) = (if k < length nm then of_nat (of_char (nm ! k)) else 0)" if "k < DIRSIZ" for k
    using that by (simp add: dirent_def put_name_def put16_def)
  have c: "of_char c < (256 :: nat)" for c by simp
  have u: "unat (of_nat (of_char c) :: u8) = of_char c" for c using c [of c] by (subst unat_of_nat) simp
  have nz: "(of_nat (of_char c) :: u8) \<noteq> 0" if "c \<noteq> CHR 0x00" for c
    using u [of c] that by (metis of_char_0 unat_0)
  have tw: "takeWhile (\<lambda>k. ?de (2 + k) \<noteq> 0) [0..<DIRSIZ] = [0..<min DIRSIZ (length nm)]"
  proof (rule takeWhile_eq_take_P_nth [THEN trans])
    show "i < length [0..<DIRSIZ] \<Longrightarrow> i < min DIRSIZ (length nm) \<Longrightarrow> ?de (2 + [0..<DIRSIZ] ! i) \<noteq> 0" for i
    proof -
      assume "i < length [0..<DIRSIZ]" "i < min DIRSIZ (length nm)"
      then have i: "i < DIRSIZ" "i < length nm" by simp_all
      then have "nm ! i \<noteq> CHR 0x00" using assms nth_mem [of i nm] by metis
      then show "?de (2 + [0..<DIRSIZ] ! i) \<noteq> 0" using i nz at by simp
    qed
  qed (use at in \<open>auto simp: take_upt min_def\<close>)
  show ?thesis
    unfolding de_name_def tw using at u by (intro nth_equalityI) simp_all
qed

lemma de_inum_dirent: "de_inum (dirent nm i) = i"
  by (simp add: de_inum_def dirent_def)

lemma skipelem_name:
  assumes "nm \<noteq> []" and "CHR ''/'' \<notin> set nm"
  shows "skipelem nm = Some (take DIRSIZ nm, [])" "skipelem (''/'' @ nm) = Some (take DIRSIZ nm, [])" "skipelem [] = None"
proof -
  have d: "dropWhile (\<lambda>c. c = CHR ''/'') nm = nm" using assms by (cases nm) auto
  have "\<forall>x \<in> set nm. x \<noteq> CHR ''/''" using assms(2) by auto
  then have t: "takeWhile (\<lambda>c. c \<noteq> CHR ''/'') nm = nm" "dropWhile (\<lambda>c. c \<noteq> CHR ''/'') nm = []"
    by (simp_all only: takeWhile_eq_all_conv dropWhile_eq_Nil_conv)
  have e: "skipelem p = Some (take DIRSIZ nm, [])" if "dropWhile (\<lambda>c. c = CHR ''/'') p = nm" for p
    unfolding skipelem_def Let_def that t using assms(1) by simp
  show "skipelem nm = Some (take DIRSIZ nm, [])" "skipelem (''/'' @ nm) = Some (take DIRSIZ nm, [])"
    using d by (intro e; simp)+
  show "skipelem [] = None" by (simp add: skipelem_def)
qed

section \<open>The root directory as entries\<close>

definition root_name :: "host_file list \<Rightarrow> nat \<Rightarrow> string" where
  "root_name files j = (if j = 0 then ''.'' else if j = 1 then ''..'' else fs_name (files ! (j - 2)))"

definition root_inum :: "nat \<Rightarrow> nat" where
  "root_inum j = (if j < 2 then 1 else j)"

lemma nth_concat_equal:
  assumes "\<And>j. length (f j) = n" and "j < m" and "x < n"
  shows "concat (map f [0..<m]) ! (n * j + x) = f j ! x"
  using assms(2)
proof (induction m)
  case (Suc m)
  have l: "length (concat (map f [0..<m])) = n * m" by (induction m) (simp_all add: assms(1))
  show ?case
  proof (cases "j = m")
    case True
    then show ?thesis using l assms(1,3) by (simp add: nth_append)
  next
    case False
    then have j: "j < m" using Suc.prems by simp
    then have "n * j + x < n * m" using assms(3) by (metis add.commute add_less_cancel_right less_le_trans mult_Suc_right mult_le_mono2 Suc_leI)
    then show ?thesis using Suc.IH j l by (simp add: nth_append)
  qed
qed simp

lemma root_dir_entries:
  "root_dir files = concat (map (\<lambda>j. entry (root_name files j) (root_inum j)) [0..<2 + length files])"
proof -
  have "[2..<2 + length files] = map (\<lambda>k. k + 2) [0..<length files]" by (rule nth_equalityI) (simp_all del: upt_Suc)
  then have u: "[0..<2 + length files] = 0 # 1 # map (\<lambda>k. k + 2) [0..<length files]"
    using upt_conv_Cons [of 0 "2 + length files"] upt_conv_Cons [of 1 "2 + length files"] by (simp add: numeral_2_eq_2 del: upt_Suc)
  show ?thesis unfolding u by (simp add: root_dir_def root_name_def root_inum_def comp_def del: upt_Suc)
qed

lemma root_dir_nth:
  assumes "j < 2 + length files" and "x < DIRENT_SIZE"
  shows "root_dir files ! (DIRENT_SIZE * j + x) = dirent (root_name files j) (of_nat (root_inum j)) x"
  unfolding root_dir_entries using assms by (subst nth_concat_equal) (simp_all add: entry_def)

section \<open>A kernel with the image mounted\<close>

text \<open>The kernel between calls, its disk as mkfs left it.\<close>

definition mounted :: "host_file list \<Rightarrow> mkfs \<Rightarrow> ('a) fs_scheme \<Rightarrow> bool" where
  "mounted files s k \<longleftrightarrow> files_ok files \<and> main_mkfs files = Some s \<and> quiet_store k \<and> sb k = mkfs_sb \<and>
     nblocks k = FSSIZE \<and> blk k = m_img s"

lemma mounted_cong: "mounted files s k \<Longrightarrow> same_but_icache k k' \<Longrightarrow> mounted files s k'"
  using same_but_icache_fields [of k k'] by (simp add: mounted_def)

lemma mountedD:
  assumes "mounted files s k"
  shows "files_ok files" "main_mkfs files = Some s" "quiet_store k" "sb k = mkfs_sb" "nblocks k = FSSIZE" "blk k = m_img s"
    "ready s" "\<exists>s0. finished files s0 s"
proof -
  show ok: "files_ok files" and m: "main_mkfs files = Some s" and "quiet_store k" "sb k = mkfs_sb" "nblocks k = FSSIZE" "blk k = m_img s"
    using assms by (simp_all add: mounted_def)
  show F: "\<exists>s0. finished files s0 s" using main_mkfs_finished [OF ok] m by auto
  then show "ready s" using finishedD(2) [OF _ ok] by blast
qed

text \<open>What \<open>ilock\<close> loads for inode \<open>j\<close>.\<close>

lemma mounted_inode:
  assumes M: "mounted files s k" and j: "j < ninos" and ip: "unat (i_inum ip) = j"
  shows "i_type (from_disk k ip) = d_type (inode_at s j)" "i_nlink (from_disk k ip) = d_nlink (inode_at s j)"
    "i_size (from_disk k ip) = d_size (inode_at s j)" "i_addrs (from_disk k ip) = d_addrs (inode_at s j)"
    "IBLOCK (unat (i_inum ip)) (sb k) < nblocks k"
proof -
  note D = mountedD [OF M]
  show "i_type (from_disk k ip) = d_type (inode_at s j)" "i_nlink (from_disk k ip) = d_nlink (inode_at s j)"
    "i_size (from_disk k ip) = d_size (inode_at s j)" "i_addrs (from_disk k ip) = d_addrs (inode_at s j)"
    using D(4,6,7) by (simp_all add: from_disk_def ip get_dinode_def inode_at_def read_di_def ready_def)
  show "IBLOCK (unat (i_inum ip)) (sb k) < nblocks k"
    using iblock [OF j] D(4,5) ip by (simp add: istart_val nmeta_val)
qed

lemma fblock_slot: "bn < MAXFILE \<Longrightarrow> fblock img (d_addrs d) bn = slot img d bn"
  by (simp add: fblock_def slot_def)

text \<open>The bytes of a file seen through an entry of the inode cache with its addresses.\<close>

lemma mounted_bytes:
  assumes M: "mounted files s k" and j: "j < ninos" and a: "i_addrs (icache k i) = d_addrs (inode_at s j)"
    and x: "x < length (contents files j)"
  shows "block_ok k i (x div BSIZE)" "fbyte k i x = contents files j ! x"
proof -
  note D = mountedD [OF M]
  obtain s0 where F: "finished files s0 s" using D(8) by blast
  note E = finishedD [OF F D(1)]
  obtain own where B: "built (inode_at s) (contents files) own s" using E(1) by (auto simp: minv_def)
  have T: "tight (contents files j) (m_img s) (inode_at s j)" using E(1) j by (simp add: minv_def)
  have sz: "length (contents files j) \<le> MAXFILE * BSIZE"
  proof -
    have "length (root_dir files) \<le> MAXFILE * BSIZE"
      using D(1) by (simp add: files_ok_def length_root_dir NINODES_def DIRENT_SIZE_def nmeta_val)
    moreover have "length (file_data (files ! i)) \<le> MAXFILE * BSIZE" if "i < length files" for i
      using D(1) nth_mem [OF that] by (simp add: files_ok_def readable_file_def)
    moreover have "j - 2 < length files" if "2 \<le> j" "j < 2 + length files" using that by simp
    ultimately show ?thesis by (simp add: contents_def)
  qed
  have x1: "x < MAXFILE * BSIZE" using x sz by simp
  note bi = block_index [OF x1]
  have xb: "x div BSIZE * BSIZE < length (contents files j)" using div_times_less_eq_dividend [of x BSIZE] x by linarith
  then have nz: "slot (m_img s) (inode_at s j) (x div BSIZE) \<noteq> 0" using T bi unfolding tight_def by blast
  have lt: "slot (m_img s) (inode_at s j) q < FSSIZE" if "q \<le> MAXFILE" "slot (m_img s) (inode_at s j) q \<noteq> 0" for q
    using layoutD(4) [OF builtD(1) [OF B] j that] builtD(4) [OF B] by simp
  have ind: "slot (m_img s) (inode_at s j) MAXFILE < FSSIZE" if "NDIRECT \<le> x div BSIZE"
    using slot_entry [OF that bi] nz lt [of MAXFILE] by (auto split: if_splits)
  show "block_ok k i (x div BSIZE)"
    using bi nz lt [OF less_imp_le [OF bi] nz] ind by (simp add: block_ok_def D(5,6) a fblock_slot slot_indirect)
  have "fbyte k i x = file_byte (m_img s) (inode_at s j) x"
    using bi nz by (simp add: fbyte_def D(6) a fblock_slot file_byte_def)
  also have "\<dots> = contents files j ! x" using minv_byte [OF E(1) j x1] x by (simp add: buffer_def)
  finally show "fbyte k i x = contents files j ! x" .
qed

section \<open>Looking up a name\<close>

lemma take_neq_short: "length q < n \<Longrightarrow> p \<noteq> q \<Longrightarrow> take n p \<noteq> q"
  by (cases "length p \<le> n") auto

definition names_ok :: "host_file list \<Rightarrow> bool" where
  "names_ok files \<longleftrightarrow> (\<forall>f \<in> set files. CHR 0x00 \<notin> set (fst f))"

text \<open>File \<open>n\<close> is the first whose entry has the name \<open>nm\<close>.\<close>

definition first_named :: "host_file list \<Rightarrow> nat \<Rightarrow> string \<Rightarrow> bool" where
  "first_named files n nm \<longleftrightarrow> n < length files \<and> fs_name (files ! n) = nm \<and> nm \<notin> {[], ''.'', ''..''} \<and>
     (\<forall>j < n. take DIRSIZ (fs_name (files ! j)) \<noteq> take DIRSIZ nm)"

lemma fs_name_chars: "set (fs_name f) \<subseteq> set (fst f)"
  by (cases "fst f") (auto simp: fs_name_def)

lemma root_entry_matches:
  assumes "names_ok files" and "j < 2 + length files" and "2 + length files < 2 ^ 16" and "CHR 0x00 \<notin> set nm"
  shows "entry_matches (take DIRSIZ nm) (dirent (root_name files j) (of_nat (root_inum j))) \<longleftrightarrow>
    take DIRSIZ nm = take DIRSIZ (root_name files j)"
proof -
  have "files ! (j - 2) \<in> set files" if "2 \<le> j" using assms(2) that by (intro nth_mem) simp
  then have nul: "CHR 0x00 \<notin> set (root_name files j)"
    using assms(1) fs_name_chars [of "files ! (j - 2)"] by (auto simp: root_name_def names_ok_def)
  have "(of_nat (root_inum j) :: u16) \<noteq> 0"
  proof
    assume "(of_nat (root_inum j) :: u16) = 0"
    then have "unat (of_nat (root_inum j) :: u16) = 0" by simp
    moreover have "unat (of_nat (root_inum j) :: u16) = root_inum j"
      using assms(2,3) by (subst unat_of_nat) (simp add: root_inum_def)
    ultimately show False by (simp add: root_inum_def split: if_splits)
  qed
  moreover have "CHR 0x00 \<notin> set (take n q)" if "CHR 0x00 \<notin> set q" for n q
    using that in_set_takeD by fast
  ultimately show ?thesis
    using nul assms(4) by (simp add: entry_matches_def de_inum_dirent de_name_dirent namecmp_def strncmp_0)
qed

lemma ucast_u16: "m < 2 ^ 16 \<Longrightarrow> (ucast (of_nat m :: u16) :: u32) = of_nat m"
  by (simp add: unsigned_of_nat take_bit_nat_eq_self)

lemma mounted_lookup:
  fixes k :: "('a) fs_scheme"
  assumes M: "mounted files s k" and ok: "icache_ok k" and nm: "names_ok files" "first_named files n nm"
    and r: "r < NINODE" "1 \<le> i_ref (icache k r)" "i_inum (icache k r) = ROOTINO"
    and path: "skipelem path = Some (take DIRSIZ nm, [])" and free: "f < NINODE" "i_ref (icache k f) = 0"
  shows "\<exists>i k'. namex_loop D pid False path n0 r k = Some (Some (i, take DIRSIZ nm), k') \<and> i < NINODE \<and>
    1 \<le> i_ref (icache k' i) \<and> i_inum (icache k' i) = of_nat (n + 2) \<and> icache_ok k' \<and> same_but_icache k k' \<and>
    (\<forall>j. i_ref (icache k' j) = i_ref (icache k j) + (if j = i then 1 else 0) - (if j = r then 1 else 0))"
proof -
  note D = mountedD [OF M]
  obtain s0 where F: "finished files s0 s" using D(8) by blast
  note E = finishedD [OF F D(1)]
  have one: "1 < ninos" and root: "unat (i_inum (icache k r)) = 1" by (simp_all add: nmeta_val r(3) ROOTINO_def)
  note R = mounted_inode [OF M one root]
  define k1 where "k1 = upd_inode r (locked_inode pid k) k"
  have M1: "mounted files s k1" using mounted_cong [OF M same_but_icache_upd] by (simp add: k1_def)
  have kd: "kind (inode_at s 1) = (T_DIR, 0, 0, 1)" using E(4) [OF one] by simp
  have ip: "i_type (icache k1 r) = T_DIR" "i_nlink (icache k1 r) = 1" "i_size (icache k1 r) = d_size (inode_at s 1)"
    "i_addrs (icache k1 r) = d_addrs (inode_at s 1)"
    using R kd by (simp_all add: k1_def locked_inode_def kind_def)
  have n: "n < length files" and len: "length files + 2 \<le> NINODES" and n0: "nm = fs_name (files ! n)"
    using nm(2) D(1) by (simp_all add: first_named_def files_ok_def)
  have nul: "CHR 0x00 \<notin> set nm" using nm(1) n n0 fs_name_chars [of "files ! n"] nth_mem [OF n] by (auto simp: names_ok_def)
  have sz: "unat (i_size (icache k1 r)) = rounded (length (root_dir files))" using E(6) ip(3) by simp
  have small: "unat (i_size (icache k1 r)) < 2 ^ 31"
    using len by (simp add: sz length_root_dir rounded_def NINODES_def DIRENT_SIZE_def nmeta_val)
  have ents: "dir_entry k1 r j = dirent (root_name files j) (of_nat (root_inum j))" if j: "j < 2 + length files" for j
  proof
    fix x
    show "dir_entry k1 r j x = dirent (root_name files j) (of_nat (root_inum j)) x"
    proof (cases "x < DIRENT_SIZE")
      case True
      have "DIRENT_SIZE * j + x < length (contents files 1)"
      proof -
        have "DIRENT_SIZE * Suc j \<le> DIRENT_SIZE * (2 + length files)" using j by (intro mult_le_mono2) simp
        then show ?thesis using True by (simp add: contents_def length_root_dir)
      qed
      then show ?thesis
        using mounted_bytes(2) [OF M1 one ip(4)] root_dir_nth [OF j True] True by (simp add: dir_entry_def contents_def)
    next
      case False
      then show ?thesis by (simp add: dir_entry_def dirent_def put_name_def put16_def DIRENT_SIZE_def DIRSIZ_def)
    qed
  qed
  have there: "entry_there k1 r j" if j: "j < 2 + length files" for j
  proof -
    have le: "DIRENT_SIZE * Suc j \<le> DIRENT_SIZE * (2 + length files)" using j by (intro mult_le_mono2) simp
    then have "DIRENT_SIZE * j < length (contents files 1)" by (simp add: contents_def length_root_dir DIRENT_SIZE_def)
    then have "block_ok k1 r (DIRENT_SIZE * j div BSIZE)" by (rule mounted_bytes(1) [OF M1 one ip(4)])
    moreover have "DIRENT_SIZE * Suc j \<le> unat (i_size (icache k1 r))"
      using le rounded_ge [of "length (root_dir files)"] by (simp add: sz length_root_dir)
    ultimately show ?thesis by (simp add: entry_there_def)
  qed
  have b16: "2 + length files < 2 ^ 16" using len by (simp add: NINODES_def)
  note match = root_entry_matches [OF nm(1) _ b16 nul]
  let ?k = "n + 2"
  have yes: "entry_matches (take DIRSIZ nm) (dir_entry k1 r ?k)"
    using match [of ?k] ents [of ?k] n n0 by (simp add: root_name_def)
  have no: "\<forall>j < ?k. \<not> entry_matches (take DIRSIZ nm) (dir_entry k1 r j)"
  proof (intro allI impI)
    fix j
    assume j: "j < ?k"
    have nd: "nm \<noteq> ''.''" "nm \<noteq> ''..''" using nm(2) by (simp_all add: first_named_def)
    have "take DIRSIZ nm \<noteq> ''.''" "take DIRSIZ nm \<noteq> ''..''"
      by (rule take_neq_short; simp add: DIRSIZ_def nd)+
    moreover have "take DIRSIZ nm \<noteq> take DIRSIZ (fs_name (files ! (j - 2)))" if "2 \<le> j"
    proof -
      have "j - 2 < n" using j that by simp
      then show ?thesis using nm(2) unfolding first_named_def by metis
    qed
    ultimately have "take DIRSIZ nm \<noteq> take DIRSIZ (root_name files j)"
      by (simp add: root_name_def) (simp add: DIRSIZ_def)
    then show "\<not> entry_matches (take DIRSIZ nm) (dir_entry k1 r j)" using match [of j] ents [of j] j n by simp
  qed
  have inum: "de_inum (dir_entry k1 r ?k) = of_nat ?k"
    using ents [of ?k] n by (simp add: de_inum_dirent root_inum_def)
  have uc: "(ucast (of_nat ?k :: u16) :: u32) = of_nat ?k"
    using n len by (intro ucast_u16) (simp add: NINODES_def)
  have other: "ucast (de_inum (dir_entry k1 r ?k)) \<noteq> i_inum (icache k r)"
  proof
    assume "ucast (de_inum (dir_entry k1 r ?k)) = i_inum (icache k r)"
    then have "unat (of_nat ?k :: u32) = 1" unfolding inum uc using root by simp
    moreover have "?k < ninos" using n len by (simp add: NINODES_def nmeta_val)
    ultimately show False by (simp only: unat_small)
  qed
  have e: "\<forall>j \<le> ?k. entry_there k1 r j" using there n by simp
  have skip: "skipelem [] = None" by (simp add: skipelem_def)
  have nl: "i_nlink (icache k1 r) \<noteq> 0" by (simp add: ip(2))
  from namex_last [OF D(3) ok r(1,2) R(5) path skip k1_def ip(1) nl small e no yes other free]
  show ?thesis unfolding inum uc by blast
qed

section \<open>Reading the file\<close>

lemma file_inum: "files_ok files \<Longrightarrow> n < length files \<Longrightarrow> n + 2 < ninos"
  by (simp add: files_ok_def NINODES_def nmeta_val)

lemma mounted_ilock:
  assumes M: "mounted files s k" and ok: "icache_ok k" and n: "n < length files"
    and i: "i < NINODE" "1 \<le> i_ref (icache k i)" "i_inum (icache k i) = of_nat (n + 2)"
  shows "ilock pid i k = Some (upd_inode i (locked_inode pid k) k)"
    and "i_type (locked_inode pid k (icache k i)) = T_FILE" "i_nlink (locked_inode pid k (icache k i)) = 1"
    and "unat (i_size (locked_inode pid k (icache k i))) = length (file_data (files ! n))"
    and "i_addrs (locked_inode pid k (icache k i)) = d_addrs (inode_at s (n + 2))"
proof -
  note D = mountedD [OF M]
  obtain s0 where F: "finished files s0 s" using D(8) by blast
  note E = finishedD [OF F D(1)]
  have j: "n + 2 < ninos" by (rule file_inum [OF D(1) n])
  have num: "unat (i_inum (icache k i)) = n + 2" unfolding i(3) by (rule unat_small [OF j])
  note R = mounted_inode [OF M j num]
  have kd: "kind (inode_at s (n + 2)) = (T_FILE, 0, 0, 1)" using E(4) [OF j] n by simp
  then have t: "i_type (from_disk k (icache k i)) = T_FILE" using R(1) by (simp add: kind_def)
  show "ilock pid i k = Some (upd_inode i (locked_inode pid k) k)"
    using ok i(1) t by (intro ilock_ok D(3) i(1,2) R(5)) (simp_all add: icache_ok_def T_FILE_def)
  show "i_type (locked_inode pid k (icache k i)) = T_FILE" "i_nlink (locked_inode pid k (icache k i)) = 1"
    "i_addrs (locked_inode pid k (icache k i)) = d_addrs (inode_at s (n + 2))"
    using t R kd by (simp_all add: locked_inode_def kind_def)
  have "contents files (n + 2) = file_data (files ! n)" using n by (simp add: contents_def)
  then show "unat (i_size (locked_inode pid k (icache k i))) = length (file_data (files ! n))"
    using R(3) E(5) [OF j] by (simp add: locked_inode_def)
qed

lemma mounted_readi:
  assumes M: "mounted files s k" and ok: "icache_ok k" and n: "n < length files"
    and i: "i < NINODE" "1 \<le> i_ref (icache k i)" "i_inum (icache k i) = of_nat (n + 2)"
    and k2: "k2 = upd_inode i (locked_inode pid k) k" and data: "data = file_data (files ! n)"
    and off: "off \<le> length data" "off + m < 2 ^ 32"
  shows "readi D i dst (of_nat off) (of_nat m) k2 =
    Some (int (min m (length data - off)), blit dst 0 (\<lambda>x. data ! (off + x)) 0 (min m (length data - off)), k2)"
proof -
  note L = mounted_ilock [OF M ok n i, of pid]
  have M2: "mounted files s k2" unfolding k2 by (rule mounted_cong [OF M same_but_icache_upd])
  have c: "contents files (n + 2) = data" using n by (simp add: contents_def data)
  have sz: "unat (i_size (icache k2 i)) = length data" using L(4) by (simp add: k2 data)
  have a: "i_addrs (icache k2 i) = d_addrs (inode_at s (n + 2))" using L(5) by (simp add: k2)
  note B = mounted_bytes [OF M2 file_inum [OF mountedD(1) [OF M] n] a, unfolded c]
  have "length data \<le> MAXFILE * BSIZE"
    using mountedD(1) [OF M] nth_mem [OF n] by (simp add: files_ok_def readable_file_def data)
  then have small: "unat (i_size (icache k2 i)) < 2 ^ 31" by (simp add: sz nmeta_val)
  have dev: "i_type (icache k2 i) \<noteq> T_DEV" using L(2) by (simp add: k2 T_FILE_def T_DEV_def)
  let ?m = "min m (length data - off)"
  have "readi D i dst (of_nat off) (of_nat m) k2 = Some (int ?m, blit dst 0 (\<lambda>x. fbyte k2 i (off + x)) 0 ?m, k2)"
    using B(1) off by (intro readi_reads mountedD(3) [OF M2] dev small) (simp_all add: sz)
  moreover have "blit dst 0 (\<lambda>x. fbyte k2 i (off + x)) 0 ?m = blit dst 0 (\<lambda>x. data ! (off + x)) 0 ?m"
    using B(2) by (auto simp: blit_def fun_eq_iff)
  ultimately show ?thesis by simp
qed

lemma first_named_path:
  assumes "files_ok files" and "first_named files n nm"
  shows "skipelem nm = Some (take DIRSIZ nm, [])" "skipelem (''/'' @ nm) = Some (take DIRSIZ nm, [])"
proof -
  have n: "n < length files" "nm = fs_name (files ! n)" "nm \<noteq> []" using assms(2) by (simp_all add: first_named_def)
  then have "CHR ''/'' \<notin> set nm"
    using assms(1) fs_name_chars [of "files ! n"] nth_mem [OF n(1)] by (auto simp: files_ok_def readable_file_def)
  then show "skipelem nm = Some (take DIRSIZ nm, [])" "skipelem (''/'' @ nm) = Some (take DIRSIZ nm, [])"
    using skipelem_name n(3) by simp_all
qed

text \<open>After \<open>mount\<close> the cache is empty.\<close>

lemma mount_mounted:
  assumes ok: "files_ok files" and m: "main_mkfs files = Some s" and k: "mount (boot_fs ic (m_img s)) = Some k"
    and ic: "\<forall>i < NINODE. i_ref (ic i) = 0"
  shows "mounted files s k" "icache_ok k" "\<forall>i < NINODE. i_ref (icache k i) = 0"
proof -
  obtain s0 where F: "finished files s0 s" using main_mkfs_finished [OF ok] m by auto
  note D = finishedD [OF F ok]
  have "m_img s 1 = write_sb mkfs_sb zero_bytes" "m_img s 2 = zero_bytes"
    using D(7) [of 1] D(7) [of 2] by (simp_all add: istart_val)
  from mount_image [OF this, of ic] k
  have K: "tx_ok k" "blk k = m_img s" "sb k = mkfs_sb" "held_blks k = {}" "nblocks k = FSSIZE"
    and icK: "icache k = (\<lambda>i. if i < NINODE then (ic i)\<lparr>i_lock := initsleeplock (i_lock (ic i))\<rparr> else ic i)" by auto
  show "mounted files s k" using ok m K by (simp add: mounted_def quiet_store_def tx_ok_def)
  show r: "\<forall>i < NINODE. i_ref (icache k i) = 0" using ic by (simp add: icK)
  then show "icache_ok k" by (simp add: icache_ok_def coherent_def) (simp add: icK initsleeplock_def)
qed

lemma mkfs_reads:
  assumes ok: "files_ok files" and m: "main_mkfs files = Some s" and k: "mount (boot_fs ic (m_img s)) = Some k"
    and ic: "\<forall>i < NINODE. i_ref (ic i) = 0" and nm: "names_ok files" "first_named files n nm"
    and data: "data = file_data (files ! n)" and off: "off \<le> length data" "off + c < 2 ^ 32"
  shows "\<exists>i k1 k2. namei D pid cwd (''/'' @ nm) k = Some (Some i, k1) \<and> ilock pid i k1 = Some k2 \<and>
    readi D i dst (of_nat off) (of_nat c) k2 =
      Some (int (min c (length data - off)), blit dst 0 (\<lambda>x. data ! (off + x)) 0 (min c (length data - off)), k2)"
proof -
  note M = mount_mounted [OF ok m k ic]
  have n: "n < length files" using nm(2) by (simp add: first_named_def)
  have "coherent k" using M(2) by (simp add: icache_ok_def)
  from iget_ok [OF this, of 0 ROOTDEV ROOTINO] M(3)
  obtain r g where g: "iget ROOTDEV ROOTINO k = Some (r, upd_inode r g k)" "r < NINODE" "1 \<le> i_ref (g (icache k r))"
      "i_inum (g (icache k r)) = ROOTINO" "i_lock (g (icache k r)) = i_lock (icache k r)" "coherent (upd_inode r g k)"
    by (auto simp: NINODE_def)
  let ?k0 = "upd_inode r g k"
  have M0: "mounted files s ?k0" by (rule mounted_cong [OF M(1) same_but_icache_upd])
  have ok0: "icache_ok ?k0" using M(2) g(5,6) by (simp add: icache_ok_def)
  obtain f where f: "f < NINODE" "f \<noteq> r"
  proof
    show "(if r = 0 then 1 else 0) < NINODE" "(if r = 0 then 1 else 0) \<noteq> r" by (simp_all add: NINODE_def)
  qed
  then have f0: "i_ref (icache ?k0 f) = 0" using M(3) by simp
  have r0: "1 \<le> i_ref (icache ?k0 r)" "i_inum (icache ?k0 r) = ROOTINO" using g(3,4) by simp_all
  obtain i k1 where 1: "namex_loop D pid False (''/'' @ nm) [] r ?k0 = Some (Some (i, take DIRSIZ nm), k1)" "i < NINODE"
      "1 \<le> i_ref (icache k1 i)" "i_inum (icache k1 i) = of_nat (n + 2)" "icache_ok k1" "same_but_icache ?k0 k1"
    using mounted_lookup [OF M0 ok0 nm g(2) r0 first_named_path(2) [OF ok nm(2)] f(1) f0] by blast
  have "namei D pid cwd (''/'' @ nm) k = Some (Some i, k1)" using g(1) 1(1) by (simp add: namei_def namex_def)
  moreover note M1 = mounted_cong [OF M0 1(6)]
  moreover have "ilock pid i k1 = Some (upd_inode i (locked_inode pid k1) k1)"
    by (rule mounted_ilock(1) [OF M1 1(5) n 1(2-4)])
  ultimately show ?thesis using mounted_readi [OF M1 1(5) n 1(2-4) refl data off] by blast
qed

text \<open>
  C19. The kernel reads back what mkfs wrote. For any host files that fit, mkfs makes an image, and the kernel
  mounts it. For the name of a file, \<open>namei\<close> of the
  path from the root then finds the inode, and \<open>readi\<close> returns the bytes of the host file from
  any offset on, up to the end of the file, and changes nothing outside the buffer. If two names agree on 14
  characters the first file is meant.
\<close>

theorem mkfs_read_back:
  assumes "files_ok files" and "names_ok files" and "\<forall>i < NINODE. i_ref (ic i) = 0" and "first_named files n nm"
    and "data = file_data (files ! n)" and "off \<le> length data" and "off + c < 2 ^ 32"
  shows "\<exists>s k i k1 k2. main_mkfs files = Some s \<and> mount (boot_fs ic (m_img s)) = Some k \<and>
    namei D pid cwd (''/'' @ nm) k = Some (Some i, k1) \<and> ilock pid i k1 = Some k2 \<and>
    readi D i dst (of_nat off) (of_nat c) k2 =
      Some (int (min c (length data - off)), blit dst 0 (\<lambda>x. data ! (off + x)) 0 (min c (length data - off)), k2)"
proof -
  obtain s0 s where s: "main_mkfs files = Some s" using main_mkfs_finished [OF assms(1)] by blast
  obtain k where k: "mount (boot_fs ic (m_img s)) = Some k" using mkfs_mounts [OF assms(1) s] by blast
  show ?thesis using mkfs_reads [OF assms(1) s k assms(3,2,4-7)] s k by blast
qed

definition empty_inode :: inode where
  "empty_inode = \<lparr>i_dev = 0, i_inum = 0, i_ref = 0, i_lock = \<lparr>k_locked = False, k_pid = 0\<rparr>, i_valid = False, i_type = 0,
     i_major = 0, i_minor = 0, i_nlink = 0, i_size = 0, i_addrs = []\<rparr>"

text \<open>No devices.\<close>

definition no_devices :: "'f devsw" where "no_devices = \<lparr>dv_read = (\<lambda>_. None), dv_write = (\<lambda>_. None)\<rparr>"

lemma mkfs_read_back_witness:
  "\<exists>s k i k1 k2. main_mkfs demo_files = Some s \<and> mount (boot_fs (\<lambda>_. empty_inode) (m_img s)) = Some k \<and>
    namei no_devices 1 0 ''/cat'' k = Some (Some i, k1) \<and> ilock 1 i k1 = Some k2 \<and>
    readi no_devices i zero_bytes 1 512 k2 = Some (3, blit zero_bytes 0 (\<lambda>x. [1, 2, 3, 4] ! (1 + x)) 0 3, k2)"
proof -
  have d: "[1, 2, 3, 4] = file_data (demo_files ! 0)" by (simp add: demo_files_def demo_data)
  have "names_ok demo_files" by (simp add: names_ok_def demo_files_def)
  moreover have "first_named demo_files 0 ''cat''" by (simp add: first_named_def demo_files_def fs_name_def)
  ultimately have "\<exists>s k i k1 k2. main_mkfs demo_files = Some s \<and> mount (boot_fs (\<lambda>_. empty_inode) (m_img s)) = Some k \<and>
    namei no_devices 1 0 (''/'' @ ''cat'') k = Some (Some i, k1) \<and> ilock 1 i k1 = Some k2 \<and>
    readi no_devices i zero_bytes (of_nat 1) (of_nat 512) k2 = Some (int (min 512 (length [1, 2, 3, 4 :: u8] - 1)),
      blit zero_bytes 0 (\<lambda>x. [1, 2, 3, 4] ! (1 + x)) 0 (min 512 (length [1, 2, 3, 4 :: u8] - 1)), k2)"
    by (intro mkfs_read_back [OF demo_files_ok(1) _ _ _ d]) (simp_all add: empty_inode_def)
  then show ?thesis by (simp add: min_def numeral_3_eq_3)
qed

end
