(* ===== verification/Wolfie.thy ===== *)
theory Wolfie
  imports Sysfile MkfsRead
begin

text \<open>
  The system call of Assignment 1 (\<^verbatim>\<open>Exercise 7 and 8/sysfile.c\<close>): \<open>wolfie\<close> copies an ASCII image
  from a file to a buffer of the caller. The rest of that file is the \<^verbatim>\<open>sysfile.c\<close> of \<^verbatim>\<open>Part_B\<close>
  without its swapping calls, and the layers below are not part of the assignment; the call runs here on
  the files and the file system of \<^verbatim>\<open>Part_B\<close>.
\<close>

section \<open>The system call\<close>

definition INT_MAX_R :: int where "INT_MAX_R = 7461"

definition wolfie_path :: string where "wolfie_path = ''wolfie_ascii.txt''"

text \<open>The part after the file has been found, with the inode locked.\<close>

definition wolfie_read :: "('a) ksys_scheme devsw \<Rightarrow> u32 \<Rightarrow> u32 \<Rightarrow> nat \<Rightarrow> ('a) ksys_scheme \<Rightarrow> (int \<times> ('a) ksys_scheme) option" where
  "wolfie_read D buf n ip s =
     (case filealloc s of
        (None, s1) \<Rightarrow> do { s2 \<leftarrow> iunlockput (cpid s) ip s1; s3 \<leftarrow> end_op s2; Some (- 1, s3) }
      | (Some f, s1) \<Rightarrow>
          (case fdalloc f s1 of (fd, s2) \<Rightarrow>
             if fd < 0 then do {
               s3 \<leftarrow> fileclose (cpid s) f s2; s4 \<leftarrow> iunlockput (cpid s) ip s3; s5 \<leftarrow> end_op s4; Some (- 1, s5) }
             else do {
               s3 \<leftarrow> iunlock ip s2;
               s4 \<leftarrow> end_op s3;
               let s5 = upd_file f (\<lambda>x. x\<lparr>f_type := FD_INODE, f_ip := ip, f_off := 0, f_readable := 1, f_writable := 0\<rparr>) s4;
               (r, b, s6) \<leftarrow> fileread D (cpid s) (ckilled s) f (\<lambda>k. umem s5 (unat buf + k)) (sint n) s5;
               let s7 = s6\<lparr>umem := blit (umem s6) (unat buf) b 0 (unat n), ofiles := (ofiles s6)(nat fd := None)\<rparr>;
               s8 \<leftarrow> fileclose (cpid s) f s7;
               case r of PReturn bytesRead \<Rightarrow> Some (bytesRead, s8) | PSleep _ \<Rightarrow> None
             }))"

definition sys_wolfie :: "('a) ksys_scheme devsw \<Rightarrow> ('a) ksys_scheme \<Rightarrow> (int \<times> ('a) ksys_scheme) option" where
  "sys_wolfie D s =
     (case argint 1 s of None \<Rightarrow> Some (- 1, s) | Some n \<Rightarrow>
      case argptr 0 (sint n) s of None \<Rightarrow> Some (- 1, s) | Some buf \<Rightarrow>
      if sint n < INT_MAX_R then Some (- 1, s)
      else do {
        s1 \<leftarrow> begin_op s;
        (r, s2) \<leftarrow> namei D (cpid s) (cwd s) wolfie_path s1;
        case r of
          None \<Rightarrow> do { s3 \<leftarrow> end_op s2; Some (- 1, s3) }
        | Some ip \<Rightarrow> do { s3 \<leftarrow> ilock (cpid s) ip s2; wolfie_read D buf n ip s3 }
      })"

section \<open>Between calls\<close>

text \<open>No file system call is running, and the log is empty.\<close>

definition log_idle :: "('a) lstate_scheme \<Rightarrow> bool" where
  "log_idle s \<longleftrightarrow> \<not> lg_committing s \<and> lh s = [] \<and> lg_outstanding s = 0"

lemma log_idle_begin: "log_idle s \<Longrightarrow> begin_op s = Some (s\<lparr>lg_outstanding := 1\<rparr>)"
  by (simp add: log_idle_def begin_op_def MAXOPBLOCKS_def LOGSIZE_def)

lemma log_idle_end:
  assumes "\<not> lg_committing s" and "lh s = []" and "lg_outstanding s = 1"
  shows "end_op s = Some (s\<lparr>lg_outstanding := 0, lg_committing := False\<rparr>)"
  using assms by (cases s) (simp add: end_op_def commit_def)

lemma upd_file_icache [simp]: "icache (upd_file f h s) = icache s"
  by (simp add: upd_file_def)

lemma mounted_fields:
  assumes "mounted files m s" and "blk t = blk s" "sb t = sb s" "nblocks t = nblocks s" "disk t = disk s" "held_blks t = held_blks s"
    "pinned t = pinned s" "unread t = unread s" "modified t = modified s"
  shows "mounted files m t"
proof -
  have "quiet_store t = quiet_store s" unfolding quiet_store_def store_inv_def by (simp only: assms(2-9))
  then show ?thesis using assms(1) unfolding mounted_def by (simp only: assms(2-4))
qed

lemma icache_ok_fields:
  assumes "icache_ok s" and "icache t = icache s" "blk t = blk s" "sb t = sb s"
  shows "icache_ok t"
  using assms from_disk_cong [OF assms(3,4)] by (simp add: icache_ok_def coherent_def)

text \<open>\<open>ilock\<close> followed by \<open>iunlock\<close> leaves a sound inode cache.\<close>

definition touched_inode :: "int \<Rightarrow> ('a) fs_scheme \<Rightarrow> inode \<Rightarrow> inode" where
  "touched_inode pid s ip = (locked_inode pid s ip)\<lparr>i_lock := releasesleep (i_lock (locked_inode pid s ip))\<rparr>"

lemma touched_ok:
  assumes "icache_ok s"
  shows "icache_ok (upd_inode i (touched_inode pid s) s)"
proof -
  have "coherent (upd_inode i (touched_inode pid s) s)"
    using assms by (intro coherent_upd) (simp_all add: icache_ok_def touched_inode_def locked_inode_def)
  then show ?thesis using assms by (simp add: icache_ok_def touched_inode_def releasesleep_def)
qed

lemma touched_fields:
  "i_inum (touched_inode pid s ip) = i_inum ip" "i_ref (touched_inode pid s ip) = i_ref ip"
  "i_nlink (touched_inode pid s ip) = i_nlink (locked_inode pid s ip)" "\<not> k_locked (i_lock (touched_inode pid s ip))"
  by (simp_all add: touched_inode_def locked_inode_def releasesleep_def)

lemma iput_ok:
  assumes "\<not> k_locked (i_lock (icache s i))" and "i_nlink (icache s i) \<noteq> 0"
  shows "iput pid i s = Some (upd_inode i (\<lambda>ip. ip\<lparr>i_lock := (i_lock ip)\<lparr>k_locked := False, k_pid := 0\<rparr>, i_ref := i_ref ip - 1\<rparr>) s)"
  using assms by (simp add: iput_def lock_inode_def unlock_inode_def acquiresleep_def) (rule upd_inode_eqI, simp add: releasesleep_def)

section \<open>Reading and closing the file\<close>

text \<open>Only the inode cache and the file table differ.\<close>

definition same_but_files :: "('a) kern_scheme \<Rightarrow> ('a) kern_scheme \<Rightarrow> bool" where
  "same_but_files s t \<longleftrightarrow> t = s\<lparr>icache := icache t, ftable := ftable t\<rparr>"

lemma same_but_files_fields:
  assumes "same_but_files s t"
  shows "mounted files m s \<Longrightarrow> mounted files m t" "log_idle s \<Longrightarrow> log_idle t"
proof -
  have e: "t = s\<lparr>icache := icache t, ftable := ftable t\<rparr>" using assms by (simp add: same_but_files_def)
  show "mounted files m s \<Longrightarrow> mounted files m t" by (rule mounted_fields) (assumption | subst e, simp)+
  show "log_idle s \<Longrightarrow> log_idle t" unfolding log_idle_def by (subst e, simp)+
qed

lemma same_but_files_ksys:
  fixes s t :: "('a) ksys_scheme"
  assumes "same_but_files s t"
  shows "umem t = umem s" "ofiles t = ofiles s" "cpid t = cpid s" "cwd t = cwd s"
proof -
  have e: "t = s\<lparr>icache := icache t, ftable := ftable t\<rparr>" using assms by (simp add: same_but_files_def)
  show "umem t = umem s" "ofiles t = ofiles s" "cpid t = cpid s" "cwd t = cwd s" by (subst e, simp)+
qed

lemma fileread_image:
  fixes y :: "('a) kern_scheme"
  assumes M: "mounted files m y" and ok: "icache_ok y" and n: "n < length files" and data: "data = file_data (files ! n)"
    and f: "f_type (ftable y fi) = FD_INODE" "f_ip (ftable y fi) = i" "f_off (ftable y fi) = 0" "f_readable (ftable y fi) \<noteq> 0"
    and i: "i < NINODE" "1 \<le> i_ref (icache y i)" "i_inum (icache y i) = of_nat (n + 2)" and c: "0 \<le> sint (c :: u32)"
  shows "\<exists>y'. fileread D pid killed fi addr (sint c) y =
      Some (PReturn (int (min (unat c) (length data))), blit addr 0 (nth data) 0 (min (unat c) (length data)), y') \<and>
    icache_ok y' \<and> same_but_files y y' \<and> f_type (ftable y' fi) = FD_INODE \<and> f_ip (ftable y' fi) = i \<and>
    1 \<le> i_ref (icache y' i) \<and> i_nlink (icache y' i) \<noteq> 0 \<and>
    (\<forall>j. f_ref (ftable y' j) = f_ref (ftable y j)) \<and> (\<forall>j. i_ref (icache y' j) = i_ref (icache y j))"
proof -
  let ?m = "min (unat c) (length data)"
  define y1 where "y1 = upd_inode i (locked_inode pid y) y"
  note L = mounted_ilock [OF M ok n i, of pid]
  have "unat c < 2 ^ 32" by (rule order_less_le_trans [OF unsigned_less]) simp
  then have R: "readi D i addr 0 c y1 = Some (int ?m, blit addr 0 (nth data) 0 ?m, y1)"
    using mounted_readi [OF M ok n i y1_def data, of 0 "unat c" D addr] by simp
  define y2 where "y2 = (if 0 < int ?m then upd_file fi (\<lambda>f. f\<lparr>f_off := f_off f + word_of_int (int ?m)\<rparr>) y1 else y1)"
  have ic: "icache y2 = (icache y)(i := locked_inode pid y (icache y i))" by (simp add: y2_def y1_def)
  have u: "iunlock i y2 = Some (unlock_inode i y2)"
    using i(2) by (simp add: iunlock_def holdingsleep_def ic locked_inode_def)
  let ?y' = "unlock_inode i y2"
  have w: "word_of_int (sint c) = c" by simp
  have ft: "ftable y1 = ftable y" by (simp add: y1_def upd_inode_def)
  have "fileread D pid killed fi addr (sint c) y = Some (PReturn (int ?m), blit addr 0 (nth data) 0 ?m, ?y')"
    using f L(1) R u unfolding y1_def [symmetric] y2_def by (simp add: fileread_def Let_def ft)
  moreover have ic': "icache ?y' = (icache y)(i := touched_inode pid y (icache y i))"
    by (simp add: unlock_inode_def ic touched_inode_def)
  moreover have "same_but_files y ?y'"
    by (cases y) (simp add: same_but_files_def unlock_inode_def upd_inode_def upd_file_def y2_def y1_def)
  moreover have "icache_ok ?y'"
    by (rule icache_ok_fields [OF touched_ok [OF ok, of i pid]])
      (simp_all add: touched_inode_def ic' unlock_inode_def y2_def y1_def upd_inode_def upd_file_def)
  moreover have "f_type (ftable ?y' fi) = FD_INODE \<and> f_ip (ftable ?y' fi) = i \<and> (\<forall>j. f_ref (ftable ?y' j) = f_ref (ftable y j))"
    using f by (simp add: unlock_inode_def upd_inode_def y2_def y1_def upd_file_def)
  ultimately show ?thesis using i(2) L(3) by (intro exI [of _ ?y']) (simp add: touched_fields)
qed

lemma fileclose_image:
  fixes y :: "('a) kern_scheme"
  assumes ok: "icache_ok y" and log: "log_idle y" and f: "f_type (ftable y fi) = FD_INODE" "f_ip (ftable y fi) = i" "f_ref (ftable y fi) = 1"
    and i: "i < NINODE" "1 \<le> i_ref (icache y i)" "i_nlink (icache y i) \<noteq> 0"
  shows "\<exists>y'. fileclose pid fi y = Some y' \<and> icache_ok y' \<and> same_but_files y y' \<and>
    (\<forall>j. f_ref (ftable y' j) = f_ref (ftable y j) - (if j = fi then 1 else 0)) \<and>
    (\<forall>j. i_ref (icache y' j) = i_ref (icache y j) - (if j = i then 1 else 0))"
proof -
  define y1 where "y1 = upd_file fi (\<lambda>f. f\<lparr>f_ref := 0, f_type := FD_NONE\<rparr>) (upd_file fi (\<lambda>f. f\<lparr>f_ref := f_ref f - 1\<rparr>) y)"
  let ?g = "\<lambda>ip :: inode. ip\<lparr>i_lock := (i_lock ip)\<lparr>k_locked := False, k_pid := 0\<rparr>, i_ref := i_ref ip - 1\<rparr>"
  have l1: "log_idle y1" using log by (simp add: log_idle_def y1_def upd_file_def)
  let ?y2 = "y1\<lparr>lg_outstanding := 1\<rparr>"
  have ic: "icache ?y2 = icache y" by (simp add: y1_def)
  have p: "iput pid i ?y2 = Some (upd_inode i ?g ?y2)"
    using ok i by (intro iput_ok) (simp_all add: ic icache_ok_def)
  let ?y3 = "(upd_inode i ?g ?y2)\<lparr>lg_outstanding := 0, lg_committing := False\<rparr>"
  have e: "end_op (upd_inode i ?g ?y2) = Some ?y3"
    using l1 by (intro log_idle_end) (simp_all add: upd_inode_def log_idle_def)
  have "fileclose pid fi y = Some ?y3"
    using f log_idle_begin [OF l1] p e unfolding y1_def by (simp add: fileclose_def Let_def upd_file_def)
  moreover have "same_but_files y ?y3"
    using log by (cases y) (simp add: same_but_files_def log_idle_def y1_def upd_inode_def upd_file_def)
  moreover have "icache_ok (upd_inode i ?g y)"
  proof -
    have "coherent (upd_inode i ?g y)"
      using ok i coherentD [of y i] by (intro coherent_upd) (simp_all add: icache_ok_def)
    then show ?thesis using ok by (simp add: icache_ok_def)
  qed
  then have "icache_ok ?y3" by (rule icache_ok_fields) (simp_all add: upd_inode_def y1_def upd_file_def)
  moreover have "\<forall>j. f_ref (ftable ?y3 j) = f_ref (ftable y j) - (if j = fi then 1 else 0)"
    using f(3) by (simp add: upd_inode_def y1_def upd_file_def)
  moreover have "\<forall>j. i_ref (icache ?y3 j) = i_ref (icache y j) - (if j = i then 1 else 0)"
    by (simp add: upd_inode_def y1_def upd_file_def)
  ultimately show ?thesis by blast
qed

section \<open>The call\<close>

lemma find_free: "\<exists>x < n. P x \<Longrightarrow> \<exists>x. find P [0..<n] = Some x \<and> P x"
  by (cases "find P [0..<n]") (auto simp: find_None_iff dest: find_SomeD)

text \<open>The part after the lock: \<open>y\<close> is the state in which the file has been opened.\<close>

lemma wolfie_read_image:
  fixes k :: "('a) ksys_scheme"
  assumes M: "mounted files m k" and ok: "icache_ok k" and log: "\<not> lg_committing k" "lh k = []" "lg_outstanding k = 1"
    and n: "n < length files" and data: "data = file_data (files ! n)"
    and i: "i < NINODE" "1 \<le> i_ref (icache k i)" "i_inum (icache k i) = of_nat (n + 2)"
    and slot: "\<exists>g < NFILE. f_ref (ftable k g) = 0" and fd: "\<exists>d < NOFILE_B. ofiles k d = None" and c: "0 \<le> sint (c :: u32)"
  shows "\<exists>k'. wolfie_read D b c i (upd_inode i (locked_inode (cpid k) k) k) = Some (int (min (unat c) (length data)), k') \<and>
    umem k' = blit (umem k) (unat b) (nth data) 0 (min (unat c) (length data)) \<and> ofiles k' = ofiles k \<and>
    mounted files m k' \<and> icache_ok k' \<and> log_idle k' \<and> (\<forall>j. f_ref (ftable k' j) = f_ref (ftable k j)) \<and>
    (\<forall>j. i_ref (icache k' j) = i_ref (icache k j) - (if j = i then 1 else 0))"
proof -
  let ?m = "min (unat c) (length data)"
  define k1 where "k1 = upd_inode i (locked_inode (cpid k) k) k"
  have F1: "ftable k1 = ftable k" "ofiles k1 = ofiles k" "cpid k1 = cpid k" "ckilled k1 = ckilled k" "umem k1 = umem k"
    by (simp_all add: k1_def upd_inode_def)
  obtain g where g: "find (\<lambda>j. f_ref (ftable k j) = 0) [0..<NFILE] = Some g" "f_ref (ftable k g) = 0"
    using find_free [OF slot] by blast
  obtain d where d: "find (\<lambda>j. ofiles k j = None) [0..<NOFILE_B] = Some d" "ofiles k d = None"
    using find_free [OF fd] by blast
  define k2 where "k2 = upd_file g (\<lambda>f. f\<lparr>f_ref := 1\<rparr>) k1"
  have a: "filealloc k1 = (Some g, k2)" using g by (simp add: filealloc_def F1 k2_def)
  define k3 where "k3 = k2\<lparr>ofiles := (ofiles k)(d \<mapsto> g)\<rparr>"
  have fa: "fdalloc g k2 = (int d, k3)" using d by (simp add: fdalloc_def k3_def k2_def upd_file_def F1)
  have ic3: "icache k3 i = locked_inode (cpid k) k (icache k i)" by (simp add: k3_def k2_def upd_file_def k1_def)
  have u: "iunlock i k3 = Some (unlock_inode i k3)" using i(2) by (simp add: iunlock_def ic3 holdingsleep_def locked_inode_def)
  define k4 where "k4 = unlock_inode i k3"
  have l4: "\<not> lg_committing k4" "lh k4 = []" "lg_outstanding k4 = 1"
    using log by (simp_all add: k4_def unlock_inode_def k3_def k2_def upd_file_def k1_def upd_inode_def)
  note e = log_idle_end [OF l4]
  define y where "y = upd_file g (\<lambda>x. x\<lparr>f_type := FD_INODE, f_ip := i, f_off := 0, f_readable := 1, f_writable := 0\<rparr>)
    (k4\<lparr>lg_outstanding := 0, lg_committing := False\<rparr>)"
  have icy: "icache y = (icache k)(i := touched_inode (cpid k) k (icache k i))"
    by (simp add: y_def k4_def unlock_inode_def upd_file_def touched_inode_def k3_def k2_def k1_def)
  have fy: "f_type (ftable y g) = FD_INODE" "f_ip (ftable y g) = i" "f_off (ftable y g) = 0" "f_readable (ftable y g) \<noteq> 0"
    "f_ref (ftable y g) = 1"
    by (simp_all add: y_def k4_def unlock_inode_def upd_inode_def upd_file_def k3_def k2_def)
  have oy: "ofiles y = (ofiles k)(d \<mapsto> g)" "umem y = umem k" "cpid y = cpid k" "ckilled y = ckilled k"
    by (simp_all add: y_def k4_def unlock_inode_def upd_inode_def upd_file_def k3_def k2_def k1_def)
  have ly: "log_idle y" using l4(2) by (simp add: y_def log_idle_def upd_file_def)
  have My: "mounted files m y"
    by (rule mounted_fields [OF M])
      (simp_all add: y_def k4_def unlock_inode_def upd_inode_def upd_file_def k3_def k2_def k1_def)
  have oky: "icache_ok y"
    by (rule icache_ok_fields [OF touched_ok [OF ok, of i "cpid k"]])
      (simp_all add: touched_inode_def icy upd_inode_def y_def k4_def unlock_inode_def upd_file_def k3_def k2_def k1_def)
  have iy: "1 \<le> i_ref (icache y i)" "i_inum (icache y i) = of_nat (n + 2)" using i by (simp_all add: icy touched_fields)
  let ?addr = "\<lambda>j. umem k (unat b + j)"
  obtain y6 where 6: "fileread D (cpid k) (ckilled k) g ?addr (sint c) y = Some (PReturn (int ?m), blit ?addr 0 (nth data) 0 ?m, y6)"
      "icache_ok y6" "same_but_files y y6" "f_type (ftable y6 g) = FD_INODE" "f_ip (ftable y6 g) = i"
      "1 \<le> i_ref (icache y6 i)" "i_nlink (icache y6 i) \<noteq> 0"
      "\<forall>j. f_ref (ftable y6 j) = f_ref (ftable y j)" "\<forall>j. i_ref (icache y6 j) = i_ref (icache y j)"
    using fileread_image [OF My oky n data fy(1-4) i(1) iy c, of D "cpid k" "ckilled k" ?addr] by blast
  have M6: "mounted files m y6" and l6: "log_idle y6" using same_but_files_fields [OF 6(3)] My ly by blast+
  note K6 = same_but_files_ksys [OF 6(3)]
  define y7 where "y7 = y6\<lparr>umem := blit (umem y6) (unat b) (blit ?addr 0 (nth data) 0 ?m) 0 (unat c), ofiles := (ofiles y6)(d := None)\<rparr>"
  have "blit (umem y6) (unat b) (blit ?addr 0 (nth data) 0 ?m) 0 (unat c) = blit (umem k) (unat b) (nth data) 0 ?m"
    by (auto simp: blit_def fun_eq_iff K6 oy)
  then have u7: "umem y7 = blit (umem k) (unat b) (nth data) 0 ?m" by (simp add: y7_def)
  have o7: "ofiles y7 = ofiles k" using d(2) by (simp add: y7_def K6 oy fun_upd_idem)
  have M7: "mounted files m y7" by (rule mounted_fields [OF M6]) (simp_all add: y7_def)
  have l7: "log_idle y7" using l6 by (simp add: y7_def log_idle_def)
  have ok7: "icache_ok y7" by (rule icache_ok_fields [OF 6(2)]) (simp_all add: y7_def)
  have f7: "f_type (ftable y7 g) = FD_INODE" "f_ip (ftable y7 g) = i" "f_ref (ftable y7 g) = 1" "1 \<le> i_ref (icache y7 i)"
    "i_nlink (icache y7 i) \<noteq> 0" using 6 fy by (simp_all add: y7_def)
  obtain y8 where 8: "fileclose (cpid k) g y7 = Some y8" "icache_ok y8" "same_but_files y7 y8"
      "\<forall>j. f_ref (ftable y8 j) = f_ref (ftable y7 j) - (if j = g then 1 else 0)"
      "\<forall>j. i_ref (icache y8 j) = i_ref (icache y7 j) - (if j = i then 1 else 0)"
    using fileclose_image [OF ok7 l7 f7(1-3) i(1) f7(4,5)] by blast
  note K8 = same_but_files_ksys [OF 8(3)]
  have c4: "cpid k4 = cpid k" "ckilled k4 = ckilled k"
    by (simp_all add: k4_def unlock_inode_def upd_inode_def k3_def k2_def upd_file_def k1_def)
  have "cpid k3 = cpid k" "cpid y7 = cpid k" by (simp_all add: k3_def k2_def upd_file_def k1_def upd_inode_def y7_def K6 oy)
  then have "wolfie_read D b c i k1 = Some (int ?m, y8)"
    using a fa u e 6(1) 8(1) oy
    by (simp add: wolfie_read_def k4_def [symmetric] y_def [symmetric] y7_def [symmetric] F1 Let_def)
  moreover have "f_ref (ftable y j) = f_ref (ftable k j) + (if j = g then 1 else 0)" for j
    using g(2) by (simp add: y_def k4_def unlock_inode_def upd_inode_def upd_file_def k3_def k2_def F1)
  then have "\<forall>j. f_ref (ftable y8 j) = f_ref (ftable k j)" using 8(4) 6(8) by (simp add: y7_def)
  moreover have "\<forall>j. i_ref (icache y8 j) = i_ref (icache k j) - (if j = i then 1 else 0)"
    using 8(5) 6(9) by (simp add: y7_def icy touched_fields)
  ultimately show ?thesis
    using K8 u7 o7 same_but_files_fields [OF 8(3)] M7 l7 8(2) unfolding k1_def by (intro exI [of _ y8]) simp
qed

text \<open>\<open>begin_op\<close> and \<open>idup\<close> of the working directory.\<close>

lemma idup_ok: "icache_ok s \<Longrightarrow> i < NINODE \<Longrightarrow> 1 \<le> i_ref (icache s i) \<Longrightarrow> icache_ok (idup i s)"
proof -
  assume ok: "icache_ok s" and i: "i < NINODE" "1 \<le> i_ref (icache s i)"
  have "coherent (idup i s)" unfolding idup_def
    using ok i coherentD [of s i] by (intro coherent_upd) (simp_all add: icache_ok_def)
  then show "icache_ok (idup i s)" using ok by (simp add: icache_ok_def idup_def)
qed

lemma same_but_icache_ksys:
  fixes s t :: "('a) ksys_scheme"
  assumes "same_but_icache s t"
  shows "umem t = umem s" "ofiles t = ofiles s" "cpid t = cpid s" "ftable t = ftable s" "lg_committing t = lg_committing s"
proof -
  have e: "t = s\<lparr>icache := icache t\<rparr>" using assms by (simp add: same_but_icache_def)
  show "umem t = umem s" "ofiles t = ofiles s" "cpid t = cpid s" "ftable t = ftable s" "lg_committing t = lg_committing s"
    by (subst e, simp)+
qed

lemma wolfie_call:
  fixes k :: "('a) ksys_scheme"
  assumes M: "mounted files m k" and ok: "icache_ok k" and log: "log_idle k"
    and nm: "names_ok files" "first_named files n wolfie_path" and data: "data = file_data (files ! n)"
    and args: "argint 1 k = Some c" "INT_MAX_R \<le> sint c" "argptr 0 (sint c) k = Some b"
    and dir: "cwd k < NINODE" "1 \<le> i_ref (icache k (cwd k))" "i_inum (icache k (cwd k)) = ROOTINO"
    and free: "\<exists>j < NINODE. i_ref (icache k j) = 0"
    and slot: "\<exists>g < NFILE. f_ref (ftable k g) = 0" and fd: "\<exists>d < NOFILE_B. ofiles k d = None"
  shows "\<exists>k'. sys_wolfie D k = Some (int (min (unat c) (length data)), k') \<and>
    umem k' = blit (umem k) (unat b) (nth data) 0 (min (unat c) (length data)) \<and> ofiles k' = ofiles k \<and>
    mounted files m k' \<and> icache_ok k' \<and> log_idle k' \<and> (\<forall>j. f_ref (ftable k' j) = f_ref (ftable k j)) \<and>
    (\<forall>j. i_ref (icache k' j) = i_ref (icache k j))"
proof -
  define k1 where "k1 = k\<lparr>lg_outstanding := 1\<rparr>"
  have M1: "mounted files m k1" by (rule mounted_fields [OF M]) (simp_all add: k1_def)
  have ok1: "icache_ok k1" by (rule icache_ok_fields [OF ok]) (simp_all add: k1_def)
  have ic1: "icache k1 = icache k" by (simp add: k1_def)
  define k2 where "k2 = idup (cwd k) k1"
  have sb2: "same_but_icache k1 k2" unfolding k2_def idup_def by (rule same_but_icache_upd)
  have M2: "mounted files m k2" by (rule mounted_cong [OF M1 sb2])
  have ok2: "icache_ok k2" unfolding k2_def using dir by (intro idup_ok ok1) (simp_all add: ic1)
  have r2: "1 \<le> i_ref (icache k2 (cwd k))" "i_inum (icache k2 (cwd k)) = ROOTINO"
    using dir by (simp_all add: k2_def idup_def ic1)
  obtain j where j: "j < NINODE" "i_ref (icache k j) = 0" using free by blast
  then have j2: "i_ref (icache k2 j) = 0" using dir(2) by (auto simp: k2_def idup_def ic1)
  have path: "skipelem wolfie_path = Some (take DIRSIZ wolfie_path, [])"
    by (rule first_named_path(1) [OF mountedD(1) [OF M] nm(2)])
  obtain i k3 where 3: "namex_loop D (cpid k) False wolfie_path [] (cwd k) k2 = Some (Some (i, take DIRSIZ wolfie_path), k3)"
      "i < NINODE" "1 \<le> i_ref (icache k3 i)" "i_inum (icache k3 i) = of_nat (n + 2)" "icache_ok k3" "same_but_icache k2 k3"
      "\<forall>j. i_ref (icache k3 j) = i_ref (icache k2 j) + (if j = i then 1 else 0) - (if j = cwd k then 1 else 0)"
    using mounted_lookup [OF M2 ok2 nm dir(1) r2 path j(1) j2] by blast
  have k1f: "umem k1 = umem k" "ofiles k1 = ofiles k" "cpid k1 = cpid k" "ftable k1 = ftable k" "cwd k1 = cwd k"
    by (simp_all add: k1_def)
  have ni: "namei D (cpid k) (cwd k) wolfie_path k1 = Some (Some i, k3)"
    using 3(1) by (simp add: namei_def namex_def k2_def wolfie_path_def)
  have sb3: "same_but_icache k1 k3" by (rule same_but_icache_trans [OF sb2 3(6)])
  note K3 = same_but_icache_ksys [OF sb3, unfolded k1f] and G3 = same_but_icache_fields [OF sb3]
  have M3: "mounted files m k3" by (rule mounted_cong [OF M1 sb3])
  have n: "n < length files" using nm(2) by (simp add: first_named_def)
  have l3: "\<not> lg_committing k3" "lh k3 = []" "lg_outstanding k3 = 1"
    using log K3(5) G3(7,8) by (simp_all add: k1_def log_idle_def)
  note I = mounted_ilock(1) [OF M3 3(5) n 3(2-4), of "cpid k"]
  have c0: "0 \<le> sint c" using args(2) by (simp add: INT_MAX_R_def)
  have "\<exists>k'. wolfie_read D b c i (upd_inode i (locked_inode (cpid k3) k3) k3) = Some (int (min (unat c) (length data)), k') \<and>
    umem k' = blit (umem k3) (unat b) (nth data) 0 (min (unat c) (length data)) \<and> ofiles k' = ofiles k3 \<and>
    mounted files m k' \<and> icache_ok k' \<and> log_idle k' \<and> (\<forall>j. f_ref (ftable k' j) = f_ref (ftable k3 j)) \<and>
    (\<forall>j. i_ref (icache k' j) = i_ref (icache k3 j) - (if j = i then 1 else 0))"
    using slot fd by (intro wolfie_read_image [OF M3 3(5) l3 n data 3(2-4) _ _ c0]) (simp_all add: K3)
  then obtain k' where k': "wolfie_read D b c i (upd_inode i (locked_inode (cpid k) k3) k3) = Some (int (min (unat c) (length data)), k')"
    "umem k' = blit (umem k) (unat b) (nth data) 0 (min (unat c) (length data))" "ofiles k' = ofiles k"
    "mounted files m k'" "icache_ok k'" "log_idle k'" "\<forall>j. f_ref (ftable k' j) = f_ref (ftable k j)"
    "\<forall>j. i_ref (icache k' j) = i_ref (icache k3 j) - (if j = i then 1 else 0)"
    unfolding K3 by blast
  have "sys_wolfie D k = Some (int (min (unat c) (length data)), k')"
    using args log_idle_begin [OF log] ni I k'(1) by (simp add: sys_wolfie_def k1_def [symmetric] k1f K3)
  moreover have "\<forall>j. i_ref (icache k' j) = i_ref (icache k j)" using k'(8) 3(7) by (simp add: k2_def idup_def ic1)
  ultimately show ?thesis using k' by blast
qed

text \<open>
  C29. \<open>wolfie\<close> delivers the picture. On a file system mkfs made with a file \<^verbatim>\<open>wolfie_ascii.txt\<close>, a
  process whose working directory is the root and that passes a buffer of at least 7461 bytes gets the
  first \<open>min c len\<close> bytes of that file in its buffer, nothing else of its memory changes, the result is
  the number of bytes, the descriptor and the open file of the call are closed again, every reference count of an open file
  and of a cached inode is what it was, and no transaction is left open. A picture longer than the buffer is cut off.
  The call needs a free entry of the inode cache, a free open file and a free descriptor while it runs.
\<close>

theorem wolfie_returns_image:
  fixes k :: "('a) ksys_scheme"
  assumes "mounted files m k" and "icache_ok k" and "log_idle k"
    and "names_ok files" "first_named files n wolfie_path" and "data = file_data (files ! n)"
    and "argint 1 k = Some c" "INT_MAX_R \<le> sint c" "argptr 0 (sint c) k = Some b"
    and "cwd k < NINODE" "1 \<le> i_ref (icache k (cwd k))" "i_inum (icache k (cwd k)) = ROOTINO"
    and "\<exists>j < NINODE. i_ref (icache k j) = 0" and "\<exists>g < NFILE. f_ref (ftable k g) = 0" and "\<exists>d < NOFILE_B. ofiles k d = None"
  shows "\<exists>k'. sys_wolfie D k = Some (int (min (unat c) (length data)), k') \<and>
    umem k' = blit (umem k) (unat b) (nth data) 0 (min (unat c) (length data)) \<and> ofiles k' = ofiles k \<and>
    mounted files m k' \<and> icache_ok k' \<and> log_idle k' \<and> (\<forall>j. f_ref (ftable k' j) = f_ref (ftable k j)) \<and>
    (\<forall>j. i_ref (icache k' j) = i_ref (icache k j))"
  by (rule wolfie_call [OF assms])

definition wolfie_files :: "host_file list" where
  "wolfie_files = [(''wolfie_ascii.txt'', Some [[72, 105], []])]"

lemma wolfie_data: "file_data (''wolfie_ascii.txt'', Some [[72, 105], []]) = [72, 105]"
  by (simp add: file_data_def read_bytes_def)

lemma wolfie_files_ok: "files_ok wolfie_files" "names_ok wolfie_files" "first_named wolfie_files 0 wolfie_path"
proof -
  have c: "contents wolfie_files = (\<lambda>_. [])(1 := root_dir wolfie_files, 2 := [72, 105])"
    by (auto simp: contents_def wolfie_files_def wolfie_data fun_eq_iff)
  have f: "file_blocks 0 = 0" "file_blocks (Suc (Suc 0)) = 1" "file_blocks 48 = 1"
    by (simp_all add: file_blocks_def nmeta_val)
  have r: "length (root_dir wolfie_files) = 48" by (simp add: length_root_dir wolfie_files_def DIRENT_SIZE_def)
  have "total_blocks (\<lambda>_. []) = nmeta" by (simp add: total_blocks_def f)
  then have "total_blocks ((\<lambda>_. [])(1 := root_dir wolfie_files)) = nmeta + 1"
    using total_blocks_upd [of 1 "\<lambda>_. []" "root_dir wolfie_files"] by (simp add: f r nmeta_val)
  then have t: "total_blocks (contents wolfie_files) = nmeta + 2"
    using total_blocks_upd [of 2 "(\<lambda>_. [])(1 := root_dir wolfie_files)" "[72, 105]"]
    unfolding c by (simp add: f nmeta_val del: fun_upd_apply) (simp add: f)
  show "files_ok wolfie_files"
    unfolding files_ok_def t by (simp add: wolfie_files_def readable_file_def wolfie_data NINODES_def nmeta_val)
  show "names_ok wolfie_files" by (simp add: names_ok_def wolfie_files_def)
  show "first_named wolfie_files 0 wolfie_path" by (simp add: first_named_def wolfie_files_def wolfie_path_def fs_name_def)
qed

text \<open>A process in the root directory that calls \<^verbatim>\<open>wolfie(0x1000, 7461)\<close>.\<close>

definition wolfie_caller :: "mkfs \<Rightarrow> ksys" where
  "wolfie_caller m = \<lparr>disk = m_img m, blk = m_img m, held_blks = {}, pinned = {}, unread = {}, modified = {}, nblocks = FSSIZE,
     issued = [], lg_start = 2, lg_size = 30, lg_outstanding = 0, lg_committing = False, lh = [],
     sb = mkfs_sb, numallocblocks = 0, icache = (\<lambda>i. if i = 0 then empty_inode\<lparr>i_dev := ROOTDEV, i_inum := ROOTINO, i_ref := 1\<rparr> else empty_inode),
     ram = zero_bytes, freelist = 0, ftable = (\<lambda>_. \<lparr>f_type = FD_NONE, f_ref = 0, f_readable = 0, f_writable = 0, f_pipe = 0, f_ip = 0, f_off = 0\<rparr>),
     pipes = (\<lambda>_. \<lparr>p_data = zero_bytes, p_nread = 0, p_nwrite = 0, p_readopen = False, p_writeopen = False\<rparr>), wakeups = [],
     umem = put32 (put32 zero_bytes 8 7461) 4 0x1000, psz = 0x4000, pgdir = 0, tf_esp = 0, tf_eip = 0, tf_eax = 0, ofiles = (\<lambda>_. None),
     cwd = 0, cpid = 1, ckilled = False, pname = ''wolfietest''\<rparr>"

lemma wolfie_caller_args: "argint 1 (wolfie_caller m) = Some 7461" "argptr 0 (sint (7461 :: u32)) (wolfie_caller m) = Some 0x1000"
  by (simp_all add: argint_def argptr_def fetchint_def wolfie_caller_def get32_def put32_def)

lemma wolfie_returns_image_witness:
  "\<exists>m k'. main_mkfs wolfie_files = Some m \<and> sys_wolfie no_devices (wolfie_caller m) = Some (2, k') \<and>
    umem k' 0x1000 = 72 \<and> umem k' 0x1001 = 105 \<and> (\<forall>j. f_ref (ftable k' j) = 0)"
proof -
  obtain m where m: "main_mkfs wolfie_files = Some m" using main_mkfs_finished [OF wolfie_files_ok(1)] by blast
  let ?k = "wolfie_caller m"
  have 1: "mounted wolfie_files m ?k"
    using m wolfie_files_ok(1) by (simp add: mounted_def quiet_store_def store_inv_def wolfie_caller_def)
  have 2: "icache_ok ?k" by (simp add: icache_ok_def coherent_def wolfie_caller_def empty_inode_def)
  have 3: "log_idle ?k" by (simp add: log_idle_def wolfie_caller_def)
  have d: "[72, 105] = file_data (wolfie_files ! 0)" by (simp add: wolfie_files_def wolfie_data)
  have c: "INT_MAX_R \<le> sint (7461 :: u32)" by (simp add: INT_MAX_R_def)
  have r: "cwd ?k < NINODE" "1 \<le> i_ref (icache ?k (cwd ?k))" "i_inum (icache ?k (cwd ?k)) = ROOTINO"
    by (simp_all add: wolfie_caller_def NINODE_def)
  have "i_ref (icache ?k 1) = 0" "f_ref (ftable ?k 0) = 0" "ofiles ?k 0 = None"
    by (simp_all add: wolfie_caller_def empty_inode_def)
  then have f: "\<exists>j < NINODE. i_ref (icache ?k j) = 0" "\<exists>g < NFILE. f_ref (ftable ?k g) = 0" "\<exists>d < NOFILE_B. ofiles ?k d = None"
    unfolding NINODE_def NFILE_def NOFILE_B_def by (meson one_less_numeral_iff semiring_norm zero_less_numeral)+
  obtain k' where "sys_wolfie no_devices ?k = Some (2, k')" "umem k' = blit (umem ?k) 0x1000 (nth [72, 105]) 0 (Suc (Suc 0))"
      "\<forall>j. f_ref (ftable k' j) = f_ref (ftable ?k j)"
    using wolfie_returns_image [OF 1 2 3 wolfie_files_ok(2,3) d wolfie_caller_args(1) c wolfie_caller_args(2) r f, of no_devices]
    by auto
  then show ?thesis using m by (auto simp: blit_def wolfie_caller_def)
qed

end
