(* ===== verification/CString.thy ===== *)
theory CString
  imports Words
begin

text \<open>
  The memory and string functions of the kernel (\<^verbatim>\<open>string.c\<close>) and of the user library (\<^verbatim>\<open>ulib.c\<close>), on a flat memory of
  \<open>2\<^sup>3\<^sup>2\<close> bytes. Pointers are 32-bit words, so an address past the end wraps as the machine wraps it.
  The loops that stop at a NUL, wherever it is, are \<open>partial_function\<close>s: \<open>None\<close> is a loop
  that never stops.
\<close>

type_synonym memory = "u32 \<Rightarrow> u8"

section \<open>Setting memory\<close>

text \<open>The string instructions behind \<open>memset\<close>: \<open>cnt\<close> bytes, and \<open>cnt\<close> little-endian words.\<close>

fun stosb :: "u32 \<Rightarrow> u8 \<Rightarrow> nat \<Rightarrow> memory \<Rightarrow> memory" where
  "stosb a c 0 m = m"
| "stosb a c (Suc cnt) m = stosb (a + 1) c cnt (m(a := c))"

definition put_word :: "u32 \<Rightarrow> u32 \<Rightarrow> memory \<Rightarrow> memory" where
  "put_word a w m = m(a := ucast w, a + 1 := ucast (drop_bit 8 w), a + 2 := ucast (drop_bit 16 w), a + 3 := ucast (drop_bit 24 w))"

fun stosl :: "u32 \<Rightarrow> u32 \<Rightarrow> nat \<Rightarrow> memory \<Rightarrow> memory" where
  "stosl a w 0 m = m"
| "stosl a w (Suc cnt) m = stosl (a + 4) w cnt (put_word a w m)"

definition memset :: "u32 \<Rightarrow> u32 \<Rightarrow> u32 \<Rightarrow> memory \<Rightarrow> memory" where
  "memset dst c n m =
     (if unat dst mod 4 = 0 \<and> unat n mod 4 = 0 then
        let c' = c AND 0xFF
        in stosl dst (push_bit 24 c' OR push_bit 16 c' OR push_bit 8 c' OR c') (unat n div 4) m
      else stosb dst (ucast c) (unat n) m)"

section \<open>Comparing and moving memory\<close>

fun memcmp_loop :: "u32 \<Rightarrow> u32 \<Rightarrow> nat \<Rightarrow> memory \<Rightarrow> int" where
  "memcmp_loop s1 s2 0 m = 0"
| "memcmp_loop s1 s2 (Suc n) m =
     (if m s1 \<noteq> m s2 then uint (m s1) - uint (m s2) else memcmp_loop (s1 + 1) (s2 + 1) n m)"

definition memcmp :: "u32 \<Rightarrow> u32 \<Rightarrow> u32 \<Rightarrow> memory \<Rightarrow> int" where
  "memcmp v1 v2 n m = memcmp_loop v1 v2 (unat n) m"

fun copy_down :: "u32 \<Rightarrow> u32 \<Rightarrow> nat \<Rightarrow> memory \<Rightarrow> memory" where
  "copy_down d s 0 m = m"
| "copy_down d s (Suc n) m = copy_down (d - 1) (s - 1) n (m(d - 1 := m (s - 1)))"

fun copy_up :: "u32 \<Rightarrow> u32 \<Rightarrow> nat \<Rightarrow> memory \<Rightarrow> memory" where
  "copy_up d s 0 m = m"
| "copy_up d s (Suc n) m = copy_up (d + 1) (s + 1) n (m(d := m s))"

definition memmove :: "u32 \<Rightarrow> u32 \<Rightarrow> u32 \<Rightarrow> memory \<Rightarrow> memory" where
  "memmove dst src n m =
     (if src < dst \<and> src + n > dst then copy_down (dst + n) (src + n) (unat n) m
      else copy_up dst src (unat n) m)"

definition memcpy :: "u32 \<Rightarrow> u32 \<Rightarrow> u32 \<Rightarrow> memory \<Rightarrow> memory" where
  "memcpy dst src n m = memmove dst src n m"

section \<open>Strings\<close>

fun strncmp_mem_loop :: "u32 \<Rightarrow> u32 \<Rightarrow> nat \<Rightarrow> memory \<Rightarrow> int" where
  "strncmp_mem_loop p q 0 m = 0"
| "strncmp_mem_loop p q (Suc n) m =
     (if m p \<noteq> 0 \<and> m p = m q then strncmp_mem_loop (p + 1) (q + 1) n m else uint (m p) - uint (m q))"

definition strncmp_mem :: "u32 \<Rightarrow> u32 \<Rightarrow> u32 \<Rightarrow> memory \<Rightarrow> int" where
  "strncmp_mem p q n m = strncmp_mem_loop p q (unat n) m"

text \<open>The copying loop of \<open>strncpy\<close>, and after a NUL the loop that pads with zeros.\<close>

fun strncpy_loop :: "u32 \<Rightarrow> u32 \<Rightarrow> nat \<Rightarrow> memory \<Rightarrow> memory" where
  "strncpy_loop s t 0 m = m"
| "strncpy_loop s t (Suc n) m =
     (let m1 = m(s := m t)
      in if m1 s \<noteq> 0 then strncpy_loop (s + 1) (t + 1) n m1 else stosb (s + 1) 0 n m1)"

definition strncpy :: "u32 \<Rightarrow> u32 \<Rightarrow> int \<Rightarrow> memory \<Rightarrow> memory" where
  "strncpy s t n m = strncpy_loop s t (nat n) m"

text \<open>After a NUL has been copied the final store still happens, one byte further.\<close>

fun safestrcpy_loop :: "u32 \<Rightarrow> u32 \<Rightarrow> nat \<Rightarrow> memory \<Rightarrow> memory" where
  "safestrcpy_loop s t 0 m = m(s := 0)"
| "safestrcpy_loop s t (Suc n) m =
     (let m1 = m(s := m t)
      in if m1 s \<noteq> 0 then safestrcpy_loop (s + 1) (t + 1) n m1 else m1(s + 1 := 0))"

definition safestrcpy :: "u32 \<Rightarrow> u32 \<Rightarrow> int \<Rightarrow> memory \<Rightarrow> memory" where
  "safestrcpy s t n m = (if n \<le> 0 then m else safestrcpy_loop s t (nat n - 1) m)"

partial_function (option) strlen_loop :: "u32 \<Rightarrow> nat \<Rightarrow> memory \<Rightarrow> nat option" where
  "strlen_loop s n m = (if m (s + of_nat n) \<noteq> 0 then strlen_loop s (n + 1) m else Some n)"

definition strlen :: "u32 \<Rightarrow> memory \<Rightarrow> nat option" where
  "strlen s m = strlen_loop s 0 m"

section \<open>The user library\<close>

partial_function (option) strcpy :: "u32 \<Rightarrow> u32 \<Rightarrow> memory \<Rightarrow> memory option" where
  "strcpy s t m = (let m1 = m(s := m t) in if m1 s \<noteq> 0 then strcpy (s + 1) (t + 1) m1 else Some m1)"

partial_function (option) strcmp :: "u32 \<Rightarrow> u32 \<Rightarrow> memory \<Rightarrow> int option" where
  "strcmp p q m =
     (if m p \<noteq> 0 \<and> m p = m q then strcmp (p + 1) (q + 1) m else Some (uint (m p) - uint (m q)))"

definition user_memset :: "u32 \<Rightarrow> u32 \<Rightarrow> u32 \<Rightarrow> memory \<Rightarrow> memory" where
  "user_memset dst c n m = stosb dst (ucast c) (unat n) m"

text \<open>The null pointer is the result 0.\<close>

partial_function (option) strchr :: "u32 \<Rightarrow> u8 \<Rightarrow> memory \<Rightarrow> u32 option" where
  "strchr s c m = (if m s = 0 then Some 0 else if m s = c then Some s else strchr (s + 1) c m)"

text \<open>The loop of \<open>gets\<close> on the bytes that \<^verbatim>\<open>read\<close> delivers one by one, with room for \<open>k\<close> more; \<open>[]\<close> is a read that returns less than 1.\<close>

fun gets_loop :: "u32 \<Rightarrow> nat \<Rightarrow> u8 list \<Rightarrow> memory \<Rightarrow> (u8 list \<times> memory)" where
  "gets_loop b (Suc k) (c # cs) m =
     (let m1 = m(b := c)
      in if c = 10 \<or> c = 13 then (cs, m1(b + 1 := 0)) else gets_loop (b + 1) k cs m1)"
| "gets_loop b k cs m = (cs, m(b := 0))"

definition gets :: "u32 \<Rightarrow> int \<Rightarrow> u8 list \<Rightarrow> memory \<Rightarrow> (u8 list \<times> memory)" where
  "gets buf mx inp m = gets_loop buf (nat (mx - 1)) inp m"

text \<open>\<^verbatim>\<open>char\<close> is signed, but both bounds of a digit are positive, so the comparison is on the byte.\<close>

partial_function (option) atoi_loop :: "u32 \<Rightarrow> u32 \<Rightarrow> memory \<Rightarrow> u32 option" where
  "atoi_loop s n m =
     (if 48 \<le> m s \<and> m s \<le> 57 then atoi_loop (s + 1) (n * 10 + ucast (m s) - 48) m else Some n)"

definition atoi :: "u32 \<Rightarrow> memory \<Rightarrow> u32 option" where
  "atoi s m = atoi_loop s 0 m"

definition user_memmove :: "u32 \<Rightarrow> u32 \<Rightarrow> int \<Rightarrow> memory \<Rightarrow> memory" where
  "user_memmove dst src n m = copy_up dst src (nat n) m"

section \<open>What the loops do\<close>

text \<open>\<open>a - d < n\<close> says that \<open>a\<close> is one of the \<open>n\<close> addresses from \<open>d\<close> on, past the end of memory included.\<close>

lemma offset_Suc:
  fixes a b :: u32
  assumes "a \<noteq> b"
  shows "unat (a - b) = Suc (unat (a - (b + 1)))"
proof -
  have e: "a - (b + 1) = a - b - 1" by simp
  have "a - b \<noteq> 0" using assms by simp
  then show ?thesis unfolding e by (metis Suc_pred' unat_gt_0 unat_minus_one)
qed

lemma word_off_Suc:
  fixes a d :: u32
  assumes "k < 2 ^ 32 - 1"
  shows "unat (a - d) < Suc k \<longleftrightarrow> a = d \<or> unat (a - (d + 1)) < k"
proof (cases "a = d")
  case False
  then show ?thesis by (simp add: offset_Suc)
qed simp

lemma stosb_spec: "n < 2 ^ 32 \<Longrightarrow> stosb d c n m a = (if unat (a - d) < n then c else m a)"
proof (induction n arbitrary: d m)
  case (Suc n)
  have "stosb d c (Suc n) m a = (if unat (a - (d + 1)) < n then c else (m(d := c)) a)"
    unfolding stosb.simps by (rule Suc.IH) (use Suc.prems in simp)
  also have "\<dots> = (if unat (a - d) < Suc n then c else m a)"
    using Suc.prems word_off_Suc [of n a d] by simp
  finally show ?case .
qed simp

lemma stosl_stosb:
  assumes "ucast w = c" and "ucast (drop_bit 8 w) = c" and "ucast (drop_bit 16 w) = c" and "ucast (drop_bit 24 w) = c"
  shows "stosl d w n m = stosb d c (4 * n) m"
proof (induction n arbitrary: d m)
  case (Suc n)
  have n: "4 * Suc n = Suc (Suc (Suc (Suc (4 * n))))" by simp
  show ?case unfolding n by (simp add: Suc.IH put_word_def assms add.assoc fun_upd_def)
qed simp

text \<open>The word that \<open>memset\<close> hands to \<open>stosl\<close> has the byte in each of its four places.\<close>

lemma spread_byte:
  fixes c :: u32
  defines "w \<equiv> push_bit 24 (c AND 0xFF) OR push_bit 16 (c AND 0xFF) OR push_bit 8 (c AND 0xFF) OR (c AND 0xFF)"
  shows "(ucast w :: u8) = ucast c" and "(ucast (drop_bit 8 w) :: u8) = ucast c"
    and "(ucast (drop_bit 16 w) :: u8) = ucast c" and "(ucast (drop_bit 24 w) :: u8) = ucast c"
proof -
  have m: "(0xFF :: u32) = mask 8" by (simp add: mask_eq_exp_minus_1)
  note b = w_def m bit_or_iff bit_and_iff bit_push_bit_iff bit_mask_iff bit_drop_bit_eq bit_ucast_iff
  show "(ucast w :: u8) = ucast c" by (rule bit_word_eqI) (auto simp: b)
  show "(ucast (drop_bit 8 w) :: u8) = ucast c" by (rule bit_word_eqI) (auto simp: b)
  show "(ucast (drop_bit 16 w) :: u8) = ucast c" by (rule bit_word_eqI) (auto simp: b)
  show "(ucast (drop_bit 24 w) :: u8) = ucast c" by (rule bit_word_eqI) (auto simp: b)
qed

lemma memset_stosb: "memset dst c n m = stosb dst (ucast c) (unat n) m"
proof (cases "unat dst mod 4 = 0 \<and> unat n mod 4 = 0")
  case True
  then have "4 * (unat n div 4) = unat n" by auto
  then show ?thesis
    unfolding memset_def Let_def using True stosl_stosb [OF spread_byte [of c], where d = dst and n = "unat n div 4" and m = m] by (simp only: if_True simp_thms)
next
  case False
  then show ?thesis unfolding memset_def by (simp only: if_False)
qed

lemma memset_at: "memset dst c n m a = (if a - dst < n then ucast c else m a)"
proof -
  have "unat n < 2 ^ 32" using unsigned_less [of n] by simp
  then show ?thesis unfolding memset_stosb by (simp add: stosb_spec word_less_nat_alt)
qed

text \<open>Copying upwards is right unless the destination starts inside the source, copying downwards unless the source does.\<close>

lemma copy_up_spec:
  assumes "n < 2 ^ 32" and "\<not> (d \<noteq> s \<and> unat (d - s) < n)"
  shows "copy_up d s n m a = (if unat (a - d) < n then m (s + (a - d)) else m a)"
  using assms
proof (induction n arbitrary: d s m)
  case (Suc n)
  let ?m = "m(d := m s)"
  have "copy_up d s (Suc n) m a = (if unat (a - (d + 1)) < n then ?m (s + 1 + (a - (d + 1))) else ?m a)"
    unfolding copy_up.simps by (rule Suc.IH) (use Suc.prems in auto)
  also have "s + 1 + (a - (d + 1)) = s + (a - d)" by simp
  also have "(if unat (a - (d + 1)) < n then ?m (s + (a - d)) else ?m a) =
      (if unat (a - d) < Suc n then m (s + (a - d)) else m a)"
  proof (cases "a = d")
    case True
    then show ?thesis using Suc.prems by auto
  next
    case False
    have "unat (a - d) < Suc n \<longleftrightarrow> unat (a - (d + 1)) < n" using word_off_Suc [of n a d] False Suc.prems(1) by simp
    moreover have "s + (a - d) \<noteq> d" if "unat (a - d) < Suc n"
    proof
      assume e: "s + (a - d) = d"
      then have "a - d = d - s" by (metis add_diff_cancel_left')
      then show False using Suc.prems(2) False that e by auto
    qed
    ultimately show ?thesis using False by auto
  qed
  finally show ?case .
qed simp

lemma copy_down_spec:
  assumes "n < 2 ^ 32" and "\<not> (d \<noteq> s \<and> unat (s - d) < n)"
  shows "copy_down d s n m a = (if unat (d - 1 - a) < n then m (s - (d - a)) else m a)"
  using assms
proof (induction n arbitrary: d s m)
  case (Suc n)
  let ?m = "m(d - 1 := m (s - 1))"
  have "copy_down d s (Suc n) m a = (if unat (d - 1 - 1 - a) < n then ?m (s - 1 - (d - 1 - a)) else ?m a)"
    unfolding copy_down.simps by (rule Suc.IH) (use Suc.prems in auto)
  also have "s - 1 - (d - 1 - a) = s - (d - a)" by simp
  also have "d - 1 - 1 - a = d - 1 - (a + 1)" by simp
  also have "(if unat (d - 1 - (a + 1)) < n then ?m (s - (d - a)) else ?m a) =
      (if unat (d - 1 - a) < Suc n then m (s - (d - a)) else m a)"
  proof (cases "a = d - 1")
    case True
    then show ?thesis using Suc.prems by auto
  next
    case False
    have "unat (d - 1 - a) < Suc n \<longleftrightarrow> unat (d - 1 - (a + 1)) < n"
      using word_off_Suc [of n "d - 1" a] False Suc.prems(1) by auto
    moreover have "s - (d - a) \<noteq> d - 1" if "unat (d - 1 - a) < Suc n"
    proof
      assume e: "s - (d - a) = d - 1"
      then have "s = d - 1 + (d - a)" by (metis diff_add_cancel)
      then have sd: "s - d = d - 1 - a" by simp
      moreover have "d \<noteq> s" using sd False by (metis diff_self right_minus_eq)
      ultimately show False using Suc.prems(2) that by metis
    qed
    ultimately show ?thesis using False by auto
  qed
  finally show ?case .
qed simp

lemma rev_offset:
  fixes d n a :: u32
  shows "unat (d + n - 1 - a) < unat n \<longleftrightarrow> a - d < n"
proof -
  define k where "k = a - d"
  have e: "d + n - 1 - a = n - 1 - k" by (simp add: k_def)
  show ?thesis
  proof (cases "k < n")
    case True
    then have "unat k < unat n" by (simp add: word_less_nat_alt)
    have "n \<noteq> 0" using True by auto
    then have n1: "unat (n - 1) = unat n - 1" by (rule unat_minus_one)
    have "k \<le> n - 1" unfolding word_le_nat_alt n1 using \<open>unat k < unat n\<close> by simp
    then have "unat (n - 1 - k) = unat n - 1 - unat k" by (simp add: unat_sub n1)
    then show ?thesis unfolding e using True \<open>unat k < unat n\<close> by (simp add: k_def del: diff_diff_eq)
  next
    case False
    have "\<not> n - 1 - k < n"
    proof
      assume l: "n - 1 - k < n"
      show False
      proof (cases "n = 0")
        case False
        then have "unat (n - 1) = unat n - 1" "0 < unat n" by (auto simp: unat_minus_one unat_gt_0)
        moreover have "unat n \<le> unat k" using \<open>\<not> k < n\<close> by (simp add: word_le_nat_alt not_less)
        moreover have "unat (n - 1 - k) = 2 ^ 32 + unat (n - 1) - unat k"
          using calculation by (simp add: unat_sub_if')
        moreover have "unat (n - 1 - k) < unat n" using l by (simp add: word_less_nat_alt)
        moreover have "unat k < 2 ^ 32" using unsigned_less [of k] by simp
        ultimately show False by simp
      qed (use l in simp)
    qed
    then show ?thesis unfolding e using False by (simp add: k_def [symmetric] word_less_nat_alt)
  qed
qed

lemma no_overlap_below:
  fixes d s n :: u32
  assumes "d \<le> s" and "unat s + unat n < 2 ^ 32"
  shows "\<not> (d \<noteq> s \<and> unat (d - s) < unat n)"
proof
  assume a: "d \<noteq> s \<and> unat (d - s) < unat n"
  have ds: "unat d < unat s" using assms(1) a by (metis order.not_eq_order_implies_strict word_less_nat_alt)
  then have "unat (d - s) = 2 ^ 32 + unat d - unat s" by (simp add: unat_sub_if')
  moreover have "unat (d - s) < unat n" using a by (rule conjunct2)
  ultimately show False using assms(2) by linarith
qed

lemma memmove_at:
  assumes "unat src + unat n < 2 ^ 32" and "unat dst + unat n < 2 ^ 32"
  shows "memmove dst src n m a = (if a - dst < n then m (src + (a - dst)) else m a)"
proof -
  have n: "unat n < 2 ^ 32" using assms(1) by simp
  have sn: "unat (src + n) = unat src + unat n" using assms(1) by (simp add: unat_word_ariths)
  show ?thesis
  proof (cases "src < dst \<and> src + n > dst")
    case True
    have "\<not> (src \<noteq> dst \<and> unat (src - dst) < unat n)" using True assms(2) by (intro no_overlap_below) auto
    then have "\<not> (dst + n \<noteq> src + n \<and> unat (src + n - (dst + n)) < unat n)" by auto
    then have "copy_down (dst + n) (src + n) (unat n) m a =
        (if unat (dst + n - 1 - a) < unat n then m (src + n - (dst + n - a)) else m a)"
      using n by (intro copy_down_spec)
    moreover have "src + n - (dst + n - a) = src + (a - dst)" by simp
    ultimately show ?thesis unfolding memmove_def if_P [OF True] rev_offset by simp
  next
    case False
    have "\<not> (dst \<noteq> src \<and> unat (dst - src) < unat n)"
    proof (cases "dst \<le> src")
      case True
      then show ?thesis using assms(1) by (rule no_overlap_below)
    next
      case f: False
      then have "unat src + unat n \<le> unat dst" using False sn by (auto simp: word_less_nat_alt word_le_nat_alt)
      then have "unat n \<le> unat (dst - src)" using f by (simp add: unat_sub)
      then show ?thesis by simp
    qed
    then show ?thesis
      unfolding memmove_def if_not_P [OF False] word_less_nat_alt [of "a - dst"] by (rule copy_up_spec [OF n])
  qed
qed

text \<open>The copying loops with a bound write only inside it, and \<open>safestrcpy\<close> always leaves a NUL.\<close>

lemma strncpy_loop_outside:
  "n < 2 ^ 32 \<Longrightarrow> n \<le> unat (a - s) \<Longrightarrow> strncpy_loop s t n m a = m a"
proof (induction n arbitrary: s t m)
  case (Suc n)
  have o: "a \<noteq> s" "n \<le> unat (a - (s + 1))"
    using word_off_Suc [of n a s] Suc.prems by auto
  show ?case
    using o Suc.prems Suc.IH [of "s + 1"] stosb_spec [of n "s + 1" 0 _ a] by (simp add: Let_def)
qed simp

lemma safestrcpy_loop_outside:
  "Suc n < 2 ^ 32 \<Longrightarrow> Suc n \<le> unat (a - s) \<Longrightarrow> safestrcpy_loop s t n m a = m a"
proof (induction n arbitrary: s t m)
  case 0
  then show ?case by auto
next
  case (Suc n)
  have o: "a \<noteq> s" "Suc n \<le> unat (a - (s + 1))"
    using word_off_Suc [of "Suc n" a s] Suc.prems by auto
  then have "a \<noteq> s + 1" by auto
  then show ?case using o Suc.prems Suc.IH [of "s + 1"] by (simp add: Let_def)
qed

lemma safestrcpy_loop_nul:
  "Suc n < 2 ^ 32 \<Longrightarrow> \<exists>k \<le> n. safestrcpy_loop s t n m (s + of_nat k) = 0"
proof (induction n arbitrary: s t m)
  case 0
  then show ?case by simp
next
  case (Suc n)
  let ?m = "m(s := m t)"
  show ?case
  proof (cases "m t = 0")
    case True
    then have "safestrcpy_loop s t (Suc n) m (s + of_nat 0) = 0" by simp
    then show ?thesis by blast
  next
    case False
    obtain k where "k \<le> n" "safestrcpy_loop (s + 1) (t + 1) n ?m (s + 1 + of_nat k) = 0"
      using Suc.IH [of "s + 1" "t + 1" ?m] Suc_lessD [OF Suc.prems] by blast
    then have "safestrcpy_loop s t (Suc n) m (s + of_nat (Suc k)) = 0"
      using False by (simp add: Let_def add.assoc)
    then show ?thesis using \<open>k \<le> n\<close> by (intro exI [of _ "Suc k"]) simp
  qed
qed

section \<open>Properties\<close>

text \<open>A memory in which every byte is its own address, for the examples.\<close>

definition ramp :: memory where
  "ramp a = ucast a"

text \<open>C32. memmove copies as if through a temporary buffer, also when the two areas overlap: afterwards the destination
  holds what the source held before the call, and no other byte has changed.\<close>

theorem memmove_copies:
  assumes "unat src + unat n < 2 ^ 32" and "unat dst + unat n < 2 ^ 32"
  shows "memmove dst src n m = (\<lambda>a. if a - dst < n then m (src + (a - dst)) else m a)"
  by (rule ext) (rule memmove_at [OF assms])

theorem memmove_copies_witness:
  "memmove 3 0 8 ramp = (\<lambda>a. if a - 3 < 8 then ramp (0 + (a - 3)) else ramp a)"
  by (rule memmove_copies) simp_all

text \<open>The copy of the user library only goes upwards, so it loses the source when the destination starts inside it.\<close>

lemma user_memmove_overlap: "user_memmove 1 0 3 ramp 3 \<noteq> memmove 1 0 3 ramp 3"
proof -
  have n: "nat 3 = Suc (Suc (Suc 0))" by simp
  have "user_memmove 1 0 3 ramp 3 = 0" unfolding user_memmove_def n by (simp add: ramp_def)
  moreover have "memmove 1 0 3 ramp 3 = 2" using memmove_at [of 0 3 1 ramp 3] by (simp add: ramp_def)
  ultimately show ?thesis by simp
qed

text \<open>The bounded string copies stay inside the destination: safestrcpy and strncpy change no byte outside the
  n bytes of the destination, and after safestrcpy with a positive n there is a NUL among those bytes, so the copy is a string.\<close>

lemma string_copies_bounded:
  assumes "0 < n" and "n < 2 ^ 31"
  shows "(\<forall>a. n \<le> uint (a - s) \<longrightarrow> safestrcpy s t n m a = m a \<and> strncpy s t n m a = m a) \<and>
    (\<exists>k < nat n. safestrcpy s t n m (s + of_nat k) = 0)"
proof -
  have n: "Suc (nat n - 1) = nat n" "nat n < 2 ^ 32" using assms by auto
  have out: "safestrcpy s t n m a = m a \<and> strncpy s t n m a = m a" if "n \<le> uint (a - s)" for a
  proof -
    have "nat n \<le> unat (a - s)" using that by (simp add: nat_le_iff)
    then show ?thesis
      using n assms(1) safestrcpy_loop_outside [of "nat n - 1" a s t m] strncpy_loop_outside [of "nat n" a s t m]
      by (simp add: safestrcpy_def strncpy_def)
  qed
  obtain k where "k \<le> nat n - 1" "safestrcpy_loop s t (nat n - 1) m (s + of_nat k) = 0"
    using safestrcpy_loop_nul [of "nat n - 1" s t m] n by auto
  then have "k < nat n \<and> safestrcpy s t n m (s + of_nat k) = 0" using assms(1) by (auto simp: safestrcpy_def)
  then show ?thesis using out by blast
qed

theorem string_copies_bounded_witness:
  "\<exists>k < 16. safestrcpy 100 200 16 ramp (100 + of_nat k) = 0"
  using string_copies_bounded [of 16 100 200 ramp] by simp

end
