(* ===== verification/Printing.thy ===== *)
theory Printing
  imports CString
begin

text \<open>
  Formatted output: the kernel's \<open>cprintf\<close> and \<open>printint\<close> (\<^verbatim>\<open>console.c\<close>) and the user library's
  \<open>printf\<close> and \<open>printint\<close> (\<^verbatim>\<open>printf.c\<close>). A format string is the list of its bytes before the NUL, the words on the
  stack behind the format are a list, and \<open>%s\<close> reads a string from memory. The result is the bytes handed one by one to
  \<open>consputc\<close> or \<open>putc\<close>; \<open>None\<close> is a step outside an array, a division by zero, an
  argument that was not passed, or a string without end.
\<close>

section \<open>Integers\<close>

definition kernel_digits :: "u8 list" where
  "kernel_digits = map (\<lambda>c. of_nat (of_char c)) ''0123456789abcdef''"

definition user_digits :: "u8 list" where
  "user_digits = map (\<lambda>c. of_nat (of_char c)) ''0123456789ABCDEF''"

text \<open>The \<^verbatim>\<open>do ... while\<close> loop that fills the 16 bytes of \<^verbatim>\<open>buf\<close> from the last digit on.\<close>

function printint_loop :: "u8 list \<Rightarrow> u32 \<Rightarrow> u32 \<Rightarrow> u8 list \<Rightarrow> u8 list option" where
  "printint_loop digits base x buf =
     (if base = 0 \<or> unat (x mod base) \<ge> length digits \<or> length buf \<ge> 16 then None
      else let buf' = buf @ [digits ! unat (x mod base)]
        in if x div base \<noteq> 0 then printint_loop digits base (x div base) buf' else Some buf')"
  by pat_completeness auto
termination
  by (relation "measure (\<lambda>(_, _, _, buf). 16 - length buf)") auto

declare printint_loop.simps [simp del]

definition printint_with :: "u8 list \<Rightarrow> u32 \<Rightarrow> u32 \<Rightarrow> bool \<Rightarrow> u8 list option" where
  "printint_with digits xx base sg = do {
     let neg = (sg \<and> sint xx < 0);
     buf \<leftarrow> printint_loop digits base (if neg then - xx else xx) [];
     if neg then (if length buf \<ge> 16 then None else Some (rev (buf @ [45])))
     else Some (rev buf)
   }"

definition printint :: "u32 \<Rightarrow> u32 \<Rightarrow> bool \<Rightarrow> u8 list option" where
  "printint xx base sg = printint_with kernel_digits xx base sg"

definition user_printint :: "u32 \<Rightarrow> u32 \<Rightarrow> bool \<Rightarrow> u8 list option" where
  "user_printint xx base sg = printint_with user_digits xx base sg"

section \<open>Format strings\<close>

text \<open>The bytes of a string in memory up to its NUL.\<close>

partial_function (option) cstring :: "u32 \<Rightarrow> u8 list \<Rightarrow> memory \<Rightarrow> u8 list option" where
  "cstring p acc m = (if m p = 0 then Some acc else cstring (p + 1) (acc @ [m p]) m)"

definition null_string :: "u8 list" where
  "null_string = map (\<lambda>c. of_nat (of_char c)) ''(null)''"

definition string_arg :: "u32 \<Rightarrow> memory \<Rightarrow> u8 list option" where
  "string_arg p m = (if p = 0 then Some null_string else cstring p [] m)"

text \<open>\<open>cprintf\<close>: 37 is \<^verbatim>\<open>'%'\<close>; the letters are \<^verbatim>\<open>d\<close> 100, \<^verbatim>\<open>x\<close> 120, \<^verbatim>\<open>p\<close> 112, \<^verbatim>\<open>s\<close> 115. A format that ends in
  \<^verbatim>\<open>%\<close> stops there.\<close>

fun cprintf :: "u8 list \<Rightarrow> u32 list \<Rightarrow> memory \<Rightarrow> u8 list option" where
  "cprintf [] args m = Some []"
| "cprintf (c # fmt) args m =
     (if c \<noteq> 37 then map_option ((#) c) (cprintf fmt args m)
      else (case fmt of
          [] \<Rightarrow> Some []
        | d # fmt' \<Rightarrow>
            if d = 100 \<or> d = 120 \<or> d = 112 then
              (case args of [] \<Rightarrow> None | a # args' \<Rightarrow> do {
                 out \<leftarrow> printint a (if d = 100 then 10 else 16) (d = 100);
                 rest \<leftarrow> cprintf fmt' args' m;
                 Some (out @ rest) })
            else if d = 115 then
              (case args of [] \<Rightarrow> None | a # args' \<Rightarrow> do {
                 out \<leftarrow> string_arg a m;
                 rest \<leftarrow> cprintf fmt' args' m;
                 Some (out @ rest) })
            else if d = 37 then map_option ((#) 37) (cprintf fmt' args m)
            else map_option (\<lambda>rest. 37 # d # rest) (cprintf fmt' args m)))"

text \<open>\<open>printf\<close> keeps in \<open>st\<close> whether the last byte was a \<^verbatim>\<open>%\<close>; it knows \<^verbatim>\<open>%c\<close> (99) besides.\<close>

fun printf_loop :: "bool \<Rightarrow> u8 list \<Rightarrow> u32 list \<Rightarrow> memory \<Rightarrow> u8 list option" where
  "printf_loop st [] args m = Some []"
| "printf_loop st (c # fmt) args m =
     (if \<not> st then
        (if c = 37 then printf_loop True fmt args m else map_option ((#) c) (printf_loop False fmt args m))
      else if c = 100 \<or> c = 120 \<or> c = 112 then
        (case args of [] \<Rightarrow> None | a # args' \<Rightarrow> do {
           out \<leftarrow> user_printint a (if c = 100 then 10 else 16) (c = 100);
           rest \<leftarrow> printf_loop False fmt args' m;
           Some (out @ rest) })
      else if c = 115 then
        (case args of [] \<Rightarrow> None | a # args' \<Rightarrow> do {
           out \<leftarrow> string_arg a m;
           rest \<leftarrow> printf_loop False fmt args' m;
           Some (out @ rest) })
      else if c = 99 then
        (case args of [] \<Rightarrow> None | a # args' \<Rightarrow> map_option ((#) (ucast a)) (printf_loop False fmt args' m))
      else if c = 37 then map_option ((#) 37) (printf_loop False fmt args m)
      else map_option (\<lambda>rest. 37 # c # rest) (printf_loop False fmt args m))"

definition printf :: "u8 list \<Rightarrow> u32 list \<Rightarrow> memory \<Rightarrow> u8 list option" where
  "printf fmt args m = printf_loop False fmt args m"

section \<open>Decimal numbers\<close>

text \<open>The value of digits with the least significant first.\<close>

fun digits_val :: "u8 list \<Rightarrow> nat" where
  "digits_val [] = 0"
| "digits_val (d # ds) = (unat d - 48) + 10 * digits_val ds"

definition digit :: "u8 \<Rightarrow> bool" where
  "digit d \<longleftrightarrow> 48 \<le> d \<and> d \<le> 57"

lemma digits_val_append: "digits_val (xs @ ys) = digits_val xs + 10 ^ length xs * digits_val ys"
  by (induction xs) (auto simp: algebra_simps)

lemma unat_div_10: "unat (x div 10 :: u32) = unat x div 10" "unat (x mod 10 :: u32) = unat x mod 10"
  by (simp_all add: unat_div unat_mod)

lemma decimal_digit:
  assumes "k < (10 :: nat)" and "digits = kernel_digits \<or> digits = user_digits"
  shows "digits ! k = of_nat (48 + k)" and "length digits = 16"
proof -
  have k: "k \<in> {0, 1, 2, 3, 4, 5, 6, 7, 8, 9}" using assms(1) by auto
  have "\<forall>j \<in> {0, 1, 2, 3, 4, 5, 6, 7, 8, 9}. kernel_digits ! j = of_nat (48 + j) \<and> user_digits ! j = of_nat (48 + j)"
    by code_simp
  then show "digits ! k = of_nat (48 + k)" using k assms(2) by blast
  show "length digits = 16" using assms(2) by (auto simp: kernel_digits_def user_digits_def)
qed

lemma printint_loop_decimal:
  assumes "digits = kernel_digits \<or> digits = user_digits" and "unat x < 10 ^ k" and "0 < k" and "length buf + k \<le> 16"
  shows "\<exists>ds. printint_loop digits 10 x buf = Some (buf @ ds) \<and> length ds \<le> k \<and> list_all digit ds \<and> digits_val ds = unat x"
  using assms
proof (induction k arbitrary: x buf)
  case (Suc k)
  define r where "r = unat (x mod 10)"
  have r: "r < 10" "r = unat x mod 10" by (simp_all add: r_def unat_div_10)
  define d :: u8 where "d = of_nat (48 + r)"
  have ud: "unat d = 48 + r" using r by (simp add: d_def unsigned_of_nat take_bit_eq_mod del: of_nat_add)
  have d: "digit d" "unat d - 48 = r"
    using ud r by (simp_all add: digit_def word_le_nat_alt)
  have step: "printint_loop digits 10 x buf = (if x div 10 \<noteq> 0 then printint_loop digits 10 (x div 10) (buf @ [d]) else Some (buf @ [d]))"
    using decimal_digit [OF r(1) Suc.prems(1)] r(1) Suc.prems(4)
    by (subst printint_loop.simps) (simp add: r_def [symmetric] d_def [symmetric] Let_def del: of_nat_add)
  show ?case
  proof (cases "x div 10 = 0")
    case True
    then have "unat x div 10 = 0" using unat_div_10(1) [of x] by simp
    then have "r = unat x" using r by auto
    then show ?thesis using step True d by (intro exI [of _ "[d]"]) simp
  next
    case False
    have k: "0 < k"
    proof (rule ccontr)
      assume "\<not> 0 < k"
      then have "unat x < 10" using Suc.prems by simp
      then have "unat (x div 10) = 0" by (simp add: unat_div_10)
      then show False using False by (simp add: unat_eq_zero)
    qed
    have "unat (x div 10) < 10 ^ k" using Suc.prems(2) by (simp add: unat_div_10 div_less_iff_less_mult mult.commute)
    then obtain ds where ds: "printint_loop digits 10 (x div 10) (buf @ [d]) = Some ((buf @ [d]) @ ds)" "length ds \<le> k"
        "list_all digit ds" "digits_val ds = unat (x div 10)"
      using Suc.IH [of "x div 10" "buf @ [d]"] Suc.prems k by auto
    have "digits_val (d # ds) = unat x" using d ds(4) r by (simp add: unat_div_10)
    then show ?thesis using step False d ds by (intro exI [of _ "d # ds"]) simp
  qed
qed simp

lemma printint_decimal:
  assumes "digits = kernel_digits \<or> digits = user_digits"
  shows "\<exists>ds. printint_with digits x 10 sg = Some ((if sg \<and> sint x < 0 then [45] else []) @ rev ds) \<and>
    length ds \<le> 10 \<and> list_all digit ds \<and> digits_val ds = unat (if sg \<and> sint x < 0 then - x else x)"
proof -
  let ?x = "if sg \<and> sint x < 0 then - x else x"
  have "unat y < 10 ^ 10" for y :: u32
  proof -
    have "unat y < 2 ^ LENGTH(32)" by (rule unsigned_less)
    then show ?thesis by simp
  qed
  then have "unat ?x < 10 ^ 10" by blast
  then obtain ds where "printint_loop digits 10 ?x [] = Some ds" "length ds \<le> 10" "list_all digit ds" "digits_val ds = unat ?x"
    using printint_loop_decimal [OF assms, of ?x 10 "[]"] by auto
  then show ?thesis by (intro exI [of _ ds]) (auto simp: printint_with_def)
qed

section \<open>Reading a number back\<close>

fun str_at :: "memory \<Rightarrow> u32 \<Rightarrow> u8 list \<Rightarrow> bool" where
  "str_at m p [] \<longleftrightarrow> m p = 0"
| "str_at m p (c # cs) \<longleftrightarrow> m p = c \<and> str_at m (p + 1) cs"

lemma atoi_loop_digits:
  "list_all digit cs \<Longrightarrow> str_at m p cs \<Longrightarrow> atoi_loop p n m = Some (foldl (\<lambda>n c. n * 10 + ucast c - 48) n cs)"
proof (induction cs arbitrary: p n)
  case Nil
  then show ?case by (subst atoi_loop.simps) (simp add: word_le_nat_alt)
next
  case (Cons c cs)
  then show ?case by (subst atoi_loop.simps) (simp add: digit_def)
qed

lemma foldl_digits:
  "list_all digit ds \<Longrightarrow> foldl (\<lambda>n c. n * 10 + ucast c - 48) (0 :: u32) (rev ds) = of_nat (digits_val ds)"
proof (induction ds)
  case (Cons d ds)
  have "48 \<le> unat d" using Cons.prems by (simp add: digit_def word_le_nat_alt)
  moreover have "(of_nat (unat d) :: u32) = ucast d" by (simp add: word_unat_eq_iff unsigned_ucast_eq unsigned_of_nat)
  ultimately have "(of_nat (unat d - 48) :: u32) = ucast d - 48" by (simp add: of_nat_diff)
  then show ?case using Cons by simp
qed simp

section \<open>Properties\<close>

text \<open>C33. Printing and reading a number: printf's conversion of any non-negative int to decimal fits its buffer and
  takes at most ten bytes, and atoi gives the number back from them.\<close>

theorem printint_atoi:
  assumes "0 \<le> sint x"
  shows "\<exists>out. user_printint x 10 True = Some out \<and> length out \<le> 10 \<and> (\<forall>m p. str_at m p out \<longrightarrow> atoi p m = Some x)"
proof -
  obtain ds where ds: "user_printint x 10 True = Some (rev ds)" "length ds \<le> 10" "list_all digit ds" "digits_val ds = unat x"
    using printint_decimal [of user_digits x True] assms by (auto simp: user_printint_def)
  have "atoi p m = Some x" if "str_at m p (rev ds)" for m p
    using atoi_loop_digits [OF _ that, of 0] foldl_digits [OF ds(3)] ds by (simp add: atoi_def)
  then show ?thesis using ds by (intro exI [of _ "rev ds"]) simp
qed

theorem printint_atoi_witness:
  "\<exists>out. user_printint 344 10 True = Some out \<and> length out \<le> 10 \<and> (\<forall>m p. str_at m p out \<longrightarrow> atoi p m = Some 344)"
  by (rule printint_atoi) simp

text \<open>The kernel prints every int, the most negative one included, within its 16-byte buffer: the output is a
  minus sign for a negative number and then the decimal digits of its absolute value.\<close>

lemma cprintf_int:
  "\<exists>ds. printint x 10 True = Some ((if sint x < 0 then [45] else []) @ rev ds) \<and> length ds \<le> 10 \<and>
     list_all digit ds \<and> int (digits_val ds) = \<bar>sint x\<bar>"
proof -
  obtain ds where ds: "printint x 10 True = Some ((if sint x < 0 then [45] else []) @ rev ds)" "length ds \<le> 10"
      "list_all digit ds" "digits_val ds = unat (if sint x < 0 then - x else x)"
    using printint_decimal [of kernel_digits x True] by (auto simp: printint_def)
  have "int (unat (if sint x < 0 then - x else x)) = \<bar>sint x\<bar>"
  proof (cases "sint x < 0")
    case True
    have "uint (- x) = - sint x"
    proof -
      have "- x = word_of_int (- sint x)" by simp
      then have "uint (- x) = (- sint x) mod 2 ^ 32" by (simp only: uint_word_of_int) simp
      moreover have "- (2 ^ 31) \<le> sint x" using sint_ge [of x] by simp
      ultimately show ?thesis using True by simp
    qed
    then show ?thesis using True by simp
  next
    case False
    then show ?thesis using sint_nonneg(1) [of x] by simp
  qed
  then show ?thesis using ds by (intro exI [of _ ds]) simp
qed

end
