(* ===== verification/Console.thy ===== *)
theory Console
  imports Printing
begin

text \<open>
  The console (\<^verbatim>\<open>console.c\<close>) and the keyboard (\<^verbatim>\<open>kbd.c\<close>): the character display with its cursor, the line editor that
  turns keystrokes into lines, reading those lines, and the translation of scan codes. The serial port is the
  list of bytes sent to it. Every operation is a critical section under \<^verbatim>\<open>cons.lock\<close>. \<open>None\<close> is panic, or the
  loop of \<open>consputc\<close> after a panic.
\<close>

definition INPUT_BUF :: nat where "INPUT_BUF = 128"

record console =
  panicked :: bool
  crt :: "nat \<Rightarrow> u16"
  crt_pos :: nat
  uart_out :: "u8 list"
  in_buf :: "nat \<Rightarrow> u8"
  in_r :: u32
  in_w :: u32
  in_e :: u32
  in_wakeup :: bool

section \<open>Display\<close>

text \<open>\<open>None\<close> as character is \<^verbatim>\<open>BACKSPACE\<close>. The display has 25 rows of 80 cells, of which the last is never used.\<close>

definition cga_advance :: "u8 option \<Rightarrow> (nat \<Rightarrow> u16) \<Rightarrow> nat \<Rightarrow> (nat \<Rightarrow> u16) \<times> nat" where
  "cga_advance c screen pos =
     (case c of
        None \<Rightarrow> (screen, if pos > 0 then pos - 1 else pos)
      | Some ch \<Rightarrow> if ch = 10 then (screen, pos + (80 - pos mod 80))
                  else (screen(pos := ucast ch OR 0x0700), pos + 1))"

definition cga_scroll :: "(nat \<Rightarrow> u16) \<Rightarrow> nat \<Rightarrow> (nat \<Rightarrow> u16) \<times> nat" where
  "cga_scroll screen pos =
     (if pos div 80 \<ge> 24 then
        let moved = (\<lambda>i. if i < 23 * 80 then screen (i + 80) else screen i);
            pos' = pos - 80
        in ((\<lambda>i. if pos' \<le> i \<and> i < pos' + (24 * 80 - pos') then 0 else moved i), pos')
      else (screen, pos))"

definition cgaputc :: "u8 option \<Rightarrow> console \<Rightarrow> console option" where
  "cgaputc c s =
     (case cga_advance c (crt s) (crt_pos s) of (screen, pos) \<Rightarrow>
        if pos > 25 * 80 then None
        else case cga_scroll screen pos of (screen', pos') \<Rightarrow>
          Some (s\<lparr>crt := screen'(pos' := 0x0720), crt_pos := pos'\<rparr>))"

definition uartputc :: "u8 \<Rightarrow> console \<Rightarrow> console" where
  "uartputc c s = s\<lparr>uart_out := uart_out s @ [c]\<rparr>"

definition consputc :: "u8 option \<Rightarrow> console \<Rightarrow> console option" where
  "consputc c s =
     (if panicked s then None
      else cgaputc c (case c of None \<Rightarrow> uartputc 8 (uartputc 32 (uartputc 8 s)) | Some ch \<Rightarrow> uartputc ch s))"

section \<open>Line editing\<close>

lemma cgaputc_input: "cgaputc c s = Some t \<Longrightarrow> in_e t = in_e s \<and> in_w t = in_w s \<and> in_r t = in_r s \<and> in_buf t = in_buf s \<and> in_wakeup t = in_wakeup s \<and> panicked t = panicked s"
  by (auto simp: cgaputc_def split: prod.splits if_splits)

lemma consputc_input: "consputc c s = Some t \<Longrightarrow> in_e t = in_e s \<and> in_w t = in_w s \<and> in_r t = in_r s \<and> in_buf t = in_buf s \<and> in_wakeup t = in_wakeup s \<and> panicked t = panicked s"
  by (auto simp: consputc_def uartputc_def split: if_splits option.splits dest!: cgaputc_input)

text \<open>Killing a line: back to the write index or the end of the line before.\<close>

function kill_line :: "console \<Rightarrow> console option" where
  "kill_line s =
     (if in_e s \<noteq> in_w s \<and> in_buf s (unat (in_e s - 1) mod INPUT_BUF) \<noteq> 10 then
        (case consputc None (s\<lparr>in_e := in_e s - 1\<rparr>) of None \<Rightarrow> None | Some s1 \<Rightarrow> kill_line s1)
      else Some s)"
  by pat_completeness auto

termination
proof (relation "measure (\<lambda>s. unat (in_e s - in_w s))")
  fix s t :: console
  assume c: "in_e s \<noteq> in_w s \<and> in_buf s (unat (in_e s - 1) mod INPUT_BUF) \<noteq> 10"
    and "consputc None (s\<lparr>in_e := in_e s - 1\<rparr>) = Some t"
  then have t: "in_e t = in_e s - 1" "in_w t = in_w s" using consputc_input by fastforce+
  have "in_e s - in_w s \<noteq> 0" using c by simp
  then have "unat (in_e s - in_w s - 1) < unat (in_e s - in_w s)" by (simp add: unat_minus_one unat_gt_0)
  moreover have "in_e s - 1 - in_w s = in_e s - in_w s - 1" by simp
  ultimately show "(t, s) \<in> measure (\<lambda>s. unat (in_e s - in_w s))" unfolding in_measure t by (simp only:)
qed simp

declare kill_line.simps [simp del]

text \<open>One character of the loop of \<open>consoleintr\<close>; the result is whether a process listing was asked for. Characters: ^P 16, ^U 21, ^H 8, DEL 127, CR 13,
  NL 10, ^D 4.\<close>

definition edit_char :: "u8 \<Rightarrow> console \<Rightarrow> (bool \<times> console) option" where
  "edit_char c s =
     (if c = 16 then Some (True, s)
      else if c = 21 then map_option (Pair False) (kill_line s)
      else if c = 8 \<or> c = 127 then
        (if in_e s \<noteq> in_w s then map_option (Pair False) (consputc None (s\<lparr>in_e := in_e s - 1\<rparr>)) else Some (False, s))
      else if c \<noteq> 0 \<and> in_e s - in_r s < of_nat INPUT_BUF then do {
        let c' = (if c = 13 then 10 else c);
        let s1 = s\<lparr>in_buf := (in_buf s)(unat (in_e s) mod INPUT_BUF := c'), in_e := in_e s + 1\<rparr>;
        s2 \<leftarrow> consputc (Some c') s1;
        Some (False,
          if c' = 10 \<or> c' = 4 \<or> in_e s2 = in_r s2 + of_nat INPUT_BUF then s2\<lparr>in_w := in_e s2, in_wakeup := True\<rparr> else s2)
      }
      else Some (False, s))"

fun consoleintr :: "u8 list \<Rightarrow> console \<Rightarrow> (bool \<times> console) option" where
  "consoleintr [] s = Some (False, s)"
| "consoleintr (c # cs) s = do {
     (d, s1) \<leftarrow> edit_char c s;
     (d', s2) \<leftarrow> consoleintr cs s1;
     Some (d \<or> d', s2)
   }"

section \<open>Reading and writing\<close>

text \<open>The outcome of a segment of \<open>consoleread\<close>: the bytes delivered so far and whether it returns or goes to sleep with \<open>n\<close> bytes to go.\<close>

datatype console_io = CRet int | CSleep nat

fun consoleread_loop :: "nat \<Rightarrow> bool \<Rightarrow> nat \<Rightarrow> console \<Rightarrow> console_io \<times> u8 list \<times> console" where
  "consoleread_loop target killed 0 s = (CRet (int target), [], s)"
| "consoleread_loop target killed (Suc n) s =
     (if in_r s = in_w s then (if killed then CRet (- 1) else CSleep (Suc n), [], s)
      else let c = in_buf s (unat (in_r s) mod INPUT_BUF); s1 = s\<lparr>in_r := in_r s + 1\<rparr>
        in if c = 4 then
             (CRet (int target - int (Suc n)), [], if Suc n < target then s1\<lparr>in_r := in_r s1 - 1\<rparr> else s1)
           else if c = 10 then (CRet (int target - int n), [c], s1)
           else case consoleread_loop target killed n s1 of (r, cs, s2) \<Rightarrow> (r, c # cs, s2))"

text \<open>The first segment, for a request of \<open>n\<close> bytes; a later one continues with the rest of its target.\<close>

definition consoleread :: "bool \<Rightarrow> int \<Rightarrow> console \<Rightarrow> console_io \<times> u8 list \<times> console" where
  "consoleread killed n s = consoleread_loop (nat n) killed (nat n) s"

fun consolewrite_loop :: "u8 list \<Rightarrow> console \<Rightarrow> console option" where
  "consolewrite_loop [] s = Some s"
| "consolewrite_loop (c # cs) s = do { s1 \<leftarrow> consputc (Some c) s; consolewrite_loop cs s1 }"

definition consolewrite :: "u8 list \<Rightarrow> console \<Rightarrow> (int \<times> console) option" where
  "consolewrite cs s = do { s1 \<leftarrow> consolewrite_loop cs s; Some (int (length cs), s1) }"

section \<open>The cursor\<close>

definition cursor_ok :: "console \<Rightarrow> bool" where
  "cursor_ok s \<longleftrightarrow> crt_pos s < 24 * 80"

lemma next_row: "(pos :: nat) < 24 * 80 \<Longrightarrow> pos + (80 - pos mod 80) \<le> 24 * 80"
proof -
  assume "pos < 24 * 80"
  then have "pos div 80 < 24" by (simp add: div_less_iff_less_mult)
  moreover have "pos = 80 * (pos div 80) + pos mod 80" "pos mod 80 < 80" by simp_all
  ultimately show ?thesis by linarith
qed

lemma cgaputc_ok: "cursor_ok s \<Longrightarrow> \<exists>t. cgaputc c s = Some t \<and> cursor_ok t"
proof -
  assume "cursor_ok s"
  then have p: "crt_pos s < 24 * 80" by (simp add: cursor_ok_def)
  obtain scr pos where a: "cga_advance c (crt s) (crt_pos s) = (scr, pos)" by fastforce
  have pos: "pos \<le> 24 * 80"
    using a p next_row [OF p] by (auto simp: cga_advance_def split: option.splits if_splits)
  obtain scr' pos' where b: "cga_scroll scr pos = (scr', pos')" by fastforce
  have "pos' < 24 * 80"
    using b pos by (auto simp: cga_scroll_def Let_def split: if_splits)
  then show ?thesis using a b pos by (simp add: cgaputc_def cursor_ok_def)
qed

lemma consputc_ok: "cursor_ok s \<Longrightarrow> \<not> panicked s \<Longrightarrow> \<exists>t. consputc c s = Some t \<and> cursor_ok t"
  using cgaputc_ok [of "case c of None \<Rightarrow> uartputc 8 (uartputc 32 (uartputc 8 s)) | Some ch \<Rightarrow> uartputc ch s" c]
  by (auto simp: consputc_def cursor_ok_def uartputc_def split: option.splits)

section \<open>The line editor as two lists\<close>

text \<open>The characters from the read index to the edit index; the first ones, up to the write index, are committed.\<close>

definition typed :: "console \<Rightarrow> u8 list" where
  "typed s = map (\<lambda>i. in_buf s ((unat (in_r s) + i) mod INPUT_BUF)) [0..<unat (in_e s - in_r s)]"

definition ncommitted :: "console \<Rightarrow> nat" where
  "ncommitted s = unat (in_w s - in_r s)"

definition abs_input :: "console \<Rightarrow> u8 list \<times> u8 list" where
  "abs_input s = (take (ncommitted s) (typed s), drop (ncommitted s) (typed s))"

definition console_ok :: "console \<Rightarrow> bool" where
  "console_ok s \<longleftrightarrow> \<not> panicked s \<and> cursor_ok s \<and> ncommitted s \<le> length (typed s) \<and> length (typed s) \<le> INPUT_BUF \<and>
     10 \<notin> set (snd (abs_input s))"

text \<open>What a keystroke does to the committed lines and the line being edited.\<close>

definition edit_spec :: "u8 \<Rightarrow> u8 list \<times> u8 list \<Rightarrow> u8 list \<times> u8 list" where
  "edit_spec c ql =
     (case ql of (q, l) \<Rightarrow>
        if c = 16 then (q, l)
        else if c = 21 then (q, [])
        else if c = 8 \<or> c = 127 then (q, butlast l)
        else if c \<noteq> 0 \<and> length q + length l < 128 then
          let c' = (if c = 13 then 10 else c); l' = l @ [c']
          in if c' = 10 \<or> c' = 4 \<or> length q + length l' = 128 then (q @ l', []) else (q, l')
        else (q, l))"

lemma length_typed [simp]: "length (typed s) = unat (in_e s - in_r s)"
  by (simp add: typed_def)

lemma input_index: "unat (a + of_nat i :: u32) mod 128 = (unat a + i) mod 128"
proof -
  have d: "(128 :: nat) dvd 2 ^ 32" by simp
  have "unat (a + of_nat i) = (unat a + i) mod 2 ^ 32"
    by (simp add: unat_word_ariths unsigned_of_nat take_bit_eq_mod mod_add_right_eq)
  then show ?thesis using mod_mod_cancel [OF d, of "unat a + i"] by simp
qed

lemma edit_index: "unat (in_e s) mod 128 = (unat (in_r s) + unat (in_e s - in_r s)) mod 128"
proof -
  have "in_e s = in_r s + of_nat (unat (in_e s - in_r s))" by simp
  then show ?thesis using input_index by metis
qed

lemma typed_push:
  assumes "length (typed s) < 128"
  shows "typed (s\<lparr>in_buf := (in_buf s)(unat (in_e s) mod INPUT_BUF := c), in_e := in_e s + 1\<rparr>) = typed s @ [c]"
proof -
  let ?k = "unat (in_e s - in_r s)"
  have k: "?k < 128" using assms by simp
  have e: "unat (in_e s + 1 - in_r s) = Suc ?k"
  proof -
    have "in_e s + 1 - in_r s = (in_e s - in_r s) + 1" by simp
    then show ?thesis using k by (simp only:) (simp add: unat_word_ariths)
  qed
  have other: "(unat (in_r s) + i) mod 128 \<noteq> (unat (in_r s) + ?k) mod 128" if "i < ?k" for i
    using add_mod_inj [of "unat (in_r s)" i 128 ?k] that k by auto
  show ?thesis
    unfolding typed_def INPUT_BUF_def edit_index by (simp add: e other)
qed

lemma typed_pop:
  assumes "in_e s \<noteq> in_r s"
  shows "typed (s\<lparr>in_e := in_e s - 1\<rparr>) = butlast (typed s)"
    and "in_buf s (unat (in_e s - 1) mod INPUT_BUF) = last (typed s)"
proof -
  let ?k = "unat (in_e s - in_r s)"
  have nz: "in_e s - in_r s \<noteq> 0" using assms by simp
  then have k: "unat (in_e s - in_r s - 1) = ?k - 1" "0 < ?k" by (simp_all add: unat_minus_one unat_gt_0)
  have e: "in_e s - 1 - in_r s = in_e s - in_r s - 1" by simp
  obtain j where j: "?k = Suc j" using k(2) gr0_implies_Suc by blast
  have "unat (in_e s - 1 - in_r s) = j" unfolding e k(1) j by simp
  then show "typed (s\<lparr>in_e := in_e s - 1\<rparr>) = butlast (typed s)"
    by (simp add: typed_def j butlast_append)
  have "in_e s - 1 = in_r s + of_nat j"
  proof -
    have "(of_nat j :: u32) = of_nat (unat (in_e s - 1 - in_r s))" by (simp only: \<open>unat (in_e s - 1 - in_r s) = j\<close>)
    also have "\<dots> = in_e s - 1 - in_r s" by simp
    finally show ?thesis by simp
  qed
  then have "unat (in_e s - 1) mod 128 = (unat (in_r s) + j) mod 128" using input_index by simp
  then show "in_buf s (unat (in_e s - 1) mod INPUT_BUF) = last (typed s)"
    by (simp add: typed_def INPUT_BUF_def j)
qed

lemma typed_frame: "in_e t = in_e s \<Longrightarrow> in_r t = in_r s \<Longrightarrow> in_buf t = in_buf s \<Longrightarrow> typed t = typed s"
  by (simp add: typed_def)

lemma abs_frame: "consputc c s = Some t \<Longrightarrow> typed t = typed s \<and> ncommitted t = ncommitted s"
  using consputc_input [of c s t] by (auto simp: ncommitted_def intro: typed_frame)

lemma editing_nonempty:
  assumes "console_ok s" and "in_e s \<noteq> in_w s"
  shows "ncommitted s < length (typed s)" and "in_e s \<noteq> in_r s" and "typed s \<noteq> []"
proof -
  have "in_w s - in_r s \<noteq> in_e s - in_r s" using assms(2) by simp
  then have "ncommitted s \<noteq> length (typed s)" unfolding ncommitted_def length_typed by (simp add: word_unat_eq_iff)
  then show l: "ncommitted s < length (typed s)" using assms(1) by (simp add: console_ok_def)
  then show "in_e s \<noteq> in_r s" by auto
  show "typed s \<noteq> []"
  proof
    assume "typed s = []"
    then have "length (typed s) = 0" by (simp only: list.size)
    then show False using l by simp
  qed
qed

lemma erase_ok:
  assumes ok: "console_ok s" and ne: "in_e s \<noteq> in_w s"
  shows "\<exists>t. consputc None (s\<lparr>in_e := in_e s - 1\<rparr>) = Some t \<and> console_ok t \<and>
    abs_input t = (fst (abs_input s), butlast (snd (abs_input s)))"
proof -
  note n = editing_nonempty [OF ok ne]
  let ?s = "s\<lparr>in_e := in_e s - 1\<rparr>"
  obtain t where t: "consputc None ?s = Some t" "cursor_ok t"
    using consputc_ok [of ?s None] ok by (auto simp: console_ok_def cursor_ok_def)
  have ty: "typed t = butlast (typed s)" using abs_frame [OF t(1)] typed_pop(1) [OF n(2)] by simp
  have nc: "ncommitted t = ncommitted s" using abs_frame [OF t(1)] by (simp add: ncommitted_def)
  have p: "\<not> panicked t" using consputc_input [OF t(1)] ok by (simp add: console_ok_def)
  have a: "abs_input t = (fst (abs_input s), butlast (snd (abs_input s)))"
    using n(1) unfolding abs_input_def ty nc by (simp add: take_butlast drop_butlast)
  have "length (typed t) = length (typed s) - 1" unfolding ty by (rule length_butlast)
  then have "ncommitted t \<le> length (typed t)" "length (typed t) \<le> INPUT_BUF"
    using n(1) ok unfolding nc console_ok_def by linarith+
  moreover have "10 \<notin> set (snd (abs_input t))"
    using ok in_set_butlastD unfolding a console_ok_def by fastforce
  ultimately show ?thesis using t p a unfolding console_ok_def by blast
qed

lemma last_editing:
  assumes "console_ok s" and "in_e s \<noteq> in_w s"
  shows "in_buf s (unat (in_e s - 1) mod INPUT_BUF) \<noteq> 10"
proof -
  note n = editing_nonempty [OF assms]
  have "last (typed s) = last (drop (ncommitted s) (typed s))" using n(1) by (simp only: last_drop)
  moreover have "drop (ncommitted s) (typed s) \<noteq> []" using n(1) by simp
  ultimately have "last (typed s) \<in> set (snd (abs_input s))"
    unfolding abs_input_def snd_conv by (metis last_in_set)
  then show ?thesis using assms(1) typed_pop(2) [OF n(2)] by (auto simp: console_ok_def)
qed

lemma kill_line_ok:
  "console_ok s \<Longrightarrow> \<exists>t. kill_line s = Some t \<and> console_ok t \<and> abs_input t = (fst (abs_input s), [])"
proof (induction s rule: kill_line.induct)
  case (1 s)
  show ?case
  proof (cases "in_e s = in_w s")
    case True
    then have "abs_input s = (fst (abs_input s), [])" by (simp add: abs_input_def ncommitted_def)
    then show ?thesis using True 1(2) by (subst kill_line.simps) simp
  next
    case False
    note l = last_editing [OF 1(2) False]
    obtain t where t: "consputc None (s\<lparr>in_e := in_e s - 1\<rparr>) = Some t" "console_ok t"
        "abs_input t = (fst (abs_input s), butlast (snd (abs_input s)))"
      using erase_ok [OF 1(2) False] by blast
    have "kill_line s = kill_line t" using False l t(1) by (subst kill_line.simps) simp
    moreover obtain u where "kill_line t = Some u" "console_ok u" "abs_input u = (fst (abs_input t), [])"
      using 1(1) [OF conjI [OF False l] t(1) t(2)] by blast
    ultimately show ?thesis using t(3) by auto
  qed
qed

text \<open>Typing a character, committed or not.\<close>

lemma abs_of_lengths:
  assumes "console_ok s" and "abs_input s = (q, l)"
  shows "typed s = q @ l" and "ncommitted s = length q" and "unat (in_e s - in_r s) = length q + length l"
proof -
  show q: "typed s = q @ l" using assms(2) by (auto simp: abs_input_def)
  show "ncommitted s = length q" using assms by (auto simp: abs_input_def console_ok_def)
  show "unat (in_e s - in_r s) = length q + length l" using arg_cong [OF q, of length] by simp
qed

lemma type_ok:
  fixes c :: u8
  assumes ok: "console_ok s" and a: "abs_input s = (q, l)" and room: "length q + length l < 128"
  defines "s1 \<equiv> s\<lparr>in_buf := (in_buf s)(unat (in_e s) mod INPUT_BUF := c), in_e := in_e s + 1\<rparr>"
  shows "\<exists>t. consputc (Some c) s1 = Some t \<and> \<not> panicked t \<and> cursor_ok t \<and> typed t = q @ l @ [c] \<and> ncommitted t = length q"
proof -
  obtain t where t: "consputc (Some c) s1 = Some t" "cursor_ok t"
    using consputc_ok [of s1 "Some c"] ok by (auto simp: console_ok_def cursor_ok_def s1_def)
  have "length (typed s) < 128" using abs_of_lengths [OF ok a] room by simp
  then have "typed s1 = typed s @ [c]" unfolding s1_def by (rule typed_push)
  then have "typed t = q @ l @ [c]" using abs_frame [OF t(1)] abs_of_lengths(1) [OF ok a] by simp
  moreover have "ncommitted t = length q"
    using abs_frame [OF t(1)] abs_of_lengths(2) [OF ok a] by (simp add: ncommitted_def s1_def)
  moreover have "\<not> panicked t" using consputc_input [OF t(1)] ok by (simp add: console_ok_def s1_def)
  ultimately show ?thesis using t by blast
qed

lemma commit_ok:
  assumes "\<not> panicked t" and "cursor_ok t" and "typed t = ql" and "length ql \<le> 128"
  shows "console_ok (t\<lparr>in_w := in_e t, in_wakeup := True\<rparr>) \<and> abs_input (t\<lparr>in_w := in_e t, in_wakeup := True\<rparr>) = (ql, [])"
proof -
  let ?t = "t\<lparr>in_w := in_e t, in_wakeup := True\<rparr>"
  have ty: "typed ?t = ql" using assms(3) by (simp add: typed_def)
  have "length ql = unat (in_e t - in_r t)" using assms(3) length_typed [of t] by simp
  then have "ncommitted ?t = length ql" by (simp add: ncommitted_def)
  then have "abs_input ?t = (ql, [])" by (simp add: abs_input_def ty)
  then show ?thesis
    using assms \<open>ncommitted ?t = length ql\<close> ty
    by (simp add: console_ok_def cursor_ok_def INPUT_BUF_def del: length_typed)
qed

lemma edit_char_ok:
  assumes ok: "console_ok s"
  shows "\<exists>d t. edit_char c s = Some (d, t) \<and> console_ok t \<and> abs_input t = edit_spec c (abs_input s)"
proof -
  obtain q l where a: "abs_input s = (q, l)" by fastforce
  note len = abs_of_lengths [OF ok a]
  consider (listing) "c = 16" | (killed_line) "c = 21" | (rubout) "c = 8 \<or> c = 127"
    | (key) "c \<noteq> 16" "c \<noteq> 21" "c \<noteq> 8" "c \<noteq> 127" by blast
  then show ?thesis
  proof cases
    case listing
    then show ?thesis using ok a by (auto simp: edit_char_def edit_spec_def)
  next
    case killed_line
    then show ?thesis using kill_line_ok [OF ok] a by (auto simp: edit_char_def edit_spec_def)
  next
    case rubout
    show ?thesis
    proof (cases "in_e s = in_w s")
      case True
      then have "l = []" using a by (auto simp: abs_input_def ncommitted_def)
      then show ?thesis using rubout True ok a by (auto simp: edit_char_def edit_spec_def)
    next
      case False
      then show ?thesis using rubout erase_ok [OF ok False] a by (auto simp: edit_char_def edit_spec_def)
    qed
  next
    case key
    have rm: "in_e s - in_r s < of_nat INPUT_BUF \<longleftrightarrow> length q + length l < 128"
      by (simp add: word_less_nat_alt INPUT_BUF_def len)
    show ?thesis
    proof (cases "c \<noteq> 0 \<and> length q + length l < 128")
      case False
      then show ?thesis using key ok a rm by (auto simp: edit_char_def edit_spec_def)
    next
      case True
      define c' where "c' = (if c = 13 then 10 else c)"
      let ?s1 = "s\<lparr>in_buf := (in_buf s)(unat (in_e s) mod INPUT_BUF := c'), in_e := in_e s + 1\<rparr>"
      obtain t where t: "consputc (Some c') ?s1 = Some t" "\<not> panicked t" "cursor_ok t" "typed t = q @ l @ [c']"
          "ncommitted t = length q"
        using type_ok [OF ok a conjunct2 [OF True], of c'] by blast
      have lt: "unat (in_e t - in_r t) = length q + length l + 1" using arg_cong [OF t(4), of length] by simp
      have full: "in_e t = in_r t + of_nat INPUT_BUF \<longleftrightarrow> length q + length (l @ [c']) = 128"
      proof -
        have "in_e t = in_r t + of_nat INPUT_BUF \<longleftrightarrow> in_e t - in_r t = 128" by (simp add: INPUT_BUF_def diff_eq_eq add.commute)
        also have "\<dots> \<longleftrightarrow> unat (in_e t - in_r t) = 128" by (simp add: word_unat_eq_iff)
        finally show ?thesis by (simp add: lt)
      qed
      let ?commit = "c' = 10 \<or> c' = 4 \<or> length q + length (l @ [c']) = 128"
      have e: "edit_char c s = Some (False, if ?commit then t\<lparr>in_w := in_e t, in_wakeup := True\<rparr> else t)"
        unfolding edit_char_def c'_def [symmetric] Let_def full [symmetric] using key True rm t(1) by simp
      have sp: "edit_spec c (abs_input s) = (if ?commit then (q @ l @ [c'], []) else (q, l @ [c']))"
        unfolding edit_spec_def c'_def [symmetric] Let_def a using key True by simp
      show ?thesis
      proof (cases ?commit)
        case True
        show ?thesis
          unfolding e sp if_P [OF True] using commit_ok [OF t(2,3,4)] lt \<open>c \<noteq> 0 \<and> length q + length l < 128\<close> by auto
      next
        case f: False
        have at: "abs_input t = (q, l @ [c'])" unfolding abs_input_def t(4,5) by simp
        have "10 \<notin> set l" using ok a by (simp add: console_ok_def)
        then have "console_ok t"
          using t True f lt at by (auto simp: console_ok_def INPUT_BUF_def)
        then show ?thesis unfolding e sp if_not_P [OF f] using at by blast
      qed
    qed
  qed
qed

section \<open>Reading the committed lines\<close>

lemma typed_read:
  assumes "in_r s \<noteq> in_e s"
  shows "typed s = in_buf s (unat (in_r s) mod INPUT_BUF) # typed (s\<lparr>in_r := in_r s + 1\<rparr>)"
proof -
  let ?k = "unat (in_e s - in_r s)"
  have k: "?k = Suc (unat (in_e s - (in_r s + 1)))" by (rule offset_Suc) (use assms in simp)
  have i: "(unat (in_r s + 1) + i) mod 128 = (unat (in_r s) + Suc i) mod 128" for i
    using input_index [of "in_r s" 1] by (metis One_nat_def add.assoc mod_add_left_eq of_nat_1 plus_1_eq_Suc)
  show ?thesis
    unfolding typed_def k upt_conv_Cons [OF zero_less_Suc] by (simp add: INPUT_BUF_def i map_Suc_upt [symmetric] comp_def del: upt_Suc)
qed

lemma ncommitted_read:
  assumes "in_r s \<noteq> in_w s"
  shows "ncommitted s = Suc (ncommitted (s\<lparr>in_r := in_r s + 1\<rparr>))"
  using offset_Suc [of "in_w s" "in_r s"] assms by (simp add: ncommitted_def)

lemma read_char:
  assumes ok: "console_ok s" and ne: "in_r s \<noteq> in_w s"
  shows "fst (abs_input s) = in_buf s (unat (in_r s) mod INPUT_BUF) # fst (abs_input (s\<lparr>in_r := in_r s + 1\<rparr>))"
    and "snd (abs_input (s\<lparr>in_r := in_r s + 1\<rparr>)) = snd (abs_input s)"
    and "console_ok (s\<lparr>in_r := in_r s + 1\<rparr>)"
proof -
  let ?t = "s\<lparr>in_r := in_r s + 1\<rparr>"
  note nc = ncommitted_read [OF ne]
  have "in_r s \<noteq> in_e s" using ok nc by (auto simp: console_ok_def)
  note ty = typed_read [OF this]
  show 1: "fst (abs_input s) = in_buf s (unat (in_r s) mod INPUT_BUF) # fst (abs_input ?t)"
    by (simp add: abs_input_def nc ty)
  show 2: "snd (abs_input ?t) = snd (abs_input s)" by (simp add: abs_input_def nc ty)
  have "length (typed s) = Suc (length (typed ?t))" using arg_cong [OF ty, of length] by (simp only: list.size)
  then show "console_ok ?t" using ok nc 2 by (simp add: console_ok_def cursor_ok_def del: length_typed)
qed

text \<open>A read delivers committed characters in order: at most as many as asked, none after a newline, and never the ^D that ends it.\<close>

lemma consoleread_loop_ok:
  "console_ok s \<Longrightarrow> consoleread_loop target killed n s = (r, out, t) \<Longrightarrow>
    console_ok t \<and> snd (abs_input t) = snd (abs_input s) \<and> length out \<le> n \<and> 4 \<notin> set out \<and> 10 \<notin> set (butlast out) \<and>
    (fst (abs_input s) = out @ fst (abs_input t) \<or> fst (abs_input s) = out @ 4 # fst (abs_input t))"
proof (induction target killed n s arbitrary: r out t rule: consoleread_loop.induct)
  case (2 target killed n s)
  let ?c = "in_buf s (unat (in_r s) mod INPUT_BUF)" and ?s = "s\<lparr>in_r := in_r s + 1\<rparr>"
  show ?case
  proof (cases "in_r s = in_w s")
    case True
    then show ?thesis using 2 by (auto split: if_splits)
  next
    case False
    note rc = read_char [OF "2.prems"(1) False]
    consider (eof) "?c = 4" | (newline) "?c \<noteq> 4" "?c = 10" | (more) "?c \<noteq> 4" "?c \<noteq> 10" by blast
    then show ?thesis
    proof cases
      case eof
      have undo: "?s\<lparr>in_r := in_r ?s - 1\<rparr> = s" by simp
      have "out = []" "t = (if Suc n < target then s else ?s)"
        using "2.prems"(2) False eof by (auto simp: Let_def undo)
      then show ?thesis using rc eof "2.prems"(1) by (cases "Suc n < target") simp_all
    next
      case newline
      then have "out = [10]" "t = ?s" using "2.prems"(2) False by (auto simp: Let_def)
      then show ?thesis using rc newline by simp
    next
      case more
      obtain out' where o: "consoleread_loop target killed n ?s = (r, out', t)" "out = ?c # out'"
        using "2.prems"(2) False more by (auto simp: Let_def split: prod.splits)
      have "console_ok t \<and> snd (abs_input t) = snd (abs_input ?s) \<and> length out' \<le> n \<and> 4 \<notin> set out' \<and> 10 \<notin> set (butlast out') \<and>
          (fst (abs_input ?s) = out' @ fst (abs_input t) \<or> fst (abs_input ?s) = out' @ 4 # fst (abs_input t))"
        using "2.IH" [OF False refl refl _ _ rc(3) o(1)] more by simp
      then show ?thesis using rc(1,2) more o(2) by auto
    qed
  qed
qed simp

lemma consoleintr_edits:
  "console_ok s \<Longrightarrow> \<exists>d t. consoleintr cs s = Some (d, t) \<and> console_ok t \<and> abs_input t = fold edit_spec cs (abs_input s)"
proof (induction cs arbitrary: s)
  case (Cons c cs)
  obtain d t where "edit_char c s = Some (d, t)" "console_ok t" "abs_input t = edit_spec c (abs_input s)"
    using edit_char_ok [OF Cons.prems] by blast
  moreover obtain d' u where "consoleintr cs t = Some (d', u)" "console_ok u" "abs_input u = fold edit_spec cs (abs_input t)"
    using Cons.IH [OF calculation(2)] by blast
  ultimately show ?case by simp
qed auto

section \<open>Properties\<close>

definition console0 :: console where
  "console0 = \<lparr>panicked = False, crt = (\<lambda>_. 0), crt_pos = 0, uart_out = [], in_buf = (\<lambda>_. 0), in_r = 0, in_w = 0, in_e = 0, in_wakeup = False\<rparr>"

lemma console0_ok: "console_ok console0" "abs_input console0 = ([], [])"
  by (simp_all add: console_ok_def console0_def cursor_ok_def abs_input_def ncommitted_def typed_def)

text \<open>C34. The console's line editor, a ring of 128 bytes under three wrapping indices, behaves as two lists: the
  committed characters and the line being edited. Every sequence of keystrokes is handled without panic, with the cursor inside the
  display, and has on the two lists the effect of the editing functions: a printing key appends, backspace drops the last character of the
  line, ^U drops the line, and a newline, ^D or a full buffer commits it.\<close>

theorem console_editing:
  assumes "console_ok s"
  shows "\<exists>d t. consoleintr cs s = Some (d, t) \<and> console_ok t \<and> abs_input t = fold edit_spec cs (abs_input s)"
  using assms by (rule consoleintr_edits)

theorem console_editing_witness:
  "\<exists>d t. consoleintr [97, 98, 8, 99, 13] console0 = Some (d, t) \<and> abs_input t = ([97, 99, 10], [])"
proof -
  have "fold edit_spec [97, 98, 8, 99, 13] ([], []) = ([97, 99, 10], [])" by (simp add: edit_spec_def)
  then show ?thesis using console_editing [OF console0_ok(1), of "[97, 98, 8, 99, 13]"] console0_ok(2) by auto
qed

end
