(* ===== verification/Kbd.thy ===== *)
theory Kbd
  imports Console
begin

text \<open>
  The keyboard driver (\<^verbatim>\<open>kbd.c\<close>, \<^verbatim>\<open>kbd.h\<close>): a scan code and the modifier state give a character and
  the new modifier state. Characters are written as numbers. The status and data ports are the arguments.
\<close>

definition KBS_DIB :: u32 where "KBS_DIB = 1"
definition SHIFT :: u32 where "SHIFT = 1"
definition CTL :: u32 where "CTL = 2"
definition ALT :: u32 where "ALT = 4"
definition CAPSLOCK :: u32 where "CAPSLOCK = 8"
definition NUMLOCK :: u32 where "NUMLOCK = 16"
definition SCROLLLOCK :: u32 where "SCROLLLOCK = 32"
definition E0ESC :: u32 where "E0ESC = 64"

definition shiftcode :: "nat \<Rightarrow> u32" where
  "shiftcode d =
     (if d = 0x1D \<or> d = 0x9D then CTL
      else if d = 0x2A \<or> d = 0x36 then SHIFT
      else if d = 0x38 \<or> d = 0xB8 then ALT else 0)"

definition togglecode :: "nat \<Rightarrow> u32" where
  "togglecode d = (if d = 0x3A then CAPSLOCK else if d = 0x45 then NUMLOCK else if d = 0x46 then SCROLLLOCK else 0)"

text \<open>A C array with an initialised prefix and designated entries; every other entry is \<^verbatim>\<open>NO\<close>, 0.\<close>

definition key_table :: "u8 list \<Rightarrow> (nat \<times> u8) list \<Rightarrow> nat \<Rightarrow> u8" where
  "key_table row special d =
     (if d < length row then row ! d else case map_of special d of Some c \<Rightarrow> c | None \<Rightarrow> 0)"

definition normalmap :: "nat \<Rightarrow> u8" where
  "normalmap = key_table
    [0, 27, 49, 50, 51, 52, 53, 54, 55, 56, 57, 48, 45, 61, 8, 9,
     113, 119, 101, 114, 116, 121, 117, 105, 111, 112, 91, 93, 10, 0, 97, 115,
     100, 102, 103, 104, 106, 107, 108, 59, 39, 96, 0, 92, 122, 120, 99, 118,
     98, 110, 109, 44, 46, 47, 0, 42, 0, 32, 0, 0, 0, 0, 0, 0,
     0, 0, 0, 0, 0, 0, 0, 55, 56, 57, 45, 52, 53, 54, 43, 49,
     50, 51, 48, 46, 0, 0, 0, 0]
    [(156, 10), (181, 47), (200, 226), (208, 227), (201, 230), (209, 231), (203, 228), (205, 229),
     (151, 224), (207, 225), (210, 232), (211, 233)]"

definition shiftmap :: "nat \<Rightarrow> u8" where
  "shiftmap = key_table
    [0, 27, 33, 64, 35, 36, 37, 94, 38, 42, 40, 41, 95, 43, 8, 9,
     81, 87, 69, 82, 84, 89, 85, 73, 79, 80, 123, 125, 10, 0, 65, 83,
     68, 70, 71, 72, 74, 75, 76, 58, 34, 126, 0, 124, 90, 88, 67, 86,
     66, 78, 77, 60, 62, 63, 0, 42, 0, 32, 0, 0, 0, 0, 0, 0,
     0, 0, 0, 0, 0, 0, 0, 55, 56, 57, 45, 52, 53, 54, 43, 49,
     50, 51, 48, 46, 0, 0, 0, 0]
    [(156, 10), (181, 47), (200, 226), (208, 227), (201, 230), (209, 231), (203, 228), (205, 229),
     (151, 224), (207, 225), (210, 232), (211, 233)]"

definition ctlmap :: "nat \<Rightarrow> u8" where
  "ctlmap = key_table
    [0, 0, 0, 0, 0, 0, 0, 0, 0, 0, 0, 0, 0, 0, 0, 0,
     17, 23, 5, 18, 20, 25, 21, 9, 15, 16, 0, 0, 13, 0, 1, 19,
     4, 6, 7, 8, 10, 11, 12, 0, 0, 0, 0, 28, 26, 24, 3, 22,
     2, 14, 13, 0, 0, 239, 0, 0]
    [(156, 13), (181, 239), (200, 226), (208, 227), (201, 230), (209, 231), (203, 228), (205, 229),
     (151, 224), (207, 225), (210, 232), (211, 233)]"

definition charcode :: "u32 \<Rightarrow> nat \<Rightarrow> u8" where
  "charcode mods = (if mods = 0 then normalmap else if mods = SHIFT then shiftmap else ctlmap)"

text \<open>\<open>kbdgetc\<close> on the contents of the two ports; the result is -1 without data and 0 for a key that gives no character.\<close>

definition kbdgetc :: "u8 \<Rightarrow> u8 \<Rightarrow> u32 \<Rightarrow> int \<times> u32" where
  "kbdgetc st data shift =
     (if (ucast st :: u32) AND KBS_DIB = 0 then (- 1, shift)
      else if data = 0xE0 then (0, shift OR E0ESC)
      else if data AND 0x80 \<noteq> 0 then
        let d = (if shift AND E0ESC \<noteq> 0 then data else data AND 0x7F)
        in (0, shift AND NOT (shiftcode (unat d) OR E0ESC))
      else
        let esc = (shift AND E0ESC \<noteq> 0);
            d = unat (if esc then data OR 0x80 else data);
            sh1 = (if esc then shift AND NOT E0ESC else shift);
            sh2 = (sh1 OR shiftcode d) XOR togglecode d;
            c = charcode (sh2 AND (CTL OR SHIFT)) d
        in (if sh2 AND CAPSLOCK \<noteq> 0 then
              (if 97 \<le> c \<and> c \<le> 122 then uint c - 32
               else if 65 \<le> c \<and> c \<le> 90 then uint c + 32 else uint c)
            else uint c, sh2))"

text \<open>The characters that a sequence of scan codes delivers to \<open>consoleintr\<close>.\<close>

fun kbd_chars :: "u8 list \<Rightarrow> u32 \<Rightarrow> u8 list \<times> u32" where
  "kbd_chars [] shift = ([], shift)"
| "kbd_chars (d # ds) shift =
     (case kbdgetc 1 d shift of (c, sh1) \<Rightarrow>
        case kbd_chars ds sh1 of (cs, sh2) \<Rightarrow> (word_of_int c # cs, sh2))"

definition kbdintr :: "u8 list \<Rightarrow> u32 \<Rightarrow> console \<Rightarrow> ((bool \<times> console) \<times> u32) option" where
  "kbdintr ds shift s =
     (case kbd_chars ds shift of (cs, sh) \<Rightarrow> map_option (\<lambda>r. (r, sh)) (consoleintr cs s))"

section \<open>Modifiers\<close>

lemmas kbd_consts = KBS_DIB_def SHIFT_def CTL_def ALT_def CAPSLOCK_def NUMLOCK_def SCROLLLOCK_def E0ESC_def shiftcode_def togglecode_def

text \<open>Pressing and releasing a modifier key, plain or with the escape code, changes exactly its bit; a locking key toggles its bit.\<close>

lemma shift_press_release:
  "snd (kbdgetc 1 0x2A 0) = SHIFT" "snd (kbdgetc 1 0xAA SHIFT) = 0"
  "snd (kbd_chars [0xE0, 0x1D] 0) = CTL" "snd (kbd_chars [0xE0, 0x9D] CTL) = 0"
  "snd (kbd_chars [0x3A, 0xBA] 0) = CAPSLOCK" "snd (kbd_chars [0x3A, 0xBA] CAPSLOCK) = 0"
  by (simp_all add: kbdgetc_def Let_def kbd_consts)

text \<open>The letter a, plain, with shift, with caps lock, and with both.\<close>

lemma letter_tables: "normalmap 0x1E = 97" "shiftmap 0x1E = 65"
  by (simp_all add: normalmap_def shiftmap_def key_table_def)

lemma letter_case:
  "fst (kbdgetc 1 0x1E 0) = 97" "fst (kbdgetc 1 0x1E SHIFT) = 65"
  "fst (kbdgetc 1 0x1E CAPSLOCK) = 65" "fst (kbdgetc 1 0x1E (CAPSLOCK OR SHIFT)) = 97"
  by (simp_all add: kbdgetc_def Let_def kbd_consts charcode_def letter_tables)

text \<open>Keys without a character deliver 0, which the line editor ignores, so an interrupt acts on the console as the editing functions do.\<close>

lemma kbdintr_edits:
  "console_ok s \<Longrightarrow> \<exists>r t sh. kbdintr ds shift s = Some ((r, t), sh) \<and> console_ok t \<and>
    abs_input t = fold edit_spec (fst (kbd_chars ds shift)) (abs_input s)"
proof -
  assume "console_ok s"
  then obtain d t where "consoleintr (fst (kbd_chars ds shift)) s = Some (d, t)" "console_ok t"
      "abs_input t = fold edit_spec (fst (kbd_chars ds shift)) (abs_input s)"
    using consoleintr_edits by blast
  then show ?thesis by (auto simp: kbdintr_def split: prod.splits)
qed

end
