(* ===== verification/Umalloc.thy ===== *)
theory Umalloc
  imports Words
begin

text \<open>
  The memory allocator of the user library (\<^verbatim>\<open>umalloc.c\<close>) on the break of a process as \<open>growproc\<close> of Part B moves it. A header is eight
  bytes, a next pointer and a size in units of eight bytes that counts the header. \<open>hptr\<close> and \<open>hsize\<close> are
  the memory seen as headers. Pointers are words, and the products by the size of a
  header wrap. The address of the static \<^verbatim>\<open>base\<close> is an argument. The search loops are \<open>partial_function\<close>s.
\<close>

section \<open>Program\<close>

record heap =
  hptr :: "u32 \<Rightarrow> u32"
  hsize :: "u32 \<Rightarrow> u32"
  freep :: u32
  brk :: u32

text \<open>\<open>sbrk\<close>: the old break, or -1. The break only ever grows.\<close>

definition sbrk :: "u32 \<Rightarrow> heap \<Rightarrow> u32 \<times> heap" where
  "sbrk n h = (if sint n < 0 \<or> brk h + n > 0x80000000 then (- 1, h) else (brk h, h\<lparr>brk := brk h + n\<rparr>))"

definition set_ptr :: "u32 \<Rightarrow> u32 \<Rightarrow> heap \<Rightarrow> heap" where
  "set_ptr a v h = h\<lparr>hptr := (hptr h)(a := v)\<rparr>"

definition set_size :: "u32 \<Rightarrow> u32 \<Rightarrow> heap \<Rightarrow> heap" where
  "set_size a v h = h\<lparr>hsize := (hsize h)(a := v)\<rparr>"

text \<open>The search of \<open>free\<close> for the block after which \<open>bp\<close> belongs.\<close>

partial_function (option) free_loop :: "u32 \<Rightarrow> u32 \<Rightarrow> heap \<Rightarrow> u32 option" where
  "free_loop bp p h =
     (if bp > p \<and> bp < hptr h p then Some p
      else if p \<ge> hptr h p \<and> (bp > p \<or> bp < hptr h p) then Some p
      else free_loop bp (hptr h p) h)"

definition free_upper :: "u32 \<Rightarrow> u32 \<Rightarrow> heap \<Rightarrow> heap" where
  "free_upper bp p h =
     (if bp + 8 * hsize h bp = hptr h p then
        set_ptr bp (hptr h (hptr h p)) (set_size bp (hsize h bp + hsize h (hptr h p)) h)
      else set_ptr bp (hptr h p) h)"

definition free_lower :: "u32 \<Rightarrow> u32 \<Rightarrow> heap \<Rightarrow> heap" where
  "free_lower bp p h =
     (if p + 8 * hsize h p = bp then set_ptr p (hptr h bp) (set_size p (hsize h p + hsize h bp) h)
      else set_ptr p bp h)"

definition free :: "u32 \<Rightarrow> heap \<Rightarrow> heap option" where
  "free ap h = do {
     let bp = ap - 8;
     p \<leftarrow> free_loop bp (freep h) h;
     Some ((free_lower bp p (free_upper bp p h))\<lparr>freep := p\<rparr>)
   }"

definition morecore :: "u32 \<Rightarrow> heap \<Rightarrow> (u32 \<times> heap) option" where
  "morecore nu h = do {
     let nu' = (if nu < 4096 then 4096 else nu);
     let (p, h1) = sbrk (nu' * 8) h;
     if p = - 1 then Some (0, h1)
     else do {
       h2 \<leftarrow> free (p + 8) (set_size p nu' h1);
       Some (freep h2, h2)
     }
   }"

text \<open>Taking \<open>n\<close> units from block \<open>p\<close>, the whole block or its upper end.\<close>

definition take_units :: "u32 \<Rightarrow> u32 \<Rightarrow> u32 \<Rightarrow> heap \<Rightarrow> u32 \<times> heap" where
  "take_units n prevp p h =
     (if hsize h p = n then (p, (set_ptr prevp (hptr h p) h)\<lparr>freep := prevp\<rparr>)
      else let h1 = set_size p (hsize h p - n) h;
               q = p + 8 * hsize h1 p
        in (q, (set_size q n h1)\<lparr>freep := prevp\<rparr>))"

partial_function (option) malloc_loop :: "u32 \<Rightarrow> u32 \<Rightarrow> u32 \<Rightarrow> heap \<Rightarrow> (u32 \<times> heap) option" where
  "malloc_loop n prevp p h =
     (if hsize h p \<ge> n then (case take_units n prevp p h of (q, h1) \<Rightarrow> Some (q + 8, h1))
      else if p = freep h then
        (case morecore n h of
           None \<Rightarrow> None
         | Some (p', h1) \<Rightarrow> if p' = 0 then Some (0, h1) else malloc_loop n p' (hptr h1 p') h1)
      else malloc_loop n p (hptr h p) h)"

definition malloc_units :: "u32 \<Rightarrow> u32" where
  "malloc_units nbytes = (nbytes + 8 - 1) div 8 + 1"

definition malloc :: "u32 \<Rightarrow> u32 \<Rightarrow> heap \<Rightarrow> (u32 \<times> heap) option" where
  "malloc base nbytes h =
     (let h1 = (if freep h = 0 then (set_size base 0 (set_ptr base base h))\<lparr>freep := base\<rparr> else h)
      in malloc_loop (malloc_units nbytes) (freep h1) (hptr h1 (freep h1)) h1)"

section \<open>The free list\<close>

text \<open>\<open>ext h x\<close> is the first address after block \<open>x\<close>.\<close>

definition ext :: "heap \<Rightarrow> u32 \<Rightarrow> nat" where
  "ext h x = unat x + 8 * unat (hsize h x)"

definition next_ok :: "heap \<Rightarrow> u32 \<Rightarrow> u32 \<Rightarrow> bool" where
  "next_ok h x y \<longleftrightarrow> hptr h x = y \<and> x < y \<and> ext h x \<le> unat y"

text \<open>The circular list of free blocks: from \<^verbatim>\<open>base\<close> upwards through non-empty blocks of the heap, which starts at \<open>lo\<close>, and back.\<close>

definition chain_ok :: "u32 \<Rightarrow> u32 \<Rightarrow> heap \<Rightarrow> u32 list \<Rightarrow> bool" where
  "chain_ok base lo h ns \<longleftrightarrow>
     ns \<noteq> [] \<and> hd ns = base \<and> successively (next_ok h) ns \<and> hptr h (last ns) = base \<and>
     hsize h base = 0 \<and> (\<forall>x \<in> set (tl ns). lo \<le> x \<and> hsize h x \<noteq> 0) \<and> ext h (last ns) \<le> unat (brk h) \<and>
     base < lo \<and> base \<noteq> 0 \<and> lo \<le> brk h \<and> brk h \<le> 0x80000000"

definition area :: "heap \<Rightarrow> u32 \<Rightarrow> nat set" where
  "area h x = {unat x ..< ext h x}"

definition free_area :: "heap \<Rightarrow> u32 list \<Rightarrow> nat set" where
  "free_area h ns = (\<Union>x \<in> set ns. area h x)"

text \<open>Consequences of the order: addresses increase along the list.\<close>

lemma chain_sorted:
  assumes "chain_ok base lo h ns"
  shows "sorted_wrt (\<lambda>x y. x < y \<and> ext h x \<le> unat y) ns"
proof -
  have "successively (\<lambda>x y. x < y \<and> ext h x \<le> unat y) ns"
    using assms by (auto simp: chain_ok_def next_ok_def elim!: successively_mono)
  moreover have "transp (\<lambda>x y. x < y \<and> ext h x \<le> unat y)"
    by (rule transpI) (auto simp: ext_def)
  ultimately show ?thesis by (simp add: successively_conv_sorted_wrt)
qed

lemma chain_split:
  assumes "chain_ok base lo h (us @ x # ys)"
  shows "\<And>u. u \<in> set us \<Longrightarrow> u < x \<and> ext h u \<le> unat x" and "\<And>y. y \<in> set ys \<Longrightarrow> x < y \<and> ext h x \<le> unat y"
  using chain_sorted [OF assms] by (auto simp: sorted_wrt_append)

lemma chain_next: "chain_ok base lo h (us @ x # y # ys) \<Longrightarrow> hptr h x = y"
  by (auto simp: chain_ok_def successively_append_iff next_ok_def)

lemma chain_last: "chain_ok base lo h (us @ [x]) \<Longrightarrow> hptr h x = base"
  by (simp add: chain_ok_def)

lemma chain_base_le: "chain_ok base lo h ns \<Longrightarrow> x \<in> set ns \<Longrightarrow> base \<le> x"
  by (cases ns) (auto simp: chain_ok_def)

section \<open>The search of free\<close>

definition search_stop :: "u32 \<Rightarrow> heap \<Rightarrow> u32 \<Rightarrow> bool" where
  "search_stop bp h p \<longleftrightarrow> (bp > p \<and> bp < hptr h p) \<or> (p \<ge> hptr h p \<and> (bp > p \<or> bp < hptr h p))"

lemma free_loop_stop: "search_stop bp h p \<Longrightarrow> free_loop bp p h = Some p"
  by (subst free_loop.simps) (auto simp: search_stop_def)

lemma free_loop_go: "\<not> search_stop bp h p \<Longrightarrow> free_loop bp p h = free_loop bp (hptr h p) h"
  by (subst free_loop.simps) (auto simp: search_stop_def)

lemma free_loop_walk:
  "successively (\<lambda>x y. hptr h x = y \<and> \<not> search_stop bp h x) zs \<Longrightarrow> zs \<noteq> [] \<Longrightarrow>
    free_loop bp (hd zs) h = free_loop bp (last zs) h"
proof (induction zs rule: induct_list012)
  case (3 x y zs)
  then show ?case using free_loop_go [of bp h x] by auto
qed simp_all

lemma chain_segment:
  assumes "chain_ok base lo h (us @ zs @ ys)" and "\<And>x y. x \<in> set zs \<Longrightarrow> y \<in> set zs \<Longrightarrow> x < y \<Longrightarrow> hptr h x = y \<Longrightarrow> Q x y"
  shows "successively (\<lambda>x y. hptr h x = y \<and> Q x y) zs"
proof -
  have "successively (next_ok h) zs" using assms(1) by (auto simp: chain_ok_def successively_append_iff)
  then show ?thesis by (rule successively_mono) (use assms(2) in \<open>auto simp: next_ok_def\<close>)
qed

lemma free_loop_finds:
  assumes c: "chain_ok base lo h (us @ p # ys)" and p: "p < bp" and ys: "\<And>y. y \<in> set ys \<Longrightarrow> bp < y"
    and r: "r \<in> set (us @ p # ys)"
  shows "free_loop bp r h = Some p"
proof -
  note sp = chain_split [OF c]
  have base: "base \<le> p" by (rule chain_base_le [OF c]) simp
  have "search_stop bp h p"
  proof (cases ys)
    case Nil
    then show ?thesis using chain_last [of base lo h us p] c p base by (auto simp: search_stop_def)
  next
    case (Cons y zs)
    then show ?thesis using chain_next [of base lo h us p y zs] c p ys by (auto simp: search_stop_def)
  qed
  then have at_p: "free_loop bp p h = Some p" by (rule free_loop_stop)
  have below: "free_loop bp q h = Some p" if q: "q \<in> set (us @ [p])" for q
  proof -
    obtain u1 u2 where u: "us @ [p] = u1 @ q # u2" using split_list [OF q] by blast
    have lt: "x < bp" if "x \<in> set (q # u2)" for x
    proof -
      have "x \<in> set (us @ [p])" unfolding u using that by auto
      then show ?thesis using sp(1) [of x] p by auto
    qed
    have "us @ p # ys = (us @ [p]) @ ys" by simp
    also have "\<dots> = u1 @ (q # u2) @ ys" unfolding u by simp
    finally have "chain_ok base lo h (u1 @ (q # u2) @ ys)" using c by (simp only:)
    then have "successively (\<lambda>x y. hptr h x = y \<and> \<not> search_stop bp h x) (q # u2)"
      by (rule chain_segment) (use lt in \<open>fastforce simp: search_stop_def\<close>)
    from free_loop_walk [OF this] have "free_loop bp q h = free_loop bp (last (q # u2)) h" by simp
    moreover have "last (q # u2) = p" using arg_cong [OF u, of last] by simp
    ultimately show ?thesis using at_p by simp
  qed
  show ?thesis
  proof (cases "r \<in> set ys")
    case False
    then show ?thesis using r below by auto
  next
    case True
    then obtain y1 y2 where y: "ys = y1 @ r # y2" using split_list by fast
    let ?z = "last (r # y2)"
    have gt: "bp < x" if "x \<in> set (r # y2)" for x using ys [of x] that y by auto
    have "chain_ok base lo h ((us @ p # y1) @ (r # y2) @ [])" using c y by simp
    then have "successively (\<lambda>x y. hptr h x = y \<and> \<not> search_stop bp h x) (r # y2)"
      by (rule chain_segment) (use gt in \<open>fastforce simp: search_stop_def\<close>)
    from free_loop_walk [OF this] have w: "free_loop bp r h = free_loop bp ?z h" by simp
    have "hptr h ?z = base" using c y by (auto simp: chain_ok_def)
    moreover have "\<not> bp > ?z"
    proof -
      have "bp < ?z" by (rule gt) (rule last_in_set, simp)
      then show ?thesis by simp
    qed
    moreover have "\<not> bp < base" using base p by simp
    ultimately have "\<not> search_stop bp h ?z" unfolding search_stop_def by (metis (full_types))
    then have "free_loop bp ?z h = free_loop bp (hptr h ?z) h" by (rule free_loop_go)
    then have "free_loop bp ?z h = free_loop bp base h" unfolding \<open>hptr h ?z = base\<close> .
    moreover have "base \<in> set (us @ [p])" using c by (cases us) (auto simp: chain_ok_def)
    ultimately show ?thesis using w below by simp
  qed
qed

section \<open>Joining\<close>

text \<open>Linking a block in, and joining a block with the one behind it; \<open>free\<close> is made of these.\<close>

definition link_in :: "u32 \<Rightarrow> u32 \<Rightarrow> heap \<Rightarrow> heap" where
  "link_in bp p h = set_ptr p bp (set_ptr bp (hptr h p) h)"

definition join :: "u32 \<Rightarrow> heap \<Rightarrow> heap" where
  "join x h = set_ptr x (hptr h (hptr h x)) (set_size x (hsize h x + hsize h (hptr h x)) h)"

lemma heap_updates [simp]:
  "hptr (set_ptr a v h) = (hptr h)(a := v)" "hsize (set_ptr a v h) = hsize h"
  "hptr (set_size a v h) = hptr h" "hsize (set_size a v h) = (hsize h)(a := v)"
  "brk (set_ptr a v h) = brk h" "brk (set_size a v h) = brk h"
  "freep (set_ptr a v h) = freep h" "freep (set_size a v h) = freep h"
  by (simp_all add: set_ptr_def set_size_def)

lemma free_is_joins:
  assumes "p \<noteq> bp" and "hptr h p \<noteq> bp" and "bp + 8 * hsize h bp = hptr h p \<Longrightarrow> hptr h p \<noteq> p"
  shows "free_lower bp p (free_upper bp p h) =
    (let h0 = link_in bp p h;
         h1 = (if bp + 8 * hsize h bp = hptr h p then join bp h0 else h0)
     in if p + 8 * hsize h p = bp then join p h1 else h1)"
  using assms
  by (cases h) (auto simp: free_lower_def free_upper_def link_in_def join_def Let_def set_ptr_def set_size_def fun_eq_iff)

definition same_at :: "heap \<Rightarrow> heap \<Rightarrow> u32 set \<Rightarrow> bool" where
  "same_at h h' X \<longleftrightarrow> (\<forall>x \<in> X. hptr h' x = hptr h x \<and> hsize h' x = hsize h x)"

lemma successively_frame:
  "same_at h h' (set ns) \<Longrightarrow> successively (next_ok h) ns \<Longrightarrow> successively (next_ok h') ns"
  by (erule successively_mono) (auto simp: next_ok_def ext_def same_at_def)

lemma ext_frame: "same_at h h' X \<Longrightarrow> x \<in> X \<Longrightarrow> ext h' x = ext h x"
  by (simp add: same_at_def ext_def)

lemma area_frame: "same_at h h' X \<Longrightarrow> x \<in> X \<Longrightarrow> area h' x = area h x"
  by (simp add: area_def ext_frame)

lemma free_area_frame: "same_at h h' (set ns) \<Longrightarrow> free_area h' ns = free_area h ns"
  by (auto simp: free_area_def area_frame)

lemma same_at_mono: "same_at h h' X \<Longrightarrow> Y \<subseteq> X \<Longrightarrow> same_at h h' Y"
  by (auto simp: same_at_def)

lemma chain_cong:
  assumes "chain_ok base lo h ns" and s: "same_at h h' (set ns)" and "brk h \<le> brk h'" and "brk h' \<le> 0x80000000"
  shows "chain_ok base lo h' ns"
proof -
  have m: "last ns \<in> set ns" "base \<in> set ns" "set (tl ns) \<subseteq> set ns"
    using assms(1) by (auto simp: chain_ok_def intro: list.set_sel)
  have "ext h' (last ns) \<le> unat (brk h')"
    using assms(1,3) ext_frame [OF s m(1)] by (simp add: chain_ok_def word_le_nat_alt)
  then show ?thesis
    using assms(1,3,4) m s successively_frame [OF s] unfolding chain_ok_def same_at_def by (auto 4 3)
qed

lemma chain_ext:
  assumes "chain_ok base lo h ns" and "x \<in> set ns"
  shows "ext h x \<le> unat (brk h)"
proof -
  obtain us ys where ns: "ns = us @ x # ys" using split_list [OF assms(2)] by blast
  show ?thesis
  proof (cases "ys = []")
    case True
    then show ?thesis using assms(1) ns by (simp add: chain_ok_def)
  next
    case False
    then have "last ys \<in> set ys" "last ns = last ys" using ns by auto
    then have "ext h x \<le> unat (last ys)" using chain_split(2) [of base lo h us x ys] assms(1) ns by blast
    moreover have "unat (last ys) \<le> ext h (last ys)" by (simp add: ext_def)
    ultimately show ?thesis using assms(1) \<open>last ns = last ys\<close> by (simp add: chain_ok_def)
  qed
qed

lemma chain_bounds:
  assumes "chain_ok base lo h ns" and "x \<in> set ns"
  shows "unat x + 8 * unat (hsize h x) \<le> 2 ^ 31"
proof -
  have "unat (brk h) \<le> 2 ^ 31" using assms(1) by (simp add: chain_ok_def word_le_nat_alt)
  then show ?thesis using chain_ext [OF assms] by (simp add: ext_def)
qed

lemma chain_base:
  assumes "chain_ok base lo h (us @ x # ys)"
  shows "us = [] \<longleftrightarrow> x = base" and "y \<in> set ys \<Longrightarrow> lo \<le> y \<and> hsize h y \<noteq> 0 \<and> y \<noteq> base"
    and "us \<noteq> [] \<Longrightarrow> lo \<le> x \<and> hsize h x \<noteq> 0"
  using assms by (cases us; auto simp: chain_ok_def)+

lemma link_in_ok:
  assumes c: "chain_ok base lo h (us @ p # ys)" and p: "p < bp" "ext h p \<le> unat bp" and lo: "lo \<le> bp" "hsize h bp \<noteq> 0"
    and ys: "\<And>y. y \<in> set ys \<Longrightarrow> bp < y \<and> ext h bp \<le> unat y" and e: "ext h bp \<le> unat (brk h)"
  shows "chain_ok base lo (link_in bp p h) (us @ p # bp # ys)"
    and "free_area (link_in bp p h) (us @ p # bp # ys) = area h bp \<union> free_area h (us @ p # ys)"
proof -
  let ?h = "link_in bp p h"
  have hs: "hsize ?h = hsize h" "brk ?h = brk h" "\<And>x. ext ?h x = ext h x" by (simp_all add: link_in_def ext_def)
  have nin: "u < p" if "u \<in> set us" for u using chain_split(1) [OF c that] by simp
  have ptr: "hptr ?h p = bp" "hptr ?h bp = hptr h p" "\<And>x. x \<noteq> p \<Longrightarrow> x \<noteq> bp \<Longrightarrow> hptr ?h x = hptr h x"
    using p by (auto simp: link_in_def)
  have same: "same_at h ?h (set us)" "same_at h ?h (set ys)"
    using nin ys p unfolding same_at_def by (metis ptr(3) hs(1) order_less_asym' order_less_irrefl order_less_trans)+
  have s: "successively (next_ok h) us" "successively (next_ok h) ys"
    using c by (auto simp: chain_ok_def successively_append_iff successively_Cons)
  note su = successively_frame [OF same(1) s(1)] and sy = successively_frame [OF same(2) s(2)]
  have up: "us = [] \<or> next_ok ?h (last us) p"
  proof (cases "us = []")
    case False
    then have "last us \<in> set us" by simp
    then have "hptr ?h (last us) = hptr h (last us)" using nin p ptr by (metis order_less_asym' order_less_irrefl)
    moreover have "next_ok h (last us) p" using c False by (simp add: chain_ok_def successively_append_iff)
    ultimately show ?thesis by (simp add: next_ok_def hs)
  qed simp
  have down: "ys = [] \<or> next_ok ?h bp (hd ys)"
  proof (cases ys)
    case (Cons y zs)
    have "hptr h p = y" using chain_next [of base lo h us p y zs] c Cons by simp
    then show ?thesis using ys [of y] Cons by (simp add: next_ok_def hs ptr)
  qed simp
  have "hptr ?h (last (bp # ys)) = base"
  proof (cases ys rule: rev_cases)
    case Nil
    then show ?thesis using chain_last [of base lo h us p] c by (simp add: ptr)
  next
    case (snoc zs z)
    have "bp < z" using ys [of z] snoc by simp
    moreover have "hptr h z = base" using chain_last [of base lo h "us @ p # zs" z] c snoc by simp
    ultimately show ?thesis using snoc p ptr by (simp add: less_imp_neq [symmetric])
  qed
  moreover have "ext h (last (bp # ys)) \<le> unat (brk h)"
    using e chain_ext [OF c, of "last ys"] by (cases "ys = []") simp_all
  moreover have "next_ok ?h p bp" using p by (simp add: next_ok_def hs ptr)
  moreover have "hd (us @ p # bp # ys) = base" "hsize h base = 0"
    using c by (cases us; simp add: chain_ok_def)+
  moreover have "\<forall>x \<in> set (tl (us @ p # bp # ys)). lo \<le> x \<and> hsize h x \<noteq> 0"
    using c lo by (cases us) (auto simp: chain_ok_def)
  ultimately show "chain_ok base lo ?h (us @ p # bp # ys)"
    using c su sy up down unfolding chain_ok_def hs by (simp add: successively_append_iff successively_Cons)
  show "free_area ?h (us @ p # bp # ys) = area h bp \<union> free_area h (us @ p # ys)"
    by (auto simp: free_area_def area_def hs)
qed

lemma join_ok:
  assumes c: "chain_ok base lo h (us @ x # y # ys)" and adj: "ext h x = unat y" and us: "us \<noteq> []"
  shows "chain_ok base lo (join x h) (us @ x # ys)"
    and "free_area (join x h) (us @ x # ys) = free_area h (us @ x # y # ys)"
    and "area (join x h) x = area h x \<union> area h y"
proof -
  let ?h = "join x h"
  have c': "chain_ok base lo h ((us @ [x]) @ y # ys)" using c by simp
  have py: "hptr h x = y" using chain_next [OF c] .
  have lt: "u < x" if "u \<in> set us" for u using chain_split(1) [OF c that] by simp
  have gt: "y < z \<and> ext h y \<le> unat z" if "z \<in> set ys" for z using chain_split(2) [OF c' that] .
  have xy: "x < y" using chain_split(2) [OF c, of y] by simp
  have xpos: "lo \<le> x" "hsize h x \<noteq> 0" using chain_base(3) [OF c us] by auto
  have sz: "unat (hsize h x + hsize h y) = unat (hsize h x) + unat (hsize h y)"
    using chain_bounds [OF c, of x] chain_bounds [OF c, of y] by (simp add: unat_word_ariths)
  have hx: "hsize ?h = (hsize h)(x := hsize h x + hsize h y)" "hptr ?h = (hptr h)(x := hptr h y)" "brk ?h = brk h"
    using py xy by (auto simp: join_def)
  have ex: "ext ?h x = ext h y" using adj sz by (simp add: ext_def hx)
  have nx: "x \<notin> set us" "x \<notin> set ys" using lt gt [of x] xy by (blast, auto)
  then have same: "same_at h ?h (set us)" "same_at h ?h (set ys)"
    by (auto simp: same_at_def hx)
  have s: "successively (next_ok h) us" "successively (next_ok h) ys"
    using c by (auto simp: chain_ok_def successively_append_iff successively_Cons)
  note su = successively_frame [OF same(1) s(1)] and sy = successively_frame [OF same(2) s(2)]
  have lu: "last us \<in> set us" "next_ok h (last us) x"
    using c us by (auto simp: chain_ok_def successively_append_iff)
  have up: "next_ok ?h (last us) x"
    using lu same(1) unfolding next_ok_def same_at_def ext_def by auto
  have down: "ys = [] \<or> next_ok ?h x (hd ys)"
  proof (cases ys)
    case (Cons z zs)
    have "hptr h y = z" using chain_next [of base lo h "us @ [x]" y z zs] c' Cons by simp
    then show ?thesis using gt [of z] Cons xy ex by (auto simp: next_ok_def hx)
  qed simp
  have lasts: "hptr ?h (last (x # ys)) = base \<and> ext ?h (last (x # ys)) \<le> unat (brk h)"
  proof (cases ys rule: rev_cases)
    case Nil
    then show ?thesis using chain_last [of base lo h "us @ [x]" y] c' ex chain_ext [OF c, of y] by (simp add: hx)
  next
    case (snoc zs z)
    have "z \<noteq> x" using gt [of z] xy snoc by auto
    moreover have "hptr h z = base" using chain_last [of base lo h "us @ x # y # zs" z] c snoc by simp
    moreover have "ext h z \<le> unat (brk h)" using chain_ext [OF c, of z] snoc by simp
    ultimately show ?thesis using snoc by (simp add: hx ext_def)
  qed
  have hd: "hd (us @ x # ys) = base" "hsize ?h base = 0"
    using c us chain_base(1) [OF c] by (auto simp: chain_ok_def hx)
  have szs: "hsize ?h x \<noteq> 0" using sz xpos(2) unfolding hx by (metis add_is_0 fun_upd_same unat_0 unat_eq_zero)
  have "\<forall>z \<in> set (tl (us @ x # ys)). lo \<le> z \<and> hsize ?h z \<noteq> 0"
  proof
    fix z assume "z \<in> set (tl (us @ x # ys))"
    then have z: "z = x \<or> z \<in> set (tl (us @ x # y # ys))" "z \<noteq> x \<Longrightarrow> z \<in> set (tl us) \<or> z \<in> set ys" using us by auto
    then show "lo \<le> z \<and> hsize ?h z \<noteq> 0"
      using c xpos szs hx(1) by (cases "z = x") (auto simp: chain_ok_def)
  qed
  then show "chain_ok base lo ?h (us @ x # ys)"
    using c us su sy up down lasts hd unfolding chain_ok_def hx(3) by (simp add: successively_append_iff successively_Cons)
  show ax: "area ?h x = area h x \<union> area h y"
    unfolding area_def ex using adj xy by (auto simp: ext_def word_less_nat_alt)
  have "area ?h z = area h z" if "z \<in> set us \<union> set ys" for z
    using that same area_frame by fastforce
  with ax show "free_area ?h (us @ x # ys) = free_area h (us @ x # y # ys)"
    unfolding free_area_def by auto
qed

lemma chain_place:
  assumes c: "chain_ok base lo h ns" and lo: "lo \<le> bp" and nin: "bp \<notin> set ns"
  obtains us p ys where "ns = us @ p # ys" and "p < bp" and "\<And>y. y \<in> set ys \<Longrightarrow> bp < y"
proof -
  let ?a = "takeWhile (\<lambda>x. x < bp) ns" and ?b = "dropWhile (\<lambda>x. x < bp) ns"
  have "hd ns < bp" "ns \<noteq> []" using c lo by (auto simp: chain_ok_def)
  then have ne: "?a \<noteq> []" by (cases ns) auto
  then obtain us p where a: "?a = us @ [p]" by (metis rev_exhaust)
  have ns: "ns = us @ p # ?b" using takeWhile_dropWhile_id [of "\<lambda>x. x < bp" ns] unfolding a by simp
  have "p \<in> set ?a" unfolding a by simp
  then have "p < bp" by (auto dest: set_takeWhileD)
  moreover have "bp < y" if y: "y \<in> set ?b" for y
  proof (cases ?b)
    case (Cons z zs)
    have "\<not> z < bp" using hd_dropWhile [of "\<lambda>x. x < bp" ns] Cons by auto
    moreover have "z \<noteq> bp" using nin ns Cons by (metis in_set_conv_decomp list.set_intros(1) set_dropWhileD)
    moreover have "z \<le> y"
      using y chain_split(2) [of base lo h "us @ [p]" z zs y] c ns Cons by auto
    ultimately show ?thesis by auto
  next
    case Nil
    then show ?thesis using y by (simp only: list.set empty_iff)
  qed
  ultimately show thesis using ns that by blast
qed

lemma areas_apart:
  assumes "area h x \<inter> area h y = {}" and "x < y" and "hsize h y \<noteq> 0"
  shows "ext h x \<le> unat y"
proof (rule ccontr)
  assume "\<not> ext h x \<le> unat y"
  then have "unat y \<in> area h x" using assms(2) by (simp add: area_def word_less_nat_alt)
  moreover have "0 < unat (hsize h y)" using assms(3) by (simp add: unat_gt_0)
  then have "unat y \<in> area h y" by (simp add: area_def ext_def)
  ultimately show False using assms(1) by blast
qed

lemma free_ok:
  assumes c: "chain_ok base lo h ns" and f: "freep h \<in> set ns" and lo: "lo \<le> bp" "hsize h bp \<noteq> 0"
    and e: "ext h bp \<le> unat (brk h)" and d: "area h bp \<inter> free_area h ns = {}"
  shows "\<exists>h' ns'. free (bp + 8) h = Some h' \<and> chain_ok base lo h' ns' \<and> freep h' \<in> set ns' \<and> brk h' = brk h \<and>
    free_area h' ns' = area h bp \<union> free_area h ns \<and> same_at h h' (- insert bp (set ns)) \<and>
    (\<exists>x \<in> set ns'. area h bp \<subseteq> area h' x)"
proof -
  have da: "area h bp \<inter> area h x = {}" if "x \<in> set ns" for x
    using d that by (auto simp: free_area_def)
  have "0 < unat (hsize h bp)" using lo(2) by (simp add: unat_gt_0)
  then have "unat bp \<in> area h bp" by (simp add: area_def ext_def)
  then have nin: "bp \<notin> set ns" using da [of bp] by auto
  obtain us p ys where ns: "ns = us @ p # ys" and p: "p < bp" and ys: "\<And>y. y \<in> set ys \<Longrightarrow> bp < y"
    using chain_place [OF c lo(1) nin] by blast
  note c' = c [unfolded ns]
  have ep: "ext h p \<le> unat bp" using areas_apart [of h p bp] da [of p] p lo(2) ns by auto
  have ey: "bp < y \<and> ext h bp \<le> unat y" if "y \<in> set ys" for y
    using areas_apart [of h bp y] da [of y] ys [OF that] chain_base(2) [OF c' that] that ns by auto
  have loop: "free_loop bp (freep h) h = Some p" using free_loop_finds [OF c' p ys] f ns by simp
  let ?h0 = "link_in bp p h"
  note l = link_in_ok [OF c' p ep lo ey e]
  have hs: "hsize ?h0 = hsize h" "brk ?h0 = brk h" "\<And>x. ext ?h0 x = ext h x" by (simp_all add: link_in_def ext_def)
  let ?adj = "bp + 8 * hsize h bp = hptr h p"
  define h1 where "h1 = (if ?adj then join bp ?h0 else ?h0)"
  have bb: "unat (bp + 8 * hsize h bp) = ext h bp"
    using chain_bounds [OF l(1), of bp] by (simp add: hs ext_def unat_word_ariths)
  have pb: "unat (p + 8 * hsize h p) = ext h p"
    using chain_bounds [OF c', of p] by (simp add: ext_def unat_word_ariths)
  have nextp: "hptr h p = base \<and> ys = [] \<or> (\<exists>y zs. ys = y # zs \<and> hptr h p = y)"
    using c' chain_last [of base lo h us p] chain_next [of base lo h us p] by (cases ys) auto
  have base: "base < bp" using c lo(1) by (auto simp: chain_ok_def)
  have adj_base: "hptr h p \<noteq> base" if ?adj
  proof
    assume "hptr h p = base"
    then have "ext h bp = unat base" using that bb by simp
    then show False using base by (simp add: ext_def word_less_nat_alt)
  qed
  have nbp: "p \<noteq> bp" "hptr h p \<noteq> bp" using p nextp ys [of "hptr h p"] base by auto
  have np: "hptr h p \<noteq> p" if ?adj using adj_base [OF that] nextp ys [of p] p by auto
  have upper: "\<exists>zs. chain_ok base lo h1 (us @ p # bp # zs) \<and>
      free_area h1 (us @ p # bp # zs) = area h bp \<union> free_area h ns \<and> area h bp \<subseteq> area h1 bp"
  proof (cases ?adj)
    case False
    then show ?thesis using l unfolding h1_def ns by (intro exI [of _ ys]) (simp add: area_def hs)
  next
    case True
    obtain y zs where y: "ys = y # zs" "hptr h p = y" using nextp adj_base [OF True] by blast
    have "ext ?h0 bp = unat y" using True bb y by (simp add: hs)
    from join_ok [of base lo ?h0 "us @ [p]" bp y zs, OF _ this] l show ?thesis
      unfolding h1_def if_P [OF True] ns y(1) by (intro exI [of _ zs]) (simp add: area_def hs)
  qed
  then obtain zs where u: "chain_ok base lo h1 (us @ p # bp # zs)" "free_area h1 (us @ p # bp # zs) = area h bp \<union> free_area h ns"
      "area h bp \<subseteq> area h1 bp"
    by blast
  have hp: "hsize h1 p = hsize h p" using p by (auto simp: h1_def join_def hs)
  let ?low = "p + 8 * hsize h p = bp"
  define h2 where "h2 = (if ?low then join p h1 else h1)"
  have lower: "\<exists>ns'. chain_ok base lo h2 ns' \<and> p \<in> set ns' \<and> free_area h2 ns' = area h bp \<union> free_area h ns \<and>
      (\<exists>x \<in> set ns'. area h bp \<subseteq> area h2 x)"
  proof (cases ?low)
    case False
    then show ?thesis using u unfolding h2_def by (intro exI [of _ "us @ p # bp # zs"]) auto
  next
    case True
    have "us \<noteq> []"
    proof
      assume "us = []"
      then have "p = base" "hsize h p = 0" using c' by (auto simp: chain_ok_def)
      then show False using True base by simp
    qed
    have "ext h1 p = unat bp" using True pb hp by (simp add: ext_def)
    from join_ok [OF u(1) this \<open>us \<noteq> []\<close>] u(2,3) show ?thesis
      unfolding h2_def if_P [OF True] by (intro exI [of _ "us @ p # zs"]) auto
  qed
  have eq: "free_lower bp p (free_upper bp p h) = h2"
    unfolding h2_def h1_def by (rule trans [OF free_is_joins [OF nbp]]) (simp_all add: np Let_def)
  have run: "free (bp + 8) h = Some (h2\<lparr>freep := p\<rparr>)" by (simp add: free_def loop eq)
  have br: "brk h2 = brk h" by (simp add: h2_def h1_def join_def hs)
  have same: "same_at h h2 (- insert bp (set ns))"
    by (auto simp: same_at_def h2_def h1_def join_def hs link_in_def ns)
  obtain ns' where n: "chain_ok base lo h2 ns'" "p \<in> set ns'" "free_area h2 ns' = area h bp \<union> free_area h ns"
      "\<exists>x \<in> set ns'. area h bp \<subseteq> area h2 x" using lower by blast
  have fr: "same_at h2 (h2\<lparr>freep := p\<rparr>) X" for X by (simp add: same_at_def)
  have "brk h2 \<le> 0x80000000" using n(1) by (simp add: chain_ok_def)
  then have "chain_ok base lo (h2\<lparr>freep := p\<rparr>) ns'" using chain_cong [OF n(1) fr] by simp
  then show ?thesis
    using run n(2-) br same free_area_frame [OF fr, of ns'] area_frame [OF fr]
    by (intro exI [of _ "h2\<lparr>freep := p\<rparr>"] exI [of _ ns']) (simp add: same_at_def)
qed

section \<open>The search of malloc\<close>

lemma malloc_walk:
  "successively (\<lambda>x y. hptr h x = y) (pr # zs @ [x]) \<Longrightarrow> (\<And>z. z \<in> set zs \<Longrightarrow> hsize h z < n \<and> z \<noteq> freep h) \<Longrightarrow>
    malloc_loop n pr (hd (zs @ [x])) h = malloc_loop n (last (pr # zs)) x h"
proof (induction zs arbitrary: pr)
  case (Cons z zs)
  have "malloc_loop n pr z h = malloc_loop n z (hptr h z) h"
    using Cons.prems(2) [of z] by (subst malloc_loop.simps) auto
  also have "hptr h z = hd (zs @ [x])" using Cons.prems(1) by (cases zs) auto
  also have "malloc_loop n z (hd (zs @ [x])) h = malloc_loop n (last (z # zs)) x h"
    using Cons.prems by (intro Cons.IH) auto
  finally show ?case by simp
qed simp

lemma chain_distinct: "chain_ok base lo h ns \<Longrightarrow> distinct ns"
proof -
  assume "chain_ok base lo h ns"
  then have "sorted_wrt (<) ns" by (rule sorted_wrt_mono_rel [rotated, OF chain_sorted]) simp
  then show ?thesis by (simp add: strict_sorted_iff)
qed

text \<open>The order in which \<open>malloc\<close> visits the blocks: from behind \<open>r\<close> to the end, then from \<^verbatim>\<open>base\<close> to \<open>r\<close>.\<close>

lemma chain_cycle:
  assumes c: "chain_ok base lo h (us @ r # vs)"
  shows "successively (\<lambda>x y. hptr h x = y) (r # vs @ us @ [r])" and "hd (vs @ us @ [r]) = hptr h r"
proof -
  let ?L = "\<lambda>x y. hptr h x = y"
  have "successively ?L (us @ r # vs)"
    using c unfolding chain_ok_def by (elim conjE successively_mono) (simp add: next_ok_def)
  then have s: "successively ?L (us @ [r])" "successively ?L (r # vs)"
    by (auto simp: successively_append_iff successively_Cons)
  have "hd (us @ [r]) = base" using c by (cases us) (auto simp: chain_ok_def)
  moreover have "hptr h (last (r # vs)) = base" using c by (simp add: chain_ok_def)
  ultimately have "successively ?L ((r # vs) @ us @ [r])"
    using s by (simp only: successively_append_iff) simp
  then show 1: "successively ?L (r # vs @ us @ [r])" by simp
  then show "hd (vs @ us @ [r]) = hptr h r" by (cases "vs @ us @ [r]") auto
qed

lemma malloc_finds:
  assumes c: "chain_ok base lo h ns" and f: "freep h \<in> set ns" and n: "n \<noteq> 0" and big: "\<exists>x \<in> set ns. n \<le> hsize h x"
  shows "\<exists>us prev x ys. ns = us @ prev # x # ys \<and> n \<le> hsize h x \<and>
    malloc_loop n (freep h) (hptr h (freep h)) h = (case take_units n prev x h of (q, h1) \<Rightarrow> Some (q + 8, h1))"
proof -
  let ?r = "freep h"
  obtain us vs where ns: "ns = us @ ?r # vs" using split_list [OF f] by blast
  let ?cs = "vs @ us @ [?r]"
  have "\<exists>x \<in> set ?cs. n \<le> hsize h x" using big ns by auto
  then obtain as x bs where cs: "?cs = as @ x # bs" and x: "n \<le> hsize h x" and as: "\<And>a. a \<in> set as \<Longrightarrow> \<not> n \<le> hsize h a"
    using split_list_first_prop [of ?cs "\<lambda>x. n \<le> hsize h x"] by blast
  note cyc = chain_cycle [OF c [unfolded ns]]
  have dist: "distinct ?cs" using chain_distinct [OF c] ns by auto
  have rn: "?r \<notin> set as"
  proof
    assume r: "?r \<in> set as"
    have "last ?cs = ?r" by simp
    then have "?r \<in> set (x # bs)" unfolding cs by (metis last_appendR last_in_set list.distinct(1))
    then show False using r dist unfolding cs by auto
  qed
  have "successively (\<lambda>x y. hptr h x = y) (?r # as @ [x])"
    using cyc(1) unfolding append_assoc [symmetric] cs [simplified append_assoc]
    by (metis cs append_Cons append.assoc append_Nil successively_append_iff)
  then have "malloc_loop n ?r (hd (as @ [x])) h = malloc_loop n (last (?r # as)) x h"
    by (rule malloc_walk) (use as rn in \<open>auto simp: not_le\<close>)
  moreover have "hd (as @ [x]) = hptr h ?r" using cyc(2) unfolding cs by (cases as) auto
  moreover have "malloc_loop n (last (?r # as)) x h = (case take_units n (last (?r # as)) x h of (q, h1) \<Rightarrow> Some (q + 8, h1))"
    using x by (subst malloc_loop.simps) simp
  moreover have "\<exists>us' ys. ns = us' @ last (?r # as) # x # ys"
  proof (cases "length as < length vs")
    case True
    then have "vs = as @ x # take (length vs - length as - 1) bs"
      using arg_cong [OF cs, of "take (length vs)"] by (simp add: take_Cons')
    then obtain w where "vs = as @ x # w" by blast
    then have "ns = us @ butlast (?r # as) @ last (?r # as) # x # w"
      using ns append_butlast_last_id [of "?r # as"] by (metis append.assoc append_Cons append_Nil list.distinct(1))
    then show ?thesis by (metis append.assoc)
  next
    case False
    have tail: "us @ [?r] = drop (length vs) as @ x # bs"
      using arg_cong [OF cs, of "drop (length vs)"] False by simp
    have ne: "drop (length vs) as \<noteq> []"
    proof
      assume "drop (length vs) as = []"
      then have "hd (us @ [?r]) = x" using tail by simp
      moreover have "hd (us @ [?r]) = base" using c ns by (cases us) (auto simp: chain_ok_def)
      ultimately show False using c x n by (simp add: chain_ok_def)
    qed
    then have "last (?r # as) = last (drop (length vs) as)" using False by (auto simp: last_drop)
    then have "us @ [?r] = butlast (drop (length vs) as) @ last (?r # as) # x # bs"
      using tail append_butlast_last_id [OF ne] by (metis append.assoc append_Cons append_Nil)
    then have "ns = butlast (drop (length vs) as) @ last (?r # as) # x # bs @ vs"
      using ns by (metis append.assoc append_Cons append_Nil)
    then show ?thesis by blast
  qed
  ultimately show ?thesis using x by metis
qed

lemma malloc_grows:
  assumes c: "chain_ok base lo h ns" and f: "freep h \<in> set ns" and small: "\<And>x. x \<in> set ns \<Longrightarrow> \<not> n \<le> hsize h x"
  shows "malloc_loop n (freep h) (hptr h (freep h)) h =
    (case morecore n h of None \<Rightarrow> None
       | Some (p', h1) \<Rightarrow> if p' = 0 then Some (0, h1) else malloc_loop n p' (hptr h1 p') h1)"
proof -
  let ?r = "freep h"
  obtain us vs where ns: "ns = us @ ?r # vs" using split_list [OF f] by blast
  note cyc = chain_cycle [OF c [unfolded ns]]
  have dist: "distinct ns" using chain_distinct [OF c] .
  have "malloc_loop n ?r (hd ((vs @ us) @ [?r])) h = malloc_loop n (last (?r # vs @ us)) ?r h"
    by (rule malloc_walk) (use cyc(1) small dist ns in \<open>auto simp: not_le\<close>)
  moreover have "hd ((vs @ us) @ [?r]) = hptr h ?r" using cyc(2) by simp
  moreover have "malloc_loop n (last (?r # vs @ us)) ?r h =
    (case morecore n h of None \<Rightarrow> None
       | Some (p', h1) \<Rightarrow> if p' = 0 then Some (0, h1) else malloc_loop n p' (hptr h1 p') h1)"
    using small [OF f] by (subst malloc_loop.simps) simp
  ultimately show ?thesis by simp
qed

section \<open>Allocation\<close>

text \<open>Headers outside an area of the heap and other than \<^verbatim>\<open>base\<close> are left alone.\<close>

definition outside :: "u32 \<Rightarrow> nat set \<Rightarrow> u32 set" where
  "outside base X = {a. a \<noteq> base \<and> unat a \<notin> X}"

lemma in_area: "hsize h x \<noteq> 0 \<Longrightarrow> unat x \<in> area h x"
proof -
  assume "hsize h x \<noteq> 0"
  then have "0 < unat (hsize h x)" by (simp add: unat_gt_0)
  then show ?thesis by (simp add: area_def ext_def)
qed

lemma in_free_area:
  assumes c: "chain_ok base lo h ns" and x: "x \<in> set ns" "x \<noteq> base"
  shows "unat x \<in> free_area h ns"
proof -
  have "x \<in> set (tl ns)" using c x by (cases ns) (auto simp: chain_ok_def)
  then have "hsize h x \<noteq> 0" using c by (simp add: chain_ok_def)
  then show ?thesis using in_area x(1) by (auto simp: free_area_def)
qed

lemma take_whole:
  assumes c: "chain_ok base lo h (us @ prev # x # ys)"
  defines "h' \<equiv> (set_ptr prev (hptr h x) h)\<lparr>freep := prev\<rparr>"
  shows "chain_ok base lo h' (us @ prev # ys)" and "area h x \<inter> free_area h' (us @ prev # ys) = {}"
    and "area h x \<union> free_area h' (us @ prev # ys) = free_area h (us @ prev # x # ys)"
proof -
  have c': "chain_ok base lo h ((us @ [prev]) @ x # ys)" using c by simp
  note sp = chain_split [OF c] and sp' = chain_split [OF c']
  have hs: "hsize h' = hsize h" "brk h' = brk h" "\<And>z. ext h' z = ext h z" "\<And>z. area h' z = area h z"
    by (simp_all add: h'_def ext_def area_def)
  have ptr: "hptr h' prev = hptr h x" "\<And>z. z \<noteq> prev \<Longrightarrow> hptr h' z = hptr h z" by (auto simp: h'_def)
  have np: "prev \<notin> set us" "prev \<notin> set ys" "prev \<noteq> x" using sp(1) sp(2) by force+
  have same: "same_at h h' (set us)" "same_at h h' (set ys)"
    using np by (auto simp: same_at_def hs) (metis ptr(2))+
  have s: "successively (next_ok h) us" "successively (next_ok h) ys"
    using c by (auto simp: chain_ok_def successively_append_iff successively_Cons)
  note su = successively_frame [OF same(1) s(1)] and sy = successively_frame [OF same(2) s(2)]
  have up: "us = [] \<or> next_ok h' (last us) prev"
    using c same(1) by (cases "us = []") (auto simp: chain_ok_def successively_append_iff next_ok_def same_at_def ext_def)
  have down: "ys = [] \<or> next_ok h' prev (hd ys)"
  proof (cases ys)
    case (Cons z zs)
    have "hptr h x = z" using chain_next [of base lo h "us @ [prev]" x z zs] c' Cons by simp
    then show ?thesis using sp(2) [of z] Cons by (simp add: next_ok_def hs ptr)
  qed simp
  have lasts: "hptr h' (last (prev # ys)) = base \<and> ext h (last (prev # ys)) \<le> unat (brk h)"
  proof (cases ys rule: rev_cases)
    case Nil
    then show ?thesis using chain_last [of base lo h "us @ [prev]" x] c' chain_ext [OF c, of prev] by (simp add: ptr)
  next
    case (snoc zs z)
    have "z \<noteq> prev" using np snoc by auto
    moreover have "hptr h z = base" using chain_last [of base lo h "us @ prev # x # zs" z] c snoc by simp
    moreover have "ext h z \<le> unat (brk h)" using chain_ext [OF c, of z] snoc by simp
    ultimately show ?thesis using snoc by (simp add: ptr)
  qed
  have "hd (us @ prev # ys) = base" "\<forall>z \<in> set (tl (us @ prev # ys)). lo \<le> z \<and> hsize h z \<noteq> 0"
    using c by (cases us; auto simp: chain_ok_def)+
  then show "chain_ok base lo h' (us @ prev # ys)"
    using c su sy up down lasts unfolding chain_ok_def hs by (simp add: successively_append_iff successively_Cons)
  have "area h x \<inter> area h z = {}" if "z \<in> set us \<union> {prev} \<union> set ys" for z
  proof -
    have "ext h z \<le> unat x \<or> ext h x \<le> unat z" using that sp'(1) [of z] sp'(2) [of z] by auto
    then show ?thesis by (auto simp: area_def)
  qed
  then show "area h x \<inter> free_area h' (us @ prev # ys) = {}" by (auto simp: free_area_def hs)
  show "area h x \<union> free_area h' (us @ prev # ys) = free_area h (us @ prev # x # ys)"
    by (auto simp: free_area_def hs)
qed

lemma take_tail:
  assumes c: "chain_ok base lo h (us @ prev # x # ys)" and n: "n < hsize h x" "n \<noteq> 0"
  defines "h1 \<equiv> set_size x (hsize h x - n) h" and "q \<equiv> x + 8 * (hsize h x - n)"
  defines "h' \<equiv> (set_size q n h1)\<lparr>freep := prev\<rparr>"
  shows "chain_ok base lo h' (us @ prev # x # ys)" and "x < q" and "ext h' q = ext h x"
    and "area h' q \<inter> free_area h' (us @ prev # x # ys) = {}"
    and "area h' q \<union> free_area h' (us @ prev # x # ys) = free_area h (us @ prev # x # ys)"
proof -
  let ?ns = "us @ prev # x # ys"
  have c': "chain_ok base lo h ((us @ [prev]) @ x # ys)" using c by simp
  note sp' = chain_split [OF c']
  have b: "unat x + 8 * unat (hsize h x) \<le> 2 ^ 31" by (rule chain_bounds [OF c]) simp
  have un: "unat (hsize h x - n) = unat (hsize h x) - unat n" "unat n < unat (hsize h x)"
    using n(1) unat_sub [OF order_less_imp_le [OF n(1)]] by (simp_all add: word_less_nat_alt)
  have uq: "unat q = unat x + 8 * (unat (hsize h x) - unat n)"
  proof -
    define m where "m = hsize h x - n"
    have "unat m = unat (hsize h x) - unat n" using un(1) by (simp add: m_def)
    then show ?thesis unfolding q_def m_def [symmetric] using b by (simp add: unat_word_ariths)
  qed
  show xq: "x < q" using uq un by (simp add: word_less_nat_alt)
  show eq: "ext h' q = ext h x" using uq un xq by (simp add: ext_def h'_def)
  have qlt: "unat q < ext h x" proof -
    have "0 < unat n" using n(2) by (simp add: unat_gt_0)
    then show ?thesis using uq un by (simp add: ext_def)
  qed
  have other: "z < x \<and> ext h z \<le> unat x \<or> x < z \<and> ext h x \<le> unat z" if "z \<in> set ?ns" "z \<noteq> x" for z
    using that sp'(1) [of z] sp'(2) [of z] by auto
  have nq: "z \<noteq> q" if "z \<in> set ?ns" for z
  proof (cases "z = x")
    case False
    then show ?thesis using other [OF that False] xq qlt by (auto simp: word_less_nat_alt)
  qed (use xq in simp)
  have sz: "hsize h' z = hsize h z" if "z \<in> set ?ns" "z \<noteq> x" for z
    using nq [OF that(1)] that(2) by (simp add: h'_def h1_def)
  have "x \<noteq> q" using xq by simp
  then have sx: "hsize h' x = hsize h x - n" by (simp add: h'_def h1_def)
  have ptr: "hptr h' = hptr h" "brk h' = brk h" by (simp_all add: h'_def h1_def)
  have ex: "ext h' x = unat q" using uq sx un by (simp add: ext_def)
  have le: "ext h' z \<le> ext h z" if "z \<in> set ?ns" for z
    using ex qlt sz [OF that] by (cases "z = x") (auto simp: ext_def)
  have "successively (next_ok h') ?ns"
    using c unfolding chain_ok_def
    by (elim conjE successively_mono) (use le in \<open>fastforce simp: next_ok_def ptr\<close>)
  moreover have "last ?ns \<in> set ?ns" by simp
  then have "ext h' (last ?ns) \<le> unat (brk h)" using le chain_ext [OF c] le_trans by blast
  moreover have xb: "x \<noteq> base" using chain_base(1) [OF c'] by simp
  then have "hsize h' base = 0" using sz [of base] c by (cases us) (auto simp: chain_ok_def)
  moreover have "\<forall>z \<in> set (tl ?ns). lo \<le> z \<and> hsize h' z \<noteq> 0"
  proof
    fix z assume z: "z \<in> set (tl ?ns)"
    have "hsize h x - n \<noteq> 0" using n(1) by auto
    moreover have "z \<in> set ?ns" using z by (cases us) auto
    moreover have "lo \<le> z \<and> hsize h z \<noteq> 0" using c z by (simp add: chain_ok_def)
    ultimately show "lo \<le> z \<and> hsize h' z \<noteq> 0" using sx sz [of z] by (cases "z = x") simp_all
  qed
  ultimately show "chain_ok base lo h' ?ns" using c unfolding chain_ok_def ptr by blast
  have aq: "area h' q = {unat q ..< ext h x}" by (simp add: area_def eq)
  have az: "area h' z = area h z" if "z \<in> set ?ns" "z \<noteq> x" for z using sz [OF that] by (simp add: area_def ext_def)
  have ax: "area h' x = {unat x ..< unat q}" by (simp add: area_def ex)
  have axq: "area h x = area h' x \<union> area h' q" unfolding ax aq using qlt xq by (auto simp: area_def word_less_nat_alt)
  have dz: "area h' q \<inter> area h' z = {}" if "z \<in> set ?ns" for z
  proof (cases "z = x")
    case True
    then show ?thesis by (auto simp: ax aq)
  next
    case False
    then show ?thesis unfolding az [OF that False] aq using other [OF that False] xq
      by (auto simp: area_def word_less_nat_alt)
  qed
  then show "area h' q \<inter> free_area h' ?ns = {}" by (auto simp: free_area_def)
  have fa: "free_area g ?ns = area g x \<union> (\<Union>z \<in> set ?ns - {x}. area g z)" for g by (auto simp: free_area_def)
  have "(\<Union>z \<in> set ?ns - {x}. area h' z) = (\<Union>z \<in> set ?ns - {x}. area h z)" using az by auto
  then show "area h' q \<union> free_area h' ?ns = free_area h ?ns" unfolding fa axq by auto
qed

text \<open>What an allocation promises: a block of \<open>n\<close> units out of area that was free, or new.\<close>

definition given :: "u32 \<Rightarrow> u32 \<Rightarrow> u32 \<Rightarrow> heap \<Rightarrow> u32 list \<Rightarrow> nat set \<Rightarrow> u32 \<Rightarrow> heap \<Rightarrow> bool" where
  "given base lo n h ns new p h' \<longleftrightarrow>
     (\<exists>ns'. chain_ok base lo h' ns' \<and> freep h' \<in> set ns' \<and> p \<noteq> 0 \<and> lo \<le> p - 8 \<and> hsize h' (p - 8) = n \<and>
        ext h' (p - 8) \<le> unat (brk h') \<and> area h' (p - 8) \<inter> free_area h' ns' = {} \<and>
        area h' (p - 8) \<union> free_area h' ns' = free_area h ns \<union> new \<and> same_at h h' (outside base (free_area h ns \<union> new)))"

lemma malloc_present:
  assumes c: "chain_ok base lo h ns" and f: "freep h \<in> set ns" and n: "n \<noteq> 0" and big: "\<exists>x \<in> set ns. n \<le> hsize h x"
  shows "\<exists>p h'. malloc_loop n (freep h) (hptr h (freep h)) h = Some (p, h') \<and> given base lo n h ns {} p h' \<and> brk h' = brk h"
proof -
  obtain us prev x ys where ns: "ns = us @ prev # x # ys" and x: "n \<le> hsize h x"
      and run: "malloc_loop n (freep h) (hptr h (freep h)) h = (case take_units n prev x h of (q, h1) \<Rightarrow> Some (q + 8, h1))"
    using malloc_finds [OF assms] by blast
  note cn = c [unfolded ns]
  have c': "chain_ok base lo h ((us @ [prev]) @ x # ys)" using cn by simp
  have xl: "lo \<le> x" using chain_base(3) [OF c'] by simp
  have ex: "ext h x \<le> unat (brk h)" by (rule chain_ext [OF cn]) simp
  have bl: "unat (brk h) \<le> 2 ^ 31" "0 < lo" using c by (auto simp: chain_ok_def word_le_nat_alt word_less_nat_alt)
  have inx: "unat x \<in> free_area h ns" using chain_base(1) [OF c'] ns by (intro in_free_area [OF c]) auto
  have prev: "prev \<notin> outside base (free_area h ns)"
    using in_free_area [OF c, of prev] ns by (auto simp: outside_def)
  have nonnull: "q + 8 \<noteq> 0" if "lo \<le> q" "ext h' q \<le> unat (brk h)" for q and h' :: heap
  proof -
    have "unat q \<le> 2 ^ 31" using that(2) bl(1) by (simp add: ext_def)
    then have "unat (q + 8) = unat q + 8" by (simp add: unat_word_ariths)
    then show ?thesis by (metis add_is_0 unat_0 zero_neq_numeral)
  qed
  show ?thesis
  proof (cases "hsize h x = n")
    case True
    let ?h = "(set_ptr prev (hptr h x) h)\<lparr>freep := prev\<rparr>"
    note t = take_whole [OF cn]
    have sm: "area ?h z = area h z" "ext ?h z = ext h z" for z by (simp_all add: area_def ext_def)
    have "same_at h ?h (outside base (free_area h ns))" using prev by (auto simp: same_at_def)
    then have "given base lo n h ns {} (x + 8) ?h"
      unfolding given_def using t xl ex True nonnull [OF xl, of h] ns
      by (intro exI [of _ "us @ prev # ys"]) (simp add: sm)
    then show ?thesis using run True by (simp add: take_units_def)
  next
    case False
    then have lt: "n < hsize h x" using x by simp
    let ?q = "x + 8 * (hsize h x - n)"
    let ?h = "(set_size ?q n (set_size x (hsize h x - n) h))\<lparr>freep := prev\<rparr>"
    note t = take_tail [OF cn lt n]
    have ql: "lo \<le> ?q" using xl t(2) by simp
    have inq: "unat ?q \<in> free_area h ns"
    proof -
      have "unat ?q \<in> area ?h ?q" by (rule in_area) (use n in simp)
      then show ?thesis using t(5) ns by blast
    qed
    have "same_at h ?h (outside base (free_area h ns))" using inx inq by (auto simp: same_at_def outside_def)
    moreover have "ext ?h ?q \<le> unat (brk h)" using t(3) ex by simp
    ultimately have "given base lo n h ns {} (?q + 8) ?h"
      unfolding given_def using t(1,4,5) ql nonnull [OF ql, of ?h] ns
      by (intro exI [of _ "us @ prev # x # ys"]) simp
    then show ?thesis using run False by (simp add: take_units_def Let_def)
  qed
qed

lemma morecore_ok:
  assumes c: "chain_ok base lo h ns" and f: "freep h \<in> set ns" and n: "8 * unat n < 2 ^ 32" "n \<noteq> 0"
  shows "morecore n h = Some (0, h) \<or>
    (\<exists>h' ns'. morecore n h = Some (freep h', h') \<and> freep h' \<noteq> 0 \<and> chain_ok base lo h' ns' \<and> freep h' \<in> set ns' \<and>
       brk h < brk h' \<and> free_area h' ns' = free_area h ns \<union> {unat (brk h)..<unat (brk h')} \<and>
       same_at h h' (outside base (free_area h ns \<union> {unat (brk h)..<unat (brk h')})) \<and> (\<exists>x \<in> set ns'. n \<le> hsize h' x))"
proof -
  define nu where "nu = (if n < 4096 then 4096 else n)"
  have nu: "8 * unat nu < 2 ^ 32" "n \<le> nu" "nu \<noteq> 0" using n by (auto simp: nu_def)
  have u8: "unat (nu * 8) = 8 * unat nu" using nu(1) by (simp add: unat_word_ariths)
  let ?b = "brk h"
  have b: "unat ?b \<le> 2 ^ 31" "base < ?b" "lo \<le> ?b" using c by (auto simp: chain_ok_def word_le_nat_alt word_less_nat_alt)
  show ?thesis
  proof (cases "sint (nu * 8) < 0 \<or> ?b + nu * 8 > 0x80000000")
    case True
    then show ?thesis by (simp add: morecore_def nu_def [symmetric] sbrk_def)
  next
    case False
    have small: "8 * unat nu < 2 ^ 31" using sint_nonneg(2) [of "nu * 8"] False u8 by simp
    let ?b' = "?b + nu * 8"
    have b': "unat ?b' = unat ?b + 8 * unat nu" using b(1) small u8 by (simp add: unat_word_ariths)
    have b'le: "?b' \<le> 0x80000000" "?b \<le> ?b'" "?b < ?b'"
      using False b' nu(3) by (auto simp: not_less word_le_nat_alt word_less_nat_alt unat_gt_0)
    define h1 where "h1 = set_size ?b nu (h\<lparr>brk := ?b'\<rparr>)"
    have below: "unat x < unat ?b" if "x \<in> set ns" for x
    proof (cases "x = base")
      case True
      then show ?thesis using b(2) by (simp add: word_less_nat_alt)
    next
      case False
      then have "unat x \<in> free_area h ns" using in_free_area [OF c that] by simp
      then show ?thesis using chain_ext [OF c] by (fastforce simp: free_area_def area_def)
    qed
    then have nin: "?b \<notin> set ns" by auto
    have sm: "same_at h h1 (set ns)" using nin by (auto simp: same_at_def h1_def)
    have c1: "chain_ok base lo h1 ns" by (rule chain_cong [OF c sm]) (use b'le in \<open>simp_all add: h1_def\<close>)
    have f1: "freep h1 \<in> set ns" using f by (simp add: h1_def)
    have fa: "free_area h1 ns = free_area h ns" by (rule free_area_frame [OF sm])
    have a1: "area h1 ?b = {unat ?b..<unat ?b'}" by (simp add: area_def ext_def h1_def b')
    have "area h1 ?b \<inter> free_area h1 ns = {}"
      unfolding a1 fa using chain_ext [OF c] by (fastforce simp: free_area_def area_def)
    then obtain h2 ns' where fr: "free (?b + 8) h1 = Some h2" "chain_ok base lo h2 ns'" "freep h2 \<in> set ns'" "brk h2 = brk h1"
        "free_area h2 ns' = area h1 ?b \<union> free_area h1 ns" "same_at h1 h2 (- insert ?b (set ns))"
        "\<exists>x \<in> set ns'. area h1 ?b \<subseteq> area h2 x"
      using free_ok [OF c1 f1 b(3)] nu(3) b' by (auto simp: h1_def ext_def)
    have "?b \<noteq> - 1"
    proof
      assume "?b = - 1"
      then have "(- 1 :: u32) \<le> 0x80000000" using c by (simp add: chain_ok_def)
      then show False by (simp add: word_le_nat_alt unsigned_minus_1_eq_mask mask_eq_exp_minus_1)
    qed
    then have run: "morecore n h = Some (freep h2, h2)"
      using fr(1) False by (simp add: morecore_def nu_def [symmetric] sbrk_def h1_def)
    have nz: "freep h2 \<noteq> 0" using chain_base_le [OF fr(2,3)] fr(2) by (auto simp: chain_ok_def)
    have br: "brk h2 = ?b'" by (simp add: fr(4) h1_def)
    have same: "same_at h h2 (outside base (free_area h ns \<union> {unat ?b..<unat ?b'}))"
    proof -
      have "a \<notin> insert ?b (set ns)" if "a \<in> outside base (free_area h ns \<union> {unat ?b..<unat ?b'})" for a
        using that in_free_area [OF c, of a] b'le(3) by (auto simp: outside_def word_less_nat_alt)
      then show ?thesis using fr(6) by (auto simp: same_at_def h1_def)
    qed
    have "\<exists>x \<in> set ns'. n \<le> hsize h2 x"
    proof -
      obtain x where x: "x \<in> set ns'" "area h1 ?b \<subseteq> area h2 x" using fr(7) by blast
      have "unat ?b < unat ?b'" using b'le(3) by (simp add: word_less_nat_alt)
      then have "unat ?b \<in> area h2 x" "unat ?b' - 1 \<in> area h2 x" using x(2) unfolding a1 by (auto simp: subset_eq)
      then have "unat x \<le> unat ?b" "unat ?b' \<le> ext h2 x" by (auto simp: area_def)
      then have "unat nu \<le> unat (hsize h2 x)" using b' by (simp add: ext_def)
      then show ?thesis using x(1) nu(2) by (auto simp: word_le_nat_alt intro!: bexI [of _ x])
    qed
    then show ?thesis
      using run nz fr(2,3) fr(5) same b'le(3) unfolding br [symmetric] a1 fa by (metis Un_commute)
  qed
qed

lemma same_at_trans: "same_at h h1 X \<Longrightarrow> same_at h1 h2 Y \<Longrightarrow> X \<subseteq> Y \<Longrightarrow> same_at h h2 X"
  by (auto simp: same_at_def subset_eq)

lemma malloc_loop_ok:
  assumes c: "chain_ok base lo h ns" and f: "freep h \<in> set ns" and n: "8 * unat n < 2 ^ 32" "n \<noteq> 0"
  shows "\<exists>p h'. malloc_loop n (freep h) (hptr h (freep h)) h = Some (p, h') \<and>
    (p = 0 \<and> h' = h \<or> brk h \<le> brk h' \<and> given base lo n h ns {unat (brk h)..<unat (brk h')} p h')"
proof (cases "\<exists>x \<in> set ns. n \<le> hsize h x")
  case True
  obtain p h' where "malloc_loop n (freep h) (hptr h (freep h)) h = Some (p, h')" "given base lo n h ns {} p h'" "brk h' = brk h"
    using malloc_present [OF c f n(2) True] by blast
  then show ?thesis by (intro exI [of _ p] exI [of _ h']) simp
next
  case False
  then have grow: "malloc_loop n (freep h) (hptr h (freep h)) h =
    (case morecore n h of None \<Rightarrow> None
       | Some (p', h1) \<Rightarrow> if p' = 0 then Some (0, h1) else malloc_loop n p' (hptr h1 p') h1)"
    using malloc_grows [OF c f, of n] by blast
  show ?thesis
  proof (cases "morecore n h = Some (0, h)")
    case True
    then show ?thesis using grow by simp
  next
    case f2: False
    let ?new = "\<lambda>h'. {unat (brk h)..<unat (brk h')}"
    obtain h1 ns1 where m: "morecore n h = Some (freep h1, h1)" "freep h1 \<noteq> 0" "chain_ok base lo h1 ns1" "freep h1 \<in> set ns1"
        "brk h < brk h1" "free_area h1 ns1 = free_area h ns \<union> ?new h1"
        "same_at h h1 (outside base (free_area h ns \<union> ?new h1))" "\<exists>x \<in> set ns1. n \<le> hsize h1 x"
      using morecore_ok [OF c f n] f2 by blast
    obtain p h' where r: "malloc_loop n (freep h1) (hptr h1 (freep h1)) h1 = Some (p, h')" "given base lo n h1 ns1 {} p h'" "brk h' = brk h1"
      using malloc_present [OF m(3,4) n(2) m(8)] by blast
    have "given base lo n h ns (?new h') p h'"
      using r(2) same_at_trans [OF m(7)] unfolding given_def m(6) r(3) Un_empty_right by blast
    moreover have "malloc_loop n (freep h) (hptr h (freep h)) h = Some (p, h')" using grow m(1,2) r(1) by simp
    ultimately show ?thesis using order_less_imp_le [OF m(5)] r(3) by (intro exI [of _ p] exI [of _ h']) simp
  qed
qed

lemma malloc_units_exact:
  assumes "nbytes \<le> 0xFFFFFFF0"
  shows "unat nbytes + 8 \<le> 8 * unat (malloc_units nbytes)" and "8 * unat (malloc_units nbytes) < 2 ^ 32" and "malloc_units nbytes \<noteq> 0"
proof -
  have n: "unat nbytes \<le> 2 ^ 32 - 16" using assms by (simp add: word_le_nat_alt)
  have "nbytes + 8 - 1 = nbytes + 7" by simp
  moreover have "unat (nbytes + 7) = unat nbytes + 7" using n by (simp add: unat_word_ariths)
  ultimately have "unat ((nbytes + 8 - 1) div 8) = (unat nbytes + 7) div 8" by (simp only: unat_div) simp
  then have u: "unat (malloc_units nbytes) = (unat nbytes + 7) div 8 + 1"
    unfolding malloc_units_def using n by (simp add: unat_word_ariths)
  show "unat nbytes + 8 \<le> 8 * unat (malloc_units nbytes)" unfolding u by presburger
  show "8 * unat (malloc_units nbytes) < 2 ^ 32" 
  proof -
    have "8 * ((unat nbytes + 7) div 8) \<le> unat nbytes + 7" by simp
    then show ?thesis unfolding u using n by simp
  qed
  show "malloc_units nbytes \<noteq> 0" using u by (metis Suc_eq_plus1 unat_0 nat.distinct(1))
qed

text \<open>Requests in the last fifteen bytes of the range wrap: the largest one asks for a single unit, which is a header and no bytes.\<close>

lemma malloc_units_wrap: "malloc_units 0xFFFFFFFF = 1"
  by (simp add: malloc_units_def)

section \<open>Programs that use the allocator\<close>

text \<open>
  Besides \<open>malloc\<close> and \<open>free\<close> a program may store anything into the blocks it owns; the store is of eight bytes at
  \<open>a\<close>, seen as a header. The list pairs the owned blocks with the number of bytes asked for. Freeing what is not owned and storing
  outside owned blocks are steps that do nothing.
\<close>

datatype heap_op = Malloc u32 | Free u32 | Store u32 u32 u32

type_synonym owned_blocks = "(u32 \<times> u32) list"

fun heap_step :: "u32 \<Rightarrow> heap_op \<Rightarrow> heap \<times> owned_blocks \<Rightarrow> (heap \<times> owned_blocks) option" where
  "heap_step base (Malloc n) (h, A) =
     (case malloc base n h of None \<Rightarrow> None | Some (p, h') \<Rightarrow> Some (h', if p = 0 then A else (p - 8, n) # A))"
| "heap_step base (Free p) (h, A) =
     (if p - 8 \<in> fst ` set A then
        (case free p h of None \<Rightarrow> None | Some h' \<Rightarrow> Some (h', filter (\<lambda>(a, _). a \<noteq> p - 8) A))
      else Some (h, A))"
| "heap_step base (Store a v w) (h, A) =
     Some (if list_ex (\<lambda>(b, _). b < a \<and> unat a < ext h b) A then set_size a w (set_ptr a v h) else h, A)"

definition blocks_ok :: "u32 \<Rightarrow> heap \<Rightarrow> owned_blocks \<Rightarrow> bool" where
  "blocks_ok lo h A \<longleftrightarrow>
     distinct (map fst A) \<and>
     (\<forall>(a, n) \<in> set A. lo \<le> a \<and> unat a + 8 + unat n \<le> ext h a \<and> ext h a \<le> unat (brk h)) \<and>
     (\<forall>(a, n) \<in> set A. \<forall>(b, m) \<in> set A. a \<noteq> b \<longrightarrow> area h a \<inter> area h b = {})"

definition heap_inv :: "u32 \<Rightarrow> u32 \<Rightarrow> heap \<times> owned_blocks \<Rightarrow> bool" where
  "heap_inv base lo s \<longleftrightarrow>
     (case s of (h, A) \<Rightarrow>
        blocks_ok lo h A \<and>
        ((\<exists>ns. chain_ok base lo h ns \<and> freep h \<in> set ns \<and> (\<forall>(a, n) \<in> set A. area h a \<inter> free_area h ns = {})) \<or>
         freep h = 0 \<and> A = [] \<and> base < lo \<and> base \<noteq> 0 \<and> lo \<le> brk h \<and> brk h \<le> 0x80000000))"

lemma blocks_apart:
  assumes "blocks_ok lo h A" and "(a, n) \<in> set A" and "(b, m) \<in> set A" and "a \<noteq> b"
  shows "area h a \<inter> area h b = {}"
proof -
  have "\<forall>(a, n) \<in> set A. \<forall>(b, m) \<in> set A. a \<noteq> b \<longrightarrow> area h a \<inter> area h b = {}"
    using assms(1) unfolding blocks_ok_def by (rule conjunct2 [OF conjunct2])
  from bspec [OF bspec [OF this assms(2), simplified] assms(3)] assms(4) show ?thesis by simp
qed

lemma blocksI:
  assumes "distinct (map fst A)" and "\<And>a n. (a, n) \<in> set A \<Longrightarrow> lo \<le> a \<and> unat a + 8 + unat n \<le> ext h a \<and> ext h a \<le> unat (brk h)"
    and "\<And>a n b m. (a, n) \<in> set A \<Longrightarrow> (b, m) \<in> set A \<Longrightarrow> a \<noteq> b \<Longrightarrow> area h a \<inter> area h b = {}"
  shows "blocks_ok lo h A"
  unfolding blocks_ok_def using assms by (intro conjI ballI; clarify)

lemma blocks_frame:
  assumes b: "blocks_ok lo h A" and s: "same_at h h' (fst ` set A)" and le: "brk h \<le> brk h'"
  shows "blocks_ok lo h' A" and "(a, n) \<in> set A \<Longrightarrow> area h' a = area h a"
proof -
  have e: "ext h' a = ext h a \<and> area h' a = area h a" if "(a, n) \<in> set A" for a n
    using that ext_frame [OF s] area_frame [OF s] by force
  then show "(a, n) \<in> set A \<Longrightarrow> area h' a = area h a" by blast
  have "unat (brk h) \<le> unat (brk h')" using le by (simp add: word_le_nat_alt)
  then have bound: "lo \<le> a \<and> unat a + 8 + unat n \<le> ext h' a \<and> ext h' a \<le> unat (brk h')" if "(a, n) \<in> set A" for a n
    using b e [OF that] that unfolding blocks_ok_def by fastforce
  show "blocks_ok lo h' A"
  proof (rule blocksI)
    show "distinct (map fst A)" using b by (simp add: blocks_ok_def)
    fix a n c m assume ab: "(a, n) \<in> set A" "(c, m) \<in> set A" "a \<noteq> c"
    show "area h' a \<inter> area h' c = {}" using blocks_apart [OF b ab] e [OF ab(1)] e [OF ab(2)] by simp
  qed (rule bound)
qed

lemma block_facts:
  assumes "blocks_ok lo h A" and "(a, n) \<in> set A"
  shows "lo \<le> a" and "hsize h a \<noteq> 0" and "unat a \<in> area h a" and "area h a \<subseteq> {..<unat (brk h)}" and "ext h a \<le> unat (brk h)"
proof -
  have a: "lo \<le> a" "unat a + 8 + unat n \<le> ext h a" "ext h a \<le> unat (brk h)" using assms by (auto simp: blocks_ok_def)
  then show "lo \<le> a" "ext h a \<le> unat (brk h)" by auto
  have "unat (hsize h a) \<noteq> 0" using a(2) by (auto simp: ext_def)
  then show "hsize h a \<noteq> 0" by auto
  then show "unat a \<in> area h a" by (rule in_area)
  show "area h a \<subseteq> {..<unat (brk h)}" using a by (auto simp: area_def)
qed

lemma heap_invI:
  assumes "blocks_ok lo h A" and "chain_ok base lo h ns" and "freep h \<in> set ns"
    and "\<And>a n. (a, n) \<in> set A \<Longrightarrow> area h a \<inter> free_area h ns = {}"
  shows "heap_inv base lo (h, A)"
proof -
  have "\<forall>(a, n) \<in> set A. area h a \<inter> free_area h ns = {}" using assms(4) by auto
  then show ?thesis unfolding heap_inv_def case_prod_conv using assms(1-3) by blast
qed

lemma malloc_ready:
  assumes "heap_inv base lo (h, A)"
  obtains h1 ns where "\<And>n. malloc base n h = malloc_loop (malloc_units n) (freep h1) (hptr h1 (freep h1)) h1"
    and "chain_ok base lo h1 ns" and "freep h1 \<in> set ns" and "blocks_ok lo h1 A"
    and "\<And>a n. (a, n) \<in> set A \<Longrightarrow> area h1 a \<inter> free_area h1 ns = {}"
proof (cases "freep h = 0")
  case False
  then obtain ns where n: "chain_ok base lo h ns" "freep h \<in> set ns" "\<forall>(a, n) \<in> set A. area h a \<inter> free_area h ns = {}" "blocks_ok lo h A"
    using assms unfolding heap_inv_def by auto
  have "malloc base n h = malloc_loop (malloc_units n) (freep h) (hptr h (freep h)) h" for n using False by (simp add: malloc_def)
  then show thesis using n(1,2,4) by (rule that) (use n(3) in auto)
next
  case True
  then have "\<not> (\<exists>ns. chain_ok base lo h ns \<and> freep h \<in> set ns)"
    using chain_base_le [of base lo h _ 0] by (auto simp: chain_ok_def)
  then have z: "A = []" "base < lo" "base \<noteq> 0" "lo \<le> brk h" "brk h \<le> 0x80000000"
    using assms unfolding heap_inv_def by auto
  let ?h = "(set_size base 0 (set_ptr base base h))\<lparr>freep := base\<rparr>"
  have "unat base \<le> unat (brk h)" using z(2,4) by (simp add: word_le_nat_alt word_less_nat_alt)
  then have "chain_ok base lo ?h [base]" using z by (simp add: chain_ok_def ext_def)
  then show thesis using True z(1) by (intro that [of ?h "[base]"]) (auto simp: malloc_def blocks_ok_def)
qed

lemma malloc_step_ok:
  assumes inv: "heap_inv base lo (h, A)" and n: "n \<le> 0xFFFFFFF0"
  shows "\<exists>s'. heap_step base (Malloc n) (h, A) = Some s' \<and> heap_inv base lo s'"
proof -
  obtain h1 ns where run: "\<And>n. malloc base n h = malloc_loop (malloc_units n) (freep h1) (hptr h1 (freep h1)) h1"
      and c: "chain_ok base lo h1 ns" and f: "freep h1 \<in> set ns" and b: "blocks_ok lo h1 A"
      and d: "\<And>a n. (a, n) \<in> set A \<Longrightarrow> area h1 a \<inter> free_area h1 ns = {}"
    by (rule malloc_ready [OF inv]) (rule that)
  obtain p h' where m: "malloc base n h = Some (p, h')"
      and r: "p = 0 \<and> h' = h1 \<or> brk h1 \<le> brk h' \<and> given base lo (malloc_units n) h1 ns {unat (brk h1)..<unat (brk h')} p h'"
    using malloc_loop_ok [OF c f malloc_units_exact(2,3) [OF n]] run by auto
  show ?thesis
  proof (cases "p = 0")
    case True
    then have "h' = h1" using r by (auto simp: given_def)
    then show ?thesis using m True heap_invI [OF b c f d] by simp
  next
    case False
    let ?new = "{unat (brk h1)..<unat (brk h')}" and ?q = "p - 8"
    have le: "brk h1 \<le> brk h'" using r False by blast
    obtain ns' where g: "chain_ok base lo h' ns'" "freep h' \<in> set ns'" "lo \<le> ?q" "hsize h' ?q = malloc_units n"
        "ext h' ?q \<le> unat (brk h')" "area h' ?q \<inter> free_area h' ns' = {}"
        "area h' ?q \<union> free_area h' ns' = free_area h1 ns \<union> ?new" "same_at h1 h' (outside base (free_area h1 ns \<union> ?new))"
      using r False unfolding given_def by blast
    have owned: "area h1 a \<inter> (free_area h1 ns \<union> ?new) = {}" if "(a, k) \<in> set A" for a k
      using d [OF that] block_facts(4) [OF b that] by fastforce
    have "fst ` set A \<subseteq> outside base (free_area h1 ns \<union> ?new)"
    proof
      fix a assume "a \<in> fst ` set A"
      then obtain k where k: "(a, k) \<in> set A" by auto
      have "a \<noteq> base" using block_facts(1) [OF b k] c by (auto simp: chain_ok_def)
      then show "a \<in> outside base (free_area h1 ns \<union> ?new)"
        using owned [OF k] block_facts(3) [OF b k] by (auto simp: outside_def)
    qed
    then have same: "same_at h1 h' (fst ` set A)" by (rule same_at_mono [OF g(8)])
    note fr = blocks_frame [OF b same le]
    have d': "area h' a \<inter> (area h' ?q \<union> free_area h' ns') = {}" if "(a, k) \<in> set A" for a k
      unfolding g(7) fr(2) [OF that] by (rule owned [OF that])
    have qq: "unat ?q \<in> area h' ?q" by (rule in_area) (use g(4) malloc_units_exact(3) [OF n] in simp)
    have nin: "?q \<notin> fst ` set A"
    proof
      assume "?q \<in> fst ` set A"
      then obtain k where "(?q, k) \<in> set A" by auto
      then show False using d' qq by blast
    qed
    have room: "unat ?q + 8 + unat n \<le> ext h' ?q" using malloc_units_exact(1) [OF n] by (simp add: ext_def g(4))
    have new: "blocks_ok lo h' ((?q, n) # A)"
    proof (rule blocksI)
      show "distinct (map fst ((?q, n) # A))" using fr(1) nin by (simp add: blocks_ok_def)
      fix a k assume "(a, k) \<in> set ((?q, n) # A)"
      then show "lo \<le> a \<and> unat a + 8 + unat k \<le> ext h' a \<and> ext h' a \<le> unat (brk h')"
        using room g(3,5) fr(1) unfolding blocks_ok_def by fastforce
    next
      fix a k b' l assume ab: "(a, k) \<in> set ((?q, n) # A)" "(b', l) \<in> set ((?q, n) # A)" "a \<noteq> b'"
      then consider "a = ?q" "(b', l) \<in> set A" | "b' = ?q" "(a, k) \<in> set A" | "(a, k) \<in> set A" "(b', l) \<in> set A" by auto
      then show "area h' a \<inter> area h' b' = {}"
        using d' blocks_apart [OF fr(1) _ _ ab(3)] by cases blast+
    qed
    have apart: "area h' a \<inter> free_area h' ns' = {}" if "(a, k) \<in> set ((?q, n) # A)" for a k
      using that d' [of a k] g(6) by auto
    have "heap_inv base lo (h', (?q, n) # A)"
      using new g(1,2) apart by (rule heap_invI)
    then show ?thesis using m False by simp
  qed
qed

lemma free_step_ok:
  assumes inv: "heap_inv base lo (h, A)"
  shows "\<exists>s'. heap_step base (Free p) (h, A) = Some s' \<and> heap_inv base lo s'"
proof (cases "p - 8 \<in> fst ` set A")
  case False
  then show ?thesis using inv by auto
next
  case True
  let ?q = "p - 8"
  let ?A = "filter (\<lambda>(a, _). a \<noteq> ?q) A"
  obtain n where q: "(?q, n) \<in> set A" using True by auto
  have b: "blocks_ok lo h A" and "A \<noteq> []" using inv q unfolding heap_inv_def by auto
  then obtain ns where c: "chain_ok base lo h ns" and f: "freep h \<in> set ns"
      and d: "\<forall>(a, n) \<in> set A. area h a \<inter> free_area h ns = {}"
    using inv unfolding heap_inv_def by auto
  have dq: "area h a \<inter> free_area h ns = {}" if "(a, k) \<in> set A" for a k using d that by auto
  obtain h' ns' where r: "free (?q + 8) h = Some h'" "chain_ok base lo h' ns'" "freep h' \<in> set ns'" "brk h' = brk h"
      "free_area h' ns' = area h ?q \<union> free_area h ns" "same_at h h' (- insert ?q (set ns))"
    using free_ok [OF c f block_facts(1,2,5) [OF b q] dq [OF q]] by blast
  have sub: "set ?A \<subseteq> set A" by auto
  have notin: "a \<noteq> ?q \<and> a \<notin> set ns" if "(a, k) \<in> set ?A" for a k
  proof -
    have a: "(a, k) \<in> set A" "a \<noteq> ?q" using that by auto
    have "a \<noteq> base" using block_facts(1) [OF b a(1)] c by (auto simp: chain_ok_def)
    then show ?thesis using in_free_area [OF c, of a] dq [OF a(1)] block_facts(3) [OF b a(1)] a(2) by blast
  qed
  have same: "same_at h h' (fst ` set ?A)" by (rule same_at_mono [OF r(6)]) (use notin in force)
  have bA: "blocks_ok lo h ?A"
  proof (rule blocksI)
    show "distinct (map fst ?A)" using b by (simp add: blocks_ok_def distinct_map_filter)
    fix a k assume "(a, k) \<in> set ?A"
    then show "lo \<le> a \<and> unat a + 8 + unat k \<le> ext h a \<and> ext h a \<le> unat (brk h)"
      using b sub unfolding blocks_ok_def by fastforce
  next
    fix a k b' l assume "(a, k) \<in> set ?A" "(b', l) \<in> set ?A" "a \<noteq> b'"
    then show "area h a \<inter> area h b' = {}" using blocks_apart [OF b] sub by blast
  qed
  have le: "brk h \<le> brk h'" by (simp add: r(4))
  note fr = blocks_frame [OF bA same le]
  have apart: "area h' a \<inter> free_area h' ns' = {}" if m: "(a, k) \<in> set ?A" for a k
  proof -
    have a: "(a, k) \<in> set A" "a \<noteq> ?q" using m by auto
    then show ?thesis unfolding fr(2) [OF m] r(5) using blocks_apart [OF b a(1) q a(2)] dq [OF a(1)] by blast
  qed
  have "heap_inv base lo (h', ?A)"
    using fr(1) r(2,3) apart by (rule heap_invI)
  then show ?thesis using True r(1) by simp
qed

lemma store_step_ok:
  assumes inv: "heap_inv base lo (h, A)"
  shows "\<exists>s'. heap_step base (Store a v w) (h, A) = Some s' \<and> heap_inv base lo s'"
proof (cases "list_ex (\<lambda>(b, _). b < a \<and> unat a < ext h b) A")
  case False
  then show ?thesis using inv by simp
next
  case True
  then obtain b' k where o: "(b', k) \<in> set A" "b' < a" "unat a < ext h b'" by (auto simp: list_ex_iff)
  have b: "blocks_ok lo h A" and "A \<noteq> []" using inv o unfolding heap_inv_def by auto
  then obtain ns where c: "chain_ok base lo h ns" and f: "freep h \<in> set ns"
      and d: "\<forall>(a, n) \<in> set A. area h a \<inter> free_area h ns = {}"
    using inv unfolding heap_inv_def by auto
  let ?h = "set_size a w (set_ptr a v h)"
  have ina: "unat a \<in> area h b'" using o by (simp add: area_def word_less_nat_alt)
  have "lo \<le> b'" using block_facts(1) [OF b o(1)] .
  then have ab: "a \<noteq> base" using o(2) c by (auto simp: chain_ok_def)
  have "a \<notin> set ns" using in_free_area [OF c _ ab] d o(1) ina by blast
  then have s1: "same_at h ?h (set ns)" by (auto simp: same_at_def)
  have "a \<notin> fst ` set A"
  proof
    assume "a \<in> fst ` set A"
    then obtain l where l: "(a, l) \<in> set A" by auto
    have "a \<noteq> b'" using o(2) by simp
    then show False using blocks_apart [OF b l o(1)] block_facts(3) [OF b l] ina by blast
  qed
  then have s2: "same_at h ?h (fst ` set A)" by (auto simp: same_at_def)
  have le: "brk h \<le> brk ?h" by simp
  note fr = blocks_frame [OF b s2 le]
  have "brk h \<le> 0x80000000" using c by (simp add: chain_ok_def)
  then have "chain_ok base lo ?h ns" using chain_cong [OF c s1 le] by simp
  moreover have "area ?h a \<inter> free_area ?h ns = {}" if "(a, n) \<in> set A" for a n
    unfolding fr(2) [OF that] free_area_frame [OF s1] using d that by auto
  moreover have "freep ?h \<in> set ns" using f by simp
  ultimately have "heap_inv base lo (?h, A)" using fr(1) by (intro heap_invI)
  then show ?thesis using True by simp
qed

section \<open>Properties\<close>

definition fresh_heap :: "u32 \<Rightarrow> heap" where
  "fresh_heap lo = \<lparr>hptr = (\<lambda>_. 0), hsize = (\<lambda>_. 0), freep = 0, brk = lo\<rparr>"

fun sane_request :: "heap_op \<Rightarrow> bool" where
  "sane_request (Malloc n) \<longleftrightarrow> n \<le> 0xFFFFFFF0"
| "sane_request _ \<longleftrightarrow> True"

lemma heap_run_ok:
  "list_all sane_request ops \<Longrightarrow> heap_inv base lo s \<Longrightarrow> \<exists>s'. run (heap_step base) ops s = Some s' \<and> heap_inv base lo s'"
proof (induction ops arbitrary: s)
  case (Cons c ops)
  obtain h A where s: "s = (h, A)" by fastforce
  have inv: "heap_inv base lo (h, A)" using Cons.prems(2) s by simp
  have "\<exists>s1. heap_step base c (h, A) = Some s1 \<and> heap_inv base lo s1"
  proof (cases c)
    case (Malloc n)
    then have "n \<le> 0xFFFFFFF0" using Cons.prems(1) by simp
    from malloc_step_ok [OF inv this] show ?thesis unfolding Malloc .
  next
    case (Free p)
    show ?thesis unfolding Free by (rule free_step_ok [OF inv])
  next
    case (Store a v w)
    show ?thesis unfolding Store by (rule store_step_ok [OF inv])
  qed
  then obtain s1 where s1: "heap_step base c s = Some s1" "heap_inv base lo s1" unfolding s by blast
  have "list_all sane_request ops" using Cons.prems(1) by simp
  from Cons.IH [OF this s1(2)] show ?case using s1(1) by simp
qed simp

text \<open>C35. The user allocator is safe and total: starting from an empty heap, every sequence of malloc, free of owned blocks and arbitrary stores
  into owned blocks runs to its end, so no search of the circular free list runs for ever, and afterwards the blocks in use are disjoint, lie between the
  initial and the current break, and are as large as was asked for. Requests are at most 0xFFFFFFF0 bytes, because the size computation wraps above.\<close>

theorem malloc_safe:
  assumes "base < lo" and "base \<noteq> 0" and "lo \<le> 0x80000000" and "list_all sane_request ops"
  shows "\<exists>h A. run (heap_step base) ops (fresh_heap lo, []) = Some (h, A) \<and> distinct (map fst A) \<and>
    (\<forall>(a, n) \<in> set A. lo \<le> a \<and> unat a + 8 + unat n \<le> ext h a \<and> ext h a \<le> unat (brk h)) \<and>
    (\<forall>(a, n) \<in> set A. \<forall>(b, m) \<in> set A. a \<noteq> b \<longrightarrow> area h a \<inter> area h b = {})"
proof -
  have "heap_inv base lo (fresh_heap lo, [])"
    using assms(1-3) by (simp add: heap_inv_def blocks_ok_def fresh_heap_def)
  from heap_run_ok [OF assms(4) this] obtain h A where r: "run (heap_step base) ops (fresh_heap lo, []) = Some (h, A)"
      and i: "heap_inv base lo (h, A)" by (metis surj_pair)
  have "blocks_ok lo h A" using i unfolding heap_inv_def case_prod_conv by (rule conjunct1)
  then have "distinct (map fst A) \<and>
    (\<forall>(a, n) \<in> set A. lo \<le> a \<and> unat a + 8 + unat n \<le> ext h a \<and> ext h a \<le> unat (brk h)) \<and>
    (\<forall>(a, n) \<in> set A. \<forall>(b, m) \<in> set A. a \<noteq> b \<longrightarrow> area h a \<inter> area h b = {})"
    unfolding blocks_ok_def .
  from conjI [OF r this] show ?thesis by (intro exI)
qed

theorem malloc_safe_witness:
  "\<exists>h A. run (heap_step 100) [Malloc 20, Malloc 5000, Free 4104, Malloc 8] (fresh_heap 4096, []) = Some (h, A) \<and> distinct (map fst A)"
proof -
  have "list_all sane_request [Malloc 20, Malloc 5000, Free 4104, Malloc 8]" by simp
  from malloc_safe [OF _ _ _ this, of 100 4096] obtain h A where
    "run (heap_step 100) [Malloc 20, Malloc 5000, Free 4104, Malloc 8] (fresh_heap 4096, []) = Some (h, A)" "distinct (map fst A)"
    by auto
  then show ?thesis by blast
qed

end
