(* ===== verification/Shell.thy ===== *)
theory Shell
  imports Prelude
begin

text \<open>
  The shell (\<^verbatim>\<open>sh.c\<close>): its lexer and recursive-descent parser, the termination of the words with NULs, and the execution of
  the parsed command on file descriptor tables. A pointer into the line is an index, and a cursor pairs it with the text from there to
  \<^verbatim>\<open>es\<close>. The constructors' \<open>malloc\<close> is taken to succeed. \<open>Panic\<close> is the shell's \<^verbatim>\<open>panic\<close>, which ends the
  process with a message. The mutually recursive parsing functions carry fuel, and \<open>NoFuel\<close> is running out of it.
\<close>

section \<open>Commands\<close>

text \<open>The parser gives commands over words in the line, pairs of the first index and the index behind; the mode and descriptor of a
  redirection are numbers.\<close>

type_synonym word_at = "nat \<times> nat"

datatype 'w cmd =
    EXEC "'w list"
  | REDIR "'w cmd" 'w nat nat
  | PIPE "'w cmd" "'w cmd"
  | LIST "'w cmd" "'w cmd"
  | BACK "'w cmd"

type_synonym wcmd = "word_at cmd"

definition MAXARGS :: nat where "MAXARGS = 10"

datatype 'a parsed = NoFuel | Panic string | Parsed 'a

fun and_then :: "'a parsed \<Rightarrow> ('a \<Rightarrow> 'b parsed) \<Rightarrow> 'b parsed" where
  "and_then NoFuel f = NoFuel"
| "and_then (Panic m) f = Panic m"
| "and_then (Parsed x) f = f x"

section \<open>Lexer\<close>

type_synonym cursor = "nat \<times> string"

text \<open>Blank, tab, carriage return, newline and vertical tab.\<close>

definition whitespace :: string where "whitespace = [CHR 0x20, CHR 0x09, CHR 0x0D, CHR 0x0A, CHR 0x0B]"
definition symbols :: string where "symbols = ''<|>&;()''"

definition blank :: "char \<Rightarrow> bool" where "blank c \<longleftrightarrow> c \<in> set whitespace"
definition wordchar :: "char \<Rightarrow> bool" where "wordchar c \<longleftrightarrow> c \<notin> set whitespace \<and> c \<notin> set symbols"

definition skip_while :: "(char \<Rightarrow> bool) \<Rightarrow> cursor \<Rightarrow> cursor" where
  "skip_while P c = (case c of (i, r) \<Rightarrow> (i + length (takeWhile P r), dropWhile P r))"

text \<open>The token at a cursor that stands on no blank: its kind, where 0 is the end and \<^verbatim>\<open>a\<close> a word, and the cursor behind it.\<close>

definition lex_token :: "cursor \<Rightarrow> char \<times> cursor" where
  "lex_token c =
     (case c of (i, r) \<Rightarrow>
        case r of
          [] \<Rightarrow> (CHR 0x00, c)
        | x # r' \<Rightarrow>
            if x \<in> set ''|();&<'' then (x, (i + 1, r'))
            else if x = CHR ''>'' then
              (case r' of y # r'' \<Rightarrow> if y = CHR ''>'' then (CHR ''+'', (i + 2, r'')) else (CHR ''>'', (i + 1, r'))
                 | [] \<Rightarrow> (CHR ''>'', (i + 1, r')))
            else (CHR ''a'', skip_while wordchar c))"

definition gettoken :: "cursor \<Rightarrow> char \<times> word_at \<times> cursor" where
  "gettoken c =
     (let c1 = skip_while blank c
      in case lex_token c1 of (ret, c2) \<Rightarrow> (ret, (fst c1, fst c2), skip_while blank c2))"

definition peek :: "string \<Rightarrow> cursor \<Rightarrow> bool \<times> cursor" where
  "peek toks c =
     (let c1 = skip_while blank c
      in (case snd c1 of [] \<Rightarrow> False | x # _ \<Rightarrow> x \<in> set toks, c1))"

lemma skip_while_le: "length (snd (skip_while P c)) \<le> length (snd c)"
  by (cases c) (simp add: skip_while_def length_dropWhile_le)

lemma peek_le: "peek t c = (b, c') \<Longrightarrow> length (snd c') \<le> length (snd c)"
  using skip_while_le [of blank c] by (auto simp: peek_def Let_def)

lemma lex_le: "lex_token c = (t, c') \<Longrightarrow> length (snd c') \<le> length (snd c)"
  using skip_while_le [of wordchar c] by (cases c) (auto simp: lex_token_def split: list.splits if_splits)

lemma gettoken_le: "gettoken c = (t, w, c') \<Longrightarrow> length (snd c') \<le> length (snd c)"
proof -
  assume g: "gettoken c = (t, w, c')"
  obtain t' c2 where l: "lex_token (skip_while blank c) = (t', c2)" by (rule prod.exhaust)
  have "c' = skip_while blank c2" using g l by (simp add: gettoken_def Let_def)
  then show ?thesis
    using skip_while_le [of blank c2] lex_le [OF l] skip_while_le [of blank c] by simp
qed

text \<open>A token other than the end is not empty.\<close>

lemma lex_less:
  assumes "lex_token c = (t, c')" and "snd c \<noteq> []" and "\<not> blank (hd (snd c))"
  shows "length (snd c') < length (snd c)"
proof -
  obtain i x r where c: "c = (i, x # r)" using assms(2) by (cases c) (auto simp: neq_Nil_conv)
  have "\<not> blank x" using assms(3) c by simp
  then have w: "x \<notin> set ''|();&<'' \<Longrightarrow> x \<noteq> CHR ''>'' \<Longrightarrow> wordchar x"
    by (auto simp: wordchar_def blank_def symbols_def)
  have "length (dropWhile wordchar r) \<le> length r" by (rule length_dropWhile_le)
  then show ?thesis
    using assms(1) w unfolding c
    by (auto simp: lex_token_def skip_while_def split: list.splits if_splits)
qed

lemma skipped_not_blank: "snd (skip_while blank c) \<noteq> [] \<Longrightarrow> \<not> blank (hd (snd (skip_while blank c)))"
  by (cases c) (simp add: skip_while_def hd_dropWhile)

lemma gettoken_less:
  assumes "gettoken c = (t, w, c')" and "t \<noteq> CHR 0x00"
  shows "length (snd c') < length (snd c)"
proof -
  let ?c1 = "skip_while blank c"
  obtain c2 where l: "lex_token ?c1 = (t, c2)" "c' = skip_while blank c2"
    using assms(1) by (auto simp: gettoken_def Let_def split: prod.splits)
  have "snd ?c1 \<noteq> []" using l(1) assms(2) by (cases ?c1) (auto simp: lex_token_def)
  from lex_less [OF l(1) this skipped_not_blank [OF this]] show ?thesis
    using skip_while_le [of blank c] skip_while_le [of blank c2] l(2) by simp
qed

lemma takeWhile_dropWhile_same: "takeWhile P (dropWhile P xs) = []"
  by (induction xs) auto

lemma skip_twice: "skip_while P (skip_while P c) = skip_while P c"
  by (cases c) (simp add: skip_while_def takeWhile_dropWhile_same)

lemma gettoken_after_peek:
  assumes "peek toks c = (True, c1)" and "gettoken c1 = (t, w, c')"
  shows "length (snd c') < length (snd c)"
proof -
  have c1: "c1 = skip_while blank c" "snd c1 \<noteq> []" using assms(1) by (auto simp: peek_def Let_def split: list.splits)
  have same: "skip_while blank c1 = c1" unfolding c1 by (rule skip_twice)
  obtain c2 where l: "lex_token c1 = (t, c2)" "c' = skip_while blank c2"
    using assms(2) by (auto simp: gettoken_def Let_def same split: prod.splits)
  have "\<not> blank (hd (snd c1))" using skipped_not_blank c1 by simp
  from lex_less [OF l(1) c1(2) this] show ?thesis
    using skip_while_le [of blank c] skip_while_le [of blank c2] l(2) c1(1) by simp
qed

section \<open>Parser\<close>

definition O_RDONLY_SH :: nat where "O_RDONLY_SH = 0"
definition O_WRCREATE :: nat where "O_WRCREATE = 0x201"

text \<open>The redirection that a token asks for.\<close>

definition redir_of :: "char \<Rightarrow> 'w \<Rightarrow> 'w cmd \<Rightarrow> 'w cmd" where
  "redir_of tok w cmd =
     (if tok = CHR ''<'' then REDIR cmd w O_RDONLY_SH 0
      else if tok = CHR ''>'' \<or> tok = CHR ''+'' then REDIR cmd w O_WRCREATE 1
      else cmd)"

text \<open>
  \<open>parseredirs\<close> wraps its command in redirections. The result is the function that wraps, because \<open>parseexec\<close> goes on filling the innermost command
  after it has been wrapped.
\<close>

function parseredirs :: "(wcmd \<Rightarrow> wcmd) \<Rightarrow> cursor \<Rightarrow> ((wcmd \<Rightarrow> wcmd) \<times> cursor) parsed" where
  "parseredirs wrap c =
     (case peek ''<>'' c of (b, c1) \<Rightarrow>
        if \<not> b then Parsed (wrap, c1)
        else case gettoken c1 of (tok, _, c2) \<Rightarrow>
          case gettoken c2 of (t, w, c3) \<Rightarrow>
            if t \<noteq> CHR ''a'' then Panic ''missing file for redirection''
            else parseredirs (\<lambda>cmd. redir_of tok w (wrap cmd)) c3)"
  by pat_completeness auto
termination
proof (relation "measure (\<lambda>(wrap, c). length (snd c))")
  fix wrap :: "wcmd \<Rightarrow> wcmd" and c c1 c2 c3 :: cursor and b x tok y yy t z w
  assume a: "(b, c1) = peek ''<>'' c" "\<not> \<not> b" "(tok, y) = gettoken c1" "(yy, c2) = y" "(t, z) = gettoken c2" "(w, c3) = z"
  then have "length (snd c2) < length (snd c)" using gettoken_after_peek [of "''<>''" c c1 tok yy c2] by auto
  moreover have "length (snd c3) \<le> length (snd c2)" using a gettoken_le [of c2 t w c3] by auto
  ultimately show "((\<lambda>cmd. redir_of tok w (wrap cmd), c3), wrap, c) \<in> measure (\<lambda>(wrap, c). length (snd c))" by simp
qed simp

declare parseredirs.simps [simp del]

lemma parseredirs_le: "parseredirs wrap c = Parsed (wrap', c') \<Longrightarrow> length (snd c') \<le> length (snd c)"
proof (induction wrap c rule: parseredirs.induct)
  case (1 wrap c)
  obtain b c1 where p: "peek ''<>'' c = (b, c1)" by (rule prod.exhaust)
  show ?case
  proof (cases b)
    case False
    then show ?thesis using "1.prems" p peek_le [OF p] by (subst (asm) parseredirs.simps) auto
  next
    case True
    obtain tok v c2 where g: "gettoken c1 = (tok, v, c2)" by (rule prod_cases3)
    obtain t w c3 where h: "gettoken c2 = (t, w, c3)" by (rule prod_cases3)
    have r: "t = CHR ''a''" "parseredirs (\<lambda>cmd. redir_of tok w (wrap cmd)) c3 = Parsed (wrap', c')"
      using "1.prems" p True g h by (subst (asm) parseredirs.simps; auto split: if_splits)+
    have "length (snd c') \<le> length (snd c3)"
      using "1.IH" [of b c1 tok "(v, c2)" v c2 t "(w, c3)" w c3] p True g h r by simp
    then show ?thesis using peek_le [OF p] gettoken_le [OF g] gettoken_le [OF h] by simp
  qed
qed

lemma parseredirs_fuel: "parseredirs wrap c \<noteq> NoFuel"
proof (induction wrap c rule: parseredirs.induct)
  case (1 wrap c)
  obtain b c1 where p: "peek ''<>'' c = (b, c1)" by (rule prod.exhaust)
  obtain tok v c2 where g: "gettoken c1 = (tok, v, c2)" by (rule prod_cases3)
  obtain t w c3 where h: "gettoken c2 = (t, w, c3)" by (rule prod_cases3)
  show ?case
    using 1 [of b c1 tok "(v, c2)" v c2 t "(w, c3)" w c3] p g h
    by (subst parseredirs.simps) auto
qed

lemma args_less:
  assumes "peek toks c = (b, c1)" and "gettoken c1 = (t, w, c2)" and "t \<noteq> CHR 0x00" and "parseredirs wrap c2 = Parsed (wrap', c3)"
  shows "length (snd c3) < length (snd c)"
  using peek_le [OF assms(1)] gettoken_less [OF assms(2,3)] parseredirs_le [OF assms(4)] by simp

text \<open>The loop of \<open>parseexec\<close> over the words: \<open>wrap\<close> are the redirections and \<open>argv\<close> the words so far.\<close>

function parse_args :: "(wcmd \<Rightarrow> wcmd) \<Rightarrow> word_at list \<Rightarrow> cursor \<Rightarrow> (wcmd \<times> cursor) parsed" where
  "parse_args wrap argv c =
     (case peek ''|)&;'' c of (b, c1) \<Rightarrow>
        if b then Parsed (wrap (EXEC argv), c1)
        else case gettoken c1 of (tok, w, c2) \<Rightarrow>
          if tok = CHR 0x00 then Parsed (wrap (EXEC argv), c2)
          else if tok \<noteq> CHR ''a'' then Panic ''syntax''
          else if length argv + 1 \<ge> MAXARGS then Panic ''too many args''
          else case parseredirs wrap c2 of
              Parsed (wrap', c3) \<Rightarrow> parse_args wrap' (argv @ [w]) c3
            | Panic m \<Rightarrow> Panic m
            | NoFuel \<Rightarrow> NoFuel)"
  by pat_completeness auto
termination
  by (relation "measure (\<lambda>(wrap, argv, c). length (snd c))") (auto intro: args_less [OF sym sym])

declare parse_args.simps [simp del]

text \<open>The loop of \<open>parseline\<close> over ampersands.\<close>

function parse_backs :: "wcmd \<Rightarrow> cursor \<Rightarrow> wcmd \<times> cursor" where
  "parse_backs cmd c =
     (case peek ''&'' c of (b, c1) \<Rightarrow>
        if b then (case gettoken c1 of (_, _, c2) \<Rightarrow> parse_backs (BACK cmd) c2) else (cmd, c1))"
  by pat_completeness auto
termination
  by (relation "measure (\<lambda>(cmd, c). length (snd c))") (auto intro: gettoken_after_peek [OF sym sym])

declare parse_backs.simps [simp del]

fun parseline :: "nat \<Rightarrow> cursor \<Rightarrow> (wcmd \<times> cursor) parsed"
  and parsepipe :: "nat \<Rightarrow> cursor \<Rightarrow> (wcmd \<times> cursor) parsed"
  and parseexec :: "nat \<Rightarrow> cursor \<Rightarrow> (wcmd \<times> cursor) parsed"
  and parseblock :: "nat \<Rightarrow> cursor \<Rightarrow> (wcmd \<times> cursor) parsed" where
  "parseline 0 c = NoFuel"
| "parseline (Suc n) c =
     and_then (parsepipe n c) (\<lambda>(cmd, c1).
       case parse_backs cmd c1 of (cmd', c2) \<Rightarrow>
       case peek '';'' c2 of (b, c3) \<Rightarrow>
         if b then (case gettoken c3 of (_, _, c4) \<Rightarrow>
           and_then (parseline n c4) (\<lambda>(r, c5). Parsed (LIST cmd' r, c5)))
         else Parsed (cmd', c3))"
| "parsepipe 0 c = NoFuel"
| "parsepipe (Suc n) c =
     and_then (parseexec n c) (\<lambda>(cmd, c1).
       case peek ''|'' c1 of (b, c2) \<Rightarrow>
         if b then (case gettoken c2 of (_, _, c3) \<Rightarrow>
           and_then (parsepipe n c3) (\<lambda>(r, c4). Parsed (PIPE cmd r, c4)))
         else Parsed (cmd, c2))"
| "parseexec 0 c = NoFuel"
| "parseexec (Suc n) c =
     (case peek ''('' c of (b, c1) \<Rightarrow>
        if b then parseblock n c1
        else and_then (parseredirs (\<lambda>cmd. cmd) c1) (\<lambda>(wrap, c2). parse_args wrap [] c2))"
| "parseblock 0 c = NoFuel"
| "parseblock (Suc n) c =
     (case peek ''('' c of (b, c1) \<Rightarrow>
        if \<not> b then Panic ''parseblock''
        else case gettoken c1 of (_, _, c2) \<Rightarrow>
          and_then (parseline n c2) (\<lambda>(cmd, c3).
            case peek '')'' c3 of (b', c4) \<Rightarrow>
              if \<not> b' then Panic ''syntax - missing )''
              else case gettoken c4 of (_, _, c5) \<Rightarrow>
                and_then (parseredirs (\<lambda>cmd. cmd) c5) (\<lambda>(wrap, c6). Parsed (wrap cmd, c6))))"

text \<open>The NULs that \<open>nulterminate\<close> writes behind the words.\<close>

primrec nulterminate :: "wcmd \<Rightarrow> string \<Rightarrow> string" where
  "nulterminate (EXEC argv) buf = fold (\<lambda>(q, e) b. b[e := CHR 0x00]) argv buf"
| "nulterminate (REDIR cmd w mode fd) buf = (nulterminate cmd buf)[snd w := CHR 0x00]"
| "nulterminate (PIPE l r) buf = nulterminate r (nulterminate l buf)"
| "nulterminate (LIST l r) buf = nulterminate r (nulterminate l buf)"
| "nulterminate (BACK cmd) buf = nulterminate cmd buf"

text \<open>The whole, on the line without its NUL, with fuel for a line of its length; the buffer afterwards is that of the line with its NUL.\<close>

definition parse_text :: "string \<Rightarrow> wcmd parsed" where
  "parse_text s =
     and_then (parseline (4 * length s + 4) (0, s)) (\<lambda>(cmd, c1).
       case peek [] c1 of (_, c2) \<Rightarrow> if snd c2 \<noteq> [] then Panic ''syntax'' else Parsed cmd)"

definition parsecmd :: "string \<Rightarrow> (wcmd \<times> string) parsed" where
  "parsecmd s = and_then (parse_text s) (\<lambda>cmd. Parsed (cmd, nulterminate cmd (s @ [CHR 0x00])))"

section \<open>The parser ends\<close>

lemma parse_args_le:
  "parse_args wrap argv c \<noteq> NoFuel \<and> (\<forall>cmd c'. parse_args wrap argv c = Parsed (cmd, c') \<longrightarrow> length (snd c') \<le> length (snd c))"
proof (induction "length (snd c)" arbitrary: wrap argv c rule: less_induct)
  case less
  obtain b c1 where p: "peek ''|)&;'' c = (b, c1)" by (rule prod.exhaust)
  obtain tok w c2 where g: "gettoken c1 = (tok, w, c2)" by (rule prod_cases3)
  have l2: "length (snd c2) \<le> length (snd c)" using peek_le [OF p] gettoken_le [OF g] by simp
  consider (stop) "b \<or> tok = CHR 0x00 \<or> tok \<noteq> CHR ''a'' \<or> length argv + 1 \<ge> MAXARGS"
    | (go) "\<not> b" "tok = CHR ''a''" "\<not> length argv + 1 \<ge> MAXARGS" by blast
  then show ?case
  proof cases
    case stop
    then show ?thesis using p g l2 peek_le [OF p] by (subst (1 2) parse_args.simps) auto
  next
    case go
    show ?thesis
    proof (cases "parseredirs wrap c2")
      case (Parsed wc)
      obtain wrap' c3 where wc: "wc = (wrap', c3)" by (rule prod.exhaust)
      have "length (snd c3) < length (snd c)" using args_less [OF p g _ Parsed [unfolded wc]] go by simp
      from less [OF this, of wrap' "argv @ [w]"] this show ?thesis
        using p g go Parsed wc by (subst (1 2) parse_args.simps) fastforce
    next
      case NoFuel
      then show ?thesis using parseredirs_fuel by blast
    next
      case (Panic m)
      then show ?thesis using p g go by (subst (1 2) parse_args.simps) auto
    qed
  qed
qed

lemma parse_backs_le: "parse_backs cmd c = (cmd', c') \<Longrightarrow> length (snd c') \<le> length (snd c)"
proof (induction "length (snd c)" arbitrary: cmd c rule: less_induct)
  case less
  obtain b c1 where p: "peek ''&'' c = (b, c1)" by (rule prod.exhaust)
  obtain tok w c2 where g: "gettoken c1 = (tok, w, c2)" by (rule prod_cases3)
  show ?case
  proof (cases b)
    case False
    then show ?thesis using less.prems p peek_le [OF p] by (subst (asm) parse_backs.simps) auto
  next
    case True
    then have l: "length (snd c2) < length (snd c)" using gettoken_after_peek [of "''&''" c c1] p g by simp
    have "parse_backs (BACK cmd) c2 = (cmd', c')" using less.prems p g True by (subst (asm) parse_backs.simps) simp
    from less.hyps [OF l this] l show ?thesis by simp
  qed
qed

lemma and_then_Parsed: "and_then x f = Parsed y \<longleftrightarrow> (\<exists>z. x = Parsed z \<and> f z = Parsed y)"
  by (cases x) auto

lemma and_then_NoFuel: "and_then x f = NoFuel \<longleftrightarrow> x = NoFuel \<or> (\<exists>z. x = Parsed z \<and> f z = NoFuel)"
  by (cases x) auto

definition shrinks :: "(cursor \<Rightarrow> (wcmd \<times> cursor) parsed) \<Rightarrow> bool" where
  "shrinks f \<longleftrightarrow> (\<forall>c cmd c'. f c = Parsed (cmd, c') \<longrightarrow> length (snd c') \<le> length (snd c))"

lemma shrinksD: "shrinks f \<Longrightarrow> f c = Parsed (cmd, c') \<Longrightarrow> length (snd c') \<le> length (snd c)"
  unfolding shrinks_def by blast

lemma parsers_shrink: "shrinks (parseline n) \<and> shrinks (parsepipe n) \<and> shrinks (parseexec n) \<and> shrinks (parseblock n)"
proof (induction n)
  case 0
  show ?case by (simp add: shrinks_def)
next
  case (Suc n)
  then have l: "shrinks (parseline n)" and p: "shrinks (parsepipe n)" and e: "shrinks (parseexec n)" and b: "shrinks (parseblock n)"
    by auto
  have "shrinks (parseline (Suc n))"
    unfolding shrinks_def
  proof (intro allI impI)
    fix c cmd c' assume a: "parseline (Suc n) c = Parsed (cmd, c')"
    then obtain x c1 where 1: "parsepipe n c = Parsed (x, c1)" by (auto simp: and_then_Parsed)
    obtain x' c2 where 2: "parse_backs x c1 = (x', c2)" by (rule prod.exhaust)
    obtain b c3 where 3: "peek '';'' c2 = (b, c3)" by (rule prod.exhaust)
    obtain t w c4 where 4: "gettoken c3 = (t, w, c4)" by (rule prod_cases3)
    note le = shrinksD [OF p 1] parse_backs_le [OF 2] peek_le [OF 3] gettoken_le [OF 4]
    show "length (snd c') \<le> length (snd c)"
    proof (cases b)
      case False
      then show ?thesis using a 1 2 3 le by simp
    next
      case True
      then obtain r where "parseline n c4 = Parsed (r, c')" using a 1 2 3 4 by (auto simp: and_then_Parsed)
      from shrinksD [OF l this] le show ?thesis by linarith
    qed
  qed
  moreover have "shrinks (parsepipe (Suc n))"
    unfolding shrinks_def
  proof (intro allI impI)
    fix c cmd c' assume a: "parsepipe (Suc n) c = Parsed (cmd, c')"
    then obtain x c1 where 1: "parseexec n c = Parsed (x, c1)" by (auto simp: and_then_Parsed)
    obtain b c2 where 2: "peek ''|'' c1 = (b, c2)" by (rule prod.exhaust)
    obtain t w c3 where 3: "gettoken c2 = (t, w, c3)" by (rule prod_cases3)
    note le = shrinksD [OF e 1] peek_le [OF 2] gettoken_le [OF 3]
    show "length (snd c') \<le> length (snd c)"
    proof (cases b)
      case False
      then show ?thesis using a 1 2 le by simp
    next
      case True
      then obtain r where "parsepipe n c3 = Parsed (r, c')" using a 1 2 3 by (auto simp: and_then_Parsed)
      from shrinksD [OF p this] le show ?thesis by linarith
    qed
  qed
  moreover have "shrinks (parseexec (Suc n))"
    unfolding shrinks_def
  proof (intro allI impI)
    fix c cmd c' assume a: "parseexec (Suc n) c = Parsed (cmd, c')"
    obtain x c1 where 1: "peek ''('' c = (x, c1)" by (rule prod.exhaust)
    show "length (snd c') \<le> length (snd c)"
    proof (cases x)
      case True
      then have "parseblock n c1 = Parsed (cmd, c')" using a 1 by simp
      from shrinksD [OF b this] peek_le [OF 1] show ?thesis by simp
    next
      case False
      then obtain wrap c2 where 2: "parseredirs (\<lambda>cmd. cmd) c1 = Parsed (wrap, c2)" and 3: "parse_args wrap [] c2 = Parsed (cmd, c')"
        using a 1 by (auto simp: and_then_Parsed)
      have "length (snd c') \<le> length (snd c2)" using parse_args_le 3 by blast
      then show ?thesis using parseredirs_le [OF 2] peek_le [OF 1] by simp
    qed
  qed
  moreover have "shrinks (parseblock (Suc n))"
    unfolding shrinks_def
  proof (intro allI impI)
    fix c cmd c' assume a: "parseblock (Suc n) c = Parsed (cmd, c')"
    obtain x c1 where 1: "peek ''('' c = (x, c1)" by (rule prod.exhaust)
    obtain t w c2 where 2: "gettoken c1 = (t, w, c2)" by (rule prod_cases3)
    have x using a 1 by (cases x) auto
    then obtain y c3 where 3: "parseline n c2 = Parsed (y, c3)" using a 1 2 by (auto simp: and_then_Parsed)
    obtain z c4 where 4: "peek '')'' c3 = (z, c4)" by (rule prod.exhaust)
    obtain t' w' c5 where 5: "gettoken c4 = (t', w', c5)" by (rule prod_cases3)
    have z using a 1 2 3 4 \<open>x\<close> by (cases z) auto
    then obtain wrap where 6: "parseredirs (\<lambda>cmd. cmd) c5 = Parsed (wrap, c')" using a 1 2 3 4 5 \<open>x\<close> by (auto simp: and_then_Parsed)
    show "length (snd c') \<le> length (snd c)"
      using peek_le [OF 1] gettoken_le [OF 2] shrinksD [OF l 3] peek_le [OF 4] gettoken_le [OF 5] parseredirs_le [OF 6] by linarith
  qed
  ultimately show ?case by blast
qed

lemma parsers_end:
  "(4 * length (snd c) + 4 \<le> n \<longrightarrow> parseline n c \<noteq> NoFuel) \<and> (4 * length (snd c) + 3 \<le> n \<longrightarrow> parsepipe n c \<noteq> NoFuel) \<and>
   (4 * length (snd c) + 2 \<le> n \<longrightarrow> parseexec n c \<noteq> NoFuel) \<and> (4 * length (snd c) + 1 \<le> n \<longrightarrow> parseblock n c \<noteq> NoFuel)"
proof (induction n arbitrary: c)
  case (Suc n)
  note sh = parsers_shrink [of n]
  have "parseline (Suc n) c \<noteq> NoFuel" if n: "4 * length (snd c) + 4 \<le> Suc n"
  proof
    assume a: "parseline (Suc n) c = NoFuel"
    have "parsepipe n c \<noteq> NoFuel" using Suc.IH [of c] n by simp
    then obtain x c1 where 1: "parsepipe n c = Parsed (x, c1)" using a by (auto simp: and_then_NoFuel)
    obtain x' c2 where 2: "parse_backs x c1 = (x', c2)" by (rule prod.exhaust)
    obtain b c3 where 3: "peek '';'' c2 = (b, c3)" by (rule prod.exhaust)
    obtain t w c4 where 4: "gettoken c3 = (t, w, c4)" by (rule prod_cases3)
    have b: b using a 1 2 3 by (cases b) auto
    have nf: "parseline n c4 = NoFuel" using a 1 2 3 4 b by (auto simp: and_then_NoFuel)
    have "length (snd c4) < length (snd c2)" using gettoken_after_peek [of "'';''" c2 c3] 3 4 b by simp
    moreover have "length (snd c2) \<le> length (snd c)" using sh shrinksD 1 parse_backs_le [OF 2] le_trans by blast
    ultimately have "4 * length (snd c4) + 4 \<le> n" using n by simp
    then show False using Suc.IH [of c4] nf by blast
  qed
  moreover have "parsepipe (Suc n) c \<noteq> NoFuel" if n: "4 * length (snd c) + 3 \<le> Suc n"
  proof
    assume a: "parsepipe (Suc n) c = NoFuel"
    have "parseexec n c \<noteq> NoFuel" using Suc.IH [of c] n by simp
    then obtain x c1 where 1: "parseexec n c = Parsed (x, c1)" using a by (auto simp: and_then_NoFuel)
    obtain b c2 where 2: "peek ''|'' c1 = (b, c2)" by (rule prod.exhaust)
    obtain t w c3 where 3: "gettoken c2 = (t, w, c3)" by (rule prod_cases3)
    have b: b using a 1 2 by (cases b) auto
    have nf: "parsepipe n c3 = NoFuel" using a 1 2 3 b by (auto simp: and_then_NoFuel)
    have "length (snd c3) < length (snd c1)" using gettoken_after_peek [of "''|''" c1 c2] 2 3 b by simp
    moreover have "length (snd c1) \<le> length (snd c)" using sh shrinksD 1 by blast
    ultimately have "4 * length (snd c3) + 3 \<le> n" using n by simp
    then show False using Suc.IH [of c3] nf by blast
  qed
  moreover have "parseexec (Suc n) c \<noteq> NoFuel" if n: "4 * length (snd c) + 2 \<le> Suc n"
  proof -
    obtain x c1 where 1: "peek ''('' c = (x, c1)" by (rule prod.exhaust)
    have "4 * length (snd c1) + 1 \<le> n" using peek_le [OF 1] n by simp
    then have "parseblock n c1 \<noteq> NoFuel" using Suc.IH [of c1] by blast
    then show ?thesis using 1 parseredirs_fuel parse_args_le by (auto simp: and_then_NoFuel)
  qed
  moreover have "parseblock (Suc n) c \<noteq> NoFuel" if n: "4 * length (snd c) + 1 \<le> Suc n"
  proof
    assume a: "parseblock (Suc n) c = NoFuel"
    obtain x c1 where 1: "peek ''('' c = (x, c1)" by (rule prod.exhaust)
    obtain t w c2 where 2: "gettoken c1 = (t, w, c2)" by (rule prod_cases3)
    have x: x using a 1 by (cases x) auto
    have "length (snd c2) < length (snd c)" using gettoken_after_peek [of "''(''" c c1] 1 2 x by simp
    then have "4 * length (snd c2) + 4 \<le> n" using n by simp
    then have "parseline n c2 \<noteq> NoFuel" using Suc.IH [of c2] by blast
    then obtain y c3 where 3: "parseline n c2 = Parsed (y, c3)" using a 1 2 x by (auto simp: and_then_NoFuel)
    obtain z c4 where 4: "peek '')'' c3 = (z, c4)" by (rule prod.exhaust)
    obtain t' w' c5 where 5: "gettoken c4 = (t', w', c5)" by (rule prod_cases3)
    show False using a 1 2 3 4 5 x parseredirs_fuel [of "\<lambda>cmd. cmd" c5] by (cases z) (auto simp: and_then_NoFuel)
  qed
  ultimately show ?case by blast
qed simp

lemma parse_text_ends: "parse_text s \<noteq> NoFuel"
  using parsers_end [of "(0, s)" "4 * length s + 4"]
  by (auto simp: parse_text_def and_then_NoFuel split: prod.splits if_splits)

section \<open>Execution\<close>

text \<open>
  \<open>runcmd\<close> on the descriptor table of its process, as the list of programs started with their tables and of messages printed. A child of
  \<open>fork\<close> gets a copy of the table, and children are listed in the order they are forked; \<open>wait\<close> changes no table. Opening a file succeeds
  if \<open>openable\<close> says so and a descriptor is free; \<open>fork\<close> and \<open>exec\<close> are taken to succeed. \<open>k\<close> numbers the pipes.
\<close>

datatype fdobj = Tty | Disk string nat | PipeRead nat | PipeWrite nat

type_synonym fds = "nat \<Rightarrow> fdobj option"

datatype event = Ran "string list" fds | Message string

definition free_fd :: "fds \<Rightarrow> nat option" where
  "free_fd t = find (\<lambda>i. t i = None) [0..<16]"

definition dup_fd :: "nat \<Rightarrow> fds \<Rightarrow> fds" where
  "dup_fd i t = (case (t i, free_fd t) of (Some f, Some j) \<Rightarrow> t(j \<mapsto> f) | _ \<Rightarrow> t)"

definition close_fd :: "nat \<Rightarrow> fds \<Rightarrow> fds" where
  "close_fd i t = t(i := None)"

fun runcmd :: "(string \<Rightarrow> bool) \<Rightarrow> string cmd \<Rightarrow> fds \<Rightarrow> nat \<Rightarrow> event list \<times> nat" where
  "runcmd openable (EXEC argv) t k = (if argv = [] then [] else [Ran argv t], k)"
| "runcmd openable (REDIR c w mode fd) t k =
     (let t1 = close_fd fd t
      in case free_fd t1 of
          Some j \<Rightarrow> if openable w then runcmd openable c (t1(j \<mapsto> Disk w mode)) k else ([Message w], k)
        | None \<Rightarrow> ([Message w], k))"
| "runcmd openable (LIST a b) t k =
     (case runcmd openable a t k of (e1, k1) \<Rightarrow> case runcmd openable b t k1 of (e2, k2) \<Rightarrow> (e1 @ e2, k2))"
| "runcmd openable (PIPE a b) t k =
     (case free_fd t of
        None \<Rightarrow> ([Message ''pipe''], k)
      | Some p0 \<Rightarrow>
          let t1 = t(p0 \<mapsto> PipeRead k)
          in case free_fd t1 of
              None \<Rightarrow> ([Message ''pipe''], k)
            | Some p1 \<Rightarrow>
                let t2 = t1(p1 \<mapsto> PipeWrite k);
                    l = close_fd p1 (close_fd p0 (dup_fd p1 (close_fd 1 t2)));
                    r = close_fd p1 (close_fd p0 (dup_fd p0 (close_fd 0 t2)))
                in case runcmd openable a l (k + 1) of (e1, k1) \<Rightarrow>
                   case runcmd openable b r k1 of (e2, k2) \<Rightarrow> (e1 @ e2, k2))"
| "runcmd openable (BACK a) t k = runcmd openable a t k"

text \<open>With the three standard descriptors open and no other, the two ends of a pipe are connected as a pipeline means, and nobody keeps a spare end, so the
  reader sees the end of the data when the writer exits.\<close>

lemma runcmd_pipeline:
  assumes "a \<noteq> []" and "b \<noteq> []"
  shows "runcmd openable (PIPE (EXEC a) (EXEC b)) (\<lambda>i. if i < 3 then Some Tty else None) k =
    ([Ran a (\<lambda>i. if i = 1 then Some (PipeWrite k) else if i < 3 then Some Tty else None),
      Ran b (\<lambda>i. if i = 0 then Some (PipeRead k) else if i < 3 then Some Tty else None)], k + 1)"
proof -
  have u: "[0..<16] = [0, 1, 2, 3, 4, 5, 6, 7, 8, 9, 10, 11, 12, 13, 14, 15 :: nat]" by (simp add: upt_rec)
  show ?thesis
    using assms by (auto simp: free_fd_def dup_fd_def close_fd_def u fun_eq_iff Let_def)
qed

end
