(* ===== verification/ShellProps.thy ===== *)
theory ShellProps
  imports Shell
begin

text \<open>
  The shell's parser against a printer: commands over strings, printed with blanks between the tokens and parentheses where the grammar needs them,
  are parsed back. A cursor is good for a line when its text is the rest of the line from its index on; then words read from the line
  are the strings that were printed.
\<close>

section \<open>Printer\<close>

type_synonym redirection = "string \<times> nat \<times> nat"

definition redir_text :: "redirection \<Rightarrow> string" where
  "redir_text r = (case r of (w, mode, fd) \<Rightarrow> (if fd = 0 then '' <'' else '' >'') @ '' '' @ w)"

definition args_text :: "string list \<Rightarrow> string" where
  "args_text ws = concat (map (\<lambda>w. '' '' @ w) ws)"

definition paren :: "bool \<Rightarrow> string \<Rightarrow> string" where
  "paren b t = (if b then '' ('' @ t @ '' )'' else t)"

text \<open>Levels: 0 a line, 1 a pipeline with ampersands, 2 a pipeline, 3 a simple command or block with redirections.\<close>

primrec show_cmd :: "string cmd \<Rightarrow> nat \<Rightarrow> string" where
  "show_cmd (EXEC ws) k = args_text ws"
| "show_cmd (REDIR c w mode fd) k = show_cmd c 3 @ redir_text (w, mode, fd)"
| "show_cmd (PIPE a b) k = paren (k > 2) (show_cmd a 3 @ '' |'' @ show_cmd b 2)"
| "show_cmd (BACK a) k = paren (k > 1) (show_cmd a 1 @ '' &'')"
| "show_cmd (LIST a b) k = paren (k > 0) (show_cmd a 1 @ '' ;'' @ show_cmd b 0)"

definition word_ok :: "string \<Rightarrow> bool" where
  "word_ok w \<longleftrightarrow> w \<noteq> [] \<and> list_all wordchar w"

definition redir_ok :: "redirection \<Rightarrow> bool" where
  "redir_ok r = (case r of (w, mode, fd) \<Rightarrow> word_ok w \<and> (mode = O_RDONLY_SH \<and> fd = 0 \<or> mode = O_WRCREATE \<and> fd = 1))"

primrec cmd_ok :: "string cmd \<Rightarrow> bool" where
  "cmd_ok (EXEC ws) \<longleftrightarrow> list_all word_ok ws \<and> length ws < MAXARGS"
| "cmd_ok (REDIR c w mode fd) \<longleftrightarrow> cmd_ok c \<and> redir_ok (w, mode, fd)"
| "cmd_ok (PIPE a b) \<longleftrightarrow> cmd_ok a \<and> cmd_ok b"
| "cmd_ok (BACK a) \<longleftrightarrow> cmd_ok a"
| "cmd_ok (LIST a b) \<longleftrightarrow> cmd_ok a \<and> cmd_ok b"

section \<open>Cursors in a line\<close>

abbreviation strip :: "string \<Rightarrow> string" where
  "strip \<equiv> dropWhile blank"

definition at :: "string \<Rightarrow> cursor \<Rightarrow> bool" where
  "at full c \<longleftrightarrow> fst c \<le> length full \<and> drop (fst c) full = snd c"

definition read_word :: "string \<Rightarrow> word_at \<Rightarrow> string" where
  "read_word full w = take (snd w - fst w) (drop (fst w) full)"

definition starts :: "string \<Rightarrow> string \<Rightarrow> bool" where
  "starts toks t \<longleftrightarrow> (case strip t of [] \<Rightarrow> False | x # _ \<Rightarrow> x \<in> set toks)"

definition boundary :: "string \<Rightarrow> bool" where
  "boundary t \<longleftrightarrow> t = [] \<or> \<not> wordchar (hd t)"

definition stop :: "string \<Rightarrow> string \<Rightarrow> bool" where
  "stop toks t \<longleftrightarrow> (strip t = [] \<or> starts toks t) \<and> boundary t"

lemma stop_other: "stop toks t \<Longrightarrow> set toks \<inter> set toks' = {} \<Longrightarrow> \<not> starts toks' t"
  unfolding stop_def starts_def by (cases "strip t") (simp_all del: dropWhile_eq_Nil_conv, blast)

lemma at_skip: "at full c \<Longrightarrow> at full (skip_while P c)"
proof -
  assume a: "at full c"
  have "length (takeWhile P (snd c)) \<le> length (snd c)" by (rule length_takeWhile_le)
  moreover have "length (snd c) = length full - fst c" using a length_drop [of "fst c" full] by (simp add: at_def)
  moreover have "drop (length (takeWhile P (snd c))) (snd c) = dropWhile P (snd c)" by (simp add: dropWhile_eq_drop)
  moreover have "drop (fst c + length (takeWhile P (snd c))) full = drop (length (takeWhile P (snd c))) (snd c)"
    using a by (metis at_def drop_drop add.commute)
  ultimately show ?thesis using a by (cases c) (auto simp: at_def skip_while_def)
qed

lemma at_advance: "at full (i, x # r) \<Longrightarrow> at full (i + 1, r)"
proof -
  assume "at full (i, x # r)"
  then have d: "drop i full = x # r" by (simp add: at_def)
  then have "i < length full" by (metis drop_eq_Nil list.distinct(1) not_le)
  moreover have "drop (i + 1) full = r" using d by (metis Suc_eq_plus1 drop_Suc list.sel(3) tl_drop)
  ultimately show ?thesis by (simp add: at_def)
qed

lemma snd_skip [simp]: "snd (skip_while P c) = dropWhile P (snd c)"
  by (cases c) (simp add: skip_while_def)

lemma strip_strip [simp]: "strip (strip t) = strip t"
  by (induction t) auto

lemma peek_at: "at full c \<Longrightarrow> \<exists>c1. peek toks c = (starts toks (snd c), c1) \<and> at full c1 \<and> snd c1 = strip (snd c)"
  by (rule exI [of _ "skip_while blank c"]) (auto simp: peek_def Let_def starts_def at_skip)

text \<open>Tokens: a symbol, a redirection to a file, a word.\<close>

lemma symbol_token:
  assumes "at full c" and "strip (snd c) = x # r" and "x \<in> set ''|();&<'' \<or> x = CHR ''>'' \<and> r \<noteq> [] \<and> hd r \<noteq> CHR ''>''"
  shows "\<exists>w c1. gettoken c = (x, w, c1) \<and> at full c1 \<and> snd c1 = strip r"
proof -
  obtain i where i: "skip_while blank c = (i, x # r)" using assms(2) snd_skip [of blank c] by (metis prod.collapse)
  have "at full (i, x # r)" using at_skip [OF assms(1), of blank] i by simp
  then have a: "at full (i + 1, r)" by (rule at_advance)
  have "lex_token (i, x # r) = (x, (i + 1, r))"
    using assms(3) by (auto simp: lex_token_def neq_Nil_conv)
  then have "gettoken c = (x, (i, i + 1), skip_while blank (i + 1, r))" by (simp add: gettoken_def Let_def i)
  then show ?thesis using at_skip [OF a, of blank] by auto
qed

lemma word_token:
  assumes "at full c" and "strip (snd c) = w @ r" and "word_ok w" and "boundary r"
  shows "\<exists>wd c1. gettoken c = (CHR ''a'', wd, c1) \<and> read_word full wd = w \<and> at full c1 \<and> snd c1 = strip r"
proof -
  obtain i where i: "skip_while blank c = (i, w @ r)" using assms(2) snd_skip [of blank c] by (metis prod.collapse)
  have a: "at full (i, w @ r)" using at_skip [OF assms(1), of blank] i by simp
  obtain x w' where w: "w = x # w'" using assms(3) by (cases w) (auto simp: word_ok_def)
  have all: "\<forall>y \<in> set w. wordchar y" using assms(3) by (simp add: word_ok_def list_all_iff)
  then have "wordchar x" using w by simp
  then have x: "x \<notin> set ''|();&<''" "x \<noteq> CHR ''>''" by (auto simp: wordchar_def symbols_def)
  have tw: "takeWhile wordchar (w @ r) = w" "dropWhile wordchar (w @ r) = r"
    using all assms(4) by (cases r; auto simp: boundary_def takeWhile_tail)+
  have "lex_token (i, w @ r) = (CHR ''a'', skip_while wordchar (i, w @ r))"
    using x w by (simp add: lex_token_def)
  also have "skip_while wordchar (i, w @ r) = (i + length w, r)" by (simp only: skip_while_def case_prod_conv tw)
  finally have "gettoken c = (CHR ''a'', (i, i + length w), skip_while blank (i + length w, r))"
    by (simp add: gettoken_def Let_def i)
  moreover have "at full (i + length w, r)"
    using at_skip [OF a, of wordchar] by (simp only: skip_while_def case_prod_conv tw)
  moreover have "read_word full (i, i + length w) = w" using a by (simp add: read_word_def at_def)
  ultimately show ?thesis using at_skip [of full "(i + length w, r)" blank] by auto
qed

section \<open>Redirections and words\<close>

abbreviation redirs_text :: "redirection list \<Rightarrow> string" where
  "redirs_text rs \<equiv> concat (map redir_text rs)"

definition add_redirs :: "redirection list \<Rightarrow> string cmd \<Rightarrow> string cmd" where
  "add_redirs rs c = fold (\<lambda>(w, mode, fd) c. REDIR c w mode fd) rs c"

lemma blank_space [simp]: "blank CHR 0x20" "\<not> wordchar CHR 0x20" "\<not> blank CHR ''<''" "\<not> blank CHR ''>''" "\<not> blank CHR ''|''"
  "\<not> blank CHR '';''" "\<not> blank CHR ''&''" "\<not> blank CHR ''(''" "\<not> blank CHR '')''"
  by (simp_all add: blank_def wordchar_def whitespace_def)

lemma strip_word: "word_ok w \<Longrightarrow> strip (w @ r) = w @ r"
  by (cases w) (auto simp: word_ok_def wordchar_def blank_def)

lemma boundary_redirs: "boundary rest \<Longrightarrow> boundary (redirs_text rs @ rest)"
  by (cases rs) (auto simp: boundary_def redir_text_def split: prod.splits)

lemma parseredirs_text:
  assumes "at full c" and "strip (snd c) = strip (redirs_text rs @ rest)" and "list_all redir_ok rs"
    and "\<not> starts ''<>'' rest" and "boundary rest"
  shows "\<exists>wrap' c'. parseredirs wrap c = Parsed (wrap', c') \<and> at full c' \<and> snd c' = strip rest \<and>
    (\<forall>x. map_cmd (read_word full) (wrap' x) = add_redirs rs (map_cmd (read_word full) (wrap x)))"
  using assms(1-3)
proof (induction rs arbitrary: wrap c)
  case Nil
  obtain c1 where p: "peek ''<>'' c = (starts ''<>'' (snd c), c1)" "at full c1" "snd c1 = strip (snd c)" using peek_at [OF Nil(1)] by blast
  have "\<not> starts ''<>'' (snd c)" using assms(4) Nil(2) by (simp add: starts_def)
  then show ?case using p Nil(2) by (subst parseredirs.simps) (simp add: add_redirs_def)
next
  case (Cons r rs)
  obtain w mode fd where r: "r = (w, mode, fd)" by (rule prod_cases3)
  have ok: "word_ok w" "mode = O_RDONLY_SH \<and> fd = 0 \<or> mode = O_WRCREATE \<and> fd = 1" using Cons.prems(3) r by (auto simp: redir_ok_def)
  let ?x = "if fd = 0 then CHR ''<'' else CHR ''>''" and ?r = "redirs_text rs @ rest"
  have "redir_text r = CHR '' '' # ?x # '' '' @ w" by (simp add: r redir_text_def)
  then have t: "strip (snd c) = ?x # '' '' @ w @ ?r" using Cons.prems(2) by simp
  obtain c1 where p: "peek ''<>'' c = (starts ''<>'' (snd c), c1)" "at full c1" "snd c1 = strip (snd c)" using peek_at [OF Cons.prems(1)] by blast
  have s: "starts ''<>'' (snd c)" using t by (simp add: starts_def)
  have "strip (snd c1) = ?x # '' '' @ w @ ?r" using p(3) t by simp
  moreover have "?x \<in> set ''|();&<'' \<or> ?x = CHR ''>'' \<and> '' '' @ w @ ?r \<noteq> [] \<and> hd ('' '' @ w @ ?r) \<noteq> CHR ''>''" by simp
  ultimately obtain v c2 where g: "gettoken c1 = (?x, v, c2)" "at full c2" "snd c2 = strip ('' '' @ w @ ?r)"
    using symbol_token [OF p(2)] by blast
  have "strip (snd c2) = w @ ?r" using g(3) strip_word [OF ok(1)] by simp
  from word_token [OF g(2) this ok(1) boundary_redirs [OF assms(5)]] obtain wd c3 where h: "gettoken c2 = (CHR ''a'', wd, c3)"
      "read_word full wd = w" "at full c3" "snd c3 = strip ?r"
    by blast
  let ?wrap = "\<lambda>cmd. redir_of ?x wd (wrap cmd)"
  have st: "parseredirs wrap c = parseredirs ?wrap c3" using p(1) s g(1) h(1) by (subst parseredirs.simps) simp
  have e: "map_cmd (read_word full) (?wrap x) = REDIR (map_cmd (read_word full) (wrap x)) w mode fd" for x
    using ok(2) h(2) by (auto simp: redir_of_def)
  obtain wrap' c' where i: "parseredirs ?wrap c3 = Parsed (wrap', c')" "at full c'" "snd c' = strip rest"
      "\<forall>x. map_cmd (read_word full) (wrap' x) = add_redirs rs (map_cmd (read_word full) (?wrap x))"
    using Cons.IH [OF h(3), of ?wrap] h(4) Cons.prems(3) by auto
  then show ?case unfolding st using e r by (auto simp: add_redirs_def)
qed

lemma strip_args: "list_all word_ok (w # ws) \<Longrightarrow> strip (args_text (w # ws) @ r) = w @ args_text ws @ r"
  by (simp add: args_text_def strip_word)

lemma not_starts_word: "word_ok w \<Longrightarrow> strip t = w @ r \<Longrightarrow> set toks \<subseteq> set symbols \<Longrightarrow> \<not> starts toks t"
  by (cases w) (auto simp: starts_def word_ok_def wordchar_def)

lemma boundary_args: "boundary r \<Longrightarrow> boundary (args_text ws @ r)"
  by (cases ws) (auto simp: boundary_def args_text_def)

lemma parse_args_stop:
  assumes "at full c" and "strip (snd c) = strip rest" and "stop ''|)&;'' rest"
  shows "\<exists>c'. parse_args wrap argv c = Parsed (wrap (EXEC argv), c') \<and> at full c' \<and> snd c' = strip rest"
proof -
  obtain c1 where p: "peek ''|)&;'' c = (starts ''|)&;'' (snd c), c1)" "at full c1" "snd c1 = strip (snd c)"
    using peek_at [OF assms(1)] by blast
  show ?thesis
  proof (cases "starts ''|)&;'' (snd c)")
    case True
    then show ?thesis using p assms(2) by (subst parse_args.simps) simp
  next
    case False
    then have "strip (snd c) = []" using assms(2,3) by (auto simp: stop_def starts_def)
    then have e: "snd c1 = []" using p(3) by simp
    then have "skip_while blank c1 = c1" by (cases c1) (simp add: skip_while_def)
    then have "gettoken c1 = (CHR 0x00, (fst c1, fst c1), c1)"
      using e by (cases c1) (simp add: gettoken_def Let_def lex_token_def)
    then show ?thesis using p False assms(2) by (subst parse_args.simps) simp
  qed
qed

lemma parse_args_text:
  assumes "at full c" and "strip (snd c) = strip (args_text (w # ws) @ redirs_text rs @ rest)" and "list_all word_ok (w # ws)"
    and "length argv + length (w # ws) < MAXARGS" and "list_all redir_ok rs" and "stop ''|)&;'' rest"
    and "\<And>x. map_cmd (read_word full) (wrap x) = map_cmd (read_word full) x"
  shows "\<exists>cmd c'. parse_args wrap argv c = Parsed (cmd, c') \<and> at full c' \<and> snd c' = strip rest \<and>
    map_cmd (read_word full) cmd = add_redirs rs (EXEC (map (read_word full) argv @ w # ws))"
  using assms(1-4,7)
proof (induction ws arbitrary: w c argv wrap)
  case (Nil w c argv wrap)
  have ok: "word_ok w" using Nil.prems(3) by simp
  let ?r = "redirs_text rs @ rest"
  have t: "strip (snd c) = w @ ?r" using Nil.prems(2) strip_args [of w "[]" ?r] ok by (simp add: args_text_def)
  obtain c1 where p: "peek ''|)&;'' c = (starts ''|)&;'' (snd c), c1)" "at full c1" "snd c1 = strip (snd c)"
    using peek_at [OF Nil.prems(1)] by blast
  have ns: "\<not> starts ''|)&;'' (snd c)" using not_starts_word [OF ok t] by (simp add: symbols_def)
  have b: "boundary rest" "\<not> starts ''<>'' rest" using assms(6) stop_other [OF assms(6), of "''<>''"] by (simp_all add: stop_def)
  have "strip (snd c1) = w @ ?r" unfolding p(3) strip_strip by (rule t)
  from word_token [OF p(2) this ok boundary_redirs [OF b(1)]] obtain wd c2 where g: "gettoken c1 = (CHR ''a'', wd, c2)"
      "read_word full wd = w" "at full c2" "snd c2 = strip ?r" by blast
  have "strip (snd c2) = strip ?r" using g(4) by simp
  from parseredirs_text [OF g(3) this assms(5) b(2,1)] obtain wrap' c3 where h: "parseredirs wrap c2 = Parsed (wrap', c3)" "at full c3"
      "snd c3 = strip rest" "\<forall>x. map_cmd (read_word full) (wrap' x) = add_redirs rs (map_cmd (read_word full) (wrap x))"
    by blast
  have "strip (snd c3) = strip rest" using h(3) by simp
  from parse_args_stop [OF h(2) this assms(6), of wrap' "argv @ [wd]"] obtain c4 where
    "parse_args wrap' (argv @ [wd]) c3 = Parsed (wrap' (EXEC (argv @ [wd])), c4)" "at full c4" "snd c4 = strip rest" by blast
  moreover have "parse_args wrap argv c = parse_args wrap' (argv @ [wd]) c3"
    using p(1) ns g(1) h(1) Nil.prems(4) by (subst parse_args.simps) simp
  ultimately show ?case using h(4) g(2) Nil.prems(5) by simp
next
  case (Cons w2 ws w c argv wrap)
  have ok: "word_ok w" "list_all word_ok (w2 # ws)" using Cons.prems(3) by simp_all
  let ?r = "args_text (w2 # ws) @ redirs_text rs @ rest"
  have t: "strip (snd c) = w @ ?r" using Cons.prems(2,3) strip_args [of w "w2 # ws" "redirs_text rs @ rest"] by simp
  obtain c1 where p: "peek ''|)&;'' c = (starts ''|)&;'' (snd c), c1)" "at full c1" "snd c1 = strip (snd c)"
    using peek_at [OF Cons.prems(1)] by blast
  have ns: "\<not> starts ''|)&;'' (snd c)" using not_starts_word [OF ok(1) t] by (simp add: symbols_def)
  have "boundary rest" using assms(6) by (simp add: stop_def)
  then have b: "boundary ?r" by (intro boundary_args boundary_redirs)
  have "strip (snd c1) = w @ ?r" unfolding p(3) strip_strip by (rule t)
  from word_token [OF p(2) this ok(1) b] obtain wd c2 where g: "gettoken c1 = (CHR ''a'', wd, c2)"
      "read_word full wd = w" "at full c2" "snd c2 = strip ?r" by blast
  have "strip (snd c2) = strip (redirs_text [] @ ?r)" using g(4) by simp
  moreover have "\<not> starts ''<>'' ?r"
    using not_starts_word [of w2 ?r] strip_args [of w2 ws "redirs_text rs @ rest"] ok(2) by (auto simp: symbols_def)
  ultimately obtain wrap' c3 where h: "parseredirs wrap c2 = Parsed (wrap', c3)" "at full c3" "snd c3 = strip ?r"
      "\<forall>x. map_cmd (read_word full) (wrap' x) = add_redirs [] (map_cmd (read_word full) (wrap x))"
    using parseredirs_text [OF g(3), of "[]" ?r wrap] b by auto
  have st: "parse_args wrap argv c = parse_args wrap' (argv @ [wd]) c3"
    using p(1) ns g(1) h(1) Cons.prems(4) by (subst parse_args.simps) simp
  have "strip (snd c3) = strip ?r" using h(3) by simp
  moreover have "length (argv @ [wd]) + length (w2 # ws) < MAXARGS" using Cons.prems(4) by simp
  moreover have "map_cmd (read_word full) (wrap' x) = map_cmd (read_word full) x" for x
    using h(4) Cons.prems(5) by (simp add: add_redirs_def)
  ultimately obtain cmd c' where "parse_args wrap' (argv @ [wd]) c3 = Parsed (cmd, c')" "at full c'" "snd c' = strip rest"
      "map_cmd (read_word full) cmd = add_redirs rs (EXEC (map (read_word full) (argv @ [wd]) @ w2 # ws))"
    using Cons.IH [OF h(2) _ ok(2), of "argv @ [wd]" wrap'] by blast
  then show ?case unfolding st using g(2) by simp
qed

section \<open>The grammar levels\<close>

definition parses :: "string \<Rightarrow> (wcmd \<times> cursor) parsed \<Rightarrow> string cmd \<Rightarrow> string \<Rightarrow> bool" where
  "parses full res c rest \<longleftrightarrow>
     (\<exists>cmd c'. res = Parsed (cmd, c') \<and> map_cmd (read_word full) cmd = c \<and> at full c' \<and> snd c' = strip rest)"

lemma parsesE:
  assumes "parses full res c rest"
  obtains cmd c' where "res = Parsed (cmd, c')" and "map_cmd (read_word full) cmd = c" and "at full c'" and "snd c' = strip rest"
  using assms unfolding parses_def by blast

lemma exec_text:
  assumes "at full c" and "strip (snd c) = strip (args_text ws @ redirs_text rs @ rest)" and "list_all word_ok ws"
    and "length ws < MAXARGS" and "list_all redir_ok rs" and "stop ''|)&;'' rest"
  shows "parses full (parseexec (Suc n) c) (add_redirs rs (EXEC ws)) rest"
proof -
  have b: "boundary rest" "\<not> starts ''<>'' rest" "\<not> starts ''('' rest"
    using assms(6) stop_other [OF assms(6), of "''<>''"] stop_other [OF assms(6), of "''(''"] by (simp_all add: stop_def)
  obtain c1 where p: "peek ''('' c = (starts ''('' (snd c), c1)" "at full c1" "snd c1 = strip (snd c)" using peek_at [OF assms(1)] by blast
  show ?thesis
  proof (cases ws)
    case Nil
    have t: "strip (snd c1) = strip (redirs_text rs @ rest)" using p(3) assms(2) Nil by (simp add: args_text_def)
    have ns: "\<not> starts ''('' (snd c)"
    proof (cases rs)
      case (Cons r rs')
      then show ?thesis using t p(3) by (auto simp: starts_def redir_text_def split: prod.splits)
    next
      case Nil
      then show ?thesis using t p(3) b(3) by (simp add: starts_def)
    qed
    obtain wrap c2 where h: "parseredirs (\<lambda>cmd. cmd) c1 = Parsed (wrap, c2)" "at full c2" "snd c2 = strip rest"
        "\<forall>x. map_cmd (read_word full) (wrap x) = add_redirs rs (map_cmd (read_word full) x)"
      using parseredirs_text [OF p(2) t assms(5) b(2,1)] by blast
    have "strip (snd c2) = strip rest" using h(3) by simp
    from parse_args_stop [OF h(2) this assms(6), of wrap "[]"] show ?thesis
      using p(1) ns h Nil by (auto simp: parses_def)
  next
    case (Cons w ws')
    have okw: "word_ok w" using assms(3) Cons by simp
    let ?r = "args_text ws @ redirs_text rs @ rest"
    have t: "strip (snd c) = w @ args_text ws' @ redirs_text rs @ rest"
      using assms(2,3) Cons strip_args [of w ws' "redirs_text rs @ rest"] by simp
    have ns: "\<not> starts ''('' (snd c)" using not_starts_word [OF okw t] by (simp add: symbols_def)
    have "strip (snd c1) = strip (redirs_text [] @ ?r)" using p(3) assms(2) by simp
    moreover have "\<not> starts ''<>'' ?r"
      using not_starts_word [OF okw, of ?r "args_text ws' @ redirs_text rs @ rest" "''<>''"] assms(2) t by (simp add: symbols_def)
    moreover have "boundary ?r" by (intro boundary_args boundary_redirs b)
    ultimately obtain wrap c2 where h: "parseredirs (\<lambda>cmd. cmd) c1 = Parsed (wrap, c2)" "at full c2" "snd c2 = strip ?r"
        "\<forall>x. map_cmd (read_word full) (wrap x) = add_redirs [] (map_cmd (read_word full) x)"
      using parseredirs_text [OF p(2), of "[]" ?r "\<lambda>cmd. cmd"] by auto
    have "strip (snd c2) = strip (args_text (w # ws') @ redirs_text rs @ rest)" using h(3) Cons by simp
    moreover have "map_cmd (read_word full) (wrap x) = map_cmd (read_word full) x" for x using h(4) by (simp add: add_redirs_def)
    ultimately obtain cmd c' where "parse_args wrap [] c2 = Parsed (cmd, c')" "at full c'" "snd c' = strip rest"
        "map_cmd (read_word full) cmd = add_redirs rs (EXEC (map (read_word full) [] @ w # ws'))"
      using parse_args_text [OF h(2), of w ws' rs rest "[]" wrap] assms(3-6) Cons by auto
    then show ?thesis using p(1) ns h(1) Cons by (auto simp: parses_def)
  qed
qed

text \<open>A construct of one level read as the next ones, where no operator of those levels follows.\<close>

lemma level_pipe:
  assumes "parses full (parseexec n c) x rest" and "\<not> starts ''|'' rest"
  shows "parses full (parsepipe (Suc n) c) x rest"
proof -
  obtain cmd c1 where 1: "parseexec n c = Parsed (cmd, c1)" "map_cmd (read_word full) cmd = x" "at full c1" "snd c1 = strip rest"
    by (rule parsesE [OF assms(1)])
  obtain c2 where 2: "peek ''|'' c1 = (starts ''|'' (snd c1), c2)" "at full c2" "snd c2 = strip (snd c1)" using peek_at [OF 1(3)] by blast
  have "\<not> starts ''|'' (snd c1)" using 1(4) assms(2) by (simp add: starts_def)
  then show ?thesis using 1 2 by (simp add: parses_def)
qed

definition parse_back :: "nat \<Rightarrow> cursor \<Rightarrow> (wcmd \<times> cursor) parsed" where
  "parse_back n c = and_then (parsepipe n c) (\<lambda>(cmd, c1). Parsed (parse_backs cmd c1))"

definition amps :: "nat \<Rightarrow> string" where
  "amps k = concat (replicate k '' &'')"

lemma boundary_amps: "boundary rest \<Longrightarrow> boundary (amps k @ rest)"
  by (cases k) (auto simp: amps_def boundary_def)

lemma backs_text:
  assumes "at full c" and "strip (snd c) = strip (amps k @ rest)" and "\<not> starts ''&'' rest"
  shows "\<exists>cmd' c'. parse_backs cmd c = (cmd', c') \<and> at full c' \<and> snd c' = strip rest \<and>
    map_cmd (read_word full) cmd' = (BACK ^^ k) (map_cmd (read_word full) cmd)"
  using assms(1,2)
proof (induction k arbitrary: c cmd)
  case 0
  obtain c1 where p: "peek ''&'' c = (starts ''&'' (snd c), c1)" "at full c1" "snd c1 = strip (snd c)" using peek_at [OF 0(1)] by blast
  have t: "strip (snd c) = strip rest" using 0(2) by (simp add: amps_def)
  then have "\<not> starts ''&'' (snd c)" using assms(3) by (simp add: starts_def)
  then show ?case using p t by (subst parse_backs.simps) simp
next
  case (Suc k)
  have t: "strip (snd c) = CHR ''&'' # amps k @ rest" using Suc.prems(2) by (simp add: amps_def)
  obtain c1 where p: "peek ''&'' c = (starts ''&'' (snd c), c1)" "at full c1" "snd c1 = strip (snd c)"
    using peek_at [OF Suc.prems(1)] by blast
  have s: "starts ''&'' (snd c)" using t by (simp add: starts_def)
  have "strip (snd c1) = CHR ''&'' # amps k @ rest" unfolding p(3) strip_strip by (rule t)
  then obtain w c2 where g: "gettoken c1 = (CHR ''&'', w, c2)" "at full c2" "snd c2 = strip (amps k @ rest)"
    using symbol_token [OF p(2), of "CHR ''&''" "amps k @ rest"] by auto
  have "strip (snd c2) = strip (amps k @ rest)" unfolding g(3) by simp
  from Suc.IH [OF g(2) this, of "BACK cmd"] obtain cmd' c' where "parse_backs (BACK cmd) c2 = (cmd', c')" "at full c'" "snd c' = strip rest"
      "map_cmd (read_word full) cmd' = (BACK ^^ k) (BACK (map_cmd (read_word full) cmd))" by auto
  then show ?case using p(1) s g(1) by (subst parse_backs.simps) (simp add: funpow_swap1)
qed

lemma level_back:
  assumes "parses full (parsepipe n c) x (amps k @ rest)" and "\<not> starts ''&'' rest"
  shows "parses full (parse_back n c) ((BACK ^^ k) x) rest"
proof -
  obtain cmd c1 where 1: "parsepipe n c = Parsed (cmd, c1)" "map_cmd (read_word full) cmd = x" "at full c1" "snd c1 = strip (amps k @ rest)"
    by (rule parsesE [OF assms(1)])
  have "strip (snd c1) = strip (amps k @ rest)" unfolding 1(4) by simp
  from backs_text [OF 1(3) this assms(2), of cmd] show ?thesis using 1 by (auto simp: parse_back_def parses_def)
qed

lemma line_unfold:
  assumes "parse_back n c = Parsed (cmd, c2)"
  shows "parseline (Suc n) c =
    (case peek '';'' c2 of (b, c3) \<Rightarrow>
       if b then (case gettoken c3 of (_, _, c4) \<Rightarrow> and_then (parseline n c4) (\<lambda>(r, c5). Parsed (LIST cmd r, c5)))
       else Parsed (cmd, c3))"
proof -
  obtain x c1 where "parsepipe n c = Parsed (x, c1)" "parse_backs x c1 = (cmd, c2)"
    using assms by (auto simp: parse_back_def and_then_Parsed)
  then show ?thesis by simp
qed

lemma level_line:
  assumes "parses full (parse_back n c) x rest" and "\<not> starts '';'' rest"
  shows "parses full (parseline (Suc n) c) x rest"
proof -
  obtain cmd c2 where 1: "parse_back n c = Parsed (cmd, c2)" "map_cmd (read_word full) cmd = x" "at full c2" "snd c2 = strip rest"
    by (rule parsesE [OF assms(1)])
  obtain c3 where 2: "peek '';'' c2 = (starts '';'' (snd c2), c3)" "at full c3" "snd c3 = strip (snd c2)" using peek_at [OF 1(3)] by blast
  have "\<not> starts '';'' (snd c2)" using 1(4) assms(2) by (simp add: starts_def)
  then show ?thesis using 1 2 unfolding parses_def line_unfold [OF 1(1)] by simp
qed

section \<open>Printing and parsing\<close>

text \<open>What each level promises for a command, whatever follows its text, if the fuel covers the text.\<close>

definition ok_exec :: "string cmd \<Rightarrow> bool" where
  "ok_exec x \<longleftrightarrow> (\<forall>full c rs rest n. at full c \<longrightarrow> strip (snd c) = strip (show_cmd x 3 @ redirs_text rs @ rest) \<longrightarrow>
     list_all redir_ok rs \<longrightarrow> stop ''|)&;'' rest \<longrightarrow> 4 * length (snd c) + 2 \<le> n \<longrightarrow>
     parses full (parseexec n c) (add_redirs rs x) rest)"

definition ok_pipe :: "string cmd \<Rightarrow> bool" where
  "ok_pipe x \<longleftrightarrow> (\<forall>full c rest n. at full c \<longrightarrow> strip (snd c) = strip (show_cmd x 2 @ rest) \<longrightarrow> stop '')&;'' rest \<longrightarrow>
     4 * length (snd c) + 3 \<le> n \<longrightarrow> parses full (parsepipe n c) x rest)"

definition ok_back :: "string cmd \<Rightarrow> bool" where
  "ok_back x \<longleftrightarrow> (\<forall>full c k rest n. at full c \<longrightarrow> strip (snd c) = strip (show_cmd x 1 @ amps k @ rest) \<longrightarrow> stop '');'' rest \<longrightarrow>
     4 * length (snd c) + 3 \<le> n \<longrightarrow> parses full (parse_back n c) ((BACK ^^ k) x) rest)"

definition ok_line :: "string cmd \<Rightarrow> bool" where
  "ok_line x \<longleftrightarrow> (\<forall>full c rest n. at full c \<longrightarrow> strip (snd c) = strip (show_cmd x 0 @ rest) \<longrightarrow> stop '')'' rest \<longrightarrow>
     4 * length (snd c) + 4 \<le> n \<longrightarrow> parses full (parseline n c) x rest)"

lemma ok_execD: "ok_exec x \<Longrightarrow> at full c \<Longrightarrow> strip (snd c) = strip (show_cmd x 3 @ redirs_text rs @ rest) \<Longrightarrow> list_all redir_ok rs \<Longrightarrow>
    stop ''|)&;'' rest \<Longrightarrow> 4 * length (snd c) + 2 \<le> n \<Longrightarrow> parses full (parseexec n c) (add_redirs rs x) rest"
  unfolding ok_exec_def by blast

lemma ok_pipeD: "ok_pipe x \<Longrightarrow> at full c \<Longrightarrow> strip (snd c) = strip (show_cmd x 2 @ rest) \<Longrightarrow> stop '')&;'' rest \<Longrightarrow>
    4 * length (snd c) + 3 \<le> n \<Longrightarrow> parses full (parsepipe n c) x rest"
  unfolding ok_pipe_def by blast

lemma ok_backD: "ok_back x \<Longrightarrow> at full c \<Longrightarrow> strip (snd c) = strip (show_cmd x 1 @ amps k @ rest) \<Longrightarrow> stop '');'' rest \<Longrightarrow>
    4 * length (snd c) + 3 \<le> n \<Longrightarrow> parses full (parse_back n c) ((BACK ^^ k) x) rest"
  unfolding ok_back_def by blast

lemma ok_lineD: "ok_line x \<Longrightarrow> at full c \<Longrightarrow> strip (snd c) = strip (show_cmd x 0 @ rest) \<Longrightarrow> stop '')'' rest \<Longrightarrow>
    4 * length (snd c) + 4 \<le> n \<Longrightarrow> parses full (parseline n c) x rest"
  unfolding ok_line_def by blast

lemma stop_mono: "stop S t \<Longrightarrow> set S \<subseteq> set T \<Longrightarrow> stop T t"
  by (auto simp: stop_def starts_def split: list.splits)

lemma stop_amps: "stop '');'' rest \<Longrightarrow> stop '')&;'' (amps k @ rest)"
  by (cases k) (auto simp: amps_def stop_def boundary_def starts_def split: list.splits)

lemma pipe_of_exec:
  assumes "ok_exec x" and "show_cmd x 2 = show_cmd x 3"
  shows "ok_pipe x"
  unfolding ok_pipe_def
proof (intro allI impI)
  fix full c rest and n :: nat
  assume a: "at full c" "strip (snd c) = strip (show_cmd x 2 @ rest)" "stop '')&;'' rest" "4 * length (snd c) + 3 \<le> n"
  obtain m where n: "n = Suc m" using a(4) by (cases n) auto
  have "stop ''|)&;'' rest" using stop_mono [OF a(3)] by auto
  then have "parses full (parseexec m c) (add_redirs [] x) rest"
    by (intro ok_execD [OF assms(1) a(1)]) (use a(2,4) assms(2) n in simp_all)
  then show "parses full (parsepipe n c) x rest"
    unfolding n using stop_other [OF a(3), of "''|''"] by (intro level_pipe) (simp_all add: add_redirs_def)
qed

lemma back_of_pipe:
  assumes "ok_pipe x" and "show_cmd x 1 = show_cmd x 2"
  shows "ok_back x"
  unfolding ok_back_def
proof (intro allI impI)
  fix full c k rest and n :: nat
  assume a: "at full c" "strip (snd c) = strip (show_cmd x 1 @ amps k @ rest)" "stop '');'' rest" "4 * length (snd c) + 3 \<le> n"
  have "parses full (parsepipe n c) x (amps k @ rest)"
    by (intro ok_pipeD [OF assms(1) a(1) _ stop_amps [OF a(3)] a(4)]) (use a(2) assms(2) in simp)
  then show "parses full (parse_back n c) ((BACK ^^ k) x) rest"
    using stop_other [OF a(3), of "''&''"] by (intro level_back) simp_all
qed

lemma line_of_back:
  assumes "ok_back x" and "show_cmd x 0 = show_cmd x 1"
  shows "ok_line x"
  unfolding ok_line_def
proof (intro allI impI)
  fix full c rest and n :: nat
  assume a: "at full c" "strip (snd c) = strip (show_cmd x 0 @ rest)" "stop '')'' rest" "4 * length (snd c) + 4 \<le> n"
  obtain m where n: "n = Suc m" using a(4) by (cases n) auto
  have s: "stop '');'' rest" using stop_mono [OF a(3)] by auto
  have "strip (snd c) = strip (show_cmd x 1 @ amps 0 @ rest)" using a(2) assms(2) by (simp add: amps_def)
  then have "parses full (parse_back m c) ((BACK ^^ 0) x) rest"
    by (rule ok_backD [OF assms(1) a(1) _ s]) (use a(4) n in simp)
  then show "parses full (parseline n c) x rest"
    unfolding n using stop_other [OF a(3), of "'';''"] by (intro level_line) simp_all
qed

lemma starts_strip: "starts toks (strip t) = starts toks t"
  by (simp add: starts_def)

lemma next_symbol:
  assumes "at full c" and "snd c = strip t" and "strip t = x # r" and "x \<in> set ''|();&<''"
  shows "\<exists>c2 w c3. peek [x] c = (True, c2) \<and> gettoken c2 = (x, w, c3) \<and> at full c3 \<and> snd c3 = strip r \<and> length (snd c3) < length (snd c)"
proof -
  obtain c2 where 2: "peek [x] c = (starts [x] (snd c), c2)" "at full c2" "snd c2 = strip (snd c)" using peek_at [OF assms(1)] by blast
  have t': "strip (snd c) = x # r" unfolding assms(2) strip_strip by (rule assms(3))
  then have s: "starts [x] (snd c)" unfolding starts_def by simp
  have "strip (snd c2) = x # r" unfolding 2(3) assms(2) strip_strip by (rule assms(3))
  then obtain w c3 where 3: "gettoken c2 = (x, w, c3)" "at full c3" "snd c3 = strip r"
    using symbol_token [OF 2(2)] assms(4) by blast
  have "peek [x] c = (True, c2)" using 2(1) s by simp
  from gettoken_after_peek [OF this 3(1)] this 3 show ?thesis by blast
qed

lemma pipe_of_parts:
  assumes "ok_exec a" and "ok_pipe b"
  shows "ok_pipe (PIPE a b)"
  unfolding ok_pipe_def
proof (intro allI impI)
  fix full c rest and n :: nat
  let ?r = "show_cmd b 2 @ rest"
  assume h: "at full c" "strip (snd c) = strip (show_cmd (PIPE a b) 2 @ rest)" "stop '')&;'' rest" "4 * length (snd c) + 3 \<le> n"
  obtain m where n: "n = Suc m" using h(4) by (cases n) auto
  have st: "stop ''|)&;'' ('' |'' @ ?r)" by (simp add: stop_def starts_def boundary_def)
  have "parses full (parseexec m c) (add_redirs [] a) ('' |'' @ ?r)"
    by (rule ok_execD [OF assms(1) h(1) _ _ st]) (use h n in \<open>simp_all add: paren_def\<close>)
  then obtain x c1 where 1: "parseexec m c = Parsed (x, c1)" "map_cmd (read_word full) x = a" "at full c1" "snd c1 = strip ('' |'' @ ?r)"
    by (rule parsesE) (simp add: add_redirs_def)
  obtain c2 w c3 where 2: "peek ''|'' c1 = (True, c2)" "gettoken c2 = (CHR ''|'', w, c3)" "at full c3" "snd c3 = strip ?r"
      "length (snd c3) < length (snd c1)"
    using next_symbol [OF 1(3,4), of "CHR ''|''" ?r] by auto
  have "length (snd c1) \<le> length (snd c)" using parsers_shrink [of m] shrinksD 1(1) by blast
  then have "4 * length (snd c3) + 3 \<le> m" using 2(5) h(4) n by simp
  then have "parses full (parsepipe m c3) b rest"
    by (intro ok_pipeD [OF assms(2) 2(3) _ h(3)]) (simp_all add: 2(4))
  then show "parses full (parsepipe n c) (PIPE a b) rest"
    by (rule parsesE) (simp add: n 1 2 parses_def)
qed

lemma back_of_back: "ok_back a \<Longrightarrow> ok_back (BACK a)"
  unfolding ok_back_def [of "BACK a"]
proof (intro allI impI)
  fix full c k rest and n :: nat
  assume o: "ok_back a" and h: "at full c" "strip (snd c) = strip (show_cmd (BACK a) 1 @ amps k @ rest)" "stop '');'' rest" "4 * length (snd c) + 3 \<le> n"
  have "strip (snd c) = strip (show_cmd a 1 @ amps (Suc k) @ rest)" using h(2) by (simp add: paren_def amps_def)
  from ok_backD [OF o h(1) this h(3,4)] show "parses full (parse_back n c) ((BACK ^^ k) (BACK a)) rest"
    by (simp add: funpow_swap1)
qed

lemma line_of_parts:
  assumes "ok_back a" and "ok_line b"
  shows "ok_line (LIST a b)"
  unfolding ok_line_def
proof (intro allI impI)
  fix full c rest and n :: nat
  let ?r = "show_cmd b 0 @ rest"
  assume h: "at full c" "strip (snd c) = strip (show_cmd (LIST a b) 0 @ rest)" "stop '')'' rest" "4 * length (snd c) + 4 \<le> n"
  obtain m where n: "n = Suc m" using h(4) by (cases n) auto
  have st: "stop '');'' ('' ;'' @ ?r)" by (simp add: stop_def starts_def boundary_def)
  have "parses full (parse_back m c) ((BACK ^^ 0) a) ('' ;'' @ ?r)"
    by (rule ok_backD [OF assms(1) h(1) _ st]) (use h n in \<open>simp_all add: paren_def amps_def\<close>)
  then obtain x c1 where 1: "parse_back m c = Parsed (x, c1)" "map_cmd (read_word full) x = a" "at full c1" "snd c1 = strip ('' ;'' @ ?r)"
    by (rule parsesE) simp
  obtain c2 w c3 where 2: "peek '';'' c1 = (True, c2)" "gettoken c2 = (CHR '';'', w, c3)" "at full c3" "snd c3 = strip ?r"
      "length (snd c3) < length (snd c1)"
    using next_symbol [OF 1(3,4), of "CHR '';''" ?r] by auto
  obtain y c0 where p: "parsepipe m c = Parsed (y, c0)" "parse_backs y c0 = (x, c1)"
    using 1(1) by (auto simp: parse_back_def and_then_Parsed)
  have "length (snd c0) \<le> length (snd c)" using parsers_shrink [of m] shrinksD p(1) by blast
  then have "4 * length (snd c3) + 4 \<le> m" using 2(5) h(4) n parse_backs_le [OF p(2)] by simp
  then have "parses full (parseline m c3) b rest"
    by (intro ok_lineD [OF assms(2) 2(3) _ h(3)]) (simp_all add: 2(4))
  then show "parses full (parseline n c) (LIST a b) rest"
    unfolding n line_unfold [OF 1(1)] by (rule parsesE) (simp add: 1 2 parses_def)
qed

lemma exec_of_line:
  assumes "ok_line x" and "show_cmd x 3 = '' ('' @ show_cmd x 0 @ '' )''"
  shows "ok_exec x"
  unfolding ok_exec_def
proof (intro allI impI)
  fix full c rs rest and n :: nat
  let ?r2 = "redirs_text rs @ rest"
  let ?r = "show_cmd x 0 @ '' )'' @ ?r2"
  assume h: "at full c" "strip (snd c) = strip (show_cmd x 3 @ ?r2)" "list_all redir_ok rs" "stop ''|)&;'' rest" "4 * length (snd c) + 2 \<le> n"
  have t: "strip (snd c) = CHR ''('' # ?r" using h(2) assms(2) by simp
  obtain c1 where 1: "peek ''('' c = (starts ''('' (snd c), c1)" "at full c1" "snd c1 = strip (snd c)" using peek_at [OF h(1)] by blast
  have s: "starts ''('' (snd c)" using t by (simp add: starts_def)
  have le: "length (snd c1) \<le> length (snd c)" by (rule peek_le [OF 1(1)])
  obtain c2 w c3 where 2: "peek ''('' c1 = (True, c2)" "gettoken c2 = (CHR ''('', w, c3)" "at full c3" "snd c3 = strip ?r"
      "length (snd c3) < length (snd c1)"
    using next_symbol [OF 1(2,3) t] by auto
  obtain j where n: "n = Suc (Suc j)" using h(5) le 2(5) by (metis add_2_eq_Suc' nat_le_iff_add add_Suc_right add.commute)
  have st: "stop '')'' ('' )'' @ ?r2)" by (simp add: stop_def starts_def boundary_def)
  have "4 * length (snd c3) + 4 \<le> j" using h(5) le 2(5) n by simp
  then have "parses full (parseline j c3) x ('' )'' @ ?r2)"
    by (intro ok_lineD [OF assms(1) 2(3) _ st]) (simp_all add: 2(4))
  then obtain y c4 where 3: "parseline j c3 = Parsed (y, c4)" "map_cmd (read_word full) y = x" "at full c4" "snd c4 = strip ('' )'' @ ?r2)"
    by (rule parsesE)
  obtain c5 w' c6 where 4: "peek '')'' c4 = (True, c5)" "gettoken c5 = (CHR '')'', w', c6)" "at full c6" "snd c6 = strip ?r2"
    using next_symbol [OF 3(3,4), of "CHR '')''" ?r2] by auto
  have b: "boundary rest" "\<not> starts ''<>'' rest" using h(4) stop_other [OF h(4), of "''<>''"] by (simp_all add: stop_def)
  have "strip (snd c6) = strip ?r2" unfolding 4(4) by simp
  from parseredirs_text [OF 4(3) this h(3) b(2,1), of "\<lambda>cmd. cmd"] show "parses full (parseexec n c) (add_redirs rs x) rest"
    using 1(1) s 2(1,2) 3(1,2) 4(1,2) by (auto simp: n parses_def)
qed

lemma exec_of_redir:
  assumes "ok_exec x" and "redir_ok (w, mode, fd)"
  shows "ok_exec (REDIR x w mode fd)"
  unfolding ok_exec_def
proof (intro allI impI)
  fix full c rs rest and n :: nat
  assume h: "at full c" "strip (snd c) = strip (show_cmd (REDIR x w mode fd) 3 @ redirs_text rs @ rest)" "list_all redir_ok rs"
    "stop ''|)&;'' rest" "4 * length (snd c) + 2 \<le> n"
  have "parses full (parseexec n c) (add_redirs ((w, mode, fd) # rs) x) rest"
    by (rule ok_execD [OF assms(1) h(1) _ _ h(4,5)]) (use h assms(2) in simp_all)
  then show "parses full (parseexec n c) (add_redirs rs (REDIR x w mode fd)) rest" by (simp add: add_redirs_def)
qed

lemma exec_of_words: "list_all word_ok ws \<Longrightarrow> length ws < MAXARGS \<Longrightarrow> ok_exec (EXEC ws)"
  unfolding ok_exec_def
proof (intro allI impI)
  fix full c rs rest and n :: nat
  assume w: "list_all word_ok ws" "length ws < MAXARGS"
    and h: "at full c" "strip (snd c) = strip (show_cmd (EXEC ws) 3 @ redirs_text rs @ rest)" "list_all redir_ok rs"
    "stop ''|)&;'' rest" "4 * length (snd c) + 2 \<le> n"
  obtain m where "n = Suc m" using h(5) by (cases n) auto
  then show "parses full (parseexec n c) (add_redirs rs (EXEC ws)) rest"
    using exec_text [OF h(1) _ w h(3,4)] h(2) by simp
qed

lemma levels_ok: "cmd_ok x \<Longrightarrow> ok_exec x \<and> ok_pipe x \<and> ok_back x \<and> ok_line x"
proof (induction x)
  case (EXEC ws)
  then have "ok_exec (EXEC ws)" by (simp add: exec_of_words)
  then show ?case using pipe_of_exec back_of_pipe line_of_back by auto
next
  case (REDIR x w mode fd)
  then have "ok_exec (REDIR x w mode fd)" by (simp add: exec_of_redir)
  then show ?case using pipe_of_exec back_of_pipe line_of_back by auto
next
  case (PIPE a b)
  then have "ok_pipe (PIPE a b)" by (simp add: pipe_of_parts)
  moreover from this have "ok_back (PIPE a b)" by (rule back_of_pipe) (simp add: paren_def)
  moreover from this have "ok_line (PIPE a b)" by (rule line_of_back) (simp add: paren_def)
  moreover from this have "ok_exec (PIPE a b)" by (rule exec_of_line) (simp add: paren_def)
  ultimately show ?case by blast
next
  case (LIST a b)
  then have "ok_line (LIST a b)" by (simp add: line_of_parts)
  moreover from this have "ok_exec (LIST a b)" by (rule exec_of_line) (simp add: paren_def)
  moreover from this have "ok_pipe (LIST a b)" by (rule pipe_of_exec) (simp add: paren_def)
  moreover from this have "ok_back (LIST a b)" by (rule back_of_pipe) (simp add: paren_def)
  ultimately show ?case by blast
next
  case (BACK a)
  then have "ok_back (BACK a)" by (simp add: back_of_back)
  moreover from this have "ok_line (BACK a)" by (rule line_of_back) (simp add: paren_def)
  moreover from this have "ok_exec (BACK a)" by (rule exec_of_line) (simp add: paren_def)
  moreover from this have "ok_pipe (BACK a)" by (rule pipe_of_exec) (simp add: paren_def)
  ultimately show ?case by blast
qed

section \<open>Properties\<close>

text \<open>C36. The shell's parser ends on every line: with the fuel that the length of the line gives it, it returns a command or one of its error messages,
  never running out of fuel.\<close>

theorem parsecmd_ends: "\<exists>r. parsecmd s = r \<and> r \<noteq> NoFuel"
  using parse_text_ends [of s] by (cases "parse_text s") (auto simp: parsecmd_def)

text \<open>C37. The shell parses what is printed: for every command over proper words, with pipelines, lists, background commands, redirections and nested blocks, and
  fewer than ten words to a simple command, parsing its text gives a command whose words, read from the line, make up the command that was printed.\<close>

theorem parsecmd_show:
  assumes "cmd_ok x"
  shows "\<exists>cmd buf. parsecmd (show_cmd x 0) = Parsed (cmd, buf) \<and> map_cmd (read_word (show_cmd x 0)) cmd = x"
proof -
  let ?t = "show_cmd x 0"
  have a: "at ?t (0, ?t)" by (simp add: at_def)
  have st: "stop '')'' []" by (simp add: stop_def boundary_def)
  have "parses ?t (parseline (4 * length ?t + 4) (0, ?t)) x []"
    by (rule ok_lineD [OF _ a _ st]) (use levels_ok [OF assms] in simp_all)
  then obtain cmd c' where 1: "parseline (4 * length ?t + 4) (0, ?t) = Parsed (cmd, c')" "map_cmd (read_word ?t) cmd = x" "at ?t c'" "snd c' = []"
    by (rule parsesE) simp
  obtain c2 where "peek [] c' = (starts [] (snd c'), c2)" "snd c2 = strip (snd c')" using peek_at [OF 1(3)] by blast
  then have "parse_text ?t = Parsed cmd" using 1(1,4) by (simp add: parse_text_def)
  then show ?thesis using 1(2) by (simp add: parsecmd_def)
qed

theorem parsecmd_show_witness:
  "\<exists>cmd buf. parsecmd '' cat < in | wc & ; echo done'' = Parsed (cmd, buf) \<and>
    map_cmd (read_word '' cat < in | wc & ; echo done'') cmd =
      LIST (BACK (PIPE (REDIR (EXEC [''cat'']) ''in'' 0 0) (EXEC [''wc'']))) (EXEC [''echo'', ''done''])"
proof -
  let ?x = "LIST (BACK (PIPE (REDIR (EXEC [''cat'']) ''in'' 0 0) (EXEC [''wc'']))) (EXEC [''echo'', ''done''])"
  have "cmd_ok ?x" by (simp add: word_ok_def redir_ok_def wordchar_def whitespace_def symbols_def MAXARGS_def O_RDONLY_SH_def)
  moreover have "show_cmd ?x 0 = '' cat < in | wc & ; echo done''" by (simp add: args_text_def redir_text_def paren_def)
  ultimately show ?thesis using parsecmd_show [of ?x] by simp
qed

end
