(* ===== verification/Mp.thy ===== *)
theory Mp
  imports CString Kmem
begin

text \<open>
  Finding the processors at boot (\<^verbatim>\<open>mp.c\<close>, \<^verbatim>\<open>mp.h\<close>): the search for the MP floating pointer structure, the check of
  the configuration table and the walk over its entries. Memory is what the BIOS has left there, any bytes at all;
  pointers are virtual addresses of the kernel. \<open>None\<close> is a loop that never ends, and the address 0 is the
  null pointer.
\<close>

section \<open>The structures\<close>

definition NCPU :: nat where "NCPU = 8"

text \<open>Offsets and sizes: \<^verbatim>\<open>struct mp\<close> is 16 bytes, \<^verbatim>\<open>struct mpconf\<close> 44, \<^verbatim>\<open>struct mpproc\<close> 20, \<^verbatim>\<open>struct mpioapic\<close> 8.\<close>

definition mem_at :: "memory \<Rightarrow> u32 \<Rightarrow> bytes" where
  "mem_at m p = (\<lambda>k. m (p + of_nat k))"

definition mp_physaddr :: "memory \<Rightarrow> u32 \<Rightarrow> u32" where "mp_physaddr m p = get32 (mem_at m p) 4"
definition mp_imcrp :: "memory \<Rightarrow> u32 \<Rightarrow> u8" where "mp_imcrp m p = mem_at m p 12"
definition conf_length :: "memory \<Rightarrow> u32 \<Rightarrow> u16" where "conf_length m p = get16 (mem_at m p) 4"
definition conf_version :: "memory \<Rightarrow> u32 \<Rightarrow> u8" where "conf_version m p = mem_at m p 6"
definition conf_lapicaddr :: "memory \<Rightarrow> u32 \<Rightarrow> u32" where "conf_lapicaddr m p = get32 (mem_at m p) 36"
definition MP_SIZE :: u32 where "MP_SIZE = 16"
definition MPCONF_SIZE :: u32 where "MPCONF_SIZE = 44"
definition MPPROC_SIZE :: u32 where "MPPROC_SIZE = 20"
definition MPIOAPIC_SIZE :: u32 where "MPIOAPIC_SIZE = 8"
definition MPPROC :: u8 where "MPPROC = 0"
definition MPBUS :: u8 where "MPBUS = 1"
definition MPIOAPIC :: u8 where "MPIOAPIC = 2"
definition MPIOINTR :: u8 where "MPIOINTR = 3"
definition MPLINTR :: u8 where "MPLINTR = 4"

section \<open>The search\<close>

definition mp_sum :: "memory \<Rightarrow> u32 \<Rightarrow> nat \<Rightarrow> u8" where
  "mp_sum m addr len = of_nat (fold (\<lambda>i sum. sum + unat (m (addr + of_nat i))) [0..<len] 0)"

text \<open>\<^verbatim>\<open>memcmp\<close> with a constant of four characters.\<close>

definition signature_at :: "memory \<Rightarrow> u32 \<Rightarrow> u8 list \<Rightarrow> bool" where
  "signature_at m p sig \<longleftrightarrow> map (mem_at m p) [0..<4] = sig"

definition mp_valid :: "memory \<Rightarrow> u32 \<Rightarrow> bool" where
  "mp_valid m p \<longleftrightarrow> signature_at m p [0x5F, 0x4D, 0x50, 0x5F] \<and> mp_sum m p (unat MP_SIZE) = 0"

partial_function (option) mpsearch1_loop :: "memory \<Rightarrow> u32 \<Rightarrow> u32 \<Rightarrow> u32 option" where
  "mpsearch1_loop m e p =
     (if p < e then if mp_valid m p then Some p else mpsearch1_loop m e (p + MP_SIZE) else Some 0)"

definition mpsearch1 :: "memory \<Rightarrow> u32 \<Rightarrow> u32 \<Rightarrow> u32 option" where
  "mpsearch1 m a len = (let addr = P2V a in mpsearch1_loop m (addr + len) addr)"

definition ebda :: "memory \<Rightarrow> u32" where
  "ebda m = (let bda = P2V 0x400 in push_bit 4 (push_bit 8 (ucast (m (bda + 0x0F))) OR ucast (m (bda + 0x0E))))"

definition base_end :: "memory \<Rightarrow> u32" where
  "base_end m = (let bda = P2V 0x400 in (push_bit 8 (ucast (m (bda + 0x14))) OR ucast (m (bda + 0x13))) * 1024)"

definition mpsearch :: "memory \<Rightarrow> u32 option" where
  "mpsearch m = do {
     mp \<leftarrow> (if ebda m \<noteq> 0 then mpsearch1 m (ebda m) 1024 else mpsearch1 m (base_end m - 1024) 1024);
     if mp \<noteq> 0 then Some mp else mpsearch1 m 0xF0000 0x10000
   }"

text \<open>The result of \<open>mpconfig\<close> is the table and the structure that points to it.\<close>

definition mpconfig :: "memory \<Rightarrow> (u32 \<times> u32) option option" where
  "mpconfig m = do {
     mp \<leftarrow> mpsearch m;
     Some (if mp = 0 \<or> mp_physaddr m mp = 0 then None
       else let conf = P2V (mp_physaddr m mp)
         in if \<not> signature_at m conf [0x50, 0x43, 0x4D, 0x50] then None
            else if conf_version m conf \<noteq> 1 \<and> conf_version m conf \<noteq> 4 then None
            else if mp_sum m conf (unat (conf_length m conf)) \<noteq> 0 then None
            else Some (conf, mp))
   }"

section \<open>The entries of the table\<close>

record mpstate =
  ncpu :: nat
  apicids :: "nat \<Rightarrow> u8"
  ioapicid :: u8
  lapic_addr :: u32

definition add_cpu :: "u8 \<Rightarrow> mpstate \<Rightarrow> mpstate" where
  "add_cpu apicid s =
     (if ncpu s < NCPU then s\<lparr>apicids := (apicids s)(ncpu s := apicid), ncpu := ncpu s + 1\<rparr> else s)"

text \<open>The \<^verbatim>\<open>break\<close> of the default case leaves the \<^verbatim>\<open>switch\<close>, not the loop, and \<open>p\<close> stays where it is.\<close>

partial_function (option) mp_entries :: "memory \<Rightarrow> u32 \<Rightarrow> u32 \<Rightarrow> bool \<Rightarrow> mpstate \<Rightarrow> (bool \<times> mpstate) option" where
  "mp_entries m e p ismp s =
     (if p < e then
        if m p = MPPROC then mp_entries m e (p + MPPROC_SIZE) ismp (add_cpu (m (p + 1)) s)
        else if m p = MPIOAPIC then mp_entries m e (p + MPIOAPIC_SIZE) ismp (s\<lparr>ioapicid := m (p + 1)\<rparr>)
        else if m p = MPBUS \<or> m p = MPIOINTR \<or> m p = MPLINTR then mp_entries m e (p + 8) ismp s
        else mp_entries m e p False s
      else Some (ismp, s))"

text \<open>A panic, or the state and the writes to the I/O ports; \<open>imcr\<close> is what port \<^verbatim>\<open>0x23\<close> holds.\<close>

datatype mp_result = MpPanic string | MpReady mpstate "(u16 \<times> u8) list"

definition mpinit :: "memory \<Rightarrow> u8 \<Rightarrow> mpstate \<Rightarrow> mp_result option" where
  "mpinit m imcr s = do {
     r \<leftarrow> mpconfig m;
     case r of
       None \<Rightarrow> Some (MpPanic ''Expect to run on an SMP'')
     | Some (conf, mp) \<Rightarrow> do {
         (ismp, s1) \<leftarrow> mp_entries m (conf + ucast (conf_length m conf)) (conf + MPCONF_SIZE) True
           (s\<lparr>lapic_addr := conf_lapicaddr m conf\<rparr>);
         if \<not> ismp then Some (MpPanic ''Didn't find a suitable machine'')
         else Some (MpReady s1 (if mp_imcrp m mp \<noteq> 0 then [(0x22, 0x70), (0x23, imcr OR 1)] else []))
       }
   }"

section \<open>The search ends\<close>

lemma mpsearch1_loop_steps:
  assumes "unat p + 16 * k < 2 ^ 32"
  shows "mpsearch1_loop m (p + of_nat (16 * k)) p =
    Some (case find (mp_valid m) (map (\<lambda>i. p + of_nat (16 * i)) [0..<k]) of None \<Rightarrow> 0 | Some q \<Rightarrow> q)"
  using assms
proof (induction k arbitrary: p)
  case 0
  then show ?case by (subst mpsearch1_loop.simps) simp
next
  case (Suc k)
  have u: "unat (of_nat (16 * Suc k) :: u32) = 16 * Suc k" using Suc.prems by (subst unat_of_nat) (simp add: take_bit_nat_eq_self)
  then have lt: "p < p + of_nat (16 * Suc k)" using Suc.prems by (simp add: word_less_nat_alt unat_word_ariths del: of_nat_mult)
  have "unat (p + 16) = unat p + 16" using Suc.prems by (simp add: unat_word_ariths)
  then have IH: "mpsearch1_loop m (p + 16 + of_nat (16 * k)) (p + 16) =
      Some (case find (mp_valid m) (map (\<lambda>i. p + 16 + of_nat (16 * i)) [0..<k]) of None \<Rightarrow> 0 | Some q \<Rightarrow> q)"
    using Suc.prems by (intro Suc.IH) simp
  have e: "p + of_nat (16 * Suc k) = p + 16 + of_nat (16 * k)" by simp
  have l: "map (\<lambda>i. p + of_nat (16 * i)) [0..<Suc k] = p # map (\<lambda>i. p + 16 + of_nat (16 * i)) [0..<k]"
    by (simp add: upt_conv_Cons map_Suc_upt [symmetric] comp_def algebra_simps del: upt_Suc)
  show ?case
    using lt IH unfolding l by (subst mpsearch1_loop.simps) (simp add: MP_SIZE_def e add.assoc)
qed

text \<open>The places that are searched, in order.\<close>

definition mp_places :: "u32 \<Rightarrow> nat \<Rightarrow> u32 list" where
  "mp_places a k = map (\<lambda>i. P2V a + of_nat (16 * i)) [0..<k]"

definition mp_candidates :: "memory \<Rightarrow> u32 list" where
  "mp_candidates m = (if ebda m \<noteq> 0 then mp_places (ebda m) 64 else mp_places (base_end m - 1024) 64) @ mp_places 0xF0000 4096"

lemma unat_less_exp:
  fixes w :: u32
  assumes "\<And>n. k \<le> n \<Longrightarrow> \<not> bit w n"
  shows "unat w < 2 ^ k"
proof -
  have "n < k" if "bit w n" for n using assms [of n] that by (cases "n < k") auto
  then have "take_bit k w = w" by (intro bit_word_eqI) (auto simp: bit_take_bit_iff)
  then have "take_bit k (unat w) = unat w" by (metis unsigned_take_bit_eq)
  then show ?thesis by (metis take_bit_nat_less_exp)
qed

lemma two_bytes: "unat (push_bit 8 (ucast (x :: u8)) OR ucast (y :: u8) :: u32) < 2 ^ 16"
  by (rule unat_less_exp) (auto simp: bit_or_iff bit_push_bit_iff bit_ucast_iff dest: bit_imp_le_length)

lemma ebda_less: "unat (ebda m) < 2 ^ 20"
  unfolding ebda_def Let_def by (rule unat_less_exp) (auto simp: bit_or_iff bit_push_bit_iff bit_ucast_iff dest: bit_imp_le_length)

lemma base_end_less: "unat (base_end m) < 2 ^ 26"
proof -
  let ?x = "push_bit 8 (ucast (m (P2V 0x400 + 0x14))) OR ucast (m (P2V 0x400 + 0x13)) :: u32"
  have "unat ?x < 2 ^ 16" by (rule two_bytes)
  then show ?thesis by (simp add: base_end_def Let_def unat_word_ariths)
qed

lemma mpsearch1_places:
  assumes "unat (P2V a) + 16 * k < 2 ^ 32" and "len = of_nat (16 * k)"
  shows "mpsearch1 m a len = Some (case find (mp_valid m) (mp_places a k) of None \<Rightarrow> 0 | Some q \<Rightarrow> q)"
  using mpsearch1_loop_steps [OF assms(1)] by (simp add: mpsearch1_def mp_places_def Let_def assms(2))

lemma P2V_small:
  assumes "unat a < 2 ^ 30"
  shows "unat (P2V a) = unat a + 2 ^ 31" "unat (P2V (a - 1024)) < 2 ^ 31 + 2 ^ 30"
proof -
  have kb: "unat KERNBASE = 2 ^ 31" by (simp add: KERNBASE_def)
  show 1: "unat (P2V a) = unat a + 2 ^ 31" using assms kb by (simp add: P2V_def unat_word_ariths)
  have e: "P2V (a - 1024) = P2V a - 1024" by (simp add: P2V_def)
  have "unat (P2V a - 1024) = unat (P2V a) - 1024" using 1 by (subst unat_sub) (simp_all add: word_le_nat_alt)
  then show "unat (P2V (a - 1024)) < 2 ^ 31 + 2 ^ 30" using 1 assms by (simp add: e)
qed

lemma find_append_case:
  "(case find P (xs @ ys) of None \<Rightarrow> z | Some q \<Rightarrow> q) =
    (case find P xs of None \<Rightarrow> (case find P ys of None \<Rightarrow> z | Some q \<Rightarrow> q) | Some q \<Rightarrow> q)"
  by (induction xs) auto

lemma mp_places_nonnull:
  assumes "0 < unat (P2V a)" "unat (P2V a) + 16 * k < 2 ^ 32"
  shows "0 \<notin> set (mp_places a k)"
proof
  assume "0 \<in> set (mp_places a k)"
  then obtain i where i: "i < k" "P2V a + of_nat (16 * i) = 0" by (auto simp: mp_places_def)
  have "unat (P2V a + of_nat (16 * i)) = unat (P2V a) + 16 * i"
    using assms(2) i(1) by (simp add: unat_word_ariths unat_of_nat take_bit_nat_eq_self del: of_nat_mult)
  then show False using i(2) assms(1) by simp
qed

text \<open>The search always ends, with the first structure that has the signature and the check sum.\<close>

lemma mpsearch_first:
  "mpsearch m = Some (case find (mp_valid m) (mp_candidates m) of None \<Rightarrow> 0 | Some q \<Rightarrow> q)"
proof -
  let ?r = "\<lambda>a k. case find (mp_valid m) (mp_places a k) of None \<Rightarrow> 0 | Some q \<Rightarrow> q"
  have rom: "mpsearch1 m 0xF0000 0x10000 = Some (?r 0xF0000 4096)"
    by (rule mpsearch1_places) (simp_all add: P2V_def KERNBASE_def)
  define a where "a = (if ebda m \<noteq> 0 then ebda m else base_end m - 1024)"
  have b: "0 < unat (P2V a) \<and> unat (P2V a) + 16 * 64 < 2 ^ 32"
  proof (cases "ebda m = 0")
    case True
    have u: "unat (base_end m) < 2 ^ 30" using base_end_less [of m] by simp
    have "P2V (base_end m - 1024) = P2V (base_end m) - 1024" by (simp add: P2V_def)
    moreover have "unat (P2V (base_end m) - 1024) = unat (P2V (base_end m)) - 1024"
      using P2V_small(1) [OF u] by (subst unat_sub) (simp_all add: word_le_nat_alt)
    ultimately show ?thesis using P2V_small [OF u] True by (simp add: a_def)
  next
    case False
    have "unat (ebda m) < 2 ^ 30" using ebda_less [of m] by simp
    then show ?thesis using P2V_small(1) [of "ebda m"] ebda_less [of m] False by (simp add: a_def)
  qed
  have 1: "(if ebda m \<noteq> 0 then mpsearch1 m (ebda m) 1024 else mpsearch1 m (base_end m - 1024) 1024) = Some (?r a 64)"
  proof -
    have "mpsearch1 m a 1024 = Some (?r a 64)" by (rule mpsearch1_places) (use b in simp_all)
    then show ?thesis by (cases "ebda m = 0") (simp_all only: a_def if_True if_False simp_thms)
  qed
  have c: "mp_candidates m = mp_places a 64 @ mp_places 0xF0000 4096" by (simp add: mp_candidates_def a_def)
  have nz: "q \<noteq> 0" if "find (mp_valid m) (mp_places a 64) = Some q" for q
    using find_SomeD [OF that] mp_places_nonnull [of a 64] b by auto
  show ?thesis
    unfolding mpsearch_def 1 rom c find_append_case using nz by (auto split: option.splits)
qed

lemma mpconfig_total: "\<exists>r. mpconfig m = Some r"
  by (simp add: mpconfig_def mpsearch_first)

section \<open>The walk over the entries\<close>

text \<open>The specification: a walk over entries of the five known types, and what each entry does to the state.\<close>

definition entry_size :: "u8 \<Rightarrow> u32" where
  "entry_size t = (if t = MPPROC then MPPROC_SIZE else 8)"

definition entry_effect :: "memory \<Rightarrow> u32 \<Rightarrow> mpstate \<Rightarrow> mpstate" where
  "entry_effect m p s =
     (if m p = MPPROC then add_cpu (m (p + 1)) s else if m p = MPIOAPIC then s\<lparr>ioapicid := m (p + 1)\<rparr> else s)"

definition known_entry :: "u8 \<Rightarrow> bool" where
  "known_entry t \<longleftrightarrow> t \<in> {MPPROC, MPBUS, MPIOAPIC, MPIOINTR, MPLINTR}"

lemmas mp_types = MPPROC_def MPBUS_def MPIOAPIC_def MPIOINTR_def MPLINTR_def

inductive walks :: "memory \<Rightarrow> u32 \<Rightarrow> u32 \<Rightarrow> u32 list \<Rightarrow> u32 \<Rightarrow> bool" for m e where
  here: "walks m e p [] p"
| step: "walks m e p (p # ps) q" if "p < e" "known_entry (m p)" "walks m e (p + entry_size (m p)) ps q"

lemma walks_unknown:
  assumes "walks m e p ps q" and "\<not> known_entry (m p)"
  shows "ps = [] \<and> q = p"
  using assms(1) by (cases rule: walks.cases) (use assms(2) in simp_all)

lemma mp_entries_known:
  assumes "p < e" and "known_entry (m p)"
  shows "mp_entries m e p b s = mp_entries m e (p + entry_size (m p)) b (entry_effect m p s)"
  by (subst mp_entries.simps) (use assms in \<open>auto simp: known_entry_def entry_size_def entry_effect_def MPIOAPIC_SIZE_def mp_types\<close>)

lemma mp_entries_walk: "walks m e p ps q \<Longrightarrow> mp_entries m e p b s = mp_entries m e q b (fold (entry_effect m) ps s)"
  by (induction arbitrary: s rule: walks.induct) (simp_all add: mp_entries_known)

text \<open>At an entry of another type the loop stays for ever.\<close>

lemma mp_entries_terminates:
  assumes "mp_entries m e p b s = Some y"
  shows "p < e \<longrightarrow> known_entry (m p)"
proof (rule mp_entries.raw_induct [where P = "\<lambda>m e p b s y. p < e \<longrightarrow> known_entry (m p)", OF _ assms])
  fix f m e p b s y
  assume IH: "\<And>m e p b s y. f m e p b s = Some y \<Longrightarrow> p < e \<longrightarrow> known_entry (m p)"
    and y: "(if p < e then
        if m p = MPPROC then f m e (p + MPPROC_SIZE) b (add_cpu (m (p + 1)) s)
        else if m p = MPIOAPIC then f m e (p + MPIOAPIC_SIZE) b (s\<lparr>ioapicid := m (p + 1)\<rparr>)
        else if m p = MPBUS \<or> m p = MPIOINTR \<or> m p = MPLINTR then f m e (p + 8) b s
        else f m e p False s
      else Some (b, s)) = Some y"
  show "p < e \<longrightarrow> known_entry (m p)"
  proof (intro impI, rule ccontr)
    assume "p < e" "\<not> known_entry (m p)"
    then have "f m e p False s = Some y" using y by (simp add: known_entry_def)
    then show False using IH \<open>p < e\<close> \<open>\<not> known_entry (m p)\<close> by blast
  qed
qed

lemma mp_entries_stuck: "p < e \<Longrightarrow> \<not> known_entry (m p) \<Longrightarrow> mp_entries m e p b s = None"
  using mp_entries_terminates [of m e p b s] by (cases "mp_entries m e p b s") auto

lemma walk_exists:
  assumes "unat e + 20 \<le> 2 ^ 32"
  shows "\<exists>ps q. walks m e p ps q \<and> (q < e \<longrightarrow> \<not> known_entry (m q))"
proof (induction "unat e - unat p" arbitrary: p rule: less_induct)
  case less
  show ?case
  proof (cases "p < e \<and> known_entry (m p)")
    case True
    let ?n = "entry_size (m p)"
    have n: "unat ?n = 20 \<or> unat ?n = 8" by (simp add: entry_size_def MPPROC_SIZE_def)
    have p: "unat p < unat e" using True by (simp add: word_less_nat_alt)
    have "unat (p + ?n) = unat p + unat ?n" using n p assms by (auto simp: unat_word_ariths)
    then have "unat e - unat (p + ?n) < unat e - unat p" using n p by auto
    from less [OF this] obtain ps q where "walks m e (p + ?n) ps q" "q < e \<longrightarrow> \<not> known_entry (m q)" by blast
    then show ?thesis using True walks.step by blast
  next
    case False
    then show ?thesis using walks.here by blast
  qed
qed

text \<open>The processors of a walk.\<close>

definition mp_procs :: "memory \<Rightarrow> u32 list \<Rightarrow> u8 list" where
  "mp_procs m ps = map (\<lambda>p. m (p + 1)) (filter (\<lambda>p. m p = MPPROC) ps)"

text \<open>The last I/O APIC entry wins; without one the old value stays.\<close>

definition mp_ioapic :: "memory \<Rightarrow> u32 list \<Rightarrow> u8 \<Rightarrow> u8" where
  "mp_ioapic m ps old = last (old # map (\<lambda>p. m (p + 1)) (filter (\<lambda>p. m p = MPIOAPIC) ps))"

definition cpus_are :: "u8 list \<Rightarrow> mpstate \<Rightarrow> bool" where
  "cpus_are as s \<longleftrightarrow> ncpu s = min NCPU (length as) \<and> (\<forall>k < ncpu s. apicids s k = as ! k)"

lemma cpus_are_add: "cpus_are as s \<Longrightarrow> cpus_are (as @ [a]) (add_cpu a s)"
  by (auto simp: cpus_are_def add_cpu_def nth_append min_def less_Suc_eq split: if_splits)

lemma cpus_are_effect: "cpus_are as s \<Longrightarrow> cpus_are (as @ mp_procs m ps) (fold (entry_effect m) ps s)"
proof (induction ps arbitrary: as s)
  case (Cons p ps)
  show ?case
  proof (cases "m p = MPPROC")
    case True
    then show ?thesis using Cons.IH [OF cpus_are_add [OF Cons.prems]] by (simp add: entry_effect_def mp_procs_def)
  next
    case False
    have "cpus_are as (entry_effect m p s)" using Cons.prems False by (simp add: entry_effect_def cpus_are_def)
    then show ?thesis using Cons.IH False by (simp add: mp_procs_def)
  qed
qed (simp add: mp_procs_def)

lemma fold_effect_lapic: "lapic_addr (fold (entry_effect m) ps s) = lapic_addr s"
  by (induction ps arbitrary: s) (simp_all add: entry_effect_def add_cpu_def)

lemma fold_effect_ioapic: "ioapicid (fold (entry_effect m) ps s) = mp_ioapic m ps (ioapicid s)"
proof (induction ps arbitrary: s)
  case (Cons p ps)
  then show ?case by (auto simp: mp_ioapic_def entry_effect_def add_cpu_def mp_types)
qed (simp add: mp_ioapic_def)

text \<open>Everything the table says, in the state and in the writes to the ports.\<close>

definition mp_recorded :: "memory \<Rightarrow> u8 \<Rightarrow> u32 \<Rightarrow> u32 \<Rightarrow> u32 list \<Rightarrow> mpstate \<Rightarrow> mpstate \<Rightarrow> (u16 \<times> u8) list \<Rightarrow> bool" where
  "mp_recorded m imcr conf mp ps s s' ws \<longleftrightarrow> cpus_are (mp_procs m ps) s' \<and> lapic_addr s' = conf_lapicaddr m conf \<and>
     ioapicid s' = mp_ioapic m ps (ioapicid s) \<and>
     ws = (if mp_imcrp m mp \<noteq> 0 then [(0x22, 0x70), (0x23, imcr OR 1)] else [])"

section \<open>What \<open>mpinit\<close> does\<close>

definition table_end :: "memory \<Rightarrow> u32 \<Rightarrow> u32" where
  "table_end m conf = conf + ucast (conf_length m conf)"

lemma mpinit_table:
  assumes c: "mpconfig m = Some (Some (conf, mp))" and e: "unat (table_end m conf) + 20 \<le> 2 ^ 32" and s: "ncpu s = 0"
  shows "\<exists>ps q. walks m (table_end m conf) (conf + MPCONF_SIZE) ps q \<and>
    (if q < table_end m conf then \<not> known_entry (m q) \<and> mpinit m imcr s = None
     else \<exists>s' ws. mpinit m imcr s = Some (MpReady s' ws) \<and> mp_recorded m imcr conf mp ps s s' ws)"
proof -
  let ?s = "s\<lparr>lapic_addr := conf_lapicaddr m conf\<rparr>"
  obtain ps q where w: "walks m (table_end m conf) (conf + MPCONF_SIZE) ps q" "q < table_end m conf \<longrightarrow> \<not> known_entry (m q)"
    using walk_exists [OF e] by blast
  have r: "mp_entries m (table_end m conf) (conf + MPCONF_SIZE) True ?s =
      mp_entries m (table_end m conf) q True (fold (entry_effect m) ps ?s)"
    by (rule mp_entries_walk [OF w(1)])
  show ?thesis
  proof (cases "q < table_end m conf")
    case True
    then have "mpinit m imcr s = None"
      using c r mp_entries_stuck [of q "table_end m conf" m] w(2) by (simp add: mpinit_def table_end_def)
    then show ?thesis using w True by auto
  next
    case False
    then have "mp_entries m (table_end m conf) q True (fold (entry_effect m) ps ?s) = Some (True, fold (entry_effect m) ps ?s)"
      by (subst mp_entries.simps) simp
    then have "mpinit m imcr s = Some (MpReady (fold (entry_effect m) ps ?s)
        (if mp_imcrp m mp \<noteq> 0 then [(0x22, 0x70), (0x23, imcr OR 1)] else []))"
      using c r by (simp add: mpinit_def table_end_def)
    moreover have "cpus_are (mp_procs m ps) (fold (entry_effect m) ps ?s)"
      using cpus_are_effect [of "[]" ?s m ps] s by (simp add: cpus_are_def)
    ultimately show ?thesis using w False fold_effect_lapic [of m ps ?s] fold_effect_ioapic [of m ps ?s]
      by (auto simp: mp_recorded_def)
  qed
qed

lemma mpinit_cases:
  assumes "ncpu s = 0" and "\<And>conf mp. mpconfig m = Some (Some (conf, mp)) \<Longrightarrow> unat (table_end m conf) + 20 \<le> 2 ^ 32"
  shows "\<exists>r. mpconfig m = Some r \<and>
       (case r of None \<Rightarrow> mpinit m imcr s = Some (MpPanic ''Expect to run on an SMP'')
        | Some (conf, mp) \<Rightarrow> \<exists>ps q. walks m (table_end m conf) (conf + MPCONF_SIZE) ps q \<and>
            (if q < table_end m conf then \<not> known_entry (m q) \<and> mpinit m imcr s = None
             else \<exists>s' ws. mpinit m imcr s = Some (MpReady s' ws) \<and> mp_recorded m imcr conf mp ps s s' ws))"
proof -
  obtain r where r: "mpconfig m = Some r" using mpconfig_total by blast
  show ?thesis
  proof (cases r)
    case None
    then show ?thesis using r by (simp add: mpinit_def)
  next
    case (Some x)
    obtain conf mp where x: "x = (conf, mp)" by (cases x)
    have c: "mpconfig m = Some (Some (conf, mp))" using r Some x by simp
    show ?thesis using mpinit_table [OF c assms(2) [OF c] assms(1), of imcr] c by simp
  qed
qed

text \<open>
  C38. Booting the processors. The search for the MP structure always ends, with the first place that has the
  signature and a zero check sum. Without a good configuration table \<open>mpinit\<close> panics. With one, whatever
  bytes it has, \<open>mpinit\<close> walks over its entries: if the walk reaches the end of the table the first
  \<open>NCPU\<close> processor entries are recorded in order and no more, with the address of the local APIC and the id of the last
  I/O APIC entry, and the interrupt mode register is written if the table asks for it; if it meets an entry of another type
  than the five known ones \<open>mpinit\<close> never returns: the panic the code has for that
  case is never reached. The second hypothesis keeps the walk from passing the end of the address space.
\<close>

theorem mpinit_outcomes:
  assumes "ncpu s = 0" and "\<And>conf mp. mpconfig m = Some (Some (conf, mp)) \<Longrightarrow> unat (table_end m conf) + 20 \<le> 2 ^ 32"
  shows "mpsearch m = Some (case find (mp_valid m) (mp_candidates m) of None \<Rightarrow> 0 | Some q \<Rightarrow> q) \<and>
    (\<exists>r. mpconfig m = Some r \<and>
       (case r of None \<Rightarrow> mpinit m imcr s = Some (MpPanic ''Expect to run on an SMP'')
        | Some (conf, mp) \<Rightarrow> \<exists>ps q. walks m (table_end m conf) (conf + MPCONF_SIZE) ps q \<and>
            (if q < table_end m conf then \<not> known_entry (m q) \<and> mpinit m imcr s = None
             else \<exists>s' ws. mpinit m imcr s = Some (MpReady s' ws) \<and> mp_recorded m imcr conf mp ps s s' ws)))"
  by (rule conjI [OF mpsearch_first mpinit_cases [OF assms]])

text \<open>A memory with an extended BIOS data area at \<^verbatim>\<open>0x1000\<close> that holds the structure, and a table at \<^verbatim>\<open>0x2000\<close> with one entry.\<close>

definition mp_image :: "u8 \<Rightarrow> u8 \<Rightarrow> memory" where
  "mp_image entry ck = (\<lambda>_. 0)(0x8000040F := 1, 0x80001000 := 0x5F, 0x80001001 := 0x4D, 0x80001002 := 0x50, 0x80001003 := 0x5F,
     0x80001005 := 0x20, 0x8000100A := 133, 0x80002000 := 0x50, 0x80002001 := 0x43, 0x80002002 := 0x4D, 0x80002003 := 0x50,
     0x80002004 := 64, 0x80002006 := 4, 0x80002007 := ck, 0x8000202C := entry, 0x8000202D := 7)"

lemma mp_image_config:
  assumes "(entry, ck) \<in> {(0, 133), (5, 128)}"
  shows "mpconfig (mp_image entry ck) = Some (Some (0x80002000, 0x80001000))"
    "table_end (mp_image entry ck) 0x80002000 = 0x80002040"
proof -
  let ?m = "mp_image entry ck"
  have v: "mp_valid ?m 0x80001000"
    by (simp add: mp_valid_def signature_at_def mem_at_def mp_sum_def MP_SIZE_def mp_image_def upt_rec)
  have e: "ebda ?m = 0x1000" by (simp add: ebda_def P2V_def KERNBASE_def mp_image_def Let_def)
  have "mp_places 0x1000 64 = 0x80001000 # map (\<lambda>i. P2V 0x1000 + of_nat (16 * i)) [1..<64]"
    unfolding mp_places_def by (subst upt_conv_Cons) (simp_all add: P2V_def KERNBASE_def)
  then have "mpsearch ?m = Some 0x80001000" using v by (simp add: mpsearch_first mp_candidates_def e)
  moreover have "mp_physaddr ?m 0x80001000 = 0x2000" by (simp add: mp_physaddr_def mem_at_def get32_def mp_image_def)
  moreover have l: "conf_length ?m 0x80002000 = 64" by (simp add: conf_length_def mem_at_def get16_def mp_image_def)
  moreover have "signature_at ?m 0x80002000 [0x50, 0x43, 0x4D, 0x50]"
    by (simp add: signature_at_def mem_at_def mp_image_def upt_rec)
  moreover have "conf_version ?m 0x80002000 = 4" by (simp add: conf_version_def mem_at_def mp_image_def)
  moreover have "mp_sum ?m 0x80002000 64 = 0" using assms by (auto simp: mp_sum_def mp_image_def upt_rec)
  ultimately show "mpconfig ?m = Some (Some (0x80002000, 0x80001000))"
    by (simp add: mpconfig_def P2V_def KERNBASE_def)
  show "table_end ?m 0x80002000 = 0x80002040" by (simp add: table_end_def l)
qed

definition mp_start :: mpstate where "mp_start = \<lparr>ncpu = 0, apicids = (\<lambda>_. 0), ioapicid = 0, lapic_addr = 0\<rparr>"

lemma mpinit_outcomes_witness:
  "(\<exists>s' ws. mpinit (mp_image 0 133) 0 mp_start = Some (MpReady s' ws) \<and> ncpu s' = 1) \<and> mpinit (mp_image 5 128) 0 mp_start = None"
proof -
  note G = mp_image_config [of 0 133] and B = mp_image_config [of 5 128]
  have s: "ncpu mp_start = 0" by (simp add: mp_start_def)
  have g: "\<exists>ps q. walks (mp_image 0 133) 0x80002040 0x8000202C ps q \<and>
      (if q < 0x80002040 then \<not> known_entry (mp_image 0 133 q) \<and> mpinit (mp_image 0 133) 0 mp_start = None
       else \<exists>s' ws. mpinit (mp_image 0 133) 0 mp_start = Some (MpReady s' ws) \<and> mp_recorded (mp_image 0 133) 0 0x80002000 0x80001000 ps mp_start s' ws)"
    using mpinit_outcomes [OF s, of "mp_image 0 133" 0] G by (simp add: MPCONF_SIZE_def)
  have b: "\<exists>ps q. walks (mp_image 5 128) 0x80002040 0x8000202C ps q \<and>
      (if q < 0x80002040 then \<not> known_entry (mp_image 5 128 q) \<and> mpinit (mp_image 5 128) 0 mp_start = None
       else \<exists>s' ws. mpinit (mp_image 5 128) 0 mp_start = Some (MpReady s' ws) \<and> mp_recorded (mp_image 5 128) 0 0x80002000 0x80001000 ps mp_start s' ws)"
    using mpinit_outcomes [OF s, of "mp_image 5 128" 0] B by (simp add: MPCONF_SIZE_def)
  have k: "known_entry (mp_image 0 133 0x8000202C)" "mp_image 0 133 0x8000202C = 0" "\<not> known_entry (mp_image 5 128 0x8000202C)"
    by (simp_all add: mp_image_def known_entry_def mp_types)
  have "mpinit (mp_image 5 128) 0 mp_start = None" using b walks_unknown [of "mp_image 5 128" _ "0x8000202C"] k(3) by fastforce
  moreover have "\<exists>s' ws. mpinit (mp_image 0 133) 0 mp_start = Some (MpReady s' ws) \<and> ncpu s' = 1"
  proof -
    obtain ps q where w: "walks (mp_image 0 133) 0x80002040 0x8000202C ps q" and
      r: "if q < 0x80002040 then \<not> known_entry (mp_image 0 133 q) \<and> mpinit (mp_image 0 133) 0 mp_start = None
       else \<exists>s' ws. mpinit (mp_image 0 133) 0 mp_start = Some (MpReady s' ws) \<and> mp_recorded (mp_image 0 133) 0 0x80002000 0x80001000 ps mp_start s' ws"
      using g by blast
    have "ps = [0x8000202C] \<and> q = 0x80002040" using w
    proof (cases rule: walks.cases)
      case here
      then show ?thesis using r k(1) by simp
    next
      case (step ps')
      have "entry_size (mp_image 0 133 0x8000202C) = 20" by (simp add: k(2) entry_size_def MPPROC_def MPPROC_SIZE_def)
      then have "walks (mp_image 0 133) 0x80002040 0x80002040 ps' q" using step by simp
      then have "ps' = [] \<and> q = 0x80002040" by (cases rule: walks.cases) simp_all
      then show ?thesis using step by simp
    qed
    then show ?thesis using r k(2) by (auto simp: mp_recorded_def cpus_are_def mp_procs_def MPPROC_def NCPU_def)
  qed
  ultimately show ?thesis by blast
qed

end
