(* ===== verification/Boot.thy ===== *)
theory Boot
  imports CString
begin

text \<open>
  The boot loader (\<^verbatim>\<open>bootmain.c\<close>): it reads the kernel, an ELF file from sector 1 of the disk on, sector by sector
  into physical memory. The drive is a parameter: a function from the port writes of a command to the 512 bytes
  it delivers, and \<open>ata_drive\<close> says that it decodes the block number as a disk of the ATA standard does. The loops that wait for
  the drive are left out. \<open>None\<close> is a loop that never ends.
\<close>

section \<open>Reading sectors\<close>

definition SECTSIZE :: u32 where "SECTSIZE = 512"

type_synonym drive = "(u16 \<times> u8) list \<Rightarrow> bytes"

definition read_command :: "u32 \<Rightarrow> (u16 \<times> u8) list" where
  "read_command offset =
     [(0x1F2, 1), (0x1F3, ucast offset), (0x1F4, ucast (drop_bit 8 offset)), (0x1F5, ucast (drop_bit 16 offset)),
      (0x1F6, ucast (drop_bit 24 offset OR 0xE0)), (0x1F7, 0x20)]"

text \<open>\<open>insl\<close> stores \<open>cnt\<close> words, the bytes of \<open>b\<close> from \<open>i\<close> on.\<close>

fun insl :: "u32 \<Rightarrow> bytes \<Rightarrow> nat \<Rightarrow> nat \<Rightarrow> memory \<Rightarrow> memory" where
  "insl addr b i 0 m = m"
| "insl addr b i (Suc cnt) m = insl (addr + 4) b (i + 4) cnt (put_word addr (get32 b i) m)"

definition readsect :: "drive \<Rightarrow> u32 \<Rightarrow> u32 \<Rightarrow> memory \<Rightarrow> memory" where
  "readsect drv dst offset m = insl dst (drv (read_command offset)) 0 (unat (SECTSIZE div 4)) m"

partial_function (option) readseg_loop :: "drive \<Rightarrow> u32 \<Rightarrow> u32 \<Rightarrow> u32 \<Rightarrow> memory \<Rightarrow> memory option" where
  "readseg_loop drv epa pa offset m =
     (if pa < epa then readseg_loop drv epa (pa + SECTSIZE) (offset + 1) (readsect drv pa offset m) else Some m)"

definition readseg :: "drive \<Rightarrow> u32 \<Rightarrow> u32 \<Rightarrow> u32 \<Rightarrow> memory \<Rightarrow> memory option" where
  "readseg drv pa count offset m =
     (let epa = pa + count
      in readseg_loop drv epa (pa - offset mod SECTSIZE) (offset div SECTSIZE + 1) m)"

section \<open>Loading the kernel\<close>

definition mem_word :: "memory \<Rightarrow> u32 \<Rightarrow> u32" where
  "mem_word m a = get32 (\<lambda>k. m (a + of_nat k)) 0"

definition mem_half :: "memory \<Rightarrow> u32 \<Rightarrow> u16" where
  "mem_half m a = get16 (\<lambda>k. m (a + of_nat k)) 0"

definition BOOT_MAGIC :: u32 where "BOOT_MAGIC = 0x464C457F"
definition scratch :: u32 where "scratch = 0x10000"

text \<open>The fields of the program header at \<open>ph\<close> are read from memory each time they are used.\<close>

partial_function (option) bootmain_loop :: "drive \<Rightarrow> u32 \<Rightarrow> u32 \<Rightarrow> memory \<Rightarrow> memory option" where
  "bootmain_loop drv eph ph m =
     (if ph < eph then do {
        let pa = mem_word m (ph + 12);
        m1 \<leftarrow> readseg drv pa (mem_word m (ph + 16)) (mem_word m (ph + 4)) m;
        let m2 = (if mem_word m1 (ph + 20) > mem_word m1 (ph + 16)
          then stosb (pa + mem_word m1 (ph + 16)) 0 (unat (mem_word m1 (ph + 20) - mem_word m1 (ph + 16))) m1 else m1);
        bootmain_loop drv eph (ph + 32) m2
      } else Some m)"

datatype boot = NotElf | Enter u32

definition bootmain :: "drive \<Rightarrow> memory \<Rightarrow> (boot \<times> memory) option" where
  "bootmain drv m = do {
     m1 \<leftarrow> readseg drv scratch 4096 0 m;
     if mem_word m1 scratch \<noteq> BOOT_MAGIC then Some (NotElf, m1)
     else do {
       let ph = scratch + mem_word m1 (scratch + 28);
       m2 \<leftarrow> bootmain_loop drv (ph + 32 * ucast (mem_half m1 (scratch + 44))) ph m1;
       Some (Enter (mem_word m2 (scratch + 24)), m2)
     }
   }"

section \<open>What a drive does\<close>

definition ata_drive :: "drive \<Rightarrow> (nat \<Rightarrow> bytes) \<Rightarrow> bool" where
  "ata_drive drv img \<longleftrightarrow> (\<forall>b0 b1 b2 b3.
     drv [(0x1F2, 1), (0x1F3, b0), (0x1F4, b1), (0x1F5, b2), (0x1F6, b3 OR 0xE0), (0x1F7, 0x20)] =
       img (unat b0 + 2 ^ 8 * unat b1 + 2 ^ 16 * unat b2 + 2 ^ 24 * unat (b3 AND 0xF)))"

lemma unat_and15: "unat ((a :: u8) AND 0xF) = unat a mod 16"
proof -
  have m: "(0xF :: u8) = mask 4" by (simp add: mask_eq_exp_minus_1)
  show ?thesis unfolding m take_bit_eq_mask [symmetric] by (simp add: unsigned_take_bit_eq take_bit_nat_def)
qed

lemma read_command_sector:
  assumes d: "ata_drive drv img" and n: "unat offset < 2 ^ 28"
  shows "drv (read_command offset) = img (unat offset)"
proof -
  let ?b = "\<lambda>k. ucast (drop_bit k offset) :: u8"
  have o: "ucast (drop_bit 24 offset OR 0xE0) = ?b 24 OR 0xE0"
    by (rule bit_word_eqI) (auto simp: bit_or_iff bit_ucast_iff)
  have u: "unat (?b k) = unat offset div 2 ^ k mod 2 ^ 8" for k
  proof -
    have "unat (?b k) = take_bit 8 (unat (drop_bit k offset))" by (simp only: unsigned_ucast_eq) simp
    also have "\<dots> = take_bit 8 (drop_bit k (take_bit 32 (unat offset)))" by (simp only: unsigned_drop_bit_eq) simp
    also have "take_bit 32 (unat offset) = unat offset" using unsigned_less [of offset] by (intro take_bit_nat_eq_self) simp
    finally show ?thesis by (simp only: drop_bit_eq_div take_bit_nat_def)
  qed
  have top: "unat (?b 24 AND 0xF) = unat offset div 2 ^ 24"
  proof -
    have "unat (?b 24 AND 0xF) = unat (?b 24) mod 2 ^ 4" by (simp add: unat_and15)
    moreover have "unat offset div 2 ^ 24 < 2 ^ 4" using n by (simp add: less_mult_imp_div_less)
    ultimately show ?thesis by (simp add: u)
  qed
  have "drv (read_command offset) = img (unat (?b 0) + 2 ^ 8 * unat (?b 8) + 2 ^ 16 * unat (?b 16) + 2 ^ 24 * unat (?b 24 AND 0xF))"
    using d unfolding ata_drive_def read_command_def o by simp
  also have "unat (?b 0) + 2 ^ 8 * unat (?b 8) + 2 ^ 16 * unat (?b 16) + 2 ^ 24 * unat (?b 24 AND 0xF) = unat offset"
  proof -
    have "q mod 256 + 256 * (q div 256 mod 256) + 65536 * (q div 256 div 256 mod 256) + 16777216 * (q div 256 div 256 div 256) = q"
      for q :: nat
    proof -
      have s: "p mod 256 + 256 * (p div 256) = p" for p :: nat by simp
      show ?thesis using s [of q] s [of "q div 256"] s [of "q div 256 div 256"] by linarith
    qed
    then show ?thesis
      unfolding top u by (simp add: div_mult2_eq [of _ 256 256, simplified] div_mult2_eq [of _ 256 65536, simplified])
  qed
  finally show ?thesis .
qed

lemma get32_bytes:
  "ucast (get32 b i) = b i" "ucast (drop_bit 8 (get32 b i)) = b (i + 1)"
  "ucast (drop_bit 16 (get32 b i)) = b (i + 2)" "ucast (drop_bit 24 (get32 b i)) = b (i + 3)"
  by (rule bit_word_eqI; force simp: get32_def bit_or_iff bit_push_bit_iff bit_ucast_iff bit_drop_bit_eq dest: bit_imp_le_length)+

lemma insl_at:
  "4 * n < 2 ^ 32 \<Longrightarrow> insl a b i n m x = (if unat (x - a) < 4 * n then b (i + unat (x - a)) else m x)"
proof (induction n arbitrary: a i m)
  case (Suc n)
  let ?m = "put_word a (get32 b i) m"
  have IH: "insl (a + 4) b (i + 4) n ?m x = (if unat (x - (a + 4)) < 4 * n then b (i + 4 + unat (x - (a + 4))) else ?m x)"
    by (rule Suc.IH) (use Suc.prems in simp)
  have w: "?m = m(a := b i, a + 1 := b (i + 1), a + 2 := b (i + 2), a + 3 := b (i + 3))"
    by (simp add: put_word_def get32_bytes)
  show ?case
  proof (cases "x \<in> {a, a + 1, a + 2, a + 3}")
    case True
    then have "unat (x - a) < 4" by auto
    have "\<not> unat (x - (a + 4)) < 4 * n"
    proof -
      have "unat (x - (a + 4)) \<ge> 2 ^ 32 - 4" using True by (auto simp: unsigned_minus_1_eq_mask mask_eq_exp_minus_1)
      then show ?thesis using Suc.prems by simp
    qed
    then show ?thesis using True IH w by auto
  next
    case False
    have o: "unat (x - a) = 4 + unat (x - (a + 4))"
      using False offset_Suc [of x a] offset_Suc [of x "a + 1"] offset_Suc [of x "a + 2"] offset_Suc [of x "a + 3"]
      by (simp add: add.assoc)
    show ?thesis using IH w False o by (auto simp: add.assoc)
  qed
qed simp

section \<open>What \<open>readseg\<close> does\<close>

text \<open>The kernel file as bytes, without the boot sector.\<close>

definition kernel_file :: "(nat \<Rightarrow> bytes) \<Rightarrow> bytes" where
  "kernel_file img k = img (k div 512 + 1) (k mod 512)"

lemma readsect_at:
  assumes "ata_drive drv img" and "unat offset < 2 ^ 28"
  shows "readsect drv a offset m x = (if unat (x - a) < 512 then img (unat offset) (unat (x - a)) else m x)"
  using insl_at [of 128 a "drv (read_command offset)" 0 m x] read_command_sector [OF assms]
  by (simp add: readsect_def SECTSIZE_def)

lemma readseg_loop_at:
  assumes d: "ata_drive drv img" and p: "unat pa + 512 * n \<le> 2 ^ 32 - 512" and o: "unat offset + n < 2 ^ 28"
    and e: "unat epa \<le> unat pa + 512 * n" "\<And>k. k < n \<Longrightarrow> unat pa + 512 * k < unat epa"
  shows "\<exists>m'. readseg_loop drv epa pa offset m = Some m' \<and>
    (\<forall>x. m' x = (if unat pa \<le> unat x \<and> unat x < unat pa + 512 * n
       then img (unat offset + (unat x - unat pa) div 512) ((unat x - unat pa) mod 512) else m x))"
  using p o e
proof (induction n arbitrary: pa offset m)
  case 0
  then show ?case by (subst readseg_loop.simps) (auto simp: word_less_nat_alt)
next
  case (Suc n)
  have lt: "pa < epa" using Suc.prems(4) [of 0] by (simp add: word_less_nat_alt)
  have p1: "unat (pa + SECTSIZE) = unat pa + 512" using Suc.prems(1) by (simp add: SECTSIZE_def unat_word_ariths)
  have o1: "unat (offset + 1) = unat offset + 1" using Suc.prems(2) by (simp add: unat_word_ariths)
  let ?m1 = "readsect drv pa offset m"
  obtain m' where m': "readseg_loop drv epa (pa + SECTSIZE) (offset + 1) ?m1 = Some m'"
    and at: "\<And>x. m' x = (if unat (pa + SECTSIZE) \<le> unat x \<and> unat x < unat (pa + SECTSIZE) + 512 * n
       then img (unat (offset + 1) + (unat x - unat (pa + SECTSIZE)) div 512) ((unat x - unat (pa + SECTSIZE)) mod 512) else ?m1 x)"
  proof -
    have k: "unat (pa + SECTSIZE) + 512 * k < unat epa" if "k < n" for k
      using Suc.prems(4) [of "Suc k"] that unfolding p1 by simp
    show ?thesis
      using Suc.IH [of "pa + SECTSIZE" "offset + 1" ?m1, OF _ _ _ k] Suc.prems(1-3) that unfolding p1 o1 by auto
  qed
  have "m' x = (if unat pa \<le> unat x \<and> unat x < unat pa + 512 * Suc n
       then img (unat offset + (unat x - unat pa) div 512) ((unat x - unat pa) mod 512) else m x)" for x
  proof -
    have r: "?m1 x = (if unat (x - pa) < 512 then img (unat offset) (unat (x - pa)) else m x)"
      by (rule readsect_at [OF d]) (use Suc.prems(2) in simp)
    have wrap: "unat (x - pa) = (if unat pa \<le> unat x then unat x - unat pa else unat x + 2 ^ 32 - unat pa)"
      by (simp add: unat_sub_if')
    consider "unat pa + 512 \<le> unat x" | "unat pa \<le> unat x" "unat x < unat pa + 512" | "unat x < unat pa" by linarith
    then show ?thesis
    proof cases
      case 1
      then have e: "unat x - unat pa = 512 + (unat x - (unat pa + 512))" by simp
      have "(unat x - unat pa) div 512 = Suc ((unat x - (unat pa + 512)) div 512)"
        "(unat x - unat pa) mod 512 = (unat x - (unat pa + 512)) mod 512" unfolding e by simp_all
      moreover have "\<not> unat (x - pa) < 512" using wrap 1 by simp
      then have "?m1 x = m x" using r by simp
      ultimately show ?thesis using 1 unfolding at [of x] p1 o1 by simp
    next
      case 2
      then have "m' x = ?m1 x" unfolding at [of x] p1 by simp
      moreover have "unat x - unat pa < 512" using 2 by linarith
      ultimately show ?thesis using r wrap 2 by simp
    next
      case 3
      then have "m' x = ?m1 x" unfolding at [of x] p1 by simp
      moreover have "unat (x - pa) = unat x + 2 ^ 32 - unat pa" using wrap 3 by simp
      then have "\<not> unat (x - pa) < 512" using Suc.prems(1) by simp
      ultimately show ?thesis using r 3 by simp
    qed
  qed
  then show ?case using m' lt by (subst readseg_loop.simps) simp
qed

text \<open>
  The whole sectors that \<open>readseg\<close> reads for \<open>count\<close> bytes from offset \<open>off\<close> of the file: \<open>seg_sectors\<close> of them, placed
  from \<open>seg_start\<close> on, so bytes before and after the segment are overwritten too.
\<close>

definition seg_start :: "nat \<Rightarrow> nat \<Rightarrow> nat" where "seg_start pa off = pa - off mod 512"
definition seg_sectors :: "nat \<Rightarrow> nat \<Rightarrow> nat" where "seg_sectors count off = (off mod 512 + count + 511) div 512"

lemma readseg_at:
  assumes d: "ata_drive drv img" and p: "unat offset mod 512 \<le> unat pa" "unat pa + unat count \<le> 2 ^ 32 - 1024"
  shows "\<exists>m'. readseg drv pa count offset m = Some m' \<and>
    (\<forall>x. m' x = (if seg_start (unat pa) (unat offset) \<le> unat x \<and>
         unat x < seg_start (unat pa) (unat offset) + 512 * seg_sectors (unat count) (unat offset)
       then kernel_file img (512 * (unat offset div 512) + (unat x - seg_start (unat pa) (unat offset))) else m x))"
proof -
  let ?n = "seg_sectors (unat count) (unat offset)" and ?st = "seg_start (unat pa) (unat offset)"
  let ?pa = "pa - offset mod SECTSIZE" and ?o = "offset div SECTSIZE + 1"
  have m: "unat (offset mod SECTSIZE) = unat offset mod 512" by (simp add: SECTSIZE_def unat_mod)
  have ol: "unat offset < 2 ^ 32" using unsigned_less [of offset] by simp
  have st: "unat ?pa = ?st" using p(1) m by (subst unat_sub) (simp_all add: word_le_nat_alt seg_start_def)
  have "unat offset div 512 < 2 ^ 23" using ol by (simp add: less_mult_imp_div_less)
  moreover have od: "unat ?o = unat offset div 512 + 1"
  proof -
    have "unat (offset div SECTSIZE) = unat offset div 512" by (simp add: SECTSIZE_def unat_div)
    then show ?thesis using calculation by (simp add: unat_word_ariths)
  qed
  moreover have "?n < 2 ^ 24" unfolding seg_sectors_def using p by (simp add: less_mult_imp_div_less)
  ultimately have o: "unat ?o + ?n < 2 ^ 28" by simp
  have r: "unat offset mod 512 < 512" by simp
  have n: "unat offset mod 512 + unat count \<le> 512 * ?n" "512 * ?n < unat offset mod 512 + unat count + 512"
    unfolding seg_sectors_def by linarith+
  have e: "unat (pa + count) = unat pa + unat count" using p(2) by (simp add: unat_word_ariths)
  have 1: "unat ?pa + 512 * ?n \<le> 2 ^ 32 - 512" using p [simplified] n(2) unfolding st seg_start_def by simp
  have 2: "unat (pa + count) \<le> unat ?pa + 512 * ?n" using p(1) n(1) unfolding st e seg_start_def by linarith
  have 3: "unat ?pa + 512 * k < unat (pa + count)" if "k < ?n" for k
    using p(1) n(2) that unfolding st e seg_start_def by linarith
  from readseg_loop_at [OF d 1 o 2 3, of m] obtain m' where m': "readseg_loop drv (pa + count) ?pa ?o m = Some m'"
    "\<And>x. m' x = (if ?st \<le> unat x \<and> unat x < ?st + 512 * ?n
       then img (unat offset div 512 + 1 + (unat x - ?st) div 512) ((unat x - ?st) mod 512) else m x)"
    unfolding st od by blast
  have k: "kernel_file img (512 * (unat offset div 512) + j) = img (unat offset div 512 + 1 + j div 512) (j mod 512)" for j
    by (simp add: kernel_file_def)
  have "m' x = (if ?st \<le> unat x \<and> unat x < ?st + 512 * ?n
       then kernel_file img (512 * (unat offset div 512) + (unat x - ?st)) else m x)" for x
    unfolding k by (rule m'(2))
  moreover have "readseg drv pa count offset m = Some m'" using m'(1) by (simp add: readseg_def Let_def)
  ultimately show ?thesis by blast
qed

section \<open>The kernel in memory\<close>

record bseg =
  bs_pa :: u32
  bs_off :: u32
  bs_filesz :: u32
  bs_memsz :: u32

definition ph_offset :: "bytes \<Rightarrow> nat" where "ph_offset K = unat (get32 K 28)"
definition ph_count :: "bytes \<Rightarrow> nat" where "ph_count K = unat (get16 K 44)"

definition boot_seg :: "bytes \<Rightarrow> nat \<Rightarrow> bseg" where
  "boot_seg K i = (let a = ph_offset K + 32 * i
     in \<lparr>bs_pa = get32 K (a + 12), bs_off = get32 K (a + 4), bs_filesz = get32 K (a + 16), bs_memsz = get32 K (a + 20)\<rparr>)"

definition bs_start :: "bseg \<Rightarrow> nat" where "bs_start s = seg_start (unat (bs_pa s)) (unat (bs_off s))"
definition bs_end :: "bseg \<Rightarrow> nat" where "bs_end s = unat (bs_pa s) + max (unat (bs_filesz s)) (unat (bs_memsz s))"

definition fits :: "bseg \<Rightarrow> bool" where
  "fits s \<longleftrightarrow> unat (bs_off s) mod 512 \<le> unat (bs_pa s) \<and> 0x11000 \<le> bs_start s \<and> bs_end s \<le> 2 ^ 32 - 1024"

lemma fitsD:
  assumes "fits s"
  shows "unat (bs_off s) mod 512 \<le> unat (bs_pa s)" "unat (bs_pa s) + unat (bs_filesz s) \<le> 2 ^ 32 - 1024"
    "unat (bs_pa s) + unat (bs_memsz s) \<le> 2 ^ 32 - 1024" "0x11000 \<le> bs_start s"
  using assms max.cobounded1 [of "unat (bs_filesz s)" "unat (bs_memsz s)"] max.cobounded2 [of "unat (bs_memsz s)" "unat (bs_filesz s)"]
  unfolding fits_def bs_end_def by linarith+

text \<open>
  What the loader relies on: the program headers are in the first page, the sectors of a segment start above the
  scratch page, and the segments lie in memory in the order of their headers, so far apart that the first sector of one does
  not reach back into the one before.
\<close>

definition bootable :: "bytes \<Rightarrow> bool" where
  "bootable K \<longleftrightarrow> get32 K 0 = BOOT_MAGIC \<and> ph_offset K + 32 * ph_count K \<le> 4096 \<and>
     (\<forall>i < ph_count K. fits (boot_seg K i) \<and> (\<forall>j < i. bs_end (boot_seg K j) \<le> bs_start (boot_seg K i)))"

definition seg_loaded :: "bytes \<Rightarrow> bseg \<Rightarrow> memory \<Rightarrow> bool" where
  "seg_loaded K s m \<longleftrightarrow>
     (\<forall>k < unat (bs_filesz s). m (bs_pa s + of_nat k) = K (unat (bs_off s) + k)) \<and>
     (\<forall>k < unat (bs_memsz s). unat (bs_filesz s) \<le> k \<longrightarrow> m (bs_pa s + of_nat k) = 0)"

definition scratch_ok :: "bytes \<Rightarrow> memory \<Rightarrow> bool" where
  "scratch_ok K m \<longleftrightarrow> (\<forall>k < 4096. m (scratch + of_nat k) = K k)"

lemma scratch_words:
  assumes "scratch_ok K m"
  shows "k + 4 \<le> 4096 \<Longrightarrow> mem_word m (scratch + of_nat k) = get32 K k"
    "k + 2 \<le> 4096 \<Longrightarrow> mem_half m (scratch + of_nat k) = get16 K k"
proof -
  have b: "m (scratch + of_nat k + of_nat j) = K (k + j)" if "k + j < 4096" for j
    using assms that by (simp add: scratch_ok_def add.assoc flip: of_nat_add)
  show "mem_word m (scratch + of_nat k) = get32 K k" if "k + 4 \<le> 4096"
    using b [of 0] b [of 1] b [of 2] b [of 3] that by (simp add: mem_word_def get32_def)
  show "mem_half m (scratch + of_nat k) = get16 K k" if "k + 2 \<le> 4096"
    using b [of 0] b [of 1] that by (simp add: mem_half_def get16_def)
qed

lemma unat_add_small: "unat (a :: u32) + k < 2 ^ 32 \<Longrightarrow> unat (a + of_nat k) = unat a + k"
  by (simp add: unat_word_ariths unat_of_nat take_bit_nat_eq_self)

definition load_seg :: "drive \<Rightarrow> bseg \<Rightarrow> memory \<Rightarrow> memory option" where
  "load_seg drv s m = do {
     m1 \<leftarrow> readseg drv (bs_pa s) (bs_filesz s) (bs_off s) m;
     Some (if bs_memsz s > bs_filesz s then stosb (bs_pa s + bs_filesz s) 0 (unat (bs_memsz s - bs_filesz s)) m1 else m1)
   }"

lemma seg_bytes:
  assumes d: "ata_drive drv img" and f: "fits s"
  shows "\<exists>m1. readseg drv (bs_pa s) (bs_filesz s) (bs_off s) m = Some m1 \<and> (\<forall>x. unat x < bs_start s \<longrightarrow> m1 x = m x) \<and>
    (\<forall>k < unat (bs_filesz s). m1 (bs_pa s + of_nat k) = kernel_file img (unat (bs_off s) + k))"
proof -
  let ?p = "unat (bs_pa s)" and ?o = "unat (bs_off s)" and ?c = "unat (bs_filesz s)"
  have p: "?o mod 512 \<le> ?p" "?p + ?c \<le> 2 ^ 32 - 1024" using fitsD [OF f] by simp_all
  from readseg_at [OF d p, of m] obtain m1 where m1: "readseg drv (bs_pa s) (bs_filesz s) (bs_off s) m = Some m1"
    "\<And>x. m1 x = (if bs_start s \<le> unat x \<and> unat x < bs_start s + 512 * seg_sectors ?c ?o
       then kernel_file img (512 * (?o div 512) + (unat x - bs_start s)) else m x)" unfolding bs_start_def by blast
  have "m1 (bs_pa s + of_nat k) = kernel_file img (?o + k)" if "k < ?c" for k
  proof -
    have u: "unat (bs_pa s + of_nat k) = ?p + k" using p(2) that by (intro unat_add_small) simp
    have st: "bs_start s = ?p - ?o mod 512" by (simp add: bs_start_def seg_start_def)
    have n: "?o mod 512 + ?c \<le> 512 * seg_sectors ?c ?o" unfolding seg_sectors_def by linarith
    have "bs_start s \<le> ?p + k" "?p + k < bs_start s + 512 * seg_sectors ?c ?o" using st n that p(1) by linarith+
    moreover have "?p + k - bs_start s = ?o mod 512 + k" using st p(1) by linarith
    moreover have "512 * (?o div 512) + (?o mod 512 + k) = ?o + k" by simp
    ultimately show ?thesis unfolding m1(2) u by simp
  qed
  then show ?thesis using m1 by auto
qed

lemma load_seg_ok:
  assumes d: "ata_drive drv img" and f: "fits s"
  shows "\<exists>m2. load_seg drv s m = Some m2 \<and> seg_loaded (kernel_file img) s m2 \<and> (\<forall>x. unat x < bs_start s \<longrightarrow> m2 x = m x)"
proof -
  let ?p = "unat (bs_pa s)" and ?c = "unat (bs_filesz s)" and ?z = "unat (bs_memsz s)"
  obtain m1 where m1: "readseg drv (bs_pa s) (bs_filesz s) (bs_off s) m = Some m1" "\<And>x. unat x < bs_start s \<Longrightarrow> m1 x = m x"
    "\<And>k. k < ?c \<Longrightarrow> m1 (bs_pa s + of_nat k) = kernel_file img (unat (bs_off s) + k)"
    using seg_bytes [OF d f, of m] by blast
  have e: "?p + ?c < 2 ^ 32" "?p + ?z < 2 ^ 32" using fitsD [OF f] by simp_all
  have st: "bs_start s \<le> ?p" by (simp add: bs_start_def seg_start_def)
  show ?thesis
  proof (cases "bs_memsz s > bs_filesz s")
    case False
    then show ?thesis using m1 by (auto simp: load_seg_def seg_loaded_def word_less_nat_alt)
  next
    case True
    let ?m2 = "stosb (bs_pa s + bs_filesz s) 0 (unat (bs_memsz s - bs_filesz s)) m1"
    have u: "unat (bs_pa s + bs_filesz s) = ?p + ?c" using e(1) by (simp add: unat_word_ariths)
    have z: "unat (bs_memsz s - bs_filesz s) = ?z - ?c" using True by (subst unat_sub) (simp_all add: word_le_nat_alt word_less_nat_alt)
    have at: "?m2 x = (if ?p + ?c \<le> unat x \<and> unat x < ?p + ?z then 0 else m1 x)" for x
    proof -
      have "unat (bs_memsz s - bs_filesz s) < 2 ^ 32" using e(2) unfolding z by simp
      note S = stosb_spec [OF this, of "bs_pa s + bs_filesz s" 0 m1 x]
      have w: "unat (x - (bs_pa s + bs_filesz s)) = (if ?p + ?c \<le> unat x then unat x - (?p + ?c) else unat x + 2 ^ 32 - (?p + ?c))"
        by (simp add: unat_sub_if' u)
      have lt: "?c < ?z" using True by (simp add: word_less_nat_alt)
      show ?thesis
      proof (cases "?p + ?c \<le> unat x")
        case True
        then have "unat (x - (bs_pa s + bs_filesz s)) = unat x - (?p + ?c)" using w by simp
        then have "unat (x - (bs_pa s + bs_filesz s)) < ?z - ?c \<longleftrightarrow> unat x < ?p + ?z" using True lt by linarith
        then show ?thesis using S True unfolding z by simp
      next
        case False
        then have "\<not> unat (x - (bs_pa s + bs_filesz s)) < ?z - ?c" using w e by simp
        then show ?thesis using S False unfolding z by simp
      qed
    qed
    have k: "unat (bs_pa s + of_nat k) = ?p + k" if "k < ?z" for k using e(2) that by (intro unat_add_small) simp
    have "seg_loaded (kernel_file img) s ?m2"
      using m1(3) True k by (auto simp: seg_loaded_def at word_less_nat_alt)
    moreover have "?m2 x = m x" if "unat x < bs_start s" for x using m1(2) that st unfolding at by simp
    ultimately show ?thesis using m1(1) True by (simp add: load_seg_def)
  qed
qed

lemma seg_loaded_below:
  assumes "seg_loaded K s m" and "\<And>x. unat x < bs_end s \<Longrightarrow> m' x = m x" and "fits s"
  shows "seg_loaded K s m'"
proof -
  have "m' (bs_pa s + of_nat k) = m (bs_pa s + of_nat k)" if "k < max (unat (bs_filesz s)) (unat (bs_memsz s))" for k
  proof (rule assms(2))
    have "unat (bs_pa s + of_nat k) = unat (bs_pa s) + k"
      using assms(3) that by (intro unat_add_small) (simp add: fits_def bs_end_def)
    then show "unat (bs_pa s + of_nat k) < bs_end s" using that by (simp add: bs_end_def)
  qed
  then show ?thesis using assms(1) by (simp add: seg_loaded_def less_max_iff_disj)
qed

lemma bootmain_loop_ok:
  assumes d: "ata_drive drv img" and K: "K = kernel_file img" and b: "bootable K" and i: "i + n = ph_count K"
    and m: "scratch_ok K m" "\<And>j. j < i \<Longrightarrow> seg_loaded K (boot_seg K j) m"
  shows "\<exists>m'. bootmain_loop drv (scratch + of_nat (ph_offset K + 32 * ph_count K)) (scratch + of_nat (ph_offset K + 32 * i)) m = Some m' \<and>
    scratch_ok K m' \<and> (\<forall>j < ph_count K. seg_loaded K (boot_seg K j) m')"
  using i m
proof (induction n arbitrary: i m)
  case 0
  then show ?case by (subst bootmain_loop.simps) simp
next
  case (Suc n)
  let ?s = "boot_seg K i" and ?a = "ph_offset K + 32 * i" and ?e = "scratch + of_nat (ph_offset K + 32 * ph_count K)"
  have i: "i < ph_count K" using Suc.prems(1) by simp
  have f: "fits ?s" and above: "\<And>j. j < i \<Longrightarrow> bs_end (boot_seg K j) \<le> bs_start ?s" and small: "ph_offset K + 32 * ph_count K \<le> 4096"
    using b i by (simp_all add: bootable_def)
  have fj: "fits (boot_seg K j)" if "j < i" for j using b i that by (simp add: bootable_def)
  have a: "?a + 32 \<le> 4096" using small i by simp
  obtain m1 where m1: "readseg drv (bs_pa ?s) (bs_filesz ?s) (bs_off ?s) m = Some m1" "\<And>x. unat x < bs_start ?s \<Longrightarrow> m1 x = m x"
    using seg_bytes [OF d f, of m] by blast
  obtain m2 where m2: "load_seg drv ?s m = Some m2" "seg_loaded K ?s m2" "\<And>x. unat x < bs_start ?s \<Longrightarrow> m2 x = m x"
    using load_seg_ok [OF d f, of m] K by blast
  have sc: "scratch_ok K m'" if "\<And>x. unat x < bs_start ?s \<Longrightarrow> m' x = m x" for m'
  proof -
    have "unat (scratch + of_nat k) < bs_start ?s" if "k < 4096" for k
    proof -
      have "unat (scratch + of_nat k) = unat scratch + k" using that by (intro unat_add_small) (simp add: scratch_def)
      then show ?thesis using fitsD(4) [OF f] that by (simp add: scratch_def)
    qed
    then show ?thesis using Suc.prems(2) that by (simp add: scratch_ok_def)
  qed
  have s1: "scratch_ok K m1" and s2: "scratch_ok K m2" using sc m1(2) m2(3) by blast+
  have w: "mem_word m' (scratch + of_nat ?a + of_nat j) = get32 K (?a + j)" if "j + 4 \<le> 32" "scratch_ok K m'" for m' j
    using scratch_words(1) [OF that(2), of "?a + j"] that(1) a by (simp add: add.assoc)
  have fld: "mem_word m' (scratch + of_nat ?a + 12) = bs_pa ?s" "mem_word m' (scratch + of_nat ?a + 16) = bs_filesz ?s"
    "mem_word m' (scratch + of_nat ?a + 4) = bs_off ?s" "mem_word m' (scratch + of_nat ?a + 20) = bs_memsz ?s" if "scratch_ok K m'" for m'
    using w [OF _ that, of 12] w [OF _ that, of 16] w [OF _ that, of 4] w [OF _ that, of 20] by (simp_all add: boot_seg_def Let_def)
  have u: "unat (scratch + of_nat k) = 65536 + k" if "k \<le> 4096" for k
  proof -
    have "unat (scratch + of_nat k) = unat scratch + k" using that by (intro unat_add_small) (simp add: scratch_def)
    then show ?thesis by (simp add: scratch_def)
  qed
  have lt: "scratch + of_nat ?a < ?e" unfolding word_less_nat_alt using u [of ?a] u [of "ph_offset K + 32 * ph_count K"] small a i by simp
  have nx: "scratch + of_nat ?a + 32 = scratch + of_nat (ph_offset K + 32 * Suc i)" by simp
  have "bootmain_loop drv ?e (scratch + of_nat ?a) m = bootmain_loop drv ?e (scratch + of_nat (ph_offset K + 32 * Suc i)) m2"
    using lt m1(1) m2(1) fld [OF Suc.prems(2)] fld [OF s1]
    by (subst bootmain_loop.simps) (simp only: if_True Let_def load_seg_def Option.bind.simps option.inject nx)
  moreover have "seg_loaded K (boot_seg K j) m2" if "j < Suc i" for j
  proof (cases "j = i")
    case False
    then have j: "j < i" using that by simp
    show ?thesis
    proof (rule seg_loaded_below [OF Suc.prems(3) [OF j] _ fj [OF j]])
      show "m2 x = m x" if "unat x < bs_end (boot_seg K j)" for x using m2(3) above [OF j] that by simp
    qed
  qed (use m2(2) in simp)
  ultimately show ?case using Suc.IH [of "Suc i" m2] Suc.prems(1) s2 by simp
qed

lemma bootmain_ok:
  assumes d: "ata_drive drv img" and K: "K = kernel_file img"
  shows "get32 K 0 \<noteq> BOOT_MAGIC \<Longrightarrow> \<exists>m'. bootmain drv m = Some (NotElf, m')"
    "bootable K \<Longrightarrow> \<exists>m'. bootmain drv m = Some (Enter (get32 K 24), m') \<and> (\<forall>j < ph_count K. seg_loaded K (boot_seg K j) m')"
proof -
  have p: "unat (0 :: u32) mod 512 \<le> unat scratch" "unat scratch + unat (4096 :: u32) \<le> 2 ^ 32 - 1024" by (simp_all add: scratch_def)
  obtain m1 where m1: "readseg drv scratch 4096 0 m = Some m1"
    "\<And>x. m1 x = (if 65536 \<le> unat x \<and> unat x < 69632 then K (unat x - 65536) else m x)"
    using readseg_at [OF d p, of m] by (auto simp: seg_start_def seg_sectors_def scratch_def K)
  have sc: "scratch_ok K m1"
  proof -
    have "unat (scratch + of_nat k) = 65536 + k" if "k < 4096" for k
    proof -
      have "unat (scratch + of_nat k) = unat scratch + k" using that by (intro unat_add_small) (simp add: scratch_def)
      then show ?thesis by (simp add: scratch_def)
    qed
    then show ?thesis by (simp add: scratch_ok_def m1(2))
  qed
  have h: "mem_word m' scratch = get32 K 0" "mem_word m' (scratch + 24) = get32 K 24" "mem_word m' (scratch + 28) = get32 K 28"
    "mem_half m' (scratch + 44) = get16 K 44" if "scratch_ok K m'" for m'
    using scratch_words(1) [OF that, of 0] scratch_words(1) [OF that, of 24] scratch_words(1) [OF that, of 28]
      scratch_words(2) [OF that, of 44] by simp_all
  show "\<exists>m'. bootmain drv m = Some (NotElf, m')" if "get32 K 0 \<noteq> BOOT_MAGIC"
    using m1(1) h(1) [OF sc] that by (simp add: bootmain_def)
  show "\<exists>m'. bootmain drv m = Some (Enter (get32 K 24), m') \<and> (\<forall>j < ph_count K. seg_loaded K (boot_seg K j) m')" if b: "bootable K"
  proof -
    have e: "scratch + get32 K 28 + 32 * ucast (get16 K 44) = scratch + of_nat (ph_offset K + 32 * ph_count K)"
      "scratch + get32 K 28 = scratch + of_nat (ph_offset K + 32 * 0)"
      by (simp_all add: ph_offset_def ph_count_def add.assoc)
    have "\<exists>m2. bootmain_loop drv (scratch + of_nat (ph_offset K + 32 * ph_count K)) (scratch + of_nat (ph_offset K + 32 * 0)) m1 = Some m2 \<and>
        scratch_ok K m2 \<and> (\<forall>j < ph_count K. seg_loaded K (boot_seg K j) m2)"
      by (rule bootmain_loop_ok [OF d K b, of 0 "ph_count K" m1]) (use sc in simp_all)
    then obtain m2 where r: "bootmain_loop drv (scratch + of_nat (ph_offset K + 32 * ph_count K)) (scratch + of_nat (ph_offset K + 32 * 0)) m1 = Some m2"
      and m2: "scratch_ok K m2" "\<forall>j < ph_count K. seg_loaded K (boot_seg K j) m2" by blast
    have "bootmain_loop drv (scratch + get32 K 28 + 32 * ucast (get16 K 44)) (scratch + get32 K 28) m1 = Some m2"
      by (subst e(1), subst e(2), rule r)
    moreover have "get32 K 0 = BOOT_MAGIC" using b by (simp add: bootable_def)
    ultimately have "bootmain drv m = Some (Enter (get32 K 24), m2)"
      using m1(1) h [OF sc] h(2) [OF m2(1)] by (simp add: bootmain_def Let_def)
    then show ?thesis using m2(2) by blast
  qed
qed

text \<open>
  C39. The boot loader loads the kernel. For every disk and every contents of memory: if the file that starts at
  sector 1 has no ELF magic number the loader returns to the assembler code; if its headers describe segments that fit and lie in
  increasing order (\<open>bootable\<close>), the loader ends at the entry point of the header and every segment is in
  memory, its file bytes at its physical address and zeros behind them, although \<open>readseg\<close> reads whole sectors and overwrites
  what is around a segment.
\<close>

theorem bootmain_loads:
  assumes "ata_drive drv img" and "K = kernel_file img" and "get32 K 0 = BOOT_MAGIC \<Longrightarrow> bootable K"
  shows "\<exists>m'. (if get32 K 0 = BOOT_MAGIC
      then bootmain drv m = Some (Enter (get32 K 24), m') \<and> (\<forall>j < ph_count K. seg_loaded K (boot_seg K j) m')
      else bootmain drv m = Some (NotElf, m'))"
  using bootmain_ok [OF assms(1,2), of m] assms(3) by auto

text \<open>A drive, and a kernel with one segment of two bytes in the file and four in memory.\<close>

definition demo_drive :: "(nat \<Rightarrow> bytes) \<Rightarrow> drive" where
  "demo_drive img c = (case map snd c of
     [_, b0, b1, b2, b3, _] \<Rightarrow> img (unat b0 + 2 ^ 8 * unat b1 + 2 ^ 16 * unat b2 + 2 ^ 24 * unat (b3 AND 0xF)) | _ \<Rightarrow> zero_bytes)"

lemma demo_drive_ata: "ata_drive (demo_drive img) img"
proof -
  have "(b OR 0xE0) AND 0xF = b AND (0xF :: u8)" for b
    by (simp add: bit.conj_disj_distrib2)
  then show ?thesis by (simp add: ata_drive_def demo_drive_def)
qed

definition demo_kernel :: "nat \<Rightarrow> bytes" where
  "demo_kernel = (\<lambda>_. zero_bytes)(1 := put16 (put32 (put32 (put32 (put32 (put32 (put32 (put32 zero_bytes 0 BOOT_MAGIC) 24 0x100000)
     28 52) 56 4096) 64 0x100000) 68 2) 72 4) 44 1, 9 := zero_bytes(0 := 7, 1 := 8, 2 := 9))"

lemma bootmain_loads_witness:
  "\<exists>m'. bootmain (demo_drive demo_kernel) (\<lambda>_. 1) = Some (Enter 0x100000, m') \<and> m' 0x100000 = 7 \<and> m' 0x100001 = 8 \<and>
    m' 0x100002 = 0 \<and> m' 0x100003 = 0"
proof -
  let ?K = "kernel_file demo_kernel"
  note g = kernel_file_def demo_kernel_def byte_simps get32_def get16_def put32_def put16_def
  have f: "get32 ?K 0 = BOOT_MAGIC" "get32 ?K 24 = 0x100000" "get32 ?K 28 = 52" "get16 ?K 44 = 1"
    "get32 ?K 56 = 4096" "get32 ?K 64 = 0x100000" "get32 ?K 68 = 2" "get32 ?K 72 = 4"
    by (simp_all add: g BOOT_MAGIC_def)
  have s: "boot_seg ?K 0 = \<lparr>bs_pa = 0x100000, bs_off = 4096, bs_filesz = 2, bs_memsz = 4\<rparr>"
    by (simp add: boot_seg_def ph_offset_def f Let_def)
  have c: "ph_count ?K = 1" by (simp add: ph_count_def f)
  have "bootable ?K"
    by (simp add: bootable_def c f ph_offset_def s fits_def bs_end_def bs_start_def seg_start_def)
  then obtain m' where m': "bootmain (demo_drive demo_kernel) (\<lambda>_. 1) = Some (Enter (get32 ?K 24), m')" "seg_loaded ?K (boot_seg ?K 0) m'"
    using bootmain_loads [OF demo_drive_ata refl, of demo_kernel "\<lambda>_. 1"] f(1) c by auto
  have k: "?K 4096 = 7" "?K 4097 = 8" by (simp_all add: kernel_file_def demo_kernel_def)
  have "m' 0x100000 = 7" "m' 0x100001 = 8" "m' 0x100002 = 0" "m' 0x100003 = 0"
  proof -
    have "\<forall>k < 2. m' (0x100000 + of_nat k) = ?K (4096 + k)" "\<forall>k < 4. 2 \<le> k \<longrightarrow> m' (0x100000 + of_nat k) = 0"
      using m'(2) unfolding s seg_loaded_def by simp_all
    from this(1) [rule_format, of 0] this(1) [rule_format, of 1] this(2) [rule_format, of 2] this(2) [rule_format, of 3]
    show "m' 0x100000 = 7" "m' 0x100001 = 8" "m' 0x100002 = 0" "m' 0x100003 = 0" using k by simp_all
  qed
  then show ?thesis using m'(1) f(2) by simp
qed

end
