(* ===== verification/UserProgs.thy ===== *)
theory UserProgs
  imports Prelude
begin

text \<open>
  User programs: \<^verbatim>\<open>wc.c\<close>, \<^verbatim>\<open>cat.c\<close>, \<^verbatim>\<open>echo.c\<close>, \<^verbatim>\<open>ls.c\<close>, and the command loop of the shell (\<open>getcmd\<close>, \<open>main\<close> of \<^verbatim>\<open>sh.c\<close>).
  What the kernel returns is an argument: a file is the list of the pieces that successive calls of \<^verbatim>\<open>read\<close> deliver, and a flag that
  says whether the call after the last piece fails; a piece of length 0 is the end of the file. What a program prints is a list of
  messages.
\<close>

text \<open>The pieces a loop \<^verbatim>\<open>while((n = read(...)) > 0)\<close> gets.\<close>

definition pieces :: "u8 list list \<Rightarrow> u8 list list" where
  "pieces reads = takeWhile (\<lambda>c. c \<noteq> []) reads"

text \<open>The loop ends with a negative \<open>n\<close> if the reads run out and the next call fails.\<close>

definition read_failed :: "u8 list list \<Rightarrow> bool \<Rightarrow> bool" where
  "read_failed reads fails \<longleftrightarrow> fails \<and> [] \<notin> set reads"

section \<open>wc\<close>

record wc_state =
  wc_l :: u32
  wc_w :: u32
  wc_c :: u32
  wc_inword :: bool

text \<open>\<^verbatim>\<open>strchr(" \r\t\n\v", c)\<close>; a NUL ends the string, so it is not found.\<close>

definition wc_white :: "u8 \<Rightarrow> bool" where
  "wc_white c \<longleftrightarrow> c \<in> set [0x20, 0x0D, 0x09, 0x0A, 0x0B]"

definition wc_byte :: "u8 \<Rightarrow> wc_state \<Rightarrow> wc_state" where
  "wc_byte b s =
     (let s1 = s\<lparr>wc_c := wc_c s + 1\<rparr>;
          s2 = (if b = 0x0A then s1\<lparr>wc_l := wc_l s1 + 1\<rparr> else s1)
      in if wc_white b then s2\<lparr>wc_inword := False\<rparr>
         else if \<not> wc_inword s2 then s2\<lparr>wc_w := wc_w s2 + 1, wc_inword := True\<rparr>
         else s2)"

fun wc_loop :: "u8 list list \<Rightarrow> wc_state \<Rightarrow> wc_state" where
  "wc_loop [] s = s"
| "wc_loop (buf # reads) s = (if buf = [] then s else wc_loop reads (fold wc_byte buf s))"

text \<open>The counts, or \<open>None\<close> for the message that reading has failed.\<close>

definition wc :: "u8 list list \<Rightarrow> bool \<Rightarrow> (u32 \<times> u32 \<times> u32) option" where
  "wc reads fails =
     (let s = wc_loop reads \<lparr>wc_l = 0, wc_w = 0, wc_c = 0, wc_inword = False\<rparr>
      in if read_failed reads fails then None else Some (wc_l s, wc_w s, wc_c s))"

text \<open>The words of a text.\<close>

function text_words :: "u8 list \<Rightarrow> u8 list list" where
  "text_words xs =
     (case dropWhile wc_white xs of
        [] \<Rightarrow> []
      | y # ys \<Rightarrow> (y # takeWhile (\<lambda>b. \<not> wc_white b) ys) # text_words (dropWhile (\<lambda>b. \<not> wc_white b) ys))"
  by pat_completeness auto
termination
proof (relation "measure length")
  fix xs y ys
  assume "dropWhile wc_white xs = y # ys"
  then have "length (y # ys) \<le> length xs" by (metis length_dropWhile_le)
  moreover have "length (dropWhile (\<lambda>b. \<not> wc_white b) ys) \<le> length ys" by (rule length_dropWhile_le)
  ultimately show "(dropWhile (\<lambda>b. \<not> wc_white b) ys, xs) \<in> measure length" by simp
qed simp

declare text_words.simps [simp del]

lemma text_words_white: "wc_white b \<Longrightarrow> text_words (b # bs) = text_words bs"
  by (subst (1 2) text_words.simps) simp

lemma text_words_Nil [simp]: "text_words [] = []"
  by (simp add: text_words.simps)

lemma text_words_word:
  "\<not> wc_white b \<Longrightarrow> text_words (b # bs) = (b # takeWhile (\<lambda>b. \<not> wc_white b) bs) # text_words (dropWhile (\<lambda>b. \<not> wc_white b) bs)"
  by (subst text_words.simps) simp

lemma wc_bytes:
  "wc_l (fold wc_byte bs s) = wc_l s + of_nat (length (filter (\<lambda>b. b = 0x0A) bs)) \<and>
   wc_c (fold wc_byte bs s) = wc_c s + of_nat (length bs) \<and>
   wc_w (fold wc_byte bs s) = wc_w s + of_nat (length (text_words
     (if wc_inword s then dropWhile (\<lambda>b. \<not> wc_white b) bs else bs)))"
proof (induction bs arbitrary: s)
  case (Cons b bs)
  show ?case
  proof (cases "wc_white b")
    case True
    then show ?thesis using Cons.IH [of "wc_byte b s"] by (auto simp: wc_byte_def Let_def text_words_white)
  next
    case False
    then have "b \<noteq> 0x0A" by (auto simp: wc_white_def)
    then show ?thesis using Cons.IH [of "wc_byte b s"] False by (auto simp: wc_byte_def Let_def text_words_word)
  qed
qed simp

lemma wc_loop_pieces: "wc_loop reads s = fold wc_byte (concat (pieces reads)) s"
  by (induction reads arbitrary: s) (simp_all add: pieces_def)

text \<open>
  \<open>wc\<close> counts. However the reads cut the text in pieces, \<open>wc\<close> prints the number of newlines, of
  words and of bytes of the whole text, modulo \<open>2\<^sup>3\<^sup>2\<close>; a word is a longest run of bytes that are not white space, and
  one that two reads share is counted once. It prints an error only if a read fails.
\<close>

lemma wc_counts:
  "wc reads fails =
    (let t = concat (pieces reads)
     in if read_failed reads fails then None
        else Some (of_nat (length (filter (\<lambda>b. b = 0x0A) t)), of_nat (length (text_words t)), of_nat (length t)))"
  using wc_bytes [of "concat (pieces reads)" "\<lparr>wc_l = 0, wc_w = 0, wc_c = 0, wc_inword = False\<rparr>"]
  by (simp add: wc_def wc_loop_pieces Let_def)

text \<open>
  The main program; \<open>file name\<close> is \<open>None\<close> if \<^verbatim>\<open>open\<close> fails, and else what the reads deliver. A message ends the program.
\<close>

type_synonym files = "string \<Rightarrow> (u8 list list \<times> bool) option"

datatype wc_line = WcLine u32 u32 u32 string | WcReadError | WcCannotOpen string

definition wc_print :: "string \<Rightarrow> (u32 \<times> u32 \<times> u32) option \<Rightarrow> wc_line" where
  "wc_print name r = (case r of None \<Rightarrow> WcReadError | Some (l, w, c) \<Rightarrow> WcLine l w c name)"

fun wc_args :: "files \<Rightarrow> string list \<Rightarrow> wc_line list" where
  "wc_args file [] = []"
| "wc_args file (a # args) =
     (case file a of
        None \<Rightarrow> [WcCannotOpen a]
      | Some (reads, fails) \<Rightarrow>
          (case wc reads fails of None \<Rightarrow> [wc_print a None] | Some r \<Rightarrow> wc_print a (Some r) # wc_args file args))"

definition wc_main :: "files \<Rightarrow> u8 list list \<times> bool \<Rightarrow> string list \<Rightarrow> wc_line list" where
  "wc_main file stdin args =
     (if args = [] then [wc_print [] (wc (fst stdin) (snd stdin))] else wc_args file args)"

lemma wc_main_counts:
  assumes "args \<noteq> []" and "\<And>a. a \<in> set args \<Longrightarrow> file a = Some (reads a, fails a) \<and> \<not> read_failed (reads a) (fails a)"
  shows "wc_main file stdin args = map (\<lambda>a. let t = concat (pieces (reads a)) in
    WcLine (of_nat (length (filter (\<lambda>b. b = 0x0A) t))) (of_nat (length (text_words t))) (of_nat (length t)) a) args"
proof -
  have "wc_args file args = map (\<lambda>a. let t = concat (pieces (reads a)) in
    WcLine (of_nat (length (filter (\<lambda>b. b = 0x0A) t))) (of_nat (length (text_words t))) (of_nat (length t)) a) args"
    using assms(2) by (induction args) (simp_all add: wc_counts wc_print_def Let_def)
  then show ?thesis using assms(1) by (simp add: wc_main_def)
qed

section \<open>cat and echo\<close>

datatype cat_end = CatOk | CatWriteError | CatReadError

text \<open>\<open>written n\<close> is what the \<open>n\<close>-th \<^verbatim>\<open>write\<close> returns; the bytes it is given are recorded.\<close>

fun cat_loop :: "(nat \<Rightarrow> int) \<Rightarrow> nat \<Rightarrow> u8 list list \<Rightarrow> u8 list list \<times> bool" where
  "cat_loop written k [] = ([], True)"
| "cat_loop written k (buf # reads) =
     (if buf = [] then ([], True)
      else if written k \<noteq> int (length buf) then ([buf], False)
      else case cat_loop written (k + 1) reads of (out, ok) \<Rightarrow> (buf # out, ok))"

definition cat :: "(nat \<Rightarrow> int) \<Rightarrow> u8 list list \<Rightarrow> bool \<Rightarrow> u8 list list \<times> cat_end" where
  "cat written reads fails =
     (case cat_loop written 0 reads of (out, ok) \<Rightarrow>
        (out, if \<not> ok then CatWriteError else if read_failed reads fails then CatReadError else CatOk))"

lemma cat_loop_copies:
  assumes "\<And>j. j < length (pieces reads) \<Longrightarrow> written (k + j) = int (length (pieces reads ! j))"
  shows "cat_loop written k reads = (pieces reads, True)"
  using assms
proof (induction reads arbitrary: k)
  case (Cons buf reads)
  show ?case
  proof (cases "buf = []")
    case False
    have p: "pieces (buf # reads) = buf # pieces reads" using False by (simp add: pieces_def)
    have "written (k + 1 + j) = int (length (pieces reads ! j))" if "j < length (pieces reads)" for j
      using Cons.prems [of "Suc j"] that by (simp add: p)
    then have "cat_loop written (k + 1) reads = (pieces reads, True)" by (rule Cons.IH)
    then show ?thesis using Cons.prems [of 0] False by (simp add: p)
  qed (simp add: pieces_def)
qed (simp add: pieces_def)

text \<open>If every write is complete \<open>cat\<close> writes the text it reads, and nothing else.\<close>

lemma cat_copies:
  assumes "\<And>j. j < length (pieces reads) \<Longrightarrow> written j = int (length (pieces reads ! j))"
  shows "cat written reads fails = (pieces reads, if read_failed reads fails then CatReadError else CatOk)"
  using cat_loop_copies [of reads written 0] assms by (simp add: cat_def)

text \<open>The main program; the writes are numbered through.\<close>

datatype cat_status = CatDone | CatFailed cat_end | CatCannotOpen string

fun cat_args :: "files \<Rightarrow> (nat \<Rightarrow> int) \<Rightarrow> string list \<Rightarrow> u8 list list \<times> cat_status" where
  "cat_args file written [] = ([], CatDone)"
| "cat_args file written (a # args) =
     (case file a of
        None \<Rightarrow> ([], CatCannotOpen a)
      | Some (reads, fails) \<Rightarrow>
          (case cat written reads fails of (out, r) \<Rightarrow>
             if r = CatOk
             then (case cat_args file (\<lambda>j. written (length out + j)) args of (out', r') \<Rightarrow> (out @ out', r'))
             else (out, CatFailed r)))"

definition cat_main :: "files \<Rightarrow> (nat \<Rightarrow> int) \<Rightarrow> u8 list list \<times> bool \<Rightarrow> string list \<Rightarrow> u8 list list \<times> cat_status" where
  "cat_main file written stdin args =
     (if args = [] then (case cat written (fst stdin) (snd stdin) of (out, r) \<Rightarrow> (out, if r = CatOk then CatDone else CatFailed r))
      else cat_args file written args)"

lemma cat_main_copies:
  assumes "args \<noteq> []" and "\<And>a. a \<in> set args \<Longrightarrow> file a = Some (reads a, False)"
    and "\<And>j. j < length (concat (map (\<lambda>a. pieces (reads a)) args)) \<Longrightarrow> written j = int (length (concat (map (\<lambda>a. pieces (reads a)) args) ! j))"
  shows "cat_main file written stdin args = (concat (map (\<lambda>a. pieces (reads a)) args), CatDone)"
proof -
  have "cat_args file written args = (concat (map (\<lambda>a. pieces (reads a)) args), CatDone)"
    using assms(2,3)
  proof (induction args arbitrary: written)
    case (Cons a args)
    have w: "written j = int (length (pieces (reads a) ! j))" if "j < length (pieces (reads a))" for j
      using Cons.prems(2) [of j] that by (simp add: nth_append)
    have "cat written (reads a) False = (pieces (reads a), CatOk)"
      using cat_copies [of "reads a" written False, OF w] by (simp add: read_failed_def)
    moreover have "cat_args file (\<lambda>j. written (length (pieces (reads a)) + j)) args = (concat (map (\<lambda>a. pieces (reads a)) args), CatDone)"
    proof (rule Cons.IH)
      show "written (length (pieces (reads a)) + j) = int (length (concat (map (\<lambda>a. pieces (reads a)) args) ! j))"
        if "j < length (concat (map (\<lambda>a. pieces (reads a)) args))" for j
        using Cons.prems(2) [of "length (pieces (reads a)) + j"] that by (simp add: nth_append)
    qed (use Cons.prems(1) in simp)
    ultimately show ?case using Cons.prems(1) [of a] by simp
  qed simp
  then show ?thesis using assms(1) by (simp add: cat_main_def)
qed

fun echo :: "string list \<Rightarrow> string" where
  "echo [] = []"
| "echo [a] = a @ [CHR 0x0A]"
| "echo (a # b # as) = a @ [CHR 0x20] @ echo (b # as)"

section \<open>ls\<close>

definition LS_DIRSIZ :: nat where "LS_DIRSIZ = 14"

text \<open>The part of the path behind the last slash, found from the end.\<close>

definition last_component :: "string \<Rightarrow> string" where
  "last_component path = rev (takeWhile (\<lambda>c. c \<noteq> CHR ''/'') (rev path))"

definition fmtname :: "string \<Rightarrow> string" where
  "fmtname path =
     (let p = last_component path
      in if length p \<ge> LS_DIRSIZ then p else p @ replicate (LS_DIRSIZ - length p) (CHR 0x20))"

datatype ls_type = LsDir | LsFile | LsDev

record ls_stat =
  ls_kind :: ls_type
  ls_ino :: nat
  ls_size :: nat

datatype ls_line = LsCannotOpen string | LsCannotStat string | LsTooLong | LsEntry string ls_stat

text \<open>A NUL ends the name of a directory entry in \<open>buf\<close>.\<close>

definition entry_path :: "string \<Rightarrow> string \<Rightarrow> string" where
  "entry_path path name = path @ ''/'' @ takeWhile (\<lambda>c. c \<noteq> CHR 0x00) (take LS_DIRSIZ name)"

fun ls_entries :: "(string \<Rightarrow> ls_stat option) \<Rightarrow> string \<Rightarrow> (nat \<times> string) list \<Rightarrow> ls_line list" where
  "ls_entries st path [] = []"
| "ls_entries st path ((inum, name) # ds) =
     (if inum = 0 then ls_entries st path ds
      else (case st (entry_path path name) of
          None \<Rightarrow> LsCannotStat (entry_path path name)
        | Some x \<Rightarrow> LsEntry (fmtname (entry_path path name)) x) # ls_entries st path ds)"

text \<open>The result of \<^verbatim>\<open>open\<close>, of \<^verbatim>\<open>fstat\<close>, and the entries that the reads of a directory deliver.\<close>

definition ls :: "bool \<Rightarrow> ls_stat option \<Rightarrow> (nat \<times> string) list \<Rightarrow> (string \<Rightarrow> ls_stat option) \<Rightarrow> string \<Rightarrow> ls_line list" where
  "ls opened stat0 ds st path =
     (if \<not> opened then [LsCannotOpen path]
      else case stat0 of
          None \<Rightarrow> [LsCannotStat path]
        | Some x \<Rightarrow>
            (case ls_kind x of
               LsFile \<Rightarrow> [LsEntry (fmtname path) x]
             | LsDir \<Rightarrow> (if length path + 1 + LS_DIRSIZ + 1 > 512 then [LsTooLong] else ls_entries st path ds)
             | LsDev \<Rightarrow> []))"

definition ls_main :: "(string \<Rightarrow> bool \<times> ls_stat option \<times> (nat \<times> string) list) \<Rightarrow> (string \<Rightarrow> ls_stat option) \<Rightarrow> string list \<Rightarrow> ls_line list" where
  "ls_main files st args =
     concat (map (\<lambda>path. case files path of (opened, stat0, ds) \<Rightarrow> ls opened stat0 ds st path) (if args = [] then [''.''] else args))"

text \<open>The paths that \<open>ls\<close> builds fit its buffer of 512 bytes, with the NUL at the end.\<close>

lemma entry_path_fits: "length path + 1 + LS_DIRSIZ + 1 \<le> 512 \<Longrightarrow> length (entry_path path name) + 1 \<le> 512"
proof -
  assume "length path + 1 + LS_DIRSIZ + 1 \<le> 512"
  moreover have "length (takeWhile (\<lambda>c. c \<noteq> CHR 0x00) (take LS_DIRSIZ name)) \<le> length (take LS_DIRSIZ name)" by (rule length_takeWhile_le)
  ultimately show ?thesis by (simp add: entry_path_def)
qed

lemma fmtname_length: "LS_DIRSIZ \<le> length (fmtname path)"
  by (simp add: fmtname_def Let_def)

lemma fmtname_entry:
  assumes "CHR ''/'' \<notin> set name" "CHR 0x00 \<notin> set name" "length name \<le> LS_DIRSIZ"
  shows "fmtname (entry_path path name) = name @ replicate (LS_DIRSIZ - length name) (CHR 0x20)"
proof -
  have "\<forall>c \<in> set name. c \<noteq> CHR 0x00" using assms(2) by auto
  then have "takeWhile (\<lambda>c. c \<noteq> CHR 0x00) name = name" by (simp only: takeWhile_eq_all_conv)
  then have e: "entry_path path name = path @ ''/'' @ name" using assms(3) by (simp add: entry_path_def)
  have "takeWhile (\<lambda>c. c \<noteq> CHR ''/'') (rev name @ CHR ''/'' # rev path) = rev name"
  proof -
    have "takeWhile (\<lambda>c. c \<noteq> CHR ''/'') (rev name @ (CHR ''/'' # rev path)) = rev name @ takeWhile (\<lambda>c. c \<noteq> CHR ''/'') (CHR ''/'' # rev path)"
      by (rule takeWhile_append2) (use assms(1) in auto)
    then show ?thesis by simp
  qed
  then have "last_component (entry_path path name) = name" by (simp add: e last_component_def)
  then show ?thesis using assms(3) by (auto simp: fmtname_def Let_def)
qed

section \<open>The command loop of the shell\<close>

text \<open>\<open>gets\<close> on the bytes that are still to be read: a line of at most \<open>mx - 1\<close> bytes, and the rest.\<close>

fun gets_line :: "nat \<Rightarrow> u8 list \<Rightarrow> u8 list \<times> u8 list" where
  "gets_line (Suc (Suc k)) (c # cs) =
     (if c = 0x0A \<or> c = 0x0D then ([c], cs) else case gets_line (Suc k) cs of (line, rest) \<Rightarrow> (c # line, rest))"
| "gets_line k cs = ([], cs)"

text \<open>\<open>getcmd\<close>: \<open>None\<close> is the result -1, which a NUL in front gives too.\<close>

definition getcmd :: "nat \<Rightarrow> u8 list \<Rightarrow> (u8 list \<times> u8 list) option" where
  "getcmd nbuf inp = (case gets_line nbuf inp of (line, rest) \<Rightarrow> if line = [] \<or> hd line = 0 then None else Some (line, rest))"

text \<open>What the buffer holds as a C string.\<close>

definition c_string :: "u8 list \<Rightarrow> u8 list" where "c_string line = takeWhile (\<lambda>c. c \<noteq> 0) line"

datatype sh_action = ShCd "u8 list" | ShRun "u8 list"

definition sh_action :: "u8 list \<Rightarrow> sh_action" where
  "sh_action buf =
     (if take 3 buf = [0x63, 0x64, 0x20] then ShCd (drop 3 (butlast buf)) else ShRun buf)"

lemma gets_line_rest: "gets_line k cs = (line, rest) \<Longrightarrow> cs = line @ rest"
  by (induction k cs arbitrary: line rest rule: gets_line.induct) (auto split: if_splits prod.splits)

function sh_main :: "u8 list \<Rightarrow> sh_action list" where
  "sh_main inp = (case getcmd 100 inp of None \<Rightarrow> [] | Some (line, rest) \<Rightarrow> sh_action (c_string line) # sh_main rest)"
  by pat_completeness auto
termination
proof (relation "measure length")
  fix inp line rest and p :: "u8 list \<times> u8 list"
  assume "getcmd 100 inp = Some p" "(line, rest) = p"
  then have "gets_line 100 inp = (line, rest)" "line \<noteq> []" by (auto simp: getcmd_def split: prod.splits if_splits)
  then show "(rest, inp) \<in> measure length" using gets_line_rest by fastforce
qed simp

declare sh_main.simps [simp del]

text \<open>Lines of at most 99 bytes reach the parser one by one, as they are.\<close>

definition sh_line :: "u8 list \<Rightarrow> bool" where
  "sh_line l \<longleftrightarrow> length l < 99 \<and> set l \<inter> {0, 0x0A, 0x0D} = {}"

lemma gets_line_line:
  assumes "length l + 2 \<le> k" and "set l \<inter> {0x0A, 0x0D} = {}"
  shows "gets_line k (l @ 0x0A # rest) = (l @ [0x0A], rest)"
  using assms
proof (induction l arbitrary: k)
  case Nil
  then have "k = Suc (Suc (k - 2))" by simp
  then show ?case by (metis append_Nil gets_line.simps(1))
next
  case (Cons c l)
  define j where "j = k - 2"
  then have k: "k = Suc (Suc j)" using Cons.prems(1) by simp
  have "gets_line (Suc j) (l @ 0x0A # rest) = (l @ [0x0A], rest)" using Cons k by (intro Cons.IH) simp_all
  then show ?case using Cons.prems k by simp
qed

lemma sh_reads_lines:
  assumes "\<forall>l \<in> set lines. sh_line l"
  shows "sh_main (concat (map (\<lambda>l. l @ [0x0A]) lines)) = map (\<lambda>l. sh_action (l @ [0x0A])) lines"
  using assms
proof (induction lines)
  case Nil
  show ?case by (simp add: sh_main.simps getcmd_def)
next
  case (Cons l lines)
  let ?rest = "concat (map (\<lambda>l. l @ [0x0A]) lines)"
  have l: "length l < 99" "set l \<inter> {0, 0x0A, 0x0D} = {}" using Cons.prems by (simp_all add: sh_line_def)
  have "gets_line 100 (l @ 0x0A # ?rest) = (l @ [0x0A], ?rest)" using l by (intro gets_line_line) auto
  moreover have "hd (l @ [0x0A]) \<noteq> 0" using l(2) by (cases l) auto
  moreover have "c_string (l @ [0x0A]) = l @ [0x0A]"
  proof -
    have "\<forall>c \<in> set (l @ [0x0A]). c \<noteq> 0" using l(2) by auto
    then show ?thesis unfolding c_string_def by (simp only: takeWhile_eq_all_conv)
  qed
  ultimately show ?case using Cons by (subst sh_main.simps) (simp add: getcmd_def)
qed

end
