(* ===== verification/Segments.thy ===== *)
theory Segments
  imports Kmem
begin

text \<open>
  Segments and gates: the descriptors of \<^verbatim>\<open>mmu.h\<close> with their bit fields, \<open>seginit\<close> and the task state part of
  \<open>switchuvm\<close> (\<^verbatim>\<open>vm.c\<close>), \<open>tvinit\<close> and \<open>idtinit\<close> (\<^verbatim>\<open>trap.c\<close>). \<open>vectors\<close> is the table of entry points that \<^verbatim>\<open>vectors.S\<close>
  defines. The section on the processor says how an x86 reads what the code has written.
\<close>

section \<open>Descriptors\<close>

definition DPL_USER :: "2 word" where "DPL_USER = 3"
definition STA_X :: "4 word" where "STA_X = 8"
definition STA_W :: "4 word" where "STA_W = 2"
definition STA_R :: "4 word" where "STA_R = 2"
definition STS_T32A :: "4 word" where "STS_T32A = 9"
definition STS_IG32 :: "4 word" where "STS_IG32 = 0xE"
definition STS_TG32 :: "4 word" where "STS_TG32 = 0xF"

definition SEG_KCODE :: nat where "SEG_KCODE = 1"
definition SEG_KDATA :: nat where "SEG_KDATA = 2"
definition SEG_UCODE :: nat where "SEG_UCODE = 3"
definition SEG_UDATA :: nat where "SEG_UDATA = 4"
definition SEG_TSS :: nat where "SEG_TSS = 5"
definition NSEGS :: nat where "NSEGS = 6"
definition SYSCALL_VECTOR :: nat where "SYSCALL_VECTOR = 64"

record segdesc =
  lim_15_0 :: "16 word"
  base_15_0 :: "16 word"
  base_23_16 :: "8 word"
  sd_type :: "4 word"
  sd_s :: "1 word"
  sd_dpl :: "2 word"
  sd_p :: "1 word"
  lim_19_16 :: "4 word"
  avl :: "1 word"
  sd_rsv1 :: "1 word"
  db :: "1 word"
  sd_g :: "1 word"
  base_31_24 :: "8 word"

text \<open>A constant that is wider than its bit field is cut.\<close>

definition SEG :: "4 word \<Rightarrow> u32 \<Rightarrow> u32 \<Rightarrow> 2 word \<Rightarrow> segdesc" where
  "SEG type base lim dpl =
     \<lparr>lim_15_0 = ucast (drop_bit 12 lim AND 0xFFFF), base_15_0 = ucast (base AND 0xFFFF),
      base_23_16 = ucast (drop_bit 16 base AND 0xFF), sd_type = type, sd_s = 1, sd_dpl = dpl, sd_p = 1,
      lim_19_16 = ucast (drop_bit 28 lim), avl = 0, sd_rsv1 = 0, db = 1, sd_g = 1, base_31_24 = ucast (drop_bit 24 base)\<rparr>"

definition SEG16 :: "4 word \<Rightarrow> u32 \<Rightarrow> u32 \<Rightarrow> 2 word \<Rightarrow> segdesc" where
  "SEG16 type base lim dpl =
     \<lparr>lim_15_0 = ucast (lim AND 0xFFFF), base_15_0 = ucast (base AND 0xFFFF),
      base_23_16 = ucast (drop_bit 16 base AND 0xFF), sd_type = type, sd_s = 1, sd_dpl = dpl, sd_p = 1,
      lim_19_16 = ucast (drop_bit 16 lim), avl = 0, sd_rsv1 = 0, db = 1, sd_g = 0, base_31_24 = ucast (drop_bit 24 base)\<rparr>"

text \<open>The fields of \<^verbatim>\<open>struct taskstate\<close> that are not padding.\<close>

record taskstate =
  ts_link :: u32
  ts_esp0 :: u32
  ts_ss0 :: u16
  ts_esp1 :: u32
  ts_ss1 :: u16
  ts_esp2 :: u32
  ts_ss2 :: u16
  ts_cr3 :: u32
  ts_eip :: u32
  ts_eflags :: u32
  ts_eax :: u32
  ts_ecx :: u32
  ts_edx :: u32
  ts_ebx :: u32
  ts_esp :: u32
  ts_ebp :: u32
  ts_esi :: u32
  ts_edi :: u32
  ts_es :: u16
  ts_cs :: u16
  ts_ss :: u16
  ts_ds :: u16
  ts_fs :: u16
  ts_gs :: u16
  ts_ldt :: u16
  ts_t :: u16
  ts_iomb :: u16

definition sizeof_taskstate :: u32 where "sizeof_taskstate = 104"

record gatedesc =
  off_15_0 :: "16 word"
  gd_cs :: "16 word"
  gd_args :: "5 word"
  gd_rsv1 :: "3 word"
  gd_type :: "4 word"
  gd_s :: "1 word"
  gd_dpl :: "2 word"
  gd_p :: "1 word"
  off_31_16 :: "16 word"

definition SETGATE :: "bool \<Rightarrow> nat \<Rightarrow> u32 \<Rightarrow> 2 word \<Rightarrow> gatedesc \<Rightarrow> gatedesc" where
  "SETGATE istrap sel off d gate =
     gate\<lparr>off_15_0 := ucast (off AND 0xFFFF), gd_cs := of_nat sel, gd_args := 0, gd_rsv1 := 0,
       gd_type := (if istrap then STS_TG32 else STS_IG32), gd_s := 0, gd_dpl := d, gd_p := 1,
       off_31_16 := ucast (drop_bit 16 off)\<rparr>"

section \<open>Setting them up\<close>

text \<open>The part of \<^verbatim>\<open>struct cpu\<close> with the descriptors, the addresses of its members, and the registers that are loaded.\<close>

record seg_cpu =
  gdt :: "segdesc list"
  ts :: taskstate
  gdt_at :: u32
  ts_at :: u32
  gdtr :: "u16 list"
  idtr :: "u16 list"
  taskreg :: u16

text \<open>The operand of \<^verbatim>\<open>lgdt\<close> and of \<^verbatim>\<open>lidt\<close>: a limit and an address in three halfwords.\<close>

definition table_reg :: "u32 \<Rightarrow> nat \<Rightarrow> u16 list" where
  "table_reg p sz = [of_nat sz - 1, ucast p, ucast (drop_bit 16 p)]"

definition lgdt :: "u32 \<Rightarrow> nat \<Rightarrow> seg_cpu \<Rightarrow> seg_cpu" where
  "lgdt p sz c = c\<lparr>gdtr := table_reg p sz\<rparr>"

definition lidt :: "u32 \<Rightarrow> nat \<Rightarrow> seg_cpu \<Rightarrow> seg_cpu" where
  "lidt p sz c = c\<lparr>idtr := table_reg p sz\<rparr>"

definition ltr :: "u16 \<Rightarrow> seg_cpu \<Rightarrow> seg_cpu" where
  "ltr sel c = c\<lparr>taskreg := sel\<rparr>"

definition seginit :: "seg_cpu \<Rightarrow> seg_cpu" where
  "seginit c =
     (let g = (gdt c)[SEG_KCODE := SEG (STA_X OR STA_R) 0 0xFFFFFFFF 0, SEG_KDATA := SEG STA_W 0 0xFFFFFFFF 0,
                SEG_UCODE := SEG (STA_X OR STA_R) 0 0xFFFFFFFF DPL_USER, SEG_UDATA := SEG STA_W 0 0xFFFFFFFF DPL_USER]
      in lgdt (gdt_at c) (8 * NSEGS) (c\<lparr>gdt := g\<rparr>))"

text \<open>What \<open>switchuvm\<close> does before it loads the page directory.\<close>

definition set_tss :: "u32 \<Rightarrow> seg_cpu \<Rightarrow> seg_cpu" where
  "set_tss kstack c =
     (let c1 = c\<lparr>gdt := (gdt c)[SEG_TSS := SEG16 STS_T32A (ts_at c) (sizeof_taskstate - 1) 0]\<rparr>;
          c2 = c1\<lparr>gdt := (gdt c1)[SEG_TSS := (gdt c1 ! SEG_TSS)\<lparr>sd_s := 0\<rparr>]\<rparr>;
          c3 = c2\<lparr>ts := (ts c2)\<lparr>ts_ss0 := of_nat (SEG_KDATA * 8), ts_esp0 := kstack + 4096, ts_iomb := 0xFFFF\<rparr>\<rparr>
      in ltr (of_nat (SEG_TSS * 8)) c3)"

definition tvinit :: "(nat \<Rightarrow> u32) \<Rightarrow> gatedesc list \<Rightarrow> gatedesc list" where
  "tvinit vectors idt =
     (let idt1 = fold (\<lambda>i t. t[i := SETGATE False (SEG_KCODE * 8) (vectors i) 0 (t ! i)]) [0..<256] idt
      in idt1[SYSCALL_VECTOR := SETGATE True (SEG_KCODE * 8) (vectors SYSCALL_VECTOR) DPL_USER (idt1 ! SYSCALL_VECTOR)])"

definition idtinit :: "u32 \<Rightarrow> seg_cpu \<Rightarrow> seg_cpu" where
  "idtinit idt_at c = lidt idt_at (256 * 8) c"

section \<open>The processor\<close>

definition seg_base :: "segdesc \<Rightarrow> u32" where
  "seg_base d = push_bit 24 (ucast (base_31_24 d)) OR push_bit 16 (ucast (base_23_16 d)) OR ucast (base_15_0 d)"

definition seg_limit :: "segdesc \<Rightarrow> u32" where
  "seg_limit d =
     (let lim = push_bit 16 (ucast (lim_19_16 d)) OR ucast (lim_15_0 d)
      in if sd_g d = 1 then push_bit 12 lim OR 0xFFF else lim)"

definition gate_offset :: "gatedesc \<Rightarrow> u32" where
  "gate_offset g = push_bit 16 (ucast (off_31_16 g)) OR ucast (off_15_0 g)"

text \<open>The descriptor that a selector picks, and a flat segment: present, base 0, the limit \<open>2\<^sup>3\<^sup>2 - 1\<close>.\<close>

definition selected :: "seg_cpu \<Rightarrow> nat \<Rightarrow> segdesc" where
  "selected c sel = gdt c ! (sel div 8)"

definition flat :: "segdesc \<Rightarrow> bool" where
  "flat d \<longleftrightarrow> sd_p d = 1 \<and> sd_s d = 1 \<and> seg_base d = 0 \<and> seg_limit d = - 1"

text \<open>
  Is the instruction \<^verbatim>\<open>int\<close> through this gate allowed at a privilege level, are interrupts switched off behind it, and may
  the user access I/O ports? The last needs a bit map inside the task state segment.
\<close>

definition int_allowed :: "nat \<Rightarrow> gatedesc \<Rightarrow> bool" where
  "int_allowed cpl g \<longleftrightarrow> gd_p g = 1 \<and> cpl \<le> unat (gd_dpl g)"

definition interrupts_off :: "gatedesc \<Rightarrow> bool" where
  "interrupts_off g \<longleftrightarrow> gd_type g = 0xE"

text \<open>A 32-bit interrupt or trap gate.\<close>

definition is_gate :: "gatedesc \<Rightarrow> bool" where
  "is_gate g \<longleftrightarrow> gd_p g = 1 \<and> gd_s g = 0 \<and> (gd_type g = 0xE \<or> gd_type g = 0xF)"

text \<open>
  Bit 3 of the type of a segment tells code from data; bit 2 makes code conforming and data expand-down; bit 1 makes code
  readable and data writable. \<open>db\<close> selects 32-bit operands.
\<close>

definition code32 :: "segdesc \<Rightarrow> bool" where
  "code32 d \<longleftrightarrow> sd_s d = 1 \<and> bit (sd_type d) 3 \<and> \<not> bit (sd_type d) 2 \<and> bit (sd_type d) 1 \<and> db d = 1"

definition data32 :: "segdesc \<Rightarrow> bool" where
  "data32 d \<longleftrightarrow> sd_s d = 1 \<and> \<not> bit (sd_type d) 3 \<and> \<not> bit (sd_type d) 2 \<and> bit (sd_type d) 1 \<and> db d = 1"

definition io_map_inside :: "seg_cpu \<Rightarrow> bool" where
  "io_map_inside c \<longleftrightarrow> ucast (ts_iomb (ts c)) \<le> seg_limit (selected c (unat (taskreg c)))"

lemma field_16 [simp]: "(ucast (x AND 0xFFFF :: u32) :: u16) = ucast x"
proof -
  have m: "(0xFFFF :: u32) = mask 16" by (simp add: mask_eq_exp_minus_1)
  show ?thesis unfolding m by (rule bit_word_eqI) (auto simp: bit_ucast_iff bit_and_iff bit_mask_iff)
qed

lemma field_8 [simp]: "(ucast (x AND 0xFF :: u32) :: u8) = ucast x"
proof -
  have m: "(0xFF :: u32) = mask 8" by (simp add: mask_eq_exp_minus_1)
  show ?thesis unfolding m by (rule bit_word_eqI) (auto simp: bit_ucast_iff bit_and_iff bit_mask_iff)
qed

lemma join_24_16:
  "push_bit 24 (ucast (ucast (drop_bit 24 b) :: u8)) OR push_bit 16 (ucast (ucast (drop_bit 16 b) :: u8)) OR ucast (ucast b :: u16) = (b :: u32)"
proof (rule bit_word_eqI)
  fix n
  assume "n < LENGTH(32)"
  then have "n < 16 \<or> 16 \<le> n \<and> n < 24 \<or> 24 \<le> n \<and> n < 32" by auto
  then show "bit (push_bit 24 (ucast (ucast (drop_bit 24 b) :: u8)) OR push_bit 16 (ucast (ucast (drop_bit 16 b) :: u8)) OR ucast (ucast b :: u16) :: u32) n =
      bit b n"
    by (elim disjE) (auto simp: bit_or_iff bit_push_bit_iff bit_ucast_iff bit_drop_bit_eq)
qed

lemma join_16: "push_bit 16 (ucast (ucast (drop_bit 16 b) :: u16)) OR ucast (ucast b :: u16) = (b :: u32)"
proof (rule bit_word_eqI)
  fix n
  assume "n < LENGTH(32)"
  then have "n < 16 \<or> 16 \<le> n \<and> n < 32" by auto
  then show "bit (push_bit 16 (ucast (ucast (drop_bit 16 b) :: u16)) OR ucast (ucast b :: u16) :: u32) n = bit b n"
    by (elim disjE) (auto simp: bit_or_iff bit_push_bit_iff bit_ucast_iff bit_drop_bit_eq)
qed

lemma seg_base_SEG [simp]: "seg_base (SEG t b l d) = b" "seg_base (SEG16 t b l d) = b"
  by (simp_all add: seg_base_def SEG_def SEG16_def join_24_16)

lemma seg_base_system: "seg_base (d\<lparr>sd_s := x\<rparr>) = seg_base d"
  by (cases d) (simp add: seg_base_def)

lemma gate_offset_SETGATE [simp]: "gate_offset (SETGATE i sel off d g) = off"
  by (simp add: gate_offset_def SETGATE_def join_16)

lemma flat_SEG: "flat (SEG t 0 0xFFFFFFFF d)"
  by (simp add: flat_def seg_limit_def) (simp add: SEG_def)

section \<open>The boundary between user and kernel\<close>

lemma fold_gates:
  assumes "length t = k" and "n \<le> k"
  shows "length (fold (\<lambda>i t. t[i := f i (t ! i)]) [0..<n] t) = k \<and>
    (\<forall>j < k. fold (\<lambda>i t. t[i := f i (t ! i)]) [0..<n] t ! j = (if j < n then f j (t ! j) else t ! j))"
  using assms(2) by (induction n) (auto simp: assms(1) nth_list_update less_Suc_eq)

lemma tvinit_gates:
  assumes "length idt = 256" and "n < 256"
  shows "tvinit vectors idt ! n =
    (if n = SYSCALL_VECTOR then SETGATE True (SEG_KCODE * 8) (vectors n) DPL_USER (SETGATE False (SEG_KCODE * 8) (vectors n) 0 (idt ! n))
     else SETGATE False (SEG_KCODE * 8) (vectors n) 0 (idt ! n))"
proof -
  have "SYSCALL_VECTOR < 256" by (simp add: SYSCALL_VECTOR_def)
  then show ?thesis
    using fold_gates [OF assms(1) order_refl, of "\<lambda>i. SETGATE False (SEG_KCODE * 8) (vectors i) 0"] assms(2)
    by (auto simp: tvinit_def Let_def nth_list_update)
qed

lemma gate_checks:
  "int_allowed cpl (SETGATE i sel off d g) \<longleftrightarrow> cpl \<le> unat d" "interrupts_off (SETGATE i sel off d g) \<longleftrightarrow> \<not> i"
  "gd_cs (SETGATE i sel off d g) = of_nat sel" "is_gate (SETGATE i sel off d g)"
  by (simp_all add: int_allowed_def interrupts_off_def is_gate_def SETGATE_def STS_IG32_def STS_TG32_def)

lemma seg_types:
  "code32 (SEG (STA_X OR STA_R) b l d)" "data32 (SEG STA_W b l d)"
  by (simp_all add: code32_def data32_def SEG_def STA_X_def STA_R_def STA_W_def)

text \<open>
  C40. The boundary between user and kernel. After \<open>seginit\<close>, \<open>tvinit\<close> and \<open>switchuvm\<close>, whatever the tables held
  before: every interrupt has a 32-bit gate and enters the kernel at its vector, in the code segment of the kernel, which is flat,
  executable and of privilege level 0, on the kernel stack of the process, whose address and segment stand in the task state
  segment that the task register selects. A user program can enter by the instruction \<^verbatim>\<open>int\<close> only through vector 64, the only one behind
  which interrupts stay on, and it has no I/O ports. The two user segments are flat and of level 3;
  the code segments are executable 32-bit code, the data segments writable, and the processor's descriptor
  table register holds the table.
\<close>

theorem user_kernel_boundary:
  assumes "length idt = 256" and "length (gdt c) = NSEGS" and "t = tvinit vectors idt" and "c' = set_tss kstack (seginit c)"
  shows "(\<forall>n < 256. is_gate (t ! n) \<and> gate_offset (t ! n) = vectors n \<and> unat (gd_cs (t ! n)) = SEG_KCODE * 8 \<and> int_allowed 0 (t ! n) \<and>
      (int_allowed 3 (t ! n) \<longleftrightarrow> n = 64) \<and> (interrupts_off (t ! n) \<longleftrightarrow> n \<noteq> 64)) \<and>
    (\<forall>k \<in> {SEG_KCODE, SEG_KDATA}. flat (selected c' (k * 8)) \<and> sd_dpl (selected c' (k * 8)) = 0) \<and>
    (\<forall>k \<in> {SEG_UCODE, SEG_UDATA}. flat (selected c' (k * 8 + 3)) \<and> sd_dpl (selected c' (k * 8 + 3)) = 3) \<and>
    (\<forall>k \<in> {SEG_KCODE, SEG_UCODE}. code32 (selected c' (k * 8))) \<and> (\<forall>k \<in> {SEG_KDATA, SEG_UDATA}. data32 (selected c' (k * 8))) \<and>
    gdtr c' = table_reg (gdt_at c) 48 \<and> sd_p (selected c' (unat (taskreg c'))) = 1 \<and>
    seg_base (selected c' (unat (taskreg c'))) = ts_at c \<and> seg_limit (selected c' (unat (taskreg c'))) = sizeof_taskstate - 1 \<and>
    sd_type (selected c' (unat (taskreg c'))) = STS_T32A \<and> sd_s (selected c' (unat (taskreg c'))) = 0 \<and>
    ts_esp0 (ts c') = kstack + 4096 \<and> unat (ts_ss0 (ts c')) = SEG_KDATA * 8 \<and> \<not> io_map_inside c'"
proof -
  note segs = SEG_KCODE_def SEG_KDATA_def SEG_UCODE_def SEG_UDATA_def SEG_TSS_def NSEGS_def
  have len: "length (gdt c) = 6" using assms(2) by (simp add: NSEGS_def)
  let ?tss = "(SEG16 STS_T32A (ts_at c) (sizeof_taskstate - 1) 0)\<lparr>sd_s := 0\<rparr>"
  have g: "gdt c' = (gdt c)[1 := SEG (STA_X OR STA_R) 0 0xFFFFFFFF 0, 2 := SEG STA_W 0 0xFFFFFFFF 0,
      3 := SEG (STA_X OR STA_R) 0 0xFFFFFFFF 3, 4 := SEG STA_W 0 0xFFFFFFFF 3, 5 := ?tss]"
    using len by (simp add: assms(4) set_tss_def seginit_def lgdt_def ltr_def Let_def segs DPL_USER_def)
  have dpl: "sd_dpl (SEG a b l d) = d" for a b l d by (simp add: SEG_def)
  have tr: "taskreg c' = 40" by (simp add: assms(4) set_tss_def ltr_def segs)
  have tss: "selected c' (unat (taskreg c')) = ?tss" using len by (simp add: tr selected_def g)
  have base: "seg_base ?tss = ts_at c"
    by (simp only: seg_base_system seg_base_SEG)
  have lim: "seg_limit ?tss = sizeof_taskstate - 1" by (simp add: seg_limit_def SEG16_def sizeof_taskstate_def)
  have ty: "sd_type ?tss = STS_T32A" "sd_s ?tss = 0" "sd_p ?tss = 1" by (simp_all add: SEG16_def)
  have gr: "gdtr c' = table_reg (gdt_at c) 48"
    by (simp add: assms(4) set_tss_def seginit_def lgdt_def ltr_def Let_def NSEGS_def)
  have st: "ts_esp0 (ts c') = kstack + 4096" "ts_ss0 (ts c') = 16" "ts_iomb (ts c') = 0xFFFF"
    by (simp_all add: assms(4) set_tss_def ltr_def segs)
  have io: "\<not> io_map_inside c'" unfolding io_map_inside_def tss lim by (simp add: st sizeof_taskstate_def)
  have k: "selected c' (1 * 8) = SEG (STA_X OR STA_R) 0 0xFFFFFFFF 0" "selected c' (2 * 8) = SEG STA_W 0 0xFFFFFFFF 0"
    "selected c' (3 * 8 + 3) = SEG (STA_X OR STA_R) 0 0xFFFFFFFF 3" "selected c' (4 * 8 + 3) = SEG STA_W 0 0xFFFFFFFF 3"
    using len by (simp_all add: selected_def g)
  have k3: "selected c' (3 * 8) = SEG (STA_X OR STA_R) 0 0xFFFFFFFF 3" "selected c' (4 * 8) = SEG STA_W 0 0xFFFFFFFF 3"
    using len by (simp_all add: selected_def g)
  have gates: "is_gate (t ! n) \<and> gate_offset (t ! n) = vectors n \<and> unat (gd_cs (t ! n)) = SEG_KCODE * 8 \<and> int_allowed 0 (t ! n) \<and>
      (int_allowed 3 (t ! n) \<longleftrightarrow> n = 64) \<and> (interrupts_off (t ! n) \<longleftrightarrow> n \<noteq> 64)" if "n < 256" for n
    unfolding assms(3) tvinit_gates [OF assms(1) that]
    by (cases "n = 64") (simp_all add: gate_checks DPL_USER_def SYSCALL_VECTOR_def segs)
  show ?thesis
    unfolding tss using gates base lim ty st io gr
    by (simp add: SEG_KCODE_def SEG_KDATA_def SEG_UCODE_def SEG_UDATA_def k [simplified] k3 [simplified] flat_SEG dpl seg_types)
qed

definition zero_gate :: gatedesc where
  "zero_gate = \<lparr>off_15_0 = 0, gd_cs = 0, gd_args = 0, gd_rsv1 = 0, gd_type = 0, gd_s = 0, gd_dpl = 0, gd_p = 0, off_31_16 = 0\<rparr>"

definition zero_ts :: taskstate where
  "zero_ts = \<lparr>ts_link = 0, ts_esp0 = 0, ts_ss0 = 0, ts_esp1 = 0, ts_ss1 = 0, ts_esp2 = 0, ts_ss2 = 0, ts_cr3 = 0, ts_eip = 0, ts_eflags = 0,
     ts_eax = 0, ts_ecx = 0, ts_edx = 0, ts_ebx = 0, ts_esp = 0, ts_ebp = 0, ts_esi = 0, ts_edi = 0, ts_es = 0, ts_cs = 0, ts_ss = 0, ts_ds = 0,
     ts_fs = 0, ts_gs = 0, ts_ldt = 0, ts_t = 0, ts_iomb = 0\<rparr>"

definition boot_cpu :: seg_cpu where
  "boot_cpu = \<lparr>gdt = replicate 6 (SEG 0 0 0 0), ts = zero_ts, gdt_at = 0x80112800, ts_at = 0x80112788, gdtr = [], idtr = [], taskreg = 0\<rparr>"

text \<open>Tables of zeros, as they are at boot.\<close>

lemma user_kernel_boundary_witness:
  "ts_esp0 (ts (set_tss 0x8DFFF000 (seginit boot_cpu))) = 0x8E000000 \<and>
   int_allowed 3 (tvinit of_nat (replicate 256 zero_gate) ! 64) \<and> \<not> int_allowed 3 (tvinit of_nat (replicate 256 zero_gate) ! 14)"
  using user_kernel_boundary [where idt = "replicate 256 zero_gate" and c = boot_cpu and vectors = of_nat and kstack = "0x8DFFF000", OF _ _ refl refl]
  by (simp add: NSEGS_def boot_cpu_def)

end
