(* ===== verification/Lapic.thy ===== *)
theory Lapic
  imports Kmem
begin

text \<open>
  The local interrupt controller and the clock (\<^verbatim>\<open>lapic.c\<close>, \<^verbatim>\<open>picirq.c\<close>, the set-up of \<^verbatim>\<open>uart.c\<close>). A routine that drives a device is
  the list of its writes, in order; a register that is read is an argument. The busy loops that wait for a device are left out.
  The clock chip is a function from the number of a read and a register to the byte that is read. \<open>None\<close> is a
  loop that never ends.
\<close>

section \<open>The local APIC\<close>

definition T_IRQ0 :: u32 where "T_IRQ0 = 32"
definition IRQ_TIMER :: u32 where "IRQ_TIMER = 0"
definition IRQ_ERROR :: u32 where "IRQ_ERROR = 19"
definition IRQ_SPURIOUS :: u32 where "IRQ_SPURIOUS = 31"

definition lapic_ID :: nat where "lapic_ID = 0x0020 div 4"
definition lapic_VER :: nat where "lapic_VER = 0x0030 div 4"
definition lapic_TPR :: nat where "lapic_TPR = 0x0080 div 4"
definition lapic_EOI :: nat where "lapic_EOI = 0x00B0 div 4"
definition lapic_SVR :: nat where "lapic_SVR = 0x00F0 div 4"
definition lapic_ESR :: nat where "lapic_ESR = 0x0280 div 4"
definition lapic_ICRLO :: nat where "lapic_ICRLO = 0x0300 div 4"
definition lapic_ICRHI :: nat where "lapic_ICRHI = 0x0310 div 4"
definition lapic_TIMER :: nat where "lapic_TIMER = 0x0320 div 4"
definition lapic_PCINT :: nat where "lapic_PCINT = 0x0340 div 4"
definition lapic_LINT0 :: nat where "lapic_LINT0 = 0x0350 div 4"
definition lapic_LINT1 :: nat where "lapic_LINT1 = 0x0360 div 4"
definition lapic_ERROR :: nat where "lapic_ERROR = 0x0370 div 4"
definition lapic_TICR :: nat where "lapic_TICR = 0x0380 div 4"
definition lapic_TDCR :: nat where "lapic_TDCR = 0x03E0 div 4"

definition lapic_ENABLE :: u32 where "lapic_ENABLE = 0x100"
definition lapic_INIT :: u32 where "lapic_INIT = 0x500"
definition lapic_STARTUP :: u32 where "lapic_STARTUP = 0x600"
definition lapic_ASSERT :: u32 where "lapic_ASSERT = 0x4000"
definition lapic_LEVEL :: u32 where "lapic_LEVEL = 0x8000"
definition lapic_BCAST :: u32 where "lapic_BCAST = 0x80000"
definition lapic_X1 :: u32 where "lapic_X1 = 0xB"
definition lapic_PERIODIC :: u32 where "lapic_PERIODIC = 0x20000"
definition lapic_MASKED :: u32 where "lapic_MASKED = 0x10000"

text \<open>A write is the number of the register and the value; \<open>base\<close> is the variable \<^verbatim>\<open>lapic\<close>.\<close>

type_synonym lapic_writes = "(nat \<times> u32) list"

definition lapicw :: "nat \<Rightarrow> u32 \<Rightarrow> lapic_writes" where
  "lapicw index v = [(index, v)]"

definition lapicinit :: "u32 \<Rightarrow> u32 \<Rightarrow> lapic_writes" where
  "lapicinit base ver =
     (if base = 0 then []
      else lapicw lapic_SVR (lapic_ENABLE OR (T_IRQ0 + IRQ_SPURIOUS)) @ lapicw lapic_TDCR lapic_X1 @
        lapicw lapic_TIMER (lapic_PERIODIC OR (T_IRQ0 + IRQ_TIMER)) @ lapicw lapic_TICR 10000000 @
        lapicw lapic_LINT0 lapic_MASKED @ lapicw lapic_LINT1 lapic_MASKED @
        (if drop_bit 16 ver AND 0xFF \<ge> 4 then lapicw lapic_PCINT lapic_MASKED else []) @
        lapicw lapic_ERROR (T_IRQ0 + IRQ_ERROR) @ lapicw lapic_ESR 0 @ lapicw lapic_ESR 0 @ lapicw lapic_EOI 0 @
        lapicw lapic_ICRHI 0 @ lapicw lapic_ICRLO (lapic_BCAST OR lapic_INIT OR lapic_LEVEL) @ lapicw lapic_TPR 0)"

definition lapicid :: "u32 \<Rightarrow> u32 \<Rightarrow> u32" where
  "lapicid base id_reg = (if base = 0 then 0 else drop_bit 24 id_reg)"

definition lapiceoi :: "u32 \<Rightarrow> lapic_writes" where
  "lapiceoi base = (if base \<noteq> 0 then lapicw lapic_EOI 0 else [])"

text \<open>The writes to ports and to memory, and those to the APIC. Memory writes are halfwords at virtual addresses.\<close>

record ap_start =
  ap_ports :: "(u16 \<times> u8) list"
  ap_memory :: "(u32 \<times> u16) list"
  ap_lapic :: lapic_writes

definition CMOS_PORT :: u16 where "CMOS_PORT = 0x70"
definition CMOS_RETURN :: u16 where "CMOS_RETURN = 0x71"

definition lapicstartap :: "u8 \<Rightarrow> u32 \<Rightarrow> ap_start" where
  "lapicstartap apicid addr =
     (let wrv = P2V (push_bit 4 0x40 OR 0x67)
      in \<lparr>ap_ports = [(CMOS_PORT, 0xF), (CMOS_PORT + 1, 0x0A)],
          ap_memory = [(wrv, 0), (wrv + 2, ucast (drop_bit 4 addr))],
          ap_lapic = lapicw lapic_ICRHI (push_bit 24 (ucast apicid)) @ lapicw lapic_ICRLO (lapic_INIT OR lapic_LEVEL OR lapic_ASSERT) @
            lapicw lapic_ICRLO (lapic_INIT OR lapic_LEVEL) @
            concat (replicate 2 (lapicw lapic_ICRHI (push_bit 24 (ucast apicid)) @ lapicw lapic_ICRLO (lapic_STARTUP OR drop_bit 12 addr)))\<rparr>)"

text \<open>
  The start-up code runs at the page number in the last byte of the command, so it must lie on a page below 1 MB; the
  warm reset vector then points to it too.
\<close>

lemma lapicstartap_page:
  assumes "unat addr < 2 ^ 20" and "4096 dvd unat addr"
  shows "4096 * (unat (drop_bit 12 addr AND 0xFF)) = unat addr"
    "16 * unat (snd (ap_memory (lapicstartap apicid addr) ! 1)) = unat addr"
proof -
  obtain k where k: "unat addr = 4096 * k" using assms(2) by blast
  have d: "unat (drop_bit 12 addr) = k" by (simp add: drop_bit_eq_div unat_div k)
  have m: "(0xFF :: u32) = mask 8" by (simp add: mask_eq_exp_minus_1)
  have "unat (drop_bit 12 addr AND 0xFF) = k mod 256"
    unfolding m take_bit_eq_mask [symmetric] by (simp add: unsigned_take_bit_eq take_bit_nat_def d)
  moreover have "k < 256" using assms(1) k by simp
  ultimately show "4096 * (unat (drop_bit 12 addr AND 0xFF)) = unat addr" by (simp add: k)
  have e: "unat (drop_bit 4 addr) = 256 * k" by (simp add: drop_bit_eq_div unat_div k)
  have "unat (ucast (drop_bit 4 addr) :: u16) = 256 * k mod 2 ^ 16"
    using e by (simp add: unsigned_ucast_eq take_bit_nat_def)
  also have "\<dots> = 256 * k" using \<open>k < 256\<close> by simp
  finally show "16 * unat (snd (ap_memory (lapicstartap apicid addr) ! 1)) = unat addr" by (simp add: lapicstartap_def Let_def k)
qed

definition picinit :: "(u16 \<times> u8) list" where
  "picinit = [(0x20 + 1, 0xFF), (0xA0 + 1, 0xFF)]"

section \<open>The clock\<close>

definition CMOS_STATA :: u32 where "CMOS_STATA = 0x0A"
definition CMOS_STATB :: u32 where "CMOS_STATB = 0x0B"
definition CMOS_UIP :: u32 where "CMOS_UIP = push_bit 7 1"
definition cmos_SECS :: u32 where "cmos_SECS = 0"
definition cmos_MINS :: u32 where "cmos_MINS = 2"
definition cmos_HOURS :: u32 where "cmos_HOURS = 4"
definition cmos_DAY :: u32 where "cmos_DAY = 7"
definition cmos_MONTH :: u32 where "cmos_MONTH = 8"
definition cmos_YEAR :: u32 where "cmos_YEAR = 9"

record rtcdate =
  rtc_second :: u32
  rtc_minute :: u32
  rtc_hour :: u32
  rtc_day :: u32
  rtc_month :: u32
  rtc_year :: u32

type_synonym cmos = "nat \<Rightarrow> u8 \<Rightarrow> u8"

definition cmos_read :: "cmos \<Rightarrow> u32 \<Rightarrow> nat \<Rightarrow> u32 \<times> nat" where
  "cmos_read cm reg k = (ucast (cm k (ucast reg)), k + 1)"

definition fill_rtcdate :: "cmos \<Rightarrow> nat \<Rightarrow> rtcdate \<times> nat" where
  "fill_rtcdate cm k =
     (let (s, k1) = cmos_read cm cmos_SECS k;
          (m, k2) = cmos_read cm cmos_MINS k1;
          (h, k3) = cmos_read cm cmos_HOURS k2;
          (d, k4) = cmos_read cm cmos_DAY k3;
          (mo, k5) = cmos_read cm cmos_MONTH k4;
          (y, k6) = cmos_read cm cmos_YEAR k5
      in (\<lparr>rtc_second = s, rtc_minute = m, rtc_hour = h, rtc_day = d, rtc_month = mo, rtc_year = y\<rparr>, k6))"

partial_function (option) cmos_loop :: "cmos \<Rightarrow> nat \<Rightarrow> (rtcdate \<times> nat) option" where
  "cmos_loop cm k =
     (let (t1, k1) = fill_rtcdate cm k;
          (a, k2) = cmos_read cm CMOS_STATA k1
      in if a AND CMOS_UIP \<noteq> 0 then cmos_loop cm k2
         else let (t2, k3) = fill_rtcdate cm k2
           in if t1 = t2 then Some (t1, k3) else cmos_loop cm k3)"

definition bcd_CONV :: "u32 \<Rightarrow> u32" where
  "bcd_CONV x = drop_bit 4 x * 10 + (x AND 0xF)"

definition rtc_convert :: "rtcdate \<Rightarrow> rtcdate" where
  "rtc_convert t =
     \<lparr>rtc_second = bcd_CONV (rtc_second t), rtc_minute = bcd_CONV (rtc_minute t), rtc_hour = bcd_CONV (rtc_hour t),
      rtc_day = bcd_CONV (rtc_day t), rtc_month = bcd_CONV (rtc_month t), rtc_year = bcd_CONV (rtc_year t)\<rparr>"

definition cmostime :: "cmos \<Rightarrow> nat \<Rightarrow> (rtcdate \<times> nat) option" where
  "cmostime cm k = do {
     let (sb, k1) = cmos_read cm CMOS_STATB k;
     (t1, k2) \<leftarrow> cmos_loop cm k1;
     let t = (if sb AND push_bit 2 1 = 0 then rtc_convert t1 else t1);
     Some (t\<lparr>rtc_year := rtc_year t + 2000\<rparr>, k2)
   }"

text \<open>What \<open>fill_rtcdate\<close> reads from a chip that shows the bytes \<open>r\<close>.\<close>

definition shown :: "(u8 \<Rightarrow> u8) \<Rightarrow> rtcdate" where
  "shown r = \<lparr>rtc_second = ucast (r 0), rtc_minute = ucast (r 2), rtc_hour = ucast (r 4), rtc_day = ucast (r 7),
     rtc_month = ucast (r 8), rtc_year = ucast (r 9)\<rparr>"

lemmas cmos_defs = cmos_read_def cmos_SECS_def cmos_MINS_def cmos_HOURS_def cmos_DAY_def cmos_MONTH_def cmos_YEAR_def
  CMOS_STATA_def CMOS_STATB_def

lemma fill_rtcdate_shown:
  assumes "\<And>j. k \<le> j \<Longrightarrow> j < k + 6 \<Longrightarrow> cm j = r"
  shows "fill_rtcdate cm k = (shown r, k + 6)"
  using assms by (simp add: fill_rtcdate_def cmos_defs shown_def)

lemma fill_rtcdate_next: "snd (fill_rtcdate cm k) = k + 6"
  by (simp add: fill_rtcdate_def cmos_defs)

text \<open>
  A date that the loop returns was read twice with the same result, and the chip was not about to change it in between.
\<close>

lemma cmos_loop_twice:
  assumes "cmos_loop cm k = Some (t, k')"
  shows "\<exists>j \<ge> k. fill_rtcdate cm j = (t, j + 6) \<and> fill_rtcdate cm (j + 7) = (t, k') \<and> \<not> bit (cm (j + 6) 0x0A) 7"
proof -
  have "\<exists>j \<ge> k. fill_rtcdate cm j = (fst (t, k'), j + 6) \<and> fill_rtcdate cm (j + 7) = (t, k') \<and> \<not> bit (cm (j + 6) 0x0A) 7"
  proof (rule cmos_loop.raw_induct [where P = "\<lambda>cm k r. \<exists>j \<ge> k. fill_rtcdate cm j = (fst r, j + 6) \<and>
      fill_rtcdate cm (j + 7) = r \<and> \<not> bit (cm (j + 6) 0x0A) 7", OF _ assms])
    fix loop :: "cmos \<Rightarrow> nat \<Rightarrow> (rtcdate \<times> nat) option" and cm k r
    assume IH: "\<And>cm k r. loop cm k = Some r \<Longrightarrow> \<exists>j \<ge> k. fill_rtcdate cm j = (fst r, j + 6) \<and>
        fill_rtcdate cm (j + 7) = r \<and> \<not> bit (cm (j + 6) 0x0A) 7"
      and r: "(let (t1, k1) = fill_rtcdate cm k; (a, k2) = cmos_read cm CMOS_STATA k1
        in if a AND CMOS_UIP \<noteq> 0 then loop cm k2
           else let (t2, k3) = fill_rtcdate cm k2 in if t1 = t2 then Some (t1, k3) else loop cm k3) = Some r"
    obtain t1 where t1: "fill_rtcdate cm k = (t1, k + 6)" using fill_rtcdate_next [of cm k] by (cases "fill_rtcdate cm k") simp
    obtain t2 where t2: "fill_rtcdate cm (k + 7) = (t2, k + 13)"
      using fill_rtcdate_next [of cm "k + 7"] by (cases "fill_rtcdate cm (k + 7)") simp
    have a: "cmos_read cm CMOS_STATA (k + 6) = (ucast (cm (k + 6) 0x0A), k + 7)" by (simp add: cmos_defs)
    have uip: "ucast (cm (k + 6) 0x0A) AND CMOS_UIP = 0 \<longleftrightarrow> \<not> bit (cm (k + 6) 0x0A) 7"
      using bit_iff_and_push_bit_not_eq_0 [of "ucast (cm (k + 6) 0x0A) :: u32" 7] by (simp add: CMOS_UIP_def bit_ucast_iff)
    show "\<exists>j \<ge> k. fill_rtcdate cm j = (fst r, j + 6) \<and> fill_rtcdate cm (j + 7) = r \<and> \<not> bit (cm (j + 6) 0x0A) 7"
    proof (cases "ucast (cm (k + 6) 0x0A) AND CMOS_UIP = 0 \<and> t1 = t2")
      case True
      then have "r = (t1, k + 13)" using r by (simp add: t1 t2 a)
      then show ?thesis using True t1 t2 uip by (intro exI [of _ k]) simp
    next
      case False
      then have "loop cm (k + 7) = Some r \<or> loop cm (k + 13) = Some r" using r by (auto simp: t1 t2 a split: if_splits)
      then show ?thesis using IH [of cm "k + 7" r] IH [of cm "k + 13" r] by (meson le_add1 order_trans)
    qed
  qed
  then show ?thesis by simp
qed

text \<open>Decoding inverts the two-digit decimal code.\<close>

definition bcd :: "nat \<Rightarrow> u8" where "bcd n = of_nat (16 * (n div 10) + n mod 10)"

lemma word_eq_of_nat: "unat (w :: u32) = k \<Longrightarrow> w = of_nat k"
  by auto

lemma bcd_CONV_bcd:
  assumes "n < 100"
  shows "bcd_CONV (ucast (bcd n)) = of_nat n"
proof -
  let ?x = "ucast (bcd n) :: u32" and ?m = "16 * (n div 10) + n mod 10"
  have nd: "n div 10 < 10" "n mod 10 < 10" using assms by auto
  then have m: "?m < 160" by linarith
  have "unat (bcd n) < 2 ^ 8" using unsigned_less [of "bcd n"] by simp
  then have "unat ?x = unat (bcd n)" by (simp add: unsigned_ucast_eq take_bit_nat_eq_self)
  also have "\<dots> = ?m" using m unfolding bcd_def by (subst unat_of_nat) (simp add: take_bit_nat_eq_self)
  finally have x: "unat ?x = ?m" .
  have "unat (drop_bit 4 ?x) = ?m div 16" by (simp add: drop_bit_eq_div unat_div x)
  also have "\<dots> = n div 10" using nd by (simp add: div_add1_eq)
  finally have d: "drop_bit 4 ?x = of_nat (n div 10)" by (rule word_eq_of_nat)
  have k: "(0xF :: u32) = mask 4" by (simp add: mask_eq_exp_minus_1)
  have "unat (?x AND 0xF) = ?m mod 16"
    unfolding k take_bit_eq_mask [symmetric] by (simp add: unsigned_take_bit_eq take_bit_nat_def x)
  also have "\<dots> = n mod 10" using nd by (simp add: mod_add_eq)
  finally have "?x AND 0xF = of_nat (n mod 10)" by (rule word_eq_of_nat)
  then have "bcd_CONV ?x = of_nat (n div 10 * 10) + of_nat (n mod 10)" by (simp add: bcd_CONV_def d)
  also have "\<dots> = of_nat (n div 10 * 10 + n mod 10)" by (rule of_nat_add [symmetric])
  finally show ?thesis by (simp only: div_mult_mod_eq)
qed

definition date_bytes :: "nat \<Rightarrow> nat \<Rightarrow> nat \<Rightarrow> nat \<Rightarrow> nat \<Rightarrow> nat \<Rightarrow> u8 \<Rightarrow> u8" where
  "date_bytes y mo d h m s reg =
     (if reg = 0 then bcd s else if reg = 2 then bcd m else if reg = 4 then bcd h else if reg = 7 then bcd d
      else if reg = 8 then bcd mo else if reg = 9 then bcd y else 0)"

text \<open>A clock that stands still long enough is read as the date of this century that it shows.\<close>

lemma cmostime_date:
  assumes "\<And>j. k \<le> j \<Longrightarrow> j < k + 14 \<Longrightarrow> cm j = date_bytes y mo d h m s"
    and "y < 100" "mo < 100" "d < 100" "h < 100" "m < 100" "s < 100"
  shows "cmostime cm k = Some (\<lparr>rtc_second = of_nat s, rtc_minute = of_nat m, rtc_hour = of_nat h, rtc_day = of_nat d,
    rtc_month = of_nat mo, rtc_year = of_nat (2000 + y)\<rparr>, k + 14)"
proof -
  let ?r = "date_bytes y mo d h m s"
  have f: "fill_rtcdate cm (k + 1) = (shown ?r, k + 7)" "fill_rtcdate cm (k + 8) = (shown ?r, k + 14)"
    using fill_rtcdate_shown [of "k + 1" cm ?r] fill_rtcdate_shown [of "k + 8" cm ?r] assms(1) by simp_all
  have st: "cmos_read cm CMOS_STATB k = (0, k + 1)" "cmos_read cm CMOS_STATA (k + 7) = (0, k + 8)"
    using assms(1) [of k] assms(1) [of "k + 7"] by (simp_all add: cmos_defs date_bytes_def)
  have "cmos_loop cm (k + 1) = Some (shown ?r, k + 14)" by (subst cmos_loop.simps) (simp add: f [simplified] st)
  then show ?thesis
    using assms(2-) by (simp add: cmostime_def st rtc_convert_def shown_def date_bytes_def bcd_CONV_bcd)
qed

section \<open>The serial port\<close>

definition COM1 :: u16 where "COM1 = 0x3F8"

text \<open>The writes of \<open>uartinit\<close> before it prints, and the variable \<^verbatim>\<open>uart\<close>; \<open>status\<close> is what port \<^verbatim>\<open>COM1 + 5\<close> returns.\<close>

definition uartinit :: "u8 \<Rightarrow> (u16 \<times> u8) list \<times> bool" where
  "uartinit status =
     ([(COM1 + 2, 0), (COM1 + 3, 0x80), (COM1 + 0, 115200 div 9600), (COM1 + 1, 0), (COM1 + 3, 0x03), (COM1 + 4, 0), (COM1 + 1, 0x01)],
      status \<noteq> 0xFF)"

definition uartgetc :: "bool \<Rightarrow> u8 \<Rightarrow> u8 \<Rightarrow> int" where
  "uartgetc uart status data = (if \<not> uart then - 1 else if status AND 1 = 0 then - 1 else uint data)"

end
