(* ===== verification/Startup.thy ===== *)
theory Startup
  imports Segments Lapic Mp KmemProps
begin

text \<open>
  Starting the other processors (\<^verbatim>\<open>main.c\<close>): the page that each one gets for its stack, the three words that it
  finds below its start-up code, and the page directory it runs on. \<open>mpenter\<close> and \<open>pgdir\<close> are the addresses of the two
  C objects, and \<open>code\<close> is the image of \<^verbatim>\<open>entryother.S\<close> that the linker puts in. \<open>alive c\<close> says that processor
  \<open>c\<close> sets its flag \<^verbatim>\<open>started\<close>; if it does not the kernel waits for ever, which is \<open>None\<close>.
\<close>

section \<open>startothers\<close>

definition entry_code :: u32 where "entry_code = P2V 0x7000"

definition kstore16 :: "u32 \<times> u16 \<Rightarrow> ('a) vm_scheme \<Rightarrow> ('a) vm_scheme option" where
  "kstore16 w s = (if kptr_ok (fst w) 2 then Some (s\<lparr>ram := put16 (ram s) (unat (V2P (fst w))) (snd w)\<rparr>) else None)"

definition start_ap :: "u32 \<Rightarrow> u32 \<Rightarrow> u8 \<Rightarrow> ('a) vm_scheme \<Rightarrow> (ap_start \<times> ('a) vm_scheme) option" where
  "start_ap mpenter pgdir apicid s = do {
     (stack, s1) \<leftarrow> kalloc s;
     s2 \<leftarrow> kstore (entry_code - 4) (stack + 4096) s1;
     s3 \<leftarrow> kstore (entry_code - 8) mpenter s2;
     s4 \<leftarrow> kstore (entry_code - 12) (V2P pgdir) s3;
     let a = lapicstartap apicid (V2P entry_code);
     s5 \<leftarrow> run kstore16 (ap_memory a) s4;
     Some (a, s5)
   }"

text \<open>What the processor reads when it starts: its stack pointer, the address it jumps to, its page directory.\<close>

definition ap_reads :: "('a) vm_scheme \<Rightarrow> (u32 \<times> u32 \<times> u32) option" where
  "ap_reads s = do {
     stack \<leftarrow> kload (entry_code - 4) s;
     enter \<leftarrow> kload (entry_code - 8) s;
     dir \<leftarrow> kload (entry_code - 12) s;
     Some (stack, enter, dir)
   }"

fun startothers_loop :: "u32 \<Rightarrow> u32 \<Rightarrow> (nat \<Rightarrow> bool) \<Rightarrow> (nat \<Rightarrow> u8) \<Rightarrow> nat \<Rightarrow> nat list \<Rightarrow> ('a) vm_scheme \<Rightarrow>
    ((nat \<times> u32 \<times> u32 \<times> u32) list \<times> ('a) vm_scheme) option" where
  "startothers_loop mpenter pgdir alive ids me [] s = Some ([], s)"
| "startothers_loop mpenter pgdir alive ids me (c # cs) s =
     (if c = me then startothers_loop mpenter pgdir alive ids me cs s
      else do {
        (a, s1) \<leftarrow> start_ap mpenter pgdir (ids c) s;
        r \<leftarrow> ap_reads s1;
        if alive c then do {
          (rs, s2) \<leftarrow> startothers_loop mpenter pgdir alive ids me cs s1;
          Some ((c, r) # rs, s2)
        } else None
      })"

definition startothers :: "bytes \<Rightarrow> nat \<Rightarrow> u32 \<Rightarrow> u32 \<Rightarrow> (nat \<Rightarrow> bool) \<Rightarrow> mpstate \<Rightarrow> nat \<Rightarrow> ('a) vm_scheme \<Rightarrow>
    ((nat \<times> u32 \<times> u32 \<times> u32) list \<times> ('a) vm_scheme) option" where
  "startothers code code_size mpenter pgdir alive mp me s = do {
     s1 \<leftarrow> kwrite entry_code code code_size s;
     startothers_loop mpenter pgdir alive (apicids mp) me [0..<ncpu mp] s1
   }"

text \<open>The entry page directory maps 4 MB twice, by pages of 4 MB.\<close>

definition entrypgdir :: "u32 list" where
  "entrypgdir = (replicate 1024 0)[0 := 0x001 OR 0x002 OR 0x080, unat (drop_bit 22 KERNBASE) := 0x001 OR 0x002 OR 0x080]"

text \<open>The second call of \<^verbatim>\<open>kinit\<close>; the first one is \<open>freerange kend (P2V 0x400000)\<close>.\<close>

definition kinit2 :: "('a) vm_scheme \<Rightarrow> ('a) vm_scheme option" where
  "kinit2 s = freerange (P2V (4 * 1024 * 1024)) (P2V PHYSTOP) s"

section \<open>Every processor gets a stack of its own\<close>

text \<open>Memory below the end of the kernel image holds no free page.\<close>

lemma free_pages_low:
  assumes "freelist s' = freelist s" and "\<And>i. 0x100000 \<le> i \<Longrightarrow> ram s' i = ram s i" and "free_pages s xs"
  shows "free_pages s' xs"
proof -
  have "ram s' i = ram s i" if "x \<in> set xs" "i \<in> page_of x" for x i
  proof (rule assms(2))
    have u: "upage x" using free_pages_upage [OF assms(3) that(1)] .
    have "unat (V2P x) = unat x - unat KERNBASE" using upage_bounds(1) [OF u] by (simp add: V2P_def unat_sub)
    moreover have "unat kend \<le> unat x" using u by (simp add: upage_def word_le_nat_alt)
    ultimately have "0x100000 \<le> unat (V2P x)" by (simp add: kend_def KERNBASE_def)
    then show "0x100000 \<le> i" using that(2) by (simp add: page_of_def)
  qed
  then show ?thesis using free_pages_cong [of s' s xs] assms(1,3) by blast
qed

lemma entry_addresses:
  "unat (V2P (entry_code - 4)) = 0x6FFC" "unat (V2P (entry_code - 8)) = 0x6FF8" "unat (V2P (entry_code - 12)) = 0x6FF4"
  "unat (V2P entry_code) = 0x7000" "V2P entry_code = 0x7000"
  "kptr_ok (entry_code - 4) 4" "kptr_ok (entry_code - 8) 4" "kptr_ok (entry_code - 12) 4"
  by (simp_all add: entry_code_def V2P_def P2V_def KERNBASE_def kptr_ok_def PHYSTOP_def)

lemma warm_reset_writes:
  "run kstore16 (ap_memory (lapicstartap apicid addr)) s =
    Some (s\<lparr>ram := put16 (put16 (ram s) 0x467 0) 0x469 (ucast (drop_bit 4 addr))\<rparr>)"
proof -
  have w: "push_bit 4 0x40 OR 0x67 = (0x467 :: u32)" by simp
  have a: "kptr_ok (P2V 0x467) 2" "kptr_ok (P2V 0x467 + 2) 2" "unat (V2P (P2V 0x467)) = 0x467" "unat (V2P (P2V 0x467 + 2)) = 0x469"
    by (simp_all add: kptr_ok_def V2P_def P2V_def KERNBASE_def PHYSTOP_def)
  show ?thesis using a by (simp add: lapicstartap_def w Let_def kstore16_def)
qed

definition ap_ram :: "u32 \<Rightarrow> u32 \<Rightarrow> u32 \<Rightarrow> bytes \<Rightarrow> bytes" where
  "ap_ram stack mpenter pgdir m =
     put16 (put16 (put32 (put32 (put32 m 0x6FFC (stack + 4096)) 0x6FF8 mpenter) 0x6FF4 (V2P pgdir)) 0x467 0) 0x469 0x700"

lemma start_ap_writes:
  assumes "kalloc s = Some (stack, s1)"
  shows "start_ap mpenter pgdir apicid s =
    Some (lapicstartap apicid 0x7000, s1\<lparr>ram := ap_ram stack mpenter pgdir (ram s1)\<rparr>)"
  by (simp add: start_ap_def assms kstore_def entry_addresses warm_reset_writes ap_ram_def)

lemma ap_ram_reads:
  assumes "ram s = ap_ram stack mpenter pgdir m"
  shows "ap_reads s = Some (stack + 4096, mpenter, V2P pgdir)"
proof -
  have o: "get32 (put16 b i v) j = get32 b j" if "i + 2 \<le> j" for b i v j using that by (auto simp: get32_def put16_def)
  show ?thesis
    by (simp add: ap_reads_def kload_def entry_addresses assms ap_ram_def o get32_put32_other)
qed

lemma ap_ram_high: "0x100000 \<le> i \<Longrightarrow> ap_ram stack mpenter pgdir m i = m i"
  by (simp add: ap_ram_def put32_def put16_def)

lemma startothers_loop_ok:
  assumes "free_pages s xs" and "length (filter (\<lambda>c. c \<noteq> me) cs) \<le> length xs" and "\<And>c. c \<in> set cs \<Longrightarrow> alive c"
  shows "\<exists>s'. startothers_loop mpenter pgdir alive ids me cs s =
      Some (map2 (\<lambda>c x. (c, x + 4096, mpenter, V2P pgdir)) (filter (\<lambda>c. c \<noteq> me) cs) xs, s') \<and>
    free_pages s' (drop (length (filter (\<lambda>c. c \<noteq> me) cs)) xs)"
  using assms
proof (induction cs arbitrary: s xs)
  case (Cons c cs)
  show ?case
  proof (cases "c = me")
    case False
    then obtain x ys where xs: "xs = x # ys" using Cons.prems(2) by (cases xs) simp_all
    let ?s1 = "s\<lparr>freelist := list_head ys\<rparr>"
    have k: "kalloc s = Some (x, ?s1)" "free_pages ?s1 ys" using kalloc_Cons Cons.prems(1) unfolding xs by auto
    let ?s2 = "?s1\<lparr>ram := ap_ram x mpenter pgdir (ram ?s1)\<rparr>"
    have "free_pages ?s2 ys" by (rule free_pages_low [OF _ _ k(2)]) (simp_all add: ap_ram_high)
    moreover have "length (filter (\<lambda>c. c \<noteq> me) cs) \<le> length ys" using Cons.prems(2) False xs by simp
    ultimately obtain s' where s': "startothers_loop mpenter pgdir alive ids me cs ?s2 =
        Some (map2 (\<lambda>c x. (c, x + 4096, mpenter, V2P pgdir)) (filter (\<lambda>c. c \<noteq> me) cs) ys, s')"
      "free_pages s' (drop (length (filter (\<lambda>c. c \<noteq> me) cs)) ys)"
      using Cons.IH [of ?s2 ys] Cons.prems(3) by auto
    have r: "ap_reads ?s2 = Some (x + 4096, mpenter, V2P pgdir)" by (rule ap_ram_reads) simp
    show ?thesis using False s' r Cons.prems(3) [of c] start_ap_writes [OF k(1)] xs by simp
  qed (use Cons in simp)
qed simp

text \<open>
  If there are enough free pages every other processor gets one as its stack, no two of them the same, and finds
  \<open>mpenter\<close> and the boot page directory in the two words below; the pages are no longer free.
\<close>

lemma startothers_stacks:
  assumes "free_pages s xs" and "others = filter (\<lambda>c. c \<noteq> me) [0..<ncpu mp]" and "length others \<le> length xs"
    and "\<And>c. c < ncpu mp \<Longrightarrow> alive c" and "code_size \<le> 4096"
  shows "\<exists>s'. startothers code code_size mpenter pgdir alive mp me s =
      Some (map2 (\<lambda>c x. (c, x + 4096, mpenter, V2P pgdir)) others xs, s') \<and>
    free_pages s' (drop (length others) xs) \<and> distinct (take (length others) xs)"
proof -
  have "kwrite entry_code code code_size s = Some (s\<lparr>ram := blit (ram s) 0x7000 code 0 code_size\<rparr>)"
    using assms(5) entry_addresses(4) by (simp add: kwrite_def kptr_ok_def PHYSTOP_def) (simp add: entry_code_def P2V_def KERNBASE_def)
  moreover have "free_pages (s\<lparr>ram := blit (ram s) 0x7000 code 0 code_size\<rparr>) xs"
    by (rule free_pages_low [OF _ _ assms(1)]) (use assms(5) in \<open>simp_all add: blit_def\<close>)
  from startothers_loop_ok [OF this, of me "[0..<ncpu mp]" alive mpenter pgdir "apicids mp"] assms(2-4)
  obtain s' where "startothers_loop mpenter pgdir alive (apicids mp) me [0..<ncpu mp] (s\<lparr>ram := blit (ram s) 0x7000 code 0 code_size\<rparr>) =
      Some (map2 (\<lambda>c x. (c, x + 4096, mpenter, V2P pgdir)) others xs, s')" "free_pages s' (drop (length others) xs)" by auto
  ultimately show ?thesis using assms(1) by (auto simp: startothers_def free_pages_def)
qed

text \<open>The result of \<open>kalloc\<close> is not tested: without a free page the stack of the processor is the page at address 0.\<close>

lemma start_ap_no_memory:
  assumes "free_pages s []"
  shows "\<exists>a s'. start_ap mpenter pgdir apicid s = Some (a, s') \<and> ap_reads s' = Some (4096, mpenter, V2P pgdir)"
  using start_ap_writes [OF kalloc_Nil [OF assms]] ap_ram_reads [of "s\<lparr>ram := ap_ram 0 mpenter pgdir (ram s)\<rparr>" 0] by simp

text \<open>All memory is below 4 MB, so the second \<^verbatim>\<open>kinit\<close> finds none.\<close>

lemma kinit2_nothing: "kinit2 s = Some s"
proof -
  have "unat (P2V PHYSTOP) - unat (PGROUNDUP (P2V (4 * 1024 * 1024))) = 0"
    by (simp add: P2V_def PHYSTOP_def KERNBASE_def PGROUNDUP_def)
  then show ?thesis by (simp add: kinit2_def freerange_def)
qed

text \<open>The boot page directory maps the first 4 MB at 0 and at \<open>KERNBASE\<close>, and nothing else.\<close>

definition boot_translate :: "u32 \<Rightarrow> u32 option" where
  "boot_translate va =
     (let e = entrypgdir ! unat (drop_bit 22 va)
      in if e AND 0x081 = 0x081 then Some ((e AND NOT 0x3FFFFF) OR (va AND 0x3FFFFF)) else None)"

lemma boot_translate_kernel:
  assumes "unat a < 0x400000"
  shows "boot_translate a = Some a" "boot_translate (P2V a) = Some a"
proof -
  have m: "(0x3FFFFF :: u32) = mask 22" by (simp add: mask_eq_exp_minus_1)
  have "take_bit 22 (unat a) = unat a" using assms by (intro take_bit_nat_eq_self) simp
  then have t: "a AND 0x3FFFFF = a" unfolding m take_bit_eq_mask [symmetric] by (simp add: word_unat_eq_iff unsigned_take_bit_eq)
  have d0: "unat (drop_bit 22 a) = 0" using assms by (simp add: drop_bit_eq_div unat_div)
  have u: "unat (P2V a) = unat a + 2 ^ 31" using assms by (simp add: P2V_def KERNBASE_def unat_word_ariths)
  have d1: "unat (drop_bit 22 (P2V a)) = 512" using assms u by (simp add: drop_bit_eq_div unat_div)
  have "take_bit 22 (unat (P2V a)) = unat a" using assms mod_mult_self1 [of "unat a" 512 4194304] by (simp add: u take_bit_nat_def)
  then have t1: "P2V a AND 0x3FFFFF = a" unfolding m take_bit_eq_mask [symmetric] by (simp add: word_unat_eq_iff unsigned_take_bit_eq)
  have k: "unat (drop_bit 22 KERNBASE) = 512" by (simp add: KERNBASE_def drop_bit_eq_div unat_div)
  have e: "entrypgdir ! 0 = 0x083" "entrypgdir ! 512 = 0x083" by (simp_all add: entrypgdir_def k)
  show "boot_translate a = Some a" "boot_translate (P2V a) = Some a"
    by (simp_all add: boot_translate_def d0 d1 e t t1)
qed

end
