(* ===== verification/Spec2Isabelle.thy ===== *)
theory Spec2Isabelle
  imports SysA2 Sjf Wakeup VmProps ProcBProps Lazy MkfsRead Wolfie Kbd Umalloc ShellProps Mp Boot UserProgs Startup
begin

text \<open>
  Verification of the CS344 operating-systems lab: xv6 kernels with a system call that copies a picture
  (Assignment 1), with a hybrid scheduler (Assignment 2), with lazy allocation (Assignment 3, Part A) and with demand paging and
  swapping (Part B). Paths below are those of \<^verbatim>\<open>Assignment 3/G17/Part_B\<close> unless another assignment is named.

  \<^bold>\<open>The program and its theories.\<close>

  \<^item> \<^emph>\<open>Boot.\<close> \<^verbatim>\<open>bootmain.c\<close> loads the kernel (Boot); \<^verbatim>\<open>mp.c\<close> finds the processors (Mp); \<^verbatim>\<open>mmu.h\<close>, \<open>seginit\<close> and
    \<open>tvinit\<close> set up segments and gates (Segments); \<^verbatim>\<open>lapic.c\<close> drives the interrupt controller and the clock (Lapic);
    \<^verbatim>\<open>main.c\<close> starts the other processors (Startup).
  \<^item> \<^emph>\<open>Locks and storage.\<close> \<^verbatim>\<open>spinlock.c\<close>, \<^verbatim>\<open>sleeplock.c\<close> (Locks); \<^verbatim>\<open>bio.c\<close> over \<^verbatim>\<open>memide.c\<close> with its linked list (Bio) and as a store
    of blocks (Bstore); \<^verbatim>\<open>log.c\<close> (Log); \<^verbatim>\<open>fs.c\<close> (Fs), the invariant between its log calls (Tx), its allocators (FsAlloc, FsAllocProps) and
    reading (FsRead); \<^verbatim>\<open>mkfs.c\<close> (Mkfs), its invariant (MkfsInv), its run (MkfsRun), the image it makes (MkfsProps) and what the kernel reads
    there (MkfsRead).
  \<^item> \<^emph>\<open>Memory.\<close> The page allocator (Kmem, KmemProps); \<^verbatim>\<open>vm.c\<close> (Vm, VmInv, VmProps); \<^verbatim>\<open>paging.c\<close>, the page transfers of \<^verbatim>\<open>bio.c\<close> and
    \<open>copyuvm\<close> (Swap, SwapProps); Part A's \<^verbatim>\<open>sysproc.c\<close>, \<^verbatim>\<open>trap.c\<close> and \<^verbatim>\<open>vm.c\<close> (Lazy).
  \<^item> \<^emph>\<open>Files and programs.\<close> \<^verbatim>\<open>file.c\<close>, \<^verbatim>\<open>pipe.c\<close> (File, PipeProps); \<^verbatim>\<open>sysfile.c\<close>, \<^verbatim>\<open>syscall.c\<close> (Sysfile); \<^verbatim>\<open>exec.c\<close> (Exec); the system call
    of Assignment 1 (Wolfie).
  \<^item> \<^emph>\<open>Processes.\<close> \<^verbatim>\<open>Assignment 2/g17hybrid\<close>: \<^verbatim>\<open>proc.c\<close> and \<^verbatim>\<open>trap.c\<close> (Proc), the policy of its scheduler (ProcSched), the
    table as a state machine (ProcInv), its guarantees (ProcProps), \<^verbatim>\<open>sysproc.c\<close> and \<^verbatim>\<open>syscall.c\<close> (SysA2); the kernel without preemption of
    \<^verbatim>\<open>Assignment 2/g17\<close> (Sjf). Part B: \<^verbatim>\<open>proc.c\<close> (ProcB), \<^verbatim>\<open>sysproc.c\<close>, \<^verbatim>\<open>syscall.c\<close>, \<^verbatim>\<open>trap.c\<close> and the scheduler loop (SysB), the well-formedness
    of its table (ProcBInv) and its guarantees (ProcBProps). The contract of \<open>wakeup\<close> that both provide (Wakeup).
  \<^item> \<^emph>\<open>Terminal and user level.\<close> \<^verbatim>\<open>console.c\<close> (Console), \<^verbatim>\<open>kbd.c\<close> (Kbd), \<^verbatim>\<open>printf.c\<close> and \<open>cprintf\<close> (Printing); \<^verbatim>\<open>string.c\<close> and \<^verbatim>\<open>ulib.c\<close>
    (CString); \<^verbatim>\<open>umalloc.c\<close> (Umalloc); \<^verbatim>\<open>sh.c\<close> (Shell, ShellProps); \<^verbatim>\<open>wc.c\<close>, \<^verbatim>\<open>cat.c\<close>, \<^verbatim>\<open>echo.c\<close>, \<^verbatim>\<open>ls.c\<close> and the loop of the shell (UserProgs).
  \<^item> Prelude and Words hold the integer types, raw bytes, first-match search and page arithmetic that the others share.

  \<^bold>\<open>How the parts interact.\<close> The states are extensible records that grow with the layers, as the code does: the block
  store, then the fields of \<^verbatim>\<open>struct log\<close> (Log), the superblock and the inode cache (Fs), RAM and the free list
  (Kmem), open files and pipes (File); Part B's process table holds that whole machine as a component. An operation is one function of the
  state; an upper layer calls the functions of the lower one in the order of the code. Pointers into tables are indices, pointers into
  memory are 32-bit words. Addresses, offsets, sizes and the other unsigned integers that the code computes with are words of their width.
  The signed counters of pids, context switches and the ticks of a burst are integers that wrap around explicitly (\<open>wrap32\<close>),
  in Part B the counter of pids only; the reference count of a buffer wraps below zero (\<open>dec_refcnt\<close>). Reference counts of
  files and inodes, burst times, results of system calls and indices into tables, which no run brings near the limits of their C types or
  which the code only compares and copies, are \<open>nat\<close> or \<open>int\<close>. A critical section is one function; where the
  code interleaves, there is an inductive step relation: memory accesses of the spin lock, sections of the buffer cache, file system calls
  against the log, reads and writes of a pipe, processes on several CPUs, events of the Part B kernel, which run on one processor and in
  which waiting for the disk or the log is part of the call that waits.

  \<^bold>\<open>Errors.\<close> \<open>None\<close> is panic, a null dereference, an access outside memory, or waiting for ever; for the \<open>partial_function\<close>s
  (searches for a NUL, the free list of \<open>malloc\<close>, page directories, the boot loops) it is a loop that never ends, and that they end is proved
  where it matters. Failures that the code reports are the values it returns.

  \<^bold>\<open>Interfaces.\<close> A locale states what a client relies on, and is interpreted on the model: \<open>page_allocator\<close> (Kmem), \<open>bounded_queue\<close>
  (PipeProps), \<open>block_reader\<close> (Tx), \<open>wakeup_table\<close> (Wakeup, once for each kernel).

  \<^bold>\<open>What is shown.\<close>

  \<^item> \<^emph>\<open>Processes.\<close> What the scheduler picks, when a process loses its CPU, the contract of \<open>exit\<close> and \<open>wait\<close>; under
    every interleaving a CPU and its process belong together and parents exist; pids are unique as long as their 32-bit counter has
    not wrapped around, which the code does not test. In Part B the same holds of the table in every run, and every runnable process
    is served within one round of that run.
  \<^item> \<^emph>\<open>Storage.\<close> Mutual exclusion; one copy of every cached block, in LRU order; the cache implements the block store; a
    crash at any write leaves a transaction whole or absent, and recovery may itself crash; the log never overflows if it has room for what
    the calls may write, which the 30 blocks that \<^verbatim>\<open>mkfs\<close> gives it are for calls of nine blocks but not of ten; the allocators take the first free
    blocks and give them back; \<^verbatim>\<open>mkfs\<close> builds a consistent image, which the kernel mounts and reads back by name.
  \<^item> \<^emph>\<open>Memory.\<close> No page is handed out twice; \<open>mappages\<close> changes no other translation; what the fault handlers do and fail to
    check, also when no page is free and Part A clears address 0 of the process; the search for a victim is the search for a present page; the descriptor tables keep user code out of the kernel.
  \<^item> \<^emph>\<open>Files and terminal.\<close> Pipes are bounded queues, without lost wakeups as long as no writer is killed; the console is a line editor on lists; \<open>wolfie\<close> returns
    the bytes of its file and releases the file and its inode.
  \<^item> \<^emph>\<open>User level.\<close> \<open>malloc\<close> keeps blocks disjoint, \<open>memmove\<close> copies, \<open>printf\<close> prints what \<open>atoi\<close> reads, the shell's parser
    ends and inverts printing.

  \<^bold>\<open>Bounds and fuel.\<close> Each round of the loop of \<open>balloc_page\<close> takes a free block and stores it in an array of \<open>NUM\<close> = 100000 entries, beyond
  which the code would write out of bounds (\<open>None\<close>); the fuel is \<open>NUM + 2\<close>, so it never ends the loop first. The shell's parser has \<open>4 * length + 4\<close> units, which suffices for every line. The digits of \<open>itoa\<close> have the number itself as fuel. \<^verbatim>\<open>mkfs\<close> succeeds for images below block 4096, the limit of its one bitmap block. The theorems about
  \<^verbatim>\<open>mkfs\<close> take at most 198 files of at most 140 blocks, the limits of the superblock and of an inode.

  \<^bold>\<open>Parameters.\<close> Assignment 2 has no copy of the memory and file code, so its processes call functions of a record \<open>env\<close>; its calls on
  files and the store of the missing \<^verbatim>\<open>struct processInfo\<close> are arguments too. Device drivers outside the repository, user programs between
  traps, the bytes of a disk drive, of the BIOS and of the clock, and the addresses that the linker chooses are arguments.

  \<^bold>\<open>Not modelled.\<close> Assembler (\<^verbatim>\<open>entry.S\<close>, \<^verbatim>\<open>swtch.S\<close>, \<^verbatim>\<open>trapasm.S\<close>, \<^verbatim>\<open>vectors.S\<close> and others): what the C code relies on is written into the
  definitions that use it. \<^verbatim>\<open>ide.c\<close>, \<^verbatim>\<open>ioapic.c\<close>, \<^verbatim>\<open>processInfo.h\<close> are not in the repository, and \<^verbatim>\<open>kalloc.c\<close> only as the lines quoted in
  \<^verbatim>\<open>kernel.asm\<close>. Test programs and programs that pass their arguments to a single system call (\<^verbatim>\<open>usertests.c\<close>, \<^verbatim>\<open>memtest.c\<close>, \<^verbatim>\<open>kill.c\<close> and others)
  have no logic of their own. Debug output (\<open>procdump\<close>, the printing part of \<open>panic\<close>), TLB flushes and loops that wait for a device
  change nothing that is stated. Files that several assignments share are modelled once.
\<close>

end
